(* ===== verification/Dlos_Prelude.thy ===== *)
theory Dlos_Prelude
  imports Main "HOL-Library.Word"
begin

text \<open>
  The vocabulary shared by every component theory: the fixed-width integer types of
  \<^verbatim>\<open>include/type.h\<close>, the flat byte-addressed memory the kernel copies messages and
  buffers through, the copy and fill loops of \<^verbatim>\<open>lib/string.asm\<close>, and the values that
  stand for a run that does not return normally (a failed \<^verbatim>\<open>assert\<close>, a \<^verbatim>\<open>panic\<close>, an
  access outside an array, a loop that never ends).
\<close>

unbundle bit_operations_syntax

named_theorems mem_simps
  \<open>reads of the byte memory after a write\<close>

section \<open>Integer types\<close>

type_synonym u8 = "8 word"
type_synonym u16 = "16 word"
type_synonym u32 = "32 word"
type_synonym u64 = "64 word"

section \<open>Abnormal ends\<close>

text \<open>
  \<^verbatim>\<open>assert(e)\<close> calls \<^verbatim>\<open>assertion_failure\<close>, which prints and spins; \<^verbatim>\<open>panic\<close> halts the
  machine. Neither returns to its caller, so an operation of the model returns either the
  fault that stopped it or its result. Each fault carries the source line that raises it.
\<close>

datatype fault =
    Assert nat
  | Panic nat
  | OutOfBounds nat
  | Hang nat

type_synonym 'a result = "fault + 'a"

definition check :: "nat \<Rightarrow> bool \<Rightarrow> 'a result \<Rightarrow> 'a result" where
  "check ln c k = (if c then k else Inl (Assert ln))"

definition bindE :: "'a result \<Rightarrow> ('a \<Rightarrow> 'b result) \<Rightarrow> 'b result" where
  "bindE r f = (case r of Inl e \<Rightarrow> Inl e | Inr x \<Rightarrow> f x)"

definition returns :: "nat \<Rightarrow> 'a option \<Rightarrow> 'a result" where
  "returns ln r = (case r of None \<Rightarrow> Inl (Hang ln) | Some x \<Rightarrow> Inr x)"

text \<open>A run of consecutive \<^verbatim>\<open>assert\<close>s, each with its line.\<close>

fun checks :: "(nat \<times> bool) list \<Rightarrow> 'a result \<Rightarrow> 'a result" where
  "checks [] k = k"
| "checks ((ln, c) # cs) k = check ln c (checks cs k)"

lemma check_True [simp]: "check ln True k = k"
  by (simp add: check_def)

lemma check_False [simp]: "check ln False k = Inl (Assert ln)"
  by (simp add: check_def)

lemma check_holds: "c \<Longrightarrow> check ln c k = k"
  by simp

lemma check_eq_Inr [simp]: "check ln c k = Inr x \<longleftrightarrow> c \<and> k = Inr x"
  by (simp add: check_def)

lemma bindE_Inl [simp]: "bindE (Inl e) f = Inl e"
  by (simp add: bindE_def)

lemma bindE_Inr [simp]: "bindE (Inr x) f = f x"
  by (simp add: bindE_def)

lemma bindE_eq_Inr: "bindE r f = Inr y \<longleftrightarrow> (\<exists>x. r = Inr x \<and> f x = Inr y)"
  by (cases r) simp_all

lemma bindE_assoc: "bindE (bindE r f) g = bindE r (\<lambda>x. bindE (f x) g)"
  by (cases r) simp_all

lemma returns_Some [simp]: "returns ln (Some x) = Inr x"
  by (simp add: returns_def)

lemma returns_None [simp]: "returns ln None = Inl (Hang ln)"
  by (simp add: returns_def)

lemma returns_eq_Inr [simp]: "returns ln r = Inr x \<longleftrightarrow> r = Some x"
  by (cases r) simp_all

lemma checks_holds: "list_all snd cs \<Longrightarrow> checks cs k = k"
  by (induction cs k rule: checks.induct) simp_all

lemma checks_eq_Inr [simp]: "checks cs k = Inr x \<longleftrightarrow> list_all snd cs \<and> k = Inr x"
  by (induction cs k rule: checks.induct) auto

section \<open>Byte memory\<close>

type_synonym memory = "u32 \<Rightarrow> u8"

text \<open>\<^verbatim>\<open>memcpy\<close> copies upwards one byte at a time, so an overlapping copy sees the bytes
  it has already written.\<close>

fun memcpy :: "memory \<Rightarrow> u32 \<Rightarrow> u32 \<Rightarrow> nat \<Rightarrow> memory" where
  "memcpy h dst src 0 = h"
| "memcpy h dst src (Suc n) = memcpy (h(dst := h src)) (dst + 1) (src + 1) n"

fun memset :: "memory \<Rightarrow> u32 \<Rightarrow> u8 \<Rightarrow> nat \<Rightarrow> memory" where
  "memset h dst ch 0 = h"
| "memset h dst ch (Suc n) = memset (h(dst := ch)) (dst + 1) ch n"

fun store_bytes :: "memory \<Rightarrow> u32 \<Rightarrow> u8 list \<Rightarrow> memory" where
  "store_bytes h a [] = h"
| "store_bytes h a (b # bs) = store_bytes (h(a := b)) (a + 1) bs"

definition load_bytes :: "memory \<Rightarrow> u32 \<Rightarrow> nat \<Rightarrow> u8 list" where
  "load_bytes h a n = map (\<lambda>k. h (a + of_nat k)) [0..<n]"

definition region :: "u32 \<Rightarrow> nat \<Rightarrow> u32 set" where
  "region a n = (\<lambda>k. a + of_nat k) ` {..<n}"

definition le32 :: "u32 \<Rightarrow> u8 list" where
  "le32 w = [ucast w, ucast (drop_bit 8 w), ucast (drop_bit 16 w), ucast (drop_bit 24 w)]"

definition load32 :: "memory \<Rightarrow> u32 \<Rightarrow> u32" where
  "load32 h a = ucast (h a) OR push_bit 8 (ucast (h (a + 1)))
     OR push_bit 16 (ucast (h (a + 2))) OR push_bit 24 (ucast (h (a + 3)))"

definition store32 :: "memory \<Rightarrow> u32 \<Rightarrow> u32 \<Rightarrow> memory" where
  "store32 h a w = store_bytes h a (le32 w)"

section \<open>Reads after writes\<close>

lemma region_0 [simp]: "region a 0 = {}"
  by (simp add: region_def)

lemma region_Suc: "region a (Suc n) = insert a (region (a + 1) n)"
proof -
  have "{..<Suc n} = insert 0 (Suc ` {..<n})"
    by (simp add: lessThan_Suc_eq_insert_0)
  then show ?thesis
    by (simp add: region_def image_image add.assoc)
qed

lemma region_memI: "k < n \<Longrightarrow> a + of_nat k \<in> region a n"
  by (auto simp: region_def)

lemma of_nat_inj_u32: "k < 2 ^ 32 \<Longrightarrow> l < 2 ^ 32 \<Longrightarrow> (of_nat k :: u32) = of_nat l \<longleftrightarrow> k = l"
proof
  assume k: "k < 2 ^ 32" and l: "l < 2 ^ 32" and "(of_nat k :: u32) = of_nat l"
  then have "unat (of_nat k :: u32) = unat (of_nat l :: u32)" by simp
  with k l show "k = l" by (simp add: unat_of_nat)
qed simp

lemma notin_region_tail: "n < 2 ^ 32 \<Longrightarrow> a \<notin> region (a + 1) n"
proof
  assume n: "n < 2 ^ 32" and "a \<in> region (a + 1) n"
  then obtain k where k: "k < n" and "a = a + 1 + of_nat k"
    by (auto simp: region_def)
  then have "(of_nat (Suc k) :: u32) = of_nat 0"
    by (simp add: add.assoc)
  moreover have "Suc k < 2 ^ 32" using k n by simp
  ultimately show False
    using of_nat_inj_u32 [of "Suc k" 0] by simp
qed

lemma memcpy_frame [mem_simps]: "x \<notin> region dst n \<Longrightarrow> memcpy h dst src n x = h x"
  by (induction h dst src n rule: memcpy.induct) (auto simp: region_Suc)

lemma memset_frame [mem_simps]: "x \<notin> region dst n \<Longrightarrow> memset h dst ch n x = h x"
  by (induction h dst ch n rule: memset.induct) (auto simp: region_Suc)

lemma store_bytes_frame [mem_simps]:
  "x \<notin> region a (length bs) \<Longrightarrow> store_bytes h a bs x = h x"
  by (induction h a bs rule: store_bytes.induct) (auto simp: region_Suc)

lemma memcpy_copies:
  "region dst n \<inter> region src n = {} \<Longrightarrow> n < 2 ^ 32 \<Longrightarrow> k < n \<Longrightarrow>
   memcpy h dst src n (dst + of_nat k) = h (src + of_nat k)"
proof (induction n arbitrary: h dst src k)
  case 0
  then show ?case by simp
next
  case (Suc n)
  show ?case
  proof (cases k)
    case 0
    with Suc notin_region_tail [of n dst] show ?thesis
      by (simp add: memcpy_frame)
  next
    case (Suc l)
    have l: "l < n" using Suc.prems Suc by simp
    have disj: "region (dst + 1) n \<inter> region (src + 1) n = {}"
      using Suc.prems by (auto simp: region_Suc)
    have "src + 1 + of_nat l \<in> region (src + 1) n"
      using l by (rule region_memI)
    then have "src + 1 + of_nat l \<noteq> dst"
      using Suc.prems by (auto simp: region_Suc)
    moreover have "memcpy (h(dst := h src)) (dst + 1) (src + 1) n (dst + 1 + of_nat l)
        = (h(dst := h src)) (src + 1 + of_nat l)"
      using disj l Suc.prems by (intro Suc.IH) simp_all
    ultimately show ?thesis
      using Suc by (simp add: add.assoc)
  qed
qed

lemma memset_fills:
  "n < 2 ^ 32 \<Longrightarrow> k < n \<Longrightarrow> memset h dst ch n (dst + of_nat k) = ch"
proof (induction n arbitrary: h dst k)
  case 0
  then show ?case by simp
next
  case (Suc n)
  have "memset (h(dst := ch)) (dst + 1) ch n (dst + 1 + of_nat l) = ch" if "l < n" for l
    using that Suc.prems by (intro Suc.IH) simp_all
  with Suc.prems notin_region_tail [of n dst] show ?case
    by (cases k) (simp_all add: memset_frame add.assoc)
qed

lemma store_bytes_stores:
  "length bs < 2 ^ 32 \<Longrightarrow> k < length bs \<Longrightarrow> store_bytes h a bs (a + of_nat k) = bs ! k"
proof (induction bs arbitrary: h a k)
  case Nil
  then show ?case by simp
next
  case (Cons b bs)
  have "store_bytes (h(a := b)) (a + 1) bs (a + 1 + of_nat l) = bs ! l" if "l < length bs" for l
    using that Cons.prems by (intro Cons.IH) simp_all
  with Cons.prems notin_region_tail [of "length bs" a] show ?case
    by (cases k) (simp_all add: store_bytes_frame add.assoc)
qed

lemma length_load_bytes [simp]: "length (load_bytes h a n) = n"
  by (simp add: load_bytes_def)

lemma load_store_bytes:
  "length bs < 2 ^ 32 \<Longrightarrow> load_bytes (store_bytes h a bs) a (length bs) = bs"
  by (rule nth_equalityI) (simp_all add: load_bytes_def store_bytes_stores)

lemma load_bytes_cong:
  "(\<And>x. x \<in> region a n \<Longrightarrow> h x = h' x) \<Longrightarrow> load_bytes h a n = load_bytes h' a n"
  by (simp add: load_bytes_def region_memI)

lemma load_bytes_store_frame:
  "region a n \<inter> region b (length bs) = {} \<Longrightarrow> load_bytes (store_bytes h b bs) a n = load_bytes h a n"
  by (intro load_bytes_cong store_bytes_frame) auto

lemma load_bytes_memcpy_frame:
  "region a n \<inter> region b l = {} \<Longrightarrow> load_bytes (memcpy h b c l) a n = load_bytes h a n"
  by (intro load_bytes_cong memcpy_frame) auto

lemma load_bytes_memcpy:
  "region dst n \<inter> region src n = {} \<Longrightarrow> n < 2 ^ 32 \<Longrightarrow>
   load_bytes (memcpy h dst src n) dst n = load_bytes h src n"
  by (rule nth_equalityI) (simp_all add: load_bytes_def memcpy_copies)

lemma memcpy_self [simp]: "memcpy h a a n = h"
  by (induction n arbitrary: h a) simp_all

lemma load_bytes_append: "load_bytes h a (m + n) = load_bytes h a m @ load_bytes h (a + of_nat m) n"
proof -
  have "[m..<m + n] = map (\<lambda>k. k + m) [0..<n]"
    by (simp add: map_add_upt add.commute)
  moreover have "[0..<m + n] = [0..<m] @ [m..<m + n]"
    by (rule upt_add_eq_append) simp
  ultimately show ?thesis
    by (simp add: load_bytes_def ac_simps)
qed

lemma store_bytes_append:
  "store_bytes h a (xs @ ys) = store_bytes (store_bytes h a xs) (a + of_nat (length xs)) ys"
  by (induction xs arbitrary: h a) (simp_all add: add.assoc)

lemma unat_of_nat_u32: "n < 2 ^ 32 \<Longrightarrow> unat (of_nat n :: u32) = n"
  by (simp add: unat_of_nat)

lemma sint_of_nat_small: "n < 2 ^ 31 \<Longrightarrow> sint (of_nat n :: u32) = int n"
  by (simp add: signed_of_nat signed_take_bit_int_eq_self)

lemma length_le32 [simp]: "length (le32 w) = 4"
  by (simp add: le32_def)

lemma bytes_of_u32:
  "(ucast (ucast w :: u8) :: u32) OR push_bit 8 (ucast (ucast (drop_bit 8 w) :: u8))
     OR push_bit 16 (ucast (ucast (drop_bit 16 w) :: u8))
     OR push_bit 24 (ucast (ucast (drop_bit 24 w) :: u8)) = w"
proof (rule bit_word_eqI)
  fix n :: nat
  assume "n < LENGTH(32)"
  then have "n < 8 \<or> 8 \<le> n \<and> n < 16 \<or> 16 \<le> n \<and> n < 24 \<or> 24 \<le> n \<and> n < 32"
    by auto
  then show "bit ((ucast (ucast w :: u8) :: u32) OR push_bit 8 (ucast (ucast (drop_bit 8 w) :: u8))
     OR push_bit 16 (ucast (ucast (drop_bit 16 w) :: u8))
     OR push_bit 24 (ucast (ucast (drop_bit 24 w) :: u8))) n = bit w n"
    by (elim disjE) (auto simp: bit_simps)
qed

lemma load32_store32 [mem_simps]: "load32 (store32 h a w) a = w"
proof -
  have s: "store32 h a w (a + of_nat k) = le32 w ! k" if "k < 4" for k
    using that store_bytes_stores [of "le32 w" k h a] by (simp add: store32_def)
  from s [of 0] s [of 1] s [of 2] s [of 3] show ?thesis
    by (simp add: load32_def le32_def bytes_of_u32)
qed

lemma store32_frame [mem_simps]: "x \<notin> region a 4 \<Longrightarrow> store32 h a w x = h x"
  by (simp add: store32_def store_bytes_frame)

lemma load32_cong:
  assumes "\<And>x. x \<in> region a 4 \<Longrightarrow> h x = h' x"
  shows "load32 h a = load32 h' a"
proof -
  have "h (a + of_nat k) = h' (a + of_nat k)" if "k < 4" for k
    using that assms by (simp add: region_memI)
  from this [of 0] this [of 1] this [of 2] this [of 3] show ?thesis
    by (simp add: load32_def)
qed

section \<open>Simulation\<close>

text \<open>
  The contract between a component with steps and its specification: every initial state is
  related to an initial state of the specification, and every step of the component to a step
  of the specification. What holds in every reachable state of the specification then holds,
  through the relation, in every reachable state of the component.
\<close>

locale simulation =
  fixes init :: "'c \<Rightarrow> bool" and step :: "'c \<Rightarrow> 'c \<Rightarrow> bool"
    and ainit :: "'a \<Rightarrow> bool" and astep :: "'a \<Rightarrow> 'a \<Rightarrow> bool"
    and rel :: "'c \<Rightarrow> 'a \<Rightarrow> bool"
  assumes init_sim: "init s \<Longrightarrow> \<exists>a. ainit a \<and> rel s a"
    and step_sim: "rel s a \<Longrightarrow> step s s' \<Longrightarrow> \<exists>a'. astep a a' \<and> rel s' a'"
begin

lemma reach_sim:
  assumes "init s\<^sub>0" "step\<^sup>*\<^sup>* s\<^sub>0 s"
  shows "\<exists>a\<^sub>0 a. ainit a\<^sub>0 \<and> astep\<^sup>*\<^sup>* a\<^sub>0 a \<and> rel s a"
  using assms(2)
proof (induction rule: rtranclp_induct)
  case base
  with init_sim [OF assms(1)] show ?case by blast
next
  case (step s s')
  then obtain a\<^sub>0 a where "ainit a\<^sub>0" "astep\<^sup>*\<^sup>* a\<^sub>0 a" "rel s a" by blast
  moreover obtain a' where "astep a a'" "rel s' a'"
    using step_sim [OF \<open>rel s a\<close> step.hyps(2)] by blast
  ultimately show ?case by (blast intro: rtranclp.rtrancl_into_rtrancl)
qed

lemma reach_invariant:
  assumes "init s\<^sub>0" "step\<^sup>*\<^sup>* s\<^sub>0 s"
    and base: "\<And>a. ainit a \<Longrightarrow> P a" and pres: "\<And>a a'. P a \<Longrightarrow> astep a a' \<Longrightarrow> P a'"
  shows "\<exists>a. P a \<and> rel s a"
proof -
  obtain a\<^sub>0 a where a: "ainit a\<^sub>0" "astep\<^sup>*\<^sup>* a\<^sub>0 a" "rel s a"
    using reach_sim [OF assms(1, 2)] by blast
  from a(2) have "P a"
    using base [OF a(1)] by (induction rule: rtranclp_induct) (auto intro: pres)
  with a(3) show ?thesis by blast
qed

end

end
