(* ===== verification/Dlos_Params.thy ===== *)
theory Dlos_Params
  imports Dlos_Prelude
begin

text \<open>
  The numeric parameters of the headers \<^verbatim>\<open>include/sys/const.h\<close>, \<^verbatim>\<open>proc.h\<close>,
  \<^verbatim>\<open>protect.h\<close>, \<^verbatim>\<open>tty.h\<close>, \<^verbatim>\<open>console.h\<close> and \<^verbatim>\<open>keyboard.h\<close> under their
  source names. They are abbreviations, polymorphic where the source uses one macro at
  several integer types, so that the simplifier sees the numeral.
\<close>

section \<open>Processes\<close>

abbreviation (input) NR_TASKS :: "'a::numeral" where "NR_TASKS \<equiv> 5"
abbreviation (input) NR_PROCS :: "'a::numeral" where "NR_PROCS \<equiv> 32"
abbreviation (input) NR_NATIVE_PROCS :: "'a::numeral" where "NR_NATIVE_PROCS \<equiv> 4"
abbreviation (input) PROCS_BASE :: "'a::numeral" where "PROCS_BASE \<equiv> 0xA00000"
abbreviation (input) PROC_IMAGE_SIZE_DEFAULT :: "'a::numeral" where "PROC_IMAGE_SIZE_DEFAULT \<equiv> 0x100000"

text \<open>Number of slots of \<^verbatim>\<open>proc_table\<close>, \<^verbatim>\<open>NR_TASKS + NR_PROCS\<close>.\<close>

abbreviation (input) nr_slots :: "'a::numeral" where "nr_slots \<equiv> 37"

section \<open>Process flags and message routing\<close>

abbreviation (input) SENDING :: "'a::numeral" where "SENDING \<equiv> 0x02"
abbreviation (input) RECEIVING :: "'a::numeral" where "RECEIVING \<equiv> 0x04"
abbreviation (input) WAITING :: "'a::numeral" where "WAITING \<equiv> 0x08"
abbreviation (input) HANGING :: "'a::numeral" where "HANGING \<equiv> 0x10"
abbreviation (input) FREE_SLOT :: "'a::numeral" where "FREE_SLOT \<equiv> 0x20"

abbreviation (input) INVALID_DRIVER :: int where "INVALID_DRIVER \<equiv> -20"
abbreviation (input) INTERRUPT :: int where "INTERRUPT \<equiv> -10"
abbreviation (input) TASK_TTY :: "'a::zero" where "TASK_TTY \<equiv> 0"
abbreviation (input) TASK_SYS :: "'a::one" where "TASK_SYS \<equiv> 1"
abbreviation (input) TASK_HD :: "'a::numeral" where "TASK_HD \<equiv> 2"
abbreviation (input) TASK_FS :: "'a::numeral" where "TASK_FS \<equiv> 3"
abbreviation (input) TASK_MM :: "'a::numeral" where "TASK_MM \<equiv> 4"
abbreviation (input) INIT :: "'a::numeral" where "INIT \<equiv> 5"

text \<open>\<^verbatim>\<open>ANY\<close> and \<^verbatim>\<open>NO_TASK\<close> are \<^verbatim>\<open>NR_TASKS + NR_PROCS\<close> plus 10 and plus 20.\<close>

abbreviation (input) ANY :: int where "ANY \<equiv> 47"
abbreviation (input) NO_TASK :: int where "NO_TASK \<equiv> 57"

abbreviation (input) MAX_TICKS :: int where "MAX_TICKS \<equiv> 0x7FFFABCD"
abbreviation (input) HZ :: int where "HZ \<equiv> 100"

abbreviation (input) SEND :: int where "SEND \<equiv> 1"
abbreviation (input) RECEIVE :: int where "RECEIVE \<equiv> 2"
abbreviation (input) BOTH :: int where "BOTH \<equiv> 3"

section \<open>Message types (\<^verbatim>\<open>enum msgtype\<close>)\<close>

abbreviation (input) HARD_INT :: "'a::one" where "HARD_INT \<equiv> 1"
abbreviation (input) GET_TICKS :: "'a::numeral" where "GET_TICKS \<equiv> 2"
abbreviation (input) GET_PID :: "'a::numeral" where "GET_PID \<equiv> 3"
abbreviation (input) OPEN :: "'a::numeral" where "OPEN \<equiv> 4"
abbreviation (input) CLOSE :: "'a::numeral" where "CLOSE \<equiv> 5"
abbreviation (input) READ :: "'a::numeral" where "READ \<equiv> 6"
abbreviation (input) WRITE :: "'a::numeral" where "WRITE \<equiv> 7"
abbreviation (input) LSEEK :: "'a::numeral" where "LSEEK \<equiv> 8"
abbreviation (input) STAT :: "'a::numeral" where "STAT \<equiv> 9"
abbreviation (input) UNLINK :: "'a::numeral" where "UNLINK \<equiv> 10"
abbreviation (input) DISK_LOG :: "'a::numeral" where "DISK_LOG \<equiv> 11"
abbreviation (input) SUSPEND_PROC :: "'a::numeral" where "SUSPEND_PROC \<equiv> 12"
abbreviation (input) RESUME_PROC :: "'a::numeral" where "RESUME_PROC \<equiv> 13"
abbreviation (input) EXEC :: "'a::numeral" where "EXEC \<equiv> 14"
abbreviation (input) WAIT :: "'a::numeral" where "WAIT \<equiv> 15"
abbreviation (input) FORK :: "'a::numeral" where "FORK \<equiv> 16"
abbreviation (input) EXIT :: "'a::numeral" where "EXIT \<equiv> 17"
abbreviation (input) SYSCALL_RET :: "'a::numeral" where "SYSCALL_RET \<equiv> 18"
abbreviation (input) DEV_OPEN :: "'a::numeral" where "DEV_OPEN \<equiv> 1001"
abbreviation (input) DEV_CLOSE :: "'a::numeral" where "DEV_CLOSE \<equiv> 1002"
abbreviation (input) DEV_READ :: "'a::numeral" where "DEV_READ \<equiv> 1003"
abbreviation (input) DEV_WRITE :: "'a::numeral" where "DEV_WRITE \<equiv> 1004"
abbreviation (input) DEV_IOCTL :: "'a::numeral" where "DEV_IOCTL \<equiv> 1005"

section \<open>Layout of \<^verbatim>\<open>MESSAGE\<close>\<close>

text \<open>
  Byte offsets of the members of \<^verbatim>\<open>MESSAGE\<close> (the build packs structures): the two header
  words, then the union, of which \<^verbatim>\<open>struct mess3\<close> is the largest member.
\<close>

abbreviation (input) msg_source_off :: u32 where "msg_source_off \<equiv> 0"
abbreviation (input) msg_type_off :: u32 where "msg_type_off \<equiv> 4"
abbreviation (input) m3i1_off :: u32 where "m3i1_off \<equiv> 8"
abbreviation (input) m3i2_off :: u32 where "m3i2_off \<equiv> 12"
abbreviation (input) m3i3_off :: u32 where "m3i3_off \<equiv> 16"
abbreviation (input) m3i4_off :: u32 where "m3i4_off \<equiv> 20"
abbreviation (input) m3l1_off :: u32 where "m3l1_off \<equiv> 24"
abbreviation (input) m3l2_off :: u32 where "m3l2_off \<equiv> 32"
abbreviation (input) m3p1_off :: u32 where "m3p1_off \<equiv> 40"
abbreviation (input) m3p2_off :: u32 where "m3p2_off \<equiv> 44"
abbreviation (input) sizeof_MESSAGE :: nat where "sizeof_MESSAGE \<equiv> 48"

section \<open>Segments\<close>

abbreviation (input) GDT_SIZE :: nat where "GDT_SIZE \<equiv> 128"
abbreviation (input) IDT_SIZE :: nat where "IDT_SIZE \<equiv> 256"
abbreviation (input) INDEX_TSS :: nat where "INDEX_TSS \<equiv> 4"
abbreviation (input) INDEX_LDT_FIRST :: nat where "INDEX_LDT_FIRST \<equiv> 5"
abbreviation (input) SELECTOR_LDT_FIRST :: u16 where "SELECTOR_LDT_FIRST \<equiv> 0x28"
abbreviation (input) SELECTOR_KERNEL_CS :: "'a::numeral" where "SELECTOR_KERNEL_CS \<equiv> 0x08"
abbreviation (input) SELECTOR_KERNEL_DS :: "'a::numeral" where "SELECTOR_KERNEL_DS \<equiv> 0x10"
abbreviation (input) SELECTOR_KERNEL_GS :: "'a::numeral" where "SELECTOR_KERNEL_GS \<equiv> 0x1B"
abbreviation (input) LDT_SIZE :: nat where "LDT_SIZE \<equiv> 2"
abbreviation (input) INDEX_LDT_C :: nat where "INDEX_LDT_C \<equiv> 0"
abbreviation (input) INDEX_LDT_RW :: nat where "INDEX_LDT_RW \<equiv> 1"
abbreviation (input) DA_32 :: "'a::numeral" where "DA_32 \<equiv> 0x4000"
abbreviation (input) DA_LIMIT_4K :: "'a::numeral" where "DA_LIMIT_4K \<equiv> 0x8000"
abbreviation (input) LIMIT_4K_SHIFT :: nat where "LIMIT_4K_SHIFT \<equiv> 12"
abbreviation (input) DA_DRW :: "'a::numeral" where "DA_DRW \<equiv> 0x92"
abbreviation (input) DA_C :: "'a::numeral" where "DA_C \<equiv> 0x98"
abbreviation (input) DA_LDT :: "'a::numeral" where "DA_LDT \<equiv> 0x82"
abbreviation (input) DA_386TSS :: "'a::numeral" where "DA_386TSS \<equiv> 0x89"
abbreviation (input) DA_386IGate :: "'a::numeral" where "DA_386IGate \<equiv> 0x8E"
abbreviation (input) SA_RPL_MASK :: "'a::numeral" where "SA_RPL_MASK \<equiv> 0xFFFC"
abbreviation (input) SA_TIL :: "'a::numeral" where "SA_TIL \<equiv> 4"
abbreviation (input) PRIVILEGE_KRNL :: "'a::zero" where "PRIVILEGE_KRNL \<equiv> 0"
abbreviation (input) PRIVILEGE_TASK :: "'a::one" where "PRIVILEGE_TASK \<equiv> 1"
abbreviation (input) PRIVILEGE_USER :: "'a::numeral" where "PRIVILEGE_USER \<equiv> 3"

section \<open>Consoles and keyboard\<close>

abbreviation (input) NR_CONSOLES :: nat where "NR_CONSOLES \<equiv> 3"
abbreviation (input) V_MEM_BASE :: "'a::numeral" where "V_MEM_BASE \<equiv> 0xB8000"
abbreviation (input) V_MEM_SIZE :: "'a::numeral" where "V_MEM_SIZE \<equiv> 0x8000"
abbreviation (input) SCR_UP :: int where "SCR_UP \<equiv> 1"
abbreviation (input) SCR_DN :: int where "SCR_DN \<equiv> -1"
abbreviation (input) SCREEN_SIZE :: nat where "SCREEN_SIZE \<equiv> 2000"
abbreviation (input) SCREEN_WIDTH :: nat where "SCREEN_WIDTH \<equiv> 80"
abbreviation (input) DEFAULT_CHAR_COLOR :: u8 where "DEFAULT_CHAR_COLOR \<equiv> 7"
abbreviation (input) TTY_IN_BYTES :: nat where "TTY_IN_BYTES \<equiv> 256"
abbreviation (input) TTY_OUT_BUF_LEN :: "'a::numeral" where "TTY_OUT_BUF_LEN \<equiv> 2"
abbreviation (input) KB_IN_BYTES :: nat where "KB_IN_BYTES \<equiv> 32"
abbreviation (input) MAP_COLS :: nat where "MAP_COLS \<equiv> 3"
abbreviation (input) NR_SCAN_CODES :: nat where "NR_SCAN_CODES \<equiv> 0x80"

abbreviation (input) NR_FILES :: nat where "NR_FILES \<equiv> 64"

end
