(* ===== verification/Protect.thy ===== *)
theory Protect
  imports Dlos_Params
begin

text \<open>
  Segment descriptors and interrupt gates: the structures of \<^verbatim>\<open>include/sys/protect.h\<close> and
  the functions of \<^verbatim>\<open>kernel/protect.c\<close> that pack them. A descriptor scatters a 32-bit base
  and a 20-bit limit over six fields; the lemmas show that reading the fields back gives what
  was packed, which is what address translation and \<^verbatim>\<open>fork\<close> rely on.
\<close>

named_theorems desc_simps \<open>reading a packed descriptor back\<close>

section \<open>Structures\<close>

record descriptor =
  limit_low :: u16
  base_low :: u16
  base_mid :: u8
  attr1 :: u8
  limit_high_attr2 :: u8
  base_high :: u8

record gate =
  offset_low :: u16
  selector :: u16
  dcount :: u8
  gate_attr :: u8
  offset_high :: u16

definition zero_descriptor :: descriptor where
  "zero_descriptor = \<lparr>limit_low = 0, base_low = 0, base_mid = 0, attr1 = 0,
     limit_high_attr2 = 0, base_high = 0\<rparr>"

section \<open>Packing and unpacking\<close>

definition init_descriptor :: "u32 \<Rightarrow> u32 \<Rightarrow> u16 \<Rightarrow> descriptor" where
  "init_descriptor base limit attribute =
     \<lparr>limit_low = ucast (limit AND 0x0FFFF),
      base_low = ucast (base AND 0x0FFFF),
      base_mid = ucast (drop_bit 16 base AND 0x0FF),
      attr1 = ucast (attribute AND 0xFF),
      limit_high_attr2 = ucast ((drop_bit 16 limit AND 0x0F) OR (drop_bit 8 (ucast attribute) AND 0xF0)),
      base_high = ucast (drop_bit 24 base AND 0x0FF)\<rparr>"

text \<open>The macro \<^verbatim>\<open>reassembly(high, high_shift, mid, mid_shift, low)\<close>.\<close>

definition reassembly :: "u32 \<Rightarrow> nat \<Rightarrow> u32 \<Rightarrow> nat \<Rightarrow> u32 \<Rightarrow> u32" where
  "reassembly high high_shift mid mid_shift low =
     push_bit high_shift high + push_bit mid_shift mid + low"

definition desc_base :: "descriptor \<Rightarrow> u32" where
  "desc_base d = push_bit 24 (ucast (base_high d)) OR push_bit 16 (ucast (base_mid d)) OR ucast (base_low d)"

definition desc_limit :: "descriptor \<Rightarrow> u32" where
  "desc_limit d = reassembly 0 0 (ucast (limit_high_attr2 d AND 0xF)) 16 (ucast (limit_low d))"

text \<open>\<^verbatim>\<open>seg2linear\<close> indexes the GDT with the selector's upper thirteen bits, which may lie
  past its 128 entries.\<close>

definition seg2linear :: "descriptor list \<Rightarrow> u16 \<Rightarrow> u32 result" where
  "seg2linear gdt seg =
     (let i = unat (drop_bit 3 seg)
      in if i < length gdt then Inr (desc_base (gdt ! i)) else Inl (OutOfBounds 126))"

definition init_idt_desc :: "gate list \<Rightarrow> u8 \<Rightarrow> u8 \<Rightarrow> u32 \<Rightarrow> u8 \<Rightarrow> gate list" where
  "init_idt_desc idt vector desc_type handler privilege =
     idt[unat vector :=
       \<lparr>offset_low = ucast (handler AND 0xFFFF),
        selector = SELECTOR_KERNEL_CS,
        dcount = 0,
        gate_attr = desc_type OR push_bit 5 privilege,
        offset_high = ucast (drop_bit 16 handler AND 0xFFFF)\<rparr>]"

definition gate_offset :: "gate \<Rightarrow> u32" where
  "gate_offset g = push_bit 16 (ucast (offset_high g)) OR ucast (offset_low g)"

section \<open>Round trips\<close>

lemma mask8: "(0xFF :: 'a::len word) = mask 8" and mask16: "(0xFFFF :: 'a::len word) = mask 16"
  and mask4: "(0xF :: 'a::len word) = mask 4"
  by (simp_all add: mask_eq_exp_minus_1)

lemma maskF0: "(0xF0 :: u32) = push_bit 4 (mask 4)"
  by (simp add: mask_eq_exp_minus_1)

lemma desc_base_init [desc_simps]: "desc_base (init_descriptor base limit attribute) = base"
proof (rule bit_word_eqI)
  fix n :: nat
  assume "n < LENGTH(32)"
  then have "n < 8 \<or> 8 \<le> n \<and> n < 16 \<or> 16 \<le> n \<and> n < 24 \<or> 24 \<le> n \<and> n < 32"
    by auto
  then show "bit (desc_base (init_descriptor base limit attribute)) n = bit base n"
    by (elim disjE) (auto simp: desc_base_def init_descriptor_def mask8 mask16 bit_simps)
qed

lemma desc_limit_init [desc_simps]:
  "limit < 2 ^ 20 \<Longrightarrow> desc_limit (init_descriptor base limit attribute) = limit"
proof -
  assume "limit < 2 ^ 20"
  then have "take_bit 20 limit = limit"
    using less_mask_eq [of limit 20] by (simp add: take_bit_eq_mask)
  then have high: "\<not> bit limit n" if "20 \<le> n" for n
    using that by (metis bit_take_bit_iff not_le)
  have "desc_limit (init_descriptor base limit attribute)
      = push_bit 16 (ucast (limit_high_attr2 (init_descriptor base limit attribute) AND 0xF) :: u32)
        OR ucast (limit_low (init_descriptor base limit attribute))"
    unfolding desc_limit_def reassembly_def
    by (simp, rule disjunctive_add) (auto simp: bit_simps dest!: bit_imp_le_length)
  also have "\<dots> = limit"
  proof (rule bit_word_eqI)
    fix n :: nat
    assume "n < LENGTH(32)"
    then have "n < 16 \<or> 16 \<le> n \<and> n < 20 \<or> 20 \<le> n \<and> n < 32"
      by auto
    then show "bit (push_bit 16 (ucast (limit_high_attr2 (init_descriptor base limit attribute) AND 0xF) :: u32)
        OR ucast (limit_low (init_descriptor base limit attribute))) n = bit limit n"
      by (elim disjE) (auto simp: init_descriptor_def mask4 mask16 maskF0 bit_simps high)
  qed
  finally show ?thesis .
qed

lemma reassembly_eq_desc_base [desc_simps]:
  "reassembly (ucast (base_high d)) 24 (ucast (base_mid d)) 16 (ucast (base_low d)) = desc_base d"
proof -
  have "push_bit 24 (ucast (base_high d) :: u32) + push_bit 16 (ucast (base_mid d))
      = push_bit 24 (ucast (base_high d)) OR push_bit 16 (ucast (base_mid d))"
    by (rule disjunctive_add) (auto simp: bit_simps dest!: bit_imp_le_length)
  moreover have "(push_bit 24 (ucast (base_high d) :: u32) OR push_bit 16 (ucast (base_mid d)))
      + ucast (base_low d)
      = push_bit 24 (ucast (base_high d)) OR push_bit 16 (ucast (base_mid d)) OR ucast (base_low d)"
    by (subst disjunctive_add) (auto simp: bit_simps or.assoc dest!: bit_imp_le_length)
  ultimately show ?thesis
    by (simp add: reassembly_def desc_base_def)
qed

lemma desc_granularity_init [desc_simps]:
  "limit_high_attr2 (init_descriptor base limit attribute) AND 0x80 \<noteq> 0 \<longleftrightarrow> bit attribute 15"
proof -
  have "limit_high_attr2 (init_descriptor base limit attribute) AND 0x80 \<noteq> 0
      \<longleftrightarrow> bit (limit_high_attr2 (init_descriptor base limit attribute)) 7"
    by (simp add: bit_iff_and_push_bit_not_eq_0)
  also have "\<dots> \<longleftrightarrow> bit attribute 15"
    by (auto simp: init_descriptor_def bit_simps mask4 maskF0)
  finally show ?thesis .
qed

text \<open>
  Packing a segment descriptor with \<^verbatim>\<open>init_descriptor\<close> loses nothing: the base read back
  by \<^verbatim>\<open>ldt_seg_linear\<close> and by the \<^verbatim>\<open>reassembly\<close> macro of \<^verbatim>\<open>do_fork\<close> is the base that was
  packed, and every limit of at most twenty bits is read back unchanged.
\<close>

theorem descriptor_roundtrip:
  assumes "limit < 2 ^ 20"
  shows "desc_base (init_descriptor base limit attribute) = base
    \<and> desc_limit (init_descriptor base limit attribute) = limit
    \<and> (let d = init_descriptor base limit attribute
       in reassembly (ucast (base_high d)) 24 (ucast (base_mid d)) 16 (ucast (base_low d)) = base)"
  using assms by (simp add: desc_simps Let_def)

theorem descriptor_roundtrip_witness:
  "desc_base (init_descriptor 0xA00000 0xFF 0xC0FA) = 0xA00000
    \<and> desc_limit (init_descriptor 0xA00000 0xFF 0xC0FA) = 0xFF"
  using descriptor_roundtrip [of "0xFF" "0xA00000" "0xC0FA"] by simp

lemma gate_offset_init:
  assumes "unat vector < length idt"
  shows "gate_offset (init_idt_desc idt vector desc_type handler privilege ! unat vector) = handler"
proof (rule bit_word_eqI)
  fix n :: nat
  assume "n < LENGTH(32)"
  then have "n < 16 \<or> 16 \<le> n \<and> n < 32"
    by auto
  with assms show "bit (gate_offset (init_idt_desc idt vector desc_type handler privilege ! unat vector)) n
      = bit handler n"
    by (elim disjE) (auto simp: gate_offset_def init_idt_desc_def mask16 bit_simps)
qed

end
