(* ===== verification/Proc.thy ===== *)
theory Proc
  imports Protect
begin

text \<open>
  The process table entry (\<^verbatim>\<open>struct proc\<close> of \<^verbatim>\<open>include/sys/proc.h\<close>), the part of the
  kernel's global state that scheduling and message passing work on, and the scheduler of
  \<^verbatim>\<open>kernel/proc.c\<close>.

  Pointers to processes are table indices (\<^verbatim>\<open>proc2pid\<close>), a null pointer is \<open>None\<close>; pointers
  into a process's own memory are 32-bit virtual addresses, 0 being null. The fixed-size
  arrays \<^verbatim>\<open>proc_table\<close>, \<^verbatim>\<open>ldts\<close> and \<^verbatim>\<open>filp\<close> are total functions of the index; an operation
  that could index past their end returns an \<^const>\<open>OutOfBounds\<close> fault.
\<close>

section \<open>Data\<close>

record stackframe =
  r_gs :: u32
  r_fs :: u32
  r_es :: u32
  r_ds :: u32
  r_edi :: u32
  r_esi :: u32
  r_ebp :: u32
  r_kernel_esp :: u32
  r_ebx :: u32
  r_edx :: u32
  r_ecx :: u32
  r_eax :: u32
  r_retaddr :: u32
  r_eip :: u32
  r_cs :: u32
  r_eflags :: u32
  r_esp :: u32
  r_ss :: u32

record proc =
  regs :: stackframe
  ldt_sel :: u16
  ldts :: "nat \<Rightarrow> descriptor"
  p_ticks :: int
  p_priority :: int
  p_name :: string
  p_flags :: u32
  p_msg :: u32
  p_recvfrom :: int
  p_sendto :: int
  has_int_msg :: int
  q_sending :: "nat option"
  next_sending :: "nat option"
  nr_tty :: int
  p_parent :: int
  filp :: "nat \<Rightarrow> nat option"

record kstate =
  k_ticks :: int
  k_reenter :: u32
  key_pressed :: int
  p_proc_ready :: nat
  proc_table :: "nat \<Rightarrow> proc"
  kmem :: memory

definition zero_stackframe :: stackframe where
  "zero_stackframe = \<lparr>r_gs = 0, r_fs = 0, r_es = 0, r_ds = 0, r_edi = 0, r_esi = 0, r_ebp = 0,
     r_kernel_esp = 0, r_ebx = 0, r_edx = 0, r_ecx = 0, r_eax = 0, r_retaddr = 0, r_eip = 0,
     r_cs = 0, r_eflags = 0, r_esp = 0, r_ss = 0\<rparr>"

text \<open>A process table entry after \<^verbatim>\<open>memset(&proc_table[i], 0, sizeof(struct proc))\<close>.\<close>

definition zero_proc :: proc where
  "zero_proc = \<lparr>regs = zero_stackframe, ldt_sel = 0, ldts = (\<lambda>_. zero_descriptor), p_ticks = 0, p_priority = 0,
     p_name = [], p_flags = 0, p_msg = 0, p_recvfrom = 0, p_sendto = 0, has_int_msg = 0,
     q_sending = None, next_sending = None, nr_tty = 0, p_parent = 0, filp = (\<lambda>_. None)\<rparr>"

definition upd_proc :: "nat \<Rightarrow> (proc \<Rightarrow> proc) \<Rightarrow> kstate \<Rightarrow> kstate" where
  "upd_proc i f s = s\<lparr>proc_table := (proc_table s)(i := f (proc_table s i))\<rparr>"

lemma upd_proc_sel [simp]:
  "proc_table (upd_proc i f s) = (proc_table s)(i := f (proc_table s i))"
  "k_ticks (upd_proc i f s) = k_ticks s"
  "k_reenter (upd_proc i f s) = k_reenter s"
  "key_pressed (upd_proc i f s) = key_pressed s"
  "p_proc_ready (upd_proc i f s) = p_proc_ready s"
  "kmem (upd_proc i f s) = kmem s"
  by (simp_all add: upd_proc_def)

section \<open>The scheduler\<close>

definition runnable :: "(nat \<Rightarrow> proc) \<Rightarrow> nat \<Rightarrow> bool" where
  "runnable pt i \<longleftrightarrow> i < nr_slots \<and> p_flags (pt i) = 0"

text \<open>The first \<^verbatim>\<open>for\<close> loop of \<^verbatim>\<open>schedule\<close>, over the slots below \<open>n\<close>: the running maximum
  \<^verbatim>\<open>greatest_ticks\<close> and \<^verbatim>\<open>p_proc_ready\<close>.\<close>

definition schedule_scan :: "(nat \<Rightarrow> proc) \<Rightarrow> nat \<Rightarrow> nat \<Rightarrow> int \<times> nat" where
  "schedule_scan pt n r =
     foldl (\<lambda>(greatest_ticks, ready) i.
        if p_flags (pt i) = 0 then
          (if p_ticks (pt i) > greatest_ticks then (p_ticks (pt i), i) else (greatest_ticks, ready))
        else (greatest_ticks, ready)) (0, r) [0..<n]"

text \<open>The second \<^verbatim>\<open>for\<close> loop: every runnable process gets its priority as new time slice.\<close>

definition schedule_refill :: "(nat \<Rightarrow> proc) \<Rightarrow> nat \<Rightarrow> proc" where
  "schedule_refill pt =
     (\<lambda>i. if i < nr_slots \<and> p_flags (pt i) = 0 then (pt i)\<lparr>p_ticks := p_priority (pt i)\<rparr> else pt i)"

text \<open>The \<^verbatim>\<open>while (!greatest_ticks)\<close> loop; \<open>None\<close> when it never ends.\<close>

partial_function (option) schedule :: "kstate \<Rightarrow> kstate option" where
  "schedule s =
     (let (greatest_ticks, ready) = schedule_scan (proc_table s) nr_slots (p_proc_ready s)
      in if greatest_ticks = 0
         then schedule (s\<lparr>p_proc_ready := ready, proc_table := schedule_refill (proc_table s)\<rparr>)
         else Some (s\<lparr>p_proc_ready := ready\<rparr>))"

section \<open>What a scan finds\<close>

lemma schedule_scan_0 [simp]: "schedule_scan pt 0 r = (0, r)"
  by (simp add: schedule_scan_def)

lemma schedule_scan_Suc:
  "schedule_scan pt (Suc n) r =
     (let (g, q) = schedule_scan pt n r
      in if p_flags (pt n) = 0 \<and> p_ticks (pt n) > g then (p_ticks (pt n), n) else (g, q))"
  by (simp add: schedule_scan_def split: prod.split)

definition scan_spec :: "(nat \<Rightarrow> proc) \<Rightarrow> nat \<Rightarrow> nat \<Rightarrow> int \<Rightarrow> nat \<Rightarrow> bool" where
  "scan_spec pt n r g q \<longleftrightarrow>
     0 \<le> g \<and> (g = 0 \<longrightarrow> q = r) \<and>
     (0 < g \<longrightarrow> q < n \<and> p_flags (pt q) = 0 \<and> p_ticks (pt q) = g \<and>
        (\<forall>i<q. p_flags (pt i) = 0 \<longrightarrow> p_ticks (pt i) < g)) \<and>
     (\<forall>i<n. p_flags (pt i) = 0 \<longrightarrow> p_ticks (pt i) \<le> g)"

lemma schedule_scan_spec: "schedule_scan pt n r = (g, q) \<Longrightarrow> scan_spec pt n r g q"
proof (induction n arbitrary: g q)
  case 0
  then show ?case by (simp add: scan_spec_def)
next
  case (Suc n)
  obtain g' q' where scan: "schedule_scan pt n r = (g', q')"
    by fastforce
  note IH = Suc.IH [OF scan, unfolded scan_spec_def]
  show ?case
  proof (cases "p_flags (pt n) = 0 \<and> p_ticks (pt n) > g'")
    case True
    with Suc.prems scan have "g = p_ticks (pt n)" "q = n"
      by (auto simp: schedule_scan_Suc)
    with True IH show ?thesis
      by (fastforce simp: scan_spec_def less_Suc_eq)
  next
    case False
    with Suc.prems scan have "g = g'" "q = q'"
      by (auto simp: schedule_scan_Suc Let_def split: if_splits)
    with False IH show ?thesis
      by (auto simp: scan_spec_def less_Suc_eq)
  qed
qed

section \<open>What the scheduler returns\<close>

lemma scan_spec_zero_iff:
  "scan_spec pt nr_slots r g q \<Longrightarrow> g = 0 \<longleftrightarrow> (\<forall>i. runnable pt i \<longrightarrow> p_ticks (pt i) \<le> 0)"
  by (auto simp: scan_spec_def runnable_def order_less_le)

lemma runnable_refill [simp]: "runnable (schedule_refill pt) i \<longleftrightarrow> runnable pt i"
  by (simp add: runnable_def schedule_refill_def)

lemma refill_ticks: "runnable pt i \<Longrightarrow> p_ticks (schedule_refill pt i) = p_priority (pt i)"
  by (simp add: runnable_def schedule_refill_def)

lemma refill_frame [simp]:
  "p_flags (schedule_refill pt i) = p_flags (pt i)"
  "p_priority (schedule_refill pt i) = p_priority (pt i)"
  "p_msg (schedule_refill pt i) = p_msg (pt i)"
  "p_recvfrom (schedule_refill pt i) = p_recvfrom (pt i)"
  "p_sendto (schedule_refill pt i) = p_sendto (pt i)"
  "has_int_msg (schedule_refill pt i) = has_int_msg (pt i)"
  "q_sending (schedule_refill pt i) = q_sending (pt i)"
  "next_sending (schedule_refill pt i) = next_sending (pt i)"
  "ldts (schedule_refill pt i) = ldts (pt i)"
  by (simp_all add: schedule_refill_def)

definition has_slice :: "(nat \<Rightarrow> proc) \<Rightarrow> bool" where
  "has_slice pt \<longleftrightarrow> (\<exists>i. runnable pt i \<and> 0 < p_ticks (pt i))"

definition has_priority :: "(nat \<Rightarrow> proc) \<Rightarrow> bool" where
  "has_priority pt \<longleftrightarrow> (\<exists>i. runnable pt i \<and> 0 < p_priority (pt i))"

lemma schedule_one_scan:
  assumes "has_slice (proc_table s)"
  obtains g q where "schedule_scan (proc_table s) nr_slots (p_proc_ready s) = (g, q)" "0 < g"
    "schedule s = Some (s\<lparr>p_proc_ready := q\<rparr>)"
proof -
  obtain g q where scan: "schedule_scan (proc_table s) nr_slots (p_proc_ready s) = (g, q)"
    by fastforce
  note spec = schedule_scan_spec [OF scan]
  have "0 < g"
    using assms spec scan_spec_zero_iff [OF spec] by (force simp: has_slice_def scan_spec_def)
  moreover from this scan have "schedule s = Some (s\<lparr>p_proc_ready := q\<rparr>)"
    by (simp add: schedule.simps [of s])
  ultimately show thesis using scan that by blast
qed

lemma schedule_unfold_refill:
  assumes "\<not> has_slice (proc_table s)"
  shows "schedule s = schedule (s\<lparr>proc_table := schedule_refill (proc_table s)\<rparr>)"
proof -
  obtain g q where scan: "schedule_scan (proc_table s) nr_slots (p_proc_ready s) = (g, q)"
    by fastforce
  note spec = schedule_scan_spec [OF scan]
  have "g = 0"
    using assms scan_spec_zero_iff [OF spec] by (force simp: has_slice_def)
  moreover from this spec have "q = p_proc_ready s"
    by (simp add: scan_spec_def)
  ultimately show ?thesis
    using scan by (subst schedule.simps) simp
qed

lemma has_slice_refill: "has_slice (schedule_refill pt) \<longleftrightarrow> has_priority pt"
  by (auto simp: has_slice_def has_priority_def refill_ticks)

lemma schedule_needs_runnable:
  "schedule s = Some s' \<Longrightarrow> has_slice (proc_table s) \<or> has_priority (proc_table s)"
proof (rule schedule.raw_induct [where P = "\<lambda>s s'. has_slice (proc_table s) \<or> has_priority (proc_table s)"])
  fix sch :: "kstate \<Rightarrow> kstate option" and s s' :: kstate
  assume IH: "\<And>s s'. sch s = Some s' \<Longrightarrow> has_slice (proc_table s) \<or> has_priority (proc_table s)"
    and eq: "(let (greatest_ticks, ready) = schedule_scan (proc_table s) nr_slots (p_proc_ready s)
      in if greatest_ticks = 0
         then sch (s\<lparr>p_proc_ready := ready, proc_table := schedule_refill (proc_table s)\<rparr>)
         else Some (s\<lparr>p_proc_ready := ready\<rparr>)) = Some s'"
  obtain g q where scan: "schedule_scan (proc_table s) nr_slots (p_proc_ready s) = (g, q)"
    by fastforce
  note spec = schedule_scan_spec [OF scan]
  show "has_slice (proc_table s) \<or> has_priority (proc_table s)"
  proof (cases "g = 0")
    case True
    with eq scan have "has_slice (schedule_refill (proc_table s))
        \<or> has_priority (schedule_refill (proc_table s))"
      using IH [of "s\<lparr>p_proc_ready := q, proc_table := schedule_refill (proc_table s)\<rparr>" s'] by simp
    then show ?thesis
      by (auto simp: has_slice_refill has_priority_def)
  next
    case False
    with spec show ?thesis
      by (force simp: has_slice_def runnable_def scan_spec_def)
  qed
qed

lemma schedule_total_iff:
  "(\<exists>s'. schedule s = Some s') \<longleftrightarrow>
   (\<exists>i. runnable (proc_table s) i \<and>
      (0 < p_ticks (proc_table s i) \<or> 0 < p_priority (proc_table s i)))"
  (is "?L \<longleftrightarrow> ?R")
proof
  assume ?L
  then show ?R
    using schedule_needs_runnable by (fastforce simp: has_slice_def has_priority_def)
next
  assume ?R
  then consider "has_slice (proc_table s)"
    | "\<not> has_slice (proc_table s)" "has_slice (schedule_refill (proc_table s))"
    unfolding has_slice_refill by (auto simp: has_slice_def has_priority_def)
  then show ?L
  proof cases
    case 1
    then show ?thesis by (auto elim: schedule_one_scan)
  next
    case 2
    then show ?thesis
      using schedule_one_scan [of "s\<lparr>proc_table := schedule_refill (proc_table s)\<rparr>"]
      by (auto simp: schedule_unfold_refill)
  qed
qed

text \<open>A small instance of the kernel state for evaluating the operations: nine processes with
  a time slice, the other slots free.\<close>

definition demo_state :: kstate where
  "demo_state = \<lparr>k_ticks = 0, k_reenter = 0, key_pressed = 0, p_proc_ready = 5,
     proc_table = (\<lambda>i. if i < 9 then zero_proc\<lparr>p_ticks := 5, p_priority := 5, p_recvfrom := NO_TASK, p_sendto := NO_TASK\<rparr>
       else zero_proc\<lparr>p_flags := FREE_SLOT\<rparr>), kmem = (\<lambda>_. 0)\<rparr>"

text \<open>
  C12. \<^verbatim>\<open>schedule\<close> returns exactly when some runnable process has a time slice left or a positive
  priority to refill it from; with every process blocked it loops forever inside the kernel.
\<close>

theorem schedule_returns_iff:
  "(\<exists>s'. schedule s = Some s') \<longleftrightarrow>
   (\<exists>i < nr_slots. p_flags (proc_table s i) = 0 \<and>
      (0 < p_ticks (proc_table s i) \<or> 0 < p_priority (proc_table s i)))"
  unfolding schedule_total_iff by (auto simp: runnable_def)

definition chosen :: "(nat \<Rightarrow> proc) \<Rightarrow> nat \<Rightarrow> bool" where
  "chosen pt q \<longleftrightarrow> runnable pt q \<and> 0 < p_ticks (pt q) \<and>
     (\<forall>i. runnable pt i \<longrightarrow> p_ticks (pt i) \<le> p_ticks (pt q)) \<and>
     (\<forall>i<q. runnable pt i \<longrightarrow> p_ticks (pt i) < p_ticks (pt q))"

lemma scan_chosen:
  "scan_spec pt nr_slots r g q \<Longrightarrow> 0 < g \<Longrightarrow> chosen pt q"
  by (auto simp: scan_spec_def chosen_def runnable_def)

lemma schedule_cases:
  assumes "schedule s = Some s'"
  obtains (keep) q where "has_slice (proc_table s)" "chosen (proc_table s) q" "s' = s\<lparr>p_proc_ready := q\<rparr>"
  | (refill) q where "\<not> has_slice (proc_table s)" "chosen (schedule_refill (proc_table s)) q"
      "s' = s\<lparr>proc_table := schedule_refill (proc_table s), p_proc_ready := q\<rparr>"
proof (cases "has_slice (proc_table s)")
  case True
  then obtain g q where "schedule_scan (proc_table s) nr_slots (p_proc_ready s) = (g, q)" "0 < g"
    "schedule s = Some (s\<lparr>p_proc_ready := q\<rparr>)"
    by (rule schedule_one_scan)
  with True assms show thesis
    using keep [of q] by (simp add: scan_chosen [OF schedule_scan_spec])
next
  case False
  let ?s = "s\<lparr>proc_table := schedule_refill (proc_table s)\<rparr>"
  have "has_slice (proc_table ?s)"
    using False assms schedule_needs_runnable by (simp add: has_slice_refill) blast
  then obtain g q where "schedule_scan (proc_table ?s) nr_slots (p_proc_ready ?s) = (g, q)" "0 < g"
    "schedule ?s = Some (?s\<lparr>p_proc_ready := q\<rparr>)"
    by (rule schedule_one_scan)
  with False assms show thesis
    using refill [of q] by (simp add: scan_chosen [OF schedule_scan_spec] schedule_unfold_refill)
qed

text \<open>
  C13. The process \<^verbatim>\<open>schedule\<close> selects is runnable, has the largest positive time slice of all
  runnable processes, and is the first slot with that slice. Time slices are refilled, each
  to its process's priority, exactly when no runnable process had one left.
\<close>

theorem schedule_selects:
  assumes "schedule s = Some s'"
  shows "chosen (proc_table s') (p_proc_ready s') \<and>
    proc_table s' = (if \<exists>i. runnable (proc_table s) i \<and> 0 < p_ticks (proc_table s i)
      then proc_table s else schedule_refill (proc_table s)) \<and>
    s' = s\<lparr>p_proc_ready := p_proc_ready s', proc_table := proc_table s'\<rparr>"
  using assms by (cases rule: schedule_cases) (auto simp: has_slice_def)

theorem schedule_selects_witness:
  "\<exists>s'. schedule demo_state = Some s' \<and> chosen (proc_table s') (p_proc_ready s')"
proof -
  have "\<exists>i. runnable (proc_table demo_state) i \<and>
      (0 < p_ticks (proc_table demo_state i) \<or> 0 < p_priority (proc_table demo_state i))"
    by (rule exI [of _ 0]) (simp add: demo_state_def runnable_def zero_proc_def)
  then obtain s' where "schedule demo_state = Some s'"
    using schedule_total_iff [of demo_state] by blast
  with schedule_selects [OF this] show ?thesis by blast
qed

lemma schedule_frame:
  assumes "schedule s = Some s'"
  shows "p_flags (proc_table s' i) = p_flags (proc_table s i)"
    "p_msg (proc_table s' i) = p_msg (proc_table s i)"
    "p_recvfrom (proc_table s' i) = p_recvfrom (proc_table s i)"
    "p_sendto (proc_table s' i) = p_sendto (proc_table s i)"
    "has_int_msg (proc_table s' i) = has_int_msg (proc_table s i)"
    "q_sending (proc_table s' i) = q_sending (proc_table s i)"
    "next_sending (proc_table s' i) = next_sending (proc_table s i)"
    "ldts (proc_table s' i) = ldts (proc_table s i)"
    "p_priority (proc_table s' i) = p_priority (proc_table s i)"
    "kmem s' = kmem s" "k_ticks s' = k_ticks s" "k_reenter s' = k_reenter s"
    "key_pressed s' = key_pressed s"
  using assms by (cases rule: schedule_cases; simp)+

lemma schedule_ready:
  "schedule s = Some s' \<Longrightarrow> runnable (proc_table s') (p_proc_ready s')"
  by (erule schedule_cases) (simp_all add: chosen_def)

end
