(* ===== verification/Ipc.thy ===== *)
theory Ipc
  imports Proc
begin

text \<open>
  Synchronous message passing of \<^verbatim>\<open>kernel/proc.c\<close>: \<^verbatim>\<open>sys_sendrec\<close> and everything it calls,
  and \<^verbatim>\<open>inform_int\<close>, which turns a hardware interrupt into a message. The operations run
  inside the kernel on behalf of the process \<^verbatim>\<open>p_proc_ready\<close>, one at a time. Each returns the
  new kernel state or the fault that stopped it; the C functions' own return value is 0 on
  every path that returns. The texts printed on the way to a \<^verbatim>\<open>panic\<close> are not part of the
  state.
\<close>

section \<open>Address translation\<close>

definition ldt_seg_linear :: "proc \<Rightarrow> nat \<Rightarrow> u32" where
  "ldt_seg_linear p idx = desc_base (ldts p idx)"

definition va2la :: "kstate \<Rightarrow> nat \<Rightarrow> u32 \<Rightarrow> u32 result" where
  "va2la s pid va =
     (let seg_base = ldt_seg_linear (proc_table s pid) INDEX_LDT_RW;
          la = seg_base + va
      in if pid < NR_TASKS + NR_NATIVE_PROCS then check 119 (la = va) (Inr la) else Inr la)"

section \<open>Blocking\<close>

definition block :: "kstate \<Rightarrow> nat \<Rightarrow> kstate result" where
  "block s p = check 131 (p_flags (proc_table s p) \<noteq> 0) (returns 24 (schedule s))"

definition unblock :: "kstate \<Rightarrow> nat \<Rightarrow> kstate result" where
  "unblock s p = check 136 (p_flags (proc_table s p) = 0) (Inr s)"

section \<open>Deadlock detection\<close>

text \<open>The \<^verbatim>\<open>while (1)\<close> loop follows \<^verbatim>\<open>p_sendto\<close> from one sending process to the next.\<close>

partial_function (option) deadlock_chain :: "(nat \<Rightarrow> proc) \<Rightarrow> int \<Rightarrow> nat \<Rightarrow> bool result option" where
  "deadlock_chain pt src p =
     (if p_flags (pt p) AND SENDING \<noteq> 0 then
        (if p_sendto (pt p) = src then Some (Inr True)
         else if 0 \<le> p_sendto (pt p) \<and> p_sendto (pt p) < nr_slots
              then deadlock_chain pt src (nat (p_sendto (pt p)))
              else Some (Inl (OutOfBounds 158)))
      else Some (Inr False))"

text \<open>The \<^verbatim>\<open>do ... while\<close> loop that prints the cycle once it is found.\<close>

partial_function (option) deadlock_print :: "(nat \<Rightarrow> proc) \<Rightarrow> int \<Rightarrow> nat \<Rightarrow> unit result option" where
  "deadlock_print pt src p =
     (if p_msg (pt p) = 0 then Some (Inl (Assert 150))
      else if p_sendto (pt p) = src then Some (Inr ())
      else if 0 \<le> p_sendto (pt p) \<and> p_sendto (pt p) < nr_slots
           then deadlock_print pt src (nat (p_sendto (pt p)))
           else Some (Inl (OutOfBounds 151)))"

definition deadlock :: "kstate \<Rightarrow> int \<Rightarrow> nat \<Rightarrow> bool result" where
  "deadlock s src dest =
     bindE (returns 141 (deadlock_chain (proc_table s) src dest)) (\<lambda>r.
     bindE r (\<lambda>found.
       if found then bindE (returns 149 (deadlock_print (proc_table s) src dest)) (\<lambda>r'. bindE r' (\<lambda>_. Inr True))
       else Inr False))"

section \<open>The queue of waiting senders\<close>

text \<open>\<^verbatim>\<open>while (p->next_sending) p = p->next_sending;\<close>\<close>

partial_function (option) queue_last :: "(nat \<Rightarrow> nat option) \<Rightarrow> nat \<Rightarrow> nat option" where
  "queue_last nxt p = (case nxt p of None \<Rightarrow> Some p | Some q \<Rightarrow> queue_last nxt q)"

text \<open>The search of \<^verbatim>\<open>msg_receive\<close> for one sender, with the node before it.\<close>

partial_function (option) queue_find ::
    "(nat \<Rightarrow> nat option) \<Rightarrow> nat \<Rightarrow> nat option \<Rightarrow> nat option \<Rightarrow> (nat option \<times> nat option) option" where
  "queue_find nxt src p prev =
     (case p of None \<Rightarrow> Some (None, prev)
      | Some i \<Rightarrow> if i = src then Some (Some i, prev) else queue_find nxt src (nxt i) (Some i))"

definition enqueue_sender :: "kstate \<Rightarrow> nat \<Rightarrow> nat \<Rightarrow> kstate result" where
  "enqueue_sender s dest sender =
     bindE (case q_sending (proc_table s dest) of
              Some h \<Rightarrow> bindE (returns 210 (queue_last (\<lambda>i. next_sending (proc_table s i)) h))
                 (\<lambda>p. Inr (upd_proc p (\<lambda>x. x\<lparr>next_sending := Some sender\<rparr>) s))
            | None \<Rightarrow> Inr (upd_proc dest (\<lambda>x. x\<lparr>q_sending := Some sender\<rparr>) s))
       (\<lambda>s. Inr (upd_proc sender (\<lambda>x. x\<lparr>next_sending := None\<rparr>) s))"

section \<open>Sending\<close>

definition msg_send :: "kstate \<Rightarrow> nat \<Rightarrow> int \<Rightarrow> u32 \<Rightarrow> kstate result" where
  "msg_send s sender dest m =
     check 172 (int sender \<noteq> dest)
     (if \<not> (0 \<le> dest \<and> dest < nr_slots) then Inl (OutOfBounds 170) else
      let d = nat dest; p_dest = proc_table s d in
      bindE (deadlock s (int sender) d) (\<lambda>dl.
      if dl then Inl (Panic 176)
      else if p_flags p_dest AND RECEIVING \<noteq> 0 \<and> (p_recvfrom p_dest = int sender \<or> p_recvfrom p_dest = ANY)
      then checks [(181, p_msg p_dest \<noteq> 0), (182, m \<noteq> 0)]
        (bindE (va2la s d (p_msg p_dest)) (\<lambda>dst.
         bindE (va2la s sender m) (\<lambda>src.
           let s = s\<lparr>kmem := memcpy (kmem s) dst src sizeof_MESSAGE\<rparr>;
               s = upd_proc d (\<lambda>p. p\<lparr>p_msg := 0\<rparr>) s;
               s = upd_proc d (\<lambda>p. p\<lparr>p_flags := p_flags p AND NOT RECEIVING\<rparr>) s;
               s = upd_proc d (\<lambda>p. p\<lparr>p_recvfrom := NO_TASK\<rparr>) s
           in bindE (unblock s d) (\<lambda>s.
             checks [(191, p_flags (proc_table s d) = 0), (192, p_msg (proc_table s d) = 0),
                     (193, p_recvfrom (proc_table s d) = NO_TASK), (194, p_sendto (proc_table s d) = NO_TASK),
                     (195, p_flags (proc_table s sender) = 0), (196, p_msg (proc_table s sender) = 0),
                     (197, p_recvfrom (proc_table s sender) = NO_TASK),
                     (198, p_sendto (proc_table s sender) = NO_TASK)]
               (Inr s)))))
      else
        let s = upd_proc sender (\<lambda>p. p\<lparr>p_flags := p_flags p OR SENDING\<rparr>) s
        in check 202 (p_flags (proc_table s sender) = SENDING)
        (let s = upd_proc sender (\<lambda>p. p\<lparr>p_sendto := dest\<rparr>) s;
             s = upd_proc sender (\<lambda>p. p\<lparr>p_msg := m\<rparr>) s
         in bindE (enqueue_sender s d sender) (\<lambda>s.
            bindE (block s sender) (\<lambda>s.
              checks [(228, p_flags (proc_table s sender) = SENDING), (229, p_msg (proc_table s sender) \<noteq> 0),
                      (230, p_recvfrom (proc_table s sender) = NO_TASK),
                      (231, p_sendto (proc_table s sender) = dest)]
                (Inr s))))))"

section \<open>Receiving\<close>

text \<open>The message \<^verbatim>\<open>msg_receive\<close> builds for a pending interrupt: source \<^verbatim>\<open>INTERRUPT\<close>, type
  \<^verbatim>\<open>HARD_INT\<close>, the rest zero.\<close>

definition interrupt_msg :: "u8 list" where
  "interrupt_msg = le32 (word_of_int INTERRUPT) @ le32 HARD_INT @ replicate 40 0"

text \<open>The part of \<^verbatim>\<open>msg_receive\<close> that sets \<^verbatim>\<open>copyok\<close>: \<open>Some (p_from, prev)\<close> when there is a
  message to copy.\<close>

definition find_sender :: "kstate \<Rightarrow> nat \<Rightarrow> int \<Rightarrow> (nat \<times> nat option) option result" where
  "find_sender s who src =
     (let receiver_ok = [(0::nat, p_flags (proc_table s who) = 0), (1, p_msg (proc_table s who) = 0),
             (2, p_recvfrom (proc_table s who) = NO_TASK), (3, p_sendto (proc_table s who) = NO_TASK),
             (4, q_sending (proc_table s who) \<noteq> None)];
          sender_ok = (\<lambda>f. [(5::nat, p_flags (proc_table s f) = SENDING), (6, p_msg (proc_table s f) \<noteq> 0),
             (7, p_recvfrom (proc_table s f) = NO_TASK), (8, p_sendto (proc_table s f) = int who)]);
          at = (\<lambda>base. map (\<lambda>(k, c). (base + k, c)))
      in
      if src = ANY then
        (case q_sending (proc_table s who) of
           None \<Rightarrow> Inr None
         | Some f \<Rightarrow> checks (at 269 (receiver_ok @ sender_ok f)) (Inr (Some (f, None))))
      else if 0 \<le> src \<and> src < nr_slots then
        (let f = nat src in
         if p_flags (proc_table s f) AND SENDING \<noteq> 0 \<and> p_sendto (proc_table s f) = int who then
           check 288 (q_sending (proc_table s who) \<noteq> None)
           (bindE (returns 290 (queue_find (\<lambda>i. next_sending (proc_table s i)) f
                                  (q_sending (proc_table s who)) None))
             (\<lambda>(p, prev). checks (at 299 (receiver_ok @ sender_ok f)) (Inr (Some (f, prev)))))
         else Inr None)
      else Inr None)"

definition dequeue_sender :: "kstate \<Rightarrow> nat \<Rightarrow> nat \<Rightarrow> nat option \<Rightarrow> kstate result" where
  "dequeue_sender s who from prev =
     (if q_sending (proc_table s who) = Some from then
        check 313 (prev = None)
          (Inr (upd_proc from (\<lambda>p. p\<lparr>next_sending := None\<rparr>)
                 (upd_proc who (\<lambda>p. p\<lparr>q_sending := next_sending (proc_table s from)\<rparr>) s)))
      else (case prev of
              None \<Rightarrow> Inl (Assert 318)
            | Some pr \<Rightarrow>
               Inr (upd_proc from (\<lambda>p. p\<lparr>next_sending := None\<rparr>)
                     (upd_proc pr (\<lambda>p. p\<lparr>next_sending := next_sending (proc_table s from)\<rparr>) s))))"

definition msg_receive :: "kstate \<Rightarrow> nat \<Rightarrow> int \<Rightarrow> u32 \<Rightarrow> kstate result" where
  "msg_receive s who src m =
     check 243 (int who \<noteq> src)
     (if has_int_msg (proc_table s who) \<noteq> 0 \<and> (src = ANY \<or> src = INTERRUPT) then
        check 252 (m \<noteq> 0)
        (bindE (va2la s who m) (\<lambda>dst.
           let s = s\<lparr>kmem := store_bytes (kmem s) dst interrupt_msg\<rparr>;
               s = upd_proc who (\<lambda>p. p\<lparr>has_int_msg := 0\<rparr>) s
           in checks [(255, p_flags (proc_table s who) = 0), (256, p_msg (proc_table s who) = 0),
                      (257, p_sendto (proc_table s who) = NO_TASK), (258, has_int_msg (proc_table s who) = 0)]
                (Inr s)))
      else
        bindE (find_sender s who src) (\<lambda>copy. case copy of
          Some (from, prev) \<Rightarrow>
            bindE (dequeue_sender s who from prev) (\<lambda>s.
            checks [(323, m \<noteq> 0), (324, p_msg (proc_table s from) \<noteq> 0)]
            (bindE (va2la s who m) (\<lambda>dst.
             bindE (va2la s from (p_msg (proc_table s from))) (\<lambda>srca.
               let s = s\<lparr>kmem := memcpy (kmem s) dst srca sizeof_MESSAGE\<rparr>;
                   s = upd_proc from (\<lambda>p. p\<lparr>p_msg := 0\<rparr>) s;
                   s = upd_proc from (\<lambda>p. p\<lparr>p_sendto := NO_TASK\<rparr>) s;
                   s = upd_proc from (\<lambda>p. p\<lparr>p_flags := p_flags p AND NOT SENDING\<rparr>) s
               in unblock s from))))
        | None \<Rightarrow>
            let s = upd_proc who (\<lambda>p. p\<lparr>p_flags := p_flags p OR RECEIVING\<rparr>) s;
                s = upd_proc who (\<lambda>p. p\<lparr>p_msg := m\<rparr>) s;
                s = upd_proc who (\<lambda>p. p\<lparr>p_recvfrom := src\<rparr>) s
            in bindE (block s who) (\<lambda>s.
                 checks [(338, p_flags (proc_table s who) = RECEIVING), (339, p_msg (proc_table s who) \<noteq> 0),
                         (340, p_recvfrom (proc_table s who) \<noteq> NO_TASK),
                         (341, p_sendto (proc_table s who) = NO_TASK), (342, has_int_msg (proc_table s who) = 0)]
                   (Inr s))))"

section \<open>The system call and the interrupt entry\<close>

definition sys_sendrec :: "kstate \<Rightarrow> int \<Rightarrow> int \<Rightarrow> u32 \<Rightarrow> nat \<Rightarrow> kstate result" where
  "sys_sendrec s fn src_dest m p =
     check 46 (k_reenter s = 0)
     (check 47 (0 \<le> src_dest \<and> src_dest < NR_TASKS + NR_PROCS \<or> src_dest = ANY \<or> src_dest = INTERRUPT)
      (bindE (va2la s p m) (\<lambda>mla.
         let s = s\<lparr>kmem := store32 (kmem s) (mla + msg_source_off) (of_nat p)\<rparr>
         in check 55 (int p \<noteq> src_dest)
           (if fn = SEND then msg_send s p src_dest m
            else if fn = RECEIVE then msg_receive s p src_dest m
            else Inl (Panic 70)))))"

definition inform_int :: "kstate \<Rightarrow> nat \<Rightarrow> kstate result" where
  "inform_int s task_nr =
     (let p = proc_table s task_nr in
      if p_flags p AND RECEIVING \<noteq> 0 \<and> (p_recvfrom p = INTERRUPT \<or> p_recvfrom p = ANY) then
        let s = s\<lparr>kmem := store32 (kmem s) (p_msg p + msg_source_off) (word_of_int INTERRUPT)\<rparr>;
            s = s\<lparr>kmem := store32 (kmem s) (p_msg p + msg_type_off) HARD_INT\<rparr>;
            s = upd_proc task_nr (\<lambda>p. p\<lparr>p_msg := 0\<rparr>) s;
            s = upd_proc task_nr (\<lambda>p. p\<lparr>has_int_msg := 0\<rparr>) s;
            s = upd_proc task_nr (\<lambda>p. p\<lparr>p_flags := p_flags p AND NOT RECEIVING\<rparr>) s;
            s = upd_proc task_nr (\<lambda>p. p\<lparr>p_recvfrom := NO_TASK\<rparr>) s
        in check 420 (p_flags (proc_table s task_nr) = 0)
           (bindE (unblock s task_nr) (\<lambda>s.
             checks [(423, p_flags (proc_table s task_nr) = 0), (424, p_msg (proc_table s task_nr) = 0),
                     (425, p_recvfrom (proc_table s task_nr) = NO_TASK),
                     (426, p_sendto (proc_table s task_nr) = NO_TASK)]
               (Inr s)))
      else Inr (upd_proc task_nr (\<lambda>p. p\<lparr>has_int_msg := 1\<rparr>) s))"

end
