(* ===== verification/Message.thy ===== *)
theory Message
  imports Ipc
begin

text \<open>
  The \<^verbatim>\<open>MESSAGE\<close> structure of \<^verbatim>\<open>include/type.h\<close> as the tasks see it, the bytes it
  occupies in memory, and the names \<^verbatim>\<open>include/sys/const.h\<close> gives to the members of its
  union. Every request of this system uses the member \<^verbatim>\<open>m3\<close>, the largest one.

  A task's code is modelled on messages as values. \<open>load_message\<close> and \<open>store_message\<close> relate
  such a value to the 48 bytes the message layer copies from one process to another.
\<close>

section \<open>The structure\<close>

record message =
  source :: u32
  msg_type :: u32
  m3i1 :: u32
  m3i2 :: u32
  m3i3 :: u32
  m3i4 :: u32
  m3l1 :: u64
  m3l2 :: u64
  m3p1 :: u32
  m3p2 :: u32

text \<open>\<^verbatim>\<open>reset_msg\<close> clears a message.\<close>

definition reset_msg :: message where
  "reset_msg = \<lparr>source = 0, msg_type = 0, m3i1 = 0, m3i2 = 0, m3i3 = 0, m3i4 = 0, m3l1 = 0, m3l2 = 0,
     m3p1 = 0, m3p2 = 0\<rparr>"

text \<open>The names of the members, by what a request uses them for.\<close>

abbreviation (input) FD :: "message \<Rightarrow> u32" where "FD \<equiv> m3i1"
abbreviation (input) FLAGS :: "message \<Rightarrow> u32" where "FLAGS \<equiv> m3i1"
abbreviation (input) RETVAL :: "message \<Rightarrow> u32" where "RETVAL \<equiv> m3i1"
abbreviation (input) CNT :: "message \<Rightarrow> u32" where "CNT \<equiv> m3i2"
abbreviation (input) PID :: "message \<Rightarrow> u32" where "PID \<equiv> m3i2"
abbreviation (input) NAME_LEN :: "message \<Rightarrow> u32" where "NAME_LEN \<equiv> m3i2"
abbreviation (input) REQUEST :: "message \<Rightarrow> u32" where "REQUEST \<equiv> m3i2"
abbreviation (input) PROC_NR :: "message \<Rightarrow> u32" where "PROC_NR \<equiv> m3i3"
abbreviation (input) DEVICE :: "message \<Rightarrow> u32" where "DEVICE \<equiv> m3i4"
abbreviation (input) POSITION :: "message \<Rightarrow> u64" where "POSITION \<equiv> m3l1"
abbreviation (input) PATHNAME :: "message \<Rightarrow> u32" where "PATHNAME \<equiv> m3p1"
abbreviation (input) BUF :: "message \<Rightarrow> u32" where "BUF \<equiv> m3p2"

section \<open>In memory\<close>

definition le64 :: "u64 \<Rightarrow> u8 list" where
  "le64 w = le32 (ucast w) @ le32 (ucast (drop_bit 32 w))"

definition load64 :: "memory \<Rightarrow> u32 \<Rightarrow> u64" where
  "load64 h a = ucast (load32 h a) OR push_bit 32 (ucast (load32 h (a + 4)))"

definition message_bytes :: "message \<Rightarrow> u8 list" where
  "message_bytes m = le32 (source m) @ le32 (msg_type m) @ le32 (m3i1 m) @ le32 (m3i2 m) @ le32 (m3i3 m)
     @ le32 (m3i4 m) @ le64 (m3l1 m) @ le64 (m3l2 m) @ le32 (m3p1 m) @ le32 (m3p2 m)"

definition store_message :: "memory \<Rightarrow> u32 \<Rightarrow> message \<Rightarrow> memory" where
  "store_message h a m = store_bytes h a (message_bytes m)"

definition load_message :: "memory \<Rightarrow> u32 \<Rightarrow> message" where
  "load_message h a = \<lparr>source = load32 h (a + msg_source_off), msg_type = load32 h (a + msg_type_off),
     m3i1 = load32 h (a + m3i1_off), m3i2 = load32 h (a + m3i2_off), m3i3 = load32 h (a + m3i3_off),
     m3i4 = load32 h (a + m3i4_off), m3l1 = load64 h (a + m3l1_off), m3l2 = load64 h (a + m3l2_off),
     m3p1 = load32 h (a + m3p1_off), m3p2 = load32 h (a + m3p2_off)\<rparr>"

lemma length_message_bytes [simp]: "length (message_bytes m) = sizeof_MESSAGE"
  by (simp add: message_bytes_def le64_def)

text \<open>A word is determined by its four bytes, wherever they lie.\<close>

lemma load32_bytes:
  assumes "\<And>k. k < 4 \<Longrightarrow> h (a + of_nat k) = le32 w ! k"
  shows "load32 h a = w"
  using assms [of 0] assms [of 1] assms [of 2] assms [of 3]
  by (simp add: load32_def le32_def bytes_of_u32)

lemma load32_at:
  assumes all: "\<And>k. k < length bs \<Longrightarrow> h (a + of_nat k) = bs ! k"
    and bs: "bs = pre @ le32 w @ post" and off: "length pre = n"
  shows "load32 h (a + of_nat n) = w"
proof (rule load32_bytes)
  fix k :: nat
  assume k: "k < 4"
  then have "h (a + of_nat (n + k)) = bs ! (n + k)"
    using bs off by (intro all) simp
  also have "\<dots> = le32 w ! k"
    using k bs off by (simp add: nth_append)
  finally show "h (a + of_nat n + of_nat k) = le32 w ! k"
    by (simp add: add.assoc)
qed

lemma halves_u64: "(ucast (ucast w :: u32) :: u64) OR push_bit 32 (ucast (ucast (drop_bit 32 w) :: u32)) = w"
proof (rule bit_word_eqI)
  fix n :: nat
  assume "n < LENGTH(64)"
  then have "n < 32 \<or> 32 \<le> n \<and> n < 64" by auto
  then show "bit ((ucast (ucast w :: u32) :: u64) OR push_bit 32 (ucast (ucast (drop_bit 32 w) :: u32))) n = bit w n"
    by (elim disjE) (auto simp: bit_simps)
qed

lemma load64_at:
  assumes all: "\<And>k. k < length bs \<Longrightarrow> h (a + of_nat k) = bs ! k"
    and bs: "bs = pre @ le64 w @ post" and off: "length pre = n"
  shows "load64 h (a + of_nat n) = w"
proof -
  have "load32 h (a + of_nat n) = ucast w"
    using bs off by (intro load32_at [OF all]) (simp_all add: le64_def)
  moreover have "load32 h (a + of_nat (n + 4)) = ucast (drop_bit 32 w)"
    using bs off by (intro load32_at [OF all, where pre = "pre @ le32 (ucast w)"]) (simp_all add: le64_def)
  ultimately show ?thesis
    by (simp add: load64_def halves_u64 add.assoc)
qed

text \<open>A message is determined by its 48 bytes.\<close>

lemma load_message_bytes:
  assumes all: "\<And>k. k < sizeof_MESSAGE \<Longrightarrow> h (a + of_nat k) = message_bytes m ! k"
  shows "load_message h a = m"
proof -
  have all': "\<And>k. k < length (message_bytes m) \<Longrightarrow> h (a + of_nat k) = message_bytes m ! k"
    using all by simp
  note at32 = load32_at [OF all'] and at64 = load64_at [OF all']
  have "load32 h a = source m"
    using at32 [of "[]" _ _ 0] by (simp add: message_bytes_def)
  moreover have "load32 h (a + 4) = msg_type m"
    using at32 [of "le32 (source m)" _ _ 4] by (simp add: message_bytes_def)
  moreover have "load32 h (a + 8) = m3i1 m"
    using at32 [of "le32 (source m) @ le32 (msg_type m)" _ _ 8] by (simp add: message_bytes_def)
  moreover have "load32 h (a + 12) = m3i2 m"
    using at32 [of "le32 (source m) @ le32 (msg_type m) @ le32 (m3i1 m)" _ _ 12]
    by (simp add: message_bytes_def)
  moreover have "load32 h (a + 16) = m3i3 m"
    using at32 [of "le32 (source m) @ le32 (msg_type m) @ le32 (m3i1 m) @ le32 (m3i2 m)" _ _ 16]
    by (simp add: message_bytes_def)
  moreover have "load32 h (a + 20) = m3i4 m"
    using at32 [of "le32 (source m) @ le32 (msg_type m) @ le32 (m3i1 m) @ le32 (m3i2 m) @ le32 (m3i3 m)" _ _ 20]
    by (simp add: message_bytes_def)
  moreover have "load64 h (a + 24) = m3l1 m"
    using at64 [of "le32 (source m) @ le32 (msg_type m) @ le32 (m3i1 m) @ le32 (m3i2 m) @ le32 (m3i3 m)
       @ le32 (m3i4 m)" _ _ 24] by (simp add: message_bytes_def)
  moreover have "load64 h (a + 32) = m3l2 m"
    using at64 [of "le32 (source m) @ le32 (msg_type m) @ le32 (m3i1 m) @ le32 (m3i2 m) @ le32 (m3i3 m)
       @ le32 (m3i4 m) @ le64 (m3l1 m)" _ _ 32] by (simp add: message_bytes_def le64_def)
  moreover have "load32 h (a + 40) = m3p1 m"
    using at32 [of "le32 (source m) @ le32 (msg_type m) @ le32 (m3i1 m) @ le32 (m3i2 m) @ le32 (m3i3 m)
       @ le32 (m3i4 m) @ le64 (m3l1 m) @ le64 (m3l2 m)" _ _ 40] by (simp add: message_bytes_def le64_def)
  moreover have "load32 h (a + 44) = m3p2 m"
    using at32 [of "le32 (source m) @ le32 (msg_type m) @ le32 (m3i1 m) @ le32 (m3i2 m) @ le32 (m3i3 m)
       @ le32 (m3i4 m) @ le64 (m3l1 m) @ le64 (m3l2 m) @ le32 (m3p1 m)" _ "[]" 44]
    by (simp add: message_bytes_def le64_def)
  ultimately show ?thesis
    by (simp add: load_message_def)
qed

lemma load_store_message: "load_message (store_message h a m) a = m"
  by (rule load_message_bytes) (simp add: store_message_def store_bytes_stores)

text \<open>What a copy of the 48 bytes to a place that does not overlap them delivers.\<close>

lemma load_message_memcpy:
  assumes "region dst sizeof_MESSAGE \<inter> region src sizeof_MESSAGE = {}"
    and "\<And>k. k < sizeof_MESSAGE \<Longrightarrow> h (src + of_nat k) = message_bytes m ! k"
  shows "load_message (memcpy h dst src sizeof_MESSAGE) dst = m"
  using assms by (intro load_message_bytes) (simp add: memcpy_copies)

text \<open>A kernel state in which every segment starts at address 0, for concrete instances.\<close>

definition flat_kstate :: "memory \<Rightarrow> kstate" where
  "flat_kstate h = \<lparr>k_ticks = 0, k_reenter = 0, key_pressed = 0, p_proc_ready = 5, proc_table = (\<lambda>_. zero_proc), kmem = h\<rparr>"

lemma flat_va2la: "va2la (flat_kstate h) p a = Inr a"
  by (simp add: va2la_def flat_kstate_def ldt_seg_linear_def zero_proc_def zero_descriptor_def desc_base_def)

end
