(* ===== verification/Sector_Store.thy ===== *)
theory Sector_Store
  imports Dlos_Prelude
begin

text \<open>
  The contract between the file system and the disk driver: a store of numbered sectors that are
  read into and written from one buffer, and the lemmas the file system's routines share, all
  of which read a sector, change some bytes of the buffer and write it back. The second part
  relates bytes of the buffer in memory to the list of bytes of the sector.
\<close>

section \<open>The interface\<close>

locale sector_store =
  fixes ok :: "'s \<Rightarrow> bool" and limit :: nat
    and rd :: "nat \<Rightarrow> 's \<Rightarrow> 's result" and wr :: "nat \<Rightarrow> 's \<Rightarrow> 's result"
    and sect :: "'s \<Rightarrow> nat \<Rightarrow> u8 list" and buf :: "'s \<Rightarrow> u8 list" and frame :: "'s \<Rightarrow> 's \<Rightarrow> bool"
  assumes rd_ok: "ok s \<Longrightarrow> n < limit \<Longrightarrow>
      \<exists>s'. rd n s = Inr s' \<and> ok s' \<and> buf s' = sect s n \<and> sect s' = sect s \<and> frame s s'"
    and wr_ok: "ok s \<Longrightarrow> n < limit \<Longrightarrow>
      \<exists>s'. wr n s = Inr s' \<and> ok s' \<and> sect s' = (sect s)(n := buf s) \<and> buf s' = buf s \<and> frame s s'"
    and frame_trans: "frame s t \<Longrightarrow> frame t u \<Longrightarrow> frame s u"
begin

text \<open>A change of the buffer between a read and a write.\<close>

definition edits :: "(u8 list \<Rightarrow> u8 list) \<Rightarrow> ('s \<Rightarrow> 's) \<Rightarrow> 's \<Rightarrow> bool" where
  "edits b g s \<longleftrightarrow> ok (g s) \<and> buf (g s) = b (buf s) \<and> sect (g s) = sect s \<and> frame s (g s)"

lemma read_modify_write:
  assumes "ok s" "n < limit" and g: "\<And>s'. ok s' \<Longrightarrow> buf s' = sect s n \<Longrightarrow> frame s s' \<Longrightarrow> edits b g s'"
  shows "\<exists>s'. bindE (rd n s) (\<lambda>s. wr n (g s)) = Inr s' \<and> ok s' \<and> sect s' = (sect s)(n := b (sect s n)) \<and> frame s s'"
proof -
  obtain s1 where s1: "rd n s = Inr s1" "ok s1" "buf s1 = sect s n" "sect s1 = sect s" "frame s s1"
    using rd_ok [OF assms(1, 2)] by blast
  then have e: "ok (g s1)" "buf (g s1) = b (sect s n)" "sect (g s1) = sect s" "frame s1 (g s1)"
    using g [of s1] by (simp_all add: edits_def)
  obtain s2 where s2: "wr n (g s1) = Inr s2" "ok s2" "sect s2 = (sect (g s1))(n := buf (g s1))" "frame (g s1) s2"
    using wr_ok [OF e(1) assms(2)] by blast
  have "frame s s2" using s1(5) e(4) s2(4) frame_trans by blast
  with s1 e s2 show ?thesis by simp
qed

end

section \<open>Bytes of a buffer\<close>

definition splice :: "nat \<Rightarrow> 'a list \<Rightarrow> 'a list \<Rightarrow> 'a list" where
  "splice off bs xs = take off xs @ bs @ drop (off + length bs) xs"

lemma length_splice [simp]: "off + length bs \<le> length xs \<Longrightarrow> length (splice off bs xs) = length xs"
  by (simp add: splice_def)

lemma nth_splice:
  assumes "off + length bs \<le> length xs" "i < length xs"
  shows "splice off bs xs ! i = (if off \<le> i \<and> i < off + length bs then bs ! (i - off) else xs ! i)"
proof -
  have "min (length xs) off = off" using assms(1) by simp
  then show ?thesis using assms by (auto simp: splice_def nth_append)
qed

lemma splice_same: "off + length bs \<le> length xs \<Longrightarrow> take (length bs) (drop off (splice off bs xs)) = bs"
  by (simp add: splice_def)

lemma region_offset:
  assumes "x \<in> region (a + of_nat off) n"
  obtains k where "k < n" "x = a + of_nat (off + k)"
  using assms by (auto simp: region_def add.assoc)

lemma store_bytes_nth:
  assumes "off + length bs \<le> n" "n < 2 ^ 32" "i < n"
  shows "store_bytes h (a + of_nat off) bs (a + of_nat i) = (if off \<le> i \<and> i < off + length bs then bs ! (i - off) else h (a + of_nat i))"
proof (cases "off \<le> i \<and> i < off + length bs")
  case True
  then have "a + of_nat i = a + of_nat off + of_nat (i - off)"
    by (simp add: add.assoc flip: of_nat_add)
  moreover have "store_bytes h (a + of_nat off) bs (a + of_nat off + of_nat (i - off)) = bs ! (i - off)"
    using True assms by (intro store_bytes_stores) auto
  ultimately show ?thesis using True by simp
next
  case False
  have "a + of_nat i \<notin> region (a + of_nat off) (length bs)"
  proof
    assume "a + of_nat i \<in> region (a + of_nat off) (length bs)"
    then obtain k where k: "k < length bs" "(of_nat i :: u32) = of_nat (off + k)"
      by (auto elim: region_offset)
    then have "i = off + k"
      using of_nat_inj_u32 [of i "off + k"] assms by auto
    with False k(1) show False by simp
  qed
  with False show ?thesis by (auto simp: store_bytes_frame)
qed

lemma load_store_splice:
  assumes "off + length bs \<le> n" "n < 2 ^ 32"
  shows "load_bytes (store_bytes h (a + of_nat off) bs) a n = splice off bs (load_bytes h a n)"
proof (rule nth_equalityI)
  fix i
  assume "i < length (load_bytes (store_bytes h (a + of_nat off) bs) a n)"
  then have i: "i < n" by simp
  then have "load_bytes (store_bytes h (a + of_nat off) bs) a n ! i = store_bytes h (a + of_nat off) bs (a + of_nat i)"
    by (simp add: load_bytes_def)
  also have "\<dots> = (if off \<le> i \<and> i < off + length bs then bs ! (i - off) else h (a + of_nat i))"
    by (rule store_bytes_nth [OF assms i])
  also have "\<dots> = splice off bs (load_bytes h a n) ! i"
    using assms i by (simp add: nth_splice) (simp add: load_bytes_def)
  finally show "load_bytes (store_bytes h (a + of_nat off) bs) a n ! i = splice off bs (load_bytes h a n) ! i" .
qed (use assms in simp)

lemma load_bytes_drop: "off + m \<le> n \<Longrightarrow> load_bytes h (a + of_nat off) m = take m (drop off (load_bytes h a n))"
proof -
  assume "off + m \<le> n"
  then obtain r where "n = off + (m + r)" by (metis add.assoc le_iff_add)
  then show ?thesis by (simp add: load_bytes_append)
qed

text \<open>The word at an offset of a list of bytes.\<close>

definition word_at :: "u8 list \<Rightarrow> nat \<Rightarrow> u32" where
  "word_at bs off = ucast (bs ! off) OR push_bit 8 (ucast (bs ! (off + 1)))
     OR push_bit 16 (ucast (bs ! (off + 2))) OR push_bit 24 (ucast (bs ! (off + 3)))"

lemma load32_word_at:
  assumes "off + 4 \<le> n"
  shows "load32 h (a + of_nat off) = word_at (load_bytes h a n) off"
proof -
  have "load_bytes h a n ! (off + k) = h (a + of_nat off + of_nat k)" if "k < 4" for k
    using assms that by (simp add: load_bytes_def add.assoc)
  from this [of 0] this [of 1] this [of 2] this [of 3] show ?thesis
    by (simp add: load32_def word_at_def)
qed

lemma word_at_le32:
  assumes "take 4 (drop off bs) = le32 w" "off + 4 \<le> length bs"
  shows "word_at bs off = w"
proof -
  have "bs ! (off + k) = le32 w ! k" if "k < 4" for k
  proof -
    have "take 4 (drop off bs) ! k = bs ! (off + k)" using that assms(2) by simp
    with assms(1) show ?thesis by simp
  qed
  from this [of 0] this [of 1] this [of 2] this [of 3] show ?thesis
    by (simp add: word_at_def le32_def bytes_of_u32)
qed

lemma word_at_append: "word_at (xs @ bs) (length xs + off) = word_at bs off"
  by (simp add: word_at_def nth_append)

lemma word_at_splice:
  assumes "off + length bs \<le> length xs" "k + 4 \<le> length bs"
  shows "word_at (splice off bs xs) (off + k) = word_at bs k"
  using assms by (simp add: word_at_def nth_splice)

lemma word_at_splice_frame:
  assumes "off + length bs \<le> length xs" "k + 4 \<le> off \<or> off + length bs \<le> k" "k + 4 \<le> length xs"
  shows "word_at (splice off bs xs) k = word_at xs k"
  using assms by (auto simp: word_at_def nth_splice)

end
