(* ===== verification/Hd.thy ===== *)
theory Hd
  imports Message Sector_Store "HOL-Library.Signed_Division"
begin

text \<open>
  The hard disk driver of \<^verbatim>\<open>kernel/hd.c\<close>: partition tables, opening and closing, and the
  transfer of sectors between the disk and a process's memory.

  The controller is hardware. Its state here is what the driver can observe of an ATA disk: the
  sectors, the identification block, whether its status register answers before the driver's
  timeout, and the transfer in progress (the next sector and how many are left). A read
  command for \<open>n\<close> sectors raises \<open>n\<close> interrupts and delivers one sector after each; a write
  command asks for \<open>n\<close> sectors and raises an interrupt after each complete one. Waiting for an
  interrupt that never comes is a hang, and a controller that does not ask for data makes
  \<^verbatim>\<open>waitfor\<close> time out.
\<close>

section \<open>Data\<close>

record part_info =
  part_base :: u32
  part_size :: u32

record hd_info =
  open_cnt :: int
  primary :: "nat \<Rightarrow> part_info"
  logical :: "nat \<Rightarrow> part_info"

record part_ent =
  sys_id :: u8
  start_sect :: u32
  nr_sects :: u32

record hd_cmd =
  cmd_features :: u8
  cmd_count :: u8
  lba_low :: u8
  lba_mid :: u8
  lba_high :: u8
  cmd_device :: u8
  cmd_command :: u8

record ata =
  sectors :: "nat \<Rightarrow> u8 list"
  identity :: "u8 list"
  responds :: bool
  xfer_lba :: nat
  xfer_left :: nat

record hd =
  hdi :: hd_info
  disk :: ata
  hks :: kstate

abbreviation (input) SECTOR_SIZE :: "'a::numeral" where "SECTOR_SIZE \<equiv> 512"
abbreviation (input) NR_PRIM_PER_DRIVE :: "'a::numeral" where "NR_PRIM_PER_DRIVE \<equiv> 5"
abbreviation (input) NR_PART_PER_DRIVE :: "'a::numeral" where "NR_PART_PER_DRIVE \<equiv> 4"
abbreviation (input) NR_SUB_PER_PART :: "'a::numeral" where "NR_SUB_PER_PART \<equiv> 16"
abbreviation (input) NR_SUB_PER_DRIVE :: "'a::numeral" where "NR_SUB_PER_DRIVE \<equiv> 64"
abbreviation (input) MAX_PRIM :: "'a::numeral" where "MAX_PRIM \<equiv> 9"
abbreviation (input) MINOR_hd1a :: "'a::numeral" where "MINOR_hd1a \<equiv> 0x10"
abbreviation (input) ATA_IDENTIFY :: u8 where "ATA_IDENTIFY \<equiv> 0xEC"
abbreviation (input) ATA_READ :: u8 where "ATA_READ \<equiv> 0x20"
abbreviation (input) ATA_WRITE :: u8 where "ATA_WRITE \<equiv> 0x30"
abbreviation (input) NO_PART :: u8 where "NO_PART \<equiv> 0"
abbreviation (input) EXT_PART :: u8 where "EXT_PART \<equiv> 5"

section \<open>Commands\<close>

definition MAKE_DEVICE_REG :: "u32 \<Rightarrow> u32 \<Rightarrow> u32 \<Rightarrow> u8" where
  "MAKE_DEVICE_REG lba drv lba_highest =
     ucast (push_bit 6 lba OR push_bit 4 drv OR (lba_highest AND 0xF) OR 0xA0)"

text \<open>The command block for \<open>count\<close> sectors from \<open>sect_nr\<close> on.\<close>

definition sector_cmd :: "u32 \<Rightarrow> u8 \<Rightarrow> u32 \<Rightarrow> u8 \<Rightarrow> hd_cmd" where
  "sector_cmd drive count sect_nr command =
     \<lparr>cmd_features = 0, cmd_count = count, lba_low = ucast (sect_nr AND 0xFF),
      lba_mid = ucast (drop_bit 8 sect_nr AND 0xFF), lba_high = ucast (drop_bit 16 sect_nr AND 0xFF),
      cmd_device = MAKE_DEVICE_REG 1 drive (drop_bit 24 sect_nr AND 0xF), cmd_command = command\<rparr>"

text \<open>What the controller makes of the registers: a 28-bit sector number, a count of 0 meaning 256.\<close>

definition cmd_lba :: "hd_cmd \<Rightarrow> nat" where
  "cmd_lba c = unat (lba_low c) + 2 ^ 8 * unat (lba_mid c) + 2 ^ 16 * unat (lba_high c)
     + 2 ^ 24 * unat (cmd_device c AND 0xF)"

definition hd_cmd_out :: "hd_cmd \<Rightarrow> ata \<Rightarrow> ata result" where
  "hd_cmd_out c d =
     (if \<not> responds d then Inl (Panic 316)
      else Inr (d\<lparr>xfer_lba := cmd_lba c,
             xfer_left := (if cmd_command c = ATA_IDENTIFY then 1
                           else if cmd_count c = 0 then 256 else unat (cmd_count c))\<rparr>))"

text \<open>One sector from the controller: \<^verbatim>\<open>interrupt_wait\<close> and \<^verbatim>\<open>port_read\<close>.\<close>

definition read_one :: "nat \<Rightarrow> ata \<Rightarrow> (u8 list \<times> ata) result" where
  "read_one ln d =
     (if xfer_left d = 0 then Inl (Hang ln)
      else Inr (sectors d (xfer_lba d), d\<lparr>xfer_lba := xfer_lba d + 1, xfer_left := xfer_left d - 1\<rparr>))"

text \<open>One sector to the controller: \<^verbatim>\<open>waitfor\<close>, \<^verbatim>\<open>port_write\<close> and \<^verbatim>\<open>interrupt_wait\<close>. Less than a
  whole sector leaves the controller waiting for the rest.\<close>

definition write_one :: "u8 list \<Rightarrow> ata \<Rightarrow> ata result" where
  "write_one bs d =
     (if \<not> responds d \<or> xfer_left d = 0 then Inl (Panic 142)
      else if length bs < SECTOR_SIZE then Inl (Hang 146)
      else Inr (d\<lparr>sectors := (sectors d)(xfer_lba d := bs), xfer_lba := xfer_lba d + 1,
             xfer_left := xfer_left d - 1\<rparr>))"

section \<open>Partitions\<close>

definition DRV_OF_DEV :: "int \<Rightarrow> int" where
  "DRV_OF_DEV dev = (if dev \<le> MAX_PRIM then dev sdiv NR_PRIM_PER_DRIVE else (dev - MINOR_hd1a) sdiv NR_SUB_PER_DRIVE)"

text \<open>\<^verbatim>\<open>hd_info\<close> has one element, the arrays in it five and sixty-four.\<close>

definition part_of :: "nat \<Rightarrow> int \<Rightarrow> hd_info \<Rightarrow> part_info result" where
  "part_of ln device hi =
     (if DRV_OF_DEV device \<noteq> 0 then Inl (OutOfBounds ln)
      else if device < MAX_PRIM then
        (if 0 \<le> device \<and> device < NR_PRIM_PER_DRIVE then Inr (primary hi (nat device)) else Inl (OutOfBounds ln))
      else let logidx = (device - MINOR_hd1a) smod NR_SUB_PER_DRIVE
           in if 0 \<le> logidx then Inr (logical hi (nat logidx)) else Inl (OutOfBounds ln))"

text \<open>The 16 bytes of a partition table entry at \<open>i\<close> in a boot sector.\<close>

definition part_entry :: "u8 list \<Rightarrow> nat \<Rightarrow> part_ent" where
  "part_entry bs i =
     (let off = 0x1BE + 16 * i
      in \<lparr>sys_id = bs ! (off + 4), start_sect = word_at bs (off + 8), nr_sects = word_at bs (off + 12)\<rparr>)"

definition get_part_table :: "int \<Rightarrow> u32 \<Rightarrow> ata \<Rightarrow> ((nat \<Rightarrow> part_ent) \<times> ata) result" where
  "get_part_table drive sect_nr d =
     bindE (hd_cmd_out (sector_cmd (word_of_int drive) 1 sect_nr ATA_READ) d) (\<lambda>d.
     bindE (read_one 181 d) (\<lambda>(bs, d). Inr (part_entry bs, d)))"

text \<open>The logical partitions of an extended one: the loop over at most sixteen, each with a link
  to the next.\<close>

fun partition_logical :: "u32 \<Rightarrow> u32 \<Rightarrow> nat \<Rightarrow> nat \<Rightarrow> hd_info \<Rightarrow> ata \<Rightarrow> (hd_info \<times> ata) result" where
  "partition_logical ext_start_sect s dev_nr 0 hi d = Inr (hi, d)"
| "partition_logical ext_start_sect s dev_nr (Suc n) hi d =
     bindE (get_part_table 0 s d) (\<lambda>(tbl, d).
       let hi = hi\<lparr>logical := (logical hi)(dev_nr := \<lparr>part_base = s + start_sect (tbl 0), part_size = nr_sects (tbl 0)\<rparr>)\<rparr>;
           s = ext_start_sect + start_sect (tbl 1)
       in if sys_id (tbl 1) = NO_PART then Inr (hi, d)
          else partition_logical ext_start_sect s (dev_nr + 1) n hi d)"

definition partition_extended :: "nat \<Rightarrow> hd_info \<Rightarrow> ata \<Rightarrow> (hd_info \<times> ata) result" where
  "partition_extended device hi d =
     (let j = device mod NR_PRIM_PER_DRIVE;
          ext_start_sect = part_base (primary hi j)
      in partition_logical ext_start_sect ext_start_sect ((j - 1) * NR_SUB_PER_PART) NR_SUB_PER_PART hi d)"

text \<open>The loop over the four entries of the boot record; it counts the ones in use.\<close>

fun partition_primary :: "(nat \<Rightarrow> part_ent) \<Rightarrow> nat list \<Rightarrow> hd_info \<Rightarrow> ata \<Rightarrow> nat \<Rightarrow> (nat \<times> hd_info \<times> ata) result" where
  "partition_primary tbl [] hi d nr_prim_parts = Inr (nr_prim_parts, hi, d)"
| "partition_primary tbl (i # is) hi d nr_prim_parts =
     (if sys_id (tbl i) = NO_PART then partition_primary tbl is hi d nr_prim_parts
      else let dev_nr = i + 1;
               hi = hi\<lparr>primary := (primary hi)(dev_nr := \<lparr>part_base = start_sect (tbl i), part_size = nr_sects (tbl i)\<rparr>)\<rparr>
           in bindE (if sys_id (tbl i) = EXT_PART then partition_extended dev_nr hi d else Inr (hi, d)) (\<lambda>(hi, d).
                partition_primary tbl is hi d (nr_prim_parts + 1)))"

definition partition_drive :: "hd_info \<Rightarrow> ata \<Rightarrow> (hd_info \<times> ata) result" where
  "partition_drive hi d =
     bindE (get_part_table 0 0 d) (\<lambda>(tbl, d).
     bindE (partition_primary tbl [0..<NR_PART_PER_DRIVE] hi d 0) (\<lambda>(nr_prim_parts, hi, d).
       check 212 (nr_prim_parts \<noteq> 0) (Inr (hi, d))))"

definition hd_identify :: "hd_info \<Rightarrow> ata \<Rightarrow> (hd_info \<times> ata) result" where
  "hd_identify hi d =
     bindE (hd_cmd_out \<lparr>cmd_features = 0, cmd_count = 0, lba_low = 0, lba_mid = 0, lba_high = 0,
              cmd_device = MAKE_DEVICE_REG 0 0 0, cmd_command = ATA_IDENTIFY\<rparr> d) (\<lambda>d.
       let d = d\<lparr>xfer_left := 0\<rparr>; w = (\<lambda>i. ucast (identity d ! (2 * i)) OR push_bit 8 (ucast (identity d ! (2 * i + 1))) :: u32)
       in Inr (hi\<lparr>primary := (primary hi)(0 := \<lparr>part_base = 0, part_size = push_bit 16 (w 61) + w 60\<rparr>)\<rparr>, d))"

section \<open>Requests\<close>

definition init_hd :: "hd \<Rightarrow> hd result" where
  "init_hd s =
     check 71 (kmem (hks s) 0x475 \<noteq> 0)
     (let none = \<lparr>part_base = 0, part_size = 0\<rparr>
      in Inr (s\<lparr>hdi := \<lparr>open_cnt = 0, primary = (\<lambda>_. none), logical = (\<lambda>_. none)\<rparr>\<rparr>))"

definition hd_open :: "int \<Rightarrow> hd \<Rightarrow> hd result" where
  "hd_open device s =
     check 86 (DRV_OF_DEV device = 0)
     (bindE (hd_identify (hdi s) (disk s)) (\<lambda>(hi, d).
        let first = (open_cnt hi = 0); hi = hi\<lparr>open_cnt := open_cnt hi + 1\<rparr>
        in bindE (if first then partition_drive hi d else Inr (hi, d)) (\<lambda>(hi, d). Inr (s\<lparr>hdi := hi, disk := d\<rparr>))))"

definition hd_close :: "int \<Rightarrow> hd \<Rightarrow> hd result" where
  "hd_close device s =
     check 99 (DRV_OF_DEV device = 0) (Inr (s\<lparr>hdi := (hdi s)\<lparr>open_cnt := open_cnt (hdi s) - 1\<rparr>\<rparr>))"

text \<open>The two branches of the loop of \<^verbatim>\<open>hd_rdwt\<close>. \<^verbatim>\<open>bytes_left\<close> goes down by whole sectors and the
  loop stops only at zero.\<close>

function hd_read_loop :: "int \<Rightarrow> u32 \<Rightarrow> ata \<Rightarrow> memory \<Rightarrow> (ata \<times> memory) result" where
  "hd_read_loop bytes_left la d h =
     (if bytes_left = 0 then Inr (d, h)
      else case read_one 136 d of
             Inl e \<Rightarrow> Inl e
           | Inr (bs, d') \<Rightarrow>
               let bytes = min SECTOR_SIZE bytes_left
               in if bytes < 0 then Inl (OutOfBounds 138)
                  else hd_read_loop (bytes_left - SECTOR_SIZE) (la + SECTOR_SIZE) d' (store_bytes h la (take (nat bytes) bs)))"
  by pat_completeness auto
termination
  by (relation "measure (\<lambda>(b, la, d, h). xfer_left d)") (auto simp: read_one_def split: if_splits)

function hd_write_loop :: "int \<Rightarrow> u32 \<Rightarrow> memory \<Rightarrow> ata \<Rightarrow> ata result" where
  "hd_write_loop bytes_left la h d =
     (if bytes_left = 0 then Inr d
      else case write_one (load_bytes h la (nat (min SECTOR_SIZE bytes_left))) d of
             Inl e \<Rightarrow> Inl e
           | Inr d' \<Rightarrow> hd_write_loop (bytes_left - SECTOR_SIZE) (la + SECTOR_SIZE) h d')"
  by pat_completeness auto
termination
  by (relation "measure (\<lambda>(b, la, h, d). xfer_left d)") (auto simp: write_one_def split: if_splits)

declare hd_read_loop.simps [simp del] hd_write_loop.simps [simp del]

text \<open>The first assertion compares with \<^verbatim>\<open>1 << 31\<close>, which is negative as an \<^verbatim>\<open>int\<close> and becomes
  \<open>2\<^sup>6\<^sup>4 - 2\<^sup>3\<^sup>1\<close> when it is converted for the comparison.\<close>

definition hd_rdwt :: "message \<Rightarrow> hd \<Rightarrow> hd result" where
  "hd_rdwt p s =
     (let device = sint (DEVICE p); pos = POSITION p
      in checks [(109, unat (drop_bit 9 pos) < 2 ^ 64 - 2 ^ 31), (111, pos AND 0x1FF = 0)]
      (bindE (part_of 117 device (hdi s)) (\<lambda>part.
         let sect_nr = ucast (drop_bit 9 pos) + part_base part;
             cnt = sint (CNT p);
             cmd = sector_cmd (word_of_int (DRV_OF_DEV device)) (word_of_int ((cnt + SECTOR_SIZE - 1) sdiv SECTOR_SIZE)) sect_nr
                     (if msg_type p = DEV_READ then ATA_READ else ATA_WRITE)
         in bindE (hd_cmd_out cmd (disk s)) (\<lambda>d.
            if \<not> (0 \<le> sint (PROC_NR p) \<and> sint (PROC_NR p) < nr_slots) then Inl (OutOfBounds 131)
            else bindE (va2la (hks s) (nat (sint (PROC_NR p))) (BUF p)) (\<lambda>la.
              if msg_type p = DEV_READ then
                bindE (hd_read_loop cnt la d (kmem (hks s))) (\<lambda>(d, h). Inr (s\<lparr>disk := d, hks := (hks s)\<lparr>kmem := h\<rparr>\<rparr>))
              else bindE (hd_write_loop cnt la (kmem (hks s)) d) (\<lambda>d. Inr (s\<lparr>disk := d\<rparr>)))))))"

definition hd_ioctl :: "message \<Rightarrow> hd \<Rightarrow> hd result" where
  "hd_ioctl p s =
     check 166 (REQUEST p = 1)
     (if \<not> (0 \<le> sint (PROC_NR p) \<and> sint (PROC_NR p) < nr_slots) then Inl (OutOfBounds 160)
      else bindE (va2la (hks s) (nat (sint (PROC_NR p))) (BUF p)) (\<lambda>dst.
           bindE (part_of 161 (sint (DEVICE p)) (hdi s)) (\<lambda>part.
             Inr (s\<lparr>hks := (hks s)\<lparr>kmem := store_bytes (kmem (hks s)) dst (le32 (part_base part) @ le32 (part_size part))\<rparr>\<rparr>))))"

text \<open>What \<^verbatim>\<open>task_hd\<close> does with a request; the request itself is sent back. An unknown one stops the
  task in \<^verbatim>\<open>spin\<close>.\<close>

definition task_hd_msg :: "message \<Rightarrow> hd \<Rightarrow> hd result" where
  "task_hd_msg m s =
     (if msg_type m = DEV_OPEN then hd_open (sint (DEVICE m)) s
      else if msg_type m = DEV_CLOSE then hd_close (sint (DEVICE m)) s
      else if msg_type m = DEV_READ \<or> msg_type m = DEV_WRITE then hd_rdwt m s
      else if msg_type m = DEV_IOCTL then hd_ioctl m s
      else Inl (Hang 60))"

section \<open>Sector numbers\<close>

lemma unat_low_byte: "unat (ucast (w AND 0xFF :: u32) :: u8) = unat w mod 2 ^ 8"
proof -
  have "(w AND 0xFF :: u32) = take_bit 8 w" by (simp add: take_bit_eq_mask mask_eq_exp_minus_1)
  then show ?thesis by (simp add: unsigned_ucast_eq unsigned_take_bit_eq take_bit_eq_mod [where 'a = nat])
qed

lemma unat_shift: "unat (drop_bit n w) = unat w div 2 ^ n"
  by (simp add: unat_drop_bit_eq drop_bit_eq_div [where 'a = nat])

lemma device_reg_lba: "MAKE_DEVICE_REG 1 0 (x AND 0xF) AND 0xF = ucast (x AND 0xF)"
proof (rule bit_word_eqI)
  fix n :: nat
  assume "n < LENGTH(8)"
  then have "n = 0 \<or> n = 1 \<or> n = 2 \<or> n = 3 \<or> n = 4 \<or> n = 5 \<or> n = 6 \<or> n = 7" by auto
  then show "bit (MAKE_DEVICE_REG 1 0 (x AND 0xF) AND 0xF) n = bit (ucast (x AND 0xF) :: u8) n"
    by (elim disjE) (simp_all add: MAKE_DEVICE_REG_def bit_simps)
qed

lemma unat_low_nibble: "unat (ucast (w AND 0xF :: u32) :: u8) = unat w mod 2 ^ 4"
proof -
  have "(w AND 0xF :: u32) = take_bit 4 w" by (simp add: take_bit_eq_mask mask_eq_exp_minus_1)
  then show ?thesis by (simp add: unsigned_ucast_eq unsigned_take_bit_eq take_bit_eq_mod [where 'a = nat] mod_mod_cancel)
qed

lemma cmd_lba_sector_cmd: "cmd_lba (sector_cmd 0 n sect_nr c) = unat sect_nr mod 2 ^ 28"
proof -
  let ?s = "unat sect_nr"
  have "cmd_lba (sector_cmd 0 n sect_nr c) = ?s mod 256 + 256 * (?s div 256 mod 256)
      + 65536 * (?s div 65536 mod 256) + 16777216 * (?s div 16777216 mod 16)"
    using device_reg_lba [of "drop_bit 24 sect_nr"]
    by (simp add: cmd_lba_def sector_cmd_def unat_low_byte unat_low_nibble unat_shift)
  also have "\<dots> = ?s mod 2 ^ 28"
  proof -
    have "?s mod 256 + 256 * (?s div 256) = ?s" by simp
    moreover have "?s div 256 mod 256 + 256 * (?s div 65536) = ?s div 256"
      using mod_mult_div_eq [of "?s div 256" 256] by (simp flip: div_mult2_eq)
    moreover have "?s div 65536 mod 256 + 256 * (?s div 16777216) = ?s div 65536"
      using mod_mult_div_eq [of "?s div 65536" 256] by (simp flip: div_mult2_eq)
    moreover have "?s mod 16777216 + 16777216 * (?s div 16777216) = ?s" by simp
    moreover have "?s mod 2 ^ 28 = 16777216 * (?s div 16777216 mod 16) + ?s mod 16777216"
      using mod_mult2_eq [of ?s 16777216 16] by simp
    ultimately show ?thesis by linarith
  qed
  finally show ?thesis .
qed

section \<open>Transfers\<close>

lemma hd_read_loop_sectors:
  assumes "n \<le> xfer_left d" "\<And>k. length (sectors d k) = SECTOR_SIZE"
  shows "hd_read_loop (int (SECTOR_SIZE * n) + int r) la d h =
    hd_read_loop (int r) (la + of_nat (SECTOR_SIZE * n)) (d\<lparr>xfer_lba := xfer_lba d + n, xfer_left := xfer_left d - n\<rparr>)
      (store_bytes h la (concat (map (sectors d) [xfer_lba d..<xfer_lba d + n])))"
  using assms
proof (induction n arbitrary: la d h)
  case 0
  then show ?case by simp
next
  case (Suc n)
  let ?d = "d\<lparr>xfer_lba := xfer_lba d + 1, xfer_left := xfer_left d - 1\<rparr>"
  let ?h = "store_bytes h la (sectors d (xfer_lba d))"
  have "hd_read_loop (int (SECTOR_SIZE * Suc n) + int r) la d h
      = hd_read_loop (int (SECTOR_SIZE * n) + int r) (la + SECTOR_SIZE) ?d ?h"
    using Suc.prems by (subst hd_read_loop.simps) (simp add: read_one_def Let_def)
  also have "\<dots> = hd_read_loop (int r) (la + SECTOR_SIZE + of_nat (SECTOR_SIZE * n))
      (?d\<lparr>xfer_lba := xfer_lba ?d + n, xfer_left := xfer_left ?d - n\<rparr>)
      (store_bytes ?h (la + SECTOR_SIZE) (concat (map (sectors ?d) [xfer_lba ?d..<xfer_lba ?d + n])))"
    using Suc.prems by (intro Suc.IH) simp_all
  also have "store_bytes ?h (la + SECTOR_SIZE) (concat (map (sectors ?d) [xfer_lba ?d..<xfer_lba ?d + n]))
      = store_bytes h la (concat (map (sectors d) [xfer_lba d..<xfer_lba d + Suc n]))"
    using store_bytes_append [of h la "sectors d (xfer_lba d)"] Suc.prems(2)
    by (simp add: upt_conv_Cons del: upt_Suc)
  finally show ?case by (simp add: algebra_simps)
qed

lemma hd_write_loop_sectors:
  assumes "n \<le> xfer_left d" "responds d"
  shows "hd_write_loop (int (SECTOR_SIZE * n)) la h d =
    Inr (d\<lparr>xfer_lba := xfer_lba d + n, xfer_left := xfer_left d - n,
      sectors := (\<lambda>k. if xfer_lba d \<le> k \<and> k < xfer_lba d + n
         then load_bytes h (la + of_nat (SECTOR_SIZE * (k - xfer_lba d))) SECTOR_SIZE else sectors d k)\<rparr>)"
  using assms
proof (induction n arbitrary: la d)
  case 0
  have "(\<lambda>k. if xfer_lba d \<le> k \<and> k < xfer_lba d then load_bytes h (la + of_nat (SECTOR_SIZE * (k - xfer_lba d))) SECTOR_SIZE
      else sectors d k) = sectors d" by (rule ext) auto
  then show ?case by (subst hd_write_loop.simps) simp
next
  case (Suc n)
  let ?b = "load_bytes h la SECTOR_SIZE"
  let ?d = "d\<lparr>sectors := (sectors d)(xfer_lba d := ?b), xfer_lba := xfer_lba d + 1, xfer_left := xfer_left d - 1\<rparr>"
  have "hd_write_loop (int (SECTOR_SIZE * Suc n)) la h d = hd_write_loop (int (SECTOR_SIZE * n)) (la + SECTOR_SIZE) h ?d"
    using Suc.prems by (subst hd_write_loop.simps) (simp add: write_one_def)
  also have "\<dots> = Inr (?d\<lparr>xfer_lba := xfer_lba ?d + n, xfer_left := xfer_left ?d - n,
      sectors := (\<lambda>k. if xfer_lba ?d \<le> k \<and> k < xfer_lba ?d + n
         then load_bytes h (la + SECTOR_SIZE + of_nat (SECTOR_SIZE * (k - xfer_lba ?d))) SECTOR_SIZE else sectors ?d k)\<rparr>)"
    using Suc.prems by (intro Suc.IH) simp_all
  also have "(\<lambda>k. if xfer_lba ?d \<le> k \<and> k < xfer_lba ?d + n
         then load_bytes h (la + SECTOR_SIZE + of_nat (SECTOR_SIZE * (k - xfer_lba ?d))) SECTOR_SIZE else sectors ?d k)
      = (\<lambda>k. if xfer_lba d \<le> k \<and> k < xfer_lba d + Suc n
         then load_bytes h (la + of_nat (SECTOR_SIZE * (k - xfer_lba d))) SECTOR_SIZE else sectors d k)"
  proof (rule ext)
    fix k
    show "(if xfer_lba ?d \<le> k \<and> k < xfer_lba ?d + n
         then load_bytes h (la + SECTOR_SIZE + of_nat (SECTOR_SIZE * (k - xfer_lba ?d))) SECTOR_SIZE else sectors ?d k)
      = (if xfer_lba d \<le> k \<and> k < xfer_lba d + Suc n
         then load_bytes h (la + of_nat (SECTOR_SIZE * (k - xfer_lba d))) SECTOR_SIZE else sectors d k)"
    proof (cases "xfer_lba d < k")
      case True
      then have "k - xfer_lba d = Suc (k - Suc (xfer_lba d))" by simp
      with True show ?thesis by (simp add: algebra_simps)
    qed auto
  qed
  finally show ?case by simp
qed

text \<open>A request for \<open>c\<close> bytes from sector \<open>k\<close> of a partition on, to or from the linear address \<open>la\<close>; the
  file system asks for \<open>n\<close> whole sectors.\<close>

definition byte_request :: "message \<Rightarrow> hd \<Rightarrow> nat \<Rightarrow> nat \<Rightarrow> u32 \<Rightarrow> u32 \<Rightarrow> bool" where
  "byte_request m s k c base la \<longleftrightarrow>
     POSITION m = of_nat (SECTOR_SIZE * k) \<and> CNT m = of_nat c \<and> 0 < c \<and> c \<le> 256 * SECTOR_SIZE \<and>
     unat base + k + (c + 511) div SECTOR_SIZE \<le> 2 ^ 28 \<and> (\<exists>part. part_of 117 (sint (DEVICE m)) (hdi s) = Inr part \<and> part_base part = base) \<and>
     0 \<le> sint (PROC_NR m) \<and> sint (PROC_NR m) < nr_slots \<and>
     va2la (hks s) (nat (sint (PROC_NR m))) (BUF m) = Inr la"

definition sector_request :: "message \<Rightarrow> hd \<Rightarrow> nat \<Rightarrow> nat \<Rightarrow> u32 \<Rightarrow> u32 \<Rightarrow> bool" where
  "sector_request m s k n base la \<longleftrightarrow> byte_request m s k (SECTOR_SIZE * n) base la"

definition disk_ok :: "ata \<Rightarrow> bool" where
  "disk_ok d \<longleftrightarrow> responds d \<and> (\<forall>k. length (sectors d k) = SECTOR_SIZE)"

lemma part_of_drive: "part_of ln device hi = Inr part \<Longrightarrow> DRV_OF_DEV device = 0"
  by (simp add: part_of_def split: if_splits)

lemma position_sector:
  assumes "k < 2 ^ 28"
  shows "drop_bit 9 (of_nat (SECTOR_SIZE * k) :: u64) = of_nat k" "(of_nat (SECTOR_SIZE * k) :: u64) AND 0x1FF = 0"
proof -
  have eq: "(of_nat (SECTOR_SIZE * k) :: u64) = push_bit 9 (of_nat k)"
    by (simp add: push_bit_eq_mult mult.commute)
  have small: "unat (of_nat k :: u64) < 2 ^ 28"
    using assms by (simp add: unat_of_nat)
  have "unat (drop_bit 9 (of_nat (SECTOR_SIZE * k) :: u64)) = k"
    using assms by (simp add: unat_shift unat_of_nat del: of_nat_mult)
  moreover have "unat (of_nat k :: u64) = k" using assms by (simp add: unat_of_nat)
  ultimately show "drop_bit 9 (of_nat (SECTOR_SIZE * k) :: u64) = of_nat k"
    by (metis word_unat_eq_iff)
  have "(of_nat (SECTOR_SIZE * k) :: u64) AND 0x1FF = take_bit 9 (push_bit 9 (of_nat k))"
    by (simp only: eq take_bit_eq_mask) (simp add: mask_eq_exp_minus_1)
  then show "(of_nat (SECTOR_SIZE * k) :: u64) AND 0x1FF = 0"
    by (simp add: take_bit_push_bit)
qed

lemma count_register:
  assumes "0 < c" "c \<le> 256 * SECTOR_SIZE"
  defines "n \<equiv> (c + 511) div SECTOR_SIZE"
  shows "(int c + SECTOR_SIZE - 1) sdiv SECTOR_SIZE = int n"
    and "(if (word_of_int (int n) :: u8) = 0 then 256 else unat (word_of_int (int n) :: u8)) = n"
proof -
  have "(int c + SECTOR_SIZE - 1) div SECTOR_SIZE = int n" by (simp add: n_def zdiv_int)
  then show "(int c + SECTOR_SIZE - 1) sdiv SECTOR_SIZE = int n"
    using assms(1) by (simp add: signed_divide_int_def sgn_if)
  have n: "0 < n" "n \<le> 256" using assms(1, 2) by (auto simp: n_def div_greater_zero_iff)
  show "(if (word_of_int (int n) :: u8) = 0 then 256 else unat (word_of_int (int n) :: u8)) = n"
  proof (cases "n = 256")
    case False
    then have "unat (of_nat n :: u8) = n" using n by (simp add: unat_of_nat)
    then show ?thesis using n by (auto simp: unat_eq_0 [symmetric])
  qed simp
qed

lemma request_sector_nr:
  assumes "unat base + k < 2 ^ 28"
  shows "unat (ucast (of_nat k :: u64) + base :: u32) = unat base + k"
proof -
  have "k < 2 ^ 64" using assms by simp
  then have "(ucast (of_nat k :: u64) :: u32) = of_nat k"
    by (simp add: unsigned_of_nat take_bit_nat_eq_self)
  then have "ucast (of_nat k :: u64) + base = (of_nat (unat base + k) :: u32)"
    by (simp add: add.commute)
  also have "unat (of_nat (unat base + k) :: u32) = unat base + k"
    using assms by (intro unat_of_nat_u32) simp
  finally show ?thesis .
qed

lemma request_asserts:
  assumes "k < 2 ^ 28"
  shows "unat (drop_bit 9 (of_nat (SECTOR_SIZE * k) :: u64)) < 2 ^ 64 - 2 ^ 31"
proof -
  have "unat (of_nat k :: u64) \<le> k" by (simp add: unat_of_nat)
  then show ?thesis
    using assms position_sector(1) [OF assms] by (simp del: of_nat_mult)
qed

lemma hd_rdwt_command:
  assumes req: "byte_request m s k c base la" and ok: "responds (disk s)"
  defines "d \<equiv> (disk s)\<lparr>xfer_lba := unat base + k, xfer_left := (c + 511) div SECTOR_SIZE\<rparr>"
  shows "hd_rdwt m s = (if msg_type m = DEV_READ
    then bindE (hd_read_loop (int c) la d (kmem (hks s))) (\<lambda>(d, h). Inr (s\<lparr>disk := d, hks := (hks s)\<lparr>kmem := h\<rparr>\<rparr>))
    else bindE (hd_write_loop (int c) la (kmem (hks s)) d) (\<lambda>d. Inr (s\<lparr>disk := d\<rparr>)))"
proof -
  from req obtain part where part: "part_of 117 (sint (DEVICE m)) (hdi s) = Inr part" "part_base part = base"
    by (auto simp: byte_request_def)
  from req have r: "POSITION m = of_nat (SECTOR_SIZE * k)" "CNT m = of_nat c" "0 < c" "c \<le> 256 * SECTOR_SIZE"
    "0 \<le> sint (PROC_NR m)" "sint (PROC_NR m) < nr_slots"
    "va2la (hks s) (nat (sint (PROC_NR m))) (BUF m) = Inr la"
    by (simp_all add: byte_request_def)
  have fits: "unat base + k < 2 ^ 28"
    using req r(3) div_greater_zero_iff [of "c + 511" SECTOR_SIZE] by (simp add: byte_request_def)
  have k: "k < 2 ^ 28" using fits by simp
  define sect where "sect = ucast (of_nat k :: u64) + base"
  define n where "n = (c + 511) div SECTOR_SIZE"
  have lba: "cmd_lba (sector_cmd 0 i sect x) = unat base + k" for i x
    using fits request_sector_nr [OF fits] by (simp add: cmd_lba_sector_cmd sect_def)
  have out: "hd_cmd_out (sector_cmd 0 (word_of_int (int n)) sect x) (disk s) = Inr d" if "x \<noteq> ATA_IDENTIFY" for x
    using that ok lba count_register(2) [OF r(3, 4), folded n_def]
    by (simp add: hd_cmd_out_def d_def n_def [symmetric]) (auto simp: sector_cmd_def split: if_splits)
  have "c < 2 ^ 31" using r(4) by simp
  then have cnt: "sint (CNT m) = int c"
    unfolding r(2) by (rule sint_of_nat_small)
  have asserts: "checks [(109, unat (drop_bit 9 (POSITION m)) < 2 ^ 64 - 2 ^ 31), (111, POSITION m AND 0x1FF = 0)] X = X" for X :: "hd result"
    unfolding r(1) using request_asserts [OF k] position_sector(2) [OF k] by (simp only: checks.simps check_def if_True simp_thms)
  have pos: "drop_bit 9 (POSITION m) = of_nat k"
    unfolding r(1) by (rule position_sector(1) [OF k])
  have pid: "(\<not> (0 \<le> sint (PROC_NR m) \<and> sint (PROC_NR m) < nr_slots)) = False"
    using r(5, 6) by simp
  have cmds: "hd_cmd_out (sector_cmd (word_of_int (DRV_OF_DEV (sint (DEVICE m)))) (word_of_int (int n)) sect
      (if b then ATA_READ else ATA_WRITE)) (disk s) = Inr d" for b
    using out [of ATA_READ] out [of ATA_WRITE] part_of_drive [OF part(1)] by simp
  show ?thesis
    unfolding hd_rdwt_def Let_def asserts part(1) bindE_Inr pos part(2) sect_def [symmetric] cnt
      count_register(1) [OF r(3, 4), folded n_def] cmds pid if_False r(7) asserts [unfolded pos] ..
qed

lemma hd_rdwt_read:
  assumes "sector_request m s k n base la" "disk_ok (disk s)" "msg_type m = DEV_READ"
  shows "hd_rdwt m s = Inr (s\<lparr>disk := (disk s)\<lparr>xfer_lba := unat base + k + n, xfer_left := 0\<rparr>,
    hks := (hks s)\<lparr>kmem := store_bytes (kmem (hks s)) la
      (concat (map (sectors (disk s)) [unat base + k..<unat base + k + n]))\<rparr>\<rparr>)"
proof -
  let ?d = "(disk s)\<lparr>xfer_lba := unat base + k, xfer_left := n\<rparr>"
  have "n \<le> xfer_left ?d" "\<And>k. length (sectors ?d k) = SECTOR_SIZE"
    using assms(2) by (simp_all add: disk_ok_def)
  from hd_read_loop_sectors [OF this, where r = 0] have
    "hd_read_loop (int (SECTOR_SIZE * n)) la ?d (kmem (hks s)) = hd_read_loop 0 (la + of_nat (SECTOR_SIZE * n))
      ((disk s)\<lparr>xfer_lba := unat base + k + n, xfer_left := 0\<rparr>)
      (store_bytes (kmem (hks s)) la (concat (map (sectors (disk s)) [unat base + k..<unat base + k + n])))"
    by simp
  moreover have "hd_read_loop 0 a e h = Inr (e, h)" for a e h
    by (subst hd_read_loop.simps) simp
  ultimately show ?thesis
    using hd_rdwt_command [OF assms(1) [unfolded sector_request_def]] assms(2, 3) by (simp add: disk_ok_def)
qed

lemma hd_rdwt_write:
  assumes "sector_request m s k n base la" "disk_ok (disk s)" "msg_type m = DEV_WRITE"
  shows "hd_rdwt m s = Inr (s\<lparr>disk := (disk s)\<lparr>xfer_lba := unat base + k + n, xfer_left := 0,
    sectors := (\<lambda>i. if unat base + k \<le> i \<and> i < unat base + k + n
      then load_bytes (kmem (hks s)) (la + of_nat (SECTOR_SIZE * (i - (unat base + k)))) SECTOR_SIZE
      else sectors (disk s) i)\<rparr>\<rparr>)"
  using hd_rdwt_command [OF assms(1) [unfolded sector_request_def]] assms(2, 3)
    hd_write_loop_sectors [of n "(disk s)\<lparr>xfer_lba := unat base + k, xfer_left := n\<rparr>" la "kmem (hks s)"]
  by (simp add: disk_ok_def cong: if_cong)

lemma load_bytes_sectors:
  "concat (map (\<lambda>i. load_bytes h (la + of_nat (SECTOR_SIZE * (i - b))) SECTOR_SIZE) [b..<b + n]) = load_bytes h la (SECTOR_SIZE * n)"
proof (induction n)
  case (Suc n)
  have "load_bytes h la (SECTOR_SIZE * Suc n) = load_bytes h la (SECTOR_SIZE * n) @ load_bytes h (la + of_nat (SECTOR_SIZE * n)) SECTOR_SIZE"
    using load_bytes_append [of h la "SECTOR_SIZE * n" SECTOR_SIZE] by (simp add: add.commute)
  with Suc show ?case by simp
qed (simp add: load_bytes_def)

lemma disk_ok_write:
  "disk_ok d \<Longrightarrow> (\<And>i. length (f i) = SECTOR_SIZE) \<Longrightarrow> disk_ok (d\<lparr>xfer_lba := a, xfer_left := b, sectors := f\<rparr>)"
  by (simp add: disk_ok_def)

text \<open>
  C19. What is written to the disk is read back: a write of up to 256 whole sectors followed by a
  read of the same sectors into any buffer of any process delivers the bytes the writer's
  buffer held, the write changes no other sector of the disk, and both requests end without
  a fault.
\<close>

theorem hd_write_read_roundtrip:
  assumes "sector_request m s k n base la" "disk_ok (disk s)" "msg_type m = DEV_WRITE"
    and "sector_request m' s k n base la'" "msg_type m' = DEV_READ"
  shows "\<exists>s1 s2. hd_rdwt m s = Inr s1 \<and> hd_rdwt m' s1 = Inr s2 \<and> disk_ok (disk s2) \<and>
    load_bytes (kmem (hks s2)) la' (SECTOR_SIZE * n) = load_bytes (kmem (hks s)) la (SECTOR_SIZE * n) \<and>
    (\<forall>i. i < unat base + k \<or> unat base + k + n \<le> i \<longrightarrow> sectors (disk s2) i = sectors (disk s) i)"
proof -
  define f where "f = (\<lambda>i. if unat base + k \<le> i \<and> i < unat base + k + n
      then load_bytes (kmem (hks s)) (la + of_nat (SECTOR_SIZE * (i - (unat base + k)))) SECTOR_SIZE else sectors (disk s) i)"
  define s1 where "s1 = s\<lparr>disk := (disk s)\<lparr>xfer_lba := unat base + k + n, xfer_left := 0, sectors := f\<rparr>\<rparr>"
  have w: "hd_rdwt m s = Inr s1"
    using hd_rdwt_write [OF assms(1-3)] by (simp add: s1_def f_def)
  have ok: "disk_ok (disk s1)"
    using assms(2) by (simp add: s1_def f_def disk_ok_def)
  have "sector_request m' s1 k n base la'"
    using assms(4) by (simp add: sector_request_def byte_request_def s1_def)
  note r = hd_rdwt_read [OF this ok assms(5)]
  have "concat (map (sectors (disk s1)) [unat base + k..<unat base + k + n])
      = concat (map (\<lambda>i. load_bytes (kmem (hks s)) (la + of_nat (SECTOR_SIZE * (i - (unat base + k)))) SECTOR_SIZE) [unat base + k..<unat base + k + n])"
    by (intro arg_cong [where f = concat] map_cong) (auto simp: s1_def f_def)
  then have bytes: "concat (map (sectors (disk s1)) [unat base + k..<unat base + k + n]) = load_bytes (kmem (hks s)) la (SECTOR_SIZE * n)"
    by (simp only: load_bytes_sectors)
  have "n \<le> 256" using assms(1) by (simp add: sector_request_def byte_request_def)
  then have "load_bytes (store_bytes h la' (load_bytes (kmem (hks s)) la (SECTOR_SIZE * n))) la' (SECTOR_SIZE * n)
      = load_bytes (kmem (hks s)) la (SECTOR_SIZE * n)" for h
    using load_store_bytes [of "load_bytes (kmem (hks s)) la (SECTOR_SIZE * n)" h la'] by simp
  with w r ok bytes show ?thesis
    by (auto simp: disk_ok_def s1_def f_def)
qed

text \<open>
  The driver only copes with whole sectors: a read whose count is not a multiple of the sector
  size delivers every requested byte and then waits for ever for one more interrupt, because
  the loop counts down by whole sectors and stops only at zero.
\<close>

theorem hd_partial_read_hangs:
  assumes "byte_request m s k (SECTOR_SIZE * n + r) base la" "0 < r" "r < SECTOR_SIZE"
    and "disk_ok (disk s)" "msg_type m = DEV_READ"
  shows "hd_rdwt m s = Inl (Hang 136)"
proof -
  let ?d = "(disk s)\<lparr>xfer_lba := unat base + k, xfer_left := Suc n\<rparr>"
  have "(SECTOR_SIZE * n + r + 511) div SECTOR_SIZE = Suc n"
    using assms(2, 3) by (intro div_nat_eqI) simp_all
  with hd_rdwt_command [OF assms(1)] assms(4, 5) have
    "hd_rdwt m s = bindE (hd_read_loop (int (SECTOR_SIZE * n) + int r) la ?d (kmem (hks s)))
      (\<lambda>(d, h). Inr (s\<lparr>disk := d, hks := (hks s)\<lparr>kmem := h\<rparr>\<rparr>))"
    by (simp add: disk_ok_def)
  moreover have "hd_read_loop (int r) a e h = Inl (Hang 136)" if "xfer_left e = 1" for a e h
  proof -
    have "hd_read_loop (int r) a e h = hd_read_loop (int r - SECTOR_SIZE) (a + SECTOR_SIZE)
        (e\<lparr>xfer_lba := xfer_lba e + 1, xfer_left := 0\<rparr>) (store_bytes h a (take r (sectors e (xfer_lba e))))"
      using that assms(2, 3) by (subst hd_read_loop.simps) (simp add: read_one_def Let_def min_def)
    also have "\<dots> = Inl (Hang 136)"
      using assms(3) by (subst hd_read_loop.simps) (simp add: read_one_def)
    finally show ?thesis .
  qed
  ultimately show ?thesis
    using hd_read_loop_sectors [of n ?d r la "kmem (hks s)"] assms(4) by (simp add: disk_ok_def)
qed

section \<open>Partition tables\<close>

text \<open>The partitions a chain of extended boot records describes, at most \<open>n\<close> of them.\<close>

fun chain_parts :: "(nat \<Rightarrow> u8 list) \<Rightarrow> u32 \<Rightarrow> u32 \<Rightarrow> nat \<Rightarrow> part_info list" where
  "chain_parts sec ext s 0 = []"
| "chain_parts sec ext s (Suc n) =
     (let tbl = part_entry (sec (unat s mod 2 ^ 28))
      in \<lparr>part_base = s + start_sect (tbl 0), part_size = nr_sects (tbl 0)\<rparr> #
         (if sys_id (tbl 1) = NO_PART then [] else chain_parts sec ext (ext + start_sect (tbl 1)) n))"

lemma length_chain_parts: "length (chain_parts sec ext s n) \<le> n"
  by (induction sec ext s n rule: chain_parts.induct) (simp_all add: Let_def)

lemma get_part_table_ok:
  assumes "responds d"
  obtains d' where "get_part_table 0 s d = Inr (part_entry (sectors d (unat s mod 2 ^ 28)), d')"
    "sectors d' = sectors d" "responds d'"
  using assms cmd_lba_sector_cmd [of 1 s ATA_READ] that
  by (simp add: get_part_table_def hd_cmd_out_def read_one_def) (simp add: sector_cmd_def)

text \<open>The table with \<open>ps\<close> entered from slot \<open>dev_nr\<close> on.\<close>

definition enter_logical :: "nat \<Rightarrow> part_info list \<Rightarrow> hd_info \<Rightarrow> hd_info" where
  "enter_logical dev_nr ps hi = hi\<lparr>logical :=
     (\<lambda>k. if dev_nr \<le> k \<and> k < dev_nr + length ps then ps ! (k - dev_nr) else logical hi k)\<rparr>"

lemma enter_logical_Nil [simp]: "enter_logical dev_nr [] hi = hi"
proof -
  have "(\<lambda>k. if dev_nr \<le> k \<and> k < dev_nr then [] ! (k - dev_nr) else logical hi k) = logical hi"
    by (rule ext) auto
  then show ?thesis by (simp add: enter_logical_def)
qed

lemma enter_logical_Cons:
  "enter_logical (Suc dev_nr) ps (hi\<lparr>logical := (logical hi)(dev_nr := p)\<rparr>) = enter_logical dev_nr (p # ps) hi"
proof -
  have "(\<lambda>k. if Suc dev_nr \<le> k \<and> k < Suc dev_nr + length ps then ps ! (k - Suc dev_nr) else ((logical hi)(dev_nr := p)) k)
      = (\<lambda>k. if dev_nr \<le> k \<and> k < dev_nr + length (p # ps) then (p # ps) ! (k - dev_nr) else logical hi k)"
    by (rule ext) (auto simp: nth_Cons split: nat.splits intro: arg_cong [where f = "(!) ps"])
  then show ?thesis by (simp add: enter_logical_def cong: if_cong)
qed

lemma partition_logical_chain:
  assumes "responds d"
  shows "\<exists>d'. partition_logical ext s dev_nr n hi d = Inr (enter_logical dev_nr (chain_parts (sectors d) ext s n) hi, d') \<and>
    sectors d' = sectors d \<and> responds d'"
  using assms
proof (induction n arbitrary: s dev_nr hi d)
  case (Suc n)
  let ?tbl = "part_entry (sectors d (unat s mod 2 ^ 28))"
  let ?p = "\<lparr>part_base = s + start_sect (?tbl 0), part_size = nr_sects (?tbl 0)\<rparr>"
  obtain d1 where d1: "get_part_table 0 s d = Inr (?tbl, d1)" "sectors d1 = sectors d" "responds d1"
    by (rule get_part_table_ok [OF Suc.prems])
  show ?case
  proof (cases "sys_id (?tbl 1) = NO_PART")
    case True
    with d1 enter_logical_Cons [of dev_nr "[]" hi ?p] show ?thesis by (simp add: Let_def)
  next
    case False
    with d1 Suc.IH [OF d1(3), of "ext + start_sect (?tbl 1)" "dev_nr + 1" "hi\<lparr>logical := (logical hi)(dev_nr := ?p)\<rparr>"]
      enter_logical_Cons [of dev_nr _ hi ?p]
    show ?thesis by (auto simp: Let_def)
  qed
qed simp

text \<open>What the boot record at sector 0 says.\<close>

definition boot_entry :: "(nat \<Rightarrow> u8 list) \<Rightarrow> nat \<Rightarrow> part_ent" where
  "boot_entry sec i = part_entry (sec 0) i"

definition boot_chain :: "(nat \<Rightarrow> u8 list) \<Rightarrow> nat \<Rightarrow> part_info list" where
  "boot_chain sec i = (if sys_id (boot_entry sec i) = EXT_PART
     then chain_parts sec (start_sect (boot_entry sec i)) (start_sect (boot_entry sec i)) NR_SUB_PER_PART else [])"

definition enter_primary :: "(nat \<Rightarrow> u8 list) \<Rightarrow> nat \<Rightarrow> hd_info \<Rightarrow> hd_info" where
  "enter_primary sec i hi = (if sys_id (boot_entry sec i) = NO_PART then hi
     else enter_logical (i * NR_SUB_PER_PART) (boot_chain sec i) (hi\<lparr>primary := (primary hi)(i + 1 :=
       \<lparr>part_base = start_sect (boot_entry sec i), part_size = nr_sects (boot_entry sec i)\<rparr>)\<rparr>))"

lemma partition_primary_fold:
  assumes "responds d" "\<forall>i \<in> set is. i < NR_PART_PER_DRIVE"
  shows "\<exists>d'. partition_primary (boot_entry (sectors d)) is hi d n =
      Inr (n + length (filter (\<lambda>i. sys_id (boot_entry (sectors d) i) \<noteq> NO_PART) is), fold (enter_primary (sectors d)) is hi, d') \<and>
    sectors d' = sectors d \<and> responds d'"
  using assms
proof (induction "is" arbitrary: hi d n)
  case (Cons i "is")
  let ?e = "boot_entry (sectors d) i"
  let ?hi = "hi\<lparr>primary := (primary hi)(i + 1 := \<lparr>part_base = start_sect ?e, part_size = nr_sects ?e\<rparr>)\<rparr>"
  show ?case
  proof (cases "sys_id ?e = NO_PART")
    case True
    with Cons show ?thesis by (simp add: enter_primary_def)
  next
    case False
    obtain d1 where d1: "(if sys_id ?e = EXT_PART then partition_extended (i + 1) ?hi d else Inr (?hi, d)) = Inr (enter_primary (sectors d) i hi, d1)"
      "sectors d1 = sectors d" "responds d1"
    proof (cases "sys_id ?e = EXT_PART")
      case True
      have "Suc i mod 5 = Suc i" using Cons.prems(2) by simp
      with True False that partition_logical_chain [OF Cons.prems(1), of "start_sect ?e" "start_sect ?e" "i * 16" 16 ?hi] show thesis
        by (auto simp: partition_extended_def Let_def enter_primary_def boot_chain_def)
    next
      case no: False
      with False that [of d] Cons.prems(1) show thesis by (simp add: enter_primary_def boot_chain_def)
    qed
    have "partition_primary (boot_entry (sectors d)) (i # is) hi d n
        = partition_primary (boot_entry (sectors d)) is (enter_primary (sectors d) i hi) d1 (n + 1)"
      using False by (simp only: partition_primary.simps Let_def d1(1) bindE_Inr prod.case if_False)
    with Cons.IH [OF d1(3), of "enter_primary (sectors d) i hi" "n + 1"] d1(2) False Cons.prems(2) show ?thesis
      by simp
  qed
qed simp

lemma upt_0_4: "[0..<4] = [0, 1, 2, 3 :: nat]"
  by (simp add: upt_rec)

lemma enter_primary_sel:
  "primary (enter_primary sec i hi) k = (if k = i + 1 \<and> sys_id (boot_entry sec i) \<noteq> NO_PART
     then \<lparr>part_base = start_sect (boot_entry sec i), part_size = nr_sects (boot_entry sec i)\<rparr> else primary hi k)"
  "logical (enter_primary sec i hi) k = (if i * NR_SUB_PER_PART \<le> k \<and> k < i * NR_SUB_PER_PART + length (boot_chain sec i)
     then boot_chain sec i ! (k - i * NR_SUB_PER_PART) else logical hi k)"
  by (auto simp: enter_primary_def enter_logical_def boot_chain_def)

lemma length_boot_chain: "length (boot_chain sec i) \<le> NR_SUB_PER_PART"
  by (simp add: boot_chain_def length_chain_parts)

text \<open>
  C20. Reading the partition tables ends, whatever they contain (a cyclic chain of extended boot
  records is cut after sixteen), and enters exactly what they say: each used entry of the boot
  record as its primary partition, and for each extended one the logical partitions of its
  chain, those of one extended partition never overwriting those of another. A disk without
  a used entry fails the assertion.
\<close>

theorem partition_reads_tables:
  assumes "responds d"
  shows "if \<forall>i < NR_PART_PER_DRIVE. sys_id (boot_entry (sectors d) i) = NO_PART then partition_drive hi d = Inl (Assert 212)
    else \<exists>hi' d'. partition_drive hi d = Inr (hi', d') \<and> sectors d' = sectors d \<and> responds d' \<and>
      (\<forall>i < NR_PART_PER_DRIVE. primary hi' (i + 1) = (if sys_id (boot_entry (sectors d) i) = NO_PART then primary hi (i + 1)
         else \<lparr>part_base = start_sect (boot_entry (sectors d) i), part_size = nr_sects (boot_entry (sectors d) i)\<rparr>) \<and>
       (\<forall>j < NR_SUB_PER_PART. logical hi' (i * NR_SUB_PER_PART + j) = (if j < length (boot_chain (sectors d) i)
         then boot_chain (sectors d) i ! j else logical hi (i * NR_SUB_PER_PART + j))))"
proof -
  let ?used = "\<lambda>i. sys_id (boot_entry (sectors d) i) \<noteq> NO_PART"
  let ?hi = "fold (enter_primary (sectors d)) [0..<NR_PART_PER_DRIVE] hi"
  obtain d0 where d0: "get_part_table 0 0 d = Inr (part_entry (sectors d (unat (0 :: u32) mod 2 ^ 28)), d0)"
    "sectors d0 = sectors d" "responds d0"
    by (rule get_part_table_ok [OF assms])
  have tbl: "part_entry (sectors d (unat (0 :: u32) mod 2 ^ 28)) = boot_entry (sectors d0)"
    by (rule ext) (simp add: boot_entry_def d0(2))
  obtain d1 where d1: "partition_primary (boot_entry (sectors d0)) [0..<NR_PART_PER_DRIVE] hi d0 0
      = Inr (length (filter ?used [0..<NR_PART_PER_DRIVE]), ?hi, d1)" "sectors d1 = sectors d" "responds d1"
    using partition_primary_fold [OF d0(3), of "[0..<NR_PART_PER_DRIVE]" hi 0] d0(2) by auto
  have run: "partition_drive hi d = check 212 (length (filter ?used [0..<NR_PART_PER_DRIVE]) \<noteq> 0) (Inr (?hi, d1))"
    using d0(1) d1(1) tbl by (simp add: partition_drive_def)
  have none: "length (filter ?used [0..<NR_PART_PER_DRIVE]) = 0 \<longleftrightarrow> (\<forall>i < NR_PART_PER_DRIVE. \<not> ?used i)"
    by (auto simp: filter_empty_conv)
  have prim: "primary ?hi (i + 1) = (if ?used i then \<lparr>part_base = start_sect (boot_entry (sectors d) i),
      part_size = nr_sects (boot_entry (sectors d) i)\<rparr> else primary hi (i + 1))" if "i < NR_PART_PER_DRIVE" for i
  proof -
    have "i = 0 \<or> i = 1 \<or> i = 2 \<or> i = 3" using that by auto
    then show ?thesis unfolding upt_0_4 by (elim disjE) (simp_all add: enter_primary_sel)
  qed
  have log: "logical ?hi (i * NR_SUB_PER_PART + j) = (if j < length (boot_chain (sectors d) i)
      then boot_chain (sectors d) i ! j else logical hi (i * NR_SUB_PER_PART + j))"
    if "i < NR_PART_PER_DRIVE" "j < NR_SUB_PER_PART" for i j
  proof -
    have "i = 0 \<or> i = 1 \<or> i = 2 \<or> i = 3" using that by auto
    moreover have "length (boot_chain (sectors d) n) \<le> 16" for n by (rule length_boot_chain)
    note this [of 0] this [of 1] this [of 2] this [of 3]
    ultimately show ?thesis
      using that(2) unfolding upt_0_4 by (elim disjE) (simp_all add: enter_primary_sel)
  qed
  show ?thesis
  proof (cases "\<forall>i < NR_PART_PER_DRIVE. \<not> ?used i")
    case True
    with none have "(length (filter ?used [0..<NR_PART_PER_DRIVE]) \<noteq> 0) = False" by blast
    with run have "partition_drive hi d = Inl (Assert 212)" by (simp only: check_False)
    with True show ?thesis by simp
  next
    case False
    with none have "length (filter ?used [0..<NR_PART_PER_DRIVE]) \<noteq> 0" by blast
    with run have "partition_drive hi d = Inr (?hi, d1)" by (simp only: check_True not_False_eq_True)
    moreover have "(\<forall>i < NR_PART_PER_DRIVE. sys_id (boot_entry (sectors d) i) = NO_PART) = False"
      using False by simp
    moreover have "\<forall>i < NR_PART_PER_DRIVE. primary ?hi (i + 1) = (if sys_id (boot_entry (sectors d) i) = NO_PART then primary hi (i + 1)
         else \<lparr>part_base = start_sect (boot_entry (sectors d) i), part_size = nr_sects (boot_entry (sectors d) i)\<rparr>) \<and>
       (\<forall>j < NR_SUB_PER_PART. logical ?hi (i * NR_SUB_PER_PART + j) = (if j < length (boot_chain (sectors d) i)
         then boot_chain (sectors d) i ! j else logical hi (i * NR_SUB_PER_PART + j)))"
      using prim log by auto
    ultimately show ?thesis
      using d1(2, 3) by (simp only: if_False) blast
  qed
qed

section \<open>Instances\<close>

text \<open>A disk whose boot record has one extended partition at sector 63 with one logical partition.\<close>

definition demo_boot :: "u8 list" where
  "demo_boot = replicate 450 0 @ [5, 0, 0, 0, 63, 0, 0, 0, 0, 16, 0, 0] @ replicate 50 0"

definition demo_ebr :: "u8 list" where
  "demo_ebr = replicate 450 0 @ [0x99, 0, 0, 0, 1, 0, 0, 0, 0, 8, 0, 0] @ replicate 50 0"

definition demo_ata :: ata where
  "demo_ata = \<lparr>sectors = (\<lambda>k. if k = 0 then demo_boot else if k = 63 then demo_ebr else replicate 512 0),
     identity = replicate 512 0, responds = True, xfer_lba = 0, xfer_left = 0\<rparr>"

definition demo_hd :: "memory \<Rightarrow> hd" where
  "demo_hd h = \<lparr>hdi = \<lparr>open_cnt = 1, primary = (\<lambda>_. \<lparr>part_base = 0, part_size = 0\<rparr>),
       logical = (\<lambda>k. if k = 16 then \<lparr>part_base = 64, part_size = 2048\<rparr> else \<lparr>part_base = 0, part_size = 0\<rparr>)\<rparr>,
     disk = demo_ata, hks = flat_kstate h\<rparr>"

definition demo_rdwt :: "u32 \<Rightarrow> u32 \<Rightarrow> u32 \<Rightarrow> message" where
  "demo_rdwt ty cnt buf = reset_msg\<lparr>source := 3, msg_type := ty, m3i4 := 0x20, m3l1 := 1024, m3i2 := cnt, m3i3 := 3, m3p2 := buf\<rparr>"

lemma demo_disk_ok: "disk_ok (disk (demo_hd h))"
  by (simp add: disk_ok_def demo_hd_def demo_ata_def demo_boot_def demo_ebr_def)

lemma demo_byte_request:
  assumes "cnt = of_nat c" "0 < c" "c \<le> 1024"
  shows "byte_request (demo_rdwt ty cnt buf) (demo_hd h) 2 c 64 buf"
proof -
  have "(c + 511) div 512 \<le> 2" using assms(3) by simp
  then have "66 + (c + 511) div 512 \<le> 2 ^ 28" by simp
  with assms show ?thesis
    by (simp add: byte_request_def demo_rdwt_def demo_hd_def reset_msg_def part_of_def DRV_OF_DEV_def
        signed_divide_int_def signed_modulo_int_def flat_va2la)
qed

theorem hd_write_read_roundtrip_witness:
  "\<exists>s1 s2. hd_rdwt (demo_rdwt DEV_WRITE 1024 0x600000) (demo_hd (\<lambda>a. ucast a)) = Inr s1 \<and>
    hd_rdwt (demo_rdwt DEV_READ 1024 0x700000) s1 = Inr s2 \<and>
    load_bytes (kmem (hks s2)) 0x700000 1024 = load_bytes (\<lambda>a. ucast a) 0x600000 1024"
proof -
  let ?h = "\<lambda>a. ucast a :: u8"
  have "sector_request (demo_rdwt ty 1024 buf) (demo_hd ?h) 2 2 64 buf" for ty buf
    using demo_byte_request [of 1024 1024] by (simp add: sector_request_def)
  from hd_write_read_roundtrip [OF this demo_disk_ok _ this, of DEV_WRITE "0x600000" DEV_READ "0x700000"] show ?thesis
    by (auto simp: demo_rdwt_def demo_hd_def flat_kstate_def)
qed

theorem hd_partial_read_hangs_witness:
  "hd_rdwt (demo_rdwt DEV_READ 700 0x600000) (demo_hd (\<lambda>_. 0)) = Inl (Hang 136)"
  using hd_partial_read_hangs [OF _ _ _ demo_disk_ok, of "demo_rdwt DEV_READ 700 0x600000" "\<lambda>_. 0" 2 1 188 64 "0x600000"]
    demo_byte_request [of 700 700 DEV_READ "0x600000" "\<lambda>_. 0"]
  by (simp add: demo_rdwt_def)

lemma chain_parts_last:
  "sys_id (part_entry (sec (unat s mod 2 ^ 28)) 1) = NO_PART \<Longrightarrow> chain_parts sec ext s NR_SUB_PER_PART =
   [\<lparr>part_base = s + start_sect (part_entry (sec (unat s mod 2 ^ 28)) 0), part_size = nr_sects (part_entry (sec (unat s mod 2 ^ 28)) 0)\<rparr>]"
  using chain_parts.simps(2) [of sec ext s 15] by (simp add: Let_def)

theorem partition_reads_tables_witness:
  "\<exists>hi' d'. partition_drive (hdi (demo_hd (\<lambda>_. 0))) demo_ata = Inr (hi', d') \<and>
    primary hi' 1 = \<lparr>part_base = 63, part_size = 4096\<rparr> \<and> logical hi' 0 = \<lparr>part_base = 64, part_size = 2048\<rparr>"
proof -
  let ?sec = "sectors demo_ata" and ?hi = "hdi (demo_hd (\<lambda>_. 0))"
  have entry: "boot_entry ?sec 0 = \<lparr>sys_id = 5, start_sect = 63, nr_sects = 4096\<rparr>"
    by (simp add: boot_entry_def part_entry_def demo_ata_def demo_boot_def word_at_def nth_append)
  have sec: "?sec (unat (63 :: u32) mod 2 ^ 28) = demo_ebr" by (simp add: demo_ata_def)
  have ebr: "start_sect (part_entry demo_ebr 0) = 1" "nr_sects (part_entry demo_ebr 0) = 2048" "sys_id (part_entry demo_ebr 1) = 0"
    by (simp_all add: part_entry_def demo_ebr_def word_at_def nth_append)
  have chain: "boot_chain ?sec 0 = [\<lparr>part_base = 64, part_size = 2048\<rparr>]"
    using chain_parts_last [of ?sec 63 63, unfolded sec, OF ebr(3)] ebr(1, 2) by (simp add: boot_chain_def entry)
  have used: "(\<forall>i < NR_PART_PER_DRIVE. sys_id (boot_entry ?sec i) = NO_PART) = False"
    using entry by (auto intro!: exI [of _ 0])
  have "responds demo_ata" by (simp add: demo_ata_def)
  from partition_reads_tables [OF this, of ?hi, unfolded used if_False] obtain hi' d' where
    "partition_drive ?hi demo_ata = Inr (hi', d')"
    "primary hi' (0 + 1) = (if sys_id (boot_entry ?sec 0) = NO_PART then primary ?hi (0 + 1)
       else \<lparr>part_base = start_sect (boot_entry ?sec 0), part_size = nr_sects (boot_entry ?sec 0)\<rparr>)"
    "\<forall>j < NR_SUB_PER_PART. logical hi' (0 * NR_SUB_PER_PART + j) = (if j < length (boot_chain ?sec 0)
       then boot_chain ?sec 0 ! j else logical ?hi (0 * NR_SUB_PER_PART + j))"
    by (metis zero_less_numeral)
  then show ?thesis
    unfolding entry chain by (intro exI [of _ hi'] exI [of _ d']) (auto dest: spec [of _ 0])
qed

end
