(* ===== verification/Ipc_Spec.thy ===== *)
theory Ipc_Spec
  imports Ipc
begin

text \<open>
  An abstract specification of the message layer and the relation between it and the process
  table. The specification knows, per process, whether it is ready, sending to a process,
  receiving from a source or unused, the queue of senders waiting for it as a list, and
  whether an interrupt is pending. The invariant says that the queues hold exactly the
  processes that are sending and that nobody waits, through a chain of sends, for itself.
\<close>

section \<open>Abstract state and operations\<close>

datatype pstat = Ready | Sending nat | Receiving int | Unused

record ipc =
  stat :: "nat \<Rightarrow> pstat"
  sendq :: "nat \<Rightarrow> nat list"
  intp :: "nat \<Rightarrow> bool"

definition waits :: "ipc \<Rightarrow> (nat \<times> nat) set" where
  "waits a = {(i, j). i < nr_slots \<and> j < nr_slots \<and> stat a i = Sending j}"

definition ipc_ok :: "ipc \<Rightarrow> bool" where
  "ipc_ok a \<longleftrightarrow>
     (\<forall>j<nr_slots. distinct (sendq a j) \<and> set (sendq a j) = {i. i < nr_slots \<and> stat a i = Sending j})
     \<and> acyclic (waits a)"

definition accepts :: "ipc \<Rightarrow> nat \<Rightarrow> nat \<Rightarrow> bool" where
  "accepts a d c \<longleftrightarrow> stat a d = Receiving (int c) \<or> stat a d = Receiving ANY"

definition spec_send :: "nat \<Rightarrow> nat \<Rightarrow> ipc \<Rightarrow> ipc" where
  "spec_send c d a =
     (if accepts a d c then a\<lparr>stat := (stat a)(d := Ready)\<rparr>
      else a\<lparr>stat := (stat a)(c := Sending d), sendq := (sendq a)(d := sendq a d @ [c])\<rparr>)"

definition spec_release :: "nat \<Rightarrow> nat \<Rightarrow> ipc \<Rightarrow> ipc" where
  "spec_release c f a =
     a\<lparr>stat := (stat a)(f := Ready), sendq := (sendq a)(c := remove1 f (sendq a c))\<rparr>"

definition spec_receive :: "nat \<Rightarrow> int \<Rightarrow> ipc \<Rightarrow> ipc" where
  "spec_receive c src a =
     (if intp a c \<and> (src = ANY \<or> src = INTERRUPT) then a\<lparr>intp := (intp a)(c := False)\<rparr>
      else if src = ANY \<and> sendq a c \<noteq> [] then spec_release c (hd (sendq a c)) a
      else if 0 \<le> src \<and> nat src \<in> set (sendq a c) then spec_release c (nat src) a
      else a\<lparr>stat := (stat a)(c := Receiving src)\<rparr>)"

definition spec_interrupt :: "nat \<Rightarrow> ipc \<Rightarrow> ipc" where
  "spec_interrupt t a =
     (if stat a t = Receiving INTERRUPT \<or> stat a t = Receiving ANY
      then a\<lparr>stat := (stat a)(t := Ready), intp := (intp a)(t := False)\<rparr>
      else a\<lparr>intp := (intp a)(t := True)\<rparr>)"

section \<open>The invariant of the specification\<close>

lemma finite_waits: "finite (waits a)"
  by (rule finite_subset [of _ "{..<nr_slots} \<times> {..<nr_slots}"]) (auto simp: waits_def)

lemma waits_functional: "(i, j) \<in> waits a \<Longrightarrow> (i, k) \<in> waits a \<Longrightarrow> j = k"
  by (simp add: waits_def)

lemma waits_trancl_step:
  "(i, j) \<in> waits a \<Longrightarrow> (i, k) \<in> (waits a)\<^sup>+ \<longleftrightarrow> j = k \<or> (j, k) \<in> (waits a)\<^sup>+"
  by (metis converse_tranclE trancl.r_into_trancl trancl_into_trancl2 waits_functional)

lemma ready_no_wait: "stat a i = Ready \<Longrightarrow> (i, j) \<notin> (waits a)\<^sup>+"
  by (auto simp: waits_def elim: converse_tranclE)

lemma wf_waits: "ipc_ok a \<Longrightarrow> wf ((waits a)\<inverse>)"
  by (simp add: ipc_ok_def finite_acyclic_wf_converse finite_waits)

text \<open>The state after boot: nine processes ready, the other slots free.\<close>

definition boot_ipc :: ipc where
  "boot_ipc = \<lparr>stat = (\<lambda>i. if i < NR_TASKS + NR_NATIVE_PROCS then Ready else Unused),
     sendq = (\<lambda>_. []), intp = (\<lambda>_. False)\<rparr>"

lemma ipc_ok_boot: "ipc_ok boot_ipc"
proof -
  have "waits boot_ipc = {}" by (auto simp: waits_def boot_ipc_def)
  then show ?thesis by (auto simp: ipc_ok_def boot_ipc_def acyclic_def)
qed

lemma ipc_ok_queue:
  "ipc_ok a \<Longrightarrow> j < nr_slots \<Longrightarrow> distinct (sendq a j)"
  "ipc_ok a \<Longrightarrow> j < nr_slots \<Longrightarrow> i \<in> set (sendq a j) \<longleftrightarrow> i < nr_slots \<and> stat a i = Sending j"
  by (auto simp: ipc_ok_def)

lemma ipc_ok_set:
  "ipc_ok a \<Longrightarrow> j < nr_slots \<Longrightarrow> set (sendq a j) = {i. i < nr_slots \<and> stat a i = Sending j}"
  by (simp add: ipc_ok_def)

lemma ipc_ok_wake:
  assumes ok: "ipc_ok a" and d: "\<forall>j. stat a d \<noteq> Sending j"
  shows "ipc_ok (a\<lparr>stat := (stat a)(d := Ready)\<rparr>)" "ipc_ok (a\<lparr>stat := (stat a)(d := Receiving src)\<rparr>)"
proof -
  have "waits (a\<lparr>stat := (stat a)(d := Ready)\<rparr>) = waits a"
    "waits (a\<lparr>stat := (stat a)(d := Receiving src)\<rparr>) = waits a"
    using d by (auto simp: waits_def split: if_splits)
  with ok d show "ipc_ok (a\<lparr>stat := (stat a)(d := Ready)\<rparr>)"
    "ipc_ok (a\<lparr>stat := (stat a)(d := Receiving src)\<rparr>)"
    by (auto simp: ipc_ok_def)
qed

lemma ipc_ok_intp [simp]: "ipc_ok (a\<lparr>intp := f\<rparr>) = ipc_ok a"
  by (simp add: ipc_ok_def waits_def)

lemma ipc_ok_spec_send:
  assumes ok: "ipc_ok a" and c: "c < nr_slots" "stat a c = Ready" and d: "d < nr_slots" "d \<noteq> c"
    and free: "(d, c) \<notin> (waits a)\<^sup>+"
  shows "ipc_ok (spec_send c d a)"
proof (cases "accepts a d c")
  case True
  then show ?thesis
    using ipc_ok_wake(1) [OF ok, of d] by (auto simp: spec_send_def accepts_def)
next
  case False
  let ?b = "a\<lparr>stat := (stat a)(c := Sending d), sendq := (sendq a)(d := sendq a d @ [c])\<rparr>"
  have "waits ?b = insert (c, d) (waits a)"
    using c d by (auto simp: waits_def split: if_splits)
  moreover have "(d, c) \<notin> (waits a)\<^sup>*"
    using free d by (auto simp: rtrancl_eq_or_trancl)
  ultimately have "acyclic (waits ?b)"
    using ok by (simp add: ipc_ok_def acyclic_insert)
  moreover have "distinct (sendq ?b j) \<and> set (sendq ?b j) = {i. i < nr_slots \<and> stat ?b i = Sending j}"
    if "j < nr_slots" for j
    using ok c d that by (auto simp: ipc_ok_def)
  ultimately show ?thesis
    using False by (simp add: spec_send_def ipc_ok_def)
qed

lemma ipc_ok_spec_release:
  assumes ok: "ipc_ok a" and c: "c < nr_slots" and f: "f \<in> set (sendq a c)"
  shows "ipc_ok (spec_release c f a)"
proof -
  have "waits (spec_release c f a) \<subseteq> waits a"
    by (auto simp: waits_def spec_release_def split: if_splits)
  moreover have "acyclic (waits a)"
    using ok by (simp add: ipc_ok_def)
  ultimately have acyc: "acyclic (waits (spec_release c f a))"
    by (rule acyclic_subset [rotated])
  have "distinct (sendq (spec_release c f a) j) \<and>
      set (sendq (spec_release c f a) j) = {i. i < nr_slots \<and> stat (spec_release c f a) i = Sending j}"
    if j: "j < nr_slots" for j
  proof -
    have stat: "stat (spec_release c f a) i = Sending j \<longleftrightarrow> i \<noteq> f \<and> stat a i = Sending j" for i
      by (simp add: spec_release_def)
    have q: "sendq (spec_release c f a) j = (if j = c then remove1 f (sendq a c) else sendq a j)"
      by (simp add: spec_release_def)
    have f_c: "stat a f = Sending c"
      using ipc_ok_set [OF ok c] f by simp
    have "set (sendq (spec_release c f a) j) = set (sendq a j) - {f}"
    proof (cases "j = c")
      case True
      then show ?thesis using ipc_ok_queue(1) [OF ok c] by (simp add: spec_release_def)
    next
      case False
      then have "f \<notin> set (sendq a j)" using f_c by (simp add: ipc_ok_set [OF ok j])
      with False show ?thesis by (simp add: q)
    qed
    then have "set (sendq (spec_release c f a) j) = {i. i < nr_slots \<and> i \<noteq> f \<and> stat a i = Sending j}"
      unfolding ipc_ok_set [OF ok j] by blast
    then show ?thesis
      unfolding stat q using ipc_ok_queue(1) [OF ok c] ipc_ok_queue(1) [OF ok j] by simp
  qed
  with acyc show ?thesis
    unfolding ipc_ok_def by blast
qed

lemma ipc_ok_spec_receive:
  assumes ok: "ipc_ok a" and c: "c < nr_slots" "stat a c = Ready"
  shows "ipc_ok (spec_receive c src a)"
  using ok c ipc_ok_spec_release [OF ok c(1)] ipc_ok_wake(2) [OF ok, of c]
  by (auto simp: spec_receive_def)

lemma ipc_ok_spec_interrupt:
  assumes ok: "ipc_ok a"
  shows "ipc_ok (spec_interrupt t a)"
proof (cases "stat a t = Receiving INTERRUPT \<or> stat a t = Receiving ANY")
  case True
  with ipc_ok_wake(1) [OF ok, of t] have "ipc_ok (a\<lparr>stat := (stat a)(t := Ready)\<rparr>)"
    by auto
  then have "ipc_ok (a\<lparr>stat := (stat a)(t := Ready)\<rparr>\<lparr>intp := (intp a)(t := False)\<rparr>)"
    by (simp only: ipc_ok_intp)
  with True show ?thesis by (simp add: spec_interrupt_def)
qed (use ok in \<open>simp add: spec_interrupt_def\<close>)

section \<open>Linked queues\<close>

fun is_queue :: "(nat \<Rightarrow> nat option) \<Rightarrow> nat option \<Rightarrow> nat list \<Rightarrow> bool" where
  "is_queue nxt p [] \<longleftrightarrow> p = None"
| "is_queue nxt p (i # is) \<longleftrightarrow> p = Some i \<and> is_queue nxt (nxt i) is"

lemma is_queue_None [simp]: "is_queue nxt None xs \<longleftrightarrow> xs = []"
  by (cases xs) simp_all

lemma is_queue_Some: "is_queue nxt (Some i) xs \<longleftrightarrow> (\<exists>ys. xs = i # ys \<and> is_queue nxt (nxt i) ys)"
  by (cases xs) auto

lemma is_queue_frame [simp]: "k \<notin> set xs \<Longrightarrow> is_queue (nxt(k := v)) p xs = is_queue nxt p xs"
  by (induction xs arbitrary: p) auto

lemma is_queue_suffix: "is_queue nxt p (xs @ i # ys) \<Longrightarrow> is_queue nxt (nxt i) ys"
  by (induction xs arbitrary: p) auto

lemma is_queue_snoc:
  "is_queue nxt p xs \<Longrightarrow> xs \<noteq> [] \<Longrightarrow> distinct (xs @ [k]) \<Longrightarrow>
   is_queue (nxt(last xs := Some k, k := None)) p (xs @ [k])"
proof (induction xs arbitrary: p)
  case (Cons i xs)
  show ?case
  proof (cases "xs = []")
    case False
    with Cons have "is_queue (nxt(last xs := Some k, k := None)) (nxt i) (xs @ [k])"
      by (intro Cons.IH) auto
    moreover have "i \<noteq> last xs" "i \<noteq> k"
      using False Cons.prems by auto
    ultimately show ?thesis
      using False Cons.prems by (simp add: fun_upd_other del: fun_upd_apply)
  qed (use Cons.prems in auto)
qed simp

lemma is_queue_unlink:
  "is_queue nxt p (ys @ f # zs) \<Longrightarrow> ys \<noteq> [] \<Longrightarrow> distinct (ys @ f # zs) \<Longrightarrow>
   is_queue (nxt(last ys := nxt f, f := None)) p (ys @ zs)"
proof (induction ys arbitrary: p)
  case (Cons i ys)
  show ?case
  proof (cases "ys = []")
    case False
    with Cons have "is_queue (nxt(last ys := nxt f, f := None)) (nxt i) (ys @ zs)"
      by (intro Cons.IH) auto
    moreover have "i \<noteq> last ys" "i \<noteq> f"
      using False Cons.prems by auto
    ultimately show ?thesis
      using False Cons.prems by (simp add: fun_upd_other del: fun_upd_apply)
  next
    case True
    with Cons.prems show ?thesis
      by (auto simp: fun_upd_other fun_upd_same simp del: fun_upd_apply)
  qed
qed simp

lemma queue_last_correct: "is_queue nxt (Some h) xs \<Longrightarrow> queue_last nxt h = Some (last xs)"
proof (induction xs arbitrary: h)
  case Nil
  then show ?case by simp
next
  case (Cons i xs)
  then show ?case
    by (cases xs) (auto simp: queue_last.simps [of nxt i])
qed

lemma queue_find_correct:
  "is_queue nxt p (ys @ f # zs) \<Longrightarrow> f \<notin> set ys \<Longrightarrow>
   queue_find nxt f p prev = Some (Some f, if ys = [] then prev else Some (last ys))"
proof (induction ys arbitrary: p prev)
  case Nil
  then show ?case by (subst queue_find.simps) simp
next
  case (Cons i ys)
  then show ?case by (subst queue_find.simps) auto
qed

end
