(* ===== verification/Ipc_Refine.thy ===== *)
theory Ipc_Refine
  imports Ipc_Spec
begin

text \<open>
  The kernel's message operations implement the abstract specification: the simulation
  relation between process table and specification state, and one refinement lemma per
  operation. Each lemma also shows which of the operation's faults can occur at all; in
  particular none of its \<^verbatim>\<open>assert\<close>s fails.
\<close>

section \<open>The simulation relation\<close>

definition valid_src :: "nat \<Rightarrow> int \<Rightarrow> bool" where
  "valid_src i src \<longleftrightarrow> (0 \<le> src \<and> src < nr_slots \<or> src = ANY \<or> src = INTERRUPT) \<and> src \<noteq> int i"

fun slot_rel :: "nat \<Rightarrow> proc \<Rightarrow> pstat \<Rightarrow> bool" where
  "slot_rel i p Ready \<longleftrightarrow>
     p_flags p = 0 \<and> p_msg p = 0 \<and> p_recvfrom p = NO_TASK \<and> p_sendto p = NO_TASK"
| "slot_rel i p (Sending j) \<longleftrightarrow>
     p_flags p = SENDING \<and> p_msg p \<noteq> 0 \<and> p_recvfrom p = NO_TASK \<and> p_sendto p = int j \<and> j < nr_slots \<and> j \<noteq> i"
| "slot_rel i p (Receiving src) \<longleftrightarrow>
     p_flags p = RECEIVING \<and> p_msg p \<noteq> 0 \<and> p_recvfrom p = src \<and> p_sendto p = NO_TASK \<and> valid_src i src"
| "slot_rel i p Unused \<longleftrightarrow> p_flags p = FREE_SLOT"

definition ipc_rel :: "kstate \<Rightarrow> ipc \<Rightarrow> bool" where
  "ipc_rel s a \<longleftrightarrow>
     (\<forall>i<nr_slots. slot_rel i (proc_table s i) (stat a i) \<and> (intp a i \<longleftrightarrow> has_int_msg (proc_table s i) \<noteq> 0)
        \<and> is_queue (\<lambda>k. next_sending (proc_table s k)) (q_sending (proc_table s i)) (sendq a i))"

lemma ipc_relD:
  assumes "ipc_rel s a" "i < nr_slots"
  shows "slot_rel i (proc_table s i) (stat a i)" "intp a i \<longleftrightarrow> has_int_msg (proc_table s i) \<noteq> 0"
    "is_queue (\<lambda>k. next_sending (proc_table s k)) (q_sending (proc_table s i)) (sendq a i)"
  using assms by (auto simp: ipc_rel_def)

lemma slot_flags_cases:
  "slot_rel i p st \<Longrightarrow> (p_flags p AND SENDING \<noteq> 0) = (\<exists>j. st = Sending j)"
  "slot_rel i p st \<Longrightarrow> (p_flags p AND RECEIVING \<noteq> 0) = (\<exists>src. st = Receiving src)"
  by (cases st; simp)+

text \<open>The user-visible part of the table: what \<^verbatim>\<open>schedule\<close> and a change of memory keep.\<close>

lemma ipc_rel_cong:
  assumes "\<And>i. i < nr_slots \<Longrightarrow> p_flags (proc_table t i) = p_flags (proc_table s i)"
    "\<And>i. i < nr_slots \<Longrightarrow> p_msg (proc_table t i) = p_msg (proc_table s i)"
    "\<And>i. i < nr_slots \<Longrightarrow> p_recvfrom (proc_table t i) = p_recvfrom (proc_table s i)"
    "\<And>i. i < nr_slots \<Longrightarrow> p_sendto (proc_table t i) = p_sendto (proc_table s i)"
    "\<And>i. i < nr_slots \<Longrightarrow> has_int_msg (proc_table t i) = has_int_msg (proc_table s i)"
    "\<And>i. i < nr_slots \<Longrightarrow> q_sending (proc_table t i) = q_sending (proc_table s i)"
    "\<And>i. next_sending (proc_table t i) = next_sending (proc_table s i)"
  shows "ipc_rel t a = ipc_rel s a"
proof -
  have "slot_rel i (proc_table t i) (stat a i) = slot_rel i (proc_table s i) (stat a i)"
    if "i < nr_slots" for i
    using assms that by (cases "stat a i") simp_all
  then show ?thesis
    using assms by (auto simp: ipc_rel_def)
qed

lemma ipc_rel_kmem [simp]: "ipc_rel (s\<lparr>kmem := h\<rparr>) a = ipc_rel s a"
  by (rule ipc_rel_cong) simp_all

lemma ipc_rel_schedule: "schedule s = Some s' \<Longrightarrow> ipc_rel s' a = ipc_rel s a"
  by (rule ipc_rel_cong) (simp_all add: schedule_frame)

section \<open>Address translation\<close>

definition segs_ok :: "kstate \<Rightarrow> bool" where
  "segs_ok s \<longleftrightarrow> (\<forall>i < NR_TASKS + NR_NATIVE_PROCS. ldt_seg_linear (proc_table s i) INDEX_LDT_RW = 0)"

definition linear :: "kstate \<Rightarrow> nat \<Rightarrow> u32 \<Rightarrow> u32" where
  "linear s i va = ldt_seg_linear (proc_table s i) INDEX_LDT_RW + va"

lemma va2la_linear: "segs_ok s \<Longrightarrow> va2la s i va = Inr (linear s i va)"
  by (simp add: va2la_def linear_def segs_ok_def Let_def)

section \<open>Deadlock detection\<close>

lemma deadlock_chain_correct:
  assumes rel: "ipc_rel s a" and ok: "ipc_ok a" and p: "p < nr_slots"
  shows "deadlock_chain (proc_table s) (int c) p = Some (Inr ((p, c) \<in> (waits a)\<^sup>+))"
  using wf_waits [OF ok] p
proof (induction p rule: wf_induct_rule)
  case (less p)
  note slot = ipc_relD(1) [OF rel \<open>p < nr_slots\<close>]
  show ?case
  proof (cases "\<exists>j. stat a p = Sending j")
    case True
    then obtain j where j: "stat a p = Sending j" ..
    with slot have step: "(p, j) \<in> waits a" and "j < nr_slots"
      using less.prems by (auto simp: waits_def)
    then have "deadlock_chain (proc_table s) (int c) j = Some (Inr ((j, c) \<in> (waits a)\<^sup>+))"
      by (intro less.IH) simp_all
    with slot j \<open>j < nr_slots\<close> show ?thesis
      by (subst deadlock_chain.simps) (simp add: waits_trancl_step [OF step])
  next
    case False
    then have "(p, c) \<notin> (waits a)\<^sup>+"
      by (auto simp: waits_def elim: converse_tranclE)
    with False slot show ?thesis
      by (subst deadlock_chain.simps) (simp add: slot_flags_cases(1) [OF slot])
  qed
qed

lemma deadlock_print_returns:
  assumes rel: "ipc_rel s a" and ok: "ipc_ok a" and p: "p < nr_slots" "(p, c) \<in> (waits a)\<^sup>+"
  shows "deadlock_print (proc_table s) (int c) p = Some (Inr ())"
  using wf_waits [OF ok] p
proof (induction p rule: wf_induct_rule)
  case (less p)
  note slot = ipc_relD(1) [OF rel \<open>p < nr_slots\<close>]
  obtain j where step: "(p, j) \<in> waits a"
    using less.prems(2) by (auto elim: converse_tranclE)
  then have j: "stat a p = Sending j" "j < nr_slots"
    by (auto simp: waits_def)
  have "deadlock_print (proc_table s) (int c) j = Some (Inr ())" if "j \<noteq> c"
    using that less.prems(2) step j by (intro less.IH) (simp_all add: waits_trancl_step [OF step])
  with slot j show ?case
    by (subst deadlock_print.simps) auto
qed

lemma deadlock_correct:
  assumes "ipc_rel s a" "ipc_ok a" "d < nr_slots"
  shows "deadlock s (int c) d = Inr ((d, c) \<in> (waits a)\<^sup>+)"
  using assms deadlock_print_returns [OF assms(1,2,3)]
  by (simp add: deadlock_def deadlock_chain_correct)

section \<open>Queue surgery\<close>

definition relink :: "kstate \<Rightarrow> (nat \<Rightarrow> nat option) \<Rightarrow> (nat \<Rightarrow> nat option) \<Rightarrow> kstate" where
  "relink s q n = s\<lparr>proc_table := \<lambda>i. (proc_table s i)\<lparr>q_sending := q i, next_sending := n i\<rparr>\<rparr>"

lemma relink_sel [simp]:
  "k_ticks (relink s q n) = k_ticks s" "key_pressed (relink s q n) = key_pressed s"
  "q_sending (proc_table (relink s q n) i) = q i"
  "next_sending (proc_table (relink s q n) i) = n i"
  "p_flags (proc_table (relink s q n) i) = p_flags (proc_table s i)"
  "p_msg (proc_table (relink s q n) i) = p_msg (proc_table s i)"
  "p_recvfrom (proc_table (relink s q n) i) = p_recvfrom (proc_table s i)"
  "p_sendto (proc_table (relink s q n) i) = p_sendto (proc_table s i)"
  "has_int_msg (proc_table (relink s q n) i) = has_int_msg (proc_table s i)"
  "p_ticks (proc_table (relink s q n) i) = p_ticks (proc_table s i)"
  "p_priority (proc_table (relink s q n) i) = p_priority (proc_table s i)"
  "ldts (proc_table (relink s q n) i) = ldts (proc_table s i)"
  "kmem (relink s q n) = kmem s"
  "p_proc_ready (relink s q n) = p_proc_ready s"
  "k_reenter (relink s q n) = k_reenter s"
  by (simp_all add: relink_def)

lemma slot_rel_relink [simp]:
  "slot_rel i (proc_table (relink s q n) k) st = slot_rel i (proc_table s k) st"
  by (cases st) simp_all

lemma enqueue_sender_relink:
  assumes queue: "is_queue (\<lambda>k. next_sending (proc_table s k)) (q_sending (proc_table s d)) xs"
    and dist: "distinct (xs @ [c])"
  obtains q n where "enqueue_sender s d c = Inr (relink s q n)"
    "is_queue n (q d) (xs @ [c])"
    "\<And>j. j \<noteq> d \<Longrightarrow> q j = q_sending (proc_table s j)"
    "\<And>j. j \<notin> set (xs @ [c]) \<Longrightarrow> n j = next_sending (proc_table s j)"
proof (cases "q_sending (proc_table s d)")
  case None
  let ?q = "(\<lambda>k. q_sending (proc_table s k))(d := Some c)"
  let ?n = "(\<lambda>k. next_sending (proc_table s k))(c := None)"
  have "enqueue_sender s d c = Inr (relink s ?q ?n)"
    using None by (auto simp: enqueue_sender_def upd_proc_def relink_def fun_eq_iff)
  with None queue show thesis
    by (intro that [of ?q ?n]) simp_all
next
  case (Some h)
  let ?q = "\<lambda>k. q_sending (proc_table s k)"
  let ?n = "(\<lambda>k. next_sending (proc_table s k))(last xs := Some c, c := None)"
  have "xs \<noteq> []" using Some queue by auto
  have "enqueue_sender s d c = Inr (relink s ?q ?n)"
    using Some queue
    by (auto simp: enqueue_sender_def upd_proc_def relink_def fun_eq_iff queue_last_correct)
  moreover have "is_queue ?n (?q d) (xs @ [c])"
    using queue \<open>xs \<noteq> []\<close> dist by (rule is_queue_snoc)
  ultimately show thesis
    using \<open>xs \<noteq> []\<close> by (intro that [of ?q ?n]) auto
qed

lemma is_queue_cong:
  "(\<And>i. i \<in> set xs \<Longrightarrow> n i = n' i) \<Longrightarrow> is_queue n p xs = is_queue n' p xs"
  by (induction xs arbitrary: p) auto

lemma queues_disjoint:
  "ipc_ok a \<Longrightarrow> i < nr_slots \<Longrightarrow> j < nr_slots \<Longrightarrow> i \<noteq> j \<Longrightarrow> k \<in> set (sendq a i) \<Longrightarrow> k \<notin> set (sendq a j)"
  by (auto simp: ipc_ok_set)

section \<open>Sending refines the specification\<close>

lemma msg_send_deliver:
  assumes rel: "ipc_rel s a" and ok: "ipc_ok a" and segs: "segs_ok s"
    and c: "c < nr_slots" "stat a c = Ready" and d: "d < nr_slots" "d \<noteq> c"
    and m: "m \<noteq> 0" and free: "(d, c) \<notin> (waits a)\<^sup>+" and acc: "accepts a d c"
  shows "msg_send s c (int d) m =
      Inr (s\<lparr>kmem := memcpy (kmem s) (linear s d (p_msg (proc_table s d))) (linear s c m) sizeof_MESSAGE,
             proc_table := (proc_table s)(d := (proc_table s d)\<lparr>p_msg := 0, p_flags := 0, p_recvfrom := NO_TASK\<rparr>)\<rparr>)"
  using ipc_relD(1) [OF rel c(1)] ipc_relD(1) [OF rel d(1)] acc c d m free
  by (auto simp: msg_send_def deadlock_correct [OF rel ok d(1)] va2la_linear [OF segs] Let_def
      unblock_def upd_proc_def accepts_def)

lemma msg_send_wait:
  assumes rel: "ipc_rel s a" and ok: "ipc_ok a"
    and c: "c < nr_slots" "stat a c = Ready" and d: "d < nr_slots" "d \<noteq> c"
    and m: "m \<noteq> 0" and free: "(d, c) \<notin> (waits a)\<^sup>+" and no: "\<not> accepts a d c"
  obtains t where "msg_send s c (int d) m = returns 24 (schedule t)" "ipc_rel t (spec_send c d a)"
    "kmem t = kmem s" "k_reenter t = k_reenter s" "k_ticks t = k_ticks s"
    "\<And>i. runnable (proc_table t) i \<longleftrightarrow> runnable (proc_table s) i \<and> i \<noteq> c"
    "\<And>i. p_ticks (proc_table t i) = p_ticks (proc_table s i)"
    "\<And>i. p_priority (proc_table t i) = p_priority (proc_table s i)"
    "\<And>i. ldts (proc_table t i) = ldts (proc_table s i)"
proof -
  note slot_c = ipc_relD(1) [OF rel c(1)]
  let ?s2 = "s\<lparr>proc_table := (proc_table s)(c := (proc_table s c)
      \<lparr>p_flags := SENDING, p_sendto := int d, p_msg := m\<rparr>)\<rparr>"
  have nxt: "(\<lambda>k. next_sending (proc_table ?s2 k)) = (\<lambda>k. next_sending (proc_table s k))"
    by auto
  have "is_queue (\<lambda>k. next_sending (proc_table ?s2 k)) (q_sending (proc_table ?s2 d)) (sendq a d)"
    unfolding nxt using ipc_relD(3) [OF rel d(1)] d by simp
  moreover have "distinct (sendq a d @ [c])"
    using ipc_ok_queue [OF ok d(1)] c by simp
  ultimately obtain q n where enq: "enqueue_sender ?s2 d c = Inr (relink ?s2 q n)"
    and new: "is_queue n (q d) (sendq a d @ [c])"
    and q: "\<And>j. j \<noteq> d \<Longrightarrow> q j = q_sending (proc_table ?s2 j)"
    and n: "\<And>j. j \<notin> set (sendq a d @ [c]) \<Longrightarrow> n j = next_sending (proc_table ?s2 j)"
    by (rule enqueue_sender_relink) blast
  let ?t = "relink ?s2 q n"
  have "\<not> (p_flags (proc_table s d) AND RECEIVING \<noteq> 0 \<and>
      (p_recvfrom (proc_table s d) = int c \<or> p_recvfrom (proc_table s d) = ANY))"
    using no ipc_relD(1) [OF rel d(1)] by (cases "stat a d") (auto simp: accepts_def)
  then have "msg_send s c (int d) m = bindE (block ?t c) (\<lambda>s.
      checks [(228, p_flags (proc_table s c) = SENDING), (229, p_msg (proc_table s c) \<noteq> 0),
              (230, p_recvfrom (proc_table s c) = NO_TASK), (231, p_sendto (proc_table s c) = int d)] (Inr s))"
    using slot_c c d free enq
    by (auto simp: msg_send_def deadlock_correct [OF rel ok d(1)] Let_def upd_proc_def)
  also have "\<dots> = returns 24 (schedule ?t)"
    using slot_c c m
    by (cases "schedule ?t") (simp_all add: block_def schedule_frame)
  finally have "msg_send s c (int d) m = returns 24 (schedule ?t)" .
  moreover have "ipc_rel ?t (spec_send c d a)"
    unfolding ipc_rel_def
  proof (intro allI impI conjI)
    fix i :: nat
    assume i: "i < nr_slots"
    show "slot_rel i (proc_table ?t i) (stat (spec_send c d a) i)"
      using ipc_relD(1) [OF rel i] slot_c c d m no by (simp add: spec_send_def)
    show "intp (spec_send c d a) i \<longleftrightarrow> has_int_msg (proc_table ?t i) \<noteq> 0"
      using ipc_relD(2) [OF rel i] no by (simp add: spec_send_def)
    show "is_queue (\<lambda>k. next_sending (proc_table ?t k)) (q_sending (proc_table ?t i)) (sendq (spec_send c d a) i)"
    proof (cases "i = d")
      case True
      with new no show ?thesis by (simp add: spec_send_def)
    next
      case False
      have "is_queue n (q i) (sendq a i) = is_queue (\<lambda>k. next_sending (proc_table ?s2 k)) (q i) (sendq a i)"
        using n queues_disjoint [OF ok i d(1) False] ipc_ok_queue(2) [OF ok i] c
        by (intro is_queue_cong) auto
      with False no q [OF False] ipc_relD(3) [OF rel i] show ?thesis
        unfolding nxt by (auto simp: spec_send_def split: if_splits)
    qed
  qed
  ultimately show thesis
    using that [of ?t] slot_c c by (auto simp: runnable_def)
qed

lemma next_keep [simp]:
  "next_sending p = next_sending (pt i) \<Longrightarrow>
   (\<lambda>k. next_sending (if k = i then p else pt k)) = (\<lambda>k. next_sending (pt k))"
  by auto

lemma ipc_rel_upd:
  assumes rel: "ipc_rel s a" and i: "i < nr_slots" and slot: "slot_rel i p st"
    and keep: "q_sending p = q_sending (proc_table s i)" "next_sending p = next_sending (proc_table s i)"
  shows "ipc_rel (s\<lparr>kmem := h, proc_table := (proc_table s)(i := p)\<rparr>)
    (a\<lparr>stat := (stat a)(i := st), intp := (intp a)(i := has_int_msg p \<noteq> 0)\<rparr>)"
  using rel i slot keep unfolding ipc_rel_def by auto

lemma spec_send_accepted:
  "accepts a d c \<Longrightarrow> spec_send c d a = a\<lparr>stat := (stat a)(d := Ready), intp := (intp a)(d := intp a d)\<rparr>"
  by (simp add: spec_send_def)

lemma msg_send_cases:
  assumes rel: "ipc_rel s a" and ok: "ipc_ok a" and segs: "segs_ok s"
    and c: "c < nr_slots" "stat a c = Ready" and d: "d < nr_slots" "d \<noteq> c" and m: "m \<noteq> 0"
  obtains (cycle) "(d, c) \<in> (waits a)\<^sup>+" "msg_send s c (int d) m = Inl (Panic 176)"
  | (deliver) h p where "(d, c) \<notin> (waits a)\<^sup>+" "accepts a d c"
      "p = (proc_table s d)\<lparr>p_msg := 0, p_flags := 0, p_recvfrom := NO_TASK\<rparr>"
      "h = memcpy (kmem s) (linear s d (p_msg (proc_table s d))) (linear s c m) sizeof_MESSAGE"
      "msg_send s c (int d) m = Inr (s\<lparr>kmem := h, proc_table := (proc_table s)(d := p)\<rparr>)"
      "ipc_rel (s\<lparr>kmem := h, proc_table := (proc_table s)(d := p)\<rparr>) (spec_send c d a)"
  | (wait) t where "(d, c) \<notin> (waits a)\<^sup>+" "\<not> accepts a d c"
      "msg_send s c (int d) m = returns 24 (schedule t)" "ipc_rel t (spec_send c d a)" "kmem t = kmem s"
      "k_reenter t = k_reenter s" "k_ticks t = k_ticks s"
      "\<And>i. runnable (proc_table t) i \<longleftrightarrow> runnable (proc_table s) i \<and> i \<noteq> c"
      "\<And>i. p_ticks (proc_table t i) = p_ticks (proc_table s i)"
      "\<And>i. p_priority (proc_table t i) = p_priority (proc_table s i)"
      "\<And>i. ldts (proc_table t i) = ldts (proc_table s i)"
proof (cases "(d, c) \<in> (waits a)\<^sup>+")
  case True
  moreover from this have "msg_send s c (int d) m = Inl (Panic 176)"
    using d by (simp add: msg_send_def deadlock_correct [OF rel ok d(1)])
  ultimately show thesis by (rule cycle)
next
  case free: False
  show thesis
  proof (cases "accepts a d c")
    case True
    let ?p = "(proc_table s d)\<lparr>p_msg := 0, p_flags := 0, p_recvfrom := NO_TASK\<rparr>"
    have "p_sendto (proc_table s d) = NO_TASK"
      using True ipc_relD(1) [OF rel d(1)] by (auto simp: accepts_def)
    then have "ipc_rel (s\<lparr>kmem := h, proc_table := (proc_table s)(d := ?p)\<rparr>) (spec_send c d a)" for h
      using ipc_rel_upd [OF rel d(1), of ?p Ready h] ipc_relD(2) [OF rel d(1)]
      by (simp add: spec_send_accepted [OF True])
    with True free show thesis
      by (intro deliver) (simp_all add: msg_send_deliver [OF rel ok segs c d m free True])
  next
    case False
    then show thesis
      using msg_send_wait [OF rel ok c d m free] wait [OF free False] by metis
  qed
qed

text \<open>
  C3. Sending refines the specification. For a ready sender and another process as
  destination, \<^verbatim>\<open>msg_send\<close> either panics, exactly when the destination already waits for the
  sender through a chain of blocked sends; or performs the specified step, keeping the
  simulation relation and the invariant; or, when the sender has to wait and no other process
  can run, never returns from the scheduler. No assertion fails and no queue walk runs on.
\<close>

theorem msg_send_refines:
  assumes "ipc_rel s a" "ipc_ok a" "segs_ok s"
    and "c < nr_slots" "stat a c = Ready" and "d < nr_slots" "d \<noteq> c" and "m \<noteq> 0"
  shows "case msg_send s c (int d) m of
      Inr s' \<Rightarrow> (d, c) \<notin> (waits a)\<^sup>+ \<and> ipc_rel s' (spec_send c d a) \<and> ipc_ok (spec_send c d a)
    | Inl e \<Rightarrow> e = Panic 176 \<and> (d, c) \<in> (waits a)\<^sup>+
        \<or> e = Hang 24 \<and> \<not> accepts a d c \<and> (d, c) \<notin> (waits a)\<^sup>+ \<and>
          (\<forall>i. runnable (proc_table s) i \<and> i \<noteq> c \<longrightarrow>
             p_ticks (proc_table s i) \<le> 0 \<and> p_priority (proc_table s i) \<le> 0)"
proof (cases rule: msg_send_cases [OF assms, case_names cycle deliver wait])
  case cycle
  then show ?thesis by simp
next
  case deliver
  then show ?thesis
    using ipc_ok_spec_send [of a c d] assms by simp
next
  case (wait t)
  show ?thesis
  proof (cases "schedule t")
    case None
    then have "\<not> (\<exists>s'. schedule t = Some s')" by simp
    with wait None show ?thesis
      unfolding schedule_total_iff by (auto simp: not_less)
  next
    case (Some s')
    with wait ipc_ok_spec_send [of a c d] assms show ?thesis
      by (simp add: ipc_rel_schedule)
  qed
qed

lemma demo_ipc_rel: "ipc_rel demo_state boot_ipc" "segs_ok demo_state"
  by (auto simp: ipc_rel_def demo_state_def boot_ipc_def zero_proc_def segs_ok_def ldt_seg_linear_def
      zero_descriptor_def desc_base_def)

lemma boot_ready: "i < 9 \<Longrightarrow> stat boot_ipc i = Ready"
  by (simp add: boot_ipc_def)

lemmas demo_facts = demo_ipc_rel ipc_ok_boot boot_ready

theorem msg_send_refines_witness:
  "case msg_send demo_state 5 (int 3) 0x1000 of
      Inr s' \<Rightarrow> (3, 5) \<notin> (waits boot_ipc)\<^sup>+ \<and> ipc_rel s' (spec_send 5 3 boot_ipc) \<and> ipc_ok (spec_send 5 3 boot_ipc)
    | Inl e \<Rightarrow> e = Panic 176 \<and> (3, 5) \<in> (waits boot_ipc)\<^sup>+
        \<or> e = Hang 24 \<and> \<not> accepts boot_ipc 3 5 \<and> (3, 5) \<notin> (waits boot_ipc)\<^sup>+ \<and>
          (\<forall>i. runnable (proc_table demo_state) i \<and> i \<noteq> 5 \<longrightarrow>
             p_ticks (proc_table demo_state i) \<le> 0 \<and> p_priority (proc_table demo_state i) \<le> 0)"
  by (rule msg_send_refines) (simp_all add: demo_facts)

section \<open>Receiving refines the specification\<close>

lemma dequeue_sender_relink:
  assumes queue: "is_queue (\<lambda>k. next_sending (proc_table s k)) (q_sending (proc_table s c)) (ys @ f # zs)"
    and dist: "distinct (ys @ f # zs)"
  obtains q n where
    "dequeue_sender s c f (if ys = [] then None else Some (last ys)) = Inr (relink s q n)"
    "is_queue n (q c) (ys @ zs)"
    "\<And>j. j \<noteq> c \<Longrightarrow> q j = q_sending (proc_table s j)"
    "\<And>j. j \<notin> set (ys @ [f]) \<Longrightarrow> n j = next_sending (proc_table s j)"
proof (cases "ys = []")
  case True
  let ?q = "(\<lambda>k. q_sending (proc_table s k))(c := next_sending (proc_table s f))"
  let ?n = "(\<lambda>k. next_sending (proc_table s k))(f := None)"
  have "dequeue_sender s c f None = Inr (relink s ?q ?n)"
    using True queue by (auto simp: dequeue_sender_def upd_proc_def relink_def fun_eq_iff)
  moreover have "is_queue ?n (?q c) zs"
    using True queue dist by simp
  ultimately show thesis
    using True by (intro that [of ?q ?n]) auto
next
  case False
  let ?q = "\<lambda>k. q_sending (proc_table s k)"
  let ?n = "(\<lambda>k. next_sending (proc_table s k))(last ys := next_sending (proc_table s f), f := None)"
  have "q_sending (proc_table s c) = Some (hd ys)"
    using False queue by (cases ys) auto
  moreover have "hd ys \<noteq> f" using False dist by (cases ys) auto
  ultimately have "dequeue_sender s c f (Some (last ys)) = Inr (relink s ?q ?n)"
    by (auto simp: dequeue_sender_def upd_proc_def relink_def fun_eq_iff)
  moreover have "is_queue ?n (?q c) (ys @ zs)"
    using queue False dist by (rule is_queue_unlink)
  ultimately show thesis
    using False by (intro that [of ?q ?n]) auto
qed

lemma find_sender_any:
  assumes rel: "ipc_rel s a" and ok: "ipc_ok a" and c: "c < nr_slots" "stat a c = Ready"
  shows "find_sender s c ANY = Inr (case sendq a c of [] \<Rightarrow> None | f # _ \<Rightarrow> Some (f, None))"
proof (cases "sendq a c")
  case Nil
  then show ?thesis
    using ipc_relD(3) [OF rel c(1)] by (simp add: find_sender_def)
next
  case (Cons f fs)
  then have f: "f < nr_slots" "stat a f = Sending c"
    using ipc_ok_queue(2) [OF ok c(1), of f] by simp_all
  then show ?thesis
    using Cons ipc_relD(3) [OF rel c(1)] ipc_relD(1) [OF rel c(1)] ipc_relD(1) [OF rel f(1)] c
    by (simp add: find_sender_def Let_def)
qed

lemma find_sender_from:
  assumes rel: "ipc_rel s a" and ok: "ipc_ok a" and c: "c < nr_slots" "stat a c = Ready"
    and q: "sendq a c = ys @ f # zs"
  shows "find_sender s c (int f) = Inr (Some (f, if ys = [] then None else Some (last ys)))"
proof -
  have f: "f < nr_slots" "stat a f = Sending c"
    using ipc_ok_queue(2) [OF ok c(1), of f] q by simp_all
  have queue: "is_queue (\<lambda>k. next_sending (proc_table s k)) (q_sending (proc_table s c)) (ys @ f # zs)"
    using ipc_relD(3) [OF rel c(1)] q by simp
  then have "q_sending (proc_table s c) \<noteq> None" by (cases ys) auto
  moreover have "f \<notin> set ys"
    using ipc_ok_queue(1) [OF ok c(1)] q by simp
  note queue_find_correct [OF queue this, of None]
  ultimately show ?thesis
    using ipc_relD(1) [OF rel c(1)] ipc_relD(1) [OF rel f(1)] c f
    by (simp add: find_sender_def Let_def)
qed

lemma find_sender_none:
  assumes rel: "ipc_rel s a" and ok: "ipc_ok a" and c: "c < nr_slots"
    and src: "src \<noteq> ANY" "\<not> (0 \<le> src \<and> nat src \<in> set (sendq a c))"
  shows "find_sender s c src = Inr None"
proof (cases "0 \<le> src \<and> src < nr_slots")
  case True
  then have f: "nat src < nr_slots" and "stat a (nat src) \<noteq> Sending c"
    using src ipc_ok_queue(2) [OF ok c, of "nat src"] by auto
  then show ?thesis
    using ipc_relD(1) [OF rel f] True src
    by (cases "stat a (nat src)") (auto simp: find_sender_def Let_def)
qed (use src in \<open>auto simp: find_sender_def\<close>)

lemma linear_relink [simp]:
  "linear (relink s q n) = linear s" "segs_ok (relink s q n) = segs_ok s"
  by (simp_all add: linear_def segs_ok_def ldt_seg_linear_def fun_eq_iff)

lemma msg_receive_take:
  assumes rel: "ipc_rel s a" and ok: "ipc_ok a" and segs: "segs_ok s"
    and c: "c < nr_slots" "stat a c = Ready" and m: "m \<noteq> 0" "src \<noteq> int c"
    and no_int: "\<not> (intp a c \<and> (src = ANY \<or> src = INTERRUPT))"
    and q: "sendq a c = ys @ f # zs"
    and find: "find_sender s c src = Inr (Some (f, if ys = [] then None else Some (last ys)))"
  obtains t where "msg_receive s c src m = Inr t" "ipc_rel t (spec_release c f a)"
    "kmem t = memcpy (kmem s) (linear s c m) (linear s f (p_msg (proc_table s f))) sizeof_MESSAGE"
    "p_proc_ready t = p_proc_ready s" "k_reenter t = k_reenter s" "k_ticks t = k_ticks s"
    "\<And>i. ldts (proc_table t i) = ldts (proc_table s i)"
    "\<And>i. p_ticks (proc_table t i) = p_ticks (proc_table s i)"
    "\<And>i. p_priority (proc_table t i) = p_priority (proc_table s i)"
proof -
  have f: "f < nr_slots" "stat a f = Sending c"
    using ipc_ok_queue(2) [OF ok c(1), of f] q by simp_all
  note slot_f = ipc_relD(1) [OF rel f(1)]
  have "f \<noteq> c" using c f by auto
  have dist: "distinct (ys @ f # zs)"
    using ipc_ok_queue(1) [OF ok c(1)] q by simp
  have "is_queue (\<lambda>k. next_sending (proc_table s k)) (q_sending (proc_table s c)) (ys @ f # zs)"
    using ipc_relD(3) [OF rel c(1)] q by simp
  then obtain qq n where
    deq: "dequeue_sender s c f (if ys = [] then None else Some (last ys)) = Inr (relink s qq n)"
    and new: "is_queue n (qq c) (ys @ zs)"
    and qq: "\<And>j. j \<noteq> c \<Longrightarrow> qq j = q_sending (proc_table s j)"
    and n: "\<And>j. j \<notin> set (ys @ [f]) \<Longrightarrow> n j = next_sending (proc_table s j)"
    using dist by (rule dequeue_sender_relink) blast
  let ?r = "relink s qq n"
  let ?p = "(proc_table ?r f)\<lparr>p_msg := 0, p_sendto := NO_TASK, p_flags := 0\<rparr>"
  let ?h = "memcpy (kmem s) (linear s c m) (linear s f (p_msg (proc_table s f))) sizeof_MESSAGE"
  let ?t = "?r\<lparr>kmem := ?h, proc_table := (proc_table ?r)(f := ?p)\<rparr>"
  have "msg_receive s c src m = Inr ?t"
    using m no_int find deq slot_f f ipc_relD(2) [OF rel c(1)] va2la_linear [of ?r] segs
    by (auto simp: msg_receive_def Let_def upd_proc_def unblock_def)
  moreover have "ipc_rel ?t (spec_release c f a)"
    unfolding ipc_rel_def
  proof (intro allI impI conjI)
    fix i :: nat
    assume i: "i < nr_slots"
    show "slot_rel i (proc_table ?t i) (stat (spec_release c f a) i)"
      using ipc_relD(1) [OF rel i] slot_f f by (simp add: spec_release_def)
    show "intp (spec_release c f a) i \<longleftrightarrow> has_int_msg (proc_table ?t i) \<noteq> 0"
      using ipc_relD(2) [OF rel i] by (simp add: spec_release_def)
    have nxt: "(\<lambda>k. next_sending (proc_table ?t k)) = n" by auto
    have qs: "q_sending (proc_table ?t i) = qq i" by simp
    show "is_queue (\<lambda>k. next_sending (proc_table ?t k)) (q_sending (proc_table ?t i)) (sendq (spec_release c f a) i)"
      unfolding nxt qs
    proof (cases "i = c")
      case True
      with new q dist show "is_queue n (qq i) (sendq (spec_release c f a) i)"
        by (simp add: spec_release_def remove1_append)
    next
      case False
      have "k \<notin> set (ys @ [f])" if "k \<in> set (sendq a i)" for k
        using that queues_disjoint [OF ok i c(1) False] q by auto
      then have "is_queue n (qq i) (sendq a i)
          = is_queue (\<lambda>k. next_sending (proc_table s k)) (qq i) (sendq a i)"
        using n by (intro is_queue_cong) blast
      with False qq [OF False] ipc_relD(3) [OF rel i]
      show "is_queue n (qq i) (sendq (spec_release c f a) i)"
        by (simp add: spec_release_def)
    qed
  qed
  ultimately show thesis
    using that [of ?t] by simp
qed

lemma msg_receive_interrupt:
  assumes rel: "ipc_rel s a" and segs: "segs_ok s" and c: "c < nr_slots" "stat a c = Ready"
    and m: "m \<noteq> 0" and src: "src = ANY \<or> src = INTERRUPT" "intp a c"
  shows "msg_receive s c src m =
      Inr (s\<lparr>kmem := store_bytes (kmem s) (linear s c m) interrupt_msg,
             proc_table := (proc_table s)(c := (proc_table s c)\<lparr>has_int_msg := 0\<rparr>)\<rparr>)"
proof -
  have "int c \<noteq> src" using src c by auto
  then show ?thesis
    using ipc_relD(1, 2) [OF rel c(1)] c m src va2la_linear [OF segs]
    by (auto simp: msg_receive_def Let_def upd_proc_def)
qed

text \<open>The state in which the receiver blocks, before the scheduler runs.\<close>

definition waiting :: "kstate \<Rightarrow> nat \<Rightarrow> int \<Rightarrow> u32 \<Rightarrow> kstate" where
  "waiting s c src m = s\<lparr>proc_table := (proc_table s)
     (c := (proc_table s c)\<lparr>p_flags := RECEIVING, p_msg := m, p_recvfrom := src\<rparr>)\<rparr>"

lemma msg_receive_wait:
  assumes rel: "ipc_rel s a" and c: "c < nr_slots" "stat a c = Ready"
    and m: "m \<noteq> 0" and src: "valid_src c src"
    and no_int: "\<not> (intp a c \<and> (src = ANY \<or> src = INTERRUPT))"
    and find: "find_sender s c src = Inr None"
  shows "msg_receive s c src m = bindE (returns 24 (schedule (waiting s c src m)))
      (\<lambda>s'. check 342 (\<not> intp a c) (Inr s'))"
proof -
  let ?t = "waiting s c src m"
  have "msg_receive s c src m = bindE (block ?t c) (\<lambda>s.
      checks [(338, p_flags (proc_table s c) = RECEIVING), (339, p_msg (proc_table s c) \<noteq> 0),
        (340, p_recvfrom (proc_table s c) \<noteq> NO_TASK),
        (341, p_sendto (proc_table s c) = NO_TASK), (342, has_int_msg (proc_table s c) = 0)] (Inr s))"
    using src no_int find ipc_relD(1, 2) [OF rel c(1)] c
    by (auto simp: msg_receive_def upd_proc_def Let_def waiting_def valid_src_def)
  also have "\<dots> = bindE (returns 24 (schedule ?t)) (\<lambda>s'. check 342 (\<not> intp a c) (Inr s'))"
    using ipc_relD(1, 2) [OF rel c(1)] c m src
    by (cases "schedule ?t") (auto simp: block_def schedule_frame waiting_def valid_src_def)
  finally show ?thesis .
qed

lemma ipc_rel_waiting:
  assumes "ipc_rel s a" "c < nr_slots" "stat a c = Ready" "m \<noteq> 0" "valid_src c src"
  shows "ipc_rel (waiting s c src m) (a\<lparr>stat := (stat a)(c := Receiving src)\<rparr>)"
  using assms unfolding ipc_rel_def waiting_def by auto

lemma runnable_waiting:
  "runnable (proc_table (waiting s c src m)) i \<longleftrightarrow> runnable (proc_table s) i \<and> i \<noteq> c"
  by (simp add: runnable_def waiting_def)

text \<open>The four ways through \<^verbatim>\<open>msg_receive\<close>.\<close>

lemma msg_receive_cases:
  assumes rel: "ipc_rel s a" and ok: "ipc_ok a" and segs: "segs_ok s"
    and c: "c < nr_slots" "stat a c = Ready" and m: "m \<noteq> 0" and src: "valid_src c src"
  obtains (interrupt) "intp a c" "src = ANY \<or> src = INTERRUPT"
      "spec_receive c src a = a\<lparr>intp := (intp a)(c := False)\<rparr>"
  | (take) ys f zs where "\<not> (intp a c \<and> (src = ANY \<or> src = INTERRUPT))"
      "sendq a c = ys @ f # zs" "src = ANY \<and> ys = [] \<or> src = int f"
      "find_sender s c src = Inr (Some (f, if ys = [] then None else Some (last ys)))"
      "spec_receive c src a = spec_release c f a"
  | (wait) "\<not> (intp a c \<and> (src = ANY \<or> src = INTERRUPT))"
      "\<And>f. f \<in> set (sendq a c) \<Longrightarrow> src \<noteq> ANY \<and> src \<noteq> int f" "find_sender s c src = Inr None"
      "spec_receive c src a = a\<lparr>stat := (stat a)(c := Receiving src)\<rparr>"
proof (cases "intp a c \<and> (src = ANY \<or> src = INTERRUPT)")
  case True
  then show thesis by (intro interrupt) (simp_all add: spec_receive_def)
next
  case no_int: False
  show thesis
  proof (cases "src = ANY")
    case True
    show thesis
    proof (cases "sendq a c")
      case Nil
      with True no_int find_sender_any [OF rel ok c] show thesis
        by (intro wait) (simp_all add: spec_receive_def)
    next
      case (Cons f zs)
      with True no_int find_sender_any [OF rel ok c] show thesis
        by (intro take [of "[]" f zs]) (simp_all add: spec_receive_def)
    qed
  next
    case not_any: False
    show thesis
    proof (cases "0 \<le> src \<and> nat src \<in> set (sendq a c)")
      case True
      then obtain ys zs where q: "sendq a c = ys @ nat src # zs"
        by (meson split_list)
      obtain f where f: "src = int f" using True nonneg_int_cases by blast
      with q have q: "sendq a c = ys @ f # zs" by simp
      have "src \<noteq> INTERRUPT" using f by simp
      with f q not_any no_int find_sender_from [OF rel ok c q] show thesis
        by (intro take [OF _ q]) (simp_all add: spec_receive_def)
    next
      case False
      with not_any no_int find_sender_none [OF rel ok c(1) not_any False] show thesis
        by (intro wait) (auto simp: spec_receive_def)
    qed
  qed
qed

text \<open>
  C4. Receiving refines the specification. For a ready receiver and a legal source,
  \<^verbatim>\<open>msg_receive\<close> takes a pending interrupt, or the message of the first waiting sender
  that matches, or blocks the receiver, as specified, keeping the simulation relation and the
  invariant. It faults in two cases only: when the receiver has to block and nothing else can
  run; and in the assertion at line 342, when the receiver blocks for one process while an
  interrupt is pending for it.
\<close>

theorem msg_receive_refines:
  assumes "ipc_rel s a" "ipc_ok a" "segs_ok s"
    and "c < nr_slots" "stat a c = Ready" and "m \<noteq> 0" and "valid_src c src"
  shows "case msg_receive s c src m of
      Inr s' \<Rightarrow> ipc_rel s' (spec_receive c src a) \<and> ipc_ok (spec_receive c src a)
        \<and> (stat (spec_receive c src a) c = Receiving src \<longrightarrow> \<not> intp a c)
    | Inl e \<Rightarrow> stat (spec_receive c src a) c = Receiving src \<and>
        (e = Assert 342 \<and> intp a c
         \<or> e = Hang 24 \<and> (\<forall>i. runnable (proc_table s) i \<and> i \<noteq> c \<longrightarrow>
             p_ticks (proc_table s i) \<le> 0 \<and> p_priority (proc_table s i) \<le> 0))"
proof (cases rule: msg_receive_cases [OF assms, case_names interrupt take wait])
  case interrupt
  have "ipc_rel (s\<lparr>kmem := h, proc_table := (proc_table s)(c := (proc_table s c)\<lparr>has_int_msg := 0\<rparr>)\<rparr>)
      (a\<lparr>intp := (intp a)(c := False)\<rparr>)" for h
    using assms unfolding ipc_rel_def by auto
  with interrupt assms show ?thesis
    by (simp add: msg_receive_interrupt)
next
  case (take ys f zs)
  have "src \<noteq> int c" using assms by (simp add: valid_src_def)
  then obtain t where "msg_receive s c src m = Inr t" "ipc_rel t (spec_release c f a)"
    by (rule msg_receive_take [OF assms(1-6) _ take(1,2,4)])
  moreover have "f \<noteq> c"
    using take(2) ipc_ok_queue(2) [OF assms(2, 4), of f] assms(5) by auto
  then have "stat (spec_release c f a) c = Ready"
    using assms(5) by (simp add: spec_release_def)
  moreover have "ipc_ok (spec_release c f a)"
    using take(2) by (intro ipc_ok_spec_release [OF assms(2, 4)]) simp
  ultimately show ?thesis
    using take(5) by simp
next
  case wait
  have rel': "ipc_rel (waiting s c src m) (spec_receive c src a)"
    using assms wait by (simp add: ipc_rel_waiting)
  have ok': "ipc_ok (spec_receive c src a)"
    using assms wait ipc_ok_wake(2) [of a c src] by simp
  have run: "msg_receive s c src m = bindE (returns 24 (schedule (waiting s c src m)))
      (\<lambda>s'. check 342 (\<not> intp a c) (Inr s'))"
    using assms wait by (intro msg_receive_wait)
  show ?thesis
  proof (cases "schedule (waiting s c src m)")
    case None
    then have "\<not> (\<exists>s'. schedule (waiting s c src m) = Some s')" by simp
    with run wait None show ?thesis
      unfolding schedule_total_iff runnable_waiting by (auto simp: not_less waiting_def)
  next
    case (Some s')
    with run wait(4) rel' ok' show ?thesis
      by (cases "intp a c") (simp_all add: ipc_rel_schedule [OF Some])
  qed
qed

theorem msg_receive_refines_witness:
  "case msg_receive demo_state 5 ANY 0x1000 of
      Inr s' \<Rightarrow> ipc_rel s' (spec_receive 5 ANY boot_ipc) \<and> ipc_ok (spec_receive 5 ANY boot_ipc)
        \<and> (stat (spec_receive 5 ANY boot_ipc) 5 = Receiving ANY \<longrightarrow> \<not> intp boot_ipc 5)
    | Inl e \<Rightarrow> stat (spec_receive 5 ANY boot_ipc) 5 = Receiving ANY \<and>
        (e = Assert 342 \<and> intp boot_ipc 5
         \<or> e = Hang 24 \<and> (\<forall>i. runnable (proc_table demo_state) i \<and> i \<noteq> 5 \<longrightarrow>
             p_ticks (proc_table demo_state i) \<le> 0 \<and> p_priority (proc_table demo_state i) \<le> 0))"
  by (rule msg_receive_refines) (simp_all add: demo_facts valid_src_def)

section \<open>Interrupts refine the specification\<close>

lemma inform_int_deliver:
  assumes rel: "ipc_rel s a" and t: "t < nr_slots" "stat a t = Receiving INTERRUPT \<or> stat a t = Receiving ANY"
  shows "inform_int s t = Inr (s\<lparr>kmem := store32 (store32 (kmem s) (p_msg (proc_table s t) + msg_source_off)
           (word_of_int INTERRUPT)) (p_msg (proc_table s t) + msg_type_off) HARD_INT,
         proc_table := (proc_table s)(t := (proc_table s t)
           \<lparr>p_msg := 0, has_int_msg := 0, p_flags := 0, p_recvfrom := NO_TASK\<rparr>)\<rparr>)"
  using ipc_relD(1) [OF rel t(1)] t(2)
  by (auto simp: inform_int_def Let_def upd_proc_def unblock_def)

lemma inform_int_pend:
  assumes rel: "ipc_rel s a" and t: "t < nr_slots" "\<not> (stat a t = Receiving INTERRUPT \<or> stat a t = Receiving ANY)"
  shows "inform_int s t = Inr (s\<lparr>proc_table := (proc_table s)(t := (proc_table s t)\<lparr>has_int_msg := 1\<rparr>)\<rparr>)"
  using ipc_relD(1) [OF rel t(1)] t(2)
  by (cases "stat a t") (auto simp: inform_int_def Let_def upd_proc_def unblock_def)

lemma inform_int_sim:
  assumes "ipc_rel s a" "ipc_ok a" "t < nr_slots"
  shows "\<exists>s'. inform_int s t = Inr s' \<and> ipc_rel s' (spec_interrupt t a) \<and> ipc_ok (spec_interrupt t a)
    \<and> p_proc_ready s' = p_proc_ready s"
proof (cases "stat a t = Receiving INTERRUPT \<or> stat a t = Receiving ANY")
  case True
  let ?p = "(proc_table s t)\<lparr>p_msg := 0, has_int_msg := 0, p_flags := 0, p_recvfrom := NO_TASK\<rparr>"
  have "slot_rel t ?p Ready"
    using ipc_relD(1) [OF assms(1, 3)] True by auto
  with True show ?thesis
    using ipc_rel_upd [OF assms(1, 3), of ?p Ready] ipc_ok_spec_interrupt [OF assms(2), of t]
    by (simp add: inform_int_deliver [OF assms(1, 3) True] spec_interrupt_def)
next
  case False
  let ?p = "(proc_table s t)\<lparr>has_int_msg := 1\<rparr>"
  have "slot_rel t ?p (stat a t)"
    using ipc_relD(1) [OF assms(1, 3)] by (cases "stat a t") auto
  with False show ?thesis
    using ipc_rel_upd [OF assms(1, 3), of ?p "stat a t" "kmem s"] ipc_ok_spec_interrupt [OF assms(2), of t]
    by (simp add: inform_int_pend [OF assms(1, 3) False] spec_interrupt_def)
qed

text \<open>
  C5. Interrupt delivery refines the specification and cannot fail: \<^verbatim>\<open>inform_int\<close> wakes a task
  that receives from \<^verbatim>\<open>INTERRUPT\<close> or from anyone, and otherwise leaves the interrupt pending
  for the task's next receive, so that no interrupt is lost; it keeps the simulation relation
  and the invariant, and never changes which process runs.
\<close>

theorem inform_int_refines:
  assumes "ipc_rel s a" "ipc_ok a" "t < nr_slots"
  shows "\<exists>s'. inform_int s t = Inr s' \<and> ipc_rel s' (spec_interrupt t a) \<and> ipc_ok (spec_interrupt t a)
    \<and> p_proc_ready s' = p_proc_ready s"
  using assms by (rule inform_int_sim)

theorem inform_int_refines_witness:
  "\<exists>s'. inform_int demo_state 2 = Inr s' \<and> ipc_rel s' (spec_interrupt 2 boot_ipc) \<and>
    ipc_ok (spec_interrupt 2 boot_ipc) \<and> p_proc_ready s' = p_proc_ready demo_state"
  by (rule inform_int_refines) (simp_all add: demo_facts)

end
