(* ===== verification/Ringbuf.thy ===== *)
theory Ringbuf
  imports Dlos_Params
begin

text \<open>
  The interface between an interrupt handler that stores input and the task that consumes it:
  a bounded first-in first-out buffer. The keyboard's scan-code buffer and the terminals'
  input buffers are both rings with a head and a tail index and a count; the lemmas on
  \<open>ring_abs\<close> relate such a ring to the list of what it holds.
\<close>

section \<open>The interface\<close>

locale bounded_fifo =
  fixes inv :: "'b \<Rightarrow> bool" and contents :: "'b \<Rightarrow> 'e list" and capacity :: nat
    and put :: "'e \<Rightarrow> 'b \<Rightarrow> 'b" and get :: "'b \<Rightarrow> ('e \<times> 'b) option"
  assumes put_inv: "inv b \<Longrightarrow> inv (put e b)"
    and put_contents: "inv b \<Longrightarrow>
      contents (put e b) = (if length (contents b) < capacity then contents b @ [e] else contents b)"
    and get_empty: "inv b \<Longrightarrow> contents b = [] \<Longrightarrow> get b = None"
    and get_first: "inv b \<Longrightarrow> contents b = e # es \<Longrightarrow> \<exists>b'. get b = Some (e, b') \<and> inv b' \<and> contents b' = es"
    and within: "inv b \<Longrightarrow> length (contents b) \<le> capacity"
begin

lemma puts_inv: "inv b \<Longrightarrow> inv (fold put es b)"
  by (induction es arbitrary: b) (simp_all add: put_inv)

text \<open>Input that does not fit is dropped, and it is the newest input that is dropped.\<close>

lemma puts_contents:
  "inv b \<Longrightarrow> contents (fold put es b) = contents b @ take (capacity - length (contents b)) es"
proof (induction es arbitrary: b)
  case (Cons e es)
  show ?case
  proof (cases "length (contents b) < capacity")
    case True
    then have "capacity - length (contents b) = Suc (capacity - length (contents (put e b)))"
      using Cons.prems by (simp add: put_contents Suc_diff_Suc)
    with True Cons show ?thesis
      by (simp add: put_inv put_contents)
  next
    case False
    with Cons show ?thesis
      by (simp add: put_inv put_contents)
  qed
qed simp

fun gets :: "nat \<Rightarrow> 'b \<Rightarrow> ('e list \<times> 'b) option" where
  "gets 0 b = Some ([], b)"
| "gets (Suc n) b = (case get b of None \<Rightarrow> None
     | Some (e, b') \<Rightarrow> (case gets n b' of None \<Rightarrow> None | Some (es, b'') \<Rightarrow> Some (e # es, b'')))"

lemma gets_contents:
  "inv b \<Longrightarrow> n \<le> length (contents b) \<Longrightarrow>
   \<exists>b'. gets n b = Some (take n (contents b), b') \<and> inv b' \<and> contents b' = drop n (contents b)"
proof (induction n arbitrary: b)
  case (Suc n)
  then obtain e es where c: "contents b = e # es"
    by (cases "contents b") auto
  then obtain b1 where b1: "get b = Some (e, b1)" "inv b1" "contents b1 = es"
    using Suc.prems get_first by blast
  with Suc c obtain b2 where "gets n b1 = Some (take n es, b2)" "inv b2" "contents b2 = drop n es"
    by fastforce
  with b1 c show ?case by simp
qed simp

end

section \<open>Rings\<close>

definition ring_next :: "nat \<Rightarrow> nat \<Rightarrow> nat" where
  "ring_next n i = (if Suc i = n then 0 else Suc i)"

definition ring_abs :: "'e list \<Rightarrow> nat \<Rightarrow> nat \<Rightarrow> 'e list" where
  "ring_abs buf tail count = map (\<lambda>k. buf ! ((tail + k) mod length buf)) [0..<count]"

definition ring_ok :: "nat \<Rightarrow> 'e list \<Rightarrow> nat \<Rightarrow> nat \<Rightarrow> int \<Rightarrow> bool" where
  "ring_ok n buf head tail count \<longleftrightarrow> 0 < n \<and> length buf = n \<and> tail < n \<and> 0 \<le> count \<and> count \<le> int n \<and>
     head = (tail + nat count) mod n"

lemma ring_next_mod: "i < n \<Longrightarrow> ring_next n i = Suc i mod n"
  by (simp add: ring_next_def)

lemma length_ring_abs [simp]: "length (ring_abs buf tail count) = count"
  by (simp add: ring_abs_def)

lemma ring_abs_0 [simp]: "ring_abs buf tail 0 = []"
  by (simp add: ring_abs_def)

lemma ring_put:
  assumes ok: "ring_ok n buf head tail count" and room: "count < int n"
  shows "ring_ok n (buf[head := e]) (ring_next n head) tail (count + 1)"
    and "ring_abs (buf[head := e]) tail (nat (count + 1)) = ring_abs buf tail (nat count) @ [e]"
proof -
  from ok have n: "0 < n" "length buf = n" "tail < n" "0 \<le> count" and head: "head = (tail + nat count) mod n"
    by (simp_all add: ring_ok_def)
  have count: "nat (count + 1) = Suc (nat count)" using n by simp
  have "head < n" using head n by simp
  then show "ring_ok n (buf[head := e]) (ring_next n head) tail (count + 1)"
    using n room head by (simp add: ring_ok_def ring_next_mod count mod_Suc_eq)
  have "head \<noteq> (tail + k) mod n" if "k < nat count" for k
  proof
    assume "head = (tail + k) mod n"
    then have "(tail + k) mod n = (tail + nat count) mod n" using head by simp
    then have "n dvd nat count - k"
      using that mod_eq_dvd_iff_nat [of "tail + k" "tail + nat count" n] by simp
    moreover have "0 < nat count - k" "nat count - k < n" using that room n by auto
    ultimately show False using nat_dvd_not_less by blast
  qed
  then show "ring_abs (buf[head := e]) tail (nat (count + 1)) = ring_abs buf tail (nat count) @ [e]"
    using n \<open>head < n\<close> head by (simp add: ring_abs_def count)
qed

lemma ring_get:
  assumes ok: "ring_ok n buf head tail count" and some: "0 < count"
  shows "ring_ok n buf head (ring_next n tail) (count - 1)"
    and "ring_abs buf tail (nat count) = buf ! tail # ring_abs buf (ring_next n tail) (nat (count - 1))"
proof -
  from ok have n: "0 < n" "length buf = n" "tail < n" and head: "head = (tail + nat count) mod n"
    and le: "count \<le> int n"
    by (simp_all add: ring_ok_def)
  define m where "m = nat (count - 1)"
  have m: "nat count = Suc m" "nat (count - 1) = m"
    using some by (simp_all add: m_def)
  have step: "(ring_next n tail + k) mod n = (tail + Suc k) mod n" for k
    using n by (simp add: ring_next_mod mod_add_left_eq)
  show "ring_ok n buf head (ring_next n tail) (count - 1)"
    using n some le head step [of m] m by (simp add: ring_ok_def ring_next_mod)
  have "[0..<Suc m] = 0 # map Suc [0..<m]"
    by (simp add: upt_conv_Cons map_Suc_upt)
  then show "ring_abs buf tail (nat count) = buf ! tail # ring_abs buf (ring_next n tail) (nat (count - 1))"
    using n step by (simp add: ring_abs_def m comp_def del: upt_Suc)
qed

end
