(* ===== verification/Keyboard.thy ===== *)
theory Keyboard
  imports Ringbuf
begin

text \<open>
  The keyboard driver of \<^verbatim>\<open>kernel/keyboard.c\<close>: the interrupt handler that stores scan codes
  in a ring of 32 bytes, and \<^verbatim>\<open>keyboard_read\<close>, which turns scan codes into keys with the
  keymap of \<^verbatim>\<open>include/sys/keymap.h\<close>. While \<^verbatim>\<open>get_byte_from_kbuf\<close> waits for a byte the interrupt
  handler keeps running: the scan codes that arrive during a call are an argument of the model,
  and waiting for a byte that never comes is a \<^const>\<open>Hang\<close>. The bytes written to the
  keyboard controller are collected in \<open>led_out\<close>; the controller is taken to answer.
\<close>

section \<open>Key codes (\<^verbatim>\<open>include/sys/keyboard.h\<close>)\<close>

abbreviation (input) FLAG_BREAK :: u8 where "FLAG_BREAK \<equiv> 0x80"
abbreviation (input) FLAG_EXT :: u32 where "FLAG_EXT \<equiv> 0x0100"
abbreviation (input) FLAG_SHIFT_L :: u32 where "FLAG_SHIFT_L \<equiv> 0x0200"
abbreviation (input) FLAG_SHIFT_R :: u32 where "FLAG_SHIFT_R \<equiv> 0x0400"
abbreviation (input) FLAG_CTRL_L :: u32 where "FLAG_CTRL_L \<equiv> 0x0800"
abbreviation (input) FLAG_CTRL_R :: u32 where "FLAG_CTRL_R \<equiv> 0x1000"
abbreviation (input) FLAG_ALT_L :: u32 where "FLAG_ALT_L \<equiv> 0x2000"
abbreviation (input) FLAG_ALT_R :: u32 where "FLAG_ALT_R \<equiv> 0x4000"
abbreviation (input) FLAG_PAD :: u32 where "FLAG_PAD \<equiv> 0x8000"
abbreviation (input) MASK_RAW :: u32 where "MASK_RAW \<equiv> 0x01FF"
abbreviation (input) ESC :: u32 where "ESC \<equiv> 0x101"
abbreviation (input) TAB :: u32 where "TAB \<equiv> 0x102"
abbreviation (input) ENTER :: u32 where "ENTER \<equiv> 0x103"
abbreviation (input) BACKSPACE :: u32 where "BACKSPACE \<equiv> 0x104"
abbreviation (input) GUI_L :: u32 where "GUI_L \<equiv> 0x105"
abbreviation (input) GUI_R :: u32 where "GUI_R \<equiv> 0x106"
abbreviation (input) APPS :: u32 where "APPS \<equiv> 0x107"
abbreviation (input) SHIFT_L :: u32 where "SHIFT_L \<equiv> 0x108"
abbreviation (input) SHIFT_R :: u32 where "SHIFT_R \<equiv> 0x109"
abbreviation (input) CTRL_L :: u32 where "CTRL_L \<equiv> 0x10a"
abbreviation (input) CTRL_R :: u32 where "CTRL_R \<equiv> 0x10b"
abbreviation (input) ALT_L :: u32 where "ALT_L \<equiv> 0x10c"
abbreviation (input) ALT_R :: u32 where "ALT_R \<equiv> 0x10d"
abbreviation (input) CAPS_LOCK :: u32 where "CAPS_LOCK \<equiv> 0x10e"
abbreviation (input) NUM_LOCK :: u32 where "NUM_LOCK \<equiv> 0x10f"
abbreviation (input) SCROLL_LOCK :: u32 where "SCROLL_LOCK \<equiv> 0x110"
abbreviation (input) F1 :: u32 where "F1 \<equiv> 0x111"
abbreviation (input) F2 :: u32 where "F2 \<equiv> 0x112"
abbreviation (input) F3 :: u32 where "F3 \<equiv> 0x113"
abbreviation (input) F4 :: u32 where "F4 \<equiv> 0x114"
abbreviation (input) F5 :: u32 where "F5 \<equiv> 0x115"
abbreviation (input) F6 :: u32 where "F6 \<equiv> 0x116"
abbreviation (input) F7 :: u32 where "F7 \<equiv> 0x117"
abbreviation (input) F8 :: u32 where "F8 \<equiv> 0x118"
abbreviation (input) F9 :: u32 where "F9 \<equiv> 0x119"
abbreviation (input) F10 :: u32 where "F10 \<equiv> 0x11a"
abbreviation (input) F11 :: u32 where "F11 \<equiv> 0x11b"
abbreviation (input) F12 :: u32 where "F12 \<equiv> 0x11c"
abbreviation (input) PRINTSCREEN :: u32 where "PRINTSCREEN \<equiv> 0x11d"
abbreviation (input) PAUSEBREAK :: u32 where "PAUSEBREAK \<equiv> 0x11e"
abbreviation (input) INSERT :: u32 where "INSERT \<equiv> 0x11f"
abbreviation (input) DELETE :: u32 where "DELETE \<equiv> 0x120"
abbreviation (input) HOME :: u32 where "HOME \<equiv> 0x121"
abbreviation (input) END :: u32 where "END \<equiv> 0x122"
abbreviation (input) PAGEUP :: u32 where "PAGEUP \<equiv> 0x123"
abbreviation (input) PAGEDOWN :: u32 where "PAGEDOWN \<equiv> 0x124"
abbreviation (input) UP :: u32 where "UP \<equiv> 0x125"
abbreviation (input) DOWN :: u32 where "DOWN \<equiv> 0x126"
abbreviation (input) LEFT :: u32 where "LEFT \<equiv> 0x127"
abbreviation (input) RIGHT :: u32 where "RIGHT \<equiv> 0x128"
abbreviation (input) POWER :: u32 where "POWER \<equiv> 0x129"
abbreviation (input) SLEEP :: u32 where "SLEEP \<equiv> 0x12a"
abbreviation (input) WAKE :: u32 where "WAKE \<equiv> 0x12b"
abbreviation (input) PAD_SLASH :: u32 where "PAD_SLASH \<equiv> 0x12c"
abbreviation (input) PAD_STAR :: u32 where "PAD_STAR \<equiv> 0x12d"
abbreviation (input) PAD_MINUS :: u32 where "PAD_MINUS \<equiv> 0x12e"
abbreviation (input) PAD_PLUS :: u32 where "PAD_PLUS \<equiv> 0x12f"
abbreviation (input) PAD_ENTER :: u32 where "PAD_ENTER \<equiv> 0x130"
abbreviation (input) PAD_DOT :: u32 where "PAD_DOT \<equiv> 0x131"
abbreviation (input) PAD_0 :: u32 where "PAD_0 \<equiv> 0x132"
abbreviation (input) PAD_1 :: u32 where "PAD_1 \<equiv> 0x133"
abbreviation (input) PAD_2 :: u32 where "PAD_2 \<equiv> 0x134"
abbreviation (input) PAD_3 :: u32 where "PAD_3 \<equiv> 0x135"
abbreviation (input) PAD_4 :: u32 where "PAD_4 \<equiv> 0x136"
abbreviation (input) PAD_5 :: u32 where "PAD_5 \<equiv> 0x137"
abbreviation (input) PAD_6 :: u32 where "PAD_6 \<equiv> 0x138"
abbreviation (input) PAD_7 :: u32 where "PAD_7 \<equiv> 0x139"
abbreviation (input) PAD_8 :: u32 where "PAD_8 \<equiv> 0x13a"
abbreviation (input) PAD_9 :: u32 where "PAD_9 \<equiv> 0x13b"
abbreviation (input) PAD_UP :: u32 where "PAD_UP \<equiv> 0x13a"
abbreviation (input) PAD_DOWN :: u32 where "PAD_DOWN \<equiv> 0x134"
abbreviation (input) PAD_LEFT :: u32 where "PAD_LEFT \<equiv> 0x136"
abbreviation (input) PAD_RIGHT :: u32 where "PAD_RIGHT \<equiv> 0x138"
abbreviation (input) PAD_HOME :: u32 where "PAD_HOME \<equiv> 0x139"
abbreviation (input) PAD_END :: u32 where "PAD_END \<equiv> 0x133"
abbreviation (input) PAD_PAGEUP :: u32 where "PAD_PAGEUP \<equiv> 0x13b"
abbreviation (input) PAD_PAGEDOWN :: u32 where "PAD_PAGEDOWN \<equiv> 0x135"
abbreviation (input) PAD_INS :: u32 where "PAD_INS \<equiv> 0x132"
abbreviation (input) PAD_MID :: u32 where "PAD_MID \<equiv> 0x137"
abbreviation (input) PAD_DEL :: u32 where "PAD_DEL \<equiv> 0x131"

section \<open>The keymap\<close>

text \<open>Three columns per scan code: plain, with shift, after the prefix \<^verbatim>\<open>E0\<close>.\<close>

definition keymap :: "u32 list" where
  "keymap =
     [0, 0, 0, ESC, ESC, 0, 0x31, 0x21, 0, 0x32, 0x40, 0,
      0x33, 0x23, 0, 0x34, 0x24, 0, 0x35, 0x25, 0, 0x36, 0x5e, 0,
      0x37, 0x26, 0, 0x38, 0x2a, 0, 0x39, 0x28, 0, 0x30, 0x29, 0,
      0x2d, 0x5f, 0, 0x3d, 0x2b, 0, BACKSPACE, BACKSPACE, 0, TAB, TAB, 0,
      0x71, 0x51, 0, 0x77, 0x57, 0, 0x65, 0x45, 0, 0x72, 0x52, 0,
      0x74, 0x54, 0, 0x79, 0x59, 0, 0x75, 0x55, 0, 0x69, 0x49, 0,
      0x6f, 0x4f, 0, 0x70, 0x50, 0, 0x5b, 0x7b, 0, 0x5d, 0x7d, 0,
      ENTER, ENTER, PAD_ENTER, CTRL_L, CTRL_L, CTRL_R, 0x61, 0x41, 0, 0x73, 0x53, 0,
      0x64, 0x44, 0, 0x66, 0x46, 0, 0x67, 0x47, 0, 0x68, 0x48, 0,
      0x6a, 0x4a, 0, 0x6b, 0x4b, 0, 0x6c, 0x4c, 0, 0x3b, 0x3a, 0,
      0x27, 0x22, 0, 0x60, 0x7e, 0, SHIFT_L, SHIFT_L, 0, 0x5c, 0x7c, 0,
      0x7a, 0x5a, 0, 0x78, 0x58, 0, 0x63, 0x43, 0, 0x76, 0x56, 0,
      0x62, 0x42, 0, 0x6e, 0x4e, 0, 0x6d, 0x4d, 0, 0x2c, 0x3c, 0,
      0x2e, 0x3e, 0, 0x2f, 0x3f, PAD_SLASH, SHIFT_R, SHIFT_R, 0, 0x2a, 0x2a, 0,
      ALT_L, ALT_L, ALT_R, 0x20, 0x20, 0, CAPS_LOCK, CAPS_LOCK, 0, F1, F1, 0,
      F2, F2, 0, F3, F3, 0, F4, F4, 0, F5, F5, 0,
      F6, F6, 0, F7, F7, 0, F8, F8, 0, F9, F9, 0,
      F10, F10, 0, NUM_LOCK, NUM_LOCK, 0, SCROLL_LOCK, SCROLL_LOCK, 0, PAD_HOME, 0x37, HOME,
      PAD_UP, 0x38, UP, PAD_PAGEUP, 0x39, PAGEUP, PAD_MINUS, 0x2d, 0, PAD_LEFT, 0x34, LEFT,
      PAD_MID, 0x35, 0, PAD_RIGHT, 0x36, RIGHT, PAD_PLUS, 0x2b, 0, PAD_END, 0x31, END,
      PAD_DOWN, 0x32, DOWN, PAD_PAGEDOWN, 0x33, PAGEDOWN, PAD_INS, 0x30, INSERT, PAD_DOT, 0x2e, DELETE,
      0, 0, 0, 0, 0, 0, 0, 0, 0, F11, F11, 0,
      F12, F12, 0, 0, 0, 0, 0, 0, 0, 0, 0, GUI_L,
      0, 0, GUI_R, 0, 0, APPS, 0, 0, 0, 0, 0, 0,
      0, 0, 0, 0, 0, 0, 0, 0, 0, 0, 0, 0,
      0, 0, 0, 0, 0, 0, 0, 0, 0, 0, 0, 0,
      0, 0, 0, 0, 0, 0, 0, 0, 0, 0, 0, 0,
      0, 0, 0, 0, 0, 0, 0, 0, 0, 0, 0, 0,
      0, 0, 0, 0, 0, 0, 0, 0, 0, 0, 0, 0,
      0, 0, 0, 0, 0, 0, 0, 0, 0, 0, 0, 0,
      0, 0, 0, 0, 0, 0, 0, 0, 0, 0, 0, 0,
      0, 0, 0, 0, 0, 0, 0, 0, 0, 0, 0, 0]"

section \<open>State\<close>

record kb_input =
  kb_head :: nat
  kb_tail :: nat
  kb_count :: int
  kb_buf :: "u8 list"

record keyboard =
  kb_in :: kb_input
  code_with_E0 :: int
  shift_l :: int
  shift_r :: int
  alt_l :: int
  alt_r :: int
  ctrl_l :: int
  ctrl_r :: int
  caps_lock :: int
  num_lock :: int
  scroll_lock :: int
  column :: nat
  led_out :: "u8 list"

section \<open>The scan-code buffer\<close>

definition kb_store :: "u8 \<Rightarrow> kb_input \<Rightarrow> kb_input" where
  "kb_store scan_code kb =
     (if kb_count kb < int KB_IN_BYTES then
        let kb = kb\<lparr>kb_buf := (kb_buf kb)[kb_head kb := scan_code]\<rparr>;
            kb = kb\<lparr>kb_head := kb_head kb + 1\<rparr>;
            kb = (if kb_head kb = KB_IN_BYTES then kb\<lparr>kb_head := 0\<rparr> else kb)
        in kb\<lparr>kb_count := kb_count kb + 1\<rparr>
      else kb)"

text \<open>The handler also sets \<^verbatim>\<open>key_pressed\<close>, the second component of its result.\<close>

definition keyboard_handler :: "u8 \<Rightarrow> keyboard \<Rightarrow> keyboard \<times> int" where
  "keyboard_handler scan_code k = (k\<lparr>kb_in := kb_store scan_code (kb_in k)\<rparr>, 1)"

definition kb_take :: "kb_input \<Rightarrow> (u8 \<times> kb_input) option" where
  "kb_take kb =
     (if kb_count kb \<le> 0 then None
      else let scan_code = kb_buf kb ! kb_tail kb;
               kb = kb\<lparr>kb_tail := kb_tail kb + 1\<rparr>;
               kb = (if kb_tail kb = KB_IN_BYTES then kb\<lparr>kb_tail := 0\<rparr> else kb)
           in Some (scan_code, kb\<lparr>kb_count := kb_count kb - 1\<rparr>))"

definition get_byte_from_kbuf :: "u8 list \<Rightarrow> kb_input \<Rightarrow> (u8 \<times> u8 list \<times> kb_input) result" where
  "get_byte_from_kbuf arrivals kb =
     (case kb_take kb of
        Some (c, kb) \<Rightarrow> Inr (c, arrivals, kb)
      | None \<Rightarrow> (case arrivals of
           [] \<Rightarrow> Inl (Hang 272)
         | a # arrivals \<Rightarrow> (case kb_take (kb_store a kb) of
              Some (c, kb) \<Rightarrow> Inr (c, arrivals, kb)
            | None \<Rightarrow> Inl (Hang 272))))"

definition set_leds :: "keyboard \<Rightarrow> keyboard" where
  "set_leds k =
     k\<lparr>led_out := led_out k @
        [0xED, word_of_int (4 * caps_lock k) OR word_of_int (2 * num_lock k) OR word_of_int (scroll_lock k)]\<rparr>"

definition init_keyboard :: "keyboard \<Rightarrow> keyboard" where
  "init_keyboard k =
     set_leds (k\<lparr>kb_in := (kb_in k)\<lparr>kb_count := 0, kb_head := 0, kb_tail := 0\<rparr>,
       shift_l := 0, shift_r := 0, alt_l := 0, alt_r := 0, ctrl_l := 0, ctrl_r := 0,
       caps_lock := 0, num_lock := 1, scroll_lock := 0\<rparr>)"

section \<open>From scan codes to keys\<close>

text \<open>The loop that recognises the Pause key: \<^verbatim>\<open>is_pausebreak\<close>.\<close>

fun match_bytes :: "u8 list \<Rightarrow> u8 list \<Rightarrow> kb_input \<Rightarrow> (bool \<times> u8 list \<times> kb_input) result" where
  "match_bytes [] arrivals kb = Inr (True, arrivals, kb)"
| "match_bytes (p # ps) arrivals kb =
     bindE (get_byte_from_kbuf arrivals kb) (\<lambda>(c, arrivals, kb).
       if c \<noteq> p then Inr (False, arrivals, kb) else match_bytes ps arrivals kb)"

text \<open>Lines 78 to 119: the scan code, the key when it is Pause or Print Screen, and whether the
  code was prefixed by \<^verbatim>\<open>E0\<close>.\<close>

definition read_scan_code :: "u8 list \<Rightarrow> kb_input \<Rightarrow> (u8 \<times> u32 \<times> int \<times> u8 list \<times> kb_input) result" where
  "read_scan_code arrivals kb =
     bindE (get_byte_from_kbuf arrivals kb) (\<lambda>(scan_code, arrivals, kb).
       if scan_code = 0xE1 then
         bindE (match_bytes [0x1D, 0x45, 0xE1, 0x9D, 0xC5] arrivals kb) (\<lambda>(is_pausebreak, arrivals, kb).
           Inr (scan_code, if is_pausebreak then PAUSEBREAK else 0, 0, arrivals, kb))
       else if scan_code = 0xE0 then
         bindE (get_byte_from_kbuf arrivals kb) (\<lambda>(scan_code, arrivals, kb).
         bindE (if scan_code = 0x2A then match_bytes [0xE0, 0x37] arrivals kb
                else if scan_code = 0xB7 then match_bytes [0xE0, 0xAA] arrivals kb
                else Inr (False, arrivals, kb)) (\<lambda>(is_printscreen, arrivals, kb).
           Inr (scan_code, if is_printscreen then PRINTSCREEN else 0, if is_printscreen then 0 else 1,
                arrivals, kb)))
       else Inr (scan_code, 0, 0, arrivals, kb))"

definition set_modifier :: "u32 \<Rightarrow> int \<Rightarrow> keyboard \<Rightarrow> keyboard" where
  "set_modifier key mk k =
     (if key = SHIFT_L then k\<lparr>shift_l := mk\<rparr>
      else if key = SHIFT_R then k\<lparr>shift_r := mk\<rparr>
      else if key = CTRL_L then k\<lparr>ctrl_l := mk\<rparr>
      else if key = CTRL_R then k\<lparr>ctrl_r := mk\<rparr>
      else if key = ALT_L then k\<lparr>alt_l := mk\<rparr>
      else if key = ALT_R then k\<lparr>alt_r := mk\<rparr>
      else if key = CAPS_LOCK then
        (if mk \<noteq> 0 then set_leds (k\<lparr>caps_lock := (if caps_lock k = 0 then 1 else 0)\<rparr>) else k)
      else if key = NUM_LOCK then
        (if mk \<noteq> 0 then set_leds (k\<lparr>num_lock := (if num_lock k = 0 then 1 else 0)\<rparr>) else k)
      else if key = SCROLL_LOCK then
        (if mk \<noteq> 0 then set_leds (k\<lparr>scroll_lock := (if scroll_lock k = 0 then 1 else 0)\<rparr>) else k)
      else k)"

definition pad_key :: "int \<Rightarrow> u32 \<Rightarrow> u32" where
  "pad_key nl key =
     (if key = PAD_SLASH then 0x2F
      else if key = PAD_STAR then 0x2A
      else if key = PAD_MINUS then 0x2D
      else if key = PAD_PLUS then 0x2B
      else if key = PAD_ENTER then ENTER
      else if nl \<noteq> 0 then
        (if PAD_0 \<le> key \<and> key \<le> PAD_9 then key - PAD_0 + 0x30
         else if key = PAD_DOT then 0x2E else key)
      else if key = PAD_HOME then HOME
      else if key = PAD_END then END
      else if key = PAD_PAGEUP then PAGEUP
      else if key = PAD_PAGEDOWN then PAGEDOWN
      else if key = PAD_INS then INSERT
      else if key = PAD_UP then UP
      else if key = PAD_DOWN then DOWN
      else if key = PAD_LEFT then LEFT
      else if key = PAD_RIGHT then RIGHT
      else if key = PAD_DOT then DELETE
      else key)"

definition key_flags :: "keyboard \<Rightarrow> bool \<Rightarrow> u32" where
  "key_flags k pad =
     (if shift_l k \<noteq> 0 then FLAG_SHIFT_L else 0) OR (if shift_r k \<noteq> 0 then FLAG_SHIFT_R else 0) OR
     (if ctrl_l k \<noteq> 0 then FLAG_CTRL_L else 0) OR (if ctrl_r k \<noteq> 0 then FLAG_CTRL_R else 0) OR
     (if alt_l k \<noteq> 0 then FLAG_ALT_L else 0) OR (if alt_r k \<noteq> 0 then FLAG_ALT_R else 0) OR
     (if pad then FLAG_PAD else 0)"

text \<open>Lines 121 to 140: the column of the keymap.\<close>

definition key_column :: "keyboard \<Rightarrow> u8 \<Rightarrow> nat" where
  "key_column k scan_code =
     (let key0 = keymap ! (unat (scan_code AND 0x7F) * MAP_COLS);
          caps = (shift_l k \<noteq> 0 \<or> shift_r k \<noteq> 0);
          caps = (if caps_lock k \<noteq> 0 \<and> 0x61 \<le> key0 \<and> key0 \<le> 0x7A then \<not> caps else caps)
      in if code_with_E0 k \<noteq> 0 then 2 else if caps then 1 else 0)"

text \<open>\<^verbatim>\<open>keyboard_read\<close>, with the argument of its call of \<^verbatim>\<open>in_process\<close>, if it makes that call.\<close>

definition keyboard_read :: "u8 list \<Rightarrow> keyboard \<Rightarrow> (u32 option \<times> u8 list \<times> keyboard) result" where
  "keyboard_read arrivals k =
     (if kb_count (kb_in k) > 0 then
        bindE (read_scan_code arrivals (kb_in k)) (\<lambda>(scan_code, key, e0, arrivals, kb).
          let k = k\<lparr>kb_in := kb, code_with_E0 := e0\<rparr>
          in if key \<noteq> PAUSEBREAK \<and> key \<noteq> PRINTSCREEN then
               let mk = (if scan_code AND FLAG_BREAK \<noteq> 0 then 0 else 1);
                   col = key_column k scan_code;
                   k = k\<lparr>column := col, code_with_E0 := 0\<rparr>;
                   key = keymap ! (unat (scan_code AND 0x7F) * MAP_COLS + col);
                   k = set_modifier key mk k
               in if mk \<noteq> 0 then
                    let pad = (PAD_SLASH \<le> key \<and> key \<le> PAD_9);
                        key = (if pad then pad_key (num_lock k) key else key)
                    in Inr (Some (key OR key_flags k pad), arrivals, k)
                  else Inr (None, arrivals, k)
             else Inr (None, arrivals, k))
      else Inr (None, arrivals, k))"

section \<open>The buffer is a bounded queue\<close>

definition kb_ok :: "kb_input \<Rightarrow> bool" where
  "kb_ok kb \<longleftrightarrow> ring_ok KB_IN_BYTES (kb_buf kb) (kb_head kb) (kb_tail kb) (kb_count kb)"

definition kb_contents :: "kb_input \<Rightarrow> u8 list" where
  "kb_contents kb = ring_abs (kb_buf kb) (kb_tail kb) (nat (kb_count kb))"

lemma kb_store_ring:
  "kb_count kb < 32 \<Longrightarrow> kb_store c kb = kb\<lparr>kb_buf := (kb_buf kb)[kb_head kb := c],
     kb_head := ring_next 32 (kb_head kb), kb_count := kb_count kb + 1\<rparr>"
  by (simp add: kb_store_def ring_next_def Let_def)

lemma kb_take_ring:
  "0 < kb_count kb \<Longrightarrow> kb_take kb = Some (kb_buf kb ! kb_tail kb,
     kb\<lparr>kb_tail := ring_next 32 (kb_tail kb), kb_count := kb_count kb - 1\<rparr>)"
  by (simp add: kb_take_def ring_next_def Let_def)

interpretation kb: bounded_fifo kb_ok kb_contents KB_IN_BYTES kb_store kb_take
proof unfold_locales
  fix kb c
  assume ok: "kb_ok kb"
  then have pos: "0 \<le> kb_count kb" by (simp add: kb_ok_def ring_ok_def)
  show "kb_ok (kb_store c kb)"
  proof (cases "kb_count kb < 32")
    case True
    with ok ring_put(1) [of 32] show ?thesis by (simp add: kb_store_ring kb_ok_def)
  qed (use ok in \<open>simp add: kb_store_def\<close>)
  show "kb_contents (kb_store c kb)
      = (if length (kb_contents kb) < KB_IN_BYTES then kb_contents kb @ [c] else kb_contents kb)"
  proof (cases "kb_count kb < 32")
    case True
    with ok pos ring_put(2) [of 32] show ?thesis by (simp add: kb_store_ring kb_ok_def kb_contents_def nat_less_iff)
  qed (use ok in \<open>simp add: kb_store_def kb_contents_def kb_ok_def ring_ok_def nat_less_iff\<close>)
  show "kb_take kb = None" if "kb_contents kb = []"
  proof -
    have "length (kb_contents kb) = 0" using that by simp
    then show ?thesis by (simp add: kb_take_def kb_contents_def)
  qed
  show "\<exists>b'. kb_take kb = Some (c, b') \<and> kb_ok b' \<and> kb_contents b' = cs" if c: "kb_contents kb = c # cs" for cs
  proof -
    have "0 < length (kb_contents kb)" using c by simp
    then have "0 < kb_count kb" by (simp add: kb_contents_def)
    with ok c ring_get [of 32 "kb_buf kb" "kb_head kb" "kb_tail kb" "kb_count kb"] show ?thesis
      by (simp add: kb_take_ring kb_ok_def kb_contents_def)
  qed
  show "length (kb_contents kb) \<le> KB_IN_BYTES"
    using ok by (simp add: kb_contents_def kb_ok_def ring_ok_def nat_le_iff)
qed

text \<open>
  The scan-code buffer loses nothing and reorders nothing until it is full: after any
  sequence of keyboard interrupts it holds what it held before followed by the new codes, as many
  as fit into its 32 bytes, and the newest codes are the ones dropped.
\<close>

theorem keyboard_buffer_fifo:
  assumes "kb_ok kb"
  shows "kb_ok (fold kb_store codes kb) \<and>
    kb_contents (fold kb_store codes kb)
      = kb_contents kb @ take (KB_IN_BYTES - length (kb_contents kb)) codes"
  using kb.puts_inv [OF assms] kb.puts_contents [OF assms] by blast

text \<open>What the reader sees: the bytes in the buffer and then those that arrive while it waits.\<close>

lemma get_byte_stream:
  assumes ok: "kb_ok kb" and s: "kb_contents kb @ arrivals = c # rest"
  obtains arrivals' kb' where "get_byte_from_kbuf arrivals kb = Inr (c, arrivals', kb')"
    "kb_ok kb'" "kb_contents kb' @ arrivals' = rest"
proof (cases "kb_contents kb")
  case Nil
  with s have a: "arrivals = c # rest" by simp
  have "kb_contents (kb_store c kb) = [c]"
    using kb.put_contents [OF ok, of c] Nil by simp
  with kb.get_first [OF kb.put_inv [OF ok]] obtain kb' where
    "kb_take (kb_store c kb) = Some (c, kb')" "kb_ok kb'" "kb_contents kb' = []" by metis
  with that [of rest kb'] a kb.get_empty [OF ok Nil] show thesis
    by (simp add: get_byte_from_kbuf_def)
next
  case (Cons x cs)
  with s have "x = c" by simp
  with kb.get_first [OF ok Cons] obtain kb' where
    "kb_take kb = Some (c, kb')" "kb_ok kb'" "kb_contents kb' = cs" by metis
  with that [of arrivals kb'] Cons s show thesis
    by (simp add: get_byte_from_kbuf_def)
qed

lemma match_bytes_stream:
  assumes "kb_ok kb" "kb_contents kb @ arrivals = ps @ rest"
  obtains arrivals' kb' where "match_bytes ps arrivals kb = Inr (True, arrivals', kb')"
    "kb_ok kb'" "kb_contents kb' @ arrivals' = rest"
  using assms
proof (induction ps arbitrary: kb arrivals thesis)
  case Nil
  then show ?case by simp
next
  case (Cons p ps)
  then have "kb_contents kb @ arrivals = p # (ps @ rest)" by simp
  then obtain a kb' where g: "get_byte_from_kbuf arrivals kb = Inr (p, a, kb')" "kb_ok kb'"
    "kb_contents kb' @ a = ps @ rest"
    by (rule get_byte_stream [OF Cons.prems(2)])
  then obtain a' kb'' where "match_bytes ps a kb' = Inr (True, a', kb'')" "kb_ok kb''" "kb_contents kb'' @ a' = rest"
    using Cons.IH by blast
  with Cons.prems(1) g show ?case by simp
qed

lemma get_byte_consumes:
  assumes ok: "kb_ok kb" and run: "get_byte_from_kbuf arrivals kb = Inr (c, arrivals', kb')"
  shows "kb_ok kb' \<and> kb_contents kb @ arrivals = c # kb_contents kb' @ arrivals'"
proof (cases "kb_contents kb @ arrivals")
  case Nil
  with kb.get_empty [OF ok] run show ?thesis
    by (simp add: get_byte_from_kbuf_def)
next
  case (Cons x rest)
  with get_byte_stream [OF ok Cons] run show ?thesis by fastforce
qed

lemma match_bytes_consumes:
  "kb_ok kb \<Longrightarrow> match_bytes ps arrivals kb = Inr (m, arrivals', kb') \<Longrightarrow>
   kb_ok kb' \<and> length (kb_contents kb' @ arrivals') \<le> length (kb_contents kb @ arrivals)"
proof (induction ps arrivals kb rule: match_bytes.induct)
  case (1 arrivals kb)
  then show ?case by simp
next
  case (2 p ps arrivals kb)
  from 2(3) obtain c a kb1 where g: "get_byte_from_kbuf arrivals kb = Inr (c, a, kb1)"
    by (auto simp: bindE_eq_Inr)
  with get_byte_consumes [OF 2(2)]
  have s: "kb_ok kb1" "kb_contents kb @ arrivals = c # kb_contents kb1 @ a" by blast+
  then have "length (kb_contents kb @ arrivals) = Suc (length (kb_contents kb1 @ a))" by simp
  with 2 g s show ?case by (fastforce split: if_splits)
qed

lemma read_scan_code_consumes:
  assumes ok: "kb_ok kb" and run: "read_scan_code arrivals kb = Inr (sc, key, e0, arrivals', kb')"
  shows "kb_ok kb' \<and> length (kb_contents kb' @ arrivals') < length (kb_contents kb @ arrivals)"
proof -
  from run obtain c a kb1 where g: "get_byte_from_kbuf arrivals kb = Inr (c, a, kb1)"
    by (auto simp: read_scan_code_def bindE_eq_Inr)
  with get_byte_consumes [OF ok]
  have s: "kb_ok kb1" "kb_contents kb @ arrivals = c # kb_contents kb1 @ a" by blast+
  then have len: "length (kb_contents kb @ arrivals) = Suc (length (kb_contents kb1 @ a))" by simp
  consider "c = 0xE1" | "c = 0xE0" | "c \<noteq> 0xE1" "c \<noteq> 0xE0" by blast
  then show ?thesis
  proof cases
    case 1
    with run g obtain m where "match_bytes [0x1D, 0x45, 0xE1, 0x9D, 0xC5] a kb1 = Inr (m, arrivals', kb')"
      by (auto simp del: match_bytes.simps simp add: read_scan_code_def bindE_eq_Inr)
    with match_bytes_consumes [OF s(1) this] len show ?thesis by simp
  next
    case 2
    with run g obtain c2 a2 kb2 m where g2: "get_byte_from_kbuf a kb1 = Inr (c2, a2, kb2)"
      and m: "match_bytes [0xE0, 0x37] a2 kb2 = Inr (m, arrivals', kb') \<or>
        match_bytes [0xE0, 0xAA] a2 kb2 = Inr (m, arrivals', kb') \<or> (arrivals' = a2 \<and> kb' = kb2)"
      by (auto simp del: match_bytes.simps simp add: read_scan_code_def bindE_eq_Inr split: if_splits)
    with get_byte_consumes [OF s(1)]
    have s2: "kb_ok kb2" "kb_contents kb1 @ a = c2 # kb_contents kb2 @ a2" by blast+
    then have "length (kb_contents kb1 @ a) = Suc (length (kb_contents kb2 @ a2))" by simp
    with m s2(1) match_bytes_consumes [OF s2(1)] len show ?thesis by fastforce
  next
    case 3
    with run g s(1) len show ?thesis by (simp add: read_scan_code_def)
  qed
qed

lemma set_modifier_kb_in [simp]: "kb_in (set_modifier key mk k) = kb_in k"
  by (simp add: set_modifier_def set_leds_def)

lemma keyboard_read_consumes:
  assumes "kb_ok (kb_in k)" "keyboard_read arrivals k = Inr (r, arrivals', k')"
  shows "kb_ok (kb_in k') \<and>
    (if kb_contents (kb_in k) = [] then r = None \<and> arrivals' = arrivals \<and> k' = k
     else length (kb_contents (kb_in k') @ arrivals') < length (kb_contents (kb_in k) @ arrivals))"
proof (cases "kb_count (kb_in k) > 0")
  case True
  then have "length (kb_contents (kb_in k)) \<noteq> 0" by (simp add: kb_contents_def)
  moreover from True assms(2) obtain sc key e0 where
    "read_scan_code arrivals (kb_in k) = Inr (sc, key, e0, arrivals', kb_in k')"
    by (auto simp: keyboard_read_def bindE_eq_Inr Let_def split: if_splits)
  note read_scan_code_consumes [OF assms(1) this]
  ultimately show ?thesis by simp
next
  case False
  then have "length (kb_contents (kb_in k)) = 0" by (simp add: kb_contents_def)
  with False assms show ?thesis by (simp add: keyboard_read_def)
qed

text \<open>The driver stops only to wait for the rest of a multi-byte scan code.\<close>

lemma get_byte_fault: "get_byte_from_kbuf arrivals kb = Inl e \<Longrightarrow> e = Hang 272"
  by (auto simp: get_byte_from_kbuf_def split: option.splits list.splits)

lemma bindE_fault:
  "bindE r f = Inl e \<Longrightarrow> (\<And>e. r = Inl e \<Longrightarrow> e = e0) \<Longrightarrow> (\<And>x. r = Inr x \<Longrightarrow> f x = Inl e \<Longrightarrow> e = e0) \<Longrightarrow> e = e0"
  by (cases r) simp_all

lemma match_bytes_fault: "match_bytes ps arrivals kb = Inl e \<Longrightarrow> e = Hang 272"
proof (induction ps arrivals kb rule: match_bytes.induct)
  case (2 p ps arrivals kb)
  show ?case
  proof (rule bindE_fault [OF 2(2) [unfolded match_bytes.simps]])
    fix x
    assume x: "get_byte_from_kbuf arrivals kb = Inr x"
      "(case x of (c, arrivals, kb) \<Rightarrow> if c \<noteq> p then Inr (False, arrivals, kb) else match_bytes ps arrivals kb) = Inl e"
    obtain c arr kb' where [simp]: "x = (c, arr, kb')" by (cases x)
    from x(2) show "e = Hang 272"
      using 2(1) by (auto split: if_splits)
  qed (rule get_byte_fault)
qed simp

lemma read_scan_code_fault: "read_scan_code arrivals kb = Inl e \<Longrightarrow> e = Hang 272"
  unfolding read_scan_code_def
  by (elim bindE_fault) (auto split: prod.splits if_splits elim!: bindE_fault simp del: match_bytes.simps dest: get_byte_fault match_bytes_fault)

lemma keyboard_read_fault: "keyboard_read arrivals k = Inl e \<Longrightarrow> e = Hang 272"
  by (auto simp: keyboard_read_def Let_def split: if_splits prod.splits elim!: bindE_fault dest: read_scan_code_fault)

text \<open>
  Every call of \<^verbatim>\<open>keyboard_read\<close> that finds a byte makes progress: it keeps the buffer
  well-formed and consumes at least one byte of what was there or arrived meanwhile, so the
  terminal task's polling loop drains the buffer; with an empty buffer it does nothing.
\<close>

theorem keyboard_read_progress:
  assumes "kb_ok (kb_in k)" "keyboard_read arrivals k = Inr (r, arrivals', k')"
  shows "kb_ok (kb_in k') \<and>
    (if kb_contents (kb_in k) = [] then r = None \<and> arrivals' = arrivals \<and> k' = k
     else length (kb_contents (kb_in k') @ arrivals') < length (kb_contents (kb_in k) @ arrivals))"
  by (rule keyboard_read_consumes [OF assms])

section \<open>Keys\<close>

lemma keymap_length: "length keymap = 384"
  by (simp add: keymap_def)

lemma keymap_raw: "list_all (\<lambda>key. key < 0x200) keymap"
  by (simp add: keymap_def)

fun keyrows :: "u32 list \<Rightarrow> (u32 \<times> u32 \<times> u32) list" where
  "keyrows (a # b # c # ks) = (a, b, c) # keyrows ks"
| "keyrows _ = []"

lemma keyrows_nth:
  "3 * i + 2 < length ks \<Longrightarrow> keyrows ks ! i = (ks ! (3 * i), ks ! (3 * i + 1), ks ! (3 * i + 2)) \<and> i < length (keyrows ks)"
proof (induction ks arbitrary: i rule: keyrows.induct)
  case (1 a b c ks)
  then show ?case by (cases i) simp_all
qed auto

lemma keymap_letters: "list_all (\<lambda>(a, b, c). 0x61 \<le> a \<and> a \<le> 0x7A \<longrightarrow> b = a - 0x20) (keyrows keymap)"
  by (simp add: keymap_def)

lemma keymap_upper:
  assumes "i < 128" "0x61 \<le> keymap ! (3 * i)" "keymap ! (3 * i) \<le> 0x7A"
  shows "keymap ! (3 * i + 1) = keymap ! (3 * i) - 0x20"
proof -
  have "3 * i + 2 < length keymap" using assms by (simp add: keymap_length)
  from keyrows_nth [OF this] keymap_letters assms(2, 3) show ?thesis
    by (auto simp: list_all_length)
qed

lemma flag_and: "(if c then a else 0) AND m = (if c then a AND m else 0)" for a m :: u32
  by simp

lemma key_flags_raw: "key_flags k pad AND MASK_RAW = 0"
  by (simp add: key_flags_def bit.conj_disj_distrib2 flag_and)

lemma key_flags_sel:
  "key_flags k pad AND FLAG_SHIFT_L \<noteq> 0 \<longleftrightarrow> shift_l k \<noteq> 0"
  "key_flags k pad AND FLAG_SHIFT_R \<noteq> 0 \<longleftrightarrow> shift_r k \<noteq> 0"
  "key_flags k pad AND FLAG_ALT_L \<noteq> 0 \<longleftrightarrow> alt_l k \<noteq> 0"
  "key_flags k pad AND FLAG_ALT_R \<noteq> 0 \<longleftrightarrow> alt_r k \<noteq> 0"
  "key_flags k pad AND FLAG_CTRL_L \<noteq> 0 \<longleftrightarrow> ctrl_l k \<noteq> 0"
  "key_flags k pad AND FLAG_CTRL_R \<noteq> 0 \<longleftrightarrow> ctrl_r k \<noteq> 0"
  by (simp_all add: key_flags_def bit.conj_disj_distrib2 flag_and)

lemma raw_and:
  fixes raw :: u32
  assumes "raw < 0x200"
  shows "raw AND MASK_RAW = raw" "n \<ge> 9 \<Longrightarrow> raw AND push_bit n 1 = 0"
proof -
  have "take_bit 9 raw = raw"
    using assms less_mask_eq [of raw 9] by (simp add: take_bit_eq_mask)
  then have raw: "\<not> bit raw n" if "9 \<le> n" for n
    using that by (metis bit_take_bit_iff not_le)
  from \<open>take_bit 9 raw = raw\<close> show "raw AND MASK_RAW = raw"
    by (simp add: take_bit_eq_mask mask_eq_exp_minus_1)
  show "raw AND push_bit n 1 = 0" if "n \<ge> 9"
    by (rule bit_word_eqI) (use raw that in \<open>auto simp: bit_simps bit_1_iff\<close>)
qed

lemma pad_key_raw: "key < 0x200 \<Longrightarrow> pad_key nl key < 0x200"
  by (auto simp: pad_key_def word_less_nat_alt word_le_nat_alt unat_sub_if' unat_word_ariths)

lemma unat_scan: "unat (sc AND 0x7F :: u8) < 128"
proof -
  have "sc AND 0x7F = take_bit 7 sc"
    by (simp add: take_bit_eq_mask mask_eq_exp_minus_1)
  then show ?thesis
    using take_bit_nat_less_exp [of 7 "unat sc"] by (simp add: unsigned_take_bit_eq)
qed

lemma keymap_entry: "col < 3 \<Longrightarrow> keymap ! (unat (sc AND 0x7F :: u8) * MAP_COLS + col) < 0x200"
  using keymap_raw unat_scan [of sc] by (simp add: list_all_length keymap_length)

lemma key_column_bound: "key_column k sc < 3" "code_with_E0 k = 0 \<Longrightarrow> key_column k sc < 2"
  by (simp_all add: key_column_def Let_def)

text \<open>
  A key reported to the terminal keeps its code and the modifier state apart: masking with
  \<^verbatim>\<open>MASK_RAW\<close> gives the key itself, and each modifier bit is set exactly when the driver's
  record of that modifier says it is held down.
\<close>

theorem keyboard_key_encoding:
  assumes "keyboard_read arrivals k = Inr (Some key, arrivals', k')"
  shows "\<exists>raw pad. raw < 0x200 \<and> key = raw OR key_flags k' pad \<and> key AND MASK_RAW = raw \<and>
    (key AND FLAG_SHIFT_L \<noteq> 0 \<longleftrightarrow> shift_l k' \<noteq> 0) \<and> (key AND FLAG_SHIFT_R \<noteq> 0 \<longleftrightarrow> shift_r k' \<noteq> 0) \<and>
    (key AND FLAG_CTRL_L \<noteq> 0 \<longleftrightarrow> ctrl_l k' \<noteq> 0) \<and> (key AND FLAG_CTRL_R \<noteq> 0 \<longleftrightarrow> ctrl_r k' \<noteq> 0) \<and>
    (key AND FLAG_ALT_L \<noteq> 0 \<longleftrightarrow> alt_l k' \<noteq> 0) \<and> (key AND FLAG_ALT_R \<noteq> 0 \<longleftrightarrow> alt_r k' \<noteq> 0)"
proof -
  obtain raw pad where raw: "raw < 0x200" "key = raw OR key_flags k' pad"
    using assms pad_key_raw keymap_entry [OF key_column_bound(1)]
    by (fastforce simp: keyboard_read_def bindE_eq_Inr Let_def split: if_splits)
  moreover have "raw AND FLAG_SHIFT_L = 0" "raw AND FLAG_SHIFT_R = 0" "raw AND FLAG_CTRL_L = 0"
    "raw AND FLAG_CTRL_R = 0" "raw AND FLAG_ALT_L = 0" "raw AND FLAG_ALT_R = 0"
    using raw_and(2) [OF raw(1), of 9] raw_and(2) [OF raw(1), of 10] raw_and(2) [OF raw(1), of 11]
      raw_and(2) [OF raw(1), of 12] raw_and(2) [OF raw(1), of 13] raw_and(2) [OF raw(1), of 14]
    by simp_all
  ultimately show ?thesis
    using raw_and(1) [OF raw(1)]
    by (intro exI [of _ raw] exI [of _ pad])
      (simp add: bit.conj_disj_distrib2 key_flags_raw key_flags_sel)
qed

text \<open>An ordinary scan code, without prefix, is read by itself.\<close>

lemma keyboard_read_plain:
  assumes ok: "kb_ok (kb_in k)" and s: "kb_contents (kb_in k) = sc # rest" and sc: "sc \<noteq> 0xE0" "sc \<noteq> 0xE1"
  obtains kb' where "kb_ok kb'" "kb_contents kb' = rest"
    "keyboard_read arrivals k =
       (let k = k\<lparr>kb_in := kb', code_with_E0 := 0\<rparr>; mk = (if sc AND FLAG_BREAK \<noteq> 0 then 0 else 1);
            col = key_column k sc; k = k\<lparr>column := col, code_with_E0 := 0\<rparr>;
            key = keymap ! (unat (sc AND 0x7F) * MAP_COLS + col); k = set_modifier key mk k
        in if mk \<noteq> 0 then
             let pad = (PAD_SLASH \<le> key \<and> key \<le> PAD_9); key = (if pad then pad_key (num_lock k) key else key)
             in Inr (Some (key OR key_flags k pad), arrivals, k)
           else Inr (None, arrivals, k))"
proof -
  obtain kb' where g: "kb_take (kb_in k) = Some (sc, kb')" "kb_ok kb'" "kb_contents kb' = rest"
    using kb.get_first [OF ok s] by blast
  then have "0 < kb_count (kb_in k)" by (simp add: kb_take_def split: if_splits)
  moreover have "read_scan_code arrivals (kb_in k) = Inr (sc, 0, 0, arrivals, kb')"
    using g sc by (simp add: read_scan_code_def get_byte_from_kbuf_def)
  ultimately show thesis
    using that [OF g(2, 3)] by (simp add: keyboard_read_def)
qed

lemma keyboard_read_returns:
  assumes "kb_ok (kb_in k)" "kb_contents (kb_in k) = sc # rest" "sc \<noteq> 0xE0" "sc \<noteq> 0xE1"
  shows "\<exists>r k'. keyboard_read arrivals k = Inr (r, arrivals, k') \<and> (r = None \<longleftrightarrow> sc AND FLAG_BREAK \<noteq> 0)"
  by (rule keyboard_read_plain [OF assms, of arrivals]) (simp add: Let_def)

lemma letter_not_special:
  assumes "0x41 \<le> key" "key \<le> 0x7A"
  shows "set_modifier key mk k = k" "\<not> PAD_SLASH \<le> key"
proof -
  have "unat key \<le> 0x7A" using assms(2) by (simp add: word_le_nat_alt)
  then have "key \<noteq> c" if "0x7A < unat c" for c using that by auto
  then show "set_modifier key mk k = k" by (simp add: set_modifier_def)
  show "\<not> PAD_SLASH \<le> key" using \<open>unat key \<le> 0x7A\<close> by (simp add: word_le_nat_alt)
qed

lemma plain_make:
  assumes "sc < (0x80 :: u8)"
  shows "sc AND 0x7F = sc" "sc AND FLAG_BREAK = 0"
proof -
  have "take_bit 7 sc = sc"
    using assms less_mask_eq [of sc 7] by (simp add: take_bit_eq_mask)
  then show "sc AND 0x7F = sc" by (simp add: take_bit_eq_mask mask_eq_exp_minus_1)
  have "\<not> bit sc 7" using \<open>take_bit 7 sc = sc\<close> by (metis bit_take_bit_iff less_irrefl)
  then have "sc AND push_bit 7 1 = 0"
    by (simp only: bit_iff_and_push_bit_not_eq_0) simp
  then show "sc AND FLAG_BREAK = 0" by simp
qed

text \<open>
  Letters come out in the right case: pressing a letter key delivers the capital letter
  exactly when either a shift key is held or caps lock is on, but not both; the modifiers are
  unchanged and one byte is consumed.
\<close>

theorem keyboard_letter_case:
  assumes "kb_ok (kb_in k)" "kb_contents (kb_in k) = sc # rest" "sc < 0x80"
    and "lower = keymap ! (3 * unat sc)" "0x61 \<le> lower" "lower \<le> 0x7A"
  shows "\<exists>key k'. keyboard_read arrivals k = Inr (Some key, arrivals, k') \<and>
    key AND MASK_RAW = (if (shift_l k \<noteq> 0 \<or> shift_r k \<noteq> 0) \<noteq> (caps_lock k \<noteq> 0) then lower - 0x20 else lower) \<and>
    kb_contents (kb_in k') = rest \<and> shift_l k' = shift_l k \<and> shift_r k' = shift_r k \<and> caps_lock k' = caps_lock k"
proof -
  have sc: "sc \<noteq> 0xE0" "sc \<noteq> 0xE1" using assms(3) by auto
  obtain kb' where kb': "kb_contents kb' = rest" and run: "keyboard_read arrivals k =
       (let k = k\<lparr>kb_in := kb', code_with_E0 := 0\<rparr>; mk = (if sc AND FLAG_BREAK \<noteq> 0 then 0 else 1);
            col = key_column k sc; k = k\<lparr>column := col, code_with_E0 := 0\<rparr>;
            key = keymap ! (unat (sc AND 0x7F) * MAP_COLS + col); k = set_modifier key mk k
        in if mk \<noteq> 0 then
             let pad = (PAD_SLASH \<le> key \<and> key \<le> PAD_9); key = (if pad then pad_key (num_lock k) key else key)
             in Inr (Some (key OR key_flags k pad), arrivals, k)
           else Inr (None, arrivals, k))"
    by (rule keyboard_read_plain [OF assms(1, 2) sc])
  define up where "up \<longleftrightarrow> (shift_l k \<noteq> 0 \<or> shift_r k \<noteq> 0) \<noteq> (caps_lock k \<noteq> 0)"
  have col: "key_column (k\<lparr>kb_in := kb', code_with_E0 := 0\<rparr>) sc = (if up then 1 else 0)"
    using assms(4-6) plain_make [OF assms(3)] by (auto simp: key_column_def up_def mult.commute)
  define key where "key = (if up then lower - 0x20 else lower)"
  have "unat sc < 128" using assms(3) by (simp add: word_less_nat_alt)
  then have entry: "keymap ! (unat sc * MAP_COLS + (if up then 1 else 0)) = key"
    using keymap_upper [of "unat sc"] assms(4-6) by (simp add: key_def mult.commute)
  have range: "0x41 \<le> key" "key \<le> 0x7A"
    using assms(5, 6) by (auto simp: key_def word_le_nat_alt unat_sub_if')
  let ?k = "k\<lparr>kb_in := kb', column := (if up then 1 else 0), code_with_E0 := 0\<rparr>"
  have "keyboard_read arrivals k = Inr (Some (key OR key_flags ?k False), arrivals, ?k)"
    unfolding run using letter_not_special [OF range] plain_make [OF assms(3)]
    by (simp add: col entry Let_def)
  moreover have "key < 0x200"
    using range(2) by (simp add: word_less_nat_alt word_le_nat_alt)
  then have "(key OR key_flags ?k False) AND MASK_RAW = key"
    by (simp add: bit.conj_disj_distrib2 key_flags_raw raw_and)
  ultimately show ?thesis
    using kb' by (simp add: key_def up_def)
qed

lemma keymap_shift_rows:
  "list_all (\<lambda>(i, a, b, c). (a = SHIFT_L \<longleftrightarrow> i = 0x2A) \<and> (b = SHIFT_L \<longleftrightarrow> i = 0x2A) \<and>
     (a = SHIFT_R \<longleftrightarrow> i = 0x36) \<and> (b = SHIFT_R \<longleftrightarrow> i = 0x36)) (enumerate 0 (keyrows keymap))"
  by (simp add: keymap_def)

lemma keymap_shift:
  assumes "i < 128" "col < 2"
  shows "keymap ! (i * MAP_COLS + col) = SHIFT_L \<longleftrightarrow> i = 0x2A" "keymap ! (i * MAP_COLS + col) = SHIFT_R \<longleftrightarrow> i = 0x36"
proof -
  have "3 * i + 2 < length keymap" using assms by (simp add: keymap_length)
  note row = keyrows_nth [OF this]
  have "(keymap ! (3 * i) = SHIFT_L \<longleftrightarrow> i = 0x2A) \<and> (keymap ! (3 * i + 1) = SHIFT_L \<longleftrightarrow> i = 0x2A) \<and>
     (keymap ! (3 * i) = SHIFT_R \<longleftrightarrow> i = 0x36) \<and> (keymap ! (3 * i + 1) = SHIFT_R \<longleftrightarrow> i = 0x36)"
    using keymap_shift_rows row by (auto simp: list_all_length nth_enumerate_eq)
  moreover have "col = 0 \<or> col = 1" using assms(2) by auto
  ultimately show "keymap ! (i * MAP_COLS + col) = SHIFT_L \<longleftrightarrow> i = 0x2A"
    "keymap ! (i * MAP_COLS + col) = SHIFT_R \<longleftrightarrow> i = 0x36"
    by (auto simp: mult.commute)
qed

lemma set_modifier_shift:
  "shift_l (set_modifier key mk k) = (if key = SHIFT_L then mk else shift_l k)"
  "shift_r (set_modifier key mk k) = (if key = SHIFT_R then mk else shift_r k)"
  by (simp_all add: set_modifier_def set_leds_def)

text \<open>
  The shift state follows the keys: of all scan codes without prefix only the make and break
  codes of the two shift keys change it, a make code setting it and a break code clearing it;
  a break code never delivers a key and a make code always does.
\<close>

theorem keyboard_shift_tracking:
  assumes "kb_ok (kb_in k)" "kb_contents (kb_in k) = sc # rest" "sc \<noteq> 0xE0" "sc \<noteq> 0xE1"
  shows "\<exists>r k'. keyboard_read arrivals k = Inr (r, arrivals, k') \<and>
    shift_l k' = (if unat (sc AND 0x7F) = 0x2A then (if sc AND FLAG_BREAK \<noteq> 0 then 0 else 1) else shift_l k) \<and>
    shift_r k' = (if unat (sc AND 0x7F) = 0x36 then (if sc AND FLAG_BREAK \<noteq> 0 then 0 else 1) else shift_r k) \<and>
    (r = None \<longleftrightarrow> sc AND FLAG_BREAK \<noteq> 0)"
proof -
  obtain kb' where run: "keyboard_read arrivals k =
       (let k = k\<lparr>kb_in := kb', code_with_E0 := 0\<rparr>; mk = (if sc AND FLAG_BREAK \<noteq> 0 then 0 else 1);
            col = key_column k sc; k = k\<lparr>column := col, code_with_E0 := 0\<rparr>;
            key = keymap ! (unat (sc AND 0x7F) * MAP_COLS + col); k = set_modifier key mk k
        in if mk \<noteq> 0 then
             let pad = (PAD_SLASH \<le> key \<and> key \<le> PAD_9); key = (if pad then pad_key (num_lock k) key else key)
             in Inr (Some (key OR key_flags k pad), arrivals, k)
           else Inr (None, arrivals, k))"
    by (rule keyboard_read_plain [OF assms])
  define col where "col = key_column (k\<lparr>kb_in := kb', code_with_E0 := 0\<rparr>) sc"
  have "col < 2" by (simp add: col_def key_column_bound)
  note shift = keymap_shift [OF unat_scan [of sc] this]
  show ?thesis
    unfolding run by (simp add: Let_def col_def [symmetric] shift set_modifier_shift)
qed

section \<open>Instances\<close>

definition demo_kb :: "u8 \<Rightarrow> keyboard" where
  "demo_kb sc = \<lparr>kb_in = kb_store sc \<lparr>kb_head = 0, kb_tail = 0, kb_count = 0, kb_buf = replicate 32 0\<rparr>,
     code_with_E0 = 0, shift_l = 1, shift_r = 0, alt_l = 0, alt_r = 0, ctrl_l = 0, ctrl_r = 0,
     caps_lock = 0, num_lock = 1, scroll_lock = 0, column = 0, led_out = []\<rparr>"

lemma demo_kb_empty: "kb_ok \<lparr>kb_head = 0, kb_tail = 0, kb_count = 0, kb_buf = replicate 32 0\<rparr>"
  by (simp add: kb_ok_def ring_ok_def)

lemma demo_kb_facts: "kb_ok (kb_in (demo_kb sc))" "kb_contents (kb_in (demo_kb sc)) = [sc]"
  using kb.put_inv [OF demo_kb_empty, of sc] kb.put_contents [OF demo_kb_empty, of sc]
  by (simp_all add: demo_kb_def kb_contents_def)

theorem keyboard_buffer_fifo_witness:
  "kb_contents (fold kb_store [0x1E, 0x9E] \<lparr>kb_head = 0, kb_tail = 0, kb_count = 0, kb_buf = replicate 32 0\<rparr>)
    = [0x1E, 0x9E]"
  using keyboard_buffer_fifo [OF demo_kb_empty, of "[0x1E, 0x9E]"] by (simp add: kb_contents_def)

theorem keyboard_shift_tracking_witness:
  "\<exists>r k'. keyboard_read [] (demo_kb 0xAA) = Inr (r, [], k') \<and> shift_l k' = 0 \<and> r = None"
proof -
  have "unat (0xAA AND 0x7F :: u8) = 0x2A" "(0xAA AND FLAG_BREAK :: u8) \<noteq> 0" by simp_all
  with keyboard_shift_tracking [OF demo_kb_facts, of "0xAA" "[]"] show ?thesis by fastforce
qed

lemma keymap_a: "keymap ! (3 * unat (0x1E :: u8)) = 0x61"
  by (simp add: keymap_def)

theorem keyboard_letter_case_witness:
  "\<exists>key k'. keyboard_read [] (demo_kb 0x1E) = Inr (Some key, [], k') \<and> key AND MASK_RAW = 0x41"
proof -
  have "shift_l (demo_kb 0x1E) \<noteq> 0" "caps_lock (demo_kb 0x1E) = 0" by (simp_all add: demo_kb_def)
  with keyboard_letter_case [OF demo_kb_facts _ keymap_a [symmetric], of "[]"] show ?thesis by fastforce
qed

theorem keyboard_key_encoding_witness:
  "\<exists>key k'. keyboard_read [] (demo_kb 0x3B) = Inr (Some key, [], k') \<and>
    (key AND FLAG_SHIFT_L \<noteq> 0 \<longleftrightarrow> shift_l k' \<noteq> 0)"
proof -
  have "(0x3B :: u8) \<noteq> 0xE0" "(0x3B :: u8) \<noteq> 0xE1" "(0x3B AND FLAG_BREAK :: u8) = 0" by simp_all
  then obtain key k' where "keyboard_read [] (demo_kb 0x3B) = Inr (Some key, [], k')"
    using keyboard_read_returns [OF demo_kb_facts, of "0x3B" "[]"] by auto
  with keyboard_key_encoding [OF this] show ?thesis by blast
qed

theorem keyboard_read_progress_witness:
  "\<exists>r a' k'. keyboard_read [] (demo_kb 0x9E) = Inr (r, a', k') \<and>
    length (kb_contents (kb_in k') @ a') < length (kb_contents (kb_in (demo_kb 0x9E)) @ [])"
proof -
  have "(0x9E :: u8) \<noteq> 0xE0" "(0x9E :: u8) \<noteq> 0xE1" by simp_all
  then obtain r k' where run: "keyboard_read [] (demo_kb 0x9E) = Inr (r, [], k')"
    using keyboard_read_returns [OF demo_kb_facts, of "0x9E" "[]"] by blast
  with keyboard_read_progress [OF demo_kb_facts(1) run] show ?thesis by (auto simp: demo_kb_facts)
qed

end
