(* ===== verification/Console.thy ===== *)
theory Console
  imports Dlos_Params
begin

text \<open>
  The three virtual consoles of \<^verbatim>\<open>kernel/console.c\<close>, which share the 32 KB of text-mode video
  memory. The members of \<^verbatim>\<open>CONSOLE\<close> are unsigned 32-bit numbers: they are naturals here, and
  sums and differences are reduced modulo \<open>2\<^sup>3\<^sup>2\<close>. Video memory is addressed by physical
  address; the bytes written to the display controller's ports are collected in order.
\<close>

section \<open>Unsigned arithmetic\<close>

definition add32 :: "nat \<Rightarrow> nat \<Rightarrow> nat" where
  "add32 a b = (a + b) mod 2 ^ 32"

definition sub32 :: "nat \<Rightarrow> nat \<Rightarrow> nat" where
  "sub32 a b = (a + 2 ^ 32 - b) mod 2 ^ 32"

lemma add32_small: "a + b < 2 ^ 32 \<Longrightarrow> add32 a b = a + b"
  by (simp add: add32_def)

lemma sub32_small:
  assumes "b \<le> a" "a < 2 ^ 32"
  shows "sub32 a b = a - b"
proof -
  have "a + 2 ^ 32 - b = (a - b) + 2 ^ 32" using assms by simp
  then have "sub32 a b = ((a - b) + 2 ^ 32) mod 2 ^ 32" by (simp only: sub32_def)
  also have "\<dots> = (a - b) mod 2 ^ 32" by (rule mod_add_self2)
  also have "\<dots> = a - b" using assms by simp
  finally show ?thesis .
qed

section \<open>State\<close>

record console =
  current_start_addr :: nat
  original_addr :: nat
  v_mem_limit :: nat
  cursor :: nat

record screen =
  console_table :: "nat \<Rightarrow> console"
  nr_current_console :: int
  disp_pos :: nat
  vram :: "nat \<Rightarrow> u8"
  ports :: "(u16 \<times> u8) list"

definition upd_con :: "nat \<Rightarrow> (console \<Rightarrow> console) \<Rightarrow> screen \<Rightarrow> screen" where
  "upd_con c f s = s\<lparr>console_table := (console_table s)(c := f (console_table s c))\<rparr>"

section \<open>Operations\<close>

definition is_current_console :: "nat \<Rightarrow> screen \<Rightarrow> bool" where
  "is_current_console c s \<longleftrightarrow> int c = nr_current_console s"

definition set_cursor :: "nat \<Rightarrow> screen \<Rightarrow> screen" where
  "set_cursor position s =
     s\<lparr>ports := ports s @ [(0x3D4, 0xE), (0x3D5, of_nat (position div 256 mod 256)),
                          (0x3D4, 0xF), (0x3D5, of_nat (position mod 256))]\<rparr>"

definition set_video_start_addr :: "nat \<Rightarrow> screen \<Rightarrow> screen" where
  "set_video_start_addr addr s =
     s\<lparr>ports := ports s @ [(0x3D4, 0xC), (0x3D5, of_nat (addr div 256 mod 256)),
                          (0x3D4, 0xD), (0x3D5, of_nat (addr mod 256))]\<rparr>"

definition flush :: "nat \<Rightarrow> screen \<Rightarrow> screen" where
  "flush c s =
     (if is_current_console c s
      then set_video_start_addr (current_start_addr (console_table s c)) (set_cursor (cursor (console_table s c)) s)
      else s)"

definition scroll_screen :: "nat \<Rightarrow> int \<Rightarrow> screen \<Rightarrow> screen" where
  "scroll_screen c direction s =
     (let con = console_table s c;
          s = (if direction = SCR_UP then
                 (if current_start_addr con > original_addr con
                  then upd_con c (\<lambda>con. con\<lparr>current_start_addr := sub32 (current_start_addr con) SCREEN_WIDTH\<rparr>) s
                  else s)
               else if direction = SCR_DN then
                 (if add32 (current_start_addr con) SCREEN_SIZE < add32 (original_addr con) (v_mem_limit con)
                  then upd_con c (\<lambda>con. con\<lparr>current_start_addr := add32 (current_start_addr con) SCREEN_WIDTH\<rparr>) s
                  else s)
               else s)
      in flush c s)"

definition select_console :: "int \<Rightarrow> screen \<Rightarrow> screen" where
  "select_console nr_console s =
     (if nr_console < 0 \<or> nr_console \<ge> int NR_CONSOLES then s
      else flush (nat nr_console) (s\<lparr>nr_current_console := nr_console\<rparr>))"

text \<open>\<^verbatim>\<open>(cursor - original_addr) / SCREEN_WIDTH\<close>.\<close>

definition con_row :: "console \<Rightarrow> nat \<Rightarrow> nat" where
  "con_row con cur = sub32 cur (original_addr con) div SCREEN_WIDTH"

text \<open>The inner \<^verbatim>\<open>while\<close> loop of the \<^verbatim>\<open>'\b'\<close> case: the cursor moves left over blanks.\<close>

function back_over :: "(nat \<Rightarrow> u8) \<Rightarrow> console \<Rightarrow> nat \<Rightarrow> nat \<Rightarrow> nat" where
  "back_over v con new_row cur =
     (if cur > original_addr con \<and> v (V_MEM_BASE + cur * 2 - 2) = 0x20 \<and>
         sub32 (sub32 cur (original_addr con)) 1 div SCREEN_WIDTH = new_row
      then back_over v con new_row (cur - 1) else cur)"
  by pat_completeness auto
termination by (relation "measure (\<lambda>(v, con, new_row, cur). cur)") auto

declare back_over.simps [simp del]

text \<open>The \<^verbatim>\<open>switch\<close> of \<^verbatim>\<open>out_char\<close>.\<close>

definition put_char :: "nat \<Rightarrow> u8 \<Rightarrow> screen \<Rightarrow> screen" where
  "put_char c ch s =
     (let con = console_table s c; p_vmem = V_MEM_BASE + cursor con * 2; old_row = con_row con (cursor con)
      in if ch = 0x0A then
           (if add32 (cursor con) SCREEN_WIDTH < add32 (original_addr con) (v_mem_limit con)
            then upd_con c (\<lambda>con. con\<lparr>cursor := add32 (original_addr con) (SCREEN_WIDTH * (old_row + 1))\<rparr>) s
            else s)
         else if ch = 0x08 then
           let s = (if cursor con > original_addr con then
                      upd_con c (\<lambda>con. con\<lparr>cursor := cursor con - 1\<rparr>)
                        (s\<lparr>vram := (vram s)(p_vmem - 2 := 0x20, p_vmem - 1 := DEFAULT_CHAR_COLOR)\<rparr>)
                    else s);
               con = console_table s c; new_row = con_row con (cursor con)
           in if new_row \<noteq> old_row then upd_con c (\<lambda>con. con\<lparr>cursor := back_over (vram s) con new_row (cursor con)\<rparr>) s
              else s
         else if add32 (cursor con) 1 < add32 (original_addr con) (v_mem_limit con) then
           upd_con c (\<lambda>con. con\<lparr>cursor := add32 (cursor con) 1\<rparr>)
             (s\<lparr>vram := (vram s)(p_vmem := ch, p_vmem + 1 := DEFAULT_CHAR_COLOR)\<rparr>)
         else s)"

text \<open>The loop that scrolls until the cursor is on the screen.\<close>

partial_function (option) scroll_to_cursor :: "nat \<Rightarrow> screen \<Rightarrow> screen option" where
  "scroll_to_cursor c s =
     (let con = console_table s c
      in if cursor con \<ge> add32 (current_start_addr con) SCREEN_SIZE
         then scroll_to_cursor c (scroll_screen c SCR_DN s) else Some s)"

definition out_char :: "nat \<Rightarrow> u8 \<Rightarrow> screen \<Rightarrow> screen result" where
  "out_char c ch s = bindE (returns 88 (scroll_to_cursor c (put_char c ch s))) (\<lambda>s. Inr (flush c s))"

definition init_screen :: "nat \<Rightarrow> screen \<Rightarrow> screen result" where
  "init_screen nr_tty s =
     (let con_v_mem_size = V_MEM_SIZE div 2 div NR_CONSOLES;
          orig = nr_tty * con_v_mem_size;
          s = upd_con nr_tty (\<lambda>con. con\<lparr>original_addr := orig, v_mem_limit := con_v_mem_size,
                current_start_addr := orig, cursor := orig\<rparr>) s
      in bindE (if nr_tty = 0 then Inr (upd_con nr_tty (\<lambda>con. con\<lparr>cursor := disp_pos s div 2\<rparr>) s\<lparr>disp_pos := 0\<rparr>)
                else bindE (out_char nr_tty (of_nat nr_tty + 0x30) s) (out_char nr_tty 0x23)) (\<lambda>s.
           Inr (set_cursor (cursor (console_table s nr_tty)) s)))"

text \<open>\<^verbatim>\<open>tty_write\<close>: the bytes of a buffer, one after the other.\<close>

fun tty_write :: "nat \<Rightarrow> u8 list \<Rightarrow> screen \<Rightarrow> screen result" where
  "tty_write c [] s = Inr s"
| "tty_write c (ch # buf) s = bindE (out_char c ch s) (tty_write c buf)"

section \<open>The invariant\<close>

abbreviation (input) con_size :: nat where "con_size \<equiv> 5461"

definition con_ok :: "nat \<Rightarrow> console \<Rightarrow> bool" where
  "con_ok n con \<longleftrightarrow> original_addr con = n * con_size \<and> v_mem_limit con = con_size \<and>
     original_addr con \<le> cursor con \<and> cursor con < original_addr con + con_size \<and>
     original_addr con \<le> current_start_addr con \<and> current_start_addr con \<le> original_addr con + 3520 \<and>
     80 dvd current_start_addr con - original_addr con"

definition screen_ok :: "screen \<Rightarrow> bool" where
  "screen_ok s \<longleftrightarrow> (\<forall>n < NR_CONSOLES. con_ok n (console_table s n))"

text \<open>The video memory of console \<open>n\<close>: two bytes per cell.\<close>

definition con_region :: "nat \<Rightarrow> nat set" where
  "con_region n = {V_MEM_BASE + 2 * (n * con_size) ..< V_MEM_BASE + 2 * (n * con_size + con_size)}"

text \<open>An operation on console \<open>c\<close> that leaves the others alone.\<close>

definition con_frame :: "nat \<Rightarrow> screen \<Rightarrow> screen \<Rightarrow> bool" where
  "con_frame c s t \<longleftrightarrow> (\<forall>n. n \<noteq> c \<longrightarrow> console_table t n = console_table s n) \<and>
     nr_current_console t = nr_current_console s \<and> disp_pos t = disp_pos s \<and>
     (\<forall>a. a \<notin> con_region c \<longrightarrow> vram t a = vram s a)"

lemma con_frame_refl [simp]: "con_frame c s s"
  by (simp add: con_frame_def)

lemma con_frame_trans: "con_frame c s t \<Longrightarrow> con_frame c t u \<Longrightarrow> con_frame c s u"
  by (simp add: con_frame_def)

lemma con_arith:
  assumes "con_ok n con" "n < NR_CONSOLES"
  shows "sub32 (cursor con) (original_addr con) = cursor con - original_addr con"
    "add32 (cursor con) SCREEN_WIDTH = cursor con + SCREEN_WIDTH" "add32 (cursor con) 1 = cursor con + 1"
    "add32 (original_addr con) (v_mem_limit con) = original_addr con + con_size"
    "add32 (current_start_addr con) SCREEN_SIZE = current_start_addr con + SCREEN_SIZE"
    "add32 (current_start_addr con) SCREEN_WIDTH = current_start_addr con + SCREEN_WIDTH"
    "sub32 (current_start_addr con) SCREEN_WIDTH = current_start_addr con - SCREEN_WIDTH
       \<or> current_start_addr con < SCREEN_WIDTH"
    "x \<le> con_size \<Longrightarrow> add32 (original_addr con) x = original_addr con + x"
  using assms by (auto simp: con_ok_def add32_small sub32_small)

lemma flush_sel [simp]:
  "console_table (flush c s) = console_table s" "vram (flush c s) = vram s"
  "nr_current_console (flush c s) = nr_current_console s" "disp_pos (flush c s) = disp_pos s"
  by (simp_all add: flush_def set_video_start_addr_def set_cursor_def)

lemma con_frame_flush [simp]: "con_frame c s (flush d t) = con_frame c s t"
  by (simp add: con_frame_def)

lemma screen_ok_frame: "screen_ok s \<Longrightarrow> con_frame c s t \<Longrightarrow> con_ok c (console_table t c) \<Longrightarrow> screen_ok t"
  unfolding screen_ok_def con_frame_def by metis

section \<open>Scrolling\<close>

lemma dvd_start_step:
  assumes "80 dvd a - b" "b \<le> (a :: nat)"
  shows "80 dvd (a + 80) - b" "b < a \<Longrightarrow> b + 80 \<le> a" "b < a \<Longrightarrow> 80 dvd (a - 80) - b"
    "a + 2000 < b + 5461 \<Longrightarrow> a + 80 \<le> b + 3520"
proof -
  obtain k where k: "a = b + 80 * k"
    using assms by (metis dvdE le_add_diff_inverse)
  show "80 dvd (a + 80) - b" using k by simp
  show "b + 80 \<le> a" if "b < a" using k that by (cases k) auto
  have "(a - 80) - b = 80 * (k - 1)" using k by (cases k) simp_all
  then show "80 dvd (a - 80) - b" by simp
  show "a + 80 \<le> b + 3520" if "a + 2000 < b + 5461" using k that by simp
qed

lemma scroll_screen_ok:
  assumes con: "con_ok c (console_table s c)" and c: "c < NR_CONSOLES"
  shows "con_ok c (console_table (scroll_screen c direction s) c)" "con_frame c s (scroll_screen c direction s)"
    "cursor (console_table (scroll_screen c direction s) c) = cursor (console_table s c)"
    "vram (scroll_screen c direction s) = vram s"
proof -
  let ?con = "console_table s c"
  note arith = con_arith [OF con c]
  obtain st where st: "console_table (scroll_screen c direction s)
      = (console_table s)(c := ?con\<lparr>current_start_addr := st\<rparr>)" "con_ok c (?con\<lparr>current_start_addr := st\<rparr>)"
  proof (cases "direction = SCR_UP \<and> current_start_addr ?con > original_addr ?con")
    case True
    then have "con_ok c (?con\<lparr>current_start_addr := current_start_addr ?con - SCREEN_WIDTH\<rparr>)"
      "\<not> current_start_addr ?con < SCREEN_WIDTH"
      using con dvd_start_step [of "current_start_addr ?con" "original_addr ?con"] by (auto simp: con_ok_def)
    with True arith(7) that [of "current_start_addr ?con - SCREEN_WIDTH"] show thesis
      by (auto simp: scroll_screen_def upd_con_def Let_def)
  next
    case no_up: False
    show thesis
    proof (cases "direction = SCR_DN \<and> current_start_addr ?con + SCREEN_SIZE < original_addr ?con + con_size")
      case True
      then have "con_ok c (?con\<lparr>current_start_addr := current_start_addr ?con + SCREEN_WIDTH\<rparr>)"
        using con dvd_start_step [of "current_start_addr ?con" "original_addr ?con"]
        by (auto simp: con_ok_def)
      with True that [of "current_start_addr ?con + SCREEN_WIDTH"] show thesis
        by (auto simp: scroll_screen_def upd_con_def arith Let_def)
    next
      case False
      with no_up con that [of "current_start_addr ?con"] show thesis
        by (auto simp: scroll_screen_def upd_con_def arith Let_def)
    qed
  qed
  show "con_ok c (console_table (scroll_screen c direction s) c)" using st by simp
  show vram: "vram (scroll_screen c direction s) = vram s"
    by (simp add: scroll_screen_def upd_con_def Let_def)
  show "con_frame c s (scroll_screen c direction s)"
    using st(1) vram by (simp add: con_frame_def) (simp add: scroll_screen_def upd_con_def Let_def)
  show "cursor (console_table (scroll_screen c direction s) c) = cursor ?con"
    by (simp add: st)
qed

lemma scroll_to_cursor_ok:
  assumes "con_ok c (console_table s c)" "c < NR_CONSOLES"
  obtains t where "scroll_to_cursor c s = Some t" "con_ok c (console_table t c)" "con_frame c s t" "vram t = vram s"
    "cursor (console_table t c) = cursor (console_table s c)"
    "cursor (console_table t c) < current_start_addr (console_table t c) + SCREEN_SIZE"
  using assms(1)
proof (induction "cursor (console_table s c) - current_start_addr (console_table s c)" arbitrary: s thesis rule: less_induct)
  case less
  let ?con = "console_table s c"
  note con = less.prems(2)
  note arith = con_arith [OF con assms(2)]
  show ?case
  proof (cases "cursor ?con \<ge> current_start_addr ?con + SCREEN_SIZE")
    case False
    then have "scroll_to_cursor c s = Some s" by (subst scroll_to_cursor.simps) (simp add: arith)
    with less.prems False show ?thesis by simp
  next
    case True
    let ?s = "scroll_screen c SCR_DN s"
    note sc = scroll_screen_ok [OF less.prems(2) assms(2), of SCR_DN]
    have "current_start_addr ?con + SCREEN_SIZE < original_addr ?con + con_size"
      using True con by (auto simp: con_ok_def)
    then have "current_start_addr (console_table ?s c) = current_start_addr ?con + SCREEN_WIDTH"
      by (simp add: scroll_screen_def upd_con_def arith Let_def)
    then have "cursor (console_table ?s c) - current_start_addr (console_table ?s c)
        < cursor ?con - current_start_addr ?con"
      using True sc(3) by simp
    then obtain t where t: "scroll_to_cursor c ?s = Some t" "con_ok c (console_table t c)" "con_frame c ?s t" "vram t = vram ?s"
      "cursor (console_table t c) = cursor (console_table ?s c)"
      "cursor (console_table t c) < current_start_addr (console_table t c) + SCREEN_SIZE"
      using less.hyps [of ?s] sc(1) by blast
    moreover have "scroll_to_cursor c s = scroll_to_cursor c ?s"
      using True by (subst scroll_to_cursor.simps) (simp add: arith)
    ultimately show ?thesis
      using less.prems(1) [of t] sc con_frame_trans [OF sc(2) t(3)] by simp
  qed
qed

section \<open>Output\<close>

lemma back_over_range:
  "original_addr con \<le> cur \<Longrightarrow> original_addr con \<le> back_over v con r cur \<and> back_over v con r cur \<le> cur"
proof (induction v con r cur rule: back_over.induct)
  case (1 v con r cur)
  show ?case
  proof (cases "cur > original_addr con \<and> v (V_MEM_BASE + cur * 2 - 2) = 0x20 \<and>
         sub32 (sub32 cur (original_addr con)) 1 div SCREEN_WIDTH = r")
    case True
    with 1 have "original_addr con \<le> back_over v con r (cur - 1) \<and> back_over v con r (cur - 1) \<le> cur - 1"
      by auto
    with True show ?thesis by (subst (1 2) back_over.simps) auto
  next
    case False
    with 1 show ?thesis by (subst (1 2) back_over.simps) auto
  qed
qed

lemma con_ok_cursor:
  "con_ok n con \<Longrightarrow> original_addr con \<le> cur \<Longrightarrow> cur < original_addr con + con_size \<Longrightarrow> con_ok n (con\<lparr>cursor := cur\<rparr>)"
  by (auto simp: con_ok_def)

lemma cell_region:
  assumes "con_ok n con" "original_addr con \<le> cur" "cur < original_addr con + con_size"
  shows "V_MEM_BASE + cur * 2 \<in> con_region n" "V_MEM_BASE + cur * 2 + 1 \<in> con_region n"
  using assms by (auto simp: con_region_def con_ok_def)

lemma row_end: "80 * ((a :: nat) div 80 + 1) \<le> a + 80"
  using div_mult_mod_eq [of a 80] by simp

text \<open>The three cases of the \<^verbatim>\<open>switch\<close>: only the cursor and cells of the console itself change.\<close>

lemma put_char_cases:
  assumes "con_ok c (console_table s c)" "c < NR_CONSOLES"
  obtains cur v where "put_char c ch s = upd_con c (\<lambda>con. con\<lparr>cursor := cur\<rparr>) (s\<lparr>vram := v\<rparr>)"
    "original_addr (console_table s c) \<le> cur" "cur < original_addr (console_table s c) + con_size"
    "\<And>a. a \<notin> con_region c \<Longrightarrow> v a = vram s a"
proof -
  let ?con = "console_table s c" and ?v = "vram s"
  let ?p = "V_MEM_BASE + cursor ?con * 2"
  note arith = con_arith [OF assms]
  have cur: "original_addr ?con \<le> cursor ?con" "cursor ?con < original_addr ?con + con_size"
    using assms by (auto simp: con_ok_def)
  have keep: "upd_con c (\<lambda>con. con\<lparr>cursor := cursor con\<rparr>) (s\<lparr>vram := ?v\<rparr>) = s"
    by (simp add: upd_con_def)
  consider "ch = 0x0A" | "ch = 0x08" | "ch \<noteq> 0x0A" "ch \<noteq> 0x08" by blast
  then show thesis
  proof cases
    case 1
    let ?n = "80 * ((cursor ?con - original_addr ?con) div 80 + 1)"
    have "?n \<le> cursor ?con - original_addr ?con + 80" by (rule row_end)
    then have n: "cursor ?con + 80 < original_addr ?con + con_size \<Longrightarrow> ?n < con_size" using cur by linarith
    then have "put_char c ch s = (if cursor ?con + 80 < original_addr ?con + con_size
        then upd_con c (\<lambda>con. con\<lparr>cursor := original_addr ?con + ?n\<rparr>) (s\<lparr>vram := ?v\<rparr>) else s)"
      using 1 arith(8) [of ?n] by (simp add: put_char_def con_row_def arith upd_con_def Let_def)
    with that [of "original_addr ?con + ?n" ?v] that [of "cursor ?con" ?v] n cur keep show thesis
      by (simp add: upd_con_def split: if_splits)
  next
    case 2
    show thesis
    proof (cases "cursor ?con > original_addr ?con")
      case False
      with 2 that [of "cursor ?con" ?v] cur keep show thesis
        by (simp add: put_char_def upd_con_def Let_def)
    next
      case True
      let ?w = "?v(?p - 2 := 0x20, ?p - 1 := DEFAULT_CHAR_COLOR)"
      let ?con' = "?con\<lparr>cursor := cursor ?con - 1\<rparr>"
      have w: "?w a = ?v a" if "a \<notin> con_region c" for a
        using that True cell_region [OF assms(1), of "cursor ?con - 1"] cur by (auto simp: algebra_simps)
      obtain cur' where "put_char c ch s = upd_con c (\<lambda>con. con\<lparr>cursor := cur'\<rparr>) (s\<lparr>vram := ?w\<rparr>)"
        "original_addr ?con \<le> cur'" "cur' \<le> cursor ?con - 1"
      proof (cases "con_row ?con' (cursor ?con') \<noteq> con_row ?con (cursor ?con)")
        case True
        with 2 \<open>cursor ?con > original_addr ?con\<close> back_over_range [of ?con' "cursor ?con - 1" ?w] that show thesis
          by (simp add: put_char_def upd_con_def Let_def)
      next
        case False
        with 2 \<open>cursor ?con > original_addr ?con\<close> that [of "cursor ?con - 1"] show thesis
          by (simp add: put_char_def upd_con_def Let_def)
      qed
      with that [of cur' ?w] w cur True show thesis by simp
    qed
  next
    case 3
    show thesis
    proof (cases "cursor ?con + 1 < original_addr ?con + con_size")
      case True
      have "(?v(?p := ch, ?p + 1 := DEFAULT_CHAR_COLOR)) a = ?v a" if "a \<notin> con_region c" for a
        using that cell_region [OF assms(1) cur] by auto
      with 3 True that [of "cursor ?con + 1" "?v(?p := ch, ?p + 1 := DEFAULT_CHAR_COLOR)"] cur show thesis
        by (simp add: put_char_def upd_con_def arith arith(3) [simplified] Let_def)
    next
      case False
      with 3 that [of "cursor ?con" ?v] cur keep show thesis
        by (simp add: put_char_def upd_con_def arith arith(3) [simplified] Let_def)
    qed
  qed
qed

lemma out_char_ok:
  assumes con: "con_ok c (console_table s c)" and c: "c < NR_CONSOLES"
  obtains t where "out_char c ch s = Inr t" "con_ok c (console_table t c)" "con_frame c s t" "vram t = vram (put_char c ch s)"
    "cursor (console_table t c) = cursor (console_table (put_char c ch s) c)"
    "cursor (console_table t c) < current_start_addr (console_table t c) + SCREEN_SIZE"
proof -
  let ?s = "put_char c ch s"
  obtain cur v where p: "?s = upd_con c (\<lambda>con. con\<lparr>cursor := cur\<rparr>) (s\<lparr>vram := v\<rparr>)"
    "original_addr (console_table s c) \<le> cur" "cur < original_addr (console_table s c) + con_size"
    "\<And>a. a \<notin> con_region c \<Longrightarrow> v a = vram s a"
    by (rule put_char_cases [OF con c, of ch]) blast
  have "con_ok c (console_table ?s c)"
    using con_ok_cursor [OF con p(2, 3)] p(1) by (simp add: upd_con_def)
  moreover have "con_frame c s ?s"
    using p by (simp add: con_frame_def upd_con_def)
  ultimately obtain t where t: "scroll_to_cursor c ?s = Some t" "con_ok c (console_table t c)" "con_frame c s t" "vram t = vram ?s"
    "cursor (console_table t c) = cursor (console_table ?s c)"
    "cursor (console_table t c) < current_start_addr (console_table t c) + SCREEN_SIZE"
    using scroll_to_cursor_ok [OF _ c, of ?s] con_frame_trans by metis
  with that [of "flush c t"] show thesis
    by (simp add: out_char_def)
qed

text \<open>
  C16. Output never fails and never leaves its console: on a well-formed screen \<^verbatim>\<open>out_char\<close>
  returns (its scrolling loop ends), keeps every console well-formed, touches video memory only
  inside the console's own third, changes no other console, and leaves the cursor within the
  console's memory and no lower than the displayed window.
\<close>

theorem out_char_safe:
  assumes "screen_ok s" "c < NR_CONSOLES"
  shows "\<exists>t. out_char c ch s = Inr t \<and> screen_ok t \<and>
    (\<forall>n. n \<noteq> c \<longrightarrow> console_table t n = console_table s n) \<and>
    (\<forall>a. a \<notin> con_region c \<longrightarrow> vram t a = vram s a) \<and>
    cursor (console_table t c) < current_start_addr (console_table t c) + SCREEN_SIZE"
proof -
  have "con_ok c (console_table s c)" using assms by (simp add: screen_ok_def)
  then show ?thesis
    by (rule out_char_ok [OF _ assms(2), of s ch])
      (use screen_ok_frame [OF assms(1)] in \<open>auto simp: con_frame_def\<close>)
qed

section \<open>Setting up\<close>

lemma init_screen_ok:
  assumes n: "n < NR_CONSOLES" and d: "n = 0 \<longrightarrow> disp_pos s div 2 < con_size"
  obtains t where "init_screen n s = Inr t" "con_ok n (console_table t n)"
    "\<And>m. m \<noteq> n \<Longrightarrow> console_table t m = console_table s m" "nr_current_console t = nr_current_console s"
proof -
  let ?s = "upd_con n (\<lambda>con. con\<lparr>original_addr := n * con_size, v_mem_limit := con_size,
      current_start_addr := n * con_size, cursor := n * con_size\<rparr>) s"
  have con: "con_ok n (console_table ?s n)" by (simp add: con_ok_def upd_con_def)
  show thesis
  proof (cases "n = 0")
    case True
    with d that show thesis
      by (simp add: init_screen_def upd_con_def set_cursor_def con_ok_def)
  next
    case False
    obtain t where t: "out_char n (of_nat n + 0x30) ?s = Inr t" "con_ok n (console_table t n)" "con_frame n ?s t"
      by (rule out_char_ok [OF con n])
    obtain u where u: "out_char n 0x23 t = Inr u" "con_ok n (console_table u n)" "con_frame n t u"
      by (rule out_char_ok [OF t(2) n])
    have "init_screen n s = Inr (set_cursor (cursor (console_table u n)) u)"
      using False t(1) u(1) by (simp add: init_screen_def Let_def)
    moreover have "con_frame n ?s u" using t(3) u(3) by (rule con_frame_trans)
    ultimately show thesis
      using that u(2) by (simp add: set_cursor_def con_frame_def upd_con_def)
  qed
qed

text \<open>The terminal task's start-up sequence: the three consoles in order, then console 0 selected.
  The consoles own disjoint thirds of video memory.\<close>

lemma init_screens:
  assumes "disp_pos s div 2 < con_size"
  obtains t0 t1 t2 where "init_screen 0 s = Inr t0" "init_screen 1 t0 = Inr t1" "init_screen 2 t1 = Inr t2"
    "screen_ok (select_console 0 t2)" "nr_current_console (select_console 0 t2) = 0"
proof -
  obtain t0 where t0: "init_screen 0 s = Inr t0" "con_ok 0 (console_table t0 0)"
    by (rule init_screen_ok [of 0 s]) (use assms in simp_all)
  obtain t1 where t1: "init_screen 1 t0 = Inr t1" "con_ok 1 (console_table t1 1)"
    "\<And>m. m \<noteq> 1 \<Longrightarrow> console_table t1 m = console_table t0 m"
    by (rule init_screen_ok [of 1 t0]) simp_all
  obtain t2 where t2: "init_screen 2 t1 = Inr t2" "con_ok 2 (console_table t2 2)"
    "\<And>m. m \<noteq> 2 \<Longrightarrow> console_table t2 m = console_table t1 m"
    by (rule init_screen_ok [of 2 t1]) simp_all
  have "screen_ok (select_console 0 t2)"
    using t0(2) t1(2, 3) t2(2, 3) by (auto simp: screen_ok_def select_console_def numeral_3_eq_3 numeral_2_eq_2 less_Suc_eq)
  with that t0(1) t1(1) t2(1) show thesis by (simp add: select_console_def)
qed

lemma con_regions:
  "con_region 0 \<inter> con_region 1 = {}" "con_region 0 \<inter> con_region 2 = {}" "con_region 1 \<inter> con_region 2 = {}"
  "n < NR_CONSOLES \<Longrightarrow> con_region n \<subseteq> {V_MEM_BASE ..< V_MEM_BASE + V_MEM_SIZE}"
  by (auto simp: con_region_def)

section \<open>What appears on the screen\<close>

definition printable :: "u8 \<Rightarrow> bool" where
  "printable ch \<longleftrightarrow> ch \<noteq> 0x0A \<and> ch \<noteq> 0x08"

lemma put_char_printable:
  assumes "con_ok c (console_table s c)" "c < NR_CONSOLES" "printable ch"
    "cursor (console_table s c) + 1 < original_addr (console_table s c) + con_size"
  shows "put_char c ch s = upd_con c (\<lambda>con. con\<lparr>cursor := cursor (console_table s c) + 1\<rparr>)
    (s\<lparr>vram := (vram s)(V_MEM_BASE + cursor (console_table s c) * 2 := ch,
       V_MEM_BASE + cursor (console_table s c) * 2 + 1 := DEFAULT_CHAR_COLOR)\<rparr>)"
  using assms(3, 4) con_arith [OF assms(1, 2)] con_arith(3) [OF assms(1, 2), simplified]
  by (simp add: put_char_def upd_con_def printable_def Let_def)

lemma tty_write_appears:
  assumes "con_ok c (console_table s c)" "c < NR_CONSOLES" "list_all printable str"
    "cursor (console_table s c) + length str < original_addr (console_table s c) + con_size"
  shows "\<exists>t. tty_write c str s = Inr t \<and> con_ok c (console_table t c) \<and> con_frame c s t \<and>
    cursor (console_table t c) = cursor (console_table s c) + length str \<and>
    (\<forall>k < length str. vram t (V_MEM_BASE + 2 * (cursor (console_table s c) + k)) = str ! k) \<and>
    (\<forall>a < V_MEM_BASE + 2 * cursor (console_table s c). vram t a = vram s a)"
  using assms(1, 3, 4)
proof (induction str arbitrary: s)
  case Nil
  then show ?case by simp
next
  case (Cons ch str)
  let ?cur = "cursor (console_table s c)"
  obtain t where t: "out_char c ch s = Inr t" "con_ok c (console_table t c)" "con_frame c s t"
    "vram t = vram (put_char c ch s)" "cursor (console_table t c) = cursor (console_table (put_char c ch s) c)"
    by (rule out_char_ok [OF Cons.prems(1) assms(2)])
  have put: "put_char c ch s = upd_con c (\<lambda>con. con\<lparr>cursor := ?cur + 1\<rparr>)
      (s\<lparr>vram := (vram s)(V_MEM_BASE + ?cur * 2 := ch, V_MEM_BASE + ?cur * 2 + 1 := DEFAULT_CHAR_COLOR)\<rparr>)"
    using Cons.prems by (intro put_char_printable [OF Cons.prems(1) assms(2)]) auto
  have cur: "cursor (console_table t c) = ?cur + 1"
    using t(5) put by (simp add: upd_con_def)
  have "original_addr (console_table t c) = original_addr (console_table s c)"
    using t(2) Cons.prems(1) by (simp add: con_ok_def)
  then obtain u where u: "tty_write c str t = Inr u" "con_ok c (console_table u c)" "con_frame c t u"
    "cursor (console_table u c) = cursor (console_table t c) + length str"
    "\<forall>k < length str. vram u (V_MEM_BASE + 2 * (cursor (console_table t c) + k)) = str ! k"
    "\<forall>a < V_MEM_BASE + 2 * cursor (console_table t c). vram u a = vram t a"
    using Cons.IH [OF t(2)] Cons.prems cur by auto
  have "vram u (V_MEM_BASE + 2 * (?cur + k)) = (ch # str) ! k" if "k < Suc (length str)" for k
  proof (cases k)
    case 0
    with u(6) cur t(4) put show ?thesis by (simp add: upd_con_def)
  next
    case (Suc l)
    with u(5) cur that show ?thesis by simp
  qed
  moreover have "vram u a = vram s a" if "a < V_MEM_BASE + 2 * ?cur" for a
    using that u(6) cur t(4) put by (simp add: upd_con_def)
  ultimately show ?case
    using t u cur con_frame_trans [OF t(3) u(3)] by simp
qed

text \<open>
  Text written to a console appears there: as long as it fits, each character stands in the
  cell after the previous one, starting at the cursor, the cells before it keep their contents,
  and the cursor ends after the text.
\<close>

theorem tty_write_text:
  assumes "screen_ok s" "c < NR_CONSOLES" "list_all printable str"
    "cursor (console_table s c) + length str < original_addr (console_table s c) + con_size"
  shows "\<exists>t. tty_write c str s = Inr t \<and> screen_ok t \<and>
    cursor (console_table t c) = cursor (console_table s c) + length str \<and>
    (\<forall>k < length str. vram t (V_MEM_BASE + 2 * (cursor (console_table s c) + k)) = str ! k) \<and>
    (\<forall>a < V_MEM_BASE + 2 * cursor (console_table s c). vram t a = vram s a)"
proof -
  have "con_ok c (console_table s c)" using assms(1, 2) by (simp add: screen_ok_def)
  from tty_write_appears [OF this assms(2-4)] show ?thesis
    using screen_ok_frame [OF assms(1)] by blast
qed

lemma con_row_same:
  assumes "con_ok n con" "n < NR_CONSOLES" "(cursor con - original_addr con) mod SCREEN_WIDTH \<noteq> SCREEN_WIDTH - 1"
  shows "con_row con (cursor con + 1) = con_row con (cursor con)"
proof -
  have "cursor con + 1 < 2 ^ 32" "original_addr con \<le> cursor con"
    using assms(1, 2) by (auto simp: con_ok_def)
  then have "sub32 (cursor con + 1) (original_addr con) = Suc (cursor con - original_addr con)"
    by (simp add: sub32_small Suc_diff_le)
  moreover have "Suc a div 80 = a div 80" if "a mod 80 \<noteq> 79" for a :: nat
    using that by (simp add: div_Suc mod_Suc)
  ultimately show ?thesis
    using assms con_arith(1) [OF assms(1, 2)] by (simp add: con_row_def)
qed

text \<open>
  Backspace takes back one character: after a printable character that did not end a line,
  \<^verbatim>\<open>'\b'\<close> returns the cursor to where it was and blanks the cell, and leaves the rest of video
  memory as it was before the character.
\<close>

theorem backspace_undoes:
  assumes "screen_ok s" "c < NR_CONSOLES" "printable ch" "con = console_table s c"
    and "cursor con + 1 < original_addr con + con_size"
    and "(cursor con - original_addr con) mod SCREEN_WIDTH \<noteq> SCREEN_WIDTH - 1"
  shows "\<exists>t. bindE (out_char c ch s) (out_char c 0x08) = Inr t \<and> screen_ok t \<and>
    cursor (console_table t c) = cursor con \<and>
    vram t = (vram s)(V_MEM_BASE + cursor con * 2 := 0x20, V_MEM_BASE + cursor con * 2 + 1 := DEFAULT_CHAR_COLOR)"
proof -
  let ?p = "V_MEM_BASE + cursor con * 2"
  have con: "con_ok c (console_table s c)" using assms(1, 2) by (simp add: screen_ok_def)
  obtain t where t: "out_char c ch s = Inr t" "con_ok c (console_table t c)" "con_frame c s t"
    "vram t = vram (put_char c ch s)" "cursor (console_table t c) = cursor (console_table (put_char c ch s) c)"
    by (rule out_char_ok [OF con assms(2)])
  have put: "cursor (console_table t c) = cursor con + 1" "vram t = (vram s)(?p := ch, ?p + 1 := DEFAULT_CHAR_COLOR)"
    using t(4, 5) put_char_printable [OF con assms(2, 3)] assms(4, 5) by (simp_all add: upd_con_def)
  obtain u where u: "out_char c 0x08 t = Inr u" "con_ok c (console_table u c)" "con_frame c t u"
    "vram u = vram (put_char c 0x08 t)" "cursor (console_table u c) = cursor (console_table (put_char c 0x08 t) c)"
    by (rule out_char_ok [OF t(2) assms(2)])
  have orig: "original_addr (console_table t c) = original_addr con" "original_addr con \<le> cursor con"
    using t(2) con assms(4) by (simp_all add: con_ok_def)
  have row: "con_row (console_table t c) (cursor con + 1) = con_row (console_table t c) (cursor con)"
    using con_row_same [of c con] con assms(2, 4, 6) orig by (simp add: con_row_def)
  have "put_char c 0x08 t = upd_con c (\<lambda>x. x\<lparr>cursor := cursor con\<rparr>)
      (t\<lparr>vram := (vram t)(?p := 0x20, ?p + 1 := DEFAULT_CHAR_COLOR)\<rparr>)"
    using put(1) orig row by (simp add: put_char_def upd_con_def con_row_def Let_def)
  then have "cursor (console_table u c) = cursor con" "vram u = (vram s)(?p := 0x20, ?p + 1 := DEFAULT_CHAR_COLOR)"
    using u(4, 5) put(2) by (simp_all add: upd_con_def fun_upd_twist)
  moreover have "screen_ok u"
    using screen_ok_frame [OF assms(1) con_frame_trans [OF t(3) u(3)] u(2)] .
  ultimately show ?thesis using t(1) u(1) by simp
qed

section \<open>Instances\<close>

definition demo_screen :: screen where
  "demo_screen = \<lparr>console_table = (\<lambda>n. \<lparr>current_start_addr = n * con_size, original_addr = n * con_size,
     v_mem_limit = con_size, cursor = n * con_size\<rparr>), nr_current_console = 0, disp_pos = 0,
     vram = (\<lambda>_. 0), ports = []\<rparr>"

lemma demo_screen_ok: "screen_ok demo_screen"
  by (simp add: screen_ok_def con_ok_def demo_screen_def)

theorem out_char_safe_witness: "\<exists>t. out_char 2 0x41 demo_screen = Inr t \<and> screen_ok t"
proof -
  have "(2 :: nat) < NR_CONSOLES" by simp
  from out_char_safe [OF demo_screen_ok this, of "0x41"] show ?thesis by blast
qed

theorem tty_write_text_witness:
  "\<exists>t. tty_write 1 [0x68, 0x69] demo_screen = Inr t \<and> vram t (V_MEM_BASE + 2 * (con_size + 1)) = 0x69"
proof -
  have "list_all printable [0x68, 0x69]"
    "cursor (console_table demo_screen 1) + length [0x68, 0x69 :: u8] < original_addr (console_table demo_screen 1) + con_size"
    by (simp_all add: printable_def demo_screen_def)
  then obtain t where t: "tty_write 1 [0x68, 0x69] demo_screen = Inr t"
    "\<forall>k < length [0x68, 0x69 :: u8]. vram t (V_MEM_BASE + 2 * (cursor (console_table demo_screen 1) + k)) = [0x68, 0x69] ! k"
    using tty_write_text [OF demo_screen_ok, of 1 "[0x68, 0x69]"] by auto
  from t(2) [rule_format, of 1] t(1) show ?thesis by (simp add: demo_screen_def)
qed

theorem backspace_undoes_witness:
  "\<exists>t. bindE (out_char 0 0x41 demo_screen) (out_char 0 0x08) = Inr t \<and> cursor (console_table t 0) = 0"
proof -
  have "(0 :: nat) < NR_CONSOLES" "printable 0x41" by (simp_all add: printable_def)
  from backspace_undoes [OF demo_screen_ok this refl] show ?thesis
    by (simp add: demo_screen_def) blast
qed

end
