(* ===== verification/Clib.thy ===== *)
theory Clib
  imports Dlos_Params
begin

text \<open>
  The kernel's own C library: the comparison and concatenation routines of \<^verbatim>\<open>lib/misc.c\<close>,
  \<^verbatim>\<open>strlen\<close> and \<^verbatim>\<open>strcpy\<close> of \<^verbatim>\<open>lib/string.asm\<close>, and \<^verbatim>\<open>itoa\<close> of \<^verbatim>\<open>lib/klib.c\<close>.
  Characters are bytes, compared as the signed \<^verbatim>\<open>char\<close> of the target; the loops that run to a
  terminating zero are partial functions, \<open>None\<close> standing for a run that never ends.
\<close>

section \<open>Strings in memory\<close>

fun cstr :: "memory \<Rightarrow> u32 \<Rightarrow> u8 list \<Rightarrow> bool" where
  "cstr h a [] \<longleftrightarrow> h a = 0"
| "cstr h a (c # s) \<longleftrightarrow> c \<noteq> 0 \<and> h a = c \<and> cstr h (a + 1) s"

lemma cstr_nonzero: "cstr h a s \<Longrightarrow> 0 \<notin> set s"
  by (induction h a s rule: cstr.induct) auto

lemma cstr_cong: "(\<And>x. x \<in> region a (Suc (length s)) \<Longrightarrow> h x = h' x) \<Longrightarrow> cstr h a s = cstr h' a s"
  by (induction h a s rule: cstr.induct) (auto simp: region_Suc)

lemma cstr_end: "cstr h a s \<Longrightarrow> h (a + of_nat (length s)) = 0"
  by (induction h a s rule: cstr.induct) (auto simp: add.assoc)

lemma cstr_store:
  "0 \<notin> set s \<Longrightarrow> length s < 2 ^ 32 - 1 \<Longrightarrow> cstr (store_bytes h a (s @ [0])) a s"
proof (induction s arbitrary: h a)
  case (Cons c s)
  have "a \<notin> region (a + 1) (length (s @ [0]))"
    using Cons.prems by (intro notin_region_tail) simp
  moreover have "cstr (store_bytes (h(a := c)) (a + 1) (s @ [0])) (a + 1) s"
    using Cons.prems by (intro Cons.IH) simp_all
  ultimately show ?case
    using Cons.prems by (auto simp: store_bytes_frame)
qed simp

lemma cstr_append:
  assumes "cstr h a s" "cstr h (a + of_nat (length s)) t"
  shows "cstr h a (s @ t)"
  using assms by (induction h a s rule: cstr.induct) (auto simp: add.assoc)

section \<open>The routines of \<^verbatim>\<open>lib/string.asm\<close>\<close>

partial_function (option) strlen :: "memory \<Rightarrow> u32 \<Rightarrow> nat \<Rightarrow> nat option" where
  "strlen h p n = (if h p = 0 then Some n else strlen h (p + 1) (Suc n))"

partial_function (option) strcpy :: "memory \<Rightarrow> u32 \<Rightarrow> u32 \<Rightarrow> memory option" where
  "strcpy h dst src =
     (let al = h src; h = h(dst := al)
      in if al \<noteq> 0 then strcpy h (dst + 1) (src + 1) else Some h)"

lemma strlen_correct: "cstr h a s \<Longrightarrow> strlen h a n = Some (n + length s)"
  by (induction h a s arbitrary: n rule: cstr.induct) (auto simp: strlen.simps [of _ _ n for n])

lemma strlen_nonzero:
  "strlen h p n = Some k \<Longrightarrow> n \<le> k \<and> (\<forall>j < k - n. h (p + of_nat j) \<noteq> 0)"
proof (rule strlen.raw_induct [where P = "\<lambda>h p n k. n \<le> k \<and> (\<forall>j < k - n. h (p + of_nat j) \<noteq> 0)"])
  fix f :: "memory \<Rightarrow> u32 \<Rightarrow> nat \<Rightarrow> nat option" and h p n k
  assume IH: "\<And>h p n k. f h p n = Some k \<Longrightarrow> n \<le> k \<and> (\<forall>j < k - n. h (p + of_nat j) \<noteq> 0)"
    and run: "(if h p = 0 then Some n else f h (p + 1) (Suc n)) = Some k"
  show "n \<le> k \<and> (\<forall>j < k - n. h (p + of_nat j) \<noteq> 0)"
  proof (cases "h p = 0")
    case False
    with run IH [of h "p + 1" "Suc n" k]
    have k: "Suc n \<le> k" "\<And>j. j < k - Suc n \<Longrightarrow> h (p + 1 + of_nat j) \<noteq> 0"
      by auto
    have "h (p + of_nat j) \<noteq> 0" if "j < k - n" for j
      using that False k(2) [of "j - 1"] by (cases j) (auto simp: add.assoc)
    with k show ?thesis by simp
  qed (use run in auto)
qed

lemma region_step_disjoint:
  "region p (Suc n) \<inter> region q (Suc n) = {} \<Longrightarrow> region (p + 1) n \<inter> region (q + 1) n = {}"
  by (auto simp: region_Suc)

lemma cstr_after_write:
  assumes "cstr h (q + 1) s" "region p (Suc (Suc (length s))) \<inter> region q (Suc (Suc (length s))) = {}"
  shows "cstr (h(p := c)) (q + 1) s"
proof -
  have "p \<notin> region (q + 1) (Suc (length s))"
    using assms(2) by (auto simp: region_Suc [of q "Suc (length s)"] region_Suc [of p "Suc (length s)"])
  then have "cstr (h(p := c)) (q + 1) s = cstr h (q + 1) s"
    by (intro cstr_cong) auto
  with assms(1) show ?thesis by simp
qed

lemma strcpy_correct:
  assumes "cstr h src s" "region dst (Suc (length s)) \<inter> region src (Suc (length s)) = {}"
  shows "strcpy h dst src = Some (store_bytes h dst (s @ [0]))"
  using assms
proof (induction s arbitrary: h dst src)
  case Nil
  then show ?case by (subst strcpy.simps) simp
next
  case (Cons c s)
  have "strcpy (h(dst := c)) (dst + 1) (src + 1) = Some (store_bytes (h(dst := c)) (dst + 1) (s @ [0]))"
    using Cons.prems region_step_disjoint [of dst "Suc (length s)" src]
    by (intro Cons.IH cstr_after_write) simp_all
  with Cons.prems show ?case
    by (subst strcpy.simps) simp
qed

section \<open>Comparison\<close>

fun memcmp_loop :: "u8 list \<Rightarrow> u8 list \<Rightarrow> int" where
  "memcmp_loop (a # as) (b # bs) = (if a \<noteq> b then sint a - sint b else memcmp_loop as bs)"
| "memcmp_loop _ _ = 0"

definition memcmp :: "memory \<Rightarrow> u32 \<Rightarrow> u32 \<Rightarrow> int \<Rightarrow> int" where
  "memcmp h s1 s2 n =
     (if s1 = 0 \<or> s2 = 0 then sint (s1 - s2)
      else memcmp_loop (load_bytes h s1 (nat n)) (load_bytes h s2 (nat n)))"

partial_function (option) strcmp_loop :: "memory \<Rightarrow> u32 \<Rightarrow> u32 \<Rightarrow> int option" where
  "strcmp_loop h p1 p2 =
     (if h p1 \<noteq> 0 \<and> h p2 \<noteq> 0
      then if h p1 \<noteq> h p2 then Some (sint (h p1) - sint (h p2)) else strcmp_loop h (p1 + 1) (p2 + 1)
      else Some 0)"

definition strcmp :: "memory \<Rightarrow> u32 \<Rightarrow> u32 \<Rightarrow> int option" where
  "strcmp h s1 s2 = (if s1 = 0 \<or> s2 = 0 then Some (sint (s1 - s2)) else strcmp_loop h s1 s2)"

lemma sint_eq_iff: "sint (a :: u8) = sint b \<longleftrightarrow> a = b"
  by (auto intro: signed_word_eqI)

lemma memcmp_loop_zero_iff:
  "length xs = length ys \<Longrightarrow> memcmp_loop xs ys = 0 \<longleftrightarrow> xs = ys"
  by (induction xs ys rule: memcmp_loop.induct) (auto simp: sint_eq_iff)

lemma memcmp_zero_iff:
  assumes "s1 \<noteq> 0" "s2 \<noteq> 0"
  shows "memcmp h s1 s2 n = 0 \<longleftrightarrow> load_bytes h s1 (nat n) = load_bytes h s2 (nat n)"
  using assms by (simp add: memcmp_def memcmp_loop_zero_iff)

fun strcmp_spec :: "u8 list \<Rightarrow> u8 list \<Rightarrow> int" where
  "strcmp_spec (a # as) (b # bs) = (if a \<noteq> b then sint a - sint b else strcmp_spec as bs)"
| "strcmp_spec _ _ = 0"

lemma strcmp_loop_correct: "cstr h p1 s \<Longrightarrow> cstr h p2 t \<Longrightarrow> strcmp_loop h p1 p2 = Some (strcmp_spec s t)"
proof (induction s t arbitrary: p1 p2 rule: strcmp_spec.induct)
  case (1 a as b bs)
  then show ?case by (subst strcmp_loop.simps) auto
qed (subst strcmp_loop.simps, simp)+

lemma strcmp_spec_prefix:
  "strcmp_spec s t = 0 \<longleftrightarrow> take (length t) s = t \<or> take (length s) t = s"
  by (induction s t rule: strcmp_spec.induct) (auto simp: sint_eq_iff)

lemma strcmp_spec_diff:
  "strcmp_spec s t \<noteq> 0 \<Longrightarrow> \<exists>k. k < length s \<and> k < length t \<and> take k s = take k t \<and> s ! k \<noteq> t ! k \<and>
     strcmp_spec s t = sint (s ! k) - sint (t ! k)"
proof (induction s t rule: strcmp_spec.induct)
  case (1 a as b bs)
  show ?case
  proof (cases "a = b")
    case True
    with 1 obtain k where "k < length as" "k < length bs" "take k as = take k bs" "as ! k \<noteq> bs ! k"
      "strcmp_spec as bs = sint (as ! k) - sint (bs ! k)"
      by auto
    with True show ?thesis by (intro exI [of _ "Suc k"]) simp
  qed (intro exI [of _ 0], simp)
qed simp_all

text \<open>
  C15. \<^verbatim>\<open>strcmp\<close> terminates on terminated strings and returns 0 exactly when one of the two is
  a prefix of the other: unlike the C standard's function it does not tell a string from a
  proper prefix of it. Otherwise it returns the signed difference of the first bytes that
  differ.
\<close>

theorem strcmp_zero_iff_prefix:
  assumes "cstr h p1 s" "cstr h p2 t" "p1 \<noteq> 0" "p2 \<noteq> 0"
  shows "\<exists>r. strcmp h p1 p2 = Some r \<and>
    (r = 0 \<longleftrightarrow> take (length t) s = t \<or> take (length s) t = s) \<and>
    (r \<noteq> 0 \<longrightarrow> (\<exists>k. k < length s \<and> k < length t \<and> take k s = take k t \<and> s ! k \<noteq> t ! k \<and>
       r = sint (s ! k) - sint (t ! k)))"
  using assms by (auto simp: strcmp_def strcmp_loop_correct strcmp_spec_prefix strcmp_spec_diff)

theorem strcmp_zero_iff_prefix_witness:
  "\<exists>r. strcmp (store_bytes (store_bytes (\<lambda>_. 0) 0x100 [0x61, 0x62]) 0x200 [0x61]) 0x100 0x200 = Some r \<and> r = 0"
proof -
  let ?h = "store_bytes (store_bytes (\<lambda>_. 0) 0x100 [0x61, 0x62]) 0x200 [0x61 :: u8]"
  have "cstr ?h 0x100 [0x61, 0x62]" "cstr ?h 0x200 [0x61]" "(0x100 :: u32) \<noteq> 0" "(0x200 :: u32) \<noteq> 0"
    by simp_all
  from strcmp_zero_iff_prefix [OF this] show ?thesis by auto
qed

section \<open>Concatenation\<close>

partial_function (option) strcat_end :: "memory \<Rightarrow> u32 \<Rightarrow> u32 option" where
  "strcat_end h p1 = (if h p1 \<noteq> 0 then strcat_end h (p1 + 1) else Some p1)"

partial_function (option) strcat_copy :: "memory \<Rightarrow> u32 \<Rightarrow> u32 \<Rightarrow> memory option" where
  "strcat_copy h p1 p2 =
     (if h p2 \<noteq> 0 then strcat_copy (h(p1 := h p2)) (p1 + 1) (p2 + 1) else Some (h(p1 := 0)))"

definition strcat :: "memory \<Rightarrow> u32 \<Rightarrow> u32 \<Rightarrow> (memory \<times> u32) option" where
  "strcat h s1 s2 =
     (if s1 = 0 \<or> s2 = 0 then Some (h, 0)
      else Option.bind (strcat_end h s1) (\<lambda>p1. map_option (\<lambda>h'. (h', s1)) (strcat_copy h p1 s2)))"

lemma strcat_end_correct: "cstr h p s \<Longrightarrow> strcat_end h p = Some (p + of_nat (length s))"
  by (induction h p s rule: cstr.induct) (auto simp: strcat_end.simps add.assoc)

lemma strcat_copy_correct:
  assumes "cstr h p2 t" "region p1 (Suc (length t)) \<inter> region p2 (Suc (length t)) = {}"
  shows "strcat_copy h p1 p2 = Some (store_bytes h p1 (t @ [0]))"
  using assms
proof (induction t arbitrary: h p1 p2)
  case Nil
  then show ?case by (subst strcat_copy.simps) simp
next
  case (Cons c t)
  have "strcat_copy (h(p1 := c)) (p1 + 1) (p2 + 1) = Some (store_bytes (h(p1 := c)) (p1 + 1) (t @ [0]))"
    using Cons.prems region_step_disjoint [of p1 "Suc (length t)" p2]
    by (intro Cons.IH cstr_after_write) simp_all
  with Cons.prems show ?case
    by (subst strcat_copy.simps) simp
qed

lemma region_append: "region a (m + n) = region a m \<union> region (a + of_nat m) n"
  by (induction m arbitrary: a) (auto simp: region_Suc add.assoc)

lemma region_offset_disjoint:
  assumes "m + n \<le> 2 ^ 32"
  shows "region a m \<inter> region (a + of_nat m) n = {}"
proof -
  have False if "k < m" "l < n" "a + of_nat k = a + of_nat m + of_nat l" for k l :: nat
    using that assms of_nat_inj_u32 [of k "m + l"] by (simp add: add.assoc)
  then show ?thesis by (force simp: region_def)
qed

lemma strcat_correct:
  assumes s: "cstr h s1 s" and t: "cstr h s2 t" and nz: "s1 \<noteq> 0" "s2 \<noteq> 0"
    and room: "region (s1 + of_nat (length s)) (Suc (length t)) \<inter> region s2 (Suc (length t)) = {}"
      "length s + Suc (length t) < 2 ^ 32"
  shows "strcat h s1 s2 = Some (store_bytes h (s1 + of_nat (length s)) (t @ [0]), s1)"
    and "cstr (store_bytes h (s1 + of_nat (length s)) (t @ [0])) s1 (s @ t)"
proof -
  let ?e = "s1 + of_nat (length s)"
  show "strcat h s1 s2 = Some (store_bytes h ?e (t @ [0]), s1)"
    using nz by (simp add: strcat_def strcat_end_correct [OF s] strcat_copy_correct [OF t room(1)])
  have "region s1 (length s) \<inter> region ?e (Suc (length t)) = {}"
    using room(2) by (intro region_offset_disjoint) simp
  then have keep: "store_bytes h ?e (t @ [0]) x = h x" if "x \<in> region s1 (length s)" for x
    using that by (intro store_bytes_frame) auto
  have "cstr (store_bytes h ?e (t @ [0])) ?e t"
    using cstr_nonzero [OF t] room(2) by (intro cstr_store) simp_all
  moreover have "cstr h' s1 (s @ t)"
    if "\<And>x. x \<in> region s1 (length s) \<Longrightarrow> h' x = h x" "cstr h' (s1 + of_nat (length s)) t" for h'
    using s that
  proof (induction s arbitrary: s1)
    case (Cons c s)
    have "cstr h' (s1 + 1) (s @ t)"
      using Cons.prems by (intro Cons.IH) (simp_all add: region_Suc add.assoc)
    with Cons.prems show ?case
      by (simp add: region_Suc)
  qed simp
  ultimately show "cstr (store_bytes h ?e (t @ [0])) s1 (s @ t)"
    using keep by blast
qed

section \<open>Printing a number in hexadecimal\<close>

text \<open>The \<^verbatim>\<open>for\<close> loop of \<^verbatim>\<open>itoa\<close>, \<open>k\<close> counting the nibbles that are left (\<^verbatim>\<open>i = 4 * (k - 1)\<close>).\<close>

fun itoa_loop :: "nat \<Rightarrow> u32 \<Rightarrow> bool \<Rightarrow> u8 list \<Rightarrow> u8 list" where
  "itoa_loop 0 num flag p = p"
| "itoa_loop (Suc k) num flag p =
     (let ch = (ucast (drop_bit (4 * k) num AND 0xF) :: u8)
      in if flag \<or> ch > 0
         then itoa_loop k num True (p @ [if ch + 0x30 > 0x39 then ch + 0x30 + 7 else ch + 0x30])
         else itoa_loop k num flag p)"

definition itoa :: "u32 \<Rightarrow> u8 list" where
  "itoa num = (let p = [0x30, 0x78] in if num = 0 then p @ [0x30] else itoa_loop 8 num False p)"

definition hex_digit :: "u8 \<Rightarrow> nat" where
  "hex_digit c = (if c \<le> 0x39 then unat c - 0x30 else unat c - 0x37)"

definition hex_value :: "u8 list \<Rightarrow> nat" where
  "hex_value cs = foldl (\<lambda>v c. 16 * v + hex_digit c) 0 cs"

definition is_hex :: "u8 \<Rightarrow> bool" where
  "is_hex c \<longleftrightarrow> 0x30 \<le> c \<and> c \<le> 0x39 \<or> 0x41 \<le> c \<and> c \<le> 0x46"

definition nibble_char :: "u8 \<Rightarrow> u8" where
  "nibble_char ch = (if ch + 0x30 > 0x39 then ch + 0x30 + 7 else ch + 0x30)"

lemma nibble_char_correct:
  assumes "ch < 16"
  shows "hex_digit (nibble_char ch) = unat ch" "is_hex (nibble_char ch)" "nibble_char ch = 0x30 \<longleftrightarrow> ch = 0"
proof -
  have "unat ch \<in> set [0..<16]" using assms by (simp add: word_less_nat_alt)
  then have "of_nat (unat ch) \<in> set (map (of_nat :: nat \<Rightarrow> u8) [0..<16])"
    unfolding set_map by (rule imageI)
  then have "ch \<in> {0, 1, 2, 3, 4, 5, 6, 7, 8, 9, 10, 11, 12, 13, 14, 15}"
    by (simp del: set_upt set_map add: upt_conv_Cons)
  then show "hex_digit (nibble_char ch) = unat ch" "is_hex (nibble_char ch)" "nibble_char ch = 0x30 \<longleftrightarrow> ch = 0"
    by (auto simp: nibble_char_def hex_digit_def is_hex_def)
qed

lemma hex_value_snoc: "hex_value (cs @ [c]) = 16 * hex_value cs + hex_digit c"
  by (simp add: hex_value_def)

lemma nibble_split:
  "unat (drop_bit i w) = 16 * unat (drop_bit (i + 4) w) + unat (ucast (drop_bit i w AND 0xF) :: u8)"
  "(ucast (drop_bit i w AND 0xF) :: u8) < 16" for w :: u32
proof -
  have F: "drop_bit i w AND 0xF = take_bit 4 (drop_bit i w)"
    by (simp add: take_bit_eq_mask mask_eq_exp_minus_1)
  have "unat (ucast (drop_bit i w AND 0xF) :: u8) = take_bit 4 (unat (drop_bit i w))"
    unfolding F by (simp add: unsigned_ucast_eq unsigned_take_bit_eq)
  then have "unat (ucast (drop_bit i w AND 0xF) :: u8) = unat (drop_bit i w) mod 16"
    by (simp add: take_bit_eq_mod)
  moreover have "unat (drop_bit (i + 4) w) = unat (drop_bit i w) div 16"
    unfolding unat_drop_bit_eq by (simp add: drop_bit_eq_div power_add div_mult2_eq)
  ultimately show "unat (drop_bit i w) = 16 * unat (drop_bit (i + 4) w) + unat (ucast (drop_bit i w AND 0xF) :: u8)"
    "(ucast (drop_bit i w AND 0xF) :: u8) < 16"
    by (simp_all add: word_less_nat_alt)
qed

lemma itoa_loop_Suc:
  "itoa_loop (Suc k) num flag p =
     (let ch = (ucast (drop_bit (4 * k) num AND 0xF) :: u8)
      in if flag \<or> ch \<noteq> 0 then itoa_loop k num True (p @ [nibble_char ch]) else itoa_loop k num flag p)"
  by (simp add: nibble_char_def Let_def word_neq_0_conv)

lemma itoa_loop_prefix: "itoa_loop k num flag (pre @ p) = pre @ itoa_loop k num flag p"
  by (induction k arbitrary: flag p) (simp_all add: Let_def)

lemma itoa_loop_value:
  assumes "hex_value p = unat (drop_bit (4 * k) num)" "flag \<longleftrightarrow> p \<noteq> []"
    "list_all is_hex p" "p \<noteq> [] \<longrightarrow> hd p \<noteq> 0x30"
  shows "let r = itoa_loop k num flag p
    in hex_value r = unat num \<and> list_all is_hex r \<and> (r \<noteq> [] \<longrightarrow> hd r \<noteq> 0x30) \<and> length r \<le> length p + k"
  using assms
proof (induction k arbitrary: flag p)
  case 0
  then show ?case by (simp add: Let_def)
next
  case (Suc k)
  define ch where "ch = (ucast (drop_bit (4 * k) num AND 0xF) :: u8)"
  have split: "unat (drop_bit (4 * k) num) = 16 * hex_value p + unat ch" and "ch < 16"
    using nibble_split [of "4 * k" num] Suc.prems(1) by (simp_all add: ch_def add.commute)
  note nib = nibble_char_correct [OF \<open>ch < 16\<close>]
  show ?case
  proof (cases "flag \<or> ch \<noteq> 0")
    case True
    let ?p = "p @ [nibble_char ch]"
    have "hex_value ?p = unat (drop_bit (4 * k) num)" "list_all is_hex ?p" "hd ?p \<noteq> 0x30"
      using True Suc.prems split nib by (auto simp: hex_value_snoc hd_append)
    then show ?thesis
      using True Suc.IH [of ?p True] by (simp del: itoa_loop.simps(2) add: itoa_loop_Suc ch_def Let_def)
  next
    case False
    then have "p = []" "hex_value p = unat (drop_bit (4 * k) num)"
      using Suc.prems split by (auto simp: hex_value_def)
    with False Suc.IH [of p flag] Suc.prems show ?thesis
      by (simp del: itoa_loop.simps(2) add: itoa_loop_Suc ch_def Let_def)
  qed
qed

text \<open>
  \<^verbatim>\<open>itoa\<close> prints every 32-bit value so that it can be read back: after the prefix
  \<^verbatim>\<open>0x\<close> come between one and eight hexadecimal digits whose value is the number, without a
  leading zero unless the number is 0. With the terminator the text takes at most eleven
  bytes, which the sixteen-byte buffer of \<^verbatim>\<open>disp_int\<close> holds.
\<close>

theorem itoa_roundtrip:
  "\<exists>ds. itoa num = [0x30, 0x78] @ ds \<and> hex_value ds = unat num \<and> list_all is_hex ds \<and>
     1 \<le> length ds \<and> length ds \<le> 8 \<and> (hd ds = 0x30 \<longleftrightarrow> num = 0)"
proof (cases "num = 0")
  case True
  then show ?thesis
    by (simp add: itoa_def hex_value_def hex_digit_def is_hex_def)
next
  case False
  let ?ds = "itoa_loop 8 num False []"
  have "drop_bit 32 num = 0"
    by (rule bit_word_eqI) (auto simp: bit_simps dest!: bit_imp_le_length)
  then have r: "hex_value ?ds = unat num" "list_all is_hex ?ds" "?ds \<noteq> [] \<longrightarrow> hd ?ds \<noteq> 0x30" "length ?ds \<le> 8"
    using itoa_loop_value [of "[]" 8 num False] by (simp_all add: Let_def hex_value_def)
  moreover have "?ds \<noteq> []"
    using r(1) False by (auto simp: hex_value_def unat_eq_0)
  moreover have "itoa num = [0x30, 0x78] @ ?ds"
    using False itoa_loop_prefix [of 8 num False "[0x30, 0x78]" "[]"] by (simp add: itoa_def)
  ultimately show ?thesis
    using False by (intro exI [of _ ?ds]) (simp add: Suc_le_eq)
qed

end
