(* ===== verification/Tty.thy ===== *)
theory Tty
  imports Ipc_Refine Keyboard Console Message Clib
begin

text \<open>
  The terminals of \<^verbatim>\<open>kernel/tty.c\<close>: the task that turns keys into input lines for a reading
  process and writes a process's output to its console, and the system call \<^verbatim>\<open>sys_printx\<close>.

  The task works on the three terminals, the screen, the keyboard and, through
  \<^verbatim>\<open>phys_copy\<close>, on the memory of the processes it serves. A \<^verbatim>\<open>send_recv(SEND, ...)\<close> is one
  system call, with the checks of \<^verbatim>\<open>sys_sendrec\<close> and \<^verbatim>\<open>msg_send\<close> that can stop the machine, the
  search for a deadlock among them; when they pass, the message joins \<open>outbox\<close>, in order, and
  the theory \<^verbatim>\<open>Ipc\<close> says how it is delivered or queued. A task that has to wait for its partner
  goes on after the wait. \<open>tty_stack\<close> is what the uninitialised local message of
  \<^verbatim>\<open>tty_dev_write\<close> finds on the stack.
\<close>

section \<open>State\<close>

record tty =
  in_buf :: "u32 list"
  p_inbuf_head :: nat
  p_inbuf_tail :: nat
  inbuf_count :: int
  tty_caller :: int
  tty_procnr :: int
  tty_req_buf :: u32
  tty_left_cnt :: int
  tty_trans_cnt :: int
  p_console :: nat

record terminals =
  tty_table :: "nat \<Rightarrow> tty"
  scr :: screen
  kbd :: keyboard
  ks :: kstate
  outbox :: "(int \<times> message) list"
  tty_stack :: message

definition upd_tty :: "nat \<Rightarrow> (tty \<Rightarrow> tty) \<Rightarrow> terminals \<Rightarrow> terminals" where
  "upd_tty n f t = t\<lparr>tty_table := (tty_table t)(n := f (tty_table t n))\<rparr>"

text \<open>An operation on the screen, and one store into memory.\<close>

definition on_screen :: "(screen \<Rightarrow> screen result) \<Rightarrow> terminals \<Rightarrow> terminals result" where
  "on_screen f t = bindE (f (scr t)) (\<lambda>s. Inr (t\<lparr>scr := s\<rparr>))"

definition set_byte :: "u32 \<Rightarrow> u8 \<Rightarrow> terminals \<Rightarrow> terminals" where
  "set_byte a b t = t\<lparr>ks := (ks t)\<lparr>kmem := (kmem (ks t))(a := b)\<rparr>\<rparr>"

definition tty_send :: "int \<Rightarrow> message \<Rightarrow> terminals \<Rightarrow> terminals result" where
  "tty_send dest m t =
     check 47 (0 \<le> dest \<and> dest < nr_slots \<or> dest = ANY \<or> dest = INTERRUPT)
     (check 55 (dest \<noteq> TASK_TTY)
       (if \<not> (0 \<le> dest \<and> dest < nr_slots) then Inl (OutOfBounds 170)
        else bindE (deadlock (ks t) TASK_TTY (nat dest)) (\<lambda>dl.
          if dl then Inl (Panic 176) else Inr (t\<lparr>outbox := outbox t @ [(dest, m)]\<rparr>))))"

text \<open>\<^verbatim>\<open>va2la(TASK_TTY, ...)\<close> of a local variable: the assertion of line 119 of \<^verbatim>\<open>proc.c\<close>.\<close>

definition tty_local :: "terminals \<Rightarrow> terminals result \<Rightarrow> terminals result" where
  "tty_local t r = check 119 (ldt_seg_linear (proc_table (ks t) TASK_TTY) INDEX_LDT_RW = 0) r"

section \<open>The input buffer\<close>

definition init_tty :: "nat \<Rightarrow> terminals \<Rightarrow> terminals result" where
  "init_tty n t =
     (let t = upd_tty n (\<lambda>y. y\<lparr>inbuf_count := 0, p_inbuf_head := 0, p_inbuf_tail := 0\<rparr>) t;
          t = upd_tty n (\<lambda>y. y\<lparr>p_console := n\<rparr>) t
      in on_screen (init_screen n) t)"

definition put_key :: "u32 \<Rightarrow> tty \<Rightarrow> tty" where
  "put_key key y =
     (if inbuf_count y < int TTY_IN_BYTES then
        let y = y\<lparr>in_buf := (in_buf y)[p_inbuf_head y := key]\<rparr>;
            y = y\<lparr>p_inbuf_head := p_inbuf_head y + 1\<rparr>;
            y = (if p_inbuf_head y = TTY_IN_BYTES then y\<lparr>p_inbuf_head := 0\<rparr> else y)
        in y\<lparr>inbuf_count := inbuf_count y + 1\<rparr>
      else y)"

text \<open>The first lines of \<^verbatim>\<open>tty_dev_write\<close>: the oldest key leaves the buffer.\<close>

definition take_key :: "tty \<Rightarrow> (u32 \<times> tty) option" where
  "take_key y =
     (if inbuf_count y \<noteq> 0 then
        let ch = in_buf y ! p_inbuf_tail y;
            y = y\<lparr>p_inbuf_tail := p_inbuf_tail y + 1\<rparr>;
            y = (if p_inbuf_tail y = TTY_IN_BYTES then y\<lparr>p_inbuf_tail := 0\<rparr> else y)
        in Some (ch, y\<lparr>inbuf_count := inbuf_count y - 1\<rparr>)
      else None)"

section \<open>Keys\<close>

text \<open>F12 without Alt is a debugging aid: it disables interrupts and loops for ever.\<close>

definition in_process :: "nat \<Rightarrow> u32 \<Rightarrow> terminals \<Rightarrow> terminals result" where
  "in_process n key t =
     (if key AND FLAG_EXT = 0 then Inr (upd_tty n (put_key key) t)
      else let raw_code = key AND MASK_RAW;
               shift = (key AND FLAG_SHIFT_L \<noteq> 0 \<or> key AND FLAG_SHIFT_R \<noteq> 0);
               alt = (key AND FLAG_ALT_L \<noteq> 0 \<or> key AND FLAG_ALT_R \<noteq> 0);
               c = p_console (tty_table t n)
           in if raw_code = ENTER then Inr (upd_tty n (put_key 0x0A) t)
              else if raw_code = BACKSPACE then Inr (upd_tty n (put_key 0x08) t)
              else if raw_code = UP then
                Inr (if shift then t\<lparr>scr := scroll_screen c SCR_DN (scr t)\<rparr> else t)
              else if raw_code = DOWN then
                Inr (if shift then t\<lparr>scr := scroll_screen c SCR_UP (scr t)\<rparr> else t)
              else if F1 \<le> raw_code \<and> raw_code \<le> F12 then
                (if alt then Inr (t\<lparr>scr := select_console (int (unat (raw_code - F1))) (scr t)\<rparr>)
                 else if raw_code = F12 then Inl (Hang 123)
                 else Inr t)
              else Inr t)"

text \<open>\<open>arrivals\<close> are the scan codes that come in while the driver waits for one.\<close>

definition tty_dev_read :: "u8 list \<Rightarrow> nat \<Rightarrow> terminals \<Rightarrow> (u8 list \<times> terminals) result" where
  "tty_dev_read arrivals n t =
     (if is_current_console (p_console (tty_table t n)) (scr t) then
        bindE (keyboard_read arrivals (kbd t)) (\<lambda>(key, arrivals, k).
          let t = t\<lparr>kbd := k\<rparr>
          in case key of
               None \<Rightarrow> Inr (arrivals, t)
             | Some key \<Rightarrow> bindE (in_process n key t) (\<lambda>t. Inr (arrivals, t)))
      else Inr (arrivals, t))"

section \<open>Printing from the task\<close>

text \<open>\<^verbatim>\<open>printl\<close> called by the terminal task: the text goes through \<^verbatim>\<open>sys_printx\<close> to the
  console of the calling task.\<close>

definition tty_printl :: "u8 list \<Rightarrow> terminals \<Rightarrow> terminals result" where
  "tty_printl str t =
     (let n = nr_tty (proc_table (ks t) TASK_TTY)
      in if 0 \<le> n \<and> n < int NR_CONSOLES
         then on_screen (tty_write (p_console (tty_table t (nat n))) str) t
         else Inl (OutOfBounds 277))"

text \<open>The text \<^verbatim>\<open>"tty resume"\<close>.\<close>

definition resume_text :: "u8 list" where
  "resume_text = [0x74, 0x74, 0x79, 0x20, 0x72, 0x65, 0x73, 0x75, 0x6D, 0x65]"

section \<open>Serving a reader\<close>

text \<open>Lines 159 to 172: a character for a waiting reader is echoed and stored, a backspace takes
  back the last one.\<close>

definition echo_char :: "nat \<Rightarrow> u8 \<Rightarrow> terminals \<Rightarrow> terminals result" where
  "echo_char n ch t =
     (let y = tty_table t n
      in if 0x20 \<le> ch \<and> ch \<le> 0x7E then
           bindE (on_screen (out_char (p_console y) ch) t) (\<lambda>t.
             let p = tty_req_buf y + word_of_int (tty_trans_cnt y)
             in tty_local t (let t = set_byte p ch t in Inr (upd_tty n (\<lambda>y. y\<lparr>tty_trans_cnt := tty_trans_cnt y + 1, tty_left_cnt := tty_left_cnt y - 1\<rparr>) t)))
         else if ch = 0x08 \<and> tty_trans_cnt y \<noteq> 0 then
           bindE (on_screen (out_char (p_console y) ch) t) (\<lambda>t.
             Inr (upd_tty n (\<lambda>y. y\<lparr>tty_trans_cnt := tty_trans_cnt y - 1, tty_left_cnt := tty_left_cnt y + 1\<rparr>) t))
         else Inr t)"

text \<open>Lines 173 to 182: the line is complete, the reader is resumed.\<close>

definition resume_reader :: "nat \<Rightarrow> terminals \<Rightarrow> terminals result" where
  "resume_reader n t =
     bindE (on_screen (out_char (p_console (tty_table t n)) 0x0A) t) (\<lambda>t.
     bindE (tty_printl resume_text t) (\<lambda>t.
       let y = tty_table t n;
           m = (tty_stack t)\<lparr>msg_type := RESUME_PROC, m3i3 := word_of_int (tty_procnr y),
                  m3i2 := word_of_int (tty_trans_cnt y)\<rparr>
       in bindE (tty_send (tty_caller y) m t) (\<lambda>t. Inr (upd_tty n (\<lambda>y. y\<lparr>tty_left_cnt := 0\<rparr>) t))))"

definition tty_dev_write :: "nat \<Rightarrow> terminals \<Rightarrow> terminals result" where
  "tty_dev_write n t =
     (case take_key (tty_table t n) of
        None \<Rightarrow> Inr t
      | Some (key, y) \<Rightarrow>
          let ch = ucast key; t = upd_tty n (\<lambda>_. y) t
          in if tty_left_cnt y \<noteq> 0 then
               bindE (echo_char n ch t) (\<lambda>t.
                 if ch = 0x0A \<or> tty_left_cnt (tty_table t n) = 0 then resume_reader n t else Inr t)
             else Inr t)"

text \<open>The \<^verbatim>\<open>do ... while\<close> loop of \<^verbatim>\<open>task_tty\<close> for one terminal; \<open>None\<close> when it never ends.\<close>

partial_function (option) tty_poll :: "nat \<Rightarrow> u8 list \<Rightarrow> terminals \<Rightarrow> (u8 list \<times> terminals) result option" where
  "tty_poll n arrivals t =
     (case bindE (tty_dev_read arrivals n t) (\<lambda>(arrivals, t). bindE (tty_dev_write n t) (\<lambda>t. Inr (arrivals, t))) of
        Inl e \<Rightarrow> Some (Inl e)
      | Inr (arrivals, t) \<Rightarrow>
          if inbuf_count (tty_table t n) \<noteq> 0 then tty_poll n arrivals t else Some (Inr (arrivals, t)))"

section \<open>Requests\<close>

text \<open>The pid of a request indexes \<^verbatim>\<open>proc_table\<close> unchecked.\<close>

definition va2la_pid :: "nat \<Rightarrow> kstate \<Rightarrow> int \<Rightarrow> u32 \<Rightarrow> u32 result" where
  "va2la_pid ln s pid va = (if 0 \<le> pid \<and> pid < nr_slots then va2la s (nat pid) va else Inl (OutOfBounds ln))"

definition tty_do_read :: "nat \<Rightarrow> message \<Rightarrow> terminals \<Rightarrow> terminals result" where
  "tty_do_read n m t =
     bindE (va2la_pid 190 (ks t) (sint (PROC_NR m)) (BUF m)) (\<lambda>la.
       let t = upd_tty n (\<lambda>y. y\<lparr>tty_caller := sint (source m), tty_procnr := sint (PROC_NR m), tty_req_buf := la,
                 tty_left_cnt := sint (CNT m), tty_trans_cnt := 0\<rparr>) t
       in tty_send (sint (source m)) (m\<lparr>msg_type := SUSPEND_PROC\<rparr>) t)"

text \<open>The loop of \<^verbatim>\<open>tty_do_write\<close>: two bytes at a time through the task's own buffer. A negative
  count makes \<^verbatim>\<open>min\<close> negative, and the copy then runs over all of memory.\<close>

function tty_out :: "nat \<Rightarrow> u32 \<Rightarrow> int \<Rightarrow> terminals \<Rightarrow> terminals result" where
  "tty_out n p i t =
     (if i = 0 then Inr t
      else if i < 0 then Inl (OutOfBounds 208)
      else let bytes = min TTY_OUT_BUF_LEN i;
               buf = load_bytes (kmem (ks t)) p (nat bytes)
           in tty_local t (bindE (on_screen (tty_write (p_console (tty_table t n)) buf) t)
                (tty_out n (p + word_of_int bytes) (i - bytes))))"
  by pat_completeness auto
termination by (relation "measure (\<lambda>(n, p, i, t). nat i)") auto

declare tty_out.simps [simp del]

definition tty_do_write :: "nat \<Rightarrow> message \<Rightarrow> terminals \<Rightarrow> terminals result" where
  "tty_do_write n m t =
     bindE (va2la_pid 202 (ks t) (sint (PROC_NR m)) (BUF m)) (\<lambda>p.
     bindE (tty_out n p (sint (CNT m)) t) (\<lambda>t.
       tty_send (sint (source m)) (m\<lparr>msg_type := SYSCALL_RET\<rparr>) t))"

text \<open>What \<^verbatim>\<open>task_tty\<close> does with a message; an unknown one is dumped and ignored.\<close>

definition task_tty_msg :: "message \<Rightarrow> terminals \<Rightarrow> terminals result" where
  "task_tty_msg m t =
     check 46 (sint (source m) \<noteq> TASK_TTY)
     (let d = sint (DEVICE m);
          on_tty = (\<lambda>f. if 0 \<le> d \<and> d < int NR_CONSOLES then f (nat d) else Inl (OutOfBounds 48))
      in if msg_type m = DEV_OPEN then
           tty_send (sint (source m)) (reset_msg\<lparr>msg_type := SYSCALL_RET\<rparr>) t
         else if msg_type m = DEV_READ then on_tty (\<lambda>n. tty_do_read n m t)
         else if msg_type m = DEV_WRITE then on_tty (\<lambda>n. tty_do_write n m t)
         else if msg_type m = HARD_INT then Inr (t\<lparr>ks := (ks t)\<lparr>key_pressed := 0\<rparr>\<rparr>)
         else Inr t)"

text \<open>The start of \<^verbatim>\<open>task_tty\<close>, and the polling of all terminals before each message.\<close>

definition task_tty_init :: "terminals \<Rightarrow> terminals result" where
  "task_tty_init t =
     bindE (init_tty 0 (t\<lparr>kbd := init_keyboard (kbd t)\<rparr>)) (\<lambda>t.
     bindE (init_tty 1 t) (\<lambda>t.
     bindE (init_tty 2 t) (\<lambda>t.
       Inr (t\<lparr>scr := select_console 0 (scr t)\<rparr>))))"

definition tty_poll_all :: "u8 list \<Rightarrow> terminals \<Rightarrow> (u8 list \<times> terminals) result" where
  "tty_poll_all arrivals t =
     bindE (bindE (returns 37 (tty_poll 0 arrivals t)) id) (\<lambda>(arrivals, t).
     bindE (bindE (returns 37 (tty_poll 1 arrivals t)) id) (\<lambda>(arrivals, t).
       bindE (returns 37 (tty_poll 2 arrivals t)) id))"

text \<open>
  The main loop, from one \<^verbatim>\<open>send_recv(RECEIVE, ANY, &msg)\<close> on: a list of the messages it
  receives, each with the scan codes the keyboard interrupt stores while the task waits for it.
\<close>

definition key_arrives :: "u8 \<Rightarrow> terminals \<Rightarrow> terminals" where
  "key_arrives sc t =
     (let (k, pressed) = keyboard_handler sc (kbd t) in t\<lparr>kbd := k, ks := (ks t)\<lparr>key_pressed := pressed\<rparr>\<rparr>)"

definition tty_turn :: "u8 list \<Rightarrow> message \<Rightarrow> terminals \<Rightarrow> terminals result" where
  "tty_turn codes m t =
     bindE (task_tty_msg m (fold key_arrives codes t)) (\<lambda>t.
     bindE (tty_poll_all [] t) (\<lambda>(_, t). Inr t))"

fun task_tty :: "(u8 list \<times> message) list \<Rightarrow> terminals \<Rightarrow> terminals result" where
  "task_tty [] t = Inr t"
| "task_tty ((codes, m) # rest) t = bindE (tty_turn codes m t) (task_tty rest)"

section \<open>The system call \<^verbatim>\<open>printx\<close>\<close>

text \<open>
  A string that starts with the magic byte of \<^verbatim>\<open>panic\<close>, or with that of \<^verbatim>\<open>assert\<close> when a task
  printed it, stops the machine with the text repeated in red over all of video memory. Cells
  are counted from the start of video memory; \<open>gray_rest\<close> is the inner loop, which colours the
  cells up to the next multiple of eight rows and leaves their characters.
\<close>

abbreviation (input) MAG_CH_PANIC :: u8 where "MAG_CH_PANIC \<equiv> 2"
abbreviation (input) MAG_CH_ASSERT :: u8 where "MAG_CH_ASSERT \<equiv> 3"
abbreviation (input) GRAY_CHAR :: u8 where "GRAY_CHAR \<equiv> 0x08"
abbreviation (input) RED_CHAR :: u8 where "RED_CHAR \<equiv> 0x1C"

function gray_rest :: "nat \<Rightarrow> (nat \<Rightarrow> u8) \<Rightarrow> nat \<times> (nat \<Rightarrow> u8)" where
  "gray_rest c v =
     (if (2 * c) mod (SCREEN_WIDTH * 16) \<noteq> 0
      then gray_rest (c + 1) (v(V_MEM_BASE + 2 * c + 1 := GRAY_CHAR)) else (c, v))"
  by pat_completeness auto
termination
proof (relation "measure (\<lambda>(c, v). (640 - c mod 640) mod 640)", goal_cases)
  case (2 c v)
  moreover have "2 * c mod 1280 = 2 * (c mod 640)" using mult_mod_right [of 2 c 640] by simp
  ultimately have "c mod 640 \<noteq> 0" by simp
  then show ?case by (cases "c mod 640 = 639") (simp_all add: mod_Suc)
qed simp

declare gray_rest.simps [simp del]

lemma gray_rest_le: "c \<le> fst (gray_rest c v)"
proof (induction c v rule: gray_rest.induct)
  case (1 c v)
  show ?case
  proof (cases "(2 * c) mod (SCREEN_WIDTH * 16) \<noteq> 0")
    case True
    then have "gray_rest c v = gray_rest (c + 1) (v(V_MEM_BASE + 2 * c + 1 := GRAY_CHAR))"
      by (simp add: gray_rest.simps [of c])
    with 1 [OF True] show ?thesis by (metis add_leD1)
  qed (simp add: gray_rest.simps [of c])
qed

function panic_screen :: "memory \<Rightarrow> u32 \<Rightarrow> u32 \<Rightarrow> nat \<Rightarrow> (nat \<Rightarrow> u8) \<Rightarrow> (nat \<Rightarrow> u8)" where
  "panic_screen h p q c v =
     (if 2 * c < V_MEM_SIZE then
        let v = v(V_MEM_BASE + 2 * c := h q, V_MEM_BASE + 2 * c + 1 := RED_CHAR)
        in if h (q + 1) = 0
           then let g = gray_rest (c + 1) v in panic_screen h p (p + 1) (fst g) (snd g)
           else panic_screen h p (q + 1) (c + 1) v
      else v)"
  by pat_completeness auto
termination
proof (relation "measure (\<lambda>(h, p, q, c, v). V_MEM_SIZE - c)", goal_cases)
  case (2 h p q c v v' g)
  then have "c + 1 \<le> fst g" using gray_rest_le by blast
  with 2(1) show ?case by (cases g) simp
qed auto

declare panic_screen.simps [simp del]

text \<open>The final loop: every byte up to the terminating zero but the magic ones.\<close>

partial_function (option) printx_loop :: "memory \<Rightarrow> nat \<Rightarrow> u32 \<Rightarrow> screen \<Rightarrow> screen result option" where
  "printx_loop h c p s =
     (let ch = h p
      in if ch = 0 then Some (Inr s)
         else if ch = MAG_CH_PANIC \<or> ch = MAG_CH_ASSERT then printx_loop h c (p + 1) s
         else (case out_char c ch s of Inl e \<Rightarrow> Some (Inl e) | Inr s \<Rightarrow> printx_loop h c (p + 1) s))"

datatype printx_end = Halted "nat \<Rightarrow> u8" | Printed screen

text \<open>\<open>k_reenter\<close> is unsigned, so it is zero (the caller was a process) or positive (the kernel
  itself); the third branch of the source cannot be taken.\<close>

definition sys_printx :: "terminals \<Rightarrow> u32 \<Rightarrow> nat \<Rightarrow> printx_end result" where
  "sys_printx t s p_proc =
     bindE (if k_reenter (ks t) = 0 then va2la (ks t) p_proc s else Inr s) (\<lambda>p.
       let h = kmem (ks t)
       in if h p = MAG_CH_PANIC \<or> h p = MAG_CH_ASSERT \<and> p_proc_ready (ks t) < NR_TASKS
          then Inr (Halted (panic_screen h p (p + 1) 0 (vram (scr t))))
          else if h p = 0 then Inr (Printed (scr t))
          else let n = nr_tty (proc_table (ks t) p_proc)
               in if 0 \<le> n \<and> n < int NR_CONSOLES
                  then bindE (returns 273 (printx_loop h (p_console (tty_table t (nat n))) p (scr t))) (\<lambda>r.
                         bindE r (\<lambda>s. Inr (Printed s)))
                  else Inl (OutOfBounds 277))"

section \<open>The input buffer is a bounded queue\<close>

definition tty_ok :: "tty \<Rightarrow> bool" where
  "tty_ok y \<longleftrightarrow> ring_ok TTY_IN_BYTES (in_buf y) (p_inbuf_head y) (p_inbuf_tail y) (inbuf_count y)"

definition tty_keys :: "tty \<Rightarrow> u32 list" where
  "tty_keys y = ring_abs (in_buf y) (p_inbuf_tail y) (nat (inbuf_count y))"

lemma put_key_ring:
  "inbuf_count y < 256 \<Longrightarrow> put_key key y = y\<lparr>in_buf := (in_buf y)[p_inbuf_head y := key],
     p_inbuf_head := ring_next 256 (p_inbuf_head y), inbuf_count := inbuf_count y + 1\<rparr>"
  by (simp add: put_key_def ring_next_def Let_def)

lemma take_key_ring:
  "inbuf_count y \<noteq> 0 \<Longrightarrow> take_key y = Some (in_buf y ! p_inbuf_tail y,
     y\<lparr>p_inbuf_tail := ring_next 256 (p_inbuf_tail y), inbuf_count := inbuf_count y - 1\<rparr>)"
  by (simp add: take_key_def ring_next_def Let_def)

lemma tty_keys_count: "tty_ok y \<Longrightarrow> inbuf_count y = int (length (tty_keys y))"
  by (simp add: tty_ok_def ring_ok_def tty_keys_def)

interpretation keys: bounded_fifo tty_ok tty_keys TTY_IN_BYTES put_key take_key
proof unfold_locales
  fix y key
  assume ok: "tty_ok y"
  then have pos: "0 \<le> inbuf_count y" by (simp add: tty_ok_def ring_ok_def)
  show "tty_ok (put_key key y)"
  proof (cases "inbuf_count y < 256")
    case True
    with ok ring_put(1) [of 256] show ?thesis by (simp add: put_key_ring tty_ok_def)
  qed (use ok in \<open>simp add: put_key_def\<close>)
  show "tty_keys (put_key key y) = (if length (tty_keys y) < TTY_IN_BYTES then tty_keys y @ [key] else tty_keys y)"
  proof (cases "inbuf_count y < 256")
    case True
    with ok pos ring_put(2) [of 256] show ?thesis by (simp add: put_key_ring tty_ok_def tty_keys_def nat_less_iff)
  qed (use ok in \<open>simp add: put_key_def tty_keys_def tty_ok_def ring_ok_def nat_less_iff\<close>)
  show "take_key y = None" if "tty_keys y = []"
    using tty_keys_count [OF ok] that by (simp add: take_key_def)
  show "\<exists>y'. take_key y = Some (key, y') \<and> tty_ok y' \<and> tty_keys y' = rest" if k: "tty_keys y = key # rest" for rest
  proof -
    have "0 < inbuf_count y" using tty_keys_count [OF ok] k by simp
    with ok k ring_get [of 256 "in_buf y" "p_inbuf_head y" "p_inbuf_tail y" "inbuf_count y"] show ?thesis
      by (simp add: take_key_ring tty_ok_def tty_keys_def)
  qed
  show "length (tty_keys y) \<le> TTY_IN_BYTES"
    using ok by (simp add: tty_keys_def tty_ok_def ring_ok_def nat_le_iff)
qed

text \<open>The fields of a reader's request are not part of the buffer.\<close>

lemma put_key_request [simp]:
  "tty_caller (put_key key y) = tty_caller y" "tty_procnr (put_key key y) = tty_procnr y"
  "tty_req_buf (put_key key y) = tty_req_buf y" "tty_left_cnt (put_key key y) = tty_left_cnt y"
  "tty_trans_cnt (put_key key y) = tty_trans_cnt y" "p_console (put_key key y) = p_console y"
  by (simp_all add: put_key_def Let_def)

lemma take_key_request:
  assumes "take_key y = Some (key, y')"
  shows "tty_caller y' = tty_caller y \<and> tty_procnr y' = tty_procnr y \<and> tty_req_buf y' = tty_req_buf y \<and>
    tty_left_cnt y' = tty_left_cnt y \<and> tty_trans_cnt y' = tty_trans_cnt y \<and> p_console y' = p_console y"
  using assms by (auto simp: take_key_def Let_def split: if_splits)

lemma tty_ok_request [simp]:
  "tty_ok (y\<lparr>tty_caller := a\<rparr>) = tty_ok y" "tty_ok (y\<lparr>tty_procnr := b\<rparr>) = tty_ok y"
  "tty_ok (y\<lparr>tty_req_buf := c\<rparr>) = tty_ok y" "tty_ok (y\<lparr>tty_left_cnt := d\<rparr>) = tty_ok y"
  "tty_ok (y\<lparr>tty_trans_cnt := e\<rparr>) = tty_ok y"
  "tty_keys (y\<lparr>tty_caller := a\<rparr>) = tty_keys y" "tty_keys (y\<lparr>tty_procnr := b\<rparr>) = tty_keys y"
  "tty_keys (y\<lparr>tty_req_buf := c\<rparr>) = tty_keys y" "tty_keys (y\<lparr>tty_left_cnt := d\<rparr>) = tty_keys y"
  "tty_keys (y\<lparr>tty_trans_cnt := e\<rparr>) = tty_keys y"
  by (simp_all add: tty_ok_def tty_keys_def)

section \<open>The invariant of the task\<close>

definition terminals_ok :: "terminals \<Rightarrow> bool" where
  "terminals_ok t \<longleftrightarrow> screen_ok (scr t) \<and> kb_ok (kb_in (kbd t)) \<and>
     (\<forall>n < NR_CONSOLES. tty_ok (tty_table t n) \<and> p_console (tty_table t n) = n) \<and>
     0 \<le> nr_tty (proc_table (ks t) TASK_TTY) \<and> nr_tty (proc_table (ks t) TASK_TTY) < int NR_CONSOLES \<and>
     ldt_seg_linear (proc_table (ks t) TASK_TTY) INDEX_LDT_RW = 0"

lemma tty_local_ok [simp]: "terminals_ok t \<Longrightarrow> tty_local t r = r"
  by (simp add: terminals_ok_def tty_local_def)

text \<open>The task may send to a process that is not waiting, directly or not, to send to the task.\<close>

definition sendable :: "terminals \<Rightarrow> int \<Rightarrow> bool" where
  "sendable t d \<longleftrightarrow> 0 \<le> d \<and> d < nr_slots \<and> d \<noteq> TASK_TTY \<and> deadlock (ks t) TASK_TTY (nat d) = Inr False"

lemma tty_send_ok: "sendable t d \<Longrightarrow> tty_send d m t = Inr (t\<lparr>outbox := outbox t @ [(d, m)]\<rparr>)"
  by (simp add: sendable_def tty_send_def)

lemma sendable_cong: "proc_table (ks u) = proc_table (ks t) \<Longrightarrow> sendable u d = sendable t d"
  unfolding sendable_def deadlock_def by (erule ssubst) (rule refl)

lemma terminals_okD:
  assumes "terminals_ok t" "n < NR_CONSOLES"
  shows "screen_ok (scr t)" "kb_ok (kb_in (kbd t))" "tty_ok (tty_table t n)" "p_console (tty_table t n) = n"
  using assms by (simp_all add: terminals_ok_def)

lemma terminals_ok_upd:
  "terminals_ok t \<Longrightarrow> tty_ok (f (tty_table t n)) \<Longrightarrow> p_console (f (tty_table t n)) = p_console (tty_table t n) \<Longrightarrow>
   terminals_ok (upd_tty n f t)"
  by (simp add: terminals_ok_def upd_tty_def)

lemma terminals_ok_scr: "terminals_ok t \<Longrightarrow> screen_ok s \<Longrightarrow> terminals_ok (t\<lparr>scr := s\<rparr>)"
  by (simp add: terminals_ok_def)

lemma terminals_ok_kmem [simp]: "terminals_ok (t\<lparr>ks := (ks t)\<lparr>kmem := h\<rparr>\<rparr>) = terminals_ok t"
  by (simp add: terminals_ok_def)

lemma terminals_ok_outbox [simp]: "terminals_ok (t\<lparr>outbox := ms\<rparr>) = terminals_ok t"
  by (simp add: terminals_ok_def)

lemma terminals_ok_set_byte [simp]: "terminals_ok (set_byte a b t) = terminals_ok t"
  by (simp add: terminals_ok_def set_byte_def)

lemma upd_tty_sel [simp]:
  "tty_table (upd_tty n f t) = (tty_table t)(n := f (tty_table t n))" "scr (upd_tty n f t) = scr t"
  "kbd (upd_tty n f t) = kbd t" "ks (upd_tty n f t) = ks t" "outbox (upd_tty n f t) = outbox t"
  "tty_stack (upd_tty n f t) = tty_stack t"
  by (simp_all add: upd_tty_def)

lemma set_byte_sel [simp]:
  "tty_table (set_byte a b t) = tty_table t" "scr (set_byte a b t) = scr t" "kbd (set_byte a b t) = kbd t"
  "kmem (ks (set_byte a b t)) = (kmem (ks t))(a := b)" "outbox (set_byte a b t) = outbox t"
  "proc_table (ks (set_byte a b t)) = proc_table (ks t)" "tty_stack (set_byte a b t) = tty_stack t"
  by (simp_all add: set_byte_def)

text \<open>Output always succeeds and changes nothing but the screen.\<close>

lemma out_char_screen:
  assumes "screen_ok s" "c < NR_CONSOLES"
  obtains s' where "out_char c ch s = Inr s'" "screen_ok s'" "nr_current_console s' = nr_current_console s"
proof -
  have "con_ok c (console_table s c)" using assms by (simp add: screen_ok_def)
  then obtain s' where "out_char c ch s = Inr s'" "con_ok c (console_table s' c)" "con_frame c s s'"
    by (rule out_char_ok [OF _ assms(2)])
  with that screen_ok_frame [OF assms(1)] show thesis by (auto simp: con_frame_def)
qed

lemma tty_write_screen:
  assumes "screen_ok s" "c < NR_CONSOLES"
  shows "\<exists>s'. tty_write c str s = Inr s' \<and> screen_ok s' \<and> nr_current_console s' = nr_current_console s"
  using assms(1)
proof (induction str arbitrary: s)
  case (Cons ch str)
  then obtain s1 where "out_char c ch s = Inr s1" "screen_ok s1" "nr_current_console s1 = nr_current_console s"
    using out_char_screen [OF _ assms(2)] by metis
  with Cons.IH [of s1] show ?case by simp
qed simp

lemma on_screen_out:
  assumes "terminals_ok t" "n < NR_CONSOLES"
  obtains s where "on_screen (out_char (p_console (tty_table t n)) ch) t = Inr (t\<lparr>scr := s\<rparr>)" "screen_ok s"
    "nr_current_console s = nr_current_console (scr t)"
proof -
  obtain s where "out_char n ch (scr t) = Inr s" "screen_ok s" "nr_current_console s = nr_current_console (scr t)"
    using out_char_screen [OF terminals_okD(1) [OF assms] assms(2)] by metis
  with that [of s] terminals_okD(4) [OF assms] show thesis by (simp add: on_screen_def)
qed

lemma on_screen_write:
  assumes "terminals_ok t" "n < NR_CONSOLES"
  obtains s where "on_screen (tty_write (p_console (tty_table t n)) str) t = Inr (t\<lparr>scr := s\<rparr>)" "screen_ok s"
    "tty_write n str (scr t) = Inr s" "nr_current_console s = nr_current_console (scr t)"
proof -
  obtain s where "tty_write n str (scr t) = Inr s" "screen_ok s" "nr_current_console s = nr_current_console (scr t)"
    using tty_write_screen [OF terminals_okD(1) [OF assms] assms(2)] by metis
  with that [of s] terminals_okD(4) [OF assms] show thesis by (simp add: on_screen_def)
qed

lemma tty_printl_ok:
  assumes "terminals_ok t"
  obtains s where "tty_printl str t = Inr (t\<lparr>scr := s\<rparr>)" "screen_ok s"
    "nr_current_console s = nr_current_console (scr t)"
proof -
  let ?n = "nr_tty (proc_table (ks t) TASK_TTY)"
  from assms have n: "0 \<le> ?n" "?n < int NR_CONSOLES" "nat ?n < NR_CONSOLES"
    by (simp_all add: terminals_ok_def nat_less_iff)
  obtain s where "on_screen (tty_write (p_console (tty_table t (nat ?n))) str) t = Inr (t\<lparr>scr := s\<rparr>)" "screen_ok s"
      "nr_current_console s = nr_current_console (scr t)"
    by (rule on_screen_write [OF assms n(3)])
  with that [of s] n show thesis by (simp add: tty_printl_def)
qed

section \<open>Line editing\<close>

text \<open>
  What the terminal is for, without its buffers: a reader of at most \<open>n\<close> characters gets the
  printable characters typed, a backspace removes the last one, and the line ends with Enter
  or when it is full. The result is the line and the number of keys it took.
\<close>

definition edit_char :: "u8 list \<Rightarrow> u8 \<Rightarrow> u8 list" where
  "edit_char line ch =
     (if 0x20 \<le> ch \<and> ch \<le> 0x7E then line @ [ch] else if ch = 0x08 then butlast line else line)"

fun edit_line :: "nat \<Rightarrow> u8 list \<Rightarrow> u8 list \<Rightarrow> (u8 list \<times> nat) option" where
  "edit_line n line [] = None"
| "edit_line n line (ch # typed) =
     (let line = edit_char line ch
      in if ch = 0x0A \<or> length line = n then Some (line, 1)
         else map_option (\<lambda>(l, k). (l, Suc k)) (edit_line n line typed))"

text \<open>A read request in progress: the line so far is in the reader's buffer.\<close>

definition reading :: "nat \<Rightarrow> nat \<Rightarrow> u8 list \<Rightarrow> terminals \<Rightarrow> bool" where
  "reading n cnt line t \<longleftrightarrow> length line < cnt \<and> cnt < 2 ^ 31 \<and>
     tty_trans_cnt (tty_table t n) = int (length line) \<and>
     tty_left_cnt (tty_table t n) = int cnt - int (length line) \<and>
     load_bytes (kmem (ks t)) (tty_req_buf (tty_table t n)) (length line) = line"

lemma length_edit_char: "length (edit_char line ch) \<le> Suc (length line)"
  by (auto simp: edit_char_def)

lemma load_bytes_upd_end:
  assumes "n < 2 ^ 32"
  shows "load_bytes (h(a + of_nat n := b)) a (Suc n) = load_bytes h a n @ [b]"
proof -
  have "(h(a + of_nat n := b)) (a + of_nat k) = h (a + of_nat k)" if "k < n" for k
    using that assms of_nat_inj_u32 [of k n] by simp
  then show ?thesis by (simp add: load_bytes_def)
qed

lemma load_bytes_butlast: "load_bytes h a (length xs) = xs \<Longrightarrow> load_bytes h a (length xs - 1) = butlast xs"
proof (cases xs rule: rev_cases)
  case (snoc ys y)
  assume "load_bytes h a (length xs) = xs"
  with snoc show ?thesis by (simp add: load_bytes_def)
qed (simp add: load_bytes_def)

lemma echo_char_step:
  assumes ok: "terminals_ok t" "n < NR_CONSOLES" and rd: "reading n cnt line t"
  obtains s h where
    "echo_char n ch t = Inr (upd_tty n (\<lambda>y. y\<lparr>tty_trans_cnt := int (length (edit_char line ch)),
        tty_left_cnt := int cnt - int (length (edit_char line ch))\<rparr>) (t\<lparr>scr := s, ks := (ks t)\<lparr>kmem := h\<rparr>\<rparr>))"
    "screen_ok s" "load_bytes h (tty_req_buf (tty_table t n)) (length (edit_char line ch)) = edit_char line ch"
    "\<And>x. x \<notin> region (tty_req_buf (tty_table t n)) cnt \<Longrightarrow> h x = kmem (ks t) x"
    "nr_current_console s = nr_current_console (scr t)"
proof -
  let ?y = "tty_table t n"
  from rd have y: "tty_trans_cnt ?y = int (length line)" "tty_left_cnt ?y = int cnt - int (length line)"
    "length line < cnt" "cnt < 2 ^ 31" "load_bytes (kmem (ks t)) (tty_req_buf ?y) (length line) = line"
    by (simp_all add: reading_def)
  obtain s where s: "on_screen (out_char (p_console ?y) ch) t = Inr (t\<lparr>scr := s\<rparr>)" "screen_ok s"
      "nr_current_console s = nr_current_console (scr t)"
    by (rule on_screen_out [OF ok])
  note local = tty_local_ok [OF terminals_ok_scr [OF ok(1) s(2)]]
  consider (char) "0x20 \<le> ch \<and> ch \<le> 0x7E" | (erase) "ch = 0x08" "line \<noteq> []"
  | (other) "\<not> (0x20 \<le> ch \<and> ch \<le> 0x7E)" "ch \<noteq> 0x08 \<or> line = []" by blast
  then show thesis
  proof cases
    case char
    let ?p = "tty_req_buf ?y + of_nat (length line)"
    have "?p \<in> region (tty_req_buf ?y) cnt" using y(3) by (rule region_memI)
    then have "((kmem (ks t))(?p := ch)) x = kmem (ks t) x" if "x \<notin> region (tty_req_buf ?y) cnt" for x
      using that by auto
    moreover have "load_bytes ((kmem (ks t))(?p := ch)) (tty_req_buf ?y) (Suc (length line)) = line @ [ch]"
      using y by (simp add: load_bytes_upd_end)
    ultimately show thesis
      using char s y
      by (intro that [where s = s and h = "(kmem (ks t))(?p := ch)"])
        (simp_all add: echo_char_def edit_char_def Let_def upd_tty_def set_byte_def diff_diff_eq add.commute local)
  next
    case erase
    then have "int (length line) \<noteq> 0" "1 \<le> length line" by (simp_all add: Suc_leI)
    with erase that [where s = s and h = "kmem (ks t)"] s y load_bytes_butlast [OF y(5)] show thesis
      by (simp add: echo_char_def edit_char_def Let_def upd_tty_def of_nat_diff diff_diff_eq2 add_diff_eq diff_add_eq)
  next
    case other
    then have "edit_char line ch = line" by (auto simp: edit_char_def)
    moreover have "echo_char n ch t = Inr t" using other y by (auto simp: echo_char_def Let_def)
    moreover have "t = upd_tty n (\<lambda>y. y\<lparr>tty_trans_cnt := int (length line), tty_left_cnt := int cnt - int (length line)\<rparr>)
        (t\<lparr>scr := scr t, ks := (ks t)\<lparr>kmem := kmem (ks t)\<rparr>\<rparr>)"
      using y(1, 2) by (simp add: upd_tty_def fun_upd_idem)
    ultimately show thesis
      using that [where s = "scr t" and h = "kmem (ks t)"] y(5) terminals_okD(1) [OF ok] by simp
  qed
qed

text \<open>The message that resumes a reader.\<close>

definition resume_msg :: "nat \<Rightarrow> u8 list \<Rightarrow> terminals \<Rightarrow> int \<times> message" where
  "resume_msg n line t =
     (tty_caller (tty_table t n), (tty_stack t)\<lparr>msg_type := RESUME_PROC,
        m3i3 := word_of_int (tty_procnr (tty_table t n)), m3i2 := of_nat (length line)\<rparr>)"

text \<open>What stays as it is while a terminal serves a reader.\<close>

definition same_request :: "nat \<Rightarrow> nat \<Rightarrow> terminals \<Rightarrow> terminals \<Rightarrow> bool" where
  "same_request n cnt t t' \<longleftrightarrow>
     tty_caller (tty_table t' n) = tty_caller (tty_table t n) \<and>
     tty_procnr (tty_table t' n) = tty_procnr (tty_table t n) \<and>
     tty_req_buf (tty_table t' n) = tty_req_buf (tty_table t n) \<and> tty_stack t' = tty_stack t \<and>
     (\<forall>i. i \<noteq> n \<longrightarrow> tty_table t' i = tty_table t i) \<and> proc_table (ks t') = proc_table (ks t) \<and>
     nr_current_console (scr t') = nr_current_console (scr t) \<and>
     (\<forall>x. x \<notin> region (tty_req_buf (tty_table t n)) cnt \<longrightarrow> kmem (ks t') x = kmem (ks t) x)"

lemma same_request_trans: "same_request n cnt t u \<Longrightarrow> same_request n cnt u v \<Longrightarrow> same_request n cnt t v"
  by (simp add: same_request_def)

lemma resume_msg_same: "same_request n cnt t u \<Longrightarrow> resume_msg n line u = resume_msg n line t"
  by (simp add: same_request_def resume_msg_def)

lemma resume_reader_step:
  assumes ok: "terminals_ok t" "n < NR_CONSOLES" and cnt: "tty_trans_cnt (tty_table t n) = int (length line)"
    and free: "sendable t (tty_caller (tty_table t n))"
  obtains s where "resume_reader n t = Inr (upd_tty n (\<lambda>y. y\<lparr>tty_left_cnt := 0\<rparr>)
      (t\<lparr>scr := s, outbox := outbox t @ [resume_msg n line t]\<rparr>))" "screen_ok s"
      "nr_current_console s = nr_current_console (scr t)"
proof -
  obtain s where s: "on_screen (out_char (p_console (tty_table t n)) 0x0A) t = Inr (t\<lparr>scr := s\<rparr>)" "screen_ok s"
      "nr_current_console s = nr_current_console (scr t)"
    by (rule on_screen_out [OF ok])
  obtain s' where s': "tty_printl resume_text (t\<lparr>scr := s\<rparr>) = Inr (t\<lparr>scr := s\<rparr>\<lparr>scr := s'\<rparr>)" "screen_ok s'"
      "nr_current_console s' = nr_current_console (scr (t\<lparr>scr := s\<rparr>))"
    by (rule tty_printl_ok [OF terminals_ok_scr [OF ok(1) s(2)]])
  have "sendable (t\<lparr>scr := s'\<rparr>) (tty_caller (tty_table t n))"
    using free sendable_cong [of "t\<lparr>scr := s'\<rparr>" t] by simp
  from that [of s'] s s' cnt tty_send_ok [OF this] show thesis
    by (simp add: resume_reader_def Let_def resume_msg_def upd_tty_def)
qed

lemma tty_dev_write_step:
  assumes ok: "terminals_ok t" "n < NR_CONSOLES" and rd: "reading n cnt line t"
    and keys: "tty_keys (tty_table t n) = key # rest" and free: "sendable t (tty_caller (tty_table t n))"
  defines "ch \<equiv> ucast key :: u8" and "line' \<equiv> edit_char line (ucast key)"
  obtains t' where "tty_dev_write n t = Inr t'" "terminals_ok t'" "tty_keys (tty_table t' n) = rest"
    "same_request n cnt t t'" "kbd t' = kbd t"
    "if ch = 0x0A \<or> length line' = cnt
     then tty_left_cnt (tty_table t' n) = 0 \<and> outbox t' = outbox t @ [resume_msg n line' t] \<and>
       load_bytes (kmem (ks t')) (tty_req_buf (tty_table t n)) (length line') = line'
     else reading n cnt line' t' \<and> outbox t' = outbox t"
proof -
  obtain y where y: "take_key (tty_table t n) = Some (key, y)" "tty_ok y" "tty_keys y = rest"
    using keys.get_first [OF terminals_okD(3) [OF ok] keys] by blast
  note req = take_key_request [OF y(1)]
  let ?t = "upd_tty n (\<lambda>_. y) t"
  have ok1: "terminals_ok ?t" using ok(1) y(2) req by (simp add: terminals_ok_upd)
  have buf: "tty_req_buf (tty_table ?t n) = tty_req_buf (tty_table t n)" and mem: "kmem (ks ?t) = kmem (ks t)"
    using req by simp_all
  have rd1: "reading n cnt line ?t" using rd req by (simp add: reading_def)
  obtain s h where e: "echo_char n ch ?t = Inr (upd_tty n (\<lambda>y. y\<lparr>tty_trans_cnt := int (length line'),
        tty_left_cnt := int cnt - int (length line')\<rparr>) (?t\<lparr>scr := s, ks := (ks ?t)\<lparr>kmem := h\<rparr>\<rparr>))"
    (is "_ = Inr ?u")
    "screen_ok s" "load_bytes h (tty_req_buf (tty_table t n)) (length line') = line'"
    "\<And>x. x \<notin> region (tty_req_buf (tty_table t n)) cnt \<Longrightarrow> h x = kmem (ks t) x"
    "nr_current_console s = nr_current_console (scr ?t)"
    unfolding ch_def line'_def by (rule echo_char_step [OF ok1 ok(2) rd1, of "ucast key", unfolded buf mem]) blast
  have ok2: "terminals_ok ?u"
    using terminals_ok_scr [OF ok1 e(2)] terminals_ok_kmem [where t = "?t\<lparr>scr := s\<rparr>" and h = h] terminals_okD(3) [OF ok1 ok(2)]
    by (intro terminals_ok_upd) simp_all
  have same: "same_request n cnt t ?u" using req e(4, 5) by (simp add: same_request_def)
  have free': "sendable ?u (tty_caller (tty_table ?u n))"
    using free req sendable_cong [of ?u t] by simp
  have left: "tty_left_cnt y \<noteq> 0" using rd req by (simp add: reading_def)
  have dev: "tty_dev_write n t = (if ch = 0x0A \<or> length line' = cnt then resume_reader n ?u else Inr ?u)"
    using y(1) left e(1) by (simp add: tty_dev_write_def ch_def)
  show thesis
  proof (cases "ch = 0x0A \<or> length line' = cnt")
    case True
    obtain s' where r: "resume_reader n ?u = Inr (upd_tty n (\<lambda>y. y\<lparr>tty_left_cnt := 0\<rparr>)
        (?u\<lparr>scr := s', outbox := outbox ?u @ [resume_msg n line' ?u]\<rparr>))" (is "_ = Inr ?v") "screen_ok s'"
        "nr_current_console s' = nr_current_console (scr ?u)"
      by (rule resume_reader_step [OF ok2 ok(2) _ free', of line']) simp_all
    have "terminals_ok ?v"
      using terminals_ok_scr [OF ok2 r(2)] terminals_okD(3) [OF ok2 ok(2)] by (intro terminals_ok_upd) simp_all
    moreover have "same_request n cnt t ?v" using same r(3) by (simp add: same_request_def)
    ultimately show thesis
      using that [of ?v] True dev r(1) y(3) e(3) resume_msg_same [OF same] by simp
  next
    case False
    have "length line' < cnt"
      using False rd length_edit_char [of line ch] by (simp add: reading_def line'_def ch_def)
    then have "reading n cnt line' ?u" using rd e(3) req by (simp add: reading_def)
    with that [of ?u] False dev y(3) ok2 same show thesis by simp
  qed
qed

lemma tty_do_read_reading:
  assumes "sendable t (sint (source m))" "0 \<le> sint (PROC_NR m)" "sint (PROC_NR m) < nr_slots"
    and "va2la (ks t) (nat (sint (PROC_NR m))) (BUF m) = Inr la"
  shows "tty_do_read n m t = Inr ((upd_tty n (\<lambda>y. y\<lparr>tty_caller := sint (source m), tty_procnr := sint (PROC_NR m),
      tty_req_buf := la, tty_left_cnt := sint (CNT m), tty_trans_cnt := 0\<rparr>) t)
      \<lparr>outbox := outbox t @ [(sint (source m), m\<lparr>msg_type := SUSPEND_PROC\<rparr>)]\<rparr>)"
proof -
  let ?t = "upd_tty n (\<lambda>y. y\<lparr>tty_caller := sint (source m), tty_procnr := sint (PROC_NR m),
      tty_req_buf := la, tty_left_cnt := sint (CNT m), tty_trans_cnt := 0\<rparr>) t"
  have "sendable ?t (sint (source m))" using assms(1) sendable_cong [of ?t t] by simp
  from tty_send_ok [OF this] assms show ?thesis by (simp add: tty_do_read_def va2la_pid_def)
qed

section \<open>Polling\<close>

lemma scroll_screen_screen: "screen_ok s \<Longrightarrow> c < NR_CONSOLES \<Longrightarrow> screen_ok (scroll_screen c d s)"
  using scroll_screen_ok [of c s d] screen_ok_frame [of s c] by (auto simp: screen_ok_def)

lemma select_console_screen: "screen_ok s \<Longrightarrow> screen_ok (select_console c s)"
  by (simp add: select_console_def screen_ok_def)

text \<open>A poll serves one read request, or none; a finished request stays finished.\<close>

definition same_reader :: "nat \<Rightarrow> terminals \<Rightarrow> terminals \<Rightarrow> bool" where
  "same_reader n t t' \<longleftrightarrow> proc_table (ks t') = proc_table (ks t) \<and>
     tty_caller (tty_table t' n) = tty_caller (tty_table t n) \<and>
     (tty_left_cnt (tty_table t n) = 0 \<longrightarrow> tty_left_cnt (tty_table t' n) = 0)"

definition reader_ok :: "ipc \<Rightarrow> nat \<Rightarrow> terminals \<Rightarrow> bool" where
  "reader_ok a n t \<longleftrightarrow> ipc_rel (ks t) a \<and> ipc_ok a \<and> (tty_left_cnt (tty_table t n) \<noteq> 0 \<longrightarrow>
     0 \<le> tty_caller (tty_table t n) \<and> tty_caller (tty_table t n) < nr_slots \<and> tty_caller (tty_table t n) \<noteq> TASK_TTY)"

lemma same_reader_refl [simp]: "same_reader n t t"
  by (simp add: same_reader_def)

lemma same_reader_trans: "same_reader n t u \<Longrightarrow> same_reader n u v \<Longrightarrow> same_reader n t v"
  by (simp add: same_reader_def)

lemma reader_ok_same: "same_reader n t u \<Longrightarrow> reader_ok a n t \<Longrightarrow> reader_ok a n u"
  using ipc_rel_cong [of "ks u" "ks t" a] by (auto simp: reader_ok_def same_reader_def)

lemma tty_send_outcome:
  assumes "reader_ok a n t" "tty_left_cnt (tty_table t n) \<noteq> 0"
  shows "tty_send (tty_caller (tty_table t n)) m t =
    (if (nat (tty_caller (tty_table t n)), TASK_TTY) \<in> (waits a)\<^sup>+ then Inl (Panic 176)
     else Inr (t\<lparr>outbox := outbox t @ [(tty_caller (tty_table t n), m)]\<rparr>))"
  using assms deadlock_correct [of "ks t" a "nat (tty_caller (tty_table t n))" TASK_TTY]
  by (simp add: reader_ok_def tty_send_def nat_less_iff)

lemma tty_keys_put: "tty_ok y \<Longrightarrow> length (tty_keys (put_key key y)) \<le> Suc (length (tty_keys y))"
  by (simp add: keys.put_contents)

lemma in_process_step:
  assumes ok: "terminals_ok t" "n < NR_CONSOLES"
  obtains "in_process n key t = Inl (Hang 123)"
  | t' where "in_process n key t = Inr t'" "terminals_ok t'" "kbd t' = kbd t" "same_reader n t t'"
      "length (tty_keys (tty_table t' n)) \<le> Suc (length (tty_keys (tty_table t n)))"
proof -
  have put: "terminals_ok (upd_tty n (put_key k) t) \<and>
      length (tty_keys (tty_table (upd_tty n (put_key k) t) n)) \<le> Suc (length (tty_keys (tty_table t n)))" for k
    using terminals_okD(3) [OF ok] by (simp add: terminals_ok_upd ok(1) keys.put_inv tty_keys_put)
  have scr: "terminals_ok (t\<lparr>scr := scroll_screen (p_console (tty_table t n)) d (scr t)\<rparr>)"
    "terminals_ok (t\<lparr>scr := select_console c (scr t)\<rparr>)" for d c
    using terminals_okD(1, 4) [OF ok] ok
    by (simp_all add: terminals_ok_scr scroll_screen_screen select_console_screen)
  define P where "P r \<longleftrightarrow> r = Inl (Hang 123) \<or> (\<exists>t'. r = Inr t' \<and> terminals_ok t' \<and> kbd t' = kbd t \<and> same_reader n t t' \<and>
      length (tty_keys (tty_table t' n)) \<le> Suc (length (tty_keys (tty_table t n))))" for r
  have if_intro: "P x \<Longrightarrow> P y \<Longrightarrow> P (if b then x else y)"
    "P (Inr u) \<Longrightarrow> P (Inr v) \<Longrightarrow> P (Inr (if b then u else v))" for x y u v b
    by simp_all
  have "P (Inl (Hang 123))" "P (Inr (upd_tty n (put_key k) t))" "P (Inr t)"
    "P (Inr (t\<lparr>scr := scroll_screen (p_console (tty_table t n)) d (scr t)\<rparr>))"
    "P (Inr (t\<lparr>scr := select_console c (scr t)\<rparr>))" for k d c
    using put scr ok by (simp_all add: P_def same_reader_def)
  then have "P (in_process n key t)"
    unfolding in_process_def Let_def by (intro if_intro)
  then show thesis using that by (auto simp: P_def)
qed

lemma echo_char_total:
  assumes ok: "terminals_ok t" "n < NR_CONSOLES"
  obtains t' where "echo_char n ch t = Inr t'" "terminals_ok t'" "kbd t' = kbd t"
    "tty_keys (tty_table t' n) = tty_keys (tty_table t n)" "proc_table (ks t') = proc_table (ks t)"
    "tty_caller (tty_table t' n) = tty_caller (tty_table t n)"
proof -
  obtain s where s: "on_screen (out_char (p_console (tty_table t n)) ch) t = Inr (t\<lparr>scr := s\<rparr>)" "screen_ok s"
    by (rule on_screen_out [OF ok])
  note ok' = terminals_ok_scr [OF ok(1) s(2)]
  have upd: "terminals_ok (upd_tty n f (t\<lparr>scr := s\<rparr>))" "terminals_ok (upd_tty n f (set_byte a b (t\<lparr>scr := s\<rparr>)))"
    if "tty_ok (f (tty_table t n))" "p_console (f (tty_table t n)) = p_console (tty_table t n)" for f a b
    using that ok' by (auto intro!: terminals_ok_upd)
  show thesis
    using terminals_okD(3) [OF ok] s(1) upd ok(1) tty_local_ok [OF ok']
    by (intro that [of "case echo_char n ch t of Inr t' \<Rightarrow> t' | _ \<Rightarrow> t"]) (auto simp: echo_char_def Let_def)
qed

lemma resume_reader_outcome:
  assumes ok: "terminals_ok t" "n < NR_CONSOLES"
    and free: "reader_ok a n (upd_tty n (\<lambda>y. y\<lparr>tty_left_cnt := 1\<rparr>) t)"
  obtains "resume_reader n t = Inl (Panic 176)" "(nat (tty_caller (tty_table t n)), TASK_TTY) \<in> (waits a)\<^sup>+"
  | t' where "resume_reader n t = Inr t'" "terminals_ok t'" "kbd t' = kbd t" "same_reader n t t'"
      "tty_keys (tty_table t' n) = tty_keys (tty_table t n)" "(nat (tty_caller (tty_table t n)), TASK_TTY) \<notin> (waits a)\<^sup>+"
proof -
  obtain s where s: "on_screen (out_char (p_console (tty_table t n)) 0x0A) t = Inr (t\<lparr>scr := s\<rparr>)" "screen_ok s"
    by (rule on_screen_out [OF ok])
  obtain s' where s': "tty_printl resume_text (t\<lparr>scr := s\<rparr>) = Inr (t\<lparr>scr := s\<rparr>\<lparr>scr := s'\<rparr>)" "screen_ok s'"
    by (rule tty_printl_ok [OF terminals_ok_scr [OF ok(1) s(2)]])
  let ?u = "t\<lparr>scr := s'\<rparr>"
  note u = terminals_ok_scr [OF ok(1) s'(2)]
  have send: "tty_send (tty_caller (tty_table t n)) m ?u =
    (if (nat (tty_caller (tty_table t n)), TASK_TTY) \<in> (waits a)\<^sup>+ then Inl (Panic 176)
     else Inr (?u\<lparr>outbox := outbox t @ [(tty_caller (tty_table t n), m)]\<rparr>))" for m
    using free deadlock_correct [of "ks t" a "nat (tty_caller (tty_table t n))" TASK_TTY]
    by (simp add: reader_ok_def tty_send_def nat_less_iff)
  show thesis
  proof (cases "(nat (tty_caller (tty_table t n)), TASK_TTY) \<in> (waits a)\<^sup>+")
    case True
    with that(1) s s' send show thesis by (simp add: resume_reader_def Let_def)
  next
    case False
    have "terminals_ok (upd_tty n (\<lambda>y. y\<lparr>tty_left_cnt := 0\<rparr>) (?u\<lparr>outbox := ms\<rparr>))" for ms
      using u terminals_okD(3) [OF ok] by (intro terminals_ok_upd) simp_all
    with False that(2) s s' send show thesis by (simp add: resume_reader_def Let_def same_reader_def)
  qed
qed

lemma tty_dev_write_total:
  assumes ok: "terminals_ok t" "n < NR_CONSOLES" and free: "reader_ok a n t"
  obtains "tty_dev_write n t = Inl (Panic 176)" "tty_left_cnt (tty_table t n) \<noteq> 0"
      "(nat (tty_caller (tty_table t n)), TASK_TTY) \<in> (waits a)\<^sup>+"
  | t' where "tty_dev_write n t = Inr t'" "terminals_ok t'" "kbd t' = kbd t" "same_reader n t t'"
      "tty_keys (tty_table t' n) = tl (tty_keys (tty_table t n))"
proof (cases "tty_keys (tty_table t n)")
  case Nil
  then have "tty_dev_write n t = Inr t"
    using keys.get_empty [OF terminals_okD(3) [OF ok]] by (simp add: tty_dev_write_def)
  with that(2) [of t] ok Nil show thesis by simp
next
  case (Cons key rest)
  obtain y where y: "take_key (tty_table t n) = Some (key, y)" "tty_ok y" "tty_keys y = rest"
    using keys.get_first [OF terminals_okD(3) [OF ok] Cons] by blast
  note req = take_key_request [OF y(1)]
  let ?t = "upd_tty n (\<lambda>_. y) t"
  have ok1: "terminals_ok ?t" using ok(1) y(2) req by (simp add: terminals_ok_upd)
  show thesis
  proof (cases "tty_left_cnt y = 0")
    case True
    with that(2) [of ?t] y ok1 req Cons show thesis by (simp add: tty_dev_write_def same_reader_def)
  next
    case left: False
    obtain u where u: "echo_char n (ucast key) ?t = Inr u" "terminals_ok u" "kbd u = kbd ?t"
      "tty_keys (tty_table u n) = tty_keys (tty_table ?t n)" "proc_table (ks u) = proc_table (ks ?t)"
      "tty_caller (tty_table u n) = tty_caller (tty_table ?t n)"
      by (rule echo_char_total [OF ok1 ok(2)])
    have same: "same_reader n t u" using left u req by (simp add: same_reader_def)
    have dev: "tty_dev_write n t = (if ucast key = (0x0A :: u8) \<or> tty_left_cnt (tty_table u n) = 0
        then resume_reader n u else Inr u)"
      using y(1) u(1) left by (simp add: tty_dev_write_def)
    have "reader_ok a n (upd_tty n (\<lambda>y. y\<lparr>tty_left_cnt := 1\<rparr>) u)"
      using reader_ok_same [OF same free] free left req u(6) by (simp add: reader_ok_def)
    note resume = resume_reader_outcome [OF u(2) ok(2) this]
    show thesis
    proof (cases "ucast key = (0x0A :: u8) \<or> tty_left_cnt (tty_table u n) = 0")
      case True
      show thesis
      proof (rule resume)
        assume "resume_reader n u = Inl (Panic 176)" "(nat (tty_caller (tty_table u n)), TASK_TTY) \<in> (waits a)\<^sup>+"
        with that(1) True dev left req u(6) show thesis by simp
      next
        fix v
        assume "resume_reader n u = Inr v" "terminals_ok v" "kbd v = kbd u" "same_reader n u v"
          "tty_keys (tty_table v n) = tty_keys (tty_table u n)"
        with that(2) [of v] True dev u y Cons same_reader_trans [OF same] show thesis by simp
      qed
    next
      case False
      with that(2) [of u] dev u y Cons same show thesis by simp
    qed
  qed
qed

text \<open>One round of the polling loop, and what it uses up: the scan codes and keys not yet handled.\<close>

definition pending :: "nat \<Rightarrow> u8 list \<Rightarrow> terminals \<Rightarrow> nat" where
  "pending n arrivals t =
     2 * length (kb_contents (kb_in (kbd t)) @ arrivals) + length (tty_keys (tty_table t n))"

lemma tty_dev_read_step:
  assumes ok: "terminals_ok t" "n < NR_CONSOLES"
  obtains e where "tty_dev_read arrivals n t = Inl e" "e = Hang 272 \<or> e = Hang 123"
  | arrivals' t' where "tty_dev_read arrivals n t = Inr (arrivals', t')" "terminals_ok t'" "same_reader n t t'"
      "arrivals' = arrivals \<and> t' = t \<or> pending n arrivals' t' < pending n arrivals t"
proof (cases "is_current_console (p_console (tty_table t n)) (scr t)")
  case cur: True
  show thesis
  proof (cases "keyboard_read arrivals (kbd t)")
    case (Inl e)
    with cur that(1) [of e] keyboard_read_fault [OF Inl] show thesis by (simp add: tty_dev_read_def)
  next
    case (Inr r)
    then obtain key arrivals' k where r: "keyboard_read arrivals (kbd t) = Inr (key, arrivals', k)"
      by (cases r) auto
    note rd = keyboard_read_consumes [OF terminals_okD(2) [OF ok] r]
    let ?t = "t\<lparr>kbd := k\<rparr>"
    have ok1: "terminals_ok ?t" using ok(1) rd by (simp add: terminals_ok_def)
    show thesis
    proof (cases key)
      case None
      have "arrivals' = arrivals \<and> ?t = t \<or> pending n arrivals' ?t < pending n arrivals t"
        using rd by (auto simp: pending_def split: if_splits)
      with None cur r ok1 that(2) show thesis by (simp add: tty_dev_read_def same_reader_def)
    next
      case (Some key')
      with rd have less: "length (kb_contents (kb_in k) @ arrivals') < length (kb_contents (kb_in (kbd t)) @ arrivals)"
        by (auto split: if_splits)
      show thesis
      proof (rule in_process_step [OF ok1 ok(2), of key'])
        assume "in_process n key' ?t = Inl (Hang 123)"
        with Some cur r that(1) show thesis by (simp add: tty_dev_read_def)
      next
        fix t'
        assume t': "in_process n key' ?t = Inr t'" "terminals_ok t'" "kbd t' = kbd ?t" "same_reader n ?t t'"
          "length (tty_keys (tty_table t' n)) \<le> Suc (length (tty_keys (tty_table ?t n)))"
        then have "pending n arrivals' t' < pending n arrivals t" using less by (simp add: pending_def)
        moreover have "same_reader n t t'" using t'(4) by (simp add: same_reader_def)
        ultimately show thesis using Some cur r t' that(2) by (simp add: tty_dev_read_def)
      qed
    qed
  qed
qed (use ok that(2) in \<open>simp add: tty_dev_read_def\<close>)

text \<open>The faults that can stop a poll.\<close>

definition poll_stop :: "ipc \<Rightarrow> nat \<Rightarrow> terminals \<Rightarrow> fault \<Rightarrow> bool" where
  "poll_stop a n t e \<longleftrightarrow> e = Hang 272 \<or> e = Hang 123 \<or>
     e = Panic 176 \<and> tty_left_cnt (tty_table t n) \<noteq> 0 \<and> (nat (tty_caller (tty_table t n)), TASK_TTY) \<in> (waits a)\<^sup>+"

lemma poll_stop_same: "same_reader n t u \<Longrightarrow> poll_stop a n u e \<Longrightarrow> poll_stop a n t e"
  by (auto simp: poll_stop_def same_reader_def)

lemma tty_poll_ends:
  assumes "terminals_ok t" "n < NR_CONSOLES" "reader_ok a n t"
  shows "(\<exists>e. tty_poll n arrivals t = Some (Inl e) \<and> poll_stop a n t e) \<or>
    (\<exists>arrivals' t'. tty_poll n arrivals t = Some (Inr (arrivals', t')) \<and> terminals_ok t' \<and>
       tty_keys (tty_table t' n) = [] \<and> same_reader n t t')"
  using assms(1, 3)
proof (induction "pending n arrivals t" arbitrary: arrivals t rule: less_induct)
  case less
  show ?case
  proof (rule tty_dev_read_step [OF less.prems(1) assms(2), of arrivals])
    fix e
    assume "tty_dev_read arrivals n t = Inl e" "e = Hang 272 \<or> e = Hang 123"
    then show ?thesis by (subst (1 2) tty_poll.simps) (auto simp: poll_stop_def)
  next
    fix arrivals' t1
    assume t1: "tty_dev_read arrivals n t = Inr (arrivals', t1)" "terminals_ok t1" "same_reader n t t1"
      "arrivals' = arrivals \<and> t1 = t \<or> pending n arrivals' t1 < pending n arrivals t"
    have free1: "reader_ok a n t1" using reader_ok_same [OF t1(3) less.prems(2)] .
    show ?thesis
    proof (rule tty_dev_write_total [OF t1(2) assms(2) free1])
      assume stop: "tty_dev_write n t1 = Inl (Panic 176)" "tty_left_cnt (tty_table t1 n) \<noteq> 0"
        "(nat (tty_caller (tty_table t1 n)), TASK_TTY) \<in> (waits a)\<^sup>+"
      then have "poll_stop a n t1 (Panic 176)" by (simp add: poll_stop_def)
      with t1(1) stop(1) poll_stop_same [OF t1(3)] show ?thesis by (subst (1 2) tty_poll.simps) simp
    next
      fix t2
      assume t2: "tty_dev_write n t1 = Inr t2" "terminals_ok t2" "kbd t2 = kbd t1" "same_reader n t1 t2"
        "tty_keys (tty_table t2 n) = tl (tty_keys (tty_table t1 n))"
      have count: "inbuf_count (tty_table t2 n) = int (length (tty_keys (tty_table t2 n)))"
        using tty_keys_count [OF terminals_okD(3) [OF t2(2) assms(2)]] .
      have poll: "tty_poll n arrivals t = (if tty_keys (tty_table t2 n) \<noteq> [] then tty_poll n arrivals' t2
          else Some (Inr (arrivals', t2)))"
        using t1(1) t2(1) count by (subst tty_poll.simps) simp
      note same = same_reader_trans [OF t1(3) t2(4)]
      show ?thesis
      proof (cases "tty_keys (tty_table t2 n) = []")
        case True
        with poll t2(2) same show ?thesis by simp
      next
        case False
        then have "0 < length (tty_keys (tty_table t1 n))" using t2(5) by (cases "tty_keys (tty_table t1 n)") auto
        then have "pending n arrivals' t2 < pending n arrivals t"
          using t1(4) t2(3, 5) by (auto simp: pending_def)
        from less.hyps [OF this t2(2) reader_ok_same [OF t2(4) free1]] False poll same show ?thesis
          using poll_stop_same [OF same] same_reader_trans [OF same] by metis
      qed
    qed
  qed
qed

text \<open>
  The polling loop of a terminal always ends: with finitely many scan codes to come it leaves
  the terminal's input buffer empty and every terminal well-formed, or it stops for one of three
  reasons: the rest of a multi-byte scan code never arrives (\<^verbatim>\<open>get_byte_from_kbuf\<close>, line 272 of
  \<^verbatim>\<open>keyboard.c\<close>), the debugging key F12 was pressed (line 123 of \<^verbatim>\<open>tty.c\<close>), or a line was
  completed for a reader whose caller is itself waiting, directly or through others, to send to
  the terminal task: resuming it (line 179) panics on the deadlock (line 176 of \<^verbatim>\<open>proc.c\<close>).
\<close>

theorem tty_poll_returns:
  assumes "terminals_ok t" "n < NR_CONSOLES" "reader_ok a n t"
  shows "(\<exists>e. tty_poll n arrivals t = Some (Inl e) \<and> (e = Hang 272 \<or> e = Hang 123 \<or>
      e = Panic 176 \<and> tty_left_cnt (tty_table t n) \<noteq> 0 \<and> (nat (tty_caller (tty_table t n)), TASK_TTY) \<in> (waits a)\<^sup>+)) \<or>
    (\<exists>arrivals' t'. tty_poll n arrivals t = Some (Inr (arrivals', t')) \<and> terminals_ok t' \<and>
       inbuf_count (tty_table t' n) = 0)"
  using tty_poll_ends [OF assms, of arrivals] tty_keys_count terminals_okD(3) [OF _ assms(2)]
  unfolding poll_stop_def by fastforce

text \<open>
  The third stop happens: when Enter completes a line for a reader, and the caller to be told (the
  file system) is itself waiting to send to the terminal task, the machine stops in the panic for a
  deadlock.
\<close>

theorem tty_resume_deadlock:
  assumes "terminals_ok t" "n < NR_CONSOLES" "reader_ok a n t" "tty_left_cnt (tty_table t n) \<noteq> 0"
    and "tty_keys (tty_table t n) = key # rest" "ucast key = (0x0A :: u8)"
    and "(nat (tty_caller (tty_table t n)), TASK_TTY) \<in> (waits a)\<^sup>+"
  shows "tty_dev_write n t = Inl (Panic 176)"
proof -
  obtain y where y: "take_key (tty_table t n) = Some (key, y)" "tty_ok y"
    using keys.get_first [OF terminals_okD(3) [OF assms(1, 2)] assms(5)] by blast
  note req = take_key_request [OF y(1)]
  let ?t = "upd_tty n (\<lambda>_. y) t"
  have ok: "terminals_ok ?t" using assms(1) y(2) req by (simp add: terminals_ok_upd)
  have "reader_ok a n (upd_tty n (\<lambda>y. y\<lparr>tty_left_cnt := 1\<rparr>) ?t)"
    using assms(3, 4) req by (simp add: reader_ok_def)
  then have "resume_reader n ?t = Inl (Panic 176)"
    by (rule resume_reader_outcome [OF ok assms(2)]) (use assms(7) req in auto)
  then show ?thesis
    using y(1) assms(4, 6) req by (simp add: tty_dev_write_def echo_char_def)
qed

section \<open>Reading a line\<close>

text \<open>
  What a typed key means to a reader: a character, or nothing. \<open>None\<close> is a function key, which
  may change the terminal or stop the machine.
\<close>

definition key_chars :: "u32 option \<Rightarrow> u8 list option" where
  "key_chars k = (case k of
     None \<Rightarrow> Some []
   | Some key \<Rightarrow>
       if key AND FLAG_EXT = 0 then Some [ucast key]
       else let raw = key AND MASK_RAW
            in if raw = ENTER then Some [0x0A] else if raw = BACKSPACE then Some [0x08]
               else if F1 \<le> raw \<and> raw \<le> F12 then None else Some [])"

text \<open>The characters that a sequence of scan codes types, each read before the next arrives.\<close>

fun typed_chars :: "keyboard \<Rightarrow> u8 list \<Rightarrow> u8 list option" where
  "typed_chars k [] = Some []"
| "typed_chars k (sc # scs) =
     (case keyboard_read [] (fst (keyboard_handler sc k)) of
        Inl _ \<Rightarrow> None
      | Inr (key, _, k) \<Rightarrow> (case key_chars key of
            None \<Rightarrow> None
          | Some cs \<Rightarrow> map_option (\<lambda>ds. cs @ ds) (typed_chars k scs)))"

text \<open>The task has served everything that came in; terminal \<open>n\<close> is on the screen.\<close>

definition drained :: "nat \<Rightarrow> terminals \<Rightarrow> bool" where
  "drained n t \<longleftrightarrow> terminals_ok t \<and> nr_current_console (scr t) = int n \<and> kb_contents (kb_in (kbd t)) = [] \<and>
     (\<forall>i < NR_CONSOLES. tty_keys (tty_table t i) = [])"

definition hard_int :: message where
  "hard_int = reset_msg\<lparr>source := word_of_int INTERRUPT, msg_type := HARD_INT\<rparr>"

lemma tty_poll_idle:
  assumes "terminals_ok t" "i < NR_CONSOLES" "tty_keys (tty_table t i) = []"
    and "is_current_console i (scr t) \<Longrightarrow> kb_contents (kb_in (kbd t)) = []"
  shows "tty_poll i [] t = Some (Inr ([], t))"
proof -
  note ok = terminals_okD [OF assms(1, 2)]
  have "tty_dev_read [] i t = Inr ([], t)"
  proof (cases "is_current_console i (scr t)")
    case True
    then have "length (kb_contents (kb_in (kbd t))) = 0" using assms(4) by simp
    then have "kb_count (kb_in (kbd t)) \<le> 0" by (simp add: kb_contents_def)
    then show ?thesis using ok(4) by (simp add: tty_dev_read_def keyboard_read_def)
  qed (use ok(4) in \<open>simp add: tty_dev_read_def\<close>)
  moreover have "tty_dev_write i t = Inr t"
    using keys.get_empty [OF ok(3) assms(3)] by (simp add: tty_dev_write_def)
  moreover have "inbuf_count (tty_table t i) = 0"
    using tty_keys_count [OF ok(3)] assms(3) by simp
  ultimately show ?thesis by (subst tty_poll.simps) simp
qed

lemma tty_poll_all_one:
  assumes "tty_poll n [] t = Some (Inr ([], t'))" "n < NR_CONSOLES"
    and "\<And>i. i < NR_CONSOLES \<Longrightarrow> i \<noteq> n \<Longrightarrow> tty_poll i [] t = Some (Inr ([], t)) \<and> tty_poll i [] t' = Some (Inr ([], t'))"
  shows "tty_poll_all [] t = Inr ([], t')"
proof -
  consider "n = 0" | "n = 1" | "n = 2" using assms(2) by (auto simp: less_Suc_eq numeral_3_eq_3)
  then show ?thesis using assms(1) assms(3) [of 0] assms(3) [of 1] assms(3) [of 2]
    by cases (simp_all add: tty_poll_all_def)
qed

lemma same_request_mono: "same_request n 0 t u \<Longrightarrow> same_request n cnt t u"
  by (simp add: same_request_def)

lemma in_process_chars:
  assumes ok: "terminals_ok t" "n < NR_CONSOLES" and key: "key_chars (Some key) = Some cs"
    and empty: "tty_keys (tty_table t n) = []"
  obtains t' where "in_process n key t = Inr t'" "terminals_ok t'" "kbd t' = kbd t" "outbox t' = outbox t"
    "same_request n 0 t t'" "tty_left_cnt (tty_table t' n) = tty_left_cnt (tty_table t n)"
    "tty_trans_cnt (tty_table t' n) = tty_trans_cnt (tty_table t n)" "map ucast (tty_keys (tty_table t' n)) = cs"
proof -
  define P where "P r \<longleftrightarrow> (\<exists>t'. r = Inr t' \<and> terminals_ok t' \<and> kbd t' = kbd t \<and> outbox t' = outbox t \<and>
      same_request n 0 t t' \<and> tty_left_cnt (tty_table t' n) = tty_left_cnt (tty_table t n) \<and>
      tty_trans_cnt (tty_table t' n) = tty_trans_cnt (tty_table t n) \<and> map ucast (tty_keys (tty_table t' n)) = cs)"
    for r :: "terminals result"
  have put: "P (Inr (upd_tty n (put_key k) t))" if "cs = [ucast k]" for k
    using that terminals_okD(3) [OF ok] empty
    by (simp add: P_def terminals_ok_upd ok(1) keys.put_inv keys.put_contents same_request_def)
  have cur: "nr_current_console (scroll_screen c d (scr t)) = nr_current_console (scr t)" if "c < NR_CONSOLES" for c d
    using scroll_screen_ok(2) [of c "scr t" d] terminals_okD(1) [OF ok] that by (simp add: screen_ok_def con_frame_def)
  have scroll: "P (Inr (t\<lparr>scr := scroll_screen (p_console (tty_table t n)) d (scr t)\<rparr>))" "P (Inr t)" if "cs = []" for d
    using that terminals_okD(1, 4) [OF ok] ok empty
    by (simp_all add: P_def terminals_ok_scr scroll_screen_screen same_request_def cur)
  have "P (in_process n key t)"
  proof (cases "key AND FLAG_EXT = 0")
    case True
    then show ?thesis using put key by (simp add: in_process_def key_chars_def)
  next
    case False
    then show ?thesis
      using put [of "0x0A"] put [of "0x08"] scroll key
      by (auto simp: in_process_def key_chars_def Let_def split: if_splits)
  qed
  then show thesis using that by (auto simp: P_def)
qed

text \<open>The poll after a key has arrived: the key is turned into at most one character and served.\<close>

lemma key_arrives_sel:
  "tty_table (key_arrives sc t) = tty_table t" "scr (key_arrives sc t) = scr t" "outbox (key_arrives sc t) = outbox t"
  "kbd (key_arrives sc t) = fst (keyboard_handler sc (kbd t))" "tty_stack (key_arrives sc t) = tty_stack t"
  "proc_table (ks (key_arrives sc t)) = proc_table (ks t)" "kmem (ks (key_arrives sc t)) = kmem (ks t)"
  by (simp_all add: key_arrives_def keyboard_handler_def)

lemma handler_stores:
  assumes "kb_ok (kb_in k)" "kb_contents (kb_in k) = []"
  shows "kb_ok (kb_in (fst (keyboard_handler sc k)))" "kb_contents (kb_in (fst (keyboard_handler sc k))) = [sc]"
  using kb.put_inv [OF assms(1)] kb.put_contents [OF assms(1)] assms(2) by (simp_all add: keyboard_handler_def)

lemma turn_reads:
  assumes dr: "drained n t" "n < NR_CONSOLES"
    and key: "keyboard_read [] (fst (keyboard_handler sc (kbd t))) = Inr (key, arr, k)" "key_chars key = Some cs"
  obtains t1 t2 where "task_tty_msg hard_int (key_arrives sc t) = Inr t1" "tty_dev_read [] n t1 = Inr ([], t2)"
    "terminals_ok t2" "kbd t2 = k" "kb_contents (kb_in k) = []" "outbox t2 = outbox t" "same_request n 0 t t2"
    "tty_left_cnt (tty_table t2 n) = tty_left_cnt (tty_table t n)"
    "tty_trans_cnt (tty_table t2 n) = tty_trans_cnt (tty_table t n)" "map ucast (tty_keys (tty_table t2 n)) = cs"
    "terminals_ok t1" "same_request n 0 t t1" "\<And>i. i < NR_CONSOLES \<Longrightarrow> tty_keys (tty_table t1 i) = []"
proof -
  let ?a = "key_arrives sc t"
  let ?t1 = "?a\<lparr>ks := (ks ?a)\<lparr>key_pressed := 0\<rparr>\<rparr>"
  from dr have ok: "terminals_ok t" and cur: "nr_current_console (scr t) = int n"
    and kb: "kb_ok (kb_in (kbd t))" "kb_contents (kb_in (kbd t)) = []"
    and empty: "\<And>i. i < NR_CONSOLES \<Longrightarrow> tty_keys (tty_table t i) = []"
    by (auto simp: drained_def terminals_ok_def)
  note st = handler_stores [OF kb, of sc]
  have ok1: "terminals_ok ?t1" using ok st(1) by (simp add: terminals_ok_def key_arrives_sel)
  have msg: "task_tty_msg hard_int ?a = Inr ?t1"
    by (simp add: task_tty_msg_def hard_int_def reset_msg_def Let_def)
  have "kb_ok (kb_in k) \<and> kb_contents (kb_in k) = [] \<and> arr = []"
    using keyboard_read_consumes [OF st(1) key(1)] st(2) by (auto split: if_splits)
  then have k: "kb_ok (kb_in k)" "kb_contents (kb_in k) = []" "arr = []" by auto
  let ?u = "?t1\<lparr>kbd := k\<rparr>"
  have oku: "terminals_ok ?u" using ok1 k(1) by (simp add: terminals_ok_def)
  have "is_current_console (p_console (tty_table ?t1 n)) (scr ?t1)"
    using cur terminals_okD(4) [OF ok dr(2)] by (simp add: is_current_console_def key_arrives_sel)
  then have read: "tty_dev_read [] n ?t1 = (case key of None \<Rightarrow> Inr ([], ?u)
      | Some key \<Rightarrow> bindE (in_process n key ?u) (\<lambda>t. Inr ([], t)))"
    using key(1) k(3) by (simp add: tty_dev_read_def key_arrives_sel Let_def split: option.split)
  have same: "same_request n 0 t ?u" "same_request n 0 t ?t1" by (simp_all add: same_request_def key_arrives_sel)
  show thesis
  proof (cases key)
    case None
    with key(2) have "cs = []" by (simp add: key_chars_def)
    with None show thesis
      using that [of ?t1 ?u] msg read oku ok1 same k(2) empty dr(2) by (simp add: key_arrives_sel)
  next
    case (Some w)
    have w: "key_chars (Some w) = Some cs" "tty_keys (tty_table ?u n) = []"
      using key(2) Some empty dr(2) by (simp_all add: key_arrives_sel)
    obtain t2 where t2: "in_process n w ?u = Inr t2" "terminals_ok t2" "kbd t2 = kbd ?u" "outbox t2 = outbox ?u"
      "same_request n 0 ?u t2" "tty_left_cnt (tty_table t2 n) = tty_left_cnt (tty_table ?u n)"
      "tty_trans_cnt (tty_table t2 n) = tty_trans_cnt (tty_table ?u n)" "map ucast (tty_keys (tty_table t2 n)) = cs"
      by (rule in_process_chars [OF oku dr(2) w])
    with Some show thesis
      using that [of ?t1 t2] msg read ok1 same(2) same_request_trans [OF same(1) t2(5)] k(2) empty dr(2)
      by (simp add: key_arrives_sel)
  qed
qed

text \<open>The rest of the turn.\<close>

lemma turn_ends:
  assumes dr: "drained n t" "n < NR_CONSOLES"
    and msg: "task_tty_msg hard_int (key_arrives sc t) = Inr t1" "tty_dev_read [] n t1 = Inr ([], t2)"
    and t1: "terminals_ok t1" "same_request n 0 t t1" "\<And>i. i < NR_CONSOLES \<Longrightarrow> tty_keys (tty_table t1 i) = []"
    and t3: "tty_dev_write n t2 = Inr t3" "terminals_ok t3" "tty_keys (tty_table t3 n) = []"
      "same_request n cnt t t3" "kb_contents (kb_in (kbd t3)) = []"
  shows "tty_turn [sc] hard_int t = Inr t3" "drained n t3"
proof -
  have cur: "nr_current_console (scr t1) = int n" "nr_current_console (scr t3) = int n"
    using dr(1) t1(2) t3(4) by (simp_all add: drained_def same_request_def)
  have others: "tty_table t3 i = tty_table t i" "tty_keys (tty_table t i) = []" if "i \<noteq> n" "i < NR_CONSOLES" for i
    using that t3(4) dr(1) by (simp_all add: drained_def same_request_def)
  have "inbuf_count (tty_table t3 n) = 0"
    using tty_keys_count [OF terminals_okD(3) [OF t3(2) dr(2)]] t3(3) by simp
  then have "tty_poll n [] t1 = Some (Inr ([], t3))"
    using msg(2) t3(1) by (subst tty_poll.simps) simp
  moreover have "tty_poll i [] t1 = Some (Inr ([], t1)) \<and> tty_poll i [] t3 = Some (Inr ([], t3))"
    if "i < NR_CONSOLES" "i \<noteq> n" for i
    using that others [OF that(2, 1)] cur t1(3) [OF that(1)]
    by (auto intro!: tty_poll_idle t1(1) t3(2) simp: is_current_console_def)
  ultimately have "tty_poll_all [] t1 = Inr ([], t3)" by (rule tty_poll_all_one [OF _ dr(2)])
  with msg(1) show "tty_turn [sc] hard_int t = Inr t3" by (simp add: tty_turn_def)
  show "drained n t3"
    using t3 cur(2) others dr(2) by (auto simp: drained_def) metis
qed

text \<open>A key that arrives while a line is read.\<close>

lemma turn_edits:
  assumes dr: "drained n t" "n < NR_CONSOLES" and rd: "reading n cnt line t" "sendable t (tty_caller (tty_table t n))"
    and key: "keyboard_read [] (fst (keyboard_handler sc (kbd t))) = Inr (key, arr, k)" "key_chars key = Some cs"
  obtains t' where "tty_turn [sc] hard_int t = Inr t'" "drained n t'" "kbd t' = k" "same_request n cnt t t'"
    "case cs of [] \<Rightarrow> reading n cnt line t' \<and> outbox t' = outbox t
     | ch # _ \<Rightarrow> if ch = 0x0A \<or> length (edit_char line ch) = cnt
         then tty_left_cnt (tty_table t' n) = 0 \<and> outbox t' = outbox t @ [resume_msg n (edit_char line ch) t] \<and>
           load_bytes (kmem (ks t')) (tty_req_buf (tty_table t n)) (length (edit_char line ch)) = edit_char line ch
         else reading n cnt (edit_char line ch) t' \<and> outbox t' = outbox t"
    "length cs \<le> 1"
proof (rule turn_reads [OF dr key])
  fix t1 t2
  assume t1: "task_tty_msg hard_int (key_arrives sc t) = Inr t1" "tty_dev_read [] n t1 = Inr ([], t2)"
    and t2: "terminals_ok t2" "kbd t2 = k" "kb_contents (kb_in k) = []" "outbox t2 = outbox t" "same_request n 0 t t2"
      "tty_left_cnt (tty_table t2 n) = tty_left_cnt (tty_table t n)"
      "tty_trans_cnt (tty_table t2 n) = tty_trans_cnt (tty_table t n)" "map ucast (tty_keys (tty_table t2 n)) = cs"
    and ok1: "terminals_ok t1" "same_request n 0 t t1" "\<And>i. i < NR_CONSOLES \<Longrightarrow> tty_keys (tty_table t1 i) = []"
  have cs: "length cs \<le> 1" using key(2) by (auto simp: key_chars_def Let_def split: option.splits if_splits)
  have same: "same_request n cnt t t2" using same_request_mono [OF t2(5)] .
  have mem: "kmem (ks t2) = kmem (ks t)" using t2(5) by (auto simp: same_request_def)
  have rd2: "reading n cnt line t2"
    using rd(1) t2(5-7) mem by (simp add: reading_def same_request_def)
  have free2: "sendable t2 (tty_caller (tty_table t2 n))"
    using rd(2) t2(5) sendable_cong [of t2 t] by (simp add: same_request_def)
  note ends = turn_ends [OF dr t1 ok1]
  show thesis
  proof (cases "tty_keys (tty_table t2 n)")
    case Nil
    then have "cs = []" using t2(8) by simp
    moreover have "tty_dev_write n t2 = Inr t2"
      using keys.get_empty [OF terminals_okD(3) [OF t2(1) dr(2)] Nil] by (simp add: tty_dev_write_def)
    ultimately show thesis
      using that [of t2] ends [of t2 cnt] t2 Nil rd2 same by simp
  next
    case (Cons w ws)
    then have w: "cs = [ucast w]" "ws = []" using t2(8) cs by auto
    let ?l = "edit_char line (ucast w)"
    obtain t3 where t3: "tty_dev_write n t2 = Inr t3" "terminals_ok t3" "tty_keys (tty_table t3 n) = ws"
      "same_request n cnt t2 t3" "kbd t3 = kbd t2"
      "if ucast w = (0x0A :: u8) \<or> length ?l = cnt
       then tty_left_cnt (tty_table t3 n) = 0 \<and> outbox t3 = outbox t2 @ [resume_msg n ?l t2] \<and>
         load_bytes (kmem (ks t3)) (tty_req_buf (tty_table t2 n)) (length ?l) = ?l
       else reading n cnt ?l t3 \<and> outbox t3 = outbox t2"
      by (rule tty_dev_write_step [OF t2(1) dr(2) rd2 Cons free2])
    note same' = same_request_trans [OF same t3(4)]
    have buf: "tty_req_buf (tty_table t2 n) = tty_req_buf (tty_table t n)" using same by (simp add: same_request_def)
    from t3(6) have "if ucast w = (0x0A :: u8) \<or> length ?l = cnt
       then tty_left_cnt (tty_table t3 n) = 0 \<and> outbox t3 = outbox t @ [resume_msg n ?l t] \<and>
         load_bytes (kmem (ks t3)) (tty_req_buf (tty_table t n)) (length ?l) = ?l
       else reading n cnt ?l t3 \<and> outbox t3 = outbox t"
      unfolding buf t2(4) resume_msg_same [OF same] .
    with w t3 same' ends [of t3 cnt] t2(2, 3) show thesis
      by (intro that [of t3]) simp_all
  qed
qed

text \<open>A key that nobody reads is forgotten.\<close>

lemma turn_forgets:
  assumes dr: "drained n t" "n < NR_CONSOLES" and left: "tty_left_cnt (tty_table t n) = 0"
    and key: "keyboard_read [] (fst (keyboard_handler sc (kbd t))) = Inr (key, arr, k)" "key_chars key = Some cs"
  obtains t' where "tty_turn [sc] hard_int t = Inr t'" "drained n t'" "kbd t' = k" "same_request n 0 t t'"
    "tty_left_cnt (tty_table t' n) = 0" "outbox t' = outbox t"
proof (rule turn_reads [OF dr key])
  fix t1 t2
  assume t1: "task_tty_msg hard_int (key_arrives sc t) = Inr t1" "tty_dev_read [] n t1 = Inr ([], t2)"
    and t2: "terminals_ok t2" "kbd t2 = k" "kb_contents (kb_in k) = []" "outbox t2 = outbox t" "same_request n 0 t t2"
      "tty_left_cnt (tty_table t2 n) = tty_left_cnt (tty_table t n)" "map ucast (tty_keys (tty_table t2 n)) = cs"
    and ok1: "terminals_ok t1" "same_request n 0 t t1" "\<And>i. i < NR_CONSOLES \<Longrightarrow> tty_keys (tty_table t1 i) = []"
  note ends = turn_ends [OF dr t1 ok1]
  show thesis
  proof (cases "tty_keys (tty_table t2 n)")
    case Nil
    moreover have "tty_dev_write n t2 = Inr t2"
      using keys.get_empty [OF terminals_okD(3) [OF t2(1) dr(2)] Nil] by (simp add: tty_dev_write_def)
    ultimately show thesis
      using that [of t2] ends [of t2 0] t2 left by simp
  next
    case (Cons w ws)
    then have ws: "ws = []"
      using t2(7) key(2) by (auto simp: key_chars_def Let_def split: option.splits if_splits)
    obtain y where y: "take_key (tty_table t2 n) = Some (w, y)" "tty_ok y" "tty_keys y = ws"
      using keys.get_first [OF terminals_okD(3) [OF t2(1) dr(2)] Cons] by blast
    note req = take_key_request [OF y(1)]
    let ?u = "upd_tty n (\<lambda>_. y) t2"
    have "tty_dev_write n t2 = Inr ?u" using y(1) left t2(6) req by (simp add: tty_dev_write_def)
    moreover have "terminals_ok ?u" using t2(1) y(2) req by (simp add: terminals_ok_upd)
    moreover have "same_request n 0 t ?u" using t2(5) req by (simp add: same_request_def)
    ultimately show thesis
      using that [of ?u] ends [of ?u 0] t2 left y(3) ws req by simp
  qed
qed

lemma keys_forgotten:
  assumes "drained n t" "n < NR_CONSOLES" "tty_left_cnt (tty_table t n) = 0" "typed_chars (kbd t) scs = Some cs"
  shows "\<exists>t'. task_tty (map (\<lambda>sc. ([sc], hard_int)) scs) t = Inr t' \<and> drained n t' \<and> same_request n 0 t t' \<and>
    outbox t' = outbox t"
  using assms(1, 3, 4)
proof (induction scs arbitrary: t cs)
  case Nil
  then show ?case by (simp add: same_request_def)
next
  case (Cons sc scs)
  from Cons.prems(3) obtain key arr k c ds where key: "keyboard_read [] (fst (keyboard_handler sc (kbd t))) = Inr (key, arr, k)"
    "key_chars key = Some c" and ds: "typed_chars k scs = Some ds"
    by (auto split: sum.splits option.splits)
  obtain u where u: "tty_turn [sc] hard_int t = Inr u" "drained n u" "kbd u = k" "same_request n 0 t u"
    "tty_left_cnt (tty_table u n) = 0" "outbox u = outbox t"
    by (rule turn_forgets [OF Cons.prems(1) assms(2) Cons.prems(2) key])
  from Cons.IH [OF u(2, 5)] ds u(3) obtain t' where "task_tty (map (\<lambda>sc. ([sc], hard_int)) scs) u = Inr t'"
    "drained n t'" "same_request n 0 u t'" "outbox t' = outbox u" by auto
  with u same_request_trans [OF u(4)] show ?case by auto
qed

lemma keys_read:
  assumes "drained n t" "n < NR_CONSOLES" "reading n cnt line t" "sendable t (tty_caller (tty_table t n))"
    and "typed_chars (kbd t) scs = Some cs" "edit_line cnt line cs = Some (result, k)"
  shows "\<exists>t'. task_tty (map (\<lambda>sc. ([sc], hard_int)) scs) t = Inr t' \<and> drained n t' \<and> same_request n cnt t t' \<and>
    load_bytes (kmem (ks t')) (tty_req_buf (tty_table t n)) (length result) = result \<and>
    outbox t' = outbox t @ [resume_msg n result t]"
  using assms(1, 3-)
proof (induction scs arbitrary: t line cs k)
  case (Cons sc scs)
  from Cons.prems(4) obtain key arr kb c ds where key: "keyboard_read [] (fst (keyboard_handler sc (kbd t))) = Inr (key, arr, kb)"
    "key_chars key = Some c" and ds: "typed_chars kb scs = Some ds" and cs: "cs = c @ ds"
    by (auto split: sum.splits option.splits)
  obtain u where u: "tty_turn [sc] hard_int t = Inr u" "drained n u" "kbd u = kb" "same_request n cnt t u"
    "case c of [] \<Rightarrow> reading n cnt line u \<and> outbox u = outbox t
     | ch # _ \<Rightarrow> if ch = 0x0A \<or> length (edit_char line ch) = cnt
         then tty_left_cnt (tty_table u n) = 0 \<and> outbox u = outbox t @ [resume_msg n (edit_char line ch) t] \<and>
           load_bytes (kmem (ks u)) (tty_req_buf (tty_table t n)) (length (edit_char line ch)) = edit_char line ch
         else reading n cnt (edit_char line ch) u \<and> outbox u = outbox t" "length c \<le> 1"
    by (rule turn_edits [OF Cons.prems(1) assms(2) Cons.prems(2, 3) key])
  have free: "sendable u (tty_caller (tty_table u n))" and buf: "tty_req_buf (tty_table u n) = tty_req_buf (tty_table t n)"
    using Cons.prems(3) u(4) sendable_cong [of u t] by (simp_all add: same_request_def)
  have typed: "typed_chars (kbd u) scs = Some ds" using ds u(3) by simp
  have goon: ?case if rd: "reading n cnt l u" "outbox u = outbox t" and e: "edit_line cnt l ds = Some (result, j)" for l j
  proof -
    from Cons.IH [OF u(2) rd(1) free typed e] obtain t' where t': "task_tty (map (\<lambda>sc. ([sc], hard_int)) scs) u = Inr t'"
      "drained n t'" "same_request n cnt u t'"
      "load_bytes (kmem (ks t')) (tty_req_buf (tty_table u n)) (length result) = result"
      "outbox t' = outbox u @ [resume_msg n result u]" by blast
    with u(1) rd(2) buf same_request_trans [OF u(4) t'(3)] resume_msg_same [OF u(4)] show ?thesis by simp
  qed
  show ?case
  proof (cases c)
    case Nil
    with u(5) cs Cons.prems(5) goon [of line k] show ?thesis by simp
  next
    case (Cons ch c')
    with u(6) have c: "c = [ch]" by simp
    show ?thesis
    proof (cases "ch = 0x0A \<or> length (edit_char line ch) = cnt")
      case True
      with Cons.prems(5) cs c have r: "result = edit_char line ch" by (simp add: Let_def)
      from keys_forgotten [OF u(2) assms(2) _ typed] u(5) c True obtain t' where
        t': "task_tty (map (\<lambda>sc. ([sc], hard_int)) scs) u = Inr t'" "drained n t'" "same_request n 0 u t'"
        "outbox t' = outbox u" by auto
      have "kmem (ks t') = kmem (ks u)" using t'(3) by (auto simp: same_request_def)
      with t' u c True r same_request_trans [OF u(4) same_request_mono [OF t'(3)]] show ?thesis by simp
    next
      case False
      with Cons.prems(5) cs c obtain j where "edit_line cnt (edit_char line ch) ds = Some (result, j)"
        by (auto simp: Let_def)
      with False u(5) c goon [of "edit_char line ch" j] show ?thesis by simp
    qed
  qed
qed simp

lemma turn_request:
  assumes dr: "drained n t" "n < NR_CONSOLES"
    and m: "msg_type m = DEV_READ" "sint (DEVICE m) = int n" "sendable t (sint (source m))"
      "0 \<le> sint (PROC_NR m)" "sint (PROC_NR m) < nr_slots" "va2la (ks t) (nat (sint (PROC_NR m))) (BUF m) = Inr la"
  defines "t1 \<equiv> (upd_tty n (\<lambda>y. y\<lparr>tty_caller := sint (source m), tty_procnr := sint (PROC_NR m),
      tty_req_buf := la, tty_left_cnt := sint (CNT m), tty_trans_cnt := 0\<rparr>) t)
      \<lparr>outbox := outbox t @ [(sint (source m), m\<lparr>msg_type := SUSPEND_PROC\<rparr>)]\<rparr>"
  shows "tty_turn [] m t = Inr t1" "drained n t1" "task_tty_msg m t = Inr t1"
proof -
  have ok: "terminals_ok t" using dr(1) by (simp add: drained_def)
  have keys: "tty_keys (tty_table t1 i) = tty_keys (tty_table t i)" for i
    by (simp add: t1_def)
  have "terminals_ok t1"
    using ok terminals_okD(3) [OF ok dr(2)] by (simp add: t1_def terminals_ok_upd)
  with dr keys show dr1: "drained n t1" by (simp add: drained_def t1_def)
  have "sint (source m) \<noteq> TASK_TTY" using m(3) by (simp add: sendable_def)
  then show msg: "task_tty_msg m t = Inr t1"
    using m tty_do_read_reading [OF m(3-6)] dr(2) by (simp add: task_tty_msg_def t1_def)
  have "tty_poll i [] t1 = Some (Inr ([], t1))" if "i < NR_CONSOLES" for i
    using that dr1 by (intro tty_poll_idle) (auto simp: drained_def)
  then have "tty_poll_all [] t1 = Inr ([], t1)" by (intro tty_poll_all_one [OF _ dr(2)]) (use dr(2) in auto)
  with msg show "tty_turn [] m t = Inr t1" by (simp add: tty_turn_def)
qed

text \<open>
  C17. A process that reads from the terminal on the screen gets the line that is then typed. The
  terminal task has served everything that came before, receives the read request and tells
  the caller to suspend the reader; then the keys are pressed, one scan code before each
  interrupt message, and the task's main loop serves them (no other process acts meanwhile). When
  the characters they type complete a line (printable characters, backspace taking back the last
  one, until Enter or until the requested count is reached), exactly that line stands at the start
  of the reader's buffer, no byte of memory outside the requested ones has changed, the caller has
  been sent one message that resumes the reader with the length of the line, and everything
  typed is used up, what follows the line being forgotten. The caller must not itself be waiting
  to send to the terminal task.
\<close>

theorem tty_read_line:
  assumes "drained n t" "n < NR_CONSOLES"
    and "msg_type m = DEV_READ" "sint (DEVICE m) = int n" "sendable t (sint (source m))"
      "0 \<le> sint (PROC_NR m)" "sint (PROC_NR m) < nr_slots" "va2la (ks t) (nat (sint (PROC_NR m))) (BUF m) = Inr la"
    and "0 < sint (CNT m)" "typed_chars (kbd t) scs = Some typed"
      "edit_line (nat (sint (CNT m))) [] typed = Some (line, k)"
  shows "\<exists>t'. task_tty (([], m) # map (\<lambda>sc. ([sc], hard_int)) scs) t = Inr t' \<and> drained n t' \<and>
    load_bytes (kmem (ks t')) la (length line) = line \<and>
    (\<forall>x. x \<notin> region la (nat (sint (CNT m))) \<longrightarrow> kmem (ks t') x = kmem (ks t) x) \<and>
    outbox t' = outbox t @ [(sint (source m), m\<lparr>msg_type := SUSPEND_PROC\<rparr>),
      (sint (source m), (tty_stack t)\<lparr>msg_type := RESUME_PROC, m3i3 := PROC_NR m, m3i2 := of_nat (length line)\<rparr>)]"
proof -
  let ?t1 = "(upd_tty n (\<lambda>y. y\<lparr>tty_caller := sint (source m), tty_procnr := sint (PROC_NR m),
      tty_req_buf := la, tty_left_cnt := sint (CNT m), tty_trans_cnt := 0\<rparr>) t)
      \<lparr>outbox := outbox t @ [(sint (source m), m\<lparr>msg_type := SUSPEND_PROC\<rparr>)]\<rparr>"
  note turn = turn_request [OF assms(1-8)]
  have "sint (CNT m) < 2 ^ 31" using sint_less [of "CNT m"] by simp
  then have rd: "reading n (nat (sint (CNT m))) [] ?t1"
    using assms(9) by (simp add: reading_def load_bytes_def nat_less_iff)
  have free: "sendable ?t1 (tty_caller (tty_table ?t1 n))"
    using assms(5) sendable_cong [of ?t1 t] by simp
  have typed: "typed_chars (kbd ?t1) scs = Some typed" using assms(10) by simp
  obtain t' where t': "task_tty (map (\<lambda>sc. ([sc], hard_int)) scs) ?t1 = Inr t'" "drained n t'"
    "same_request n (nat (sint (CNT m))) ?t1 t'"
    "load_bytes (kmem (ks t')) (tty_req_buf (tty_table ?t1 n)) (length line) = line"
    "outbox t' = outbox ?t1 @ [resume_msg n line ?t1]"
    using keys_read [OF turn(2) assms(2) rd free typed assms(11)] by blast
  with turn(1) show ?thesis
    by (intro exI [of _ t']) (simp add: same_request_def resume_msg_def)
qed

section \<open>Output\<close>

lemma tty_write_append: "tty_write c (xs @ ys) s = bindE (tty_write c xs s) (tty_write c ys)"
proof (induction xs arbitrary: s)
  case (Cons x xs)
  have "tty_write c (xs @ ys) = (\<lambda>s. bindE (tty_write c xs s) (tty_write c ys))"
    by (rule ext) (rule Cons.IH)
  then show ?case by (simp add: bindE_assoc)
qed simp

text \<open>Copying two bytes at a time is the same as writing the whole buffer.\<close>

lemma tty_out_eq:
  assumes "terminals_ok t" "n < NR_CONSOLES" "0 \<le> i"
  shows "tty_out n p i t = on_screen (tty_write n (load_bytes (kmem (ks t)) p (nat i))) t"
  using assms(1, 3, 2)
proof (induction n p i t rule: tty_out.induct)
  case (1 n p i t)
  note n = 1(4)
  show ?case
  proof (cases "i = 0")
    case True
    then show ?thesis by (subst tty_out.simps) (simp add: load_bytes_def on_screen_def)
  next
    case False
    let ?b = "min TTY_OUT_BUF_LEN i" and ?h = "kmem (ks t)"
    have i: "0 < i" "nat i = nat ?b + nat (i - ?b)" using False 1(3) by (auto simp: min_def)
    then have split: "load_bytes ?h p (nat i) = load_bytes ?h p (nat ?b) @ load_bytes ?h (p + word_of_int ?b) (nat (i - ?b))"
      by (simp add: load_bytes_append)
    obtain s where s: "on_screen (tty_write (p_console (tty_table t n)) (load_bytes ?h p (nat ?b))) t = Inr (t\<lparr>scr := s\<rparr>)"
      "screen_ok s" "tty_write n (load_bytes ?h p (nat ?b)) (scr t) = Inr s"
      by (rule on_screen_write [OF 1(2) n])
    have "tty_out n p i t = tty_out n (p + word_of_int ?b) (i - ?b) (t\<lparr>scr := s\<rparr>)"
      using i(1) s(1) tty_local_ok [OF 1(2)] by (subst tty_out.simps) (simp add: Let_def)
    also have "\<dots> = on_screen (tty_write n (load_bytes ?h (p + word_of_int ?b) (nat (i - ?b)))) (t\<lparr>scr := s\<rparr>)"
      using 1(1) [OF False _ refl refl terminals_ok_scr [OF 1(2) s(2)] _ n] i(1) by simp
    also have "\<dots> = on_screen (tty_write n (load_bytes ?h p (nat i))) t"
      using s(3) split by (simp add: on_screen_def tty_write_append)
    finally show ?thesis .
  qed
qed

text \<open>
  A process that writes to a terminal sees its bytes on the terminal's console: the two-byte
  copying of \<^verbatim>\<open>tty_do_write\<close> has the same effect as writing the whole buffer at once, it
  always succeeds for a non-negative count, and the writer is answered with its own message
  marked as a return.
\<close>

theorem tty_do_write_output:
  assumes "terminals_ok t" "n < NR_CONSOLES" "0 \<le> sint (CNT m)" "0 \<le> sint (PROC_NR m)" "sint (PROC_NR m) < nr_slots"
    and "va2la (ks t) (nat (sint (PROC_NR m))) (BUF m) = Inr la" "sendable t (sint (source m))"
  shows "\<exists>s. tty_write n (load_bytes (kmem (ks t)) la (nat (sint (CNT m)))) (scr t) = Inr s \<and> screen_ok s \<and>
    tty_do_write n m t
      = Inr (t\<lparr>scr := s, outbox := outbox t @ [(sint (source m), m\<lparr>msg_type := SYSCALL_RET\<rparr>)]\<rparr>)"
proof -
  obtain s where "tty_write n (load_bytes (kmem (ks t)) la (nat (sint (CNT m)))) (scr t) = Inr s" "screen_ok s"
    using tty_write_screen [OF terminals_okD(1) [OF assms(1, 2)] assms(2)] by blast
  moreover have "sendable (t\<lparr>scr := s\<rparr>) (sint (source m))" for s
    using assms(7) sendable_cong [of "t\<lparr>scr := s\<rparr>" t] by simp
  ultimately show ?thesis
    using assms(4-6) tty_out_eq [OF assms(1-3)] tty_send_ok
    by (simp add: tty_do_write_def va2la_pid_def on_screen_def)
qed

definition magic :: "u8 \<Rightarrow> bool" where
  "magic ch \<longleftrightarrow> ch = MAG_CH_PANIC \<or> ch = MAG_CH_ASSERT"

lemma printx_loop_prints:
  assumes "cstr h p str" "screen_ok s" "c < NR_CONSOLES"
  shows "\<exists>s'. printx_loop h c p s = Some (Inr s') \<and> tty_write c (filter (\<lambda>ch. \<not> magic ch) str) s = Inr s' \<and> screen_ok s'"
  using assms(1, 2)
proof (induction str arbitrary: p s)
  case Nil
  then show ?case by (simp add: printx_loop.simps [of h c p])
next
  case (Cons ch str)
  show ?case
  proof (cases "magic ch")
    case True
    then have "printx_loop h c p s = printx_loop h c (p + 1) s"
      using Cons.prems by (simp add: printx_loop.simps [of h c p] magic_def)
    with True Cons.IH [of "p + 1" s] Cons.prems show ?thesis by simp
  next
    case False
    obtain s1 where s1: "out_char c ch s = Inr s1" "screen_ok s1"
      using out_char_screen [OF Cons.prems(2) assms(3)] by metis
    have "printx_loop h c p s = printx_loop h c (p + 1) s1"
      using Cons.prems False s1(1) by (simp add: printx_loop.simps [of h c p] magic_def)
    with False s1 Cons.IH [of "p + 1" s1] Cons.prems show ?thesis by simp
  qed
qed

text \<open>
  The print system call of a process or of the kernel shows the string, without the two magic
  bytes, on the console of the calling process, unless the string is a panic message or an
  assertion message of a task.
\<close>

theorem sys_printx_prints:
  assumes "terminals_ok t" "0 \<le> nr_tty (proc_table (ks t) p)" "nr_tty (proc_table (ks t) p) < int NR_CONSOLES"
    and "(if k_reenter (ks t) = 0 then va2la (ks t) p a else Inr a) = Inr la" "cstr (kmem (ks t)) la str"
    and "str = [] \<or> hd str \<noteq> MAG_CH_PANIC \<and> (hd str = MAG_CH_ASSERT \<longrightarrow> NR_TASKS \<le> p_proc_ready (ks t))"
  shows "\<exists>s. sys_printx t a p = Inr (Printed s) \<and> screen_ok s \<and>
    tty_write (nat (nr_tty (proc_table (ks t) p))) (filter (\<lambda>ch. \<not> magic ch) str) (scr t) = Inr s"
proof -
  let ?n = "nat (nr_tty (proc_table (ks t) p))"
  have n: "?n < NR_CONSOLES" using assms(2, 3) by (simp add: nat_less_iff)
  note ok = terminals_okD(1, 4) [OF assms(1) n]
  show ?thesis
  proof (cases str)
    case Nil
    with assms(4, 5) ok show ?thesis by (simp add: sys_printx_def)
  next
    case (Cons ch rest)
    with assms(5) have h: "kmem (ks t) la = ch" "ch \<noteq> 0" by simp_all
    from printx_loop_prints [OF assms(5) ok(1) n] obtain s where
      "printx_loop (kmem (ks t)) ?n la (scr t) = Some (Inr s)" "screen_ok s"
      "tty_write ?n (filter (\<lambda>ch. \<not> magic ch) str) (scr t) = Inr s" by blast
    with h assms(2-4, 6) Cons ok(2) show ?thesis by (auto simp: sys_printx_def Let_def)
  qed
qed

text \<open>
  The start-up of the terminal task succeeds and establishes the invariant: whatever the
  static tables hold, provided the rings have their declared sizes, the boot messages left
  the old cursor inside the first console and the task's segment is flat. Nothing is pending then,
  and the first terminal is on the screen.
\<close>

theorem task_tty_init_ok:
  assumes "disp_pos (scr t) div 2 < con_size" "length (kb_buf (kb_in (kbd t))) = KB_IN_BYTES"
    and "\<And>n. n < NR_CONSOLES \<Longrightarrow> length (in_buf (tty_table t n)) = TTY_IN_BYTES"
    and "0 \<le> nr_tty (proc_table (ks t) TASK_TTY)" "nr_tty (proc_table (ks t) TASK_TTY) < int NR_CONSOLES"
    and "ldt_seg_linear (proc_table (ks t) TASK_TTY) INDEX_LDT_RW = 0"
  shows "\<exists>t'. task_tty_init t = Inr t' \<and> drained 0 t' \<and> ks t' = ks t"
proof -
  obtain s0 s1 s2 where s: "init_screen 0 (scr t) = Inr s0" "init_screen 1 s0 = Inr s1" "init_screen 2 s1 = Inr s2"
    "screen_ok (select_console 0 s2)" "nr_current_console (select_console 0 s2) = 0"
    by (rule init_screens [OF assms(1)])
  define fresh where "fresh n y = y\<lparr>inbuf_count := 0, p_inbuf_head := 0, p_inbuf_tail := 0, p_console := n\<rparr>" for n and y :: tty
  define u where "u = t\<lparr>kbd := init_keyboard (kbd t), scr := select_console 0 s2, tty_table := (tty_table t)
    (0 := fresh 0 (tty_table t 0), 1 := fresh 1 (tty_table t 1), 2 := fresh 2 (tty_table t 2))\<rparr>"
  have run: "task_tty_init t = Inr u"
    using s(1-3) by (simp add: task_tty_init_def init_tty_def on_screen_def upd_tty_def u_def fresh_def Let_def)
  have tty: "tty_ok (tty_table u n) \<and> p_console (tty_table u n) = n \<and> tty_keys (tty_table u n) = []"
    if "n < NR_CONSOLES" for n
  proof -
    have "n = 0 \<or> n = 1 \<or> n = 2" using that by auto
    then show ?thesis
      using assms(3) [OF that] by (auto simp: u_def fresh_def tty_ok_def ring_ok_def tty_keys_def)
  qed
  have kb: "kb_ok (kb_in (kbd u))" "kb_contents (kb_in (kbd u)) = []"
    using assms(2) by (simp_all add: u_def init_keyboard_def set_leds_def kb_ok_def ring_ok_def kb_contents_def)
  with tty have "terminals_ok u"
    using s(4) assms(4-6) by (auto simp: terminals_ok_def u_def)
  with run s(5) tty kb(2) show ?thesis by (auto simp: u_def drained_def)
qed

section \<open>The panic screen\<close>

lemma gray_rest_frame: "even a \<or> a < V_MEM_BASE + 2 * c \<Longrightarrow> snd (gray_rest c v) a = v a"
proof (induction c v rule: gray_rest.induct)
  case (1 c v)
  show ?case
  proof (cases "(2 * c) mod (SCREEN_WIDTH * 16) \<noteq> 0")
    case True
    then have step: "gray_rest c v = gray_rest (c + 1) (v(V_MEM_BASE + 2 * c + 1 := GRAY_CHAR))"
      by (simp add: gray_rest.simps [of c])
    have "a \<noteq> V_MEM_BASE + 2 * c + 1" using 1(2) by auto
    moreover have "even a \<or> a < V_MEM_BASE + 2 * (c + 1)" using 1(2) by auto
    ultimately show ?thesis using 1(1) [OF True] step by (simp only: fun_upd_def if_False)
  qed (simp add: gray_rest.simps [of c])
qed

lemma gray_rest_end: "fst (gray_rest (640 * b + k) v) = 640 * (b + 1)" if "0 < k" "k \<le> 640"
  using that
proof (induction "640 - k" arbitrary: k v)
  case 0
  then have k: "640 * b + k = 640 * (b + 1)" by simp
  have "2 * (640 * (b + 1)) = 1280 * (b + 1)" by simp
  then have "2 * (640 * (b + 1)) mod (SCREEN_WIDTH * 16) = 0" by (simp only: mod_mult_self1_is_0) simp
  then have "gray_rest (640 * (b + 1)) v = (640 * (b + 1), v)"
    by (subst gray_rest.simps) (simp only: if_False not_True_eq_False simp_thms)
  with k show ?case by (simp only: fst_conv)
next
  case (Suc j)
  then have "2 * (640 * b + k) = 2 * k + b * 1280" "2 * k < 1280" by simp_all
  then have "2 * (640 * b + k) mod 1280 = 2 * k" by (simp only: mod_mult_self1 mod_less)
  then have "gray_rest (640 * b + k) v = gray_rest (640 * b + (k + 1)) (v(V_MEM_BASE + 2 * (640 * b + k) + 1 := GRAY_CHAR))"
    using Suc.prems by (simp add: gray_rest.simps [of "640 * b + k"])
  with Suc.hyps(1) [of "k + 1"] Suc.hyps(2) Suc.prems show ?case by simp
qed

lemma panic_screen_text:
  assumes "cstr h q str" "str \<noteq> []" "2 * (c + length str) \<le> V_MEM_SIZE"
  shows "\<exists>v'. panic_screen h p q c v = panic_screen h p (p + 1) (fst (gray_rest (c + length str) v'))
      (snd (gray_rest (c + length str) v')) \<and>
    (\<forall>k < length str. v' (V_MEM_BASE + 2 * (c + k)) = str ! k \<and> v' (V_MEM_BASE + 2 * (c + k) + 1) = RED_CHAR) \<and>
    (\<forall>a < V_MEM_BASE + 2 * c. v' a = v a)"
  using assms
proof (induction str arbitrary: q c v)
  case (Cons ch str)
  define v1 where "v1 = v(V_MEM_BASE + 2 * c := ch, V_MEM_BASE + 2 * c + 1 := RED_CHAR)"
  have v1: "v1 (V_MEM_BASE + 2 * c) = ch" "v1 (V_MEM_BASE + 2 * c + 1) = RED_CHAR" "\<forall>a < V_MEM_BASE + 2 * c. v1 a = v a"
    by (simp_all add: v1_def)
  have run: "panic_screen h p q c v = (if h (q + 1) = 0
      then panic_screen h p (p + 1) (fst (gray_rest (c + 1) v1)) (snd (gray_rest (c + 1) v1))
      else panic_screen h p (q + 1) (c + 1) v1)"
    using Cons.prems by (subst panic_screen.simps) (simp add: Let_def v1_def)
  show ?case
  proof (cases "str = []")
    case True
    with Cons.prems run v1 show ?thesis by (intro exI [of _ v1]) simp
  next
    case False
    then have "h (q + 1) \<noteq> 0" using Cons.prems(1) by (cases str) auto
    then have step: "panic_screen h p q c v = panic_screen h p (q + 1) (c + 1) v1"
      using run by simp
    obtain v' where v': "panic_screen h p (q + 1) (c + 1) v1 = panic_screen h p (p + 1) (fst (gray_rest (c + 1 + length str) v'))
        (snd (gray_rest (c + 1 + length str) v'))"
      "\<forall>k < length str. v' (V_MEM_BASE + 2 * (c + 1 + k)) = str ! k \<and> v' (V_MEM_BASE + 2 * (c + 1 + k) + 1) = RED_CHAR"
      "\<forall>a < V_MEM_BASE + 2 * (c + 1). v' a = v1 a"
      using Cons.IH [of "q + 1" "c + 1" v1] Cons.prems False by auto
    have "v' (V_MEM_BASE + 2 * (c + k)) = (ch # str) ! k \<and> v' (V_MEM_BASE + 2 * (c + k) + 1) = RED_CHAR"
      if "k < length (ch # str)" for k
      using that v'(2) v'(3) v1 by (cases k) simp_all
    with step v'(1, 3) v1(3) show ?thesis by (intro exI [of _ v']) simp
  qed
qed simp

lemma panic_screen_frame: "a < V_MEM_BASE + 2 * c \<Longrightarrow> panic_screen h p q c v a = v a"
proof (induction h p q c v rule: panic_screen.induct)
  case (1 h p q c v)
  define w where "w = v(V_MEM_BASE + 2 * c := h q, V_MEM_BASE + 2 * c + 1 := RED_CHAR)"
  have run: "panic_screen h p q c v = (if 2 * c < V_MEM_SIZE then if h (q + 1) = 0
      then panic_screen h p (p + 1) (fst (gray_rest (c + 1) w)) (snd (gray_rest (c + 1) w))
      else panic_screen h p (q + 1) (c + 1) w else v)"
    by (subst panic_screen.simps) (simp add: Let_def w_def)
  have "w a = v a" using 1(3) by (simp add: w_def)
  moreover have "c + 1 \<le> fst (gray_rest (c + 1) w)" by (rule gray_rest_le)
  moreover have "snd (gray_rest (c + 1) w) a = w a" using 1(3) by (intro gray_rest_frame) simp
  ultimately show ?case
    using 1(1) [OF _ w_def _ refl] 1(2) [OF _ w_def] 1(3) run by simp
qed

text \<open>
  A panic fills the screen: a message of at most eight rows stands in red at the start of every
  block of eight rows of video memory.
\<close>

theorem panic_screen_shows:
  assumes "cstr h (p + 1) str" "str \<noteq> []" "length str \<le> 640" "b < 25" "k < length str"
  shows "panic_screen h p (p + 1) 0 v (V_MEM_BASE + 2 * (640 * b + k)) = str ! k \<and>
    panic_screen h p (p + 1) 0 v (V_MEM_BASE + 2 * (640 * b + k) + 1) = RED_CHAR"
proof -
  have "\<exists>v. panic_screen h p (p + 1) 0 v0 = panic_screen h p (p + 1) (640 * b) v" for v0
  proof (use assms(4) in \<open>induction b\<close>)
    case (Suc b)
    then obtain v where v: "panic_screen h p (p + 1) 0 v0 = panic_screen h p (p + 1) (640 * b) v" by auto
    obtain v' where "panic_screen h p (p + 1) (640 * b) v = panic_screen h p (p + 1)
        (fst (gray_rest (640 * b + length str) v')) (snd (gray_rest (640 * b + length str) v'))"
      using panic_screen_text [OF assms(1, 2), of "640 * b" p v] Suc.prems assms(3) by auto
    with v gray_rest_end [of "length str" b v'] assms(2, 3) show ?case by auto
  qed auto
  then obtain v1 where v1: "panic_screen h p (p + 1) 0 v = panic_screen h p (p + 1) (640 * b) v1" by blast
  obtain v' where v': "panic_screen h p (p + 1) (640 * b) v1 = panic_screen h p (p + 1)
      (fst (gray_rest (640 * b + length str) v')) (snd (gray_rest (640 * b + length str) v'))"
    "\<forall>k < length str. v' (V_MEM_BASE + 2 * (640 * b + k)) = str ! k \<and> v' (V_MEM_BASE + 2 * (640 * b + k) + 1) = RED_CHAR"
    using panic_screen_text [OF assms(1, 2), of "640 * b" p v1] assms(3, 4) by auto
  have end_: "fst (gray_rest (640 * b + length str) v') = 640 * (b + 1)"
    using gray_rest_end [of "length str" b v'] assms(2, 3) by simp
  have keep: "panic_screen h p (p + 1) (640 * b) v1 a = v' a" if "a < V_MEM_BASE + 2 * (640 * b + length str)" for a
  proof -
    have "a < V_MEM_BASE + 2 * (640 * (b + 1))" using that assms(3) by simp
    with v'(1) end_ that show ?thesis by (simp add: panic_screen_frame gray_rest_frame)
  qed
  from v'(2) assms(5) keep [of "V_MEM_BASE + 2 * (640 * b + k)"] keep [of "V_MEM_BASE + 2 * (640 * b + k) + 1"] v1
  show ?thesis by simp
qed

section \<open>Instances\<close>

definition blank_tty :: "nat \<Rightarrow> tty" where
  "blank_tty n = \<lparr>in_buf = replicate 256 0, p_inbuf_head = 0, p_inbuf_tail = 0, inbuf_count = 0, tty_caller = 0,
     tty_procnr = 0, tty_req_buf = 0, tty_left_cnt = 0, tty_trans_cnt = 0, p_console = n\<rparr>"

definition demo_terminals :: "u32 list \<Rightarrow> memory \<Rightarrow> terminals" where
  "demo_terminals typed h = \<lparr>tty_table = (\<lambda>n. fold put_key typed (blank_tty n)), scr = demo_screen,
     kbd = demo_kb 0x1E, ks = flat_kstate h, outbox = [], tty_stack = reset_msg\<rparr>"

lemma blank_tty_ok: "tty_ok (blank_tty n)" "tty_keys (blank_tty n) = []"
  by (simp_all add: blank_tty_def tty_ok_def ring_ok_def tty_keys_def)

lemma fold_put_key_console: "p_console (fold put_key typed y) = p_console y"
  by (induction typed arbitrary: y) simp_all

lemma demo_terminals_ok: "terminals_ok (demo_terminals typed h)"
  using demo_screen_ok kb.put_inv [OF demo_kb_empty, of "0x1E"] keys.puts_inv [OF blank_tty_ok(1)]
  by (simp add: terminals_ok_def demo_terminals_def flat_kstate_def zero_proc_def fold_put_key_console
      demo_kb_def blank_tty_def ldt_seg_linear_def zero_descriptor_def desc_base_def)

lemma demo_terminals_keys: "length typed \<le> 256 \<Longrightarrow> tty_keys (tty_table (demo_terminals typed h) n) = typed"
  using keys.puts_contents [OF blank_tty_ok(1)] by (simp add: demo_terminals_def blank_tty_ok)

definition demo_request :: "u32 \<Rightarrow> message" where
  "demo_request cnt = reset_msg\<lparr>source := 3, m3i2 := cnt, m3i3 := 6, m3p2 := 0x5000\<rparr>"

lemma demo_sendable: "sendable (demo_terminals typed h) 3"
  by (simp add: sendable_def demo_terminals_def flat_kstate_def deadlock_def deadlock_chain.simps zero_proc_def)

definition demo_drained :: terminals where
  "demo_drained = (demo_terminals [] (\<lambda>_. 0))\<lparr>kbd := (demo_kb 0)
     \<lparr>kb_in := \<lparr>kb_head = 0, kb_tail = 0, kb_count = 0, kb_buf = replicate 32 0\<rparr>\<rparr>\<rparr>"

text \<open>H, O, backspace, I and Enter, with shift held and some keys released.\<close>

lemma demo_typed:
  "typed_chars (kbd demo_drained) [0x23, 0xA3, 0x18, 0x0E, 0x17, 0x97, 0x1C, 0x9C] = Some [0x48, 0x4F, 0x08, 0x49, 0x0A]"
  by code_simp

lemma demo_drained_ok: "drained 0 demo_drained"
  using demo_terminals_ok [of "[]" "\<lambda>_. 0"] demo_terminals_keys [of "[]" "\<lambda>_. 0"] demo_kb_empty
  by (simp add: drained_def demo_drained_def terminals_ok_def kb_contents_def demo_terminals_def demo_screen_def)

theorem tty_read_line_witness:
  "\<exists>t'. task_tty (([], (demo_request 9)\<lparr>msg_type := DEV_READ\<rparr>) #
      map (\<lambda>sc. ([sc], hard_int)) [0x23, 0xA3, 0x18, 0x0E, 0x17, 0x97, 0x1C, 0x9C]) demo_drained = Inr t' \<and>
    load_bytes (kmem (ks t')) 0x5000 2 = [0x48, 0x49] \<and> length (outbox t') = 2"
proof -
  let ?m = "(demo_request 9)\<lparr>msg_type := DEV_READ\<rparr>"
  have ks: "ks demo_drained = flat_kstate (\<lambda>_. 0)" "outbox demo_drained = []"
    by (simp_all add: demo_drained_def demo_terminals_def)
  note demo_drained_ok
  moreover have "sendable demo_drained (sint (source ?m))"
    using demo_sendable [of "[]" "\<lambda>_. 0"] sendable_cong [of demo_drained "demo_terminals [] (\<lambda>_. 0)"]
    by (simp add: demo_drained_def demo_request_def)
  moreover have "edit_line (nat (sint (CNT ?m))) [] [0x48, 0x4F, 0x08, 0x49, 0x0A] = Some ([0x48, 0x49], 5)"
    by (simp add: demo_request_def edit_char_def)
  ultimately show ?thesis
    using tty_read_line [of 0 demo_drained ?m "0x5000", OF _ _ _ _ _ _ _ _ _ demo_typed] ks
    by (auto simp: demo_request_def reset_msg_def flat_va2la numeral_2_eq_2)
qed

text \<open>The file system (process 3) is sending to the terminal task when Enter is typed.\<close>

definition demo_blocked :: kstate where
  "demo_blocked = demo_state\<lparr>proc_table := (proc_table demo_state)
     (3 := (proc_table demo_state 3)\<lparr>p_flags := SENDING, p_msg := 0x2000, p_sendto := TASK_TTY\<rparr>,
      TASK_TTY := (proc_table demo_state TASK_TTY)\<lparr>q_sending := Some 3\<rparr>)\<rparr>"

definition demo_line :: terminals where
  "demo_line = upd_tty 1 (\<lambda>y. y\<lparr>tty_left_cnt := 5, tty_caller := 3\<rparr>) ((demo_terminals [0x0A] (\<lambda>_. 0))\<lparr>ks := demo_blocked\<rparr>)"

theorem tty_resume_deadlock_witness:
  "tty_dev_write 1 demo_line = Inl (Panic 176)"
proof (rule tty_resume_deadlock)
  let ?a = "spec_send 3 0 boot_ipc"
  have "\<not> accepts boot_ipc 0 3" "(0, 3) \<notin> (waits boot_ipc)\<^sup>+"
    by (auto simp: accepts_def boot_ipc_def waits_def split: if_splits dest: tranclD)
  then have a: "ipc_ok ?a" "stat ?a = (stat boot_ipc)(3 := Sending 0)" "sendq ?a = (sendq boot_ipc)(0 := [3])" "intp ?a = intp boot_ipc"
    using ipc_ok_spec_send [OF ipc_ok_boot, of 3 0] by (simp_all add: spec_send_def boot_ipc_def)
  have "ipc_rel demo_blocked ?a"
    using a(2-4) demo_facts(1) by (auto simp: ipc_rel_def demo_blocked_def demo_state_def boot_ipc_def zero_proc_def)
  with a(1) show "reader_ok ?a 1 demo_line"
    by (simp add: reader_ok_def demo_line_def)
  have "(3, 0) \<in> waits ?a" using a(2) by (simp add: waits_def)
  then show "(nat (tty_caller (tty_table demo_line 1)), TASK_TTY) \<in> (waits ?a)\<^sup>+" by (simp add: demo_line_def r_into_trancl)
  have keys: "tty_keys (tty_table (demo_terminals [0x0A] (\<lambda>_. 0)) 1) = [0x0A]" by (rule demo_terminals_keys) simp
  then show "tty_keys (tty_table demo_line 1) = 0x0A # []" by (simp add: demo_line_def)
  show "terminals_ok demo_line"
    using demo_terminals_ok [of "[0x0A]" "\<lambda>_. 0"]
    by (simp add: terminals_ok_def demo_line_def demo_blocked_def demo_state_def zero_proc_def ldt_seg_linear_def
        zero_descriptor_def desc_base_def)
qed (simp_all add: demo_line_def)

text \<open>A key for a terminal nobody reads.\<close>

theorem tty_poll_returns_witness:
  "\<exists>arrivals' t'. tty_poll 1 [] ((demo_terminals [0x41] (\<lambda>_. 0))\<lparr>ks := demo_state\<rparr>) = Some (Inr (arrivals', t')) \<and>
     terminals_ok t' \<and> inbuf_count (tty_table t' 1) = 0"
proof -
  let ?t = "(demo_terminals [0x41] (\<lambda>_. 0))\<lparr>ks := demo_state\<rparr>"
  have left: "tty_left_cnt (tty_table ?t 1) = 0"
    by (simp add: demo_terminals_def blank_tty_def)
  have "tty_dev_read [] 1 ?t = Inr ([], ?t)"
    by (simp add: tty_dev_read_def is_current_console_def demo_terminals_def demo_screen_def fold_put_key_console blank_tty_def)
  then have run: "\<exists>r. tty_poll 1 [] ?t = Some (Inr r)"
    by (subst tty_poll.simps) (simp add: tty_dev_write_def demo_terminals_def blank_tty_def put_key_def take_key_def)
  have "terminals_ok ?t"
    using demo_terminals_ok [of "[0x41]" "\<lambda>_. 0"] demo_facts(2)
    by (simp add: terminals_ok_def segs_ok_def demo_state_def zero_proc_def ldt_seg_linear_def zero_descriptor_def desc_base_def)
  moreover have "reader_ok boot_ipc 1 ?t"
    using demo_facts left by (simp add: reader_ok_def)
  ultimately show ?thesis
    using tty_poll_returns [of ?t 1 boot_ipc "[]"] run by auto
qed

theorem tty_do_write_output_witness:
  "\<exists>s t. tty_write 2 [0x41, 0x41, 0x41] demo_screen = Inr s \<and>
    tty_do_write 2 (demo_request 3) (demo_terminals [] (\<lambda>_. 0x41)) = Inr t \<and> scr t = s \<and> length (outbox t) = 1"
proof -
  let ?t = "demo_terminals [] (\<lambda>_. 0x41)"
  have "load_bytes (kmem (ks ?t)) 0x5000 (nat (sint (CNT (demo_request 3)))) = [0x41, 0x41, 0x41]"
    by (simp add: load_bytes_def demo_terminals_def flat_kstate_def demo_request_def upt_rec)
  moreover have "scr ?t = demo_screen" "outbox ?t = []" by (simp_all add: demo_terminals_def)
  ultimately show ?thesis
    using tty_do_write_output [OF demo_terminals_ok [of "[]" "\<lambda>_. 0x41"], of 2 "demo_request 3" "0x5000"]
      demo_sendable [of "[]" "\<lambda>_. 0x41"]
    by (auto simp: demo_request_def reset_msg_def demo_terminals_def flat_va2la)
qed

theorem sys_printx_prints_witness:
  "\<exists>s. sys_printx (demo_terminals [] ((\<lambda>_. 0)(0x100 := 0x48, 0x101 := 3, 0x102 := 0x69))) 0x100 6 = Inr (Printed s) \<and>
    screen_ok s \<and> tty_write 0 [0x48, 0x69] demo_screen = Inr s"
proof -
  let ?h = "(\<lambda>_. 0)(0x100 := 0x48, 0x101 := 3, 0x102 := 0x69) :: memory"
  have "cstr (kmem (ks (demo_terminals [] ?h))) 0x100 [0x48, 3, 0x69]"
    by (simp add: demo_terminals_def flat_kstate_def)
  moreover have "ks (demo_terminals [] ?h) = flat_kstate ?h" "scr (demo_terminals [] ?h) = demo_screen"
    "k_reenter (flat_kstate ?h) = 0" "nr_tty (proc_table (flat_kstate ?h) 6) = 0"
    by (simp_all add: demo_terminals_def flat_kstate_def zero_proc_def)
  ultimately show ?thesis
    using sys_printx_prints [OF demo_terminals_ok, where typed1 = "[]" and h1 = ?h and p = 6 and a = "0x100" and la = "0x100"
      and str = "[0x48, 3, 0x69]"]
    by (simp add: flat_va2la magic_def)
qed

theorem task_tty_init_ok_witness:
  "\<exists>t'. task_tty_init (demo_terminals [] (\<lambda>_. 0)) = Inr t' \<and> drained 0 t'"
  using task_tty_init_ok [of "demo_terminals [] (\<lambda>_. 0)"]
  by (simp add: demo_terminals_def demo_screen_def demo_kb_def kb_store_def Let_def blank_tty_def flat_kstate_def zero_proc_def
      ldt_seg_linear_def zero_descriptor_def desc_base_def) auto

theorem panic_screen_shows_witness:
  "panic_screen ((\<lambda>_. 0)(0x101 := 0x4F, 0x102 := 0x6F)) 0x100 0x101 0 (\<lambda>_. 0) (V_MEM_BASE + 2 * (640 * 24 + 1)) = 0x6F"
  using panic_screen_shows [of "(\<lambda>_. 0)(0x101 := 0x4F, 0x102 := 0x6F)" "0x100" "[0x4F, 0x6F]" 24 1] by simp

end
