(* ===== verification/Fs.thy ===== *)
theory Fs
  imports Hd Tty
begin

text \<open>
  The file system task, \<^verbatim>\<open>fs/main.c\<close> and \<^verbatim>\<open>fs/misc.c\<close>: its tables, the access to sectors through
  the disk driver, the cache of inodes, and the search of the root directory.

  The tables are total functions of the index; pointers into them are indices, a null pointer is
  \<open>None\<close>. \<^verbatim>\<open>fsbuf\<close> is the buffer at address \<open>0x600000\<close> of memory, and the structures the code
  finds there by a pointer cast are read at their byte offsets. A driver is called by
  \<^verbatim>\<open>send_recv(BOTH, ...)\<close>: the task sends one message and continues with the answer, so the call
  is the driver's handling of that message.
\<close>

section \<open>Data\<close>

record super_block =
  magic :: u32
  nr_inodes :: u32
  sb_nr_sects :: u32
  nr_imap_sects :: u32
  nr_smap_sects :: u32
  n_1st_sect :: u32
  nr_inode_sects :: u32
  sb_root_inode :: u32
  inode_size :: u32
  inode_isize_off :: u32
  inode_start_off :: u32
  dir_ent_size :: u32
  dir_ent_inode_off :: u32
  dir_ent_fname_off :: u32
  sb_dev :: int

record inode =
  i_mode :: u32
  i_size :: u32
  i_start_sect :: u32
  i_nr_sects :: u32
  i_dev :: int
  i_cnt :: int
  i_num :: int

record file_desc =
  fd_mode :: u32
  fd_pos :: int
  fd_cnt :: int
  fd_inode :: "nat option"

record fs =
  f_desc_table :: "nat \<Rightarrow> file_desc"
  inode_table :: "nat \<Rightarrow> inode"
  super_blocks :: "nat \<Rightarrow> super_block"
  root_inode :: nat
  fs_msg :: message
  pcaller :: nat
  drv :: hd
  tt :: terminals

abbreviation (input) NR_FILE_DESC :: nat where "NR_FILE_DESC \<equiv> 64"
abbreviation (input) NR_INODE :: nat where "NR_INODE \<equiv> 64"
abbreviation (input) NR_SUPER_BLOCK :: nat where "NR_SUPER_BLOCK \<equiv> 8"
abbreviation (input) fsbuf :: u32 where "fsbuf \<equiv> 0x600000"
abbreviation (input) NO_DEV :: int where "NO_DEV \<equiv> 0"
abbreviation (input) ROOT_DEV :: int where "ROOT_DEV \<equiv> 0x320"
abbreviation (input) ROOT_INODE :: "'a::one" where "ROOT_INODE \<equiv> 1"
abbreviation (input) INODE_SIZE :: "'a::numeral" where "INODE_SIZE \<equiv> 32"
abbreviation (input) DIR_ENTRY_SIZE :: "'a::numeral" where "DIR_ENTRY_SIZE \<equiv> 16"
abbreviation (input) MAX_FILENAME_LEN :: nat where "MAX_FILENAME_LEN \<equiv> 12"
abbreviation (input) MAX_PATH :: "'a::numeral" where "MAX_PATH \<equiv> 128"
abbreviation (input) NR_DEFAULT_FILE_SECTS :: "'a::numeral" where "NR_DEFAULT_FILE_SECTS \<equiv> 2048"
abbreviation (input) I_TYPE_MASK :: u32 where "I_TYPE_MASK \<equiv> 0xF000"
abbreviation (input) I_REGULAR :: u32 where "I_REGULAR \<equiv> 0x8000"
abbreviation (input) I_DIRECTORY :: u32 where "I_DIRECTORY \<equiv> 0x4000"
abbreviation (input) I_CHAR_SPECIAL :: u32 where "I_CHAR_SPECIAL \<equiv> 0x2000"
abbreviation (input) O_CREAT :: u32 where "O_CREAT \<equiv> 1"
abbreviation (input) O_RDWR :: u32 where "O_RDWR \<equiv> 2"

definition fmem :: "fs \<Rightarrow> memory" where
  "fmem f = kmem (hks (drv f))"

definition set_fmem :: "memory \<Rightarrow> fs \<Rightarrow> fs" where
  "set_fmem h f = f\<lparr>drv := (drv f)\<lparr>hks := (hks (drv f))\<lparr>kmem := h\<rparr>\<rparr>\<rparr>"

definition upd_inode :: "nat \<Rightarrow> (inode \<Rightarrow> inode) \<Rightarrow> fs \<Rightarrow> fs" where
  "upd_inode i g f = f\<lparr>inode_table := (inode_table f)(i := g (inode_table f i))\<rparr>"

definition upd_fd :: "nat \<Rightarrow> (file_desc \<Rightarrow> file_desc) \<Rightarrow> fs \<Rightarrow> fs" where
  "upd_fd i g f = f\<lparr>f_desc_table := (f_desc_table f)(i := g (f_desc_table f i))\<rparr>"

section \<open>Drivers\<close>

definition MAJOR :: "int \<Rightarrow> int" where
  "MAJOR dev = dev div 2 ^ 8 mod 256"

definition MINOR :: "int \<Rightarrow> int" where
  "MINOR dev = dev mod 256"

definition dd_map :: "int list" where
  "dd_map = [INVALID_DRIVER, INVALID_DRIVER, INVALID_DRIVER, TASK_HD, TASK_TTY, INVALID_DRIVER]"

text \<open>The terminal task answers with the message it sends back; if it sends none the file system
  waits for ever.\<close>

definition tty_call :: "nat \<Rightarrow> message \<Rightarrow> fs \<Rightarrow> (message \<times> fs) result" where
  "tty_call ln m f =
     bindE (task_tty_msg m ((tt f)\<lparr>ks := hks (drv f), outbox := []\<rparr>)) (\<lambda>t.
       case outbox t of
         [] \<Rightarrow> Inl (Hang ln)
       | (dest, r) # _ \<Rightarrow> Inr (r\<lparr>source := TASK_TTY\<rparr>, f\<lparr>tt := t, drv := (drv f)\<lparr>hks := ks t\<rparr>\<rparr>))"

definition hd_call :: "message \<Rightarrow> fs \<Rightarrow> (message \<times> fs) result" where
  "hd_call m f = bindE (task_hd_msg m (drv f)) (\<lambda>d. Inr (m\<lparr>source := TASK_HD\<rparr>, f\<lparr>drv := d\<rparr>))"

definition driver_call :: "nat \<Rightarrow> int \<Rightarrow> message \<Rightarrow> fs \<Rightarrow> (message \<times> fs) result" where
  "driver_call ln dev m f =
     (if MAJOR dev \<ge> int (length dd_map) then Inl (OutOfBounds ln)
      else let driver_nr = dd_map ! nat (MAJOR dev); m = m\<lparr>source := TASK_FS\<rparr>
           in check ln (driver_nr \<noteq> INVALID_DRIVER) (if driver_nr = TASK_HD then hd_call m f else tty_call ln m f))"

definition rw_sector :: "u32 \<Rightarrow> int \<Rightarrow> u32 \<Rightarrow> u32 \<Rightarrow> u32 \<Rightarrow> u32 \<Rightarrow> fs \<Rightarrow> fs result" where
  "rw_sector io_type dev pos bytes proc_nr buf f =
     (let driver_msg = reset_msg\<lparr>msg_type := io_type, m3i4 := word_of_int (MINOR dev), m3l1 := ucast pos, m3p2 := buf,
            m3i2 := bytes, m3i3 := proc_nr\<rparr>
      in bindE (driver_call 251 dev driver_msg f) (\<lambda>(r, f). Inr f))"

definition RD_SECT :: "int \<Rightarrow> u32 \<Rightarrow> fs \<Rightarrow> fs result" where
  "RD_SECT dev sect_nr f = rw_sector DEV_READ dev (sect_nr * SECTOR_SIZE) SECTOR_SIZE TASK_FS fsbuf f"

definition WR_SECT :: "int \<Rightarrow> u32 \<Rightarrow> fs \<Rightarrow> fs result" where
  "WR_SECT dev sect_nr f = rw_sector DEV_WRITE dev (sect_nr * SECTOR_SIZE) SECTOR_SIZE TASK_FS fsbuf f"

section \<open>Super blocks\<close>

definition load_super_block :: "memory \<Rightarrow> u32 \<Rightarrow> super_block" where
  "load_super_block h a = \<lparr>magic = load32 h a, nr_inodes = load32 h (a + 4), sb_nr_sects = load32 h (a + 8),
     nr_imap_sects = load32 h (a + 12), nr_smap_sects = load32 h (a + 16), n_1st_sect = load32 h (a + 20),
     nr_inode_sects = load32 h (a + 24), sb_root_inode = load32 h (a + 28), inode_size = load32 h (a + 32),
     inode_isize_off = load32 h (a + 36), inode_start_off = load32 h (a + 40), dir_ent_size = load32 h (a + 44),
     dir_ent_inode_off = load32 h (a + 48), dir_ent_fname_off = load32 h (a + 52), sb_dev = sint (load32 h (a + 56))\<rparr>"

definition first_index :: "(nat \<Rightarrow> bool) \<Rightarrow> nat \<Rightarrow> nat option" where
  "first_index P n = find P [0..<n]"

definition read_super_block :: "int \<Rightarrow> fs \<Rightarrow> fs result" where
  "read_super_block dev f =
     bindE (driver_call 268 dev (reset_msg\<lparr>msg_type := DEV_READ, m3i4 := word_of_int (MINOR dev), m3l1 := SECTOR_SIZE,
              m3p2 := fsbuf, m3i2 := SECTOR_SIZE, m3i3 := TASK_FS\<rparr>) f) (\<lambda>(r, f).
       case first_index (\<lambda>i. sb_dev (super_blocks f i) = NO_DEV) NR_SUPER_BLOCK of
         None \<Rightarrow> Inl (Panic 276)
       | Some i \<Rightarrow> check 278 (i = 0)
           (Inr (f\<lparr>super_blocks := (super_blocks f)(i := (load_super_block (fmem f) fsbuf)\<lparr>sb_dev := dev\<rparr>)\<rparr>)))"

definition get_super_block :: "int \<Rightarrow> fs \<Rightarrow> super_block result" where
  "get_super_block dev f =
     (case first_index (\<lambda>i. sb_dev (super_blocks f i) = dev) NR_SUPER_BLOCK of
        None \<Rightarrow> Inl (Panic 292) | Some i \<Rightarrow> Inr (super_blocks f i))"

section \<open>Inodes\<close>

text \<open>The sector that holds inode \<open>num\<close> and the address in \<^verbatim>\<open>fsbuf\<close> it is read to; both use the
  division of C.\<close>

definition inode_blk :: "super_block \<Rightarrow> int \<Rightarrow> u32" where
  "inode_blk sb num = 1 + 1 + nr_imap_sects sb + nr_smap_sects sb + word_of_int ((num - 1) sdiv (SECTOR_SIZE div INODE_SIZE))"

definition inode_addr :: "int \<Rightarrow> u32" where
  "inode_addr num = fsbuf + word_of_int (((num - 1) smod (SECTOR_SIZE div INODE_SIZE)) * INODE_SIZE)"

text \<open>The loop of \<^verbatim>\<open>get_inode\<close>: the entry that holds the inode already, else the first free entry.\<close>

definition find_inode :: "int \<Rightarrow> int \<Rightarrow> fs \<Rightarrow> nat option" where
  "find_inode dev num f =
     first_index (\<lambda>p. i_cnt (inode_table f p) \<noteq> 0 \<and> i_dev (inode_table f p) = dev \<and> i_num (inode_table f p) = num) NR_INODE"

definition get_inode :: "int \<Rightarrow> int \<Rightarrow> fs \<Rightarrow> (nat option \<times> fs) result" where
  "get_inode dev num f =
     (if num = 0 then Inr (None, f)
      else case find_inode dev num f of
        Some p \<Rightarrow> Inr (Some p, upd_inode p (\<lambda>x. x\<lparr>i_cnt := i_cnt x + 1\<rparr>) f)
      | None \<Rightarrow>
          (case first_index (\<lambda>p. i_cnt (inode_table f p) = 0) NR_INODE of
             None \<Rightarrow> Inl (Panic 322)
           | Some q \<Rightarrow>
               let f = upd_inode q (\<lambda>x. x\<lparr>i_dev := dev, i_num := num, i_cnt := 1\<rparr>) f
               in bindE (get_super_block dev f) (\<lambda>sb.
                  bindE (RD_SECT dev (inode_blk sb num) f) (\<lambda>f.
                    let h = fmem f; a = inode_addr num
                    in Inr (Some q, upd_inode q (\<lambda>x. x\<lparr>i_mode := load32 h a, i_size := load32 h (a + 4),
                              i_start_sect := load32 h (a + 8), i_nr_sects := load32 h (a + 12)\<rparr>) f)))))"

definition put_inode :: "nat \<Rightarrow> fs \<Rightarrow> fs result" where
  "put_inode p f = check 350 (i_cnt (inode_table f p) > 0) (Inr (upd_inode p (\<lambda>x. x\<lparr>i_cnt := i_cnt x - 1\<rparr>) f))"

definition store_inode :: "memory \<Rightarrow> u32 \<Rightarrow> inode \<Rightarrow> memory" where
  "store_inode h a x = store32 (store32 (store32 (store32 h a (i_mode x)) (a + 4) (i_size x)) (a + 8) (i_start_sect x))
     (a + 12) (i_nr_sects x)"

definition sync_inode :: "nat \<Rightarrow> fs \<Rightarrow> fs result" where
  "sync_inode p f =
     (let x = inode_table f p
      in bindE (get_super_block (i_dev x) f) (\<lambda>sb.
         bindE (RD_SECT (i_dev x) (inode_blk sb (i_num x)) f) (\<lambda>f.
           WR_SECT (i_dev x) (inode_blk sb (i_num x)) (set_fmem (store_inode (fmem f) (inode_addr (i_num x)) x) f))))"

section \<open>Paths and the root directory\<close>

text \<open>The loop of \<^verbatim>\<open>strip_path\<close>: a slash inside the name is refused, a long name is cut.\<close>

fun strip_loop :: "u8 list \<Rightarrow> u8 list \<Rightarrow> u8 list option" where
  "strip_loop [] t = Some t"
| "strip_loop (c # s) t =
     (if c = 0x2F then None
      else let t = t @ [c] in if length t \<ge> MAX_FILENAME_LEN then Some t else strip_loop s t)"

definition strip_path :: "u8 list \<Rightarrow> u8 list option" where
  "strip_path pathname = strip_loop (case pathname of [] \<Rightarrow> [] | c # s \<Rightarrow> if c = 0x2F then s else c # s) []"

text \<open>The twelve bytes \<^verbatim>\<open>search_file\<close> compares: the name in a buffer cleared before.\<close>

definition name_field :: "u8 list \<Rightarrow> u8 list" where
  "name_field name = take MAX_FILENAME_LEN (name @ replicate MAX_FILENAME_LEN 0)"

definition entry_inode :: "memory \<Rightarrow> nat \<Rightarrow> u32" where
  "entry_inode h j = load32 h (fsbuf + of_nat (DIR_ENTRY_SIZE * j))"

definition entry_name :: "memory \<Rightarrow> nat \<Rightarrow> u8 list" where
  "entry_name h j = load_bytes h (fsbuf + of_nat (DIR_ENTRY_SIZE * j) + 4) MAX_FILENAME_LEN"

text \<open>The inner loop over the 32 entries of a sector: \<open>Inl\<close> the inode number when the name was
  found, \<open>Inr m\<close> the count of entries seen otherwise.\<close>

fun search_sector :: "memory \<Rightarrow> u8 list \<Rightarrow> nat \<Rightarrow> nat \<Rightarrow> nat list \<Rightarrow> u32 + nat" where
  "search_sector h field nr_dir_entries m [] = Inr m"
| "search_sector h field nr_dir_entries m (j # js) =
     (if entry_name h j = field then Inl (entry_inode h j)
      else if m + 1 > nr_dir_entries then Inr (m + 1) else search_sector h field nr_dir_entries (m + 1) js)"

fun search_blocks :: "u8 list \<Rightarrow> nat \<Rightarrow> int \<Rightarrow> u32 \<Rightarrow> nat \<Rightarrow> nat list \<Rightarrow> fs \<Rightarrow> (u32 \<times> fs) result" where
  "search_blocks field nr_dir_entries dev dir_blk0_nr m [] f = Inr (0, f)"
| "search_blocks field nr_dir_entries dev dir_blk0_nr m (i # is) f =
     bindE (RD_SECT dev (dir_blk0_nr + of_nat i) f) (\<lambda>f.
       case search_sector (fmem f) field nr_dir_entries m [0..<SECTOR_SIZE div DIR_ENTRY_SIZE] of
         Inl nr \<Rightarrow> Inr (nr, f)
       | Inr m \<Rightarrow> if m > nr_dir_entries then Inr (0, f)
                  else search_blocks field nr_dir_entries dev dir_blk0_nr m is f)"

definition search_file :: "u8 list \<Rightarrow> fs \<Rightarrow> (u32 \<times> fs) result" where
  "search_file path f =
     (case strip_path path of
        None \<Rightarrow> Inr (0, f)
      | Some filename \<Rightarrow>
          let dir = inode_table f (root_inode f)
          in if filename = [] then Inr (word_of_int (i_num dir), f)
             else search_blocks (name_field filename) (unat (i_size dir div DIR_ENTRY_SIZE)) (i_dev dir) (i_start_sect dir) 0
                    [0..<unat ((i_size dir + SECTOR_SIZE + 1) div SECTOR_SIZE)] f)"

section \<open>The root device as a sector store\<close>

definition fs_base :: "fs \<Rightarrow> u32" where
  "fs_base f = part_base (logical (hdi (drv f)) 16)"

definition fs_sect :: "fs \<Rightarrow> nat \<Rightarrow> u8 list" where
  "fs_sect f n = sectors (disk (drv f)) (unat (fs_base f) + n)"

definition fs_buf :: "fs \<Rightarrow> u8 list" where
  "fs_buf f = load_bytes (fmem f) fsbuf SECTOR_SIZE"

text \<open>A disk that answers, a root partition within the reach of 28-bit sector numbers, and the
  file system task running on flat segments. Byte positions on a device are 32-bit, so the
  sectors below \<open>2\<^sup>2\<^sup>3\<close> can be addressed.\<close>

abbreviation (input) sect_limit :: nat where "sect_limit \<equiv> 2 ^ 23"

definition fs_ok :: "fs \<Rightarrow> bool" where
  "fs_ok f \<longleftrightarrow> disk_ok (disk (drv f)) \<and> unat (fs_base f) + sect_limit \<le> 2 ^ 28 \<and>
     ldt_seg_linear (proc_table (hks (drv f)) TASK_FS) INDEX_LDT_RW = 0"

text \<open>Nothing changes but the sectors of the root device and the buffer.\<close>

definition fs_frame :: "fs \<Rightarrow> fs \<Rightarrow> bool" where
  "fs_frame f g \<longleftrightarrow> g = f\<lparr>drv := drv g\<rparr> \<and> hdi (drv g) = hdi (drv f) \<and>
     hks (drv g) = (hks (drv f))\<lparr>kmem := kmem (hks (drv g))\<rparr> \<and>
     (\<forall>x. x \<notin> region fsbuf SECTOR_SIZE \<longrightarrow> fmem g x = fmem f x)"

lemma fs_frame_refl [simp]: "fs_frame f f"
  by (simp add: fs_frame_def)

lemma fs_frame_trans: "fs_frame f g \<Longrightarrow> fs_frame g k \<Longrightarrow> fs_frame f k"
  unfolding fs_frame_def
  by (metis (no_types, lifting) fs.surjective fs.update_convs(7) kstate.surjective kstate.update_convs(6))

lemma fs_frame_sel:
  assumes "fs_frame f g"
  shows "inode_table g = inode_table f" "f_desc_table g = f_desc_table f" "super_blocks g = super_blocks f"
    "root_inode g = root_inode f" "fs_msg g = fs_msg f" "pcaller g = pcaller f" "tt g = tt f"
    "proc_table (hks (drv g)) = proc_table (hks (drv f))" "hdi (drv g) = hdi (drv f)"
proof -
  from assms have g: "g = f\<lparr>drv := drv g\<rparr>" "hks (drv g) = (hks (drv f))\<lparr>kmem := kmem (hks (drv g))\<rparr>" "hdi (drv g) = hdi (drv f)"
    by (simp_all add: fs_frame_def)
  from g(1) show "inode_table g = inode_table f" "f_desc_table g = f_desc_table f" "super_blocks g = super_blocks f"
    "root_inode g = root_inode f" "fs_msg g = fs_msg f" "pcaller g = pcaller f" "tt g = tt f"
    by (metis fs.select_convs fs.surjective fs.update_convs(7))+
  from g(2) show "proc_table (hks (drv g)) = proc_table (hks (drv f))"
    by (metis kstate.select_convs(5) kstate.surjective kstate.update_convs(6))
  show "hdi (drv g) = hdi (drv f)" by (rule g(3))
qed

lemma root_dev: "MINOR ROOT_DEV = 0x20" "MAJOR ROOT_DEV = 3"
  by (simp_all add: MINOR_def MAJOR_def)

lemma root_part: "part_of ln 0x20 hi = Inr (logical hi 16)"
  by (simp add: part_of_def DRV_OF_DEV_def signed_divide_int_def signed_modulo_int_def)

lemma sector_position:
  assumes "n < sect_limit"
  shows "(ucast (of_nat n * SECTOR_SIZE :: u32) :: u64) = of_nat (SECTOR_SIZE * n)"
proof -
  have "(of_nat n * SECTOR_SIZE :: u32) = of_nat (SECTOR_SIZE * n)" by (simp add: mult.commute)
  moreover have "take_bit 32 (SECTOR_SIZE * n) = SECTOR_SIZE * n"
    using assms by (intro take_bit_nat_eq_self) simp
  ultimately show ?thesis by (simp only: unsigned_of_nat) simp
qed

lemma rw_sector_root:
  "rw_sector io ROOT_DEV pos bytes proc_nr buf f =
   bindE (task_hd_msg (reset_msg\<lparr>msg_type := io, m3i4 := 0x20, m3l1 := ucast pos, m3p2 := buf, m3i2 := bytes, m3i3 := proc_nr,
     source := TASK_FS\<rparr>) (drv f)) (\<lambda>d. Inr (f\<lparr>drv := d\<rparr>))"
  by (simp add: rw_sector_def driver_call_def root_dev dd_map_def hd_call_def bindE_assoc Let_def)

lemma root_request:
  assumes "fs_ok f" "n < sect_limit"
  shows "sector_request (reset_msg\<lparr>msg_type := io, m3i4 := 0x20, m3l1 := ucast (of_nat n * SECTOR_SIZE :: u32), m3p2 := fsbuf,
    m3i2 := SECTOR_SIZE, m3i3 := TASK_FS, source := TASK_FS\<rparr>) (drv f) n 1 (fs_base f) fsbuf"
  using assms sector_position [OF assms(2)] root_part
  by (simp add: sector_request_def byte_request_def reset_msg_def fs_ok_def fs_base_def va2la_def)

lemma RD_SECT_root:
  assumes "fs_ok f" "n < sect_limit"
  shows "RD_SECT ROOT_DEV (of_nat n) f = Inr (f\<lparr>drv := (drv f)\<lparr>disk := (disk (drv f))\<lparr>xfer_lba := unat (fs_base f) + n + 1,
      xfer_left := 0\<rparr>, hks := (hks (drv f))\<lparr>kmem := store_bytes (fmem f) fsbuf (fs_sect f n)\<rparr>\<rparr>\<rparr>)"
  unfolding RD_SECT_def rw_sector_root
  using hd_rdwt_read [OF root_request [OF assms]] assms(1)
  by (simp add: task_hd_msg_def fs_ok_def reset_msg_def fs_sect_def fmem_def)

lemma WR_SECT_root:
  assumes "fs_ok f" "n < sect_limit"
  shows "WR_SECT ROOT_DEV (of_nat n) f = Inr (f\<lparr>drv := (drv f)\<lparr>disk := (disk (drv f))\<lparr>xfer_lba := unat (fs_base f) + n + 1,
      xfer_left := 0, sectors := (sectors (disk (drv f)))(unat (fs_base f) + n := fs_buf f)\<rparr>\<rparr>\<rparr>)"
proof -
  have "(\<lambda>i. if unat (fs_base f) + n \<le> i \<and> i < unat (fs_base f) + n + 1
      then load_bytes (kmem (hks (drv f))) (fsbuf + of_nat (SECTOR_SIZE * (i - (unat (fs_base f) + n)))) SECTOR_SIZE
      else sectors (disk (drv f)) i) = (sectors (disk (drv f)))(unat (fs_base f) + n := fs_buf f)"
    by (rule ext) (auto simp: fs_buf_def fmem_def)
  with hd_rdwt_write [OF root_request [OF assms]] assms(1) show ?thesis
    unfolding WR_SECT_def rw_sector_root by (simp add: task_hd_msg_def fs_ok_def reset_msg_def)
qed

interpretation root: sector_store fs_ok sect_limit "\<lambda>n. RD_SECT ROOT_DEV (of_nat n)" "\<lambda>n. WR_SECT ROOT_DEV (of_nat n)"
  fs_sect fs_buf fs_frame
proof unfold_locales
  fix f n
  assume f: "fs_ok f" and n: "n < sect_limit"
  then have len: "length (fs_sect f n) = SECTOR_SIZE" by (simp add: fs_ok_def disk_ok_def fs_sect_def)
  show "\<exists>g. RD_SECT ROOT_DEV (of_nat n) f = Inr g \<and> fs_ok g \<and> fs_buf g = fs_sect f n \<and> fs_sect g = fs_sect f \<and> fs_frame f g"
    using f n len load_store_bytes [of "fs_sect f n" "fmem f" fsbuf] RD_SECT_root [OF f n]
    by (simp add: fs_ok_def disk_ok_def fs_base_def fs_buf_def fs_sect_def fs_frame_def fmem_def fun_eq_iff store_bytes_frame)
  show "\<exists>g. WR_SECT ROOT_DEV (of_nat n) f = Inr g \<and> fs_ok g \<and> fs_sect g = (fs_sect f)(n := fs_buf f) \<and> fs_buf g = fs_buf f \<and> fs_frame f g"
    using f n WR_SECT_root [OF f n]
    by (auto simp: fs_ok_def disk_ok_def fs_base_def fs_buf_def fs_sect_def fs_frame_def fmem_def fun_eq_iff)
qed (rule fs_frame_trans)

section \<open>Inodes on disk\<close>

lemma set_fmem_sel [simp]:
  "inode_table (set_fmem h f) = inode_table f" "f_desc_table (set_fmem h f) = f_desc_table f"
  "super_blocks (set_fmem h f) = super_blocks f" "root_inode (set_fmem h f) = root_inode f"
  "fmem (set_fmem h f) = h" "fs_sect (set_fmem h f) = fs_sect f" "fs_base (set_fmem h f) = fs_base f"
  "hdi (drv (set_fmem h f)) = hdi (drv f)" "fs_ok (set_fmem h f) = fs_ok f"
  by (simp_all add: set_fmem_def fmem_def fs_sect_def fs_base_def fs_ok_def fun_eq_iff)

lemma root_edit:
  assumes "fs_ok f" "off + length bs \<le> SECTOR_SIZE"
  shows "root.edits (splice off bs) (\<lambda>f. set_fmem (store_bytes (fmem f) (fsbuf + of_nat off) bs) f) f"
proof -
  have "region (fsbuf + of_nat off) (length bs) \<subseteq> region fsbuf SECTOR_SIZE"
  proof
    fix x
    assume "x \<in> region (fsbuf + of_nat off) (length bs)"
    then obtain k where "k < length bs" "x = fsbuf + of_nat (off + k)" by (rule region_offset)
    with assms(2) region_memI [of "off + k" SECTOR_SIZE fsbuf] show "x \<in> region fsbuf SECTOR_SIZE" by simp
  qed
  then have "store_bytes (fmem f) (fsbuf + of_nat off) bs x = fmem f x" if "x \<notin> region fsbuf SECTOR_SIZE" for x
    using that by (intro store_bytes_frame) blast
  then show ?thesis
    using assms by (simp add: root.edits_def fs_buf_def load_store_splice fs_frame_def) (simp add: set_fmem_def)
qed

text \<open>A mounted root device: the super block is in the first slot of the cache and describes the
  layout that \<^verbatim>\<open>mkfs\<close> makes, with one sector of inode map and 4096 inodes.\<close>

definition sb0 :: "fs \<Rightarrow> super_block" where
  "sb0 f = super_blocks f 0"

definition mounted :: "fs \<Rightarrow> bool" where
  "mounted f \<longleftrightarrow> fs_ok f \<and> sb_dev (sb0 f) = ROOT_DEV \<and> nr_imap_sects (sb0 f) = 1 \<and>
     unat (n_1st_sect (sb0 f)) = 3 + unat (nr_smap_sects (sb0 f)) + 256 \<and> unat (n_1st_sect (sb0 f)) < sect_limit"

lemma mounted_frame: "mounted f \<Longrightarrow> fs_ok g \<Longrightarrow> fs_frame f g \<Longrightarrow> mounted g"
  using fs_frame_sel(3) [of f g] by (simp add: mounted_def sb0_def)

lemma get_super_block_root: "sb_dev (sb0 f) = ROOT_DEV \<Longrightarrow> get_super_block ROOT_DEV f = Inr (sb0 f)"
  by (simp add: get_super_block_def first_index_def upt_rec sb0_def)

text \<open>Where inode \<open>num\<close> is: sector and offset.\<close>

definition inode_sect :: "fs \<Rightarrow> nat \<Rightarrow> nat" where
  "inode_sect f num = 3 + unat (nr_smap_sects (sb0 f)) + (num - 1) div 16"

definition inode_off :: "nat \<Rightarrow> nat" where
  "inode_off num = ((num - 1) mod 16) * INODE_SIZE"

definition inode_bytes :: "inode \<Rightarrow> u8 list" where
  "inode_bytes x = le32 (i_mode x) @ le32 (i_size x) @ le32 (i_start_sect x) @ le32 (i_nr_sects x)"

lemma inode_off_bound: "inode_off num + INODE_SIZE \<le> SECTOR_SIZE"
proof -
  have "(num - 1) mod 16 \<le> 15" by (simp add: less_Suc_eq_le [symmetric])
  then show ?thesis by (simp add: inode_off_def)
qed

lemma length_inode_bytes [simp]: "length (inode_bytes x) = 16"
  by (simp add: inode_bytes_def)

lemma inode_place:
  assumes "mounted f" "1 \<le> num" "num \<le> 4096"
  shows "inode_blk (sb0 f) (int num) = of_nat (inode_sect f num)" "inode_addr (int num) = fsbuf + of_nat (inode_off num)"
    "inode_sect f num < sect_limit"
proof -
  have num: "int num - 1 = int (num - 1)" using assms(2) by simp
  have "(int num - 1) sdiv 16 = int ((num - 1) div 16)" "(int num - 1) smod 16 = int ((num - 1) mod 16)"
    unfolding num by (simp_all add: signed_divide_int_def signed_modulo_int_def zdiv_int zmod_int sgn_if minus_div_mult_eq_mod)
  moreover have "(1 + 1 + nr_imap_sects (sb0 f) + nr_smap_sects (sb0 f) :: u32) = of_nat (3 + unat (nr_smap_sects (sb0 f)))"
    using assms(1) by (simp add: mounted_def)
  ultimately show "inode_blk (sb0 f) (int num) = of_nat (inode_sect f num)" "inode_addr (int num) = fsbuf + of_nat (inode_off num)"
    by (simp_all add: inode_blk_def inode_addr_def inode_sect_def inode_off_def)
  have "(num - 1) div 16 < 256" using assms(2, 3) by (intro less_mult_imp_div_less) simp
  then show "inode_sect f num < sect_limit"
    using assms(1) by (simp add: inode_sect_def mounted_def)
qed

lemma store_inode_bytes: "store_inode h a x = store_bytes h a (inode_bytes x)"
  by (simp add: store_inode_def store32_def inode_bytes_def store_bytes_append add.commute [of _ a])

lemma sync_inode_stores:
  assumes "mounted f" "i_dev (inode_table f p) = ROOT_DEV" "i_num (inode_table f p) = int num" "1 \<le> num" "num \<le> 4096"
  shows "\<exists>g. sync_inode p f = Inr g \<and> mounted g \<and> fs_frame f g \<and>
    fs_sect g = (fs_sect f)(inode_sect f num := splice (inode_off num) (inode_bytes (inode_table f p)) (fs_sect f (inode_sect f num)))"
proof -
  note place = inode_place [OF assms(1, 4, 5)]
  let ?x = "inode_table f p"
  let ?edit = "\<lambda>f. set_fmem (store_bytes (fmem f) (fsbuf + of_nat (inode_off num)) (inode_bytes ?x)) f"
  have ok: "fs_ok f" and sb: "get_super_block ROOT_DEV f = Inr (sb0 f)"
    using assms(1) by (simp_all add: mounted_def get_super_block_root)
  define n where "n = inode_sect f num"
  have "sync_inode p f = bindE (RD_SECT ROOT_DEV (of_nat n) f) (\<lambda>f. WR_SECT ROOT_DEV (of_nat n) (?edit f))"
    using place sb assms(2, 3) by (simp add: sync_inode_def store_inode_bytes n_def)
  moreover have "root.edits (splice (inode_off num) (inode_bytes ?x)) ?edit g" if "fs_ok g" for g
    using that inode_off_bound [of num] by (intro root_edit) simp_all
  ultimately obtain g where "sync_inode p f = Inr g" "fs_ok g" "fs_frame f g"
    "fs_sect g = (fs_sect f)(n := splice (inode_off num) (inode_bytes ?x) (fs_sect f n))"
    using root.read_modify_write [OF ok, of n "splice (inode_off num) (inode_bytes ?x)" ?edit] place(3) n_def by auto
  with mounted_frame [OF assms(1)] show ?thesis by (auto simp: n_def)
qed

text \<open>The inode that disk holds under a number, as \<^verbatim>\<open>get_inode\<close> enters it into the cache.\<close>

definition disk_inode :: "fs \<Rightarrow> nat \<Rightarrow> inode" where
  "disk_inode f num =
     (let bs = fs_sect f (inode_sect f num); o' = inode_off num
      in \<lparr>i_mode = word_at bs o', i_size = word_at bs (o' + 4), i_start_sect = word_at bs (o' + 8),
          i_nr_sects = word_at bs (o' + 12), i_dev = ROOT_DEV, i_cnt = 1, i_num = int num\<rparr>)"

lemma upd_inode_sel [simp]:
  "inode_table (upd_inode p c f) = (inode_table f)(p := c (inode_table f p))" "f_desc_table (upd_inode p c f) = f_desc_table f"
  "super_blocks (upd_inode p c f) = super_blocks f" "root_inode (upd_inode p c f) = root_inode f" "drv (upd_inode p c f) = drv f"
  "fs_msg (upd_inode p c f) = fs_msg f" "pcaller (upd_inode p c f) = pcaller f" "tt (upd_inode p c f) = tt f"
  by (simp_all add: upd_inode_def)

lemma upd_inode_views [simp]:
  "fmem (upd_inode p c f) = fmem f" "fs_sect (upd_inode p c f) = fs_sect f" "fs_buf (upd_inode p c f) = fs_buf f"
  "sb0 (upd_inode p c f) = sb0 f" "fs_base (upd_inode p c f) = fs_base f" "fs_ok (upd_inode p c f) = fs_ok f"
  "mounted (upd_inode p c f) = mounted f" "disk_inode (upd_inode p c f) = disk_inode f"
  by (simp_all add: fmem_def fs_sect_def fs_buf_def sb0_def fs_base_def fs_ok_def mounted_def disk_inode_def inode_sect_def fun_eq_iff)

lemma upd_inode_upd [simp]: "upd_inode p c (upd_inode p d f) = upd_inode p (\<lambda>x. c (d x)) f"
  by (simp add: upd_inode_def)

lemma fs_frame_upd_inode:
  assumes "fs_frame f g"
  shows "fs_frame (upd_inode p c f) (upd_inode p c g)"
proof -
  obtain d where g: "g = f\<lparr>drv := d\<rparr>" using assms by (auto simp: fs_frame_def)
  show ?thesis using assms unfolding g by (simp add: fs_frame_def upd_inode_def fmem_def)
qed

lemma first_index_Some: "first_index P n = Some i \<longleftrightarrow> i < n \<and> P i \<and> (\<forall>j<i. \<not> P j)"
  by (auto simp: first_index_def find_Some_iff)

lemma first_index_None: "first_index P n = None \<longleftrightarrow> (\<forall>i<n. \<not> P i)"
  by (auto simp: first_index_def find_None_iff)

lemma disk_inode_frame: "fs_frame f g \<Longrightarrow> fs_sect g = fs_sect f \<Longrightarrow> disk_inode g = disk_inode f"
  using fs_frame_sel(3) [of f g] by (simp add: disk_inode_def inode_sect_def sb0_def fun_eq_iff)

lemma get_inode_loads:
  assumes "mounted f" "1 \<le> num" "num \<le> 4096" "find_inode ROOT_DEV (int num) f = None"
    "first_index (\<lambda>p. i_cnt (inode_table f p) = 0) NR_INODE = Some q"
  shows "\<exists>g. get_inode ROOT_DEV (int num) f = Inr (Some q, g) \<and> mounted g \<and> fs_sect g = fs_sect f \<and>
    fs_frame (upd_inode q (\<lambda>_. disk_inode f num) f) g"
proof -
  note place = inode_place [OF assms(1, 2, 3)]
  let ?f = "upd_inode q (\<lambda>x. x\<lparr>i_dev := ROOT_DEV, i_num := int num, i_cnt := 1\<rparr>) f"
  have ok: "fs_ok ?f" and sb: "get_super_block ROOT_DEV ?f = Inr (sb0 f)"
    using assms(1) get_super_block_root [of ?f] by (simp_all add: mounted_def)
  obtain g where g: "RD_SECT ROOT_DEV (of_nat (inode_sect f num)) ?f = Inr g" "fs_ok g" "fs_buf g = fs_sect f (inode_sect f num)"
    "fs_sect g = fs_sect f" "fs_frame ?f g"
    using root.rd_ok [OF ok place(3)] by auto
  have word: "load32 (fmem g) (fsbuf + of_nat (inode_off num) + of_nat k) = word_at (fs_sect f (inode_sect f num)) (inode_off num + k)"
    if "k + 4 \<le> 32" for k
    using that inode_off_bound [of num] g(3) load32_word_at [of "inode_off num + k" SECTOR_SIZE "fmem g" fsbuf]
    by (simp add: fs_buf_def add.assoc)
  let ?l = "\<lambda>x. x\<lparr>i_mode := load32 (fmem g) (inode_addr (int num)), i_size := load32 (fmem g) (inode_addr (int num) + 4),
              i_start_sect := load32 (fmem g) (inode_addr (int num) + 8), i_nr_sects := load32 (fmem g) (inode_addr (int num) + 12)\<rparr>"
  have "fs_frame (upd_inode q ?l ?f) (upd_inode q ?l g)" by (rule fs_frame_upd_inode [OF g(5)])
  moreover have "upd_inode q ?l ?f = upd_inode q (\<lambda>_. disk_inode f num) f"
    using word [of 0] word [of 4] word [of 8] word [of 12]
    by (cases "inode_table f q") (simp add: upd_inode_def disk_inode_def place(2) Let_def)
  ultimately have "fs_frame (upd_inode q (\<lambda>_. disk_inode f num) f) (upd_inode q ?l g)" by simp
  moreover have "get_inode ROOT_DEV (int num) f = Inr (Some q, upd_inode q ?l g)"
    using assms(2, 4, 5) sb g(1) place(1) by (simp add: get_inode_def Let_def)
  moreover have "mounted (upd_inode q ?l g)"
    using mounted_frame [OF _ g(2, 5)] assms(1) by simp
  ultimately show ?thesis using g(4) by auto
qed

lemma get_inode_cached:
  assumes "num \<noteq> 0" "find_inode dev num f = Some p"
  shows "get_inode dev num f = Inr (Some p, upd_inode p (\<lambda>x. x\<lparr>i_cnt := i_cnt x + 1\<rparr>) f)"
  using assms by (simp add: get_inode_def)

lemma inode_off_disjoint:
  assumes "1 \<le> m" "1 \<le> num" "m \<noteq> num" "inode_sect f m = inode_sect f num"
  shows "inode_off m + INODE_SIZE \<le> inode_off num \<or> inode_off num + INODE_SIZE \<le> inode_off m"
proof -
  have "(m - 1) div 16 = (num - 1) div 16" using assms(4) by (simp add: inode_sect_def)
  then have "(m - 1) mod 16 \<noteq> (num - 1) mod 16"
    using assms(1 - 3) by (metis div_mult_mod_eq le_add_diff_inverse)
  then show ?thesis unfolding inode_off_def by (cases "(m - 1) mod 16 < (num - 1) mod 16") auto
qed

text \<open>Writing the bytes of an inode changes that inode on disk and no other.\<close>

lemma disk_inode_splice:
  assumes "fs_ok f" "sb0 g = sb0 f" "1 \<le> num" "1 \<le> m"
    "fs_sect g = (fs_sect f)(inode_sect f num := splice (inode_off num) (inode_bytes x) (fs_sect f (inode_sect f num)))"
  shows "disk_inode g m = (if m = num then x\<lparr>i_dev := ROOT_DEV, i_cnt := 1, i_num := int num\<rparr> else disk_inode f m)"
proof -
  let ?bs = "fs_sect f (inode_sect f num)"
  have len: "length ?bs = SECTOR_SIZE" using assms(1) by (simp add: fs_ok_def disk_ok_def fs_sect_def)
  have sect: "inode_sect g m = inode_sect f m" using assms(2) by (simp add: inode_sect_def)
  show ?thesis
  proof (cases "m = num")
    case True
    have "word_at (splice (inode_off num) (inode_bytes x) ?bs) (inode_off num + k) = word_at (inode_bytes x) k" if "k + 4 \<le> 16" for k
      using that len inode_off_bound [of num] by (intro word_at_splice) simp_all
    note w = this [of 0] this [of 4] this [of 8] this [of 12]
    have "word_at (inode_bytes x) 0 = i_mode x" "word_at (inode_bytes x) 4 = i_size x"
      "word_at (inode_bytes x) 8 = i_start_sect x" "word_at (inode_bytes x) 12 = i_nr_sects x"
      by (rule word_at_le32; simp add: inode_bytes_def)+
    with w True sect assms(5) show ?thesis by (cases x) (simp add: disk_inode_def Let_def)
  next
    case False
    have "word_at (splice (inode_off num) (inode_bytes x) ?bs) (inode_off m + k) = word_at ?bs (inode_off m + k)"
      if "k + 4 \<le> 16" "inode_sect f m = inode_sect f num" for k
      using that len inode_off_bound [of num] inode_off_bound [of m] inode_off_disjoint [OF assms(4, 3) False that(2)]
      by (intro word_at_splice_frame) auto
    note w = this [of 0] this [of 4] this [of 8] this [of 12]
    show ?thesis
      using w False sect assms(5) by (cases "inode_sect f m = inode_sect f num") (simp_all add: disk_inode_def Let_def)
  qed
qed

lemma inode_sect_less:
  assumes "mounted f" "1 \<le> num" "num \<le> 4096"
  shows "inode_sect f num < unat (n_1st_sect (sb0 f))"
proof -
  have "(num - 1) div 16 < 256" using assms(2, 3) by (intro less_mult_imp_div_less) simp
  then show ?thesis using assms(1) by (simp add: inode_sect_def mounted_def)
qed

lemma disk_inode_cong:
  "sb0 g = sb0 f \<Longrightarrow> fs_sect g (inode_sect f num) = fs_sect f (inode_sect f num) \<Longrightarrow> disk_inode g num = disk_inode f num"
  by (simp add: disk_inode_def inode_sect_def)

lemma sync_inode_disk:
  assumes "mounted f" "i_dev (inode_table f p) = ROOT_DEV" "i_num (inode_table f p) = int num" "1 \<le> num" "num \<le> 4096"
  shows "\<exists>g. sync_inode p f = Inr g \<and> mounted g \<and> fs_frame f g \<and>
    (\<forall>s. s \<noteq> inode_sect f num \<longrightarrow> fs_sect g s = fs_sect f s) \<and>
    (\<forall>m\<ge>1. disk_inode g m = (if m = num then (inode_table f p)\<lparr>i_cnt := 1\<rparr> else disk_inode f m))"
proof -
  obtain g where g: "sync_inode p f = Inr g" "mounted g" "fs_frame f g"
    "fs_sect g = (fs_sect f)(inode_sect f num := splice (inode_off num) (inode_bytes (inode_table f p)) (fs_sect f (inode_sect f num)))"
    using sync_inode_stores [OF assms] by blast
  moreover have "disk_inode g m = (if m = num then (inode_table f p)\<lparr>i_cnt := 1\<rparr> else disk_inode f m)" if "1 \<le> m" for m
  proof -
    have "fs_ok f" "sb0 g = sb0 f" using assms(1) fs_frame_sel(3) [OF g(3)] by (simp_all add: mounted_def sb0_def)
    from disk_inode_splice [OF this assms(4) that g(4)] show ?thesis
      using assms(2, 3) by (cases "inode_table f p") simp
  qed
  ultimately show ?thesis by simp
qed

section \<open>The cache of inodes\<close>

text \<open>No inode is in the cache twice, and no count is negative.\<close>

definition cache_ok :: "fs \<Rightarrow> bool" where
  "cache_ok f \<longleftrightarrow> (\<forall>p<NR_INODE. i_cnt (inode_table f p) \<ge> 0) \<and>
     (\<forall>p<NR_INODE. \<forall>q<NR_INODE. i_cnt (inode_table f p) \<noteq> 0 \<and> i_cnt (inode_table f q) \<noteq> 0 \<and>
        i_dev (inode_table f p) = i_dev (inode_table f q) \<and> i_num (inode_table f p) = i_num (inode_table f q) \<longrightarrow> p = q)"

lemma cache_okD:
  assumes "cache_ok f" "p < NR_INODE" "q < NR_INODE" "i_cnt (inode_table f p) \<noteq> 0" "i_cnt (inode_table f q) \<noteq> 0"
    "i_dev (inode_table f p) = i_dev (inode_table f q)" "i_num (inode_table f p) = i_num (inode_table f q)"
  shows "p = q"
  using assms unfolding cache_ok_def by blast

lemma find_inode_Some:
  "find_inode dev num f = Some p \<Longrightarrow>
   p < NR_INODE \<and> i_cnt (inode_table f p) \<noteq> 0 \<and> i_dev (inode_table f p) = dev \<and> i_num (inode_table f p) = num"
  by (simp add: find_inode_def first_index_Some)

lemma find_inode_None:
  "find_inode dev num f = None \<Longrightarrow> p < NR_INODE \<Longrightarrow> i_cnt (inode_table f p) \<noteq> 0 \<Longrightarrow> i_dev (inode_table f p) = dev \<Longrightarrow>
   i_num (inode_table f p) \<noteq> num"
  by (auto simp: find_inode_def first_index_None)

text \<open>What an entry of the cache holds after \<^verbatim>\<open>get_inode\<close>.\<close>

definition cached_inode :: "fs \<Rightarrow> nat \<Rightarrow> inode" where
  "cached_inode f num = (case find_inode ROOT_DEV (int num) f of
     Some p \<Rightarrow> (inode_table f p)\<lparr>i_cnt := i_cnt (inode_table f p) + 1\<rparr> | None \<Rightarrow> disk_inode f num)"

lemma get_inode_ok:
  assumes "mounted f" "1 \<le> num" "num \<le> 4096" "find_inode ROOT_DEV (int num) f \<noteq> None \<or> (\<exists>p<NR_INODE. i_cnt (inode_table f p) = 0)"
  shows "\<exists>p g. get_inode ROOT_DEV (int num) f = Inr (Some p, g) \<and> p < NR_INODE \<and> mounted g \<and> fs_sect g = fs_sect f \<and>
    (find_inode ROOT_DEV (int num) f = Some p \<or> find_inode ROOT_DEV (int num) f = None \<and> i_cnt (inode_table f p) = 0) \<and>
    fs_frame (upd_inode p (\<lambda>_. cached_inode f num) f) g"
proof (cases "find_inode ROOT_DEV (int num) f")
  case None
  with assms(4) obtain q where "first_index (\<lambda>p. i_cnt (inode_table f p) = 0) NR_INODE = Some q"
    by (cases "first_index (\<lambda>p. i_cnt (inode_table f p) = 0) NR_INODE") (auto simp: first_index_None)
  with get_inode_loads [OF assms(1 - 3) None this] None show ?thesis
    by (auto simp: cached_inode_def first_index_Some)
next
  case (Some p)
  have "upd_inode p (\<lambda>_. cached_inode f num) f = upd_inode p (\<lambda>x. x\<lparr>i_cnt := i_cnt x + 1\<rparr>) f"
    using Some by (simp add: cached_inode_def upd_inode_def)
  with get_inode_cached [OF _ Some] Some assms(1, 2) find_inode_Some [OF Some] show ?thesis
    by (intro exI [of _ p] exI [of _ "upd_inode p (\<lambda>x. x\<lparr>i_cnt := i_cnt x + 1\<rparr>) f"]) simp
qed

lemma cache_ok_upd:
  assumes "cache_ok f" "p < NR_INODE" "i_cnt x > 0" "i_dev x = dev" "i_num x = num"
    "find_inode dev num f = Some p \<or> find_inode dev num f = None"
  shows "cache_ok (upd_inode p (\<lambda>_. x) f)"
proof -
  have only: "r = p" if "r < NR_INODE" "i_cnt (inode_table f r) \<noteq> 0" "i_dev (inode_table f r) = dev" "i_num (inode_table f r) = num" for r
    using assms(6)
  proof
    assume "find_inode dev num f = Some p"
    from find_inode_Some [OF this] that assms(2) show ?thesis by (auto intro: cache_okD [OF assms(1)])
  next
    assume "find_inode dev num f = None"
    from find_inode_None [OF this that(1 - 3)] that(4) show ?thesis by simp
  qed
  show ?thesis
    unfolding cache_ok_def
  proof (intro conjI allI impI)
    fix r s
    assume r: "r < NR_INODE" and s: "s < NR_INODE"
    assume eq: "i_cnt (inode_table (upd_inode p (\<lambda>_. x) f) r) \<noteq> 0 \<and> i_cnt (inode_table (upd_inode p (\<lambda>_. x) f) s) \<noteq> 0 \<and>
       i_dev (inode_table (upd_inode p (\<lambda>_. x) f) r) = i_dev (inode_table (upd_inode p (\<lambda>_. x) f) s) \<and>
       i_num (inode_table (upd_inode p (\<lambda>_. x) f) r) = i_num (inode_table (upd_inode p (\<lambda>_. x) f) s)"
    show "r = s"
    proof (cases "r = p")
      case True
      with eq assms(4, 5) show ?thesis using only [OF s] by (cases "s = p") auto
    next
      case False
      with eq assms(4, 5) show ?thesis using only [OF r] cache_okD [OF assms(1) r s] by (cases "s = p") auto
    qed
  next
    fix r
    assume "r < NR_INODE"
    then show "0 \<le> i_cnt (inode_table (upd_inode p (\<lambda>_. x) f) r)"
      using assms(1, 3) by (cases "r = p") (simp_all add: cache_ok_def)
  qed
qed

lemma cached_inode_sel:
  assumes "cache_ok f"
  shows "i_cnt (cached_inode f num) > 0" "i_dev (cached_inode f num) = ROOT_DEV" "i_num (cached_inode f num) = int num"
proof -
  have "i_cnt (cached_inode f num) > 0 \<and> i_dev (cached_inode f num) = ROOT_DEV \<and> i_num (cached_inode f num) = int num"
  proof (cases "find_inode ROOT_DEV (int num) f")
    case None
    then show ?thesis by (simp add: cached_inode_def disk_inode_def Let_def)
  next
    case (Some q)
    from find_inode_Some [OF this] have q: "q < NR_INODE" "i_dev (inode_table f q) = ROOT_DEV" "i_num (inode_table f q) = int num" by simp_all
    with assms have "i_cnt (inode_table f q) \<ge> 0" by (simp add: cache_ok_def)
    with q Some show ?thesis by (simp add: cached_inode_def)
  qed
  then show "i_cnt (cached_inode f num) > 0" "i_dev (cached_inode f num) = ROOT_DEV" "i_num (cached_inode f num) = int num"
    by simp_all
qed

lemma cache_ok_get:
  assumes "cache_ok f" "p < NR_INODE"
    "find_inode ROOT_DEV (int num) f = Some p \<or> find_inode ROOT_DEV (int num) f = None \<and> i_cnt (inode_table f p) = 0"
  shows "cache_ok (upd_inode p (\<lambda>_. cached_inode f num) f)"
  using assms(3) by (intro cache_ok_upd [OF assms(1, 2) cached_inode_sel [OF assms(1)]]) auto

text \<open>
  C21. The cache of inodes. A request for an inode that the cache holds, or that there is a free
  entry for, succeeds. It returns the entry with one more reference if the inode was cached, and
  otherwise an entry filled with the four fields that the disk has for that number, with one
  reference. No other entry and no sector changes, and the inode is still cached at most once.
\<close>

theorem get_inode_correct:
  assumes "mounted f" "cache_ok f" "1 \<le> num" "num \<le> 4096"
    "find_inode ROOT_DEV (int num) f \<noteq> None \<or> (\<exists>p<NR_INODE. i_cnt (inode_table f p) = 0)"
  shows "\<exists>p g. get_inode ROOT_DEV (int num) f = Inr (Some p, g) \<and> p < NR_INODE \<and>
    inode_table g = (inode_table f)(p := case find_inode ROOT_DEV (int num) f of
      Some q \<Rightarrow> (inode_table f q)\<lparr>i_cnt := i_cnt (inode_table f q) + 1\<rparr> | None \<Rightarrow> disk_inode f num) \<and>
    (find_inode ROOT_DEV (int num) f = Some p \<or> find_inode ROOT_DEV (int num) f = None \<and> i_cnt (inode_table f p) = 0) \<and>
    find_inode ROOT_DEV (int num) g = Some p \<and> fs_sect g = fs_sect f \<and> mounted g \<and> cache_ok g"
proof -
  obtain p g where g: "get_inode ROOT_DEV (int num) f = Inr (Some p, g)" "p < NR_INODE" "mounted g" "fs_sect g = fs_sect f"
    "find_inode ROOT_DEV (int num) f = Some p \<or> find_inode ROOT_DEV (int num) f = None \<and> i_cnt (inode_table f p) = 0"
    "fs_frame (upd_inode p (\<lambda>_. cached_inode f num) f) g"
    using get_inode_ok [OF assms(1, 3 - 5)] by blast
  have tab: "inode_table g = (inode_table f)(p := cached_inode f num)" using fs_frame_sel(1) [OF g(6)] by simp
  then have ok: "cache_ok g" using cache_ok_get [OF assms(2) g(2, 5)] by (simp add: cache_ok_def)
  have hit: "i_cnt (inode_table g p) \<noteq> 0 \<and> i_dev (inode_table g p) = ROOT_DEV \<and> i_num (inode_table g p) = int num"
    using tab cached_inode_sel [OF assms(2), of num] by simp
  have "find_inode ROOT_DEV (int num) g = Some p"
  proof (cases "find_inode ROOT_DEV (int num) g")
    case None
    with hit g(2) show ?thesis using find_inode_None [OF None g(2)] by blast
  next
    case (Some q)
    with hit g(2) show ?thesis using find_inode_Some [OF Some] cache_okD [OF ok, of q p] by simp
  qed
  with g(1 - 5) tab ok show ?thesis unfolding cached_inode_def by (intro exI [of _ p] exI [of _ g] conjI) simp_all
qed

text \<open>
  An inode survives its way through the disk. When the only reference to a cached inode of
  the root device is written back and released, the next request for its number finds an inode
  with the same fields and one reference, and no other inode on disk has changed.
\<close>

theorem inode_roundtrip:
  assumes "mounted f" "cache_ok f" "p < NR_INODE" "i_dev (inode_table f p) = ROOT_DEV" "i_num (inode_table f p) = int num"
    "i_cnt (inode_table f p) = 1" "1 \<le> num" "num \<le> 4096"
  shows "\<exists>g q h. bindE (sync_inode p f) (put_inode p) = Inr g \<and> get_inode ROOT_DEV (int num) g = Inr (Some q, h) \<and>
    inode_table h q = inode_table f p \<and> (\<forall>m\<ge>1. m \<noteq> num \<longrightarrow> disk_inode h m = disk_inode f m)"
proof -
  obtain g where g: "sync_inode p f = Inr g" "mounted g" "fs_frame f g"
    "\<forall>m\<ge>1. disk_inode g m = (if m = num then (inode_table f p)\<lparr>i_cnt := 1\<rparr> else disk_inode f m)"
    using sync_inode_disk [OF assms(1, 4, 5, 7, 8)] by blast
  note tab = fs_frame_sel(1) [OF g(3)]
  let ?g = "upd_inode p (\<lambda>x. x\<lparr>i_cnt := i_cnt x - 1\<rparr>) g"
  have put: "put_inode p g = Inr ?g" using tab assms(6) by (simp add: put_inode_def check_def)
  have only: "r = p" if "r < NR_INODE" "i_cnt (inode_table f r) \<noteq> 0" "i_dev (inode_table f r) = ROOT_DEV" "i_num (inode_table f r) = int num" for r
    using that assms(4 - 6) by (intro cache_okD [OF assms(2) that(1) assms(3)]) simp_all
  have "find_inode ROOT_DEV (int num) ?g = None"
    unfolding find_inode_def first_index_None
  proof (intro allI impI)
    fix r
    assume "r < NR_INODE"
    from only [OF this] show "\<not> (i_cnt (inode_table ?g r) \<noteq> 0 \<and> i_dev (inode_table ?g r) = ROOT_DEV \<and> i_num (inode_table ?g r) = int num)"
      by (cases "r = p") (auto simp: tab assms(6))
  qed
  then have cached: "cached_inode ?g num = disk_inode g num" by (simp add: cached_inode_def)
  have free: "\<exists>p<NR_INODE. i_cnt (inode_table ?g p) = 0"
    by (rule exI [of _ p]) (simp add: tab assms(3, 6))
  have "mounted ?g" using g(2) by simp
  from get_inode_ok [OF this assms(7, 8) disjI2 [OF free], unfolded cached] obtain q h
    where h: "get_inode ROOT_DEV (int num) ?g = Inr (Some q, h)" "fs_sect h = fs_sect ?g"
      "fs_frame (upd_inode q (\<lambda>_. disk_inode g num) ?g) h"
    by blast
  have "inode_table h q = disk_inode g num" using fs_frame_sel(1) [OF h(3)] by simp
  moreover have "disk_inode h m = disk_inode g m" for m
    using disk_inode_frame [OF h(3)] h(2) by simp
  ultimately show ?thesis
    using g(1, 4) put h(1) assms(6, 7) by (intro exI [of _ ?g] exI [of _ q] exI [of _ h]) simp
qed

section \<open>Directories\<close>

text \<open>The entries of a directory, in the order of its sectors.\<close>

definition dir_slot :: "fs \<Rightarrow> nat \<Rightarrow> nat \<Rightarrow> u8 list" where
  "dir_slot f s k = take 16 (drop (16 * (k mod 32)) (fs_sect f (s + k div 32)))"

definition slot_inode :: "u8 list \<Rightarrow> u32" where
  "slot_inode e = word_at e 0"

definition slot_name :: "u8 list \<Rightarrow> u8 list" where
  "slot_name e = drop 4 e"

text \<open>What a search of the directory at sector \<open>s\<close> is to find: the inode number of the first of
  the first \<open>n\<close> entries with that name, else zero.\<close>

definition lookup_name :: "fs \<Rightarrow> nat \<Rightarrow> u8 list \<Rightarrow> nat \<Rightarrow> u32" where
  "lookup_name f s field n = (case find (\<lambda>k. slot_name (dir_slot f s k) = field) [0..<n] of
     None \<Rightarrow> 0 | Some k \<Rightarrow> slot_inode (dir_slot f s k))"

lemma entry_slot:
  assumes "fs_buf f = fs_sect g (s + i)" "j < 32"
  shows "entry_inode (fmem f) j = slot_inode (dir_slot g s (32 * i + j))" "entry_name (fmem f) j = slot_name (dir_slot g s (32 * i + j))"
proof -
  have slot: "dir_slot g s (32 * i + j) = load_bytes (fmem f) (fsbuf + of_nat (16 * j)) 16"
    using assms load_bytes_drop [of "16 * j" 16 SECTOR_SIZE "fmem f" fsbuf] by (simp add: dir_slot_def fs_buf_def)
  show "entry_inode (fmem f) j = slot_inode (dir_slot g s (32 * i + j))"
    using load32_word_at [of 0 16 "fmem f" "fsbuf + of_nat (16 * j)"] by (simp add: entry_inode_def slot_inode_def slot)
  show "entry_name (fmem f) j = slot_name (dir_slot g s (32 * i + j))"
    using load_bytes_append [of "fmem f" "fsbuf + of_nat (16 * j)" 4 12] by (simp add: entry_name_def slot_name_def slot)
qed

lemma find_upt_split:
  assumes "lo \<le> mid" "mid \<le> hi"
  shows "find P [lo..<hi] = (case find P [lo..<mid] of Some k \<Rightarrow> Some k | None \<Rightarrow> find P [mid..<hi])"
proof -
  have "[lo..<hi] = [lo..<mid] @ [mid..<hi]"
    using assms upt_add_eq_append [of lo mid "hi - mid"] by simp
  moreover have "find P (xs @ ys) = (case find P xs of Some k \<Rightarrow> Some k | None \<Rightarrow> find P ys)" for xs ys
    by (induction xs) simp_all
  ultimately show ?thesis by simp
qed

text \<open>One sector: the entries from number \<open>m\<close> on, up to the end of the sector and of the directory.\<close>

lemma search_sector_find:
  assumes "\<And>j. j < 32 \<Longrightarrow> entry_name h j = nm (32 * i + j) \<and> entry_inode h j = ino (32 * i + j)" "j \<le> 32" "32 * i + j \<le> n"
  shows "search_sector h field n (32 * i + j) [j..<32] =
    (case find (\<lambda>k. nm k = field) [32 * i + j..<min (n + 1) (32 * (i + 1))] of
       Some k \<Rightarrow> Inl (ino k) | None \<Rightarrow> Inr (min (n + 1) (32 * (i + 1))))"
  using assms(2, 3)
proof (induction "32 - j" arbitrary: j)
  case 0
  then show ?case by simp
next
  case (Suc d)
  then have j: "j < 32" "[j..<32] = j # [Suc j..<32]" by (simp_all add: upt_conv_Cons)
  have up: "[32 * i + j..<min (n + 1) (32 * (i + 1))] = (32 * i + j) # [32 * i + Suc j..<min (n + 1) (32 * (i + 1))]"
    using j(1) Suc.prems by (simp add: upt_conv_Cons)
  show ?case
  proof (cases "32 * i + Suc j \<le> n")
    case True
    then show ?thesis
      using Suc.hyps(1) [of "Suc j"] Suc.hyps(2) j assms(1) [OF j(1)] unfolding up j(2) by (simp split: option.splits)
  next
    case False
    then have "n = 32 * i + j" using Suc.prems by simp
    moreover from this have "min (n + 1) (32 * (i + 1)) = n + 1" using j(1) by simp
    ultimately show ?thesis
      using assms(1) [OF j(1)] unfolding up j(2) by simp
  qed
qed

lemma search_blocks_find:
  assumes "mounted f" "s + b \<le> sect_limit" "i \<le> b" "32 * i \<le> n"
  shows "\<exists>g. search_blocks field n ROOT_DEV (of_nat s) (32 * i) [i..<b] f =
      Inr (case find (\<lambda>k. slot_name (dir_slot f s k) = field) [32 * i..<min (n + 1) (32 * b)] of
         Some k \<Rightarrow> slot_inode (dir_slot f s k) | None \<Rightarrow> 0, g) \<and> mounted g \<and> fs_sect g = fs_sect f \<and> fs_frame f g"
  using assms
proof (induction "b - i" arbitrary: i f)
  case 0
  then show ?case by auto
next
  case (Suc d)
  then have i: "i < b" "[i..<b] = i # [Suc i..<b]" by (simp_all add: upt_conv_Cons)
  have ok: "fs_ok f" "s + i < sect_limit" using Suc.prems i(1) by (simp_all add: mounted_def)
  obtain g where g: "RD_SECT ROOT_DEV (of_nat (s + i)) f = Inr g" "fs_ok g" "fs_buf g = fs_sect f (s + i)" "fs_sect g = fs_sect f" "fs_frame f g"
    using root.rd_ok [OF ok] by auto
  have m: "mounted g" by (rule mounted_frame [OF Suc.prems(1) g(2, 5)])
  have slots: "dir_slot g s = dir_slot f s" using g(4) by (simp add: dir_slot_def fun_eq_iff)
  let ?find = "\<lambda>lo hi. find (\<lambda>k. slot_name (dir_slot f s k) = field) [lo..<hi]"
  have sector: "search_sector (fmem g) field n (32 * i) [0..<32] =
    (case ?find (32 * i) (min (n + 1) (32 * (i + 1))) of
       Some k \<Rightarrow> Inl (slot_inode (dir_slot f s k)) | None \<Rightarrow> Inr (min (n + 1) (32 * (i + 1))))"
    using search_sector_find [of "fmem g" "\<lambda>k. slot_name (dir_slot f s k)" i "\<lambda>k. slot_inode (dir_slot f s k)" 0 n field]
      entry_slot [OF g(3)] Suc.prems(4) by simp
  have mid: "32 * i \<le> min (n + 1) (32 * (i + 1))" "min (n + 1) (32 * (i + 1)) \<le> min (n + 1) (32 * b)"
    using Suc.prems i(1) by auto
  have split: "?find (32 * i) (min (n + 1) (32 * b)) = (case ?find (32 * i) (min (n + 1) (32 * (i + 1))) of
      Some k \<Rightarrow> Some k | None \<Rightarrow> ?find (min (n + 1) (32 * (i + 1))) (min (n + 1) (32 * b)))"
    by (rule find_upt_split [OF mid])
  show ?case
  proof (cases "?find (32 * i) (min (n + 1) (32 * (i + 1)))")
    case (Some k)
    then show ?thesis using g m sector split unfolding i(2) by simp
  next
    case None
    show ?thesis
    proof (cases "32 * (i + 1) \<le> n")
      case True
      have "d = b - Suc i" "Suc i \<le> b" "32 * Suc i \<le> n" using Suc.hyps(2) i(1) True by simp_all
      from Suc.hyps(1) [OF this(1) m Suc.prems(2) this(2, 3)] obtain h where
        h: "search_blocks field n ROOT_DEV (of_nat s) (32 * Suc i) [Suc i..<b] g =
          Inr (case ?find (32 * Suc i) (min (n + 1) (32 * b)) of Some k \<Rightarrow> slot_inode (dir_slot f s k) | None \<Rightarrow> 0, h)"
        "mounted h" "fs_sect h = fs_sect g" "fs_frame g h"
        unfolding slots by auto
      then show ?thesis
        using g None True sector split fs_frame_trans [OF g(5) h(4)] unfolding i(2) by simp
    next
      case False
      then have "min (n + 1) (32 * (i + 1)) = n + 1" "min (n + 1) (32 * b) = n + 1" using i(1) by auto
      then show ?thesis using g m None sector split unfolding i(2) by simp
    qed
  qed
qed

lemma strip_loop_take:
  "length t < MAX_FILENAME_LEN \<Longrightarrow> strip_loop s t =
   (let name = take (MAX_FILENAME_LEN - length t) s in if 0x2F \<in> set name then None else Some (t @ name))"
proof (induction s arbitrary: t)
  case (Cons c s)
  then show ?case
    by (cases "length t = 11") (auto simp: Let_def take_Cons' Suc_diff_le)
qed simp

text \<open>
  \<^verbatim>\<open>strip_path\<close> takes one leading slash away and keeps the first twelve characters; a path with a
  slash among them is refused.
\<close>

definition base_name :: "u8 list \<Rightarrow> u8 list" where
  "base_name path = take MAX_FILENAME_LEN (if path \<noteq> [] \<and> hd path = 0x2F then tl path else path)"

lemma strip_path_base: "strip_path path = (if 0x2F \<in> set (base_name path) then None else Some (base_name path))"
  by (cases path) (simp_all add: strip_path_def strip_loop_take base_name_def Let_def)

text \<open>The root directory: its inode is in the cache, on the root device, and its sectors can be
  addressed.\<close>

definition root_dir :: "fs \<Rightarrow> inode" where
  "root_dir f = inode_table f (root_inode f)"

definition root_ok :: "fs \<Rightarrow> bool" where
  "root_ok f \<longleftrightarrow> i_dev (root_dir f) = ROOT_DEV \<and> i_size (root_dir f) < 2 ^ 31 \<and>
     unat (i_start_sect (root_dir f)) + unat (i_size (root_dir f)) div SECTOR_SIZE + 2 \<le> sect_limit"

lemma search_file_lookup:
  assumes "mounted f" "root_ok f" "0x2F \<notin> set (base_name path)" "base_name path \<noteq> []"
  shows "\<exists>g. search_file path f = Inr (lookup_name f (unat (i_start_sect (root_dir f))) (name_field (base_name path))
      (unat (i_size (root_dir f)) div DIR_ENTRY_SIZE + 1), g) \<and> mounted g \<and> fs_sect g = fs_sect f \<and> fs_frame f g"
proof -
  let ?d = "root_dir f" and ?s = "unat (i_start_sect (root_dir f))" and ?z = "unat (i_size (root_dir f))"
  let ?n = "?z div DIR_ENTRY_SIZE" and ?b = "(?z + SECTOR_SIZE + 1) div SECTOR_SIZE"
  have small: "?z < 2 ^ 31" using assms(2) by (simp add: root_ok_def word_less_nat_alt)
  then have b: "unat ((i_size ?d + SECTOR_SIZE + 1) div SECTOR_SIZE) = ?b" "unat (i_size ?d div DIR_ENTRY_SIZE) = ?n"
    by (simp_all add: unat_div unat_word_ariths)
  have "?s + ?z div SECTOR_SIZE + 2 \<le> sect_limit" using assms(2) by (simp add: root_ok_def)
  then have lim: "?s + ?b \<le> sect_limit" by linarith
  have cover: "min (?n + 1) (32 * ?b) = ?n + 1" by linarith
  have dev: "i_dev ?d = ROOT_DEV" using assms(2) by (simp add: root_ok_def)
  have call: "search_file path f = search_blocks (name_field (base_name path)) ?n ROOT_DEV (of_nat ?s) 0 [0..<?b] f"
    using assms(3, 4) dev b by (simp add: search_file_def strip_path_base root_dir_def Let_def)
  show ?thesis
    using search_blocks_find [OF assms(1) lim, of 0 ?n "name_field (base_name path)"]
    unfolding call by (simp add: cover lookup_name_def)
qed

text \<open>
  C22. A search of the root directory. A path whose first twelve characters after a leading slash
  hold another slash names no file; the empty name is the root directory itself; any other name
  is looked up among the entries of the directory, the one behind the last included: the search
  reads sector by sector and yields the inode number of the first entry whose twelve name bytes
  agree, and zero when there is none. It changes no table and no sector.
\<close>

theorem search_file_correct:
  assumes "mounted f" "root_ok f"
  shows "\<exists>g. search_file path f =
      Inr (if 0x2F \<in> set (base_name path) then 0
           else if base_name path = [] then word_of_int (i_num (root_dir f))
           else lookup_name f (unat (i_start_sect (root_dir f))) (name_field (base_name path)) (unat (i_size (root_dir f)) div DIR_ENTRY_SIZE + 1), g) \<and>
    mounted g \<and> fs_sect g = fs_sect f \<and> fs_frame f g"
proof (cases "0x2F \<in> set (base_name path) \<or> base_name path = []")
  case True
  with assms(1) show ?thesis
    by (auto simp: search_file_def strip_path_base root_dir_def Let_def intro!: exI [of _ f])
next
  case False
  then show ?thesis using search_file_lookup [OF assms] by simp
qed

section \<open>Witnesses\<close>

text \<open>A device with a file system of two files, the root directory and \<open>ab\<close>, both in the cache. The
  inodes begin in sector 5, the data in sector 261.\<close>

definition zero_inode :: inode where
  "zero_inode = \<lparr>i_mode = 0, i_size = 0, i_start_sect = 0, i_nr_sects = 0, i_dev = 0, i_cnt = 0, i_num = 0\<rparr>"

definition zero_fd :: file_desc where
  "zero_fd = \<lparr>fd_mode = 0, fd_pos = 0, fd_cnt = 0, fd_inode = None\<rparr>"

definition demo_sb :: super_block where
  "demo_sb = \<lparr>magic = 0x111, nr_inodes = 4096, sb_nr_sects = 8000, nr_imap_sects = 1, nr_smap_sects = 2, n_1st_sect = 261,
     nr_inode_sects = 256, sb_root_inode = 1, inode_size = 32, inode_isize_off = 4, inode_start_off = 8, dir_ent_size = 16,
     dir_ent_inode_off = 0, dir_ent_fname_off = 4, sb_dev = ROOT_DEV\<rparr>"

definition demo_sectors :: "nat \<Rightarrow> u8 list" where
  "demo_sectors k =
     (if k = 64 + 2 then 0x07 # replicate 511 0
      else if k = 64 + 3 then replicate 512 0xFF
      else if k = 64 + 4 then 0x01 # replicate 511 0
      else if k = 64 + 261 then le32 1 @ name_field [0x2E] @ le32 2 @ name_field [0x61, 0x62] @ replicate 480 0
      else replicate 512 0)"

definition demo_root :: inode where
  "demo_root = \<lparr>i_mode = I_DIRECTORY, i_size = 32, i_start_sect = 261, i_nr_sects = 2048, i_dev = ROOT_DEV, i_cnt = 1, i_num = 1\<rparr>"

definition demo_file :: inode where
  "demo_file = \<lparr>i_mode = I_REGULAR, i_size = 5, i_start_sect = 2309, i_nr_sects = 2048, i_dev = ROOT_DEV, i_cnt = 1, i_num = 2\<rparr>"

definition demo_fs :: "memory \<Rightarrow> fs" where
  "demo_fs h = \<lparr>f_desc_table = (\<lambda>_. zero_fd), inode_table = (\<lambda>_. zero_inode)(0 := demo_root, 1 := demo_file),
     super_blocks = (\<lambda>i. if i = 0 then demo_sb else demo_sb\<lparr>sb_dev := NO_DEV\<rparr>), root_inode = 0, fs_msg = reset_msg, pcaller = 6,
     drv = (demo_hd h)\<lparr>disk := demo_ata\<lparr>sectors := demo_sectors\<rparr>\<rparr>, tt = demo_terminals [] h\<rparr>"

lemma demo_mounted: "mounted (demo_fs h)"
  by (simp add: mounted_def fs_ok_def fs_base_def disk_ok_def sb0_def demo_fs_def demo_sb_def demo_hd_def demo_ata_def
      demo_sectors_def name_field_def flat_kstate_def
      ldt_seg_linear_def zero_proc_def zero_descriptor_def desc_base_def)

lemma demo_table: "inode_table (demo_fs h) p = (if p = 0 then demo_root else if p = 1 then demo_file else zero_inode)"
  by (simp add: demo_fs_def)

lemma demo_cache_ok: "cache_ok (demo_fs h)"
  by (simp add: cache_ok_def demo_table demo_root_def demo_file_def zero_inode_def)

lemma demo_root_dir: "root_dir (demo_fs h) = demo_root"
  by (simp add: root_dir_def demo_fs_def)

lemma demo_free: "\<exists>p<NR_INODE. i_cnt (inode_table (demo_fs h) p) = 0"
  by (rule exI [of _ 2]) (simp add: demo_table zero_inode_def)

theorem get_inode_correct_witness:
  "\<exists>p g. get_inode ROOT_DEV 3 (demo_fs (\<lambda>_. 7)) = Inr (Some p, g) \<and> p < NR_INODE \<and> find_inode ROOT_DEV 3 g = Some p"
  using get_inode_correct [OF demo_mounted demo_cache_ok _ _ disjI2 [OF demo_free], of 3 "\<lambda>_. 7"] by fastforce

theorem inode_roundtrip_witness:
  "\<exists>g q h. bindE (sync_inode 1 (demo_fs (\<lambda>_. 7))) (put_inode 1) = Inr g \<and> get_inode ROOT_DEV 2 g = Inr (Some q, h) \<and>
    inode_table h q = demo_file"
  using inode_roundtrip [OF demo_mounted demo_cache_ok, of 1 "\<lambda>_. 7" 2]
  by (auto simp: demo_table demo_file_def)

theorem search_file_correct_witness:
  "\<exists>g. search_file [0x2F, 0x61, 0x62] (demo_fs (\<lambda>_. 7)) = Inr (2, g)"
proof -
  have ok: "root_ok (demo_fs (\<lambda>_. 7))" by (simp add: root_ok_def demo_root_dir demo_root_def)
  have name: "base_name [0x2F, 0x61, 0x62] = [0x61, 0x62]" by (simp add: base_name_def)
  have slots: "dir_slot (demo_fs (\<lambda>_. 7)) 261 0 = le32 1 @ name_field [0x2E]" "dir_slot (demo_fs (\<lambda>_. 7)) 261 1 = le32 2 @ name_field [0x61, 0x62]"
    by (simp_all add: dir_slot_def fs_sect_def fs_base_def demo_fs_def demo_hd_def demo_sectors_def name_field_def)
  have "lookup_name (demo_fs (\<lambda>_. 7)) 261 (name_field [0x61, 0x62]) 3 = 2"
    using slots by (simp add: lookup_name_def upt_rec slot_name_def slot_inode_def name_field_def word_at_le32)
  with search_file_correct [OF demo_mounted ok, of "[0x2F, 0x61, 0x62]"] show ?thesis
    by (auto simp: name demo_root_dir) (simp add: demo_root_def)
qed

end
