(* ===== verification/Fs_Alloc.thy ===== *)
theory Fs_Alloc
  imports Fs
begin

text \<open>
  The bit maps of the file system, \<^verbatim>\<open>alloc_imap_bit\<close> and \<^verbatim>\<open>alloc_smap_bit\<close> of \<^verbatim>\<open>fs/open.c\<close>: the
  allocation of a bit of the inode map and of a run of bits of the sector map. Bits are numbered
  through the sectors of a map, from the low bit of each byte.
\<close>

section \<open>Operations\<close>

text \<open>The bytes of \<^verbatim>\<open>fsbuf\<close> that a sector is read to, set as a whole.\<close>

definition put_buf :: "u8 list \<Rightarrow> fs \<Rightarrow> fs" where
  "put_buf bs f = set_fmem (store_bytes (fmem f) fsbuf bs) f"

text \<open>The loop that looks for the first zero bit of a byte.\<close>

function zero_bit :: "u8 \<Rightarrow> nat \<Rightarrow> nat" where
  "zero_bit b k = (if bit b k then zero_bit b (k + 1) else k)"
  by pat_completeness auto
termination
  by (relation "measure (\<lambda>(b, k). 8 - k)") (auto dest!: bit_imp_le_length)

declare zero_bit.simps [simp del]

definition alloc_imap_bit :: "int \<Rightarrow> fs \<Rightarrow> (u32 \<times> fs) result" where
  "alloc_imap_bit dev f =
     bindE (get_super_block dev f) (\<lambda>sb.
       if nr_imap_sects sb = 0 then Inl (Panic 180)
       else bindE (RD_SECT dev 2 f) (\<lambda>f.
         case first_index (\<lambda>j. fs_buf f ! j \<noteq> 0xFF) SECTOR_SIZE of
           None \<Rightarrow> Inr (0, f)
         | Some j \<Rightarrow>
             let k = zero_bit (fs_buf f ! j) 0; inode_nr = of_nat (j * 8 + k);
                 f = put_buf ((fs_buf f)[j := set_bit k (fs_buf f ! j)]) f
             in bindE (WR_SECT dev 2 f) (\<lambda>f. Inr (inode_nr, f))))"

text \<open>The loops of \<^verbatim>\<open>alloc_smap_bit\<close>, from the inside out: over the bits of a byte, over the bytes of a
  sector, over the sectors of the map.\<close>

fun mark_bits :: "nat \<Rightarrow> u8 \<Rightarrow> nat list \<Rightarrow> nat \<Rightarrow> (u8 \<times> nat) result" where
  "mark_bits ln b [] left = Inr (b, left)"
| "mark_bits ln b (k # rest) left =
     check ln (\<not> bit b k)
     (let b = set_bit k b; left = left - 1
      in if left = 0 then Inr (b, left) else mark_bits ln b rest left)"

fun smap_bytes :: "u32 \<Rightarrow> nat \<Rightarrow> nat list \<Rightarrow> u32 \<Rightarrow> nat \<Rightarrow> u8 list \<Rightarrow> (u32 \<times> nat \<times> u8 list) result" where
  "smap_bytes n_1st i [] free_sect_nr left bs = Inr (free_sect_nr, left, bs)"
| "smap_bytes n_1st i (j # js) free_sect_nr left bs =
     (if left = 0 then Inr (free_sect_nr, left, bs)
      else if free_sect_nr = 0 \<and> bs ! j = 0xFF then smap_bytes n_1st i js free_sect_nr left bs
      else let k = (if free_sect_nr = 0 then zero_bit (bs ! j) 0 else 0);
               free_sect_nr = (if free_sect_nr = 0 then of_nat ((i * SECTOR_SIZE + j) * 8 + k) - 1 + n_1st else free_sect_nr)
           in bindE (mark_bits 211 (bs ! j) [k..<8] left) (\<lambda>(b, left).
                smap_bytes n_1st i js free_sect_nr left (bs[j := b])))"

fun smap_sects :: "int \<Rightarrow> u32 \<Rightarrow> u32 \<Rightarrow> nat list \<Rightarrow> u32 \<Rightarrow> nat \<Rightarrow> fs \<Rightarrow> (u32 \<times> nat \<times> fs) result" where
  "smap_sects dev n_1st smap_blk0_nr [] free_sect_nr left f = Inr (free_sect_nr, left, f)"
| "smap_sects dev n_1st smap_blk0_nr (i # is) free_sect_nr left f =
     bindE (RD_SECT dev (smap_blk0_nr + of_nat i) f) (\<lambda>f.
     bindE (smap_bytes n_1st i [0..<SECTOR_SIZE] free_sect_nr left (fs_buf f)) (\<lambda>(free_sect_nr, left, bs).
       let f = put_buf bs f
       in bindE (if free_sect_nr \<noteq> 0 then WR_SECT dev (smap_blk0_nr + of_nat i) f else Inr f) (\<lambda>f.
            if left = 0 then Inr (free_sect_nr, left, f)
            else smap_sects dev n_1st smap_blk0_nr is free_sect_nr left f)))"

definition alloc_smap_bit :: "int \<Rightarrow> nat \<Rightarrow> fs \<Rightarrow> (u32 \<times> fs) result" where
  "alloc_smap_bit dev nr_sects_to_alloc f =
     bindE (get_super_block dev f) (\<lambda>sb.
     bindE (smap_sects dev (n_1st_sect sb) (1 + 1 + nr_imap_sects sb) [0..<unat (nr_smap_sects sb)] 0 nr_sects_to_alloc f)
       (\<lambda>(free_sect_nr, left, f). check 225 (left = 0) (Inr (free_sect_nr, f))))"

section \<open>Bits of a map\<close>

lemma zero_bit_first:
  assumes "\<not> bit b n" "\<And>m. k \<le> m \<Longrightarrow> m < n \<Longrightarrow> bit b m" "k \<le> n"
  shows "zero_bit b k = n"
  using assms
proof (induction "n - k" arbitrary: k)
  case 0
  then show ?case by (subst zero_bit.simps) simp
next
  case (Suc d)
  then have "bit b k" "zero_bit b (k + 1) = n" by (auto intro!: Suc.hyps(1))
  then show ?case by (subst zero_bit.simps) simp
qed

lemma byte_full_iff: "(b :: u8) = 0xFF \<longleftrightarrow> (\<forall>m<8. bit b m)"
proof -
  have "(0xFF :: u8) = - 1" by simp
  then show ?thesis by (auto simp: bit_eq_iff)
qed

lemma bit_set: "k < 8 \<Longrightarrow> bit (set_bit k (b :: u8)) m \<longleftrightarrow> bit b m \<or> m = k"
  by (auto simp: bit_simps)

text \<open>Bit \<open>n\<close> of a list of bytes, and of the map that begins in sector \<open>s\<close>.\<close>

definition bits :: "u8 list \<Rightarrow> nat \<Rightarrow> bool" where
  "bits bs n = bit (bs ! (n div 8)) (n mod 8)"

definition map_bit :: "fs \<Rightarrow> nat \<Rightarrow> nat \<Rightarrow> bool" where
  "map_bit f s n = bits (fs_sect f (s + n div 4096)) (n mod 4096)"

lemma map_bit_first: "n < 4096 \<Longrightarrow> map_bit f s n = bits (fs_sect f s) n"
  by (simp add: map_bit_def)

lemma bits_byte: "k < 8 \<Longrightarrow> bits bs (8 * j + k) = bit (bs ! j) k"
  by (simp add: bits_def)

lemma bits_update:
  assumes "j < length bs" "n < 8 * length bs"
  shows "bits (bs[j := b]) n = (if n div 8 = j then bit b (n mod 8) else bits bs n)"
  using assms by (auto simp: bits_def nth_list_update)

lemma bits_set_bit:
  assumes "n < 8 * length bs" "m < 8 * length bs"
  shows "bits (bs[n div 8 := set_bit (n mod 8) (bs ! (n div 8))]) m = (bits bs m \<or> m = n)"
proof (cases "m div 8 = n div 8")
  case True
  then have "m mod 8 = n mod 8 \<longleftrightarrow> m = n" by (metis div_mult_mod_eq)
  with True assms show ?thesis by (simp add: bits_update bit_set less_mult_imp_div_less) (simp add: bits_def)
next
  case False
  then have "m \<noteq> n" by blast
  with False assms show ?thesis by (simp add: bits_update less_mult_imp_div_less)
qed

text \<open>The first byte that is not full and its first zero bit make the first zero bit of the list.\<close>

lemma first_zero_bit:
  assumes "first_index (\<lambda>n. \<not> bits bs n) (8 * l) = Some n"
  shows "first_index (\<lambda>j. bs ! j \<noteq> 0xFF) l = Some (n div 8)" "zero_bit (bs ! (n div 8)) 0 = n mod 8"
proof -
  from assms have n: "n < 8 * l" "\<not> bits bs n" "\<And>m. m < n \<Longrightarrow> bits bs m" by (auto simp: first_index_Some)
  have bit: "bit (bs ! j) k" if "8 * j + k < n" "k < 8" for j k
    using n(3) [OF that(1)] bits_byte [OF that(2)] by simp
  have zero: "\<not> bit (bs ! (n div 8)) (n mod 8)" using n(2) by (simp add: bits_def)
  have "bs ! j = 0xFF" if "j < n div 8" for j
    unfolding byte_full_iff using that by (intro allI impI bit) linarith+
  moreover have "bs ! (n div 8) \<noteq> 0xFF" using zero by (auto simp: byte_full_iff intro!: exI [of _ "n mod 8"])
  ultimately show "first_index (\<lambda>j. bs ! j \<noteq> 0xFF) l = Some (n div 8)"
    using n(1) by (auto simp: first_index_Some less_mult_imp_div_less mult.commute)
  show "zero_bit (bs ! (n div 8)) 0 = n mod 8"
  proof (rule zero_bit_first [OF zero])
    fix m
    assume "m < n mod 8"
    then show "bit (bs ! (n div 8)) m" by (intro bit) presburger+
  qed simp
qed

lemma no_zero_bit:
  assumes "first_index (\<lambda>n. \<not> bits bs n) (8 * l) = None"
  shows "first_index (\<lambda>j. bs ! j \<noteq> 0xFF) l = None"
proof -
  have "bit (bs ! j) k" if "j < l" "k < 8" for j k
    using assms that bits_byte [OF that(2), of bs j] by (auto simp: first_index_None)
  then show ?thesis by (simp add: first_index_None byte_full_iff)
qed

lemma put_buf_edits:
  assumes "fs_ok f" "length bs = SECTOR_SIZE"
  shows "fs_ok (put_buf bs f)" "fs_buf (put_buf bs f) = bs" "fs_sect (put_buf bs f) = fs_sect f" "fs_frame f (put_buf bs f)"
  using root_edit [OF assms(1), of 0 bs] assms(2) by (simp_all add: root.edits_def put_buf_def splice_def fs_buf_def)

lemma alloc_imap_bit_ok:
  assumes "mounted f"
  shows "\<exists>g. mounted g \<and> fs_frame f g \<and>
    (case first_index (\<lambda>n. \<not> bits (fs_sect f 2) n) 4096 of
       None \<Rightarrow> alloc_imap_bit ROOT_DEV f = Inr (0, g) \<and> fs_sect g = fs_sect f
     | Some n \<Rightarrow> alloc_imap_bit ROOT_DEV f = Inr (of_nat n, g) \<and>
         fs_sect g = (fs_sect f)(2 := (fs_sect f 2)[n div 8 := set_bit (n mod 8) (fs_sect f 2 ! (n div 8))]))"
proof -
  have ok: "fs_ok f" and sb: "get_super_block ROOT_DEV f = Inr (sb0 f)" and imap: "nr_imap_sects (sb0 f) \<noteq> 0"
    using assms by (simp_all add: mounted_def get_super_block_root)
  obtain g where g: "RD_SECT ROOT_DEV 2 f = Inr g" "fs_ok g" "fs_buf g = fs_sect f 2" "fs_sect g = fs_sect f" "fs_frame f g"
    using root.rd_ok [OF ok, of 2] by auto
  have len: "length (fs_sect f 2) = SECTOR_SIZE" using ok by (simp add: fs_ok_def disk_ok_def fs_sect_def)
  show ?thesis
  proof (cases "first_index (\<lambda>n. \<not> bits (fs_sect f 2) n) 4096")
    case None
    then show ?thesis
      using no_zero_bit [of "fs_sect f 2" 512] mounted_frame [OF assms g(2, 5)] sb imap g
      by (intro exI [of _ g]) (simp add: alloc_imap_bit_def)
  next
    case (Some n)
    note first = first_zero_bit [of "fs_sect f 2" 512 n]
    let ?bs = "(fs_sect f 2)[n div 8 := set_bit (n mod 8) (fs_sect f 2 ! (n div 8))]"
    note put = put_buf_edits [OF g(2), of ?bs]
    from put len have p: "fs_ok (put_buf ?bs g)" "fs_buf (put_buf ?bs g) = ?bs" "fs_sect (put_buf ?bs g) = fs_sect f" "fs_frame g (put_buf ?bs g)"
      using g(4) by simp_all
    obtain h where h: "WR_SECT ROOT_DEV 2 (put_buf ?bs g) = Inr h" "fs_ok h" "fs_sect h = (fs_sect f)(2 := ?bs)" "fs_frame (put_buf ?bs g) h"
      using root.wr_ok [OF p(1), of 2] p(2, 3) by auto
    have fr: "fs_frame f h" using fs_frame_trans [OF fs_frame_trans [OF g(5) p(4)] h(4)] .
    have "alloc_imap_bit ROOT_DEV f = Inr (of_nat n, h)"
      using sb imap g(1, 3) first Some h(1) by (simp add: alloc_imap_bit_def Let_def del: of_nat_add of_nat_mult)
    then show ?thesis
      using Some fr h(3) mounted_frame [OF assms h(2) fr] by (intro exI [of _ h]) simp
  qed
qed

text \<open>
  The allocation of an inode number takes the first zero bit of the inode map: it returns
  its number, that bit is set and no other bit of the map, no other sector, table or memory outside the
  buffer changes. When the map is full the result is zero, the number that names no inode, and
  the call does not panic.
\<close>

theorem alloc_imap_bit_correct:
  assumes "mounted f"
  shows "\<exists>nr g. alloc_imap_bit ROOT_DEV f = Inr (nr, g) \<and> mounted g \<and> fs_frame f g \<and>
    (case first_index (\<lambda>n. \<not> map_bit f 2 n) 4096 of
       None \<Rightarrow> nr = 0 \<and> fs_sect g = fs_sect f
     | Some n \<Rightarrow> nr = of_nat n \<and> (\<forall>m<4096. map_bit g 2 m = (map_bit f 2 m \<or> m = n)) \<and>
         (\<forall>s. s \<noteq> 2 \<longrightarrow> fs_sect g s = fs_sect f s))"
proof -
  have len: "length (fs_sect f 2) = 512" using assms by (simp add: mounted_def fs_ok_def disk_ok_def fs_sect_def)
  have map: "first_index (\<lambda>n. \<not> map_bit f 2 n) 4096 = first_index (\<lambda>n. \<not> bits (fs_sect f 2) n) 4096"
    unfolding first_index_def by (rule find_cong) (simp_all add: map_bit_def)
  obtain g where g: "mounted g" "fs_frame f g" "case first_index (\<lambda>n. \<not> bits (fs_sect f 2) n) 4096 of
       None \<Rightarrow> alloc_imap_bit ROOT_DEV f = Inr (0, g) \<and> fs_sect g = fs_sect f
     | Some n \<Rightarrow> alloc_imap_bit ROOT_DEV f = Inr (of_nat n, g) \<and>
         fs_sect g = (fs_sect f)(2 := (fs_sect f 2)[n div 8 := set_bit (n mod 8) (fs_sect f 2 ! (n div 8))])"
    using alloc_imap_bit_ok [OF assms] by blast
  show ?thesis
  proof (cases "first_index (\<lambda>n. \<not> bits (fs_sect f 2) n) 4096")
    case None
    with g show ?thesis by (simp add: map)
  next
    case (Some n)
    then have n: "n < 4096" by (simp add: first_index_Some)
    from Some g show ?thesis by (simp add: map) (simp add: map_bit_def bits_set_bit n len)
  qed
qed

section \<open>Runs of sectors\<close>

text \<open>
  The loops of \<^verbatim>\<open>alloc_smap_bit\<close> pass over the map once. When they stand at bit \<open>p\<close> and the run they
  allocate is \<open>[a, a + len)\<close>, what is left to mark is the part of the run from \<open>p\<close> on, and the result is known
  once \<open>p\<close> is past \<open>a\<close>.
\<close>

definition run_left :: "nat \<Rightarrow> nat \<Rightarrow> nat \<Rightarrow> nat" where
  "run_left a len p = a + len - max a p"

definition run_start :: "u32 \<Rightarrow> nat \<Rightarrow> nat \<Rightarrow> u32" where
  "run_start n_1st a p = (if p \<le> a then 0 else of_nat a - 1 + n_1st)"

text \<open>The bits from \<open>p\<close> on: used before the run, free in it.\<close>

definition run_bits :: "(nat \<Rightarrow> bool) \<Rightarrow> nat \<Rightarrow> nat \<Rightarrow> nat \<Rightarrow> nat \<Rightarrow> bool" where
  "run_bits B a len p q \<longleftrightarrow> (\<forall>n. p \<le> n \<and> n < q \<longrightarrow> (n < a \<longrightarrow> B n) \<and> (a \<le> n \<and> n < a + len \<longrightarrow> \<not> B n))"

lemma mark_bits_run:
  assumes "k \<le> 8" "0 < left" "\<And>m. k \<le> m \<Longrightarrow> m < 8 \<Longrightarrow> m < k + left \<Longrightarrow> \<not> bit b m"
  shows "\<exists>b'. mark_bits ln b [k..<8] left = Inr (b', left - (8 - k)) \<and> (\<forall>m<8. bit b' m = (bit b m \<or> k \<le> m \<and> m < k + left))"
  using assms
proof (induction "8 - k" arbitrary: k b left)
  case 0
  then show ?case by auto
next
  case (Suc d)
  then have k: "k < 8" "[k..<8] = k # [Suc k..<8]" by (simp_all add: upt_conv_Cons)
  have free: "\<not> bit b k" using Suc.prems k(1) by simp
  show ?case
  proof (cases "left = 1")
    case True
    then have "mark_bits ln b [k..<8] left = Inr (set_bit k b, left - (8 - k))" using free k(1) unfolding k(2) by (simp add: Let_def)
    then show ?thesis using True k(1) by (auto simp: bit_set)
  next
    case False
    have "d = 8 - Suc k" "Suc k \<le> 8" "0 < left - 1" using Suc.hyps(2) k(1) Suc.prems(2) False by simp_all
    moreover have "\<not> bit (set_bit k b) m" if "Suc k \<le> m" "m < 8" "m < Suc k + (left - 1)" for m
      using that Suc.prems k(1) by (simp add: bit_set)
    ultimately obtain b' where b': "mark_bits ln (set_bit k b) [Suc k..<8] (left - 1) = Inr (b', left - 1 - (8 - Suc k))"
      "\<forall>m<8. bit b' m = (bit (set_bit k b) m \<or> Suc k \<le> m \<and> m < Suc k + (left - 1))"
      using Suc.hyps(1) [of "Suc k" "left - 1" "set_bit k b"] by blast
    have "mark_bits ln b [k..<8] left = Inr (b', left - (8 - k))"
      using b'(1) free False Suc.prems(2) k(1) unfolding k(2) by (simp add: Let_def)
    moreover have "\<forall>m<8. bit b' m = (bit b m \<or> k \<le> m \<and> m < k + left)"
      using b'(2) k(1) Suc.prems(2) by (auto simp: bit_set)
    ultimately show ?thesis by blast
  qed
qed

lemma smap_byte_run:
  assumes "p = 8 * (i * SECTOR_SIZE + j)" "p < a + len" "0 < len" "(of_nat a - 1 + n_1st :: u32) \<noteq> 0"
    and B: "\<And>m. m < 8 \<Longrightarrow> (p + m < a \<longrightarrow> bit (bs ! j) m) \<and> (a \<le> p + m \<and> p + m < a + len \<longrightarrow> \<not> bit (bs ! j) m)"
  shows "\<exists>b. smap_bytes n_1st i (j # js) (run_start n_1st a p) (run_left a len p) bs =
      smap_bytes n_1st i js (run_start n_1st a (p + 8)) (run_left a len (p + 8)) (bs[j := b]) \<and>
      (\<forall>m<8. bit b m = (bit (bs ! j) m \<or> a \<le> p + m \<and> p + m < a + len))"
proof -
  have left: "run_left a len p \<noteq> 0" using assms(2, 3) by (simp add: run_left_def)
  consider (skip) "p + 8 \<le> a" | (start) "p \<le> a" "a < p + 8" | (inside) "a < p" by linarith
  then show ?thesis
  proof cases
    case skip
    then have full: "bs ! j = 0xFF" using B by (simp add: byte_full_iff)
    then have "bs[j := 0xFF] = bs" using list_update_id [of bs j] by simp
    with skip left full show ?thesis
      by (intro exI [of _ "0xFF"]) (auto simp: run_start_def run_left_def)
  next
    case start
    define k where "k = a - p"
    have k: "k < 8" "a = p + k" using start by (simp_all add: k_def)
    have zero: "zero_bit (bs ! j) 0 = k" using B k assms(3) by (intro zero_bit_first) auto
    have full: "bs ! j \<noteq> 0xFF" using B [OF k(1)] k assms(3) by (auto simp: byte_full_iff)
    obtain b where b: "mark_bits 211 (bs ! j) [k..<8] len = Inr (b, len - (8 - k))" "\<forall>m<8. bit b m = (bit (bs ! j) m \<or> k \<le> m \<and> m < k + len)"
      using mark_bits_run [of k len "bs ! j" 211] B k assms(3) by auto
    have nr: "of_nat ((i * SECTOR_SIZE + j) * 8 + k) = (of_nat a :: u32)" by (simp only: k(2) assms(1) mult.commute)
    show ?thesis
      using start left zero full b k nr assms(3)
      by (intro exI [of _ b]) (simp add: run_start_def run_left_def Let_def add.commute [of len] del: of_nat_add of_nat_mult)
  next
    case inside
    obtain b where b: "mark_bits 211 (bs ! j) [0..<8] (a + len - p) = Inr (b, a + len - p - 8)"
      "\<forall>m<8. bit b m = (bit (bs ! j) m \<or> m < a + len - p)"
      using mark_bits_run [of 0 "a + len - p" "bs ! j" 211] B inside assms(2) by auto
    show ?thesis
      using inside left b assms(2, 4) by (intro exI [of _ b]) (auto simp: run_start_def run_left_def Let_def)
  qed
qed

lemma smap_bytes_run:
  assumes "0 < len" "(of_nat a - 1 + n_1st :: u32) \<noteq> 0" "length bs = SECTOR_SIZE" "j \<le> SECTOR_SIZE"
    "run_bits (\<lambda>n. bits bs (n - 4096 * i)) a len (4096 * i + 8 * j) (4096 * (i + 1))"
  shows "\<exists>bs'. smap_bytes n_1st i [j..<SECTOR_SIZE] (run_start n_1st a (4096 * i + 8 * j)) (run_left a len (4096 * i + 8 * j)) bs =
      Inr (run_start n_1st a (4096 * (i + 1)), run_left a len (4096 * (i + 1)), bs') \<and> length bs' = SECTOR_SIZE \<and>
      (\<forall>n<4096. bits bs' n = (bits bs n \<or> 8 * j \<le> n \<and> a \<le> 4096 * i + n \<and> 4096 * i + n < a + len))"
  using assms(3 - 5)
proof (induction "SECTOR_SIZE - j" arbitrary: j bs)
  case 0
  then show ?case by (intro exI [of _ bs]) (auto simp: add.commute)
next
  case (Suc d)
  let ?p = "4096 * i + 8 * j"
  have j: "j < SECTOR_SIZE" "[j..<SECTOR_SIZE] = j # [Suc j..<SECTOR_SIZE]" using Suc.hyps(2) by (simp_all add: upt_conv_Cons)
  show ?case
  proof (cases "a + len \<le> ?p")
    case True
    with assms(1) have stop: "run_left a len ?p = 0" "run_left a len (4096 * (i + 1)) = 0" "run_start n_1st a ?p = run_start n_1st a (4096 * (i + 1))"
      using j(1) by (auto simp: run_left_def run_start_def)
    with True show ?thesis unfolding j(2) using Suc.prems(1) stop by (intro exI [of _ bs]) auto
  next
    case False
    have B: "(?p + m < a \<longrightarrow> bit (bs ! j) m) \<and> (a \<le> ?p + m \<and> ?p + m < a + len \<longrightarrow> \<not> bit (bs ! j) m)" if "m < 8" for m
      using Suc.prems(3) that j(1) bits_byte [OF that, of bs j] unfolding run_bits_def by (auto dest: spec [of _ "?p + m"])
    have p: "?p = 8 * (i * SECTOR_SIZE + j)" "?p < a + len" using False by simp_all
    obtain b where b: "smap_bytes n_1st i (j # [Suc j..<SECTOR_SIZE]) (run_start n_1st a ?p) (run_left a len ?p) bs =
        smap_bytes n_1st i [Suc j..<SECTOR_SIZE] (run_start n_1st a (?p + 8)) (run_left a len (?p + 8)) (bs[j := b])"
      "\<forall>m<8. bit b m = (bit (bs ! j) m \<or> a \<le> ?p + m \<and> ?p + m < a + len)"
      using smap_byte_run [where js = "[Suc j..<SECTOR_SIZE]", OF p assms(1, 2) B] by blast
    have upd: "bits (bs[j := b]) n = (bits bs n \<or> n div 8 = j \<and> a \<le> 4096 * i + n \<and> 4096 * i + n < a + len)" if "n < 4096" for n
    proof -
      have "n div 8 = j \<Longrightarrow> ?p + n mod 8 = 4096 * i + n" by auto
      with b(2) that j(1) Suc.prems(1) show ?thesis by (auto simp: bits_update) (auto simp: bits_def)
    qed
    have "run_bits (\<lambda>n. bits (bs[j := b]) (n - 4096 * i)) a len (4096 * i + 8 * Suc j) (4096 * (i + 1))"
      unfolding run_bits_def
    proof (intro allI impI)
      fix n
      assume n: "4096 * i + 8 * Suc j \<le> n \<and> n < 4096 * (i + 1)"
      then have "n - 4096 * i < 4096" "(n - 4096 * i) div 8 \<noteq> j" by auto
      with upd n Suc.prems(3) show "(n < a \<longrightarrow> bits (bs[j := b]) (n - 4096 * i)) \<and> (a \<le> n \<and> n < a + len \<longrightarrow> \<not> bits (bs[j := b]) (n - 4096 * i))"
        unfolding run_bits_def by auto
    qed
    moreover have "d = SECTOR_SIZE - Suc j" "length (bs[j := b]) = SECTOR_SIZE" "Suc j \<le> SECTOR_SIZE"
      using Suc.hyps(2) Suc.prems(1) j(1) by simp_all
    ultimately obtain bs' where bs': "smap_bytes n_1st i [Suc j..<SECTOR_SIZE] (run_start n_1st a (4096 * i + 8 * Suc j))
        (run_left a len (4096 * i + 8 * Suc j)) (bs[j := b]) = Inr (run_start n_1st a (4096 * (i + 1)), run_left a len (4096 * (i + 1)), bs')"
      "length bs' = SECTOR_SIZE"
      "\<forall>n<4096. bits bs' n = (bits (bs[j := b]) n \<or> 8 * Suc j \<le> n \<and> a \<le> 4096 * i + n \<and> 4096 * i + n < a + len)"
      using Suc.hyps(1) [of "Suc j" "bs[j := b]"] by blast
    have "8 * j \<le> n \<longleftrightarrow> n div 8 = j \<or> 8 * Suc j \<le> n" for n by auto
    with bs' b(1) upd show ?thesis unfolding j(2) by (intro exI [of _ bs']) (auto simp: algebra_simps)
  qed
qed

lemma run_bits_cong:
  assumes "run_bits B a len p q" "p \<le> p'" "q' \<le> q" "\<And>n. p' \<le> n \<Longrightarrow> n < q' \<Longrightarrow> C n = B n"
  shows "run_bits C a len p' q'"
  using assms unfolding run_bits_def by auto

text \<open>The loop over the sectors of the map, from sector \<open>i\<close> of \<open>l\<close> on.\<close>

lemma smap_sects_run:
  assumes "mounted f" "0 < len" "(of_nat a - 1 + n_1st :: u32) \<noteq> 0" "s + l \<le> sect_limit" "i \<le> l" "4096 * i < a + len" "a + len \<le> 4096 * l"
    "run_bits (map_bit f s) a len (4096 * i) (4096 * l)"
  shows "\<exists>g. smap_sects ROOT_DEV n_1st (of_nat s) [i..<l] (run_start n_1st a (4096 * i)) (run_left a len (4096 * i)) f =
      Inr (of_nat a - 1 + n_1st, 0, g) \<and> mounted g \<and> fs_frame f g \<and>
      (\<forall>k. k < s + i \<or> s + l \<le> k \<longrightarrow> fs_sect g k = fs_sect f k) \<and>
      (\<forall>n<4096 * l. map_bit g s n = (map_bit f s n \<or> 4096 * i \<le> n \<and> a \<le> n \<and> n < a + len))"
  using assms(1, 5 -)
proof (induction "l - i" arbitrary: i f)
  case 0
  then show ?case by simp
next
  case (Suc d)
  have i: "i < l" using Suc.hyps(2) by simp
  then have i: "i < l" "[i..<l] = i # [Suc i..<l]" by (simp_all add: upt_conv_Cons)
  have ok: "fs_ok f" "s + i < sect_limit" using Suc.prems(1) i(1) assms(4) by (simp_all add: mounted_def)
  obtain g where g: "RD_SECT ROOT_DEV (of_nat (s + i)) f = Inr g" "fs_ok g" "fs_buf g = fs_sect f (s + i)" "fs_sect g = fs_sect f" "fs_frame f g"
    using root.rd_ok [OF ok] by auto
  have len: "length (fs_buf g) = SECTOR_SIZE" by (simp add: fs_buf_def)
  have here: "bits (fs_buf g) (n - 4096 * i) = map_bit f s n" if "4096 * i \<le> n" "n < 4096 * (i + 1)" for n
  proof -
    have "n div 4096 = i" "n mod 4096 = n - 4096 * i" using that by (auto simp: div_nat_eqI minus_mult_div_eq_mod [symmetric])
    then show ?thesis by (simp add: map_bit_def g(3))
  qed
  have "run_bits (\<lambda>n. bits (fs_buf g) (n - 4096 * i)) a len (4096 * i + 8 * 0) (4096 * (i + 1))"
    using i(1) by (intro run_bits_cong [OF Suc.prems(5)] here) auto
  from smap_bytes_run [OF assms(2, 3) len _ this] obtain bs where bs:
    "smap_bytes n_1st i [0..<SECTOR_SIZE] (run_start n_1st a (4096 * i)) (run_left a len (4096 * i)) (fs_buf g) =
      Inr (run_start n_1st a (4096 * (i + 1)), run_left a len (4096 * (i + 1)), bs)" "length bs = SECTOR_SIZE"
    "\<forall>n<4096. bits bs n = (bits (fs_buf g) n \<or> a \<le> 4096 * i + n \<and> 4096 * i + n < a + len)"
    by auto
  note put = put_buf_edits [OF g(2) bs(2)]
  let ?free = "run_start n_1st a (4096 * (i + 1))"
  obtain h where h: "(if ?free \<noteq> 0 then WR_SECT ROOT_DEV (of_nat (s + i)) (put_buf bs g) else Inr (put_buf bs g)) = Inr h"
    "fs_ok h" "fs_frame (put_buf bs g) h" "\<forall>k. k \<noteq> s + i \<longrightarrow> fs_sect h k = fs_sect f k"
    "\<forall>n<4096. bits (fs_sect h (s + i)) n = bits bs n"
  proof (cases "?free = 0")
    case True
    then have "4096 * (i + 1) \<le> a" using assms(3) by (simp add: run_start_def split: if_splits)
    with True put bs(3) g(3, 4) show thesis by (intro that [of "put_buf bs g"]) auto
  next
    case False
    with put root.wr_ok [OF put(1) ok(2)] g(4) show thesis by (auto intro!: that)
  qed
  have fr: "fs_frame f h" using fs_frame_trans [OF fs_frame_trans [OF g(5) put(4)] h(3)] .
  note m = mounted_frame [OF Suc.prems(1) h(2) fr]
  have upd: "map_bit h s n = (map_bit f s n \<or> n div 4096 = i \<and> a \<le> n \<and> n < a + len)" for n
  proof (cases "n div 4096 = i")
    case True
    moreover have "4096 * i + n mod 4096 = n" using True by auto
    ultimately show ?thesis using h(5) bs(3) g(3) by (simp add: map_bit_def)
  next
    case False
    then show ?thesis using h(4) by (simp add: map_bit_def)
  qed
  have step: "smap_sects ROOT_DEV n_1st (of_nat s) [i..<l] (run_start n_1st a (4096 * i)) (run_left a len (4096 * i)) f =
      (if run_left a len (4096 * (i + 1)) = 0 then Inr (?free, run_left a len (4096 * (i + 1)), h)
       else smap_sects ROOT_DEV n_1st (of_nat s) [Suc i..<l] ?free (run_left a len (4096 * (i + 1))) h)"
    using g(1) bs(1) h(1) unfolding i(2) by (auto simp: Let_def)
  show ?case
  proof (cases "4096 * (i + 1) < a + len")
    case False
    then have "run_left a len (4096 * (i + 1)) = 0" "?free = of_nat a - 1 + n_1st"
      using assms(2) by (auto simp: run_left_def run_start_def)
    moreover have "n div 4096 = i \<longleftrightarrow> 4096 * i \<le> n" if "n < a + len" for n using that False by auto
    ultimately show ?thesis using step m fr h(4) upd i(1) by (intro exI [of _ h]) auto
  next
    case True
    have "d = l - Suc i" "Suc i \<le> l" "4096 * Suc i < a + len" using Suc.hyps(2) i(1) True by simp_all
    moreover have "run_bits (map_bit h s) a len (4096 * Suc i) (4096 * l)"
      by (rule run_bits_cong [OF Suc.prems(5)]) (auto simp: upd)
    ultimately obtain k where k: "smap_sects ROOT_DEV n_1st (of_nat s) [Suc i..<l] (run_start n_1st a (4096 * Suc i)) (run_left a len (4096 * Suc i)) h =
        Inr (of_nat a - 1 + n_1st, 0, k)" "mounted k" "fs_frame h k" "\<forall>x. x < s + Suc i \<or> s + l \<le> x \<longrightarrow> fs_sect k x = fs_sect h x"
      "\<forall>n<4096 * l. map_bit k s n = (map_bit h s n \<or> 4096 * Suc i \<le> n \<and> a \<le> n \<and> n < a + len)"
      using Suc.hyps(1) [OF _ m _ _ Suc.prems(4)] by blast
    have "run_left a len (4096 * (i + 1)) \<noteq> 0" using True assms(2) by (simp add: run_left_def)
    moreover have "n div 4096 = i \<or> 4096 * Suc i \<le> n \<longleftrightarrow> 4096 * i \<le> n" for n by auto
    ultimately show ?thesis
      using step k h(4) upd i(1) fs_frame_trans [OF fr k(3)] by (intro exI [of _ k]) auto
  qed
qed

lemma run_bitsI:
  assumes "first_index (\<lambda>n. \<not> B n) q = Some a" "\<And>n. a \<le> n \<Longrightarrow> n < a + len \<Longrightarrow> \<not> B n"
  shows "run_bits B a len 0 q"
  using assms by (auto simp: run_bits_def first_index_Some)

lemma alloc_smap_bit_ok:
  assumes "mounted f" "0 < len" "run_bits (map_bit f 3) a len 0 (4096 * unat (nr_smap_sects (sb0 f)))"
    "a + len \<le> 4096 * unat (nr_smap_sects (sb0 f))" "a + len \<le> 2 ^ 28"
  shows "\<exists>g. alloc_smap_bit ROOT_DEV len f = Inr (of_nat a - 1 + n_1st_sect (sb0 f), g) \<and> mounted g \<and> fs_frame f g \<and>
    (\<forall>n<4096 * unat (nr_smap_sects (sb0 f)). map_bit g 3 n = (map_bit f 3 n \<or> a \<le> n \<and> n < a + len)) \<and>
    (\<forall>s. s < 3 \<or> 3 + unat (nr_smap_sects (sb0 f)) \<le> s \<longrightarrow> fs_sect g s = fs_sect f s)"
proof -
  let ?l = "unat (nr_smap_sects (sb0 f))" and ?n1 = "n_1st_sect (sb0 f)"
  have sb: "get_super_block ROOT_DEV f = Inr (sb0 f)" and blk0: "1 + 1 + nr_imap_sects (sb0 f) = (3 :: u32)"
    using assms(1) by (simp_all add: mounted_def get_super_block_root)
  have lim: "3 + ?l \<le> sect_limit" and n1: "259 \<le> unat ?n1" "unat ?n1 < sect_limit" using assms(1) by (simp_all add: mounted_def)
  have "unat (of_nat a + ?n1 :: u32) = a + unat ?n1"
    using assms(5) n1 by (simp add: unat_word_ariths unat_of_nat_u32)
  then have "(of_nat a + ?n1 :: u32) \<noteq> 1" using n1(1) by auto
  then have nz: "(of_nat a - 1 + ?n1 :: u32) \<noteq> 0" by (simp add: algebra_simps)
  have "run_bits (map_bit f 3) a len (4096 * 0) (4096 * ?l)" using assms(3) by simp
  from smap_sects_run [OF assms(1, 2) nz lim _ _ assms(4) this] assms(2) show ?thesis
    using sb blk0 by (auto simp: alloc_smap_bit_def run_start_def run_left_def)
qed

text \<open>
  C23. The allocation of sectors for a file. Let \<open>a\<close> be the first zero bit of the sector map. If the
  \<open>len\<close> bits from \<open>a\<close> on are all zero, they are set, whether or not they cross sectors of the map,
  and the result is the sector that bit \<open>a\<close> stands for, bit 1 being the first data sector. No other
  bit of the map, no sector outside the map and no table changes.
\<close>

theorem alloc_smap_bit_correct:
  assumes "mounted f" "0 < len" "first_index (\<lambda>n. \<not> map_bit f 3 n) (4096 * unat (nr_smap_sects (sb0 f))) = Some a"
    "\<And>n. a \<le> n \<Longrightarrow> n < a + len \<Longrightarrow> \<not> map_bit f 3 n" "a + len \<le> 4096 * unat (nr_smap_sects (sb0 f))" "a + len \<le> 2 ^ 28"
  shows "\<exists>g. alloc_smap_bit ROOT_DEV len f = Inr (of_nat a - 1 + n_1st_sect (sb0 f), g) \<and> mounted g \<and> fs_frame f g \<and>
    (\<forall>n<4096 * unat (nr_smap_sects (sb0 f)). map_bit g 3 n = (map_bit f 3 n \<or> a \<le> n \<and> n < a + len)) \<and>
    (\<forall>s. s < 3 \<or> 3 + unat (nr_smap_sects (sb0 f)) \<le> s \<longrightarrow> fs_sect g s = fs_sect f s)"
  by (rule alloc_smap_bit_ok [OF assms(1, 2) run_bitsI [OF assms(3, 4)] assms(5, 6)])

section \<open>Witnesses\<close>

lemma demo_sect: "fs_sect (demo_fs h) n = demo_sectors (64 + n)"
  by (simp add: fs_sect_def fs_base_def demo_fs_def demo_hd_def)

lemma demo_imap: "n < 4096 \<Longrightarrow> map_bit (demo_fs h) 2 n \<longleftrightarrow> n < 3"
proof -
  assume n: "n < 4096"
  have "bit (7 :: u8) n \<longleftrightarrow> n < 3" if "n < 8"
    using that bit_mask_iff [where 'a = "8 word", of 3 n] by (auto simp: mask_eq_exp_minus_1)
  then have "bits (0x07 # replicate 511 0) n \<longleftrightarrow> n < 3"
    using n by (cases "n < 8") (simp_all add: bits_def nth_Cons')
  with n show ?thesis by (simp add: map_bit_first demo_sect demo_sectors_def)
qed

lemma demo_smap: "n < 8192 \<Longrightarrow> map_bit (demo_fs h) 3 n \<longleftrightarrow> n < 4097"
proof -
  assume n: "n < 8192"
  show ?thesis
  proof (cases "n < 4096")
    case True
    have "bit (0xFF :: u8) (n mod 8)" using byte_full_iff [of "0xFF"] by simp
    with True show ?thesis by (simp add: map_bit_first demo_sect demo_sectors_def bits_def)
  next
    case False
    then have d: "n div 4096 = 1" using n by (intro div_nat_eqI) auto
    have "n = 4096 + n mod 4096" using d div_mult_mod_eq [of n 4096] by simp
    then have "n < 4097 \<longleftrightarrow> n mod 4096 = 0" by linarith
    then show ?thesis
      by (simp add: map_bit_def d demo_sect demo_sectors_def bits_def nth_Cons') (auto simp: bit_1_iff)
  qed
qed

lemma demo_sb0: "sb0 (demo_fs h) = demo_sb"
  by (simp add: sb0_def demo_fs_def)

lemma demo_first_inode: "first_index (\<lambda>n. \<not> map_bit (demo_fs h) 2 n) 4096 = Some 3"
  using demo_imap by (auto simp: first_index_Some)

lemma demo_first_sector:
  "first_index (\<lambda>n. \<not> map_bit (demo_fs h) 3 n) (4096 * unat (nr_smap_sects (sb0 (demo_fs h)))) = Some 4097"
  using demo_smap by (auto simp: first_index_Some demo_sb0 demo_sb_def)

theorem alloc_imap_bit_correct_witness:
  "\<exists>g. alloc_imap_bit ROOT_DEV (demo_fs (\<lambda>_. 7)) = Inr (3, g) \<and> map_bit g 2 3"
  using alloc_imap_bit_correct [OF demo_mounted, of "\<lambda>_. 7"] demo_first_inode [of "\<lambda>_. 7"] by auto

theorem alloc_smap_bit_correct_witness:
  "\<exists>g. alloc_smap_bit ROOT_DEV 2048 (demo_fs (\<lambda>_. 7)) = Inr (4357, g) \<and> map_bit g 3 6144 \<and> \<not> map_bit g 3 6145"
proof -
  have free: "\<not> map_bit (demo_fs (\<lambda>_. 7)) 3 n" if "4097 \<le> n" "n < 4097 + 2048" for n using that demo_smap by simp
  from alloc_smap_bit_correct [where len = 2048, OF demo_mounted _ demo_first_sector this] show ?thesis
    using demo_smap [of 6145 "\<lambda>_. 7"] by (auto simp: demo_sb0) (auto simp: demo_sb_def)
qed

end
