(* ===== verification/Fs_Create.thy ===== *)
theory Fs_Create
  imports Fs_Alloc
begin

text \<open>
  Creating files, \<^verbatim>\<open>create_file\<close> of \<^verbatim>\<open>fs/open.c\<close> and what it calls: an inode number and sectors for the
  file, the new inode on disk, and the new entry of the root directory.
\<close>

section \<open>Operations\<close>

definition new_inode :: "int \<Rightarrow> int \<Rightarrow> u32 \<Rightarrow> fs \<Rightarrow> (nat \<times> fs) result" where
  "new_inode dev inode_nr start f =
     bindE (get_inode dev inode_nr f) (\<lambda>(r, f).
       case r of
         None \<Rightarrow> Inl (OutOfBounds 233)
       | Some p \<Rightarrow>
           let f = upd_inode p (\<lambda>_. \<lparr>i_mode = I_REGULAR, i_size = 0, i_start_sect = start, i_nr_sects = NR_DEFAULT_FILE_SECTS,
                 i_dev = dev, i_cnt = 1, i_num = inode_nr\<rparr>) f
           in bindE (sync_inode p f) (\<lambda>f. Inr (p, f)))"

text \<open>The search for a free entry of the directory: \<open>Inl (j, found)\<close> when the loop over a sector
  stopped at entry \<open>j\<close>, \<open>Inr m\<close> the count of entries seen otherwise.\<close>

fun free_slot :: "memory \<Rightarrow> nat \<Rightarrow> nat \<Rightarrow> nat list \<Rightarrow> (nat \<times> bool) + nat" where
  "free_slot h nr_dir_entries m [] = Inr m"
| "free_slot h nr_dir_entries m (j # js) =
     (if m + 1 > nr_dir_entries then Inl (j, False)
      else if entry_inode h j = 0 then Inl (j, True)
      else free_slot h nr_dir_entries (m + 1) js)"

text \<open>The loop over the sectors. It stops in the last sector at the latest, since that has an entry
  behind the end; leaving it without a stop would use a pointer behind the buffer.\<close>

fun free_slot_blocks :: "nat \<Rightarrow> int \<Rightarrow> u32 \<Rightarrow> nat \<Rightarrow> nat list \<Rightarrow> fs \<Rightarrow> (nat \<times> nat \<times> bool \<times> fs) result" where
  "free_slot_blocks nr_dir_entries dev dir_blk0_nr m [] f = Inl (OutOfBounds 276)"
| "free_slot_blocks nr_dir_entries dev dir_blk0_nr m (i # is) f =
     bindE (RD_SECT dev (dir_blk0_nr + of_nat i) f) (\<lambda>f.
       case free_slot (fmem f) nr_dir_entries m [0..<SECTOR_SIZE div DIR_ENTRY_SIZE] of
         Inl (j, found) \<Rightarrow> Inr (i, j, found, f)
       | Inr m \<Rightarrow> free_slot_blocks nr_dir_entries dev dir_blk0_nr m is f)"

definition new_dir_entry :: "nat \<Rightarrow> u32 \<Rightarrow> u8 list \<Rightarrow> fs \<Rightarrow> fs result" where
  "new_dir_entry dir inode_nr filename f =
     (let d = inode_table f dir; dir_blk0_nr = i_start_sect d;
          nr_dir_blks = unat ((i_size d + SECTOR_SIZE) div SECTOR_SIZE);
          nr_dir_entries = unat (i_size d div DIR_ENTRY_SIZE)
      in bindE (free_slot_blocks nr_dir_entries (i_dev d) dir_blk0_nr 0 [0..<nr_dir_blks] f) (\<lambda>(i, j, found, f).
           let f = (if found then f else upd_inode dir (\<lambda>d. d\<lparr>i_size := i_size d + DIR_ENTRY_SIZE\<rparr>) f);
               new_de = fsbuf + of_nat (DIR_ENTRY_SIZE * j);
               f = set_fmem (store_bytes (store32 (fmem f) new_de inode_nr) (new_de + 4) (filename @ [0])) f
           in bindE (WR_SECT (i_dev d) (dir_blk0_nr + of_nat i) f) (sync_inode dir)))"

definition create_file :: "u8 list \<Rightarrow> fs \<Rightarrow> (nat option \<times> fs) result" where
  "create_file path f =
     (case strip_path path of
        None \<Rightarrow> Inr (None, f)
      | Some filename \<Rightarrow>
          let dir = root_inode f; dev = i_dev (inode_table f dir)
          in bindE (alloc_imap_bit dev f) (\<lambda>(inode_nr, f).
             bindE (alloc_smap_bit dev NR_DEFAULT_FILE_SECTS f) (\<lambda>(free_sect_nr, f).
             bindE (new_inode dev (sint inode_nr) free_sect_nr f) (\<lambda>(newino, f).
             bindE (new_dir_entry dir (word_of_int (i_num (inode_table f newino))) filename f) (\<lambda>f.
               Inr (Some newino, f))))))"

section \<open>Where things are\<close>

text \<open>The sectors of inodes lie before the data.\<close>

lemma sb0_frame: "fs_frame f g \<Longrightarrow> sb0 g = sb0 f"
  using fs_frame_sel(3) [of f g] by (simp add: sb0_def)

section \<open>The new inode\<close>

definition file_inode :: "nat \<Rightarrow> u32 \<Rightarrow> inode" where
  "file_inode num start = \<lparr>i_mode = I_REGULAR, i_size = 0, i_start_sect = start, i_nr_sects = NR_DEFAULT_FILE_SECTS,
     i_dev = ROOT_DEV, i_cnt = 1, i_num = int num\<rparr>"

lemma new_inode_ok:
  assumes "mounted f" "1 \<le> num" "num \<le> 4096" "find_inode ROOT_DEV (int num) f = None"
    "first_index (\<lambda>p. i_cnt (inode_table f p) = 0) NR_INODE = Some q"
  shows "\<exists>g. new_inode ROOT_DEV (int num) start f = Inr (q, g) \<and> mounted g \<and> fs_frame (upd_inode q (\<lambda>_. file_inode num start) f) g \<and>
    (\<forall>s. s \<noteq> inode_sect f num \<longrightarrow> fs_sect g s = fs_sect f s) \<and>
    (\<forall>m\<ge>1. disk_inode g m = (if m = num then file_inode num start else disk_inode f m))"
proof -
  obtain g where g: "get_inode ROOT_DEV (int num) f = Inr (Some q, g)" "mounted g" "fs_sect g = fs_sect f"
    "fs_frame (upd_inode q (\<lambda>_. disk_inode f num) f) g"
    using get_inode_loads [OF assms] by blast
  let ?g = "upd_inode q (\<lambda>_. file_inode num start) g"
  have sb: "sb0 g = sb0 f" using sb0_frame [OF g(4)] by simp
  have fr: "fs_frame (upd_inode q (\<lambda>_. file_inode num start) f) ?g"
    using fs_frame_upd_inode [OF g(4), of q "\<lambda>_. file_inode num start"] by simp
  have here: "i_dev (inode_table ?g q) = ROOT_DEV" "i_num (inode_table ?g q) = int num" "mounted ?g"
    using g(2) by (simp_all add: file_inode_def)
  obtain h where h: "sync_inode q ?g = Inr h" "mounted h" "fs_frame ?g h" "\<forall>s. s \<noteq> inode_sect ?g num \<longrightarrow> fs_sect h s = fs_sect ?g s"
    "\<forall>m\<ge>1. disk_inode h m = (if m = num then (inode_table ?g q)\<lparr>i_cnt := 1\<rparr> else disk_inode ?g m)"
    using sync_inode_disk [OF here(3, 1, 2) assms(2, 3)] by blast
  have "inode_sect ?g num = inode_sect f num" "disk_inode ?g m = disk_inode f m" for m
    using sb g(3) by (simp_all add: inode_sect_def disk_inode_def)
  moreover have "new_inode ROOT_DEV (int num) start f = Inr (q, h)"
    using g(1) h(1) by (simp add: new_inode_def file_inode_def Let_def)
  ultimately show ?thesis
    using h(2 -) g(3) fs_frame_trans [OF fr h(3)] by (simp add: file_inode_def)
qed

section \<open>The new directory entry\<close>

text \<open>The entry a new name goes to: the first that holds no inode, or the one behind the last of \<open>n\<close>.\<close>

definition slot_for :: "fs \<Rightarrow> nat \<Rightarrow> nat \<Rightarrow> nat" where
  "slot_for f s n = (case find (\<lambda>k. slot_inode (dir_slot f s k) = 0) [0..<n] of None \<Rightarrow> n | Some k \<Rightarrow> k)"

lemma slot_for_props:
  "slot_for f s n \<le> n" "k < slot_for f s n \<Longrightarrow> slot_inode (dir_slot f s k) \<noteq> 0"
  "slot_for f s n < n \<Longrightarrow> slot_inode (dir_slot f s (slot_for f s n)) = 0"
  by (auto simp: slot_for_def find_Some_iff find_None_iff split: option.splits)

lemma free_slot_stops:
  assumes "\<And>j. j < 32 \<Longrightarrow> entry_inode h j = ino (32 * i + j)" "j \<le> 32" "32 * i + j \<le> k" "k \<le> n"
    "\<And>m. m < k \<Longrightarrow> ino m \<noteq> 0" "k < n \<Longrightarrow> ino k = 0"
  shows "free_slot h n (32 * i + j) [j..<32] = (if k < 32 * (i + 1) then Inl (k - 32 * i, k < n) else Inr (32 * (i + 1)))"
  using assms(2, 3)
proof (induction "32 - j" arbitrary: j)
  case 0
  then show ?case by simp
next
  case (Suc d)
  then have j: "j < 32" "[j..<32] = j # [Suc j..<32]" by (simp_all add: upt_conv_Cons)
  show ?case
  proof (cases "k = 32 * i + j")
    case True
    then show ?thesis using assms(1) [OF j(1)] assms(4, 6) j(1) unfolding j(2) by auto
  next
    case False
    then have "32 * i + Suc j \<le> k" "d = 32 - Suc j" "Suc j \<le> 32" using Suc by simp_all
    with Suc.hyps(1) [of "Suc j"] assms(1) [OF j(1)] assms(4) assms(5) [of "32 * i + j"] show ?thesis unfolding j(2) by auto
  qed
qed

lemma free_slot_blocks_stops:
  assumes "mounted f" "s + b \<le> sect_limit" "32 * i \<le> k" "k < 32 * b" "k \<le> n"
    "\<And>m. m < k \<Longrightarrow> slot_inode (dir_slot f s m) \<noteq> 0" "k < n \<Longrightarrow> slot_inode (dir_slot f s k) = 0"
  shows "\<exists>g. free_slot_blocks n ROOT_DEV (of_nat s) (32 * i) [i..<b] f = Inr (k div 32, k mod 32, k < n, g) \<and>
    mounted g \<and> fs_frame f g \<and> fs_sect g = fs_sect f \<and> fs_buf g = fs_sect f (s + k div 32)"
  using assms
proof (induction "b - i" arbitrary: i f)
  case 0
  then show ?case by simp
next
  case (Suc d)
  then have i: "i < b" "[i..<b] = i # [Suc i..<b]" by (simp_all add: upt_conv_Cons)
  have ok: "fs_ok f" "s + i < sect_limit" using Suc.prems i(1) by (simp_all add: mounted_def)
  obtain g where g: "RD_SECT ROOT_DEV (of_nat (s + i)) f = Inr g" "fs_ok g" "fs_buf g = fs_sect f (s + i)" "fs_sect g = fs_sect f" "fs_frame f g"
    using root.rd_ok [OF ok] by auto
  have m: "mounted g" by (rule mounted_frame [OF Suc.prems(1) g(2, 5)])
  have slots: "dir_slot g s = dir_slot f s" using g(4) by (simp add: dir_slot_def fun_eq_iff)
  have stop: "free_slot (fmem g) n (32 * i) [0..<32] = (if k < 32 * (i + 1) then Inl (k - 32 * i, k < n) else Inr (32 * (i + 1)))"
    using free_slot_stops [of "fmem g" "\<lambda>k. slot_inode (dir_slot f s k)" i 0 k n] entry_slot(1) [OF g(3)] Suc.prems(3, 5 - 7) by simp
  show ?case
  proof (cases "k < 32 * (i + 1)")
    case True
    then have div: "k div 32 = i" using Suc.prems(3) by auto
    then have "k - 32 * i = k mod 32" using minus_mult_div_eq_mod [of k 32] by simp
    with True div stop g m show ?thesis unfolding i(2) by simp
  next
    case False
    have "d = b - Suc i" "32 * Suc i \<le> k" using Suc.hyps(2) False by simp_all
    from Suc.hyps(1) [OF this(1) m Suc.prems(2) this(2) Suc.prems(4, 5)] obtain h where
      h: "free_slot_blocks n ROOT_DEV (of_nat s) (32 * Suc i) [Suc i..<b] g = Inr (k div 32, k mod 32, k < n, h)"
      "mounted h" "fs_frame g h" "fs_sect h = fs_sect g" "fs_buf h = fs_sect g (s + k div 32)"
      using Suc.prems(6, 7) unfolding slots by blast
    with g False stop fs_frame_trans [OF g(5) h(3)] show ?thesis unfolding i(2) by simp
  qed
qed

lemma splice_field:
  assumes "off + w \<le> length xs" "length bs \<le> w"
  shows "take w (drop off (splice off bs xs)) = bs @ drop (length bs) (take w (drop off xs))"
proof -
  have "take off xs @ bs @ drop (off + length bs) xs = take off xs @ (bs @ drop (off + length bs) xs)" by simp
  moreover have "length (take off xs) = off" using assms(1) by simp
  ultimately have "drop off (splice off bs xs) = bs @ drop (off + length bs) xs" by (simp add: splice_def)
  with assms show ?thesis by (simp add: drop_take add.commute)
qed

lemma splice_other_field:
  assumes "off + length bs \<le> length xs" "off' + w \<le> length xs" "off' + w \<le> off \<or> off + length bs \<le> off'"
  shows "take w (drop off' (splice off bs xs)) = take w (drop off' xs)"
  using assms by (intro nth_equalityI) (auto simp: nth_splice)

text \<open>One sector of a directory after an entry was written to it.\<close>

lemma dir_slot_write:
  assumes "fs_ok f" "fs_sect g = (fs_sect f)(s + k div 32 := splice (16 * (k mod 32)) bs (fs_sect f (s + k div 32)))" "length bs \<le> 16"
  shows "dir_slot g s m = (if m = k then bs @ drop (length bs) (dir_slot f s k) else dir_slot f s m)"
proof -
  have len: "length (fs_sect f x) = SECTOR_SIZE" for x using assms(1) by (simp add: fs_ok_def disk_ok_def fs_sect_def)
  have k: "16 * (k mod 32) + 16 \<le> SECTOR_SIZE" "16 * (m mod 32) + 16 \<le> SECTOR_SIZE" by simp_all
  consider "m = k" | "m div 32 \<noteq> k div 32" | "m \<noteq> k" "m div 32 = k div 32" by blast
  then show ?thesis
  proof cases
    case 1
    then show ?thesis using splice_field [of "16 * (k mod 32)" 16 "fs_sect f (s + k div 32)" bs] k len assms by (simp add: dir_slot_def)
  next
    case 2
    then show ?thesis using assms(2) by (auto simp: dir_slot_def)
  next
    case 3
    then have "m mod 32 \<noteq> k mod 32" by (metis div_mult_mod_eq)
    then have "16 * (m mod 32) + 16 \<le> 16 * (k mod 32) \<or> 16 * (k mod 32) + length bs \<le> 16 * (m mod 32)"
      using assms(3) by linarith
    then have "take 16 (drop (16 * (m mod 32)) (splice (16 * (k mod 32)) bs (fs_sect f (s + k div 32)))) =
        take 16 (drop (16 * (m mod 32)) (fs_sect f (s + k div 32)))"
      using k len assms(3) by (intro splice_other_field) auto
    with 3 assms(2) show ?thesis by (simp add: dir_slot_def)
  qed
qed

text \<open>A directory that is in the cache, with its sectors in the data area.\<close>

definition dir_at :: "fs \<Rightarrow> nat \<Rightarrow> nat \<Rightarrow> nat \<Rightarrow> nat \<Rightarrow> bool" where
  "dir_at f dir num s n \<longleftrightarrow> i_dev (inode_table f dir) = ROOT_DEV \<and> i_num (inode_table f dir) = int num \<and> 1 \<le> num \<and> num \<le> 4096 \<and>
     i_start_sect (inode_table f dir) = of_nat s \<and> i_size (inode_table f dir) = of_nat (16 * n) \<and>
     unat (n_1st_sect (sb0 f)) \<le> s \<and> n < 2 ^ 26 \<and> s + n div 32 + 3 \<le> sect_limit"

definition grown :: "nat \<Rightarrow> nat \<Rightarrow> inode \<Rightarrow> inode" where
  "grown k n d = (if k < n then d else d\<lparr>i_size := i_size d + DIR_ENTRY_SIZE\<rparr>)"

lemma new_dir_entry_ok:
  fixes f :: fs and s n k :: nat
  defines "k \<equiv> slot_for f s n"
  assumes "mounted f" "dir_at f dir num s n" "length name + 5 \<le> 16"
  shows "\<exists>g. new_dir_entry dir nr name f = Inr g \<and> mounted g \<and> fs_frame (upd_inode dir (grown k n) f) g \<and>
    (\<forall>x. x \<noteq> inode_sect f num \<longrightarrow> x \<noteq> s + k div 32 \<longrightarrow> fs_sect g x = fs_sect f x) \<and>
    (\<forall>m. dir_slot g s m = (if m = k then le32 nr @ name @ [0] @ drop (length name + 5) (dir_slot f s k) else dir_slot f s m)) \<and>
    (\<forall>m. 1 \<le> m \<and> m \<le> 4096 \<longrightarrow> disk_inode g m = (if m = num then (grown k n (inode_table f dir))\<lparr>i_cnt := 1\<rparr> else disk_inode f m))"
proof -
  let ?d = "inode_table f dir" and ?b = "(16 * n + SECTOR_SIZE) div SECTOR_SIZE" and ?e = "le32 nr @ name @ [0]"
  from assms(3) have d: "i_dev ?d = ROOT_DEV" "i_num ?d = int num" "1 \<le> num" "num \<le> 4096" "i_start_sect ?d = of_nat s"
    "i_size ?d = of_nat (16 * n)" "unat (n_1st_sect (sb0 f)) \<le> s" "n < 2 ^ 26" "s + n div 32 + 3 \<le> sect_limit"
    by (simp_all add: dir_at_def)
  have blks: "?b = n div 32 + 1" by simp
  have "unat (i_size ?d) = 16 * n" using d(6, 8) by (simp add: unat_of_nat_u32 del: of_nat_mult)
  then have sizes: "unat ((i_size ?d + SECTOR_SIZE) div SECTOR_SIZE) = ?b" "unat (i_size ?d div DIR_ENTRY_SIZE) = n"
    using d(8) by (simp_all add: unat_div unat_word_ariths)
  have k: "k \<le> n" "k < 32 * ?b" "s + ?b \<le> sect_limit" using slot_for_props(1) [of f s n] d(9) by (auto simp: k_def)
  obtain g0 where g0: "free_slot_blocks n ROOT_DEV (of_nat s) 0 [0..<?b] f = Inr (k div 32, k mod 32, k < n, g0)"
    "mounted g0" "fs_frame f g0" "fs_sect g0 = fs_sect f" "fs_buf g0 = fs_sect f (s + k div 32)"
    using free_slot_blocks_stops [OF assms(2) k(3) _ k(2, 1), of 0] slot_for_props(2) [of _ f s n] slot_for_props(3) [of f s n] by (auto simp: k_def)
  define f1 where "f1 = upd_inode dir (grown k n) g0"
  have f1: "fs_ok f1" "fs_sect f1 = fs_sect f" "fs_buf f1 = fs_sect f (s + k div 32)" "fs_frame (upd_inode dir (grown k n) f) f1"
    using g0 fs_frame_upd_inode [OF g0(3)] by (simp_all add: f1_def mounted_def)
  define f2 where "f2 = set_fmem (store_bytes (fmem f1) (fsbuf + of_nat (16 * (k mod 32))) ?e) f1"
  have bound: "16 * (k mod 32) + length ?e \<le> SECTOR_SIZE" using assms(4) mod_less_divisor [of 32 k] by simp
  have "root.edits (splice (16 * (k mod 32)) ?e) (\<lambda>f. set_fmem (store_bytes (fmem f) (fsbuf + of_nat (16 * (k mod 32))) ?e) f) f1"
    by (rule root_edit [OF f1(1) bound])
  then have f2: "fs_ok f2" "fs_buf f2 = splice (16 * (k mod 32)) ?e (fs_sect f (s + k div 32))" "fs_sect f2 = fs_sect f" "fs_frame f1 f2"
    using f1(2, 3) by (simp_all add: root.edits_def f2_def)
  have "s + k div 32 < sect_limit" using k by simp
  from root.wr_ok [OF f2(1) this] obtain f3 where f3: "WR_SECT ROOT_DEV (of_nat (s + k div 32)) f2 = Inr f3" "fs_ok f3" "fs_frame f2 f3"
    "fs_sect f3 = (fs_sect f)(s + k div 32 := splice (16 * (k mod 32)) ?e (fs_sect f (s + k div 32)))"
    using f2(2, 3) by auto
  have fr: "fs_frame (upd_inode dir (grown k n) f) f3" using fs_frame_trans [OF fs_frame_trans [OF f1(4) f2(4)] f3(3)] .
  have m3: "mounted f3" using mounted_frame [OF _ f3(2) fr] assms(2) by simp
  have tab: "inode_table f3 dir = grown k n ?d" and sb: "sb0 f3 = sb0 f" using fs_frame_sel(1) [OF fr] sb0_frame [OF fr] by simp_all
  have "i_dev (grown k n ?d) = ROOT_DEV" "i_num (grown k n ?d) = int num" using d(1, 2) by (simp_all add: grown_def)
  from sync_inode_disk [OF m3, of dir, unfolded tab, OF this d(3, 4)] obtain g where g: "sync_inode dir f3 = Inr g" "mounted g" "fs_frame f3 g"
    "\<forall>x. x \<noteq> inode_sect f num \<longrightarrow> fs_sect g x = fs_sect f3 x"
    "\<forall>m\<ge>1. disk_inode g m = (if m = num then (grown k n ?d)\<lparr>i_cnt := 1\<rparr> else disk_inode f3 m)"
    unfolding inode_sect_def sb by auto
  have "new_dir_entry dir nr name f = Inr g"
    using g0(1) d(1, 5) sizes f3(1) g(1)
    by (auto simp: new_dir_entry_def Let_def f2_def f1_def store32_def store_bytes_append grown_def upd_inode_def)
  moreover have "dir_slot g s m = dir_slot f3 s m" for m
  proof -
    have "inode_sect f num < s + m div 32" using inode_sect_less [OF assms(2) d(3, 4)] d(7) by simp
    then show ?thesis using g(4) by (simp add: dir_slot_def)
  qed
  moreover have "dir_slot f3 s m = (if m = k then ?e @ drop (length ?e) (dir_slot f s k) else dir_slot f s m)" for m
    using assms(2, 4) f3(4) by (intro dir_slot_write) (simp_all add: mounted_def)
  moreover have "disk_inode f3 m = disk_inode f m" if "1 \<le> m" "m \<le> 4096" for m
    using inode_sect_less [OF assms(2) that] d(7) f3(4) sb by (intro disk_inode_cong) auto
  moreover have "fs_frame (upd_inode dir (grown k n) f) g" by (rule fs_frame_trans [OF fr g(3)])
  ultimately show ?thesis using g f3(4) by (intro exI [of _ g]) (auto simp: add.commute)
qed

section \<open>The new file\<close>

text \<open>
  Room for a file: \<open>num\<close> is the first free inode number, which no entry of the cache holds, \<open>q\<close> the first
  free entry of the cache, and \<open>a\<close> the first zero bit of the sector map, where a run for the file begins.
\<close>

definition room_for :: "fs \<Rightarrow> nat \<Rightarrow> nat \<Rightarrow> nat \<Rightarrow> bool" where
  "room_for f num a q \<longleftrightarrow>
     first_index (\<lambda>n. \<not> map_bit f 2 n) 4096 = Some num \<and> 2 \<le> num \<and> find_inode ROOT_DEV (int num) f = None \<and>
     first_index (\<lambda>p. i_cnt (inode_table f p) = 0) NR_INODE = Some q \<and>
     first_index (\<lambda>n. \<not> map_bit f 3 n) (4096 * unat (nr_smap_sects (sb0 f))) = Some a \<and>
     (\<forall>n. a \<le> n \<and> n < a + NR_DEFAULT_FILE_SECTS \<longrightarrow> \<not> map_bit f 3 n) \<and>
     a + NR_DEFAULT_FILE_SECTS \<le> 4096 * unat (nr_smap_sects (sb0 f)) \<and> a + NR_DEFAULT_FILE_SECTS \<le> 2 ^ 28"

text \<open>The sector where the data of the new file begins.\<close>

definition run_sector :: "fs \<Rightarrow> nat \<Rightarrow> u32" where
  "run_sector f a = of_nat a - 1 + n_1st_sect (sb0 f)"

lemma alloc_file:
  assumes "mounted f" "room_for f num a q"
  shows "\<exists>g h. alloc_imap_bit ROOT_DEV f = Inr (of_nat num, g) \<and> alloc_smap_bit ROOT_DEV NR_DEFAULT_FILE_SECTS g = Inr (run_sector f a, h) \<and>
    mounted h \<and> fs_frame f h \<and> (\<forall>s\<ge>3 + unat (nr_smap_sects (sb0 f)). fs_sect h s = fs_sect f s) \<and>
    (\<forall>m<4096. map_bit h 2 m = (map_bit f 2 m \<or> m = num)) \<and>
    (\<forall>m<4096 * unat (nr_smap_sects (sb0 f)). map_bit h 3 m = (map_bit f 3 m \<or> a \<le> m \<and> m < a + NR_DEFAULT_FILE_SECTS))"
proof -
  let ?l = "unat (nr_smap_sects (sb0 f))"
  from assms(2) have r: "first_index (\<lambda>n. \<not> map_bit f 2 n) 4096 = Some num"
    "first_index (\<lambda>n. \<not> map_bit f 3 n) (4096 * ?l) = Some a" "\<And>n. a \<le> n \<Longrightarrow> n < a + NR_DEFAULT_FILE_SECTS \<Longrightarrow> \<not> map_bit f 3 n"
    "a + NR_DEFAULT_FILE_SECTS \<le> 4096 * ?l" "a + NR_DEFAULT_FILE_SECTS \<le> 2 ^ 28"
    by (simp_all add: room_for_def)
  have len: "length (fs_sect f 2) = 512" using assms(1) by (simp add: mounted_def fs_ok_def disk_ok_def fs_sect_def)
  have num: "first_index (\<lambda>n. \<not> bits (fs_sect f 2) n) 4096 = Some num" "num < 4096"
    using r(1) unfolding first_index_Some by (auto simp: map_bit_first)
  obtain g where g: "mounted g" "fs_frame f g" "alloc_imap_bit ROOT_DEV f = Inr (of_nat num, g)"
    "fs_sect g = (fs_sect f)(2 := (fs_sect f 2)[num div 8 := set_bit (num mod 8) (fs_sect f 2 ! (num div 8))])"
    using alloc_imap_bit_ok [OF assms(1)] num(1) by auto
  have sb: "sb0 g = sb0 f" by (rule sb0_frame [OF g(2)])
  have same: "map_bit g 3 n = map_bit f 3 n" for n using g(4) by (simp add: map_bit_def)
  have "run_bits (map_bit g 3) a NR_DEFAULT_FILE_SECTS 0 (4096 * unat (nr_smap_sects (sb0 g)))"
    unfolding sb using run_bitsI [OF r(2, 3)] by (simp add: run_bits_def same)
  from alloc_smap_bit_ok [OF g(1) _ this] r(4, 5) obtain h where
    h: "alloc_smap_bit ROOT_DEV NR_DEFAULT_FILE_SECTS g = Inr (of_nat a - 1 + n_1st_sect (sb0 f), h)" "mounted h" "fs_frame g h"
      "\<forall>n<4096 * ?l. map_bit h 3 n = (map_bit f 3 n \<or> a \<le> n \<and> n < a + NR_DEFAULT_FILE_SECTS)"
      "\<forall>s. s < 3 \<or> 3 + ?l \<le> s \<longrightarrow> fs_sect h s = fs_sect g s"
    unfolding sb same by auto
  have "map_bit h 2 m = (map_bit f 2 m \<or> m = num)" if "m < 4096" for m
  proof -
    have "map_bit h 2 m = bits (fs_sect g 2) m" using h(5) that by (simp add: map_bit_def)
    also have "\<dots> = (bits (fs_sect f 2) m \<or> m = num)"
      unfolding g(4) using that num(2) len by (simp add: bits_set_bit)
    finally show ?thesis using that by (simp add: map_bit_def)
  qed
  moreover have "fs_sect h s = fs_sect f s" if "3 + ?l \<le> s" for s using h(5) g(4) that by simp
  ultimately show ?thesis
    using g(3) h(1, 2, 4) fs_frame_trans [OF g(2) h(3)] unfolding run_sector_def by blast
qed

lemma name_slot:
  assumes "length name \<le> 11"
  shows "le32 nr @ name @ [0] @ drop (length name + 5) (replicate 16 0) = le32 nr @ name_field name"
proof -
  obtain j where j: "11 = length name + j" using assms by (metis le_iff_add)
  then have "12 - length name = Suc j" "16 - (length name + 5) = j" by simp_all
  then show ?thesis by (simp add: name_field_def)
qed

lemma slot_of_entry: "slot_name (le32 nr @ field) = field" "length field = 12 \<Longrightarrow> slot_inode (le32 nr @ field) = nr"
  by (simp add: slot_name_def) (auto simp: slot_inode_def intro!: word_at_le32)

lemma lookup_name_new:
  assumes "\<And>k. k < k0 \<Longrightarrow> slot_name (dir_slot f s k) \<noteq> field" "dir_slot f s k0 = le32 nr @ field" "length field = 12" "k0 < n"
  shows "lookup_name f s field n = nr"
proof -
  have "find (\<lambda>k. slot_name (dir_slot f s k) = field) [0..<n] = Some k0"
    unfolding first_index_def [symmetric] first_index_Some using assms by (simp add: slot_of_entry)
  then show ?thesis using assms(2, 3) by (simp add: lookup_name_def slot_of_entry)
qed

lemma dir_at_frame:
  assumes "dir_at f dir num s n" "sb0 g = sb0 f" "inode_table g dir = inode_table f dir"
  shows "dir_at g dir num s n"
  using assms by (simp add: dir_at_def)

lemma slot_for_cong: "(\<And>k. dir_slot g s k = dir_slot f s k) \<Longrightarrow> slot_for g s n = slot_for f s n"
  by (simp add: slot_for_def)

lemma fs_frame_mem: "fs_frame f g \<Longrightarrow> x \<notin> region fsbuf SECTOR_SIZE \<Longrightarrow> fmem g x = fmem f x"
  by (simp add: fs_frame_def)

text \<open>The state after a file was created.\<close>

definition created :: "fs \<Rightarrow> nat \<Rightarrow> nat \<Rightarrow> nat \<Rightarrow> nat \<Rightarrow> nat \<Rightarrow> u8 list \<Rightarrow> fs \<Rightarrow> bool" where
  "created f num a q s n name g \<longleftrightarrow>
     mounted g \<and> inode_table g = (inode_table f)(q := file_inode num (run_sector f a),
       root_inode f := grown (slot_for f s n) n (inode_table f (root_inode f))) \<and>
     f_desc_table g = f_desc_table f \<and> root_inode g = root_inode f \<and> super_blocks g = super_blocks f \<and> pcaller g = pcaller f \<and>
     fs_msg g = fs_msg f \<and> proc_table (hks (drv g)) = proc_table (hks (drv f)) \<and>
     (\<forall>x. x \<notin> region fsbuf SECTOR_SIZE \<longrightarrow> fmem g x = fmem f x) \<and>
     disk_inode g num = file_inode num (run_sector f a) \<and>
     (\<forall>m. 2 \<le> m \<and> m \<le> 4096 \<and> m \<noteq> num \<longrightarrow> disk_inode g m = disk_inode f m) \<and>
     (\<forall>k. dir_slot g s k = (if k = slot_for f s n then le32 (of_nat num) @ name_field name else dir_slot f s k)) \<and>
     (\<forall>m<4096. map_bit g 2 m = (map_bit f 2 m \<or> m = num)) \<and>
     (\<forall>m<4096 * unat (nr_smap_sects (sb0 f)). map_bit g 3 m = (map_bit f 3 m \<or> a \<le> m \<and> m < a + NR_DEFAULT_FILE_SECTS))"

text \<open>The bit maps lie in the sectors before the inodes.\<close>

lemma map_bit_cong:
  assumes "\<And>x. x < 3 + l \<Longrightarrow> fs_sect g x = fs_sect f x"
  shows "m < 4096 \<Longrightarrow> map_bit g 2 m = map_bit f 2 m" "m < 4096 * l \<Longrightarrow> map_bit g 3 m = map_bit f 3 m"
  using assms by (simp_all add: map_bit_def less_mult_imp_div_less mult.commute)

lemma create_file_creates:
  assumes "mounted f" "room_for f num a q" "dir_at f (root_inode f) 1 s n" "i_cnt (inode_table f (root_inode f)) \<noteq> 0"
    "base_name path = name" "0x2F \<notin> set name" "length name \<le> 11" "dir_slot f s (slot_for f s n) = replicate 16 0"
  shows "\<exists>g. create_file path f = Inr (Some q, g) \<and> created f num a q s n name g"
proof -
  let ?r = "root_inode f" and ?x = "file_inode num (run_sector f a)" and ?k = "slot_for f s n" and ?l = "unat (nr_smap_sects (sb0 f))"
  obtain g0 g1 where g1: "alloc_imap_bit ROOT_DEV f = Inr (of_nat num, g0)"
    "alloc_smap_bit ROOT_DEV NR_DEFAULT_FILE_SECTS g0 = Inr (run_sector f a, g1)" "mounted g1" "fs_frame f g1"
    "\<And>x. 3 + ?l \<le> x \<Longrightarrow> fs_sect g1 x = fs_sect f x" "\<forall>m<4096. map_bit g1 2 m = (map_bit f 2 m \<or> m = num)"
    "\<forall>m<4096 * ?l. map_bit g1 3 m = (map_bit f 3 m \<or> a \<le> m \<and> m < a + NR_DEFAULT_FILE_SECTS)"
    using alloc_file [OF assms(1, 2)] by blast
  note fr1 = fs_frame_sel [OF g1(4)] and sb1 = sb0_frame [OF g1(4)]
  from assms(2) have num: "2 \<le> num" "num < 4096" "find_inode ROOT_DEV (int num) g1 = None"
    "first_index (\<lambda>p. i_cnt (inode_table g1 p) = 0) NR_INODE = Some q" "i_cnt (inode_table f q) = 0"
    using fr1(1) by (simp_all add: room_for_def find_inode_def first_index_Some)
  have q: "?r \<noteq> q" using num(5) assms(4) by auto
  obtain g2 where g2: "new_inode ROOT_DEV (int num) (run_sector f a) g1 = Inr (q, g2)" "mounted g2" "fs_frame (upd_inode q (\<lambda>_. ?x) g1) g2"
    "\<forall>x. x \<noteq> inode_sect g1 num \<longrightarrow> fs_sect g2 x = fs_sect g1 x" "\<forall>m\<ge>1. disk_inode g2 m = (if m = num then ?x else disk_inode g1 m)"
    using new_inode_ok [OF g1(3) _ _ num(3, 4), of "run_sector f a"] num(1, 2) by fastforce
  note fr2 = fs_frame_sel [OF g2(3), simplified] and sb2 = sb0_frame [OF g2(3), simplified]
  have isect: "3 + ?l \<le> inode_sect f m" "1 \<le> m \<Longrightarrow> m \<le> 4096 \<Longrightarrow> inode_sect f m < s" for m
    using inode_sect_less [OF assms(1), of m] assms(3) by (simp_all add: inode_sect_def dir_at_def)
  have isect_eq: "inode_sect g1 m = inode_sect f m" "inode_sect g2 m = inode_sect f m" for m
    using sb1 sb2 by (simp_all add: inode_sect_def)
  have slots: "dir_slot g2 s k = dir_slot f s k" for k
    using g1(5) g2(4) isect(1) [of num] isect(2) [of num] num(1, 2) by (simp add: dir_slot_def isect_eq)
  note k = slot_for_cong [of g2 s f n, OF slots]
  have dir: "dir_at g2 ?r 1 s n" using sb1 sb2 fr1(1) fr2(1) q by (intro dir_at_frame [OF assms(3)]) simp_all
  obtain g where g: "new_dir_entry ?r (of_nat num) name g2 = Inr g" "mounted g" "fs_frame (upd_inode ?r (grown ?k n) g2) g"
    "\<forall>x. x \<noteq> inode_sect g2 1 \<longrightarrow> x \<noteq> s + ?k div 32 \<longrightarrow> fs_sect g x = fs_sect g2 x"
    "\<forall>m. dir_slot g s m = (if m = ?k then le32 (of_nat num) @ name @ [0] @ drop (length name + 5) (dir_slot g2 s ?k) else dir_slot g2 s m)"
    "\<forall>m. 1 \<le> m \<and> m \<le> 4096 \<longrightarrow> disk_inode g m = (if m = 1 then (grown ?k n (inode_table g2 ?r))\<lparr>i_cnt := 1\<rparr> else disk_inode g2 m)"
    using new_dir_entry_ok [OF g2(2) dir, of name "of_nat num"] assms(7) unfolding k by auto
  note fr = fs_frame_sel [OF g(3), simplified]
  have low: "fs_sect g x = fs_sect g1 x" if "x < 3 + ?l" for x
    using g(4) g2(4) that isect(1) [of num] isect(1) [of 1] isect(2) [of 1] by (simp add: isect_eq)
  have "create_file path f = Inr (Some q, g)"
  proof -
    have "i_dev (inode_table f ?r) = ROOT_DEV" using assms(3) by (simp add: dir_at_def)
    moreover have "sint (of_nat num :: u32) = int num" using num(2) by (intro sint_of_nat_small) simp
    moreover have "i_num (inode_table g2 q) = int num" using fr2(1) by (simp add: file_inode_def)
    ultimately show ?thesis
      using g1(1, 2) g2(1) g(1) assms(5, 6) by (simp add: create_file_def strip_path_base Let_def)
  qed
  moreover have "disk_inode g m = (if m = num then ?x else disk_inode f m)" if "2 \<le> m" "m \<le> 4096" for m
    using g(6) g2(5) that disk_inode_cong [OF sb1, of m] g1(5) isect(1) [of m] by simp
  moreover have "dir_slot g s m = (if m = ?k then le32 (of_nat num) @ name_field name else dir_slot f s m)" for m
    using g(5) assms(8) name_slot [OF assms(7)] by (simp add: slots)
  moreover have "map_bit g 2 m = (map_bit f 2 m \<or> m = num)" if "m < 4096" for m
    using map_bit_cong(1) [OF low that] g1(6) that by simp
  moreover have "map_bit g 3 m = (map_bit f 3 m \<or> a \<le> m \<and> m < a + NR_DEFAULT_FILE_SECTS)" if "m < 4096 * ?l" for m
    using map_bit_cong(2) [OF low that] g1(7) that by simp
  moreover have "inode_table g = (inode_table f)(q := ?x, ?r := grown ?k n (inode_table f ?r))"
    using fr(1) fr2(1) fr1(1) q by simp
  ultimately show ?thesis
    using g(2) fr fr2 fr1 num(1, 2) fs_frame_mem [OF g(3)] fs_frame_mem [OF g2(3)] fs_frame_mem [OF g1(4)]
    by (intro exI [of _ g]) (simp add: created_def)
qed

lemma created_root:
  assumes "created f num a q s n name g" "dir_at f (root_inode f) 1 s n"
  shows "root_ok g" "unat (i_start_sect (root_dir g)) = s" "slot_for f s n < unat (i_size (root_dir g)) div DIR_ENTRY_SIZE + 1"
proof -
  let ?d = "inode_table f (root_inode f)" and ?n' = "if slot_for f s n < n then n else n + 1"
  from assms(2) have d: "i_dev ?d = ROOT_DEV" "i_start_sect ?d = of_nat s" "i_size ?d = of_nat (16 * n)" "n < 2 ^ 26" "s + n div 32 + 3 \<le> sect_limit"
    by (simp_all add: dir_at_def)
  have root: "root_dir g = grown (slot_for f s n) n ?d" using assms(1) by (simp add: created_def root_dir_def)
  then have r: "i_dev (root_dir g) = ROOT_DEV" "i_start_sect (root_dir g) = of_nat s" "i_size (root_dir g) = of_nat (16 * ?n')"
    using d(1 - 3) by (auto simp: grown_def)
  have size: "unat (i_size (root_dir g)) = 16 * ?n'"
    unfolding r(3) using d(4) by (intro unat_of_nat_u32) (simp split: if_split)
  show start: "unat (i_start_sect (root_dir g)) = s"
    unfolding r(2) using d(5) by (intro unat_of_nat_u32) simp
  have "s + (16 * ?n') div SECTOR_SIZE + 2 \<le> sect_limit"
  proof -
    have "Suc n div 32 \<le> n div 32 + 1" by linarith
    with d(5) show ?thesis by (simp split: if_split)
  qed
  moreover have "16 * ?n' < 2 ^ 31" using d(4) by (simp split: if_split)
  ultimately show "root_ok g" using r(1) by (simp add: root_ok_def start size word_less_nat_alt)
  show "slot_for f s n < unat (i_size (root_dir g)) div DIR_ENTRY_SIZE + 1"
    unfolding size using slot_for_props(1) [of f s n] by (simp split: if_split)
qed

text \<open>
  C24. A file that was created is found. When there is room for a file, its entry goes to the first slot of the
  directory without an inode or behind the last, and that slot is blank, creating a name of at most
  eleven characters succeeds: the inode number and a run of 2048 sectors are marked in the two maps and nothing else is,
  the inode is in the cache and on disk as an empty regular file that begins in that run, every other
  inode but the root's and every other directory entry is as before, and a search for the path, whose name no entry had,
  now yields the new inode number.
\<close>

theorem create_then_search:
  assumes "mounted f" "room_for f num a q" "dir_at f (root_inode f) 1 s n" "i_cnt (inode_table f (root_inode f)) \<noteq> 0"
    "base_name path = name" "name \<noteq> []" "0x2F \<notin> set name" "length name \<le> 11"
    "dir_slot f s (slot_for f s n) = replicate 16 0" "\<And>k. k \<le> n \<Longrightarrow> slot_name (dir_slot f s k) \<noteq> name_field name"
  shows "\<exists>g h. create_file path f = Inr (Some q, g) \<and> created f num a q s n name g \<and> search_file path g = Inr (of_nat num, h)"
proof -
  obtain g where g: "create_file path f = Inr (Some q, g)" "created f num a q s n name g"
    using create_file_creates [OF assms(1 - 5, 7 - 9)] by blast
  note root = created_root [OF g(2) assms(3)]
  have "mounted g" and slots: "\<And>k. dir_slot g s k = (if k = slot_for f s n then le32 (of_nat num) @ name_field name else dir_slot f s k)"
    using g(2) by (simp_all add: created_def)
  from search_file_lookup [OF this(1) root(1), of path] assms(5 - 7) obtain h where
    "search_file path g = Inr (lookup_name g s (name_field name) (unat (i_size (root_dir g)) div DIR_ENTRY_SIZE + 1), h)"
    unfolding root(2) by auto
  moreover have "lookup_name g s (name_field name) (unat (i_size (root_dir g)) div DIR_ENTRY_SIZE + 1) = of_nat num"
    using slots assms(10) slot_for_props(1) [of f s n] root(3)
    by (intro lookup_name_new [of "slot_for f s n"]) (simp_all add: name_field_def)
  ultimately show ?thesis using g by auto
qed

section \<open>Witnesses\<close>

lemma demo_room: "room_for (demo_fs h) 3 4097 2"
proof -
  have "find_inode ROOT_DEV 3 (demo_fs h) = None"
    by (simp add: find_inode_def first_index_None demo_table demo_root_def demo_file_def zero_inode_def)
  moreover have "i_cnt (inode_table (demo_fs h) p) = 0 \<longleftrightarrow> 2 \<le> p" for p
    by (simp add: demo_table demo_root_def demo_file_def zero_inode_def)
  ultimately show ?thesis
    using demo_first_inode [of h] demo_first_sector [of h] demo_smap [of _ h]
    by (auto simp: room_for_def first_index_Some demo_sb0 demo_sb_def)
qed

lemma demo_dir_at: "dir_at (demo_fs h) (root_inode (demo_fs h)) 1 261 2"
  by (simp add: dir_at_def demo_table demo_sb0) (simp add: demo_fs_def demo_root_def demo_sb_def)

lemma demo_slots:
  "dir_slot (demo_fs h) 261 0 = le32 1 @ name_field [0x2E]" "dir_slot (demo_fs h) 261 1 = le32 2 @ name_field [0x61, 0x62]"
  "dir_slot (demo_fs h) 261 2 = replicate 16 0"
  by (simp_all add: dir_slot_def demo_sect demo_sectors_def name_field_def)

lemma demo_slot_for: "slot_for (demo_fs h) 261 2 = 2"
  using demo_slots(2) [of h] by (simp add: slot_for_def upt_rec demo_slots(1) slot_of_entry name_field_def)

theorem create_then_search_witness:
  "\<exists>g h. create_file [0x2F, 0x78] (demo_fs (\<lambda>_. 7)) = Inr (Some 2, g) \<and> created (demo_fs (\<lambda>_. 7)) 3 4097 2 261 2 [0x78] g \<and>
     search_file [0x2F, 0x78] g = Inr (3, h)"
proof -
  have "slot_name (dir_slot (demo_fs (\<lambda>_. 7)) 261 k) \<noteq> name_field [0x78]" if "k \<le> 2" for k
  proof -
    have "k = 0 \<or> k = 1 \<or> k = 2" using that by auto
    then show ?thesis
      using demo_slots [of "\<lambda>_. 7"] by (elim disjE) (simp_all add: slot_of_entry name_field_def, auto simp: slot_name_def dest: arg_cong [where f = hd])
  qed
  moreover have "i_cnt (inode_table (demo_fs (\<lambda>_. 7)) (root_inode (demo_fs (\<lambda>_. 7)))) \<noteq> 0"
    by (simp add: demo_fs_def demo_root_def)
  moreover have "dir_slot (demo_fs (\<lambda>_. 7)) 261 (slot_for (demo_fs (\<lambda>_. 7)) 261 2) = replicate 16 0"
    by (simp add: demo_slot_for demo_slots)
  ultimately show ?thesis
    using create_then_search [OF demo_mounted demo_room demo_dir_at, of "\<lambda>_. 7" "[0x2F, 0x78]" "[0x78]"] by (simp add: base_name_def)
qed

end
