(* ===== verification/Fs_Rdwt.thy ===== *)
theory Fs_Rdwt
  imports Fs
begin

text \<open>
  Reading and writing open files, \<^verbatim>\<open>fs/read_write.c\<close>. A file descriptor of the calling process is an index
  into \<^verbatim>\<open>f_desc_table\<close>, whose entry leads to the inode in the cache. Special files pass the
  request on to the terminal task; regular files are read and written through \<^verbatim>\<open>fsbuf\<close> in runs of
  whole sectors.
\<close>

section \<open>Operations\<close>

abbreviation (input) NR_FILES :: int where "NR_FILES \<equiv> 64"
abbreviation (input) FSBUF_SIZE :: int where "FSBUF_SIZE \<equiv> 0x100000"

definition caller_filp :: "nat \<Rightarrow> int \<Rightarrow> fs \<Rightarrow> nat option result" where
  "caller_filp ln fd f =
     (if 0 \<le> fd \<and> fd < NR_FILES then Inr (filp (proc_table (hks (drv f)) (pcaller f)) (nat fd)) else Inl (OutOfBounds ln))"

text \<open>A special file: the request is sent to the driver and its answer takes the place of \<^verbatim>\<open>fs_msg\<close>.\<close>

definition rdwt_special :: "nat \<Rightarrow> fs \<Rightarrow> (int \<times> fs) result" where
  "rdwt_special p f =
     (let m = fs_msg f; dev = sint (i_start_sect (inode_table f p));
          t = (if msg_type m = READ then DEV_READ else DEV_WRITE)
      in check 41 (MAJOR dev = 4)
         (bindE (driver_call 48 dev (m\<lparr>msg_type := t, m3i4 := word_of_int (MINOR dev), m3i3 := source m\<rparr>) f) (\<lambda>(r, f).
            check 50 (CNT r = CNT m) (Inr (sint (CNT r), f\<lparr>fs_msg := r\<rparr>)))))"

text \<open>The loop over the sectors. \<^verbatim>\<open>bytes\<close> is a length for \<^verbatim>\<open>phys_copy\<close>, which counts it down as an unsigned
  number.\<close>

function rdwt_loop :: "nat \<Rightarrow> nat \<Rightarrow> int \<Rightarrow> int \<Rightarrow> int \<Rightarrow> int \<Rightarrow> int \<Rightarrow> int \<Rightarrow> fs \<Rightarrow> (int \<times> fs) result" where
  "rdwt_loop d p rw_sect_max chunk i off bytes_rw bytes_left f =
     (if \<not> i \<le> rw_sect_max then Inr (bytes_rw, f)
      else if chunk \<le> 0 then Inl (Hang 74)
      else let m = fs_msg f; src = sint (source m); dev = i_dev (inode_table f p);
               bytes = min bytes_left (chunk * SECTOR_SIZE - off);
               n = unat (word_of_int bytes :: u32)
           in bindE (rw_sector DEV_READ dev (word_of_int (i * SECTOR_SIZE)) (word_of_int (chunk * SECTOR_SIZE)) TASK_FS fsbuf f) (\<lambda>f.
              bindE (va2la_pid 80 (hks (drv f)) src (BUF m + word_of_int bytes_rw)) (\<lambda>ubuf.
              bindE (va2la_pid 80 (hks (drv f)) src (fsbuf + word_of_int off)) (\<lambda>kbuf.
              bindE (if msg_type m = READ then Inr (set_fmem (memcpy (fmem f) ubuf kbuf n) f)
                     else rw_sector DEV_WRITE dev (word_of_int (i * SECTOR_SIZE)) (word_of_int (chunk * SECTOR_SIZE)) TASK_FS fsbuf
                            (set_fmem (memcpy (fmem f) kbuf ubuf n) f)) (\<lambda>f.
                rdwt_loop d p rw_sect_max chunk (i + chunk) 0 (bytes_rw + bytes) (bytes_left - bytes)
                  (upd_fd d (\<lambda>x. x\<lparr>fd_pos := fd_pos x + bytes\<rparr>) f))))))"
  by pat_completeness auto
termination
  by (relation "measure (\<lambda>(d, p, mx, chunk, i, off, rw, left, f). nat (mx - i + 1))") auto

declare rdwt_loop.simps [simp del]

definition rdwt_regular :: "nat \<Rightarrow> nat \<Rightarrow> fs \<Rightarrow> (int \<times> fs) result" where
  "rdwt_regular d p f =
     (let m = fs_msg f; len = sint (CNT m); pos = fd_pos (f_desc_table f d); x = inode_table f p;
          pos_end = sint (min (word_of_int (pos + len)) (if msg_type m = READ then i_size x else i_nr_sects x * SECTOR_SIZE));
          off = pos smod SECTOR_SIZE;
          rw_sect_min = sint (i_start_sect x + word_of_int (pos div 2 ^ 9));
          rw_sect_max = sint (i_start_sect x + word_of_int (pos_end div 2 ^ 9));
          chunk = min (rw_sect_max - rw_sect_min + 1) (FSBUF_SIZE div 2 ^ 9)
      in bindE (rdwt_loop d p rw_sect_max chunk rw_sect_min off 0 len f) (\<lambda>(bytes_rw, f).
           if (word_of_int (fd_pos (f_desc_table f d)) :: u32) > i_size (inode_table f p) then
             bindE (sync_inode p (upd_inode p (\<lambda>x. x\<lparr>i_size := word_of_int (fd_pos (f_desc_table f d))\<rparr>) f)) (\<lambda>f. Inr (bytes_rw, f))
           else Inr (bytes_rw, f)))"

definition do_rdwt :: "fs \<Rightarrow> (int \<times> fs) result" where
  "do_rdwt f =
     bindE (caller_filp 21 (sint (FD (fs_msg f))) f) (\<lambda>r.
       case r of
         None \<Rightarrow> Inl (Assert 21)
       | Some d \<Rightarrow>
           check 21 (d < NR_FILE_DESC)
           (if fd_mode (f_desc_table f d) AND O_RDWR = 0 then Inr (- 1, f)
            else case fd_inode (f_desc_table f d) of
              None \<Rightarrow> Inl (Assert 32)
            | Some p \<Rightarrow>
                check 32 (p < NR_INODE)
                (if i_mode (inode_table f p) AND I_TYPE_MASK = I_CHAR_SPECIAL then rdwt_special p f
                 else checks [(55, i_mode (inode_table f p) = I_REGULAR \<or> i_mode (inode_table f p) = I_DIRECTORY),
                              (56, msg_type (fs_msg f) = READ \<or> msg_type (fs_msg f) = WRITE)]
                      (rdwt_regular d p f))))"

section \<open>Runs of sectors\<close>

definition fs_run :: "fs \<Rightarrow> nat \<Rightarrow> nat \<Rightarrow> u8 list" where
  "fs_run f n c = concat (map (fs_sect f) [n..<n + c])"

lemma fs_sect_length: "fs_ok f \<Longrightarrow> length (fs_sect f n) = SECTOR_SIZE"
  by (simp add: fs_ok_def disk_ok_def fs_sect_def)

lemma fs_run_Suc: "fs_run f n (Suc c) = fs_run f n c @ fs_sect f (n + c)"
  by (simp add: fs_run_def)

lemma length_fs_run: "fs_ok f \<Longrightarrow> length (fs_run f n c) = SECTOR_SIZE * c"
proof (induction c)
  case 0
  then show ?case by (simp add: fs_run_def)
next
  case (Suc c)
  then show ?case by (simp add: fs_run_Suc fs_sect_length)
qed

lemma nth_fs_run:
  assumes "fs_ok f" "k < SECTOR_SIZE * c"
  shows "fs_run f n c ! k = fs_sect f (n + k div SECTOR_SIZE) ! (k mod SECTOR_SIZE)"
  using assms(2)
proof (induction c)
  case (Suc c)
  show ?case
  proof (cases "k < SECTOR_SIZE * c")
    case True
    then show ?thesis using Suc.IH length_fs_run [OF assms(1)] by (simp add: fs_run_Suc nth_append)
  next
    case False
    then have "k div SECTOR_SIZE = c" using Suc.prems by (intro div_nat_eqI) simp_all
    moreover from this have "k mod SECTOR_SIZE = k - SECTOR_SIZE * c" using minus_mult_div_eq_mod [of k SECTOR_SIZE] by simp
    ultimately show ?thesis using False length_fs_run [OF assms(1)] by (simp add: fs_run_Suc nth_append)
  qed
qed simp

text \<open>The transfer of up to 256 sectors between the root device and the buffer.\<close>

lemma root_run_request:
  assumes "fs_ok f" "0 < c" "c \<le> 256" "n + c \<le> sect_limit"
  shows "sector_request (reset_msg\<lparr>msg_type := io, m3i4 := 0x20, m3l1 := ucast (of_nat (SECTOR_SIZE * n) :: u32), m3p2 := fsbuf,
    m3i2 := of_nat (SECTOR_SIZE * c), m3i3 := TASK_FS, source := TASK_FS\<rparr>) (drv f) n c (fs_base f) fsbuf"
proof -
  have eq: "(of_nat (SECTOR_SIZE * n) :: u32) = of_nat n * SECTOR_SIZE" by (simp add: mult.commute)
  have "ucast (of_nat (SECTOR_SIZE * n) :: u32) = (of_nat (SECTOR_SIZE * n) :: u64)"
    unfolding eq by (rule sector_position) (use assms(2, 4) in simp)
  moreover have "(SECTOR_SIZE * c + 511) div SECTOR_SIZE = c" by simp
  ultimately show ?thesis
    using assms root_part
    by (simp add: sector_request_def byte_request_def reset_msg_def fs_ok_def fs_base_def va2la_def del: of_nat_mult)
qed

definition same_but_disk :: "fs \<Rightarrow> fs \<Rightarrow> bool" where
  "same_but_disk f g \<longleftrightarrow> g = f\<lparr>drv := (drv f)\<lparr>disk := disk (drv g), hks := (hks (drv f))\<lparr>kmem := fmem g\<rparr>\<rparr>\<rparr>"

lemma read_run:
  assumes "fs_ok f" "0 < c" "c \<le> 256" "n + c \<le> sect_limit"
  shows "\<exists>g. rw_sector DEV_READ ROOT_DEV (of_nat (SECTOR_SIZE * n)) (of_nat (SECTOR_SIZE * c)) TASK_FS fsbuf f = Inr g \<and>
    fs_ok g \<and> fs_sect g = fs_sect f \<and> fmem g = store_bytes (fmem f) fsbuf (fs_run f n c) \<and> same_but_disk f g"
proof -
  have run: "concat (map (sectors (disk (drv f))) [unat (fs_base f) + n..<unat (fs_base f) + n + c]) = fs_run f n c"
    unfolding fs_run_def fs_sect_def by (induction c) (simp_all add: add.assoc)
  show ?thesis
    unfolding rw_sector_root
    using hd_rdwt_read [OF root_run_request [OF assms]] assms(1) run
    by (auto simp: task_hd_msg_def fs_ok_def disk_ok_def reset_msg_def fs_sect_def fmem_def fs_base_def fun_eq_iff same_but_disk_def)
qed

lemma write_run:
  assumes "fs_ok f" "0 < c" "c \<le> 256" "n + c \<le> sect_limit"
  shows "\<exists>g. rw_sector DEV_WRITE ROOT_DEV (of_nat (SECTOR_SIZE * n)) (of_nat (SECTOR_SIZE * c)) TASK_FS fsbuf f = Inr g \<and>
    fs_ok g \<and> fmem g = fmem f \<and> same_but_disk f g \<and>
    (\<forall>x. fs_sect g x = (if n \<le> x \<and> x < n + c then load_bytes (fmem f) (fsbuf + of_nat (SECTOR_SIZE * (x - n))) SECTOR_SIZE else fs_sect f x))"
  unfolding rw_sector_root
  using hd_rdwt_write [OF root_run_request [OF assms]] assms(1)
  by (auto simp: task_hd_msg_def fs_ok_def disk_ok_def reset_msg_def fs_sect_def fmem_def fs_base_def fun_eq_iff same_but_disk_def
      simp del: of_nat_mult)

section \<open>One transfer\<close>

text \<open>The process that asked has flat segments, so that its addresses are those of the kernel.\<close>

definition flat_source :: "fs \<Rightarrow> bool" where
  "flat_source f \<longleftrightarrow> 0 \<le> sint (source (fs_msg f)) \<and> sint (source (fs_msg f)) < nr_slots \<and>
     ldt_seg_linear (proc_table (hks (drv f)) (nat (sint (source (fs_msg f))))) INDEX_LDT_RW = 0"

lemma same_but_disk_sel:
  assumes "same_but_disk f g"
  shows "inode_table g = inode_table f" "f_desc_table g = f_desc_table f" "super_blocks g = super_blocks f"
    "root_inode g = root_inode f" "fs_msg g = fs_msg f" "pcaller g = pcaller f"
    "proc_table (hks (drv g)) = proc_table (hks (drv f))" "hdi (drv g) = hdi (drv f)" "tt g = tt f"
  using assms by (subst assms [unfolded same_but_disk_def], simp)+

lemma same_but_diskI: "g = f\<lparr>drv := (drv f)\<lparr>disk := a, hks := (hks (drv f))\<lparr>kmem := b\<rparr>\<rparr>\<rparr> \<Longrightarrow> same_but_disk f g"
  by (simp add: same_but_disk_def fmem_def)

lemma same_but_disk_trans:
  assumes "same_but_disk f g" "same_but_disk g h"
  shows "same_but_disk f h"
proof -
  obtain a b where g: "g = f\<lparr>drv := (drv f)\<lparr>disk := a, hks := (hks (drv f))\<lparr>kmem := b\<rparr>\<rparr>\<rparr>"
    using assms(1) unfolding same_but_disk_def by blast
  obtain a' b' where h: "h = g\<lparr>drv := (drv g)\<lparr>disk := a', hks := (hks (drv g))\<lparr>kmem := b'\<rparr>\<rparr>\<rparr>"
    using assms(2) unfolding same_but_disk_def by blast
  show ?thesis by (rule same_but_diskI [where a = a' and b = b']) (simp add: g h)
qed

lemma same_but_disk_set_fmem: "same_but_disk f (set_fmem h f)"
  by (simp add: same_but_disk_def set_fmem_def fmem_def)

lemma flat_va2la_pid:
  assumes "flat_source f" "same_but_disk f g"
  shows "va2la_pid ln (hks (drv g)) (sint (source (fs_msg f))) a = Inr a"
  using assms same_but_disk_sel(7) [OF assms(2)] by (simp add: flat_source_def va2la_pid_def va2la_def)

lemma transfer_words:
  assumes "n \<le> 131072"
  shows "unat (of_nat n :: u32) = n" "of_nat x * SECTOR_SIZE = (SECTOR_SIZE * of_nat x :: u32)"
  using assms by (simp_all add: unat_of_nat_u32 mult.commute)

lemma rdwt_loop_read:
  assumes "fs_ok f" "i_dev (inode_table f p) = ROOT_DEV" "0 < c" "c \<le> 256" "x + c \<le> sect_limit" "off < SECTOR_SIZE" "flat_source f"
    "msg_type (fs_msg f) = READ" "n = min len (SECTOR_SIZE * c - off)"
  shows "\<exists>g. rdwt_loop d p (int (x + c) - 1) (int c) (int x) (int off) 0 (int len) f = Inr (int n, upd_fd d (\<lambda>y. y\<lparr>fd_pos := fd_pos y + int n\<rparr>) g) \<and>
    fs_ok g \<and> fs_sect g = fs_sect f \<and> same_but_disk f g \<and>
    fmem g = memcpy (store_bytes (fmem f) fsbuf (fs_run f x c)) (BUF (fs_msg f)) (fsbuf + of_nat off) n"
proof -
  obtain g where g: "rw_sector DEV_READ ROOT_DEV (of_nat (SECTOR_SIZE * x)) (of_nat (SECTOR_SIZE * c)) TASK_FS fsbuf f = Inr g"
    "fs_ok g" "fs_sect g = fs_sect f" "fmem g = store_bytes (fmem f) fsbuf (fs_run f x c)" "same_but_disk f g"
    using read_run [OF assms(1, 3 - 5)] by blast
  let ?g = "set_fmem (memcpy (fmem g) (BUF (fs_msg f)) (fsbuf + of_nat off) n) g"
  have "n \<le> 131072" using assms(4, 9) by simp
  note words = transfer_words [OF this]
  have n: "min (int len) (int c * SECTOR_SIZE - int off) = int n" using assms(3, 6, 9) by (simp add: of_nat_min [symmetric] of_nat_diff)
  have "rdwt_loop d p (int (x + c) - 1) (int c) (int x) (int off) 0 (int len) f =
      rdwt_loop d p (int (x + c) - 1) (int c) (int x + int c) 0 (int n) (int len - int n) (upd_fd d (\<lambda>y. y\<lparr>fd_pos := fd_pos y + int n\<rparr>) ?g)"
    using assms(2, 3, 8) g(1) flat_va2la_pid [OF assms(7) g(5)]
    by (subst rdwt_loop.simps) (simp add: Let_def words n)
  also have "\<dots> = Inr (int n, upd_fd d (\<lambda>y. y\<lparr>fd_pos := fd_pos y + int n\<rparr>) ?g)"
    by (subst rdwt_loop.simps) simp
  finally show ?thesis
    using g(2 - 4) same_but_disk_trans [OF g(5) same_but_disk_set_fmem] by (intro exI [of _ ?g]) simp
qed

lemma rdwt_loop_write:
  assumes "fs_ok f" "i_dev (inode_table f p) = ROOT_DEV" "0 < c" "c \<le> 256" "x + c \<le> sect_limit" "off < SECTOR_SIZE" "flat_source f"
    "msg_type (fs_msg f) = WRITE" "n = min len (SECTOR_SIZE * c - off)"
  shows "\<exists>g. rdwt_loop d p (int (x + c) - 1) (int c) (int x) (int off) 0 (int len) f = Inr (int n, upd_fd d (\<lambda>y. y\<lparr>fd_pos := fd_pos y + int n\<rparr>) g) \<and>
    fs_ok g \<and> same_but_disk f g \<and>
    fmem g = memcpy (store_bytes (fmem f) fsbuf (fs_run f x c)) (fsbuf + of_nat off) (BUF (fs_msg f)) n \<and>
    (\<forall>y. fs_sect g y = (if x \<le> y \<and> y < x + c then load_bytes (fmem g) (fsbuf + of_nat (SECTOR_SIZE * (y - x))) SECTOR_SIZE else fs_sect f y))"
proof -
  obtain g where g: "rw_sector DEV_READ ROOT_DEV (of_nat (SECTOR_SIZE * x)) (of_nat (SECTOR_SIZE * c)) TASK_FS fsbuf f = Inr g"
    "fs_ok g" "fs_sect g = fs_sect f" "fmem g = store_bytes (fmem f) fsbuf (fs_run f x c)" "same_but_disk f g"
    using read_run [OF assms(1, 3 - 5)] by blast
  let ?h = "memcpy (fmem g) (fsbuf + of_nat off) (BUF (fs_msg f)) n"
  let ?g = "set_fmem ?h g"
  have "fs_ok ?g" using g(2) by simp
  from write_run [OF this assms(3 - 5)] obtain k where
    k: "rw_sector DEV_WRITE ROOT_DEV (of_nat (SECTOR_SIZE * x)) (of_nat (SECTOR_SIZE * c)) TASK_FS fsbuf ?g = Inr k" "fs_ok k" "fmem k = ?h" "same_but_disk ?g k"
    "\<forall>y. fs_sect k y = (if x \<le> y \<and> y < x + c then load_bytes ?h (fsbuf + of_nat (SECTOR_SIZE * (y - x))) SECTOR_SIZE else fs_sect f y)"
    using g(3) by auto
  have "n \<le> 131072" using assms(4, 9) by simp
  note words = transfer_words [OF this]
  have n: "min (int len) (int c * SECTOR_SIZE - int off) = int n" using assms(3, 6, 9) by (simp add: of_nat_min [symmetric] of_nat_diff)
  have "rdwt_loop d p (int (x + c) - 1) (int c) (int x) (int off) 0 (int len) f =
      rdwt_loop d p (int (x + c) - 1) (int c) (int x + int c) 0 (int n) (int len - int n) (upd_fd d (\<lambda>y. y\<lparr>fd_pos := fd_pos y + int n\<rparr>) k)"
    using assms(2, 3, 8) g(1) k(1) flat_va2la_pid [OF assms(7) g(5)]
    by (subst rdwt_loop.simps) (simp add: Let_def words n)
  also have "\<dots> = Inr (int n, upd_fd d (\<lambda>y. y\<lparr>fd_pos := fd_pos y + int n\<rparr>) k)"
    by (subst rdwt_loop.simps) simp
  finally show ?thesis
    using k(2, 3, 5) g(4) same_but_disk_trans [OF same_but_disk_trans [OF g(5) same_but_disk_set_fmem] k(4)] by (intro exI [of _ k]) simp
qed

section \<open>The contents of a file\<close>

text \<open>The byte at offset \<open>k\<close> of the file whose data begins in sector \<open>st\<close>.\<close>

definition content :: "fs \<Rightarrow> nat \<Rightarrow> nat \<Rightarrow> u8" where
  "content f st k = fs_sect f (st + k div SECTOR_SIZE) ! (k mod SECTOR_SIZE)"

lemma sector_split:
  fixes pos b off i :: nat
  assumes "b = pos div SECTOR_SIZE" "off = pos mod SECTOR_SIZE"
  shows "(pos + i) div SECTOR_SIZE = b + (off + i) div SECTOR_SIZE" "(pos + i) mod SECTOR_SIZE = (off + i) mod SECTOR_SIZE"
proof -
  have eq: "pos + i = SECTOR_SIZE * b + (off + i)" using assms by (simp add: add.assoc [symmetric])
  show "(pos + i) div SECTOR_SIZE = b + (off + i) div SECTOR_SIZE" "(pos + i) mod SECTOR_SIZE = (off + i) mod SECTOR_SIZE"
    unfolding eq by (simp_all only: div_mult_self4 mod_mult_self4 numeral_neq_zero)
qed

lemma run_content:
  assumes "fs_ok f" "pos mod SECTOR_SIZE + n \<le> SECTOR_SIZE * c"
  shows "take n (drop (pos mod SECTOR_SIZE) (fs_run f (st + pos div SECTOR_SIZE) c)) = map (content f st) [pos..<pos + n]"
proof (rule nth_equalityI)
  fix i
  assume "i < length (take n (drop (pos mod SECTOR_SIZE) (fs_run f (st + pos div SECTOR_SIZE) c)))"
  then have i: "i < n" by simp
  then have "take n (drop (pos mod SECTOR_SIZE) (fs_run f (st + pos div SECTOR_SIZE) c)) ! i = fs_run f (st + pos div SECTOR_SIZE) c ! (pos mod SECTOR_SIZE + i)"
    using assms(2) length_fs_run [OF assms(1)] by simp
  also have "\<dots> = content f st (pos + i)"
    using assms(2) i sector_split [of _ pos _ i, OF refl refl]
    by (subst nth_fs_run [OF assms(1)]) (simp_all add: content_def add.assoc)
  finally show "take n (drop (pos mod SECTOR_SIZE) (fs_run f (st + pos div SECTOR_SIZE) c)) ! i = map (content f st) [pos..<pos + n] ! i"
    using i by simp
qed (use assms(2) length_fs_run [OF assms(1)] in simp)

lemma memcpy_store_bytes:
  assumes "region dst n \<inter> region src n = {}" "n < 2 ^ 32"
  shows "memcpy h dst src n = store_bytes h dst (load_bytes h src n)"
proof
  fix a
  show "memcpy h dst src n a = store_bytes h dst (load_bytes h src n) a"
  proof (cases "a \<in> region dst n")
    case True
    then obtain k where "k < n" "a = dst + of_nat k" by (auto simp: region_def)
    then show ?thesis
      using memcpy_copies [OF assms, of k h] store_bytes_stores [where k = k and bs = "load_bytes h src n"] assms(2) by (simp add: load_bytes_def)
  next
    case False
    then show ?thesis by (simp add: memcpy_frame store_bytes_frame)
  qed
qed

lemma region_sub: "off + n \<le> m \<Longrightarrow> region (a + of_nat off) n \<subseteq> region a m"
proof
  fix x
  assume "off + n \<le> m" "x \<in> region (a + of_nat off) n"
  then obtain k where "k < n" "x = a + of_nat (off + k)" by (auto elim: region_offset)
  with \<open>off + n \<le> m\<close> show "x \<in> region a m" using region_memI [of "off + k" m a] by simp
qed

text \<open>Reading: the bytes copied out of the buffer.\<close>

lemma read_buffer:
  assumes "fs_ok f" "pos mod SECTOR_SIZE + n \<le> SECTOR_SIZE * c" "c \<le> 256" "region ubuf n \<inter> region fsbuf (SECTOR_SIZE * c) = {}"
  shows "load_bytes (memcpy (store_bytes h fsbuf (fs_run f (st + pos div SECTOR_SIZE) c)) ubuf (fsbuf + of_nat (pos mod SECTOR_SIZE)) n) ubuf n =
    map (content f st) [pos..<pos + n]"
proof -
  let ?run = "fs_run f (st + pos div SECTOR_SIZE) c" and ?off = "pos mod SECTOR_SIZE"
  have len: "length ?run = SECTOR_SIZE * c" by (rule length_fs_run [OF assms(1)])
  have "region ubuf n \<inter> region (fsbuf + of_nat ?off) n = {}" using assms(4) region_sub [OF assms(2), of fsbuf] by blast
  then have "load_bytes (memcpy (store_bytes h fsbuf ?run) ubuf (fsbuf + of_nat ?off) n) ubuf n = load_bytes (store_bytes h fsbuf ?run) (fsbuf + of_nat ?off) n"
    using assms(2, 3) by (intro load_bytes_memcpy) simp_all
  also have "\<dots> = take n (drop ?off (load_bytes (store_bytes h fsbuf ?run) fsbuf (SECTOR_SIZE * c)))"
    by (rule load_bytes_drop [OF assms(2)])
  also have "load_bytes (store_bytes h fsbuf ?run) fsbuf (SECTOR_SIZE * c) = ?run"
    using load_store_bytes [of ?run h fsbuf] len assms(3) by simp
  finally show ?thesis using run_content [OF assms(1, 2)] by simp
qed

text \<open>Writing: the buffer that goes back to disk.\<close>

lemma write_buffer:
  assumes "fs_ok f" "off + n \<le> SECTOR_SIZE * c" "c \<le> 256" "region ubuf n \<inter> region fsbuf (SECTOR_SIZE * c) = {}"
  shows "load_bytes (memcpy (store_bytes h fsbuf (fs_run f x c)) (fsbuf + of_nat off) ubuf n) fsbuf (SECTOR_SIZE * c) =
    splice off (load_bytes h ubuf n) (fs_run f x c)"
proof -
  let ?run = "fs_run f x c"
  have len: "length ?run = SECTOR_SIZE * c" by (rule length_fs_run [OF assms(1)])
  have dis: "region (fsbuf + of_nat off) n \<inter> region ubuf n = {}" using assms(4) region_sub [OF assms(2), of fsbuf] by blast
  have "load_bytes (store_bytes h fsbuf ?run) ubuf n = load_bytes h ubuf n"
    using assms(4) len by (intro load_bytes_store_frame) simp
  then have "memcpy (store_bytes h fsbuf ?run) (fsbuf + of_nat off) ubuf n = store_bytes (store_bytes h fsbuf ?run) (fsbuf + of_nat off) (load_bytes h ubuf n)"
    using memcpy_store_bytes [OF dis] assms(2, 3) by simp
  then show ?thesis
    using load_store_splice [of off "load_bytes h ubuf n" "SECTOR_SIZE * c" "store_bytes h fsbuf ?run" fsbuf] load_store_bytes [of ?run h fsbuf]
      len assms(2, 3) by simp
qed

section \<open>Requests\<close>

text \<open>The descriptor of the request leads to an open regular file.\<close>

definition serves :: "fs \<Rightarrow> nat \<Rightarrow> nat \<Rightarrow> bool" where
  "serves f d p \<longleftrightarrow> (\<exists>fd<64. FD (fs_msg f) = of_nat fd \<and> filp (proc_table (hks (drv f)) (pcaller f)) fd = Some d) \<and> d < NR_FILE_DESC \<and>
     fd_mode (f_desc_table f d) AND O_RDWR \<noteq> 0 \<and> fd_inode (f_desc_table f d) = Some p \<and> p < NR_INODE \<and> i_mode (inode_table f p) = I_REGULAR"

lemma do_rdwt_serves:
  assumes "serves f d p" "msg_type (fs_msg f) = READ \<or> msg_type (fs_msg f) = WRITE"
  shows "do_rdwt f = rdwt_regular d p f"
proof -
  obtain fd where "fd < 64" "FD (fs_msg f) = of_nat fd" "filp (proc_table (hks (drv f)) (pcaller f)) fd = Some d"
    using assms(1) by (auto simp: serves_def)
  moreover from this have "sint (FD (fs_msg f)) = int fd" by (simp add: sint_of_nat_small)
  ultimately show ?thesis
    using assms by (auto simp: do_rdwt_def caller_filp_def serves_def)
qed

text \<open>A transfer of \<open>len\<close> bytes at \<open>pos\<close> of a file that begins in sector \<open>st\<close>; it ends at \<open>e\<close>, at most 255
  sectors further on.\<close>

definition transfer :: "fs \<Rightarrow> nat \<Rightarrow> nat \<Rightarrow> nat \<Rightarrow> nat \<Rightarrow> nat \<Rightarrow> nat \<Rightarrow> bool" where
  "transfer f d p st pos len e \<longleftrightarrow>
     mounted f \<and> flat_source f \<and> CNT (fs_msg f) = of_nat len \<and> fd_pos (f_desc_table f d) = int pos \<and>
     i_dev (inode_table f p) = ROOT_DEV \<and> i_start_sect (inode_table f p) = of_nat st \<and>
     unat (n_1st_sect (sb0 f)) \<le> st \<and> pos \<le> e \<and> pos + len < 2 ^ 31 \<and> e \<le> pos + len \<and> e div SECTOR_SIZE < pos div SECTOR_SIZE + 256 \<and>
     st + e div SECTOR_SIZE + 1 \<le> sect_limit"

definition run_len :: "nat \<Rightarrow> nat \<Rightarrow> nat" where
  "run_len pos e = e div SECTOR_SIZE - pos div SECTOR_SIZE + 1"

lemma unat_min: "unat (min a b) = min (unat a) (unat (b :: u32))"
  by (simp add: min_def word_le_nat_alt)

lemma rdwt_regular_once:
  assumes "transfer f d p st pos len e"
    "e = min (pos + len) (unat (if msg_type (fs_msg f) = READ then i_size (inode_table f p) else i_nr_sects (inode_table f p) * SECTOR_SIZE))"
  shows "rdwt_regular d p f =
    bindE (rdwt_loop d p (int (st + pos div SECTOR_SIZE + run_len pos e) - 1) (int (run_len pos e)) (int (st + pos div SECTOR_SIZE)) (int (pos mod SECTOR_SIZE)) 0 (int len) f)
      (\<lambda>(bytes_rw, f). if (word_of_int (fd_pos (f_desc_table f d)) :: u32) > i_size (inode_table f p) then
             bindE (sync_inode p (upd_inode p (\<lambda>x. x\<lparr>i_size := word_of_int (fd_pos (f_desc_table f d))\<rparr>) f)) (\<lambda>f. Inr (bytes_rw, f))
           else Inr (bytes_rw, f))"
proof -
  let ?lim = "if msg_type (fs_msg f) = READ then i_size (inode_table f p) else i_nr_sects (inode_table f p) * SECTOR_SIZE"
  from assms(1) have t: "CNT (fs_msg f) = of_nat len" "fd_pos (f_desc_table f d) = int pos" "i_start_sect (inode_table f p) = of_nat st"
    "pos \<le> e" "pos + len < 2 ^ 31" "e div SECTOR_SIZE < pos div SECTOR_SIZE + 256" "st + e div SECTOR_SIZE + 1 \<le> sect_limit" "e \<le> pos + len"
    by (simp_all add: transfer_def)
  have len: "sint (CNT (fs_msg f)) = int len" unfolding t(1) using t(5) by (intro sint_of_nat_small) simp
  have low: "unat (min (of_nat (pos + len)) ?lim) = e"
    unfolding unat_min using t(5) assms(2) by (simp add: unat_of_nat_u32 del: of_nat_add)
  have "min (of_nat (pos + len)) ?lim = of_nat e" unfolding low [symmetric] by simp
  moreover have "sint (of_nat e :: u32) = int e" using t(5, 8) by (intro sint_of_nat_small) simp
  ultimately have pos_end: "sint (min (word_of_int (int pos + int len)) ?lim) = int e" by (simp flip: of_nat_add)
  have sect: "sint (of_nat st + word_of_int (int k div 2 ^ 9) :: u32) = int (st + k div SECTOR_SIZE)" if "st + k div SECTOR_SIZE < sect_limit" for k
  proof -
    have "int k div 2 ^ 9 = int (k div SECTOR_SIZE)" by (simp add: zdiv_int)
    then have "of_nat st + word_of_int (int k div 2 ^ 9) = (of_nat (st + k div SECTOR_SIZE) :: u32)" by simp
    then show ?thesis using that sint_of_nat_small [of "st + k div SECTOR_SIZE"] by simp
  qed
  have le: "pos div SECTOR_SIZE \<le> e div SECTOR_SIZE" using t(4) by (rule div_le_mono)
  have off: "int pos smod SECTOR_SIZE = int (pos mod SECTOR_SIZE)"
    by (simp add: signed_modulo_int_def sgn_if zmod_int)
  have chunk: "min (int (st + e div SECTOR_SIZE) - int (st + pos div SECTOR_SIZE) + 1) (FSBUF_SIZE div 2 ^ 9) = int (run_len pos e)"
    using le t(6) by (simp add: run_len_def of_nat_diff)
  have last: "int (st + e div SECTOR_SIZE) = int (st + pos div SECTOR_SIZE + run_len pos e) - 1"
    using le by (simp add: run_len_def)
  have s1: "st + pos div SECTOR_SIZE < sect_limit" and s2: "st + e div SECTOR_SIZE < sect_limit" using t(7) le by simp_all
  show ?thesis
    unfolding rdwt_regular_def Let_def t(2, 3) len pos_end sect [OF s1] sect [OF s2] off chunk unfolding last ..
qed

text \<open>After the loop the size is raised to the position of the descriptor if that is larger.\<close>

lemma settle_size:
  fixes g :: fs and w :: u32
  assumes "mounted g" "i_dev (inode_table g p) = ROOT_DEV" "i_num (inode_table g p) = int num" "1 \<le> num" "num \<le> 4096"
  shows "\<exists>h. (if w > i_size (inode_table g p) then bindE (sync_inode p (upd_inode p (\<lambda>x. x\<lparr>i_size := w\<rparr>) g)) (\<lambda>f. Inr (r, f)) else Inr (r, g)) = Inr (r, h) \<and>
    mounted h \<and> fs_frame (upd_inode p (\<lambda>x. x\<lparr>i_size := max (i_size x) w\<rparr>) g) h \<and>
    (\<forall>m\<ge>1. disk_inode h m = (if m = num \<and> i_size (inode_table g p) < w then (inode_table g p)\<lparr>i_size := w, i_cnt := 1\<rparr> else disk_inode g m)) \<and>
    (\<forall>y. unat (n_1st_sect (sb0 g)) \<le> y \<longrightarrow> fs_sect h y = fs_sect g y)"
proof (cases "w > i_size (inode_table g p)")
  case True
  let ?g = "upd_inode p (\<lambda>x. x\<lparr>i_size := w\<rparr>) g"
  have same: "upd_inode p (\<lambda>x. x\<lparr>i_size := max (i_size x) w\<rparr>) g = ?g" using True by (simp add: upd_inode_def max_def)
  have "mounted ?g" "i_dev (inode_table ?g p) = ROOT_DEV" "i_num (inode_table ?g p) = int num" using assms by simp_all
  from sync_inode_disk [OF this assms(4, 5)] obtain h where
    "sync_inode p ?g = Inr h" "mounted h" "fs_frame ?g h" "\<forall>y. y \<noteq> inode_sect ?g num \<longrightarrow> fs_sect h y = fs_sect g y"
    "\<forall>m\<ge>1. disk_inode h m = (if m = num then (inode_table g p)\<lparr>i_size := w, i_cnt := 1\<rparr> else disk_inode g m)" by auto
  moreover have "inode_sect ?g num < unat (n_1st_sect (sb0 g))" using inode_sect_less [OF \<open>mounted ?g\<close> assms(4, 5)] by simp
  ultimately show ?thesis unfolding same using True by auto
next
  case False
  then have same: "upd_inode p (\<lambda>x. x\<lparr>i_size := max (i_size x) w\<rparr>) g = g"
    by (cases g) (simp add: upd_inode_def max_def fun_upd_idem not_less)
  show ?thesis unfolding same using False assms(1) by auto
qed

lemma same_but_disk_mounted: "same_but_disk f g \<Longrightarrow> mounted f \<Longrightarrow> fs_ok g \<Longrightarrow> mounted g"
  using same_but_disk_sel(3) [of f g] by (simp add: mounted_def sb0_def)

lemma upd_fd_sel [simp]:
  "inode_table (upd_fd d c f) = inode_table f" "f_desc_table (upd_fd d c f) = (f_desc_table f)(d := c (f_desc_table f d))"
  "super_blocks (upd_fd d c f) = super_blocks f" "root_inode (upd_fd d c f) = root_inode f" "drv (upd_fd d c f) = drv f"
  "fs_msg (upd_fd d c f) = fs_msg f" "pcaller (upd_fd d c f) = pcaller f" "tt (upd_fd d c f) = tt f"
  by (simp_all add: upd_fd_def)

lemma upd_fd_views [simp]:
  "fmem (upd_fd d c f) = fmem f" "fs_sect (upd_fd d c f) = fs_sect f" "sb0 (upd_fd d c f) = sb0 f" "fs_ok (upd_fd d c f) = fs_ok f"
  "mounted (upd_fd d c f) = mounted f" "disk_inode (upd_fd d c f) = disk_inode f" "find_inode dev num (upd_fd d c f) = find_inode dev num f"
  by (simp_all add: fmem_def fs_sect_def sb0_def fs_base_def fs_ok_def mounted_def disk_inode_def inode_sect_def find_inode_def fun_eq_iff)

text \<open>A cached inode of the root device.\<close>

definition root_file :: "inode \<Rightarrow> bool" where
  "root_file x \<longleftrightarrow> i_dev x = ROOT_DEV \<and> 1 \<le> i_num x \<and> i_num x \<le> 4096"

text \<open>The tables after a transfer of \<open>n\<close> bytes: the position has moved on, and the size is at least that position, on
  disk too.\<close>

definition moved :: "fs \<Rightarrow> nat \<Rightarrow> nat \<Rightarrow> nat \<Rightarrow> fs \<Rightarrow> bool" where
  "moved f d p n g \<longleftrightarrow> mounted g \<and> super_blocks g = super_blocks f \<and> root_inode g = root_inode f \<and> pcaller g = pcaller f \<and> fs_msg g = fs_msg f \<and>
     proc_table (hks (drv g)) = proc_table (hks (drv f)) \<and>
     f_desc_table g = (f_desc_table f)(d := (f_desc_table f d)\<lparr>fd_pos := fd_pos (f_desc_table f d) + int n\<rparr>) \<and>
     inode_table g = (inode_table f)(p := (inode_table f p)\<lparr>i_size := max (i_size (inode_table f p)) (word_of_int (fd_pos (f_desc_table f d) + int n))\<rparr>) \<and>
     (\<forall>m. 1 \<le> m \<and> m \<le> 4096 \<longrightarrow> disk_inode g m =
       (if int m = i_num (inode_table f p) \<and> i_size (inode_table f p) < word_of_int (fd_pos (f_desc_table f d) + int n)
        then (inode_table g p)\<lparr>i_cnt := 1\<rparr> else disk_inode f m))"

lemma rdwt_settle:
  assumes "rdwt_regular d p f = bindE (Inr (r, upd_fd d (\<lambda>y. y\<lparr>fd_pos := fd_pos y + int n\<rparr>) g))
      (\<lambda>(bytes_rw, f). if (word_of_int (fd_pos (f_desc_table f d)) :: u32) > i_size (inode_table f p) then
             bindE (sync_inode p (upd_inode p (\<lambda>x. x\<lparr>i_size := word_of_int (fd_pos (f_desc_table f d))\<rparr>) f)) (\<lambda>f. Inr (bytes_rw, f))
           else Inr (bytes_rw, f))"
    "mounted f" "root_file (inode_table f p)" "fs_ok g" "same_but_disk f g" "\<forall>y<unat (n_1st_sect (sb0 f)). fs_sect g y = fs_sect f y"
  shows "\<exists>h. rdwt_regular d p f = Inr (r, h) \<and> moved f d p n h \<and> (\<forall>y. unat (n_1st_sect (sb0 f)) \<le> y \<longrightarrow> fs_sect h y = fs_sect g y) \<and>
    (\<forall>x. x \<notin> region fsbuf SECTOR_SIZE \<longrightarrow> fmem h x = fmem g x)"
proof -
  let ?g = "upd_fd d (\<lambda>y. y\<lparr>fd_pos := fd_pos y + int n\<rparr>) g" and ?w = "word_of_int (fd_pos (f_desc_table f d) + int n) :: u32"
  note sel = same_but_disk_sel [OF assms(5)]
  obtain num where num: "1 \<le> num" "num \<le> 4096" "i_num (inode_table f p) = int num"
    using assms(3) that [of "nat (i_num (inode_table f p))"] by (auto simp: root_file_def)
  have "mounted ?g" "i_dev (inode_table ?g p) = ROOT_DEV" "i_num (inode_table ?g p) = int num"
    using same_but_disk_mounted [OF assms(5, 2, 4)] assms(3) num(3) sel by (simp_all add: root_file_def)
  from settle_size [OF this num(1, 2), of ?w r] obtain h where
    h: "(if ?w > i_size (inode_table ?g p) then bindE (sync_inode p (upd_inode p (\<lambda>x. x\<lparr>i_size := ?w\<rparr>) ?g)) (\<lambda>f. Inr (r, f)) else Inr (r, ?g)) = Inr (r, h)"
    "mounted h" "fs_frame (upd_inode p (\<lambda>x. x\<lparr>i_size := max (i_size x) ?w\<rparr>) ?g) h" "\<forall>y. unat (n_1st_sect (sb0 ?g)) \<le> y \<longrightarrow> fs_sect h y = fs_sect ?g y"
    "\<forall>m\<ge>1. disk_inode h m = (if m = num \<and> i_size (inode_table ?g p) < ?w then (inode_table ?g p)\<lparr>i_size := ?w, i_cnt := 1\<rparr> else disk_inode ?g m)"
    by blast
  note fr = fs_frame_sel [OF h(3)]
  have "fd_pos (f_desc_table ?g d) = fd_pos (f_desc_table f d) + int n" using sel(2) by simp
  then have "rdwt_regular d p f = Inr (r, h)" unfolding assms(1) bindE_Inr prod.case using h(1) by (simp only:)
  moreover have sb: "sb0 ?g = sb0 f" using sel(3) by (simp add: sb0_def)
  moreover have "disk_inode ?g m = disk_inode f m" if "1 \<le> m" "m \<le> 4096" for m
    using inode_sect_less [OF assms(2) that] assms(6) sb by (simp add: disk_inode_def inode_sect_def)
  then have "moved f d p n h" using h(2, 5) fr sel num(3) by (simp add: moved_def max_absorb2 less_imp_le)
  moreover have "fmem h x = fmem g x" if "x \<notin> region fsbuf SECTOR_SIZE" for x
    using h(3) that by (simp add: fs_frame_def)
  ultimately show ?thesis using h(4) by auto
qed

text \<open>Reading and writing a regular file. A transfer takes \<open>n\<close> bytes: all of them unless they run past the
  last sector of the run.\<close>

definition taken :: "nat \<Rightarrow> nat \<Rightarrow> nat \<Rightarrow> nat" where
  "taken pos len e = min len (SECTOR_SIZE * run_len pos e - pos mod SECTOR_SIZE)"

lemma run_len_bounds:
  assumes "transfer f d p st pos len e"
  shows "0 < run_len pos e" "run_len pos e \<le> 256" "st + pos div SECTOR_SIZE + run_len pos e \<le> sect_limit"
    "pos mod SECTOR_SIZE + taken pos len e \<le> SECTOR_SIZE * run_len pos e"
proof -
  have le: "pos div SECTOR_SIZE \<le> e div SECTOR_SIZE" using assms by (intro div_le_mono) (simp add: transfer_def)
  with assms show "0 < run_len pos e" "run_len pos e \<le> 256" "st + pos div SECTOR_SIZE + run_len pos e \<le> sect_limit"
    by (auto simp: run_len_def transfer_def)
  have "pos mod SECTOR_SIZE < SECTOR_SIZE" "SECTOR_SIZE \<le> SECTOR_SIZE * run_len pos e" by (simp_all add: run_len_def)
  then show "pos mod SECTOR_SIZE + taken pos len e \<le> SECTOR_SIZE * run_len pos e" by (simp add: taken_def)
qed

text \<open>The data of a file after a run of sectors was written back.\<close>

lemma written_content:
  assumes "fs_ok f" "load_bytes h fsbuf (SECTOR_SIZE * c) = splice (pos mod SECTOR_SIZE) data (fs_run f (st + pos div SECTOR_SIZE) c)"
    "\<forall>y. fs_sect g y = (if st + pos div SECTOR_SIZE \<le> y \<and> y < st + pos div SECTOR_SIZE + c
       then load_bytes h (fsbuf + of_nat (SECTOR_SIZE * (y - (st + pos div SECTOR_SIZE)))) SECTOR_SIZE else fs_sect f y)"
    "pos mod SECTOR_SIZE + length data \<le> SECTOR_SIZE * c"
  shows "content g st k = (if pos \<le> k \<and> k < pos + length data then data ! (k - pos) else content f st k)"
proof -
  let ?b = "pos div SECTOR_SIZE" and ?off = "pos mod SECTOR_SIZE" and ?run = "fs_run f (st + pos div SECTOR_SIZE) c"
  have pos: "pos = SECTOR_SIZE * ?b + ?off" by simp
  have k: "k = SECTOR_SIZE * (k div SECTOR_SIZE) + k mod SECTOR_SIZE" by simp
  show ?thesis
  proof (cases "?b \<le> k div SECTOR_SIZE \<and> k div SECTOR_SIZE < ?b + c")
    case True
    define i where "i = k div SECTOR_SIZE - ?b"
    have i: "k div SECTOR_SIZE = ?b + i" "i < c" using True by (auto simp: i_def)
    define m where "m = SECTOR_SIZE * i + k mod SECTOR_SIZE"
    have m: "m < SECTOR_SIZE * c" "k = SECTOR_SIZE * ?b + m" "SECTOR_SIZE * i + SECTOR_SIZE \<le> SECTOR_SIZE * c"
      using i k by (simp_all add: m_def)
    have "content g st k = take SECTOR_SIZE (drop (SECTOR_SIZE * i) (load_bytes h fsbuf (SECTOR_SIZE * c))) ! (k mod SECTOR_SIZE)"
      using i assms(3) load_bytes_drop [OF m(3), of h fsbuf] by (simp add: content_def)
    also have "\<dots> = splice ?off data ?run ! m" using m(3) by (simp add: assms(2) [symmetric] m_def)
    also have "\<dots> = (if ?off \<le> m \<and> m < ?off + length data then data ! (m - ?off) else ?run ! m)"
      using assms(4) m(1) length_fs_run [OF assms(1)] by (intro nth_splice) simp_all
    also have "?run ! m = content f st k"
      using nth_fs_run [OF assms(1) m(1)] i by (simp add: content_def m_def add.assoc)
    moreover have "?off \<le> m \<and> m < ?off + length data \<longleftrightarrow> pos \<le> k \<and> k < pos + length data" "m - ?off = k - pos"
      using pos m(2) by linarith+
    ultimately show ?thesis by simp
  next
    case False
    have "\<not> (pos \<le> k \<and> k < pos + length data)"
    proof
      assume a: "pos \<le> k \<and> k < pos + length data"
      then have "?b \<le> k div SECTOR_SIZE" by (intro div_le_mono) simp
      moreover have "k < SECTOR_SIZE * (?b + c)" using a pos assms(4) unfolding distrib_left by linarith
      then have "k div SECTOR_SIZE < ?b + c" by (intro less_mult_imp_div_less) (simp add: mult.commute)
      ultimately show False using False by simp
    qed
    moreover have "content g st k = content f st k" using False assms(3) by (auto simp: content_def)
    ultimately show ?thesis by auto
  qed
qed

lemma written_memory:
  assumes "fs_ok f" "k = memcpy (store_bytes h fsbuf (fs_run f x c)) (fsbuf + of_nat off) ubuf n" "off + n \<le> SECTOR_SIZE * c" "0 < c"
    "a \<notin> region fsbuf (SECTOR_SIZE * c)"
  shows "a \<notin> region fsbuf SECTOR_SIZE" "k a = h a"
proof -
  have "region fsbuf SECTOR_SIZE \<subseteq> region fsbuf (SECTOR_SIZE * c)" using region_sub [of 0 SECTOR_SIZE "SECTOR_SIZE * c" fsbuf] assms(4) by simp
  with assms(5) show "a \<notin> region fsbuf SECTOR_SIZE" by blast
  have "a \<notin> region (fsbuf + of_nat off) n" using assms(5) region_sub [OF assms(3), of fsbuf] by blast
  then show "k a = h a"
    using assms(5) length_fs_run [OF assms(1), of x c] by (simp add: assms(2) memcpy_frame store_bytes_frame)
qed

lemma rdwt_read_ok:
  fixes f :: fs and pos len e n :: nat
  defines "n \<equiv> taken pos len e"
  assumes "transfer f d p st pos len e" "msg_type (fs_msg f) = READ" "e = min (pos + len) (unat (i_size (inode_table f p)))"
    "root_file (inode_table f p)" "region (BUF (fs_msg f)) n \<inter> region fsbuf (SECTOR_SIZE * run_len pos e) = {}"
  shows "\<exists>g. rdwt_regular d p f = Inr (int n, g) \<and> moved f d p n g \<and> (\<forall>y. unat (n_1st_sect (sb0 f)) \<le> y \<longrightarrow> fs_sect g y = fs_sect f y) \<and>
    load_bytes (fmem g) (BUF (fs_msg f)) n = map (content f st) [pos..<pos + n]"
proof -
  let ?c = "run_len pos e" and ?x = "st + pos div SECTOR_SIZE" and ?b = "BUF (fs_msg f)"
  note b = run_len_bounds [OF assms(2)]
  have t: "fs_ok f" "mounted f" "flat_source f" "i_dev (inode_table f p) = ROOT_DEV" using assms(2) by (simp_all add: transfer_def mounted_def)
  obtain g where g: "rdwt_loop d p (int (?x + ?c) - 1) (int ?c) (int ?x) (int (pos mod SECTOR_SIZE)) 0 (int len) f = Inr (int n, upd_fd d (\<lambda>y. y\<lparr>fd_pos := fd_pos y + int n\<rparr>) g)"
    "fs_ok g" "fs_sect g = fs_sect f" "same_but_disk f g" "fmem g = memcpy (store_bytes (fmem f) fsbuf (fs_run f ?x ?c)) ?b (fsbuf + of_nat (pos mod SECTOR_SIZE)) n"
    using rdwt_loop_read [OF t(1, 4) b(1 - 3) _ t(3) assms(3), of "pos mod SECTOR_SIZE" n len] by (auto simp: n_def taken_def)
  have once: "rdwt_regular d p f = bindE (Inr (int n, upd_fd d (\<lambda>y. y\<lparr>fd_pos := fd_pos y + int n\<rparr>) g))
      (\<lambda>(bytes_rw, f). if (word_of_int (fd_pos (f_desc_table f d)) :: u32) > i_size (inode_table f p) then
             bindE (sync_inode p (upd_inode p (\<lambda>x. x\<lparr>i_size := word_of_int (fd_pos (f_desc_table f d))\<rparr>) f)) (\<lambda>f. Inr (bytes_rw, f))
           else Inr (bytes_rw, f))"
    using rdwt_regular_once [OF assms(2)] assms(3, 4) unfolding g(1) by simp
  obtain h where h: "rdwt_regular d p f = Inr (int n, h)" "moved f d p n h" "\<forall>y. unat (n_1st_sect (sb0 f)) \<le> y \<longrightarrow> fs_sect h y = fs_sect g y"
    "\<forall>x. x \<notin> region fsbuf SECTOR_SIZE \<longrightarrow> fmem h x = fmem g x"
    using rdwt_settle [OF once t(2) assms(5) g(2, 4)] g(3) by auto
  have sub: "region fsbuf SECTOR_SIZE \<subseteq> region fsbuf (SECTOR_SIZE * ?c)" using region_sub [of 0 SECTOR_SIZE "SECTOR_SIZE * ?c" fsbuf] b(1) by simp
  have "load_bytes (fmem h) ?b n = load_bytes (fmem g) ?b n"
    using h(4) assms(6) sub by (intro load_bytes_cong) blast
  also have "\<dots> = map (content f st) [pos..<pos + n]"
    unfolding g(5) using read_buffer [OF t(1), of pos n ?c ?b "fmem f" st] b(2, 4) assms(6) by (simp add: n_def)
  finally show ?thesis using h g(3) by auto
qed

lemma rdwt_write_ok:
  fixes f :: fs and pos len e n :: nat
  defines "n \<equiv> taken pos len e"
  assumes "transfer f d p st pos len e" "msg_type (fs_msg f) = WRITE" "e = min (pos + len) (unat (i_nr_sects (inode_table f p) * SECTOR_SIZE))"
    "root_file (inode_table f p)" "region (BUF (fs_msg f)) n \<inter> region fsbuf (SECTOR_SIZE * run_len pos e) = {}"
  shows "\<exists>g. rdwt_regular d p f = Inr (int n, g) \<and> moved f d p n g \<and>
    (\<forall>k. content g st k = (if pos \<le> k \<and> k < pos + n then load_bytes (fmem f) (BUF (fs_msg f)) n ! (k - pos) else content f st k)) \<and>
    (\<forall>y. unat (n_1st_sect (sb0 f)) \<le> y \<and> y < st + pos div SECTOR_SIZE \<longrightarrow> fs_sect g y = fs_sect f y) \<and>
    (\<forall>x. x \<notin> region fsbuf (SECTOR_SIZE * run_len pos e) \<longrightarrow> fmem g x = fmem f x)"
proof -
  let ?c = "run_len pos e" and ?x = "st + pos div SECTOR_SIZE" and ?b = "BUF (fs_msg f)" and ?off = "pos mod SECTOR_SIZE"
  let ?data = "load_bytes (fmem f) ?b n"
  note b = run_len_bounds [OF assms(2)]
  have t: "fs_ok f" "mounted f" "flat_source f" "i_dev (inode_table f p) = ROOT_DEV" using assms(2) by (simp_all add: transfer_def mounted_def)
  obtain g where g: "rdwt_loop d p (int (?x + ?c) - 1) (int ?c) (int ?x) (int ?off) 0 (int len) f = Inr (int n, upd_fd d (\<lambda>y. y\<lparr>fd_pos := fd_pos y + int n\<rparr>) g)"
    "fs_ok g" "same_but_disk f g" "fmem g = memcpy (store_bytes (fmem f) fsbuf (fs_run f ?x ?c)) (fsbuf + of_nat ?off) ?b n"
    "\<forall>y. fs_sect g y = (if ?x \<le> y \<and> y < ?x + ?c then load_bytes (fmem g) (fsbuf + of_nat (SECTOR_SIZE * (y - ?x))) SECTOR_SIZE else fs_sect f y)"
    using rdwt_loop_write [OF t(1, 4) b(1 - 3) _ t(3) assms(3), of "pos mod SECTOR_SIZE" n len] by (auto simp: n_def taken_def)
  have st: "unat (n_1st_sect (sb0 f)) \<le> st" using assms(2) by (simp add: transfer_def)
  have once: "rdwt_regular d p f = bindE (Inr (int n, upd_fd d (\<lambda>y. y\<lparr>fd_pos := fd_pos y + int n\<rparr>) g))
      (\<lambda>(bytes_rw, f). if (word_of_int (fd_pos (f_desc_table f d)) :: u32) > i_size (inode_table f p) then
             bindE (sync_inode p (upd_inode p (\<lambda>x. x\<lparr>i_size := word_of_int (fd_pos (f_desc_table f d))\<rparr>) f)) (\<lambda>f. Inr (bytes_rw, f))
           else Inr (bytes_rw, f))"
    using rdwt_regular_once [OF assms(2)] assms(3, 4) unfolding g(1) by simp
  obtain h where h: "rdwt_regular d p f = Inr (int n, h)" "moved f d p n h" "\<forall>y. unat (n_1st_sect (sb0 f)) \<le> y \<longrightarrow> fs_sect h y = fs_sect g y"
    "\<forall>x. x \<notin> region fsbuf SECTOR_SIZE \<longrightarrow> fmem h x = fmem g x"
    using rdwt_settle [OF once t(2) assms(5) g(2, 3)] g(5) st by auto
  have buf: "load_bytes (fmem g) fsbuf (SECTOR_SIZE * ?c) = splice ?off ?data (fs_run f ?x ?c)"
    unfolding g(4) using write_buffer [OF t(1) _ b(2), of ?off n ?b] b(4) assms(6) by (simp add: n_def)
  have "content g st k = (if pos \<le> k \<and> k < pos + n then ?data ! (k - pos) else content f st k)" for k
    using written_content [OF t(1) buf g(5), of k] b(4) [folded n_def] by simp
  moreover have "content h st k = content g st k" for k using h(3) st by (simp add: content_def)
  ultimately have data: "\<forall>k. content h st k = (if pos \<le> k \<and> k < pos + n then ?data ! (k - pos) else content f st k)" by simp
  have mem: "\<forall>x. x \<notin> region fsbuf (SECTOR_SIZE * ?c) \<longrightarrow> fmem h x = fmem f x"
    using h(4) written_memory [OF t(1) g(4) b(4) [folded n_def] b(1)] by simp
  have "\<forall>y. unat (n_1st_sect (sb0 f)) \<le> y \<and> y < ?x \<longrightarrow> fs_sect h y = fs_sect f y" using h(3) g(5) by simp
  with h(1, 2) data mem show ?thesis by blast
qed

lemma run_len_reaches:
  assumes "pos \<le> e"
  shows "pos mod SECTOR_SIZE + (e - pos) < SECTOR_SIZE * run_len pos e"
proof -
  obtain k where k: "e div SECTOR_SIZE = pos div SECTOR_SIZE + k" using div_le_mono [OF assms] by (metis le_iff_add)
  have "e = SECTOR_SIZE * (pos div SECTOR_SIZE + k) + e mod SECTOR_SIZE" "pos = SECTOR_SIZE * (pos div SECTOR_SIZE) + pos mod SECTOR_SIZE"
    using mult_div_mod_eq [of SECTOR_SIZE e] by (simp_all add: k)
  moreover have "e mod SECTOR_SIZE < SECTOR_SIZE" by simp
  ultimately have "pos mod SECTOR_SIZE + e < pos + SECTOR_SIZE * (k + 1)" unfolding distrib_left by linarith
  then show ?thesis using assms by (simp add: run_len_def k)
qed

lemma taken_all: "taken pos len (pos + len) = len"
  using run_len_reaches [of pos "pos + len"] by (simp add: taken_def)

lemma taken_past_end: "pos \<le> e \<Longrightarrow> e < pos + len \<Longrightarrow> e < pos + taken pos len e"
  using run_len_reaches [of pos e] by (auto simp: taken_def)

abbreviation (input) FSBUF_RUN :: nat where "FSBUF_RUN \<equiv> 0x20000"

lemma disjoint_run:
  assumes "transfer f d p st pos len e" "region b n \<inter> region fsbuf FSBUF_RUN = {}"
  shows "region b n \<inter> region fsbuf (SECTOR_SIZE * run_len pos e) = {}"
  using assms(2) region_sub [of 0 "SECTOR_SIZE * run_len pos e" FSBUF_RUN fsbuf] run_len_bounds(2) [OF assms(1)] by auto

text \<open>Another request of the file system: the message and who sent it.\<close>

definition request :: "message \<Rightarrow> nat \<Rightarrow> fs \<Rightarrow> fs" where
  "request m c f = f\<lparr>fs_msg := m, pcaller := c\<rparr>"

lemma request_sel [simp]:
  "inode_table (request m c f) = inode_table f" "f_desc_table (request m c f) = f_desc_table f" "super_blocks (request m c f) = super_blocks f"
  "root_inode (request m c f) = root_inode f" "drv (request m c f) = drv f" "fs_msg (request m c f) = m" "pcaller (request m c f) = c"
  "tt (request m c f) = tt f"
  by (simp_all add: request_def)

lemma request_request [simp]: "request m c (request m' c' f) = request m c f"
  by (simp add: request_def)

lemma request_views [simp]:
  "fmem (request m c f) = fmem f" "fs_sect (request m c f) = fs_sect f" "sb0 (request m c f) = sb0 f" "fs_ok (request m c f) = fs_ok f"
  "mounted (request m c f) = mounted f" "content (request m c f) = content f"
  by (simp_all add: fmem_def fs_sect_def sb0_def fs_base_def fs_ok_def mounted_def content_def fun_eq_iff)

text \<open>
  C29. What is written to a regular file is read back. A write of \<open>len\<close> bytes at position \<open>pos\<close> that
  stays within the sectors of the file and within 256 of them returns \<open>len\<close>; a read of \<open>len\<close> bytes at the same position
  through another descriptor, by any process with flat segments, then returns \<open>len\<close> and fills its
  buffer with the bytes written, and every other byte of the file is as it was.
\<close>

theorem write_then_read:
  assumes "serves f d p" "transfer f d p st pos len (pos + len)" "msg_type (fs_msg f) = WRITE" "root_file (inode_table f p)"
    "pos + len \<le> unat (i_nr_sects (inode_table f p) * SECTOR_SIZE)" "region (BUF (fs_msg f)) len \<inter> region fsbuf FSBUF_RUN = {}"
    "serves (request m c f) d' p" "d' \<noteq> d" "fd_pos (f_desc_table f d') = int pos" "flat_source (request m c f)" "msg_type m = READ"
    "CNT m = of_nat len" "region (BUF m) len \<inter> region fsbuf FSBUF_RUN = {}"
  shows "\<exists>g h. do_rdwt f = Inr (int len, g) \<and> do_rdwt (request m c g) = Inr (int len, h) \<and>
    load_bytes (fmem h) (BUF m) len = load_bytes (fmem f) (BUF (fs_msg f)) len \<and>
    (\<forall>k. \<not> (pos \<le> k \<and> k < pos + len) \<longrightarrow> content h st k = content f st k)"
proof -
  let ?data = "load_bytes (fmem f) (BUF (fs_msg f)) len"
  obtain g where g: "rdwt_regular d p f = Inr (int len, g)" "moved f d p len g"
    "\<And>k. content g st k = (if pos \<le> k \<and> k < pos + len then ?data ! (k - pos) else content f st k)"
    using rdwt_write_ok [OF assms(2, 3) _ assms(4), unfolded taken_all] assms(5) disjoint_run [OF assms(2, 6)] by auto
  have t: "pos + len < 2 ^ 31" "fd_pos (f_desc_table f d) = int pos" "unat (n_1st_sect (sb0 f)) \<le> st" using assms(2) by (simp_all add: transfer_def)
  let ?x = "inode_table f p" and ?g = "request m c g"
  have pos: "word_of_int (int pos + int len) = (of_nat (pos + len) :: u32)" by simp
  have tab: "inode_table g = (inode_table f)(p := ?x\<lparr>i_size := max (i_size ?x) (of_nat (pos + len))\<rparr>)"
    "f_desc_table g = (f_desc_table f)(d := (f_desc_table f d)\<lparr>fd_pos := int pos + int len\<rparr>)" "super_blocks g = super_blocks f"
    "proc_table (hks (drv g)) = proc_table (hks (drv f))" "mounted g"
    using g(2) pos t(2) by (simp_all add: moved_def)
  have serves: "serves ?g d' p" using assms(7, 8) tab by (simp add: serves_def)
  have "transfer ?g d' p st pos len (pos + len)"
    using assms(2, 8 - 10, 12) tab by (simp add: transfer_def flat_source_def sb0_def)
  moreover have "pos + len = min (pos + len) (unat (i_size (inode_table ?g p)))"
    using t(1) tab(1) by (simp add: max_def word_le_nat_alt unat_of_nat_u32 del: of_nat_add)
  moreover have "root_file (inode_table ?g p)" using assms(4) tab(1) by (simp add: root_file_def)
  ultimately obtain h where h: "rdwt_regular d' p ?g = Inr (int len, h)" "\<forall>y. unat (n_1st_sect (sb0 g)) \<le> y \<longrightarrow> fs_sect h y = fs_sect g y"
    "load_bytes (fmem h) (BUF m) len = map (content g st) [pos..<pos + len]"
    using rdwt_read_ok [of ?g d' p st pos len "pos + len", unfolded taken_all] assms(11) disjoint_run [of ?g d' p st pos len "pos + len" "BUF m" len] assms(13) by auto
  have "map (content g st) [pos..<pos + len] = ?data" by (rule nth_equalityI) (simp_all add: g(3))
  moreover have "content h st k = content g st k" for k using h(2) t(3) tab(3) by (simp add: content_def sb0_def)
  ultimately show ?thesis
    using do_rdwt_serves [OF assms(1)] do_rdwt_serves [OF serves] assms(3, 11) g(1, 3) h(1, 3) by (intro exI [of _ g] exI [of _ h]) simp
qed

text \<open>
  C40. Reading past the end of a file extends it. A read whose range begins within the file and ends
  behind its end does not stop there: it returns more bytes than the file has from that position on, and
  the size of the file grows to the position reached.
\<close>

theorem read_past_end_extends:
  assumes "serves f d p" "transfer f d p st pos len (unat (i_size (inode_table f p)))" "msg_type (fs_msg f) = READ" "root_file (inode_table f p)"
    "unat (i_size (inode_table f p)) < pos + len" "region (BUF (fs_msg f)) len \<inter> region fsbuf FSBUF_RUN = {}"
  shows "\<exists>n g. do_rdwt f = Inr (int n, g) \<and> unat (i_size (inode_table f p)) < pos + n \<and> i_size (inode_table g p) = of_nat (pos + n)"
proof -
  let ?s = "unat (i_size (inode_table f p))"
  let ?n = "taken pos len ?s"
  have t: "pos \<le> ?s" "pos + len < 2 ^ 31" "fd_pos (f_desc_table f d) = int pos" using assms(2) by (simp_all add: transfer_def)
  have more: "?s < pos + ?n" by (rule taken_past_end [OF t(1) assms(5)])
  have "?n \<le> len" by (simp add: taken_def)
  then have "region (BUF (fs_msg f)) ?n \<inter> region fsbuf FSBUF_RUN = {}" using assms(6) region_sub [of 0 ?n len "BUF (fs_msg f)"] by auto
  from rdwt_read_ok [OF assms(2, 3) _ assms(4) disjoint_run [OF assms(2) this]] assms(5) obtain g where
    g: "rdwt_regular d p f = Inr (int ?n, g)" "moved f d p ?n g" by auto
  have "word_of_int (int pos + int ?n) = (of_nat (pos + ?n) :: u32)" by simp
  then have "i_size (inode_table g p) = max (i_size (inode_table f p)) (of_nat (pos + ?n))" using g(2) t(3) by (simp add: moved_def)
  moreover have "unat (of_nat (pos + ?n) :: u32) = pos + ?n" using t(2) \<open>?n \<le> len\<close> by (intro unat_of_nat_u32) simp
  then have "i_size (inode_table f p) < of_nat (pos + ?n)" unfolding word_less_nat_alt using more by simp
  ultimately show ?thesis
    using do_rdwt_serves [OF assms(1)] assms(3) g(1) more by (intro exI [of _ ?n] exI [of _ g]) (simp add: max_absorb2)
qed

section \<open>Witnesses\<close>

text \<open>Process 6 has the file \<open>ab\<close> open twice.\<close>

definition demo_open :: "memory \<Rightarrow> fs" where
  "demo_open h = (demo_fs h)\<lparr>f_desc_table := (\<lambda>_. \<lparr>fd_mode = O_RDWR, fd_pos = 0, fd_cnt = 1, fd_inode = Some 1\<rparr>),
     drv := (drv (demo_fs h))\<lparr>hks := (flat_kstate h)\<lparr>proc_table := (\<lambda>_. zero_proc\<lparr>filp := (\<lambda>i. if i < 2 then Some i else None)\<rparr>)\<rparr>\<rparr>\<rparr>"

definition demo_file_msg :: "u32 \<Rightarrow> u32 \<Rightarrow> u32 \<Rightarrow> u32 \<Rightarrow> message" where
  "demo_file_msg ty fd cnt buf = reset_msg\<lparr>source := 6, msg_type := ty, m3i1 := fd, m3i2 := cnt, m3p2 := buf\<rparr>"

lemma demo_open_mounted: "mounted (demo_open h)"
  using demo_mounted [of h]
  by (simp add: mounted_def fs_ok_def fs_base_def sb0_def demo_open_def flat_kstate_def ldt_seg_linear_def zero_proc_def zero_descriptor_def desc_base_def)

lemma demo_open_tables:
  "inode_table (demo_open h) (Suc 0) = demo_file" "sb0 (demo_open h) = demo_sb" "fd_pos (f_desc_table (demo_open h) d) = 0" "fmem (demo_open h) = h"
  by (simp_all add: demo_open_def demo_fs_def sb0_def fmem_def flat_kstate_def)

lemma demo_flat_source: "flat_source (request (demo_file_msg ty fd cnt buf) 6 (demo_open h))"
  by (simp add: flat_source_def demo_file_msg_def reset_msg_def demo_open_def ldt_seg_linear_def zero_proc_def zero_descriptor_def desc_base_def)

lemma demo_serves: "fd < 2 \<Longrightarrow> serves (request (demo_file_msg ty (of_nat fd) cnt buf) 6 (demo_open h)) fd 1"
  unfolding serves_def
  by (intro conjI exI [of _ fd]) (simp_all add: demo_file_msg_def reset_msg_def demo_open_def demo_fs_def demo_file_def)

lemma demo_root_file: "root_file demo_file"
  by (simp add: root_file_def demo_file_def)

lemma demo_transfer:
  assumes "len \<le> 512" "e \<le> len"
  shows "transfer (request (demo_file_msg ty fd (of_nat len) buf) 6 (demo_open h)) d 1 2309 0 len e"
  using assms demo_open_mounted [of h] demo_flat_source [of ty fd "of_nat len" buf h] div_le_mono [of e SECTOR_SIZE SECTOR_SIZE]
  by (simp add: transfer_def demo_open_tables) (simp add: demo_file_msg_def reset_msg_def demo_file_def demo_sb_def)

lemma low_region:
  assumes "unat a + n \<le> 0x600000"
  shows "region a n \<inter> region fsbuf FSBUF_RUN = {}"
proof (rule equals0I)
  fix x
  assume "x \<in> region a n \<inter> region fsbuf FSBUF_RUN"
  then obtain i j where ij: "i < n" "x = a + of_nat i" "j < FSBUF_RUN" "x = fsbuf + of_nat j" by (auto simp: region_def)
  then have "unat x = unat a + i" using assms by (simp add: unat_word_ariths unat_of_nat_u32)
  moreover have "unat x = 0x600000 + j" using ij(3, 4) by (simp add: unat_word_ariths unat_of_nat_u32)
  ultimately show False using ij(1) assms by simp
qed

theorem write_then_read_witness:
  "\<exists>g h. do_rdwt (request (demo_file_msg WRITE 0 9 0x5000) 6 (demo_open (\<lambda>a. ucast a))) = Inr (9, g) \<and>
    do_rdwt (request (demo_file_msg READ 1 9 0x7000) 6 g) = Inr (9, h) \<and> load_bytes (fmem h) 0x7000 9 = [0, 1, 2, 3, 4, 5, 6, 7, 8]"
proof -
  let ?h = "\<lambda>a. ucast a :: u8" and ?w = "demo_file_msg WRITE 0 9 0x5000" and ?r = "demo_file_msg READ 1 9 0x7000"
  let ?f = "request ?w 6 (demo_open ?h)"
  have data: "load_bytes ?h 0x5000 9 = [0, 1, 2, 3, 4, 5, 6, 7, 8]"
    by (simp add: load_bytes_def upt_rec)
  then show ?thesis
    using write_then_read [of ?f 0 1 2309 0 9 ?r 6 1] demo_serves [of 0 WRITE 9 "0x5000" ?h] demo_serves [of 1 READ 9 "0x7000" ?h]
      demo_transfer [of 9 9 WRITE 0 "0x5000" ?h 0] demo_flat_source [of READ 1 9 "0x7000" ?h] demo_root_file low_region [of "0x5000" 9] low_region [of "0x7000" 9]
    by (simp add: demo_open_tables) (simp add: demo_file_msg_def reset_msg_def demo_file_def data, blast)
qed

theorem read_past_end_extends_witness:
  "\<exists>n g. do_rdwt (request (demo_file_msg READ 0 9 0x5000) 6 (demo_open (\<lambda>_. 7))) = Inr (int n, g) \<and> 5 < n \<and> i_size (inode_table g 1) = of_nat n"
proof -
  let ?f = "request (demo_file_msg READ 0 9 0x5000) 6 (demo_open (\<lambda>_. 7))"
  have size: "i_size (inode_table ?f 1) = 5" by (simp add: demo_open_tables demo_file_def)
  show ?thesis
    using read_past_end_extends [of ?f 0 1 2309 0 9] demo_serves [of 0 READ 9 "0x5000" "\<lambda>_. 7"] demo_transfer [of 9 5 READ 0 "0x5000" "\<lambda>_. 7" 0]
      demo_root_file low_region [of "0x5000" 9]
    unfolding size by (simp add: demo_open_tables) (simp add: demo_file_msg_def reset_msg_def)
qed

end
