(* ===== verification/Fs_Open.thy ===== *)
theory Fs_Open
  imports Fs_Create Fs_Rdwt
begin

text \<open>
  Opening and closing files, \<^verbatim>\<open>do_open\<close> and \<^verbatim>\<open>do_close\<close> of \<^verbatim>\<open>fs/open.c\<close>, and what the file system does
  when a process is forked or ends, \<^verbatim>\<open>fs_fork\<close> and \<^verbatim>\<open>fs_exit\<close> of \<^verbatim>\<open>fs/main.c\<close>. The main result is the
  discipline of the two counters: of a descriptor, how many slots of processes hold it, and of an inode,
  how many slots lead to it through a descriptor.
\<close>

section \<open>Operations\<close>

text \<open>The path of a request, copied from the caller into a buffer of \<^verbatim>\<open>MAX_PATH\<close> bytes and ended by a
  zero byte; what the file system sees of it ends at the first zero byte.\<close>

definition fetch_path :: "nat \<Rightarrow> nat \<Rightarrow> fs \<Rightarrow> u8 list result" where
  "fetch_path ln cp f =
     (let m = fs_msg f; name_len = sint (NAME_LEN m)
      in check ln (name_len < MAX_PATH)
         (bindE (va2la_pid cp (hks (drv f)) (sint (source m)) (PATHNAME m)) (\<lambda>la.
            if name_len < 0 then Inl (OutOfBounds cp)
            else Inr (takeWhile (\<lambda>c. c \<noteq> 0) (load_bytes (fmem f) la (nat name_len))))))"

definition set_filp :: "nat \<Rightarrow> nat \<Rightarrow> nat option \<Rightarrow> fs \<Rightarrow> fs" where
  "set_filp c fd v f = f\<lparr>drv := (drv f)\<lparr>hks := upd_proc c (\<lambda>p. p\<lparr>filp := (filp p)(fd := v)\<rparr>) (hks (drv f))\<rparr>\<rparr>"

text \<open>The inode to open: a new file, or the one found; \<open>None\<close> is the null pointer, and an early return
  of -1 has the same effect.\<close>

definition open_inode :: "u8 list \<Rightarrow> u32 \<Rightarrow> fs \<Rightarrow> (nat option \<times> fs) result" where
  "open_inode path flags f =
     bindE (search_file path f) (\<lambda>(inode_nr, f).
       if flags AND O_CREAT \<noteq> 0 then (if inode_nr \<noteq> 0 then Inr (None, f) else create_file path f)
       else check 68 (flags AND O_RDWR \<noteq> 0)
            (case strip_path path of
               None \<Rightarrow> Inr (None, f)
             | Some filename \<Rightarrow> get_inode (i_dev (inode_table f (root_inode f))) (sint inode_nr) f))"

definition open_device :: "inode \<Rightarrow> fs \<Rightarrow> fs result" where
  "open_device x f =
     (let imode = i_mode x AND I_TYPE_MASK; dev = sint (i_start_sect x)
      in if imode = I_CHAR_SPECIAL then
           check 96 (MAJOR dev = 4)
           (bindE (driver_call 97 dev (reset_msg\<lparr>msg_type := DEV_OPEN, m3i4 := word_of_int (MINOR dev)\<rparr>) f) (\<lambda>(r, f). Inr f))
         else if imode = I_DIRECTORY then check 102 (i_num x = ROOT_INODE) (Inr f)
         else check 105 (i_mode x = I_REGULAR) (Inr f))"

definition do_open :: "fs \<Rightarrow> (int \<times> fs) result" where
  "do_open f =
     (let flags = FLAGS (fs_msg f)
      in bindE (fetch_path 28 30 f) (\<lambda>path.
         case first_index (\<lambda>i. filp (proc_table (hks (drv f)) (pcaller f)) i = None) (nat NR_FILES) of
           None \<Rightarrow> Inl (Panic 44)
         | Some fd \<Rightarrow>
             (case first_index (\<lambda>i. fd_inode (f_desc_table f i) = None) NR_FILE_DESC of
                None \<Rightarrow> Inl (Panic 52)
              | Some i \<Rightarrow>
                  bindE (open_inode path flags f) (\<lambda>(pin, f).
                    case pin of
                      None \<Rightarrow> Inr (- 1, f)
                    | Some p \<Rightarrow>
                        let f = set_filp (pcaller f) fd (Some i) f;
                            f = upd_fd i (\<lambda>_. \<lparr>fd_mode = flags, fd_pos = 0, fd_cnt = 1, fd_inode = Some p\<rparr>) f
                        in bindE (open_device (inode_table f p) f) (\<lambda>f. Inr (int fd, f))))))"

text \<open>One slot of a process lets go of its descriptor; the last one releases the descriptor.\<close>

definition drop_slot :: "nat \<Rightarrow> nat \<Rightarrow> nat \<Rightarrow> fs \<Rightarrow> fs" where
  "drop_slot c i d f =
     (let n = fd_cnt (f_desc_table f d) - 1;
          f = upd_fd d (\<lambda>x. x\<lparr>fd_cnt := n\<rparr>) f;
          f = (if n = 0 then upd_fd d (\<lambda>x. x\<lparr>fd_inode := None\<rparr>) f else f)
      in set_filp c i None f)"

definition do_close :: "fs \<Rightarrow> (int \<times> fs) result" where
  "do_close f =
     (let fd = sint (FD (fs_msg f))
      in bindE (caller_filp 118 fd f) (\<lambda>r.
           case r of
             None \<Rightarrow> Inl (OutOfBounds 118)
           | Some d \<Rightarrow>
               (case fd_inode (f_desc_table f d) of
                  None \<Rightarrow> Inl (OutOfBounds 118)
                | Some p \<Rightarrow> bindE (put_inode p f) (\<lambda>f. Inr (0, drop_slot (pcaller f) (nat fd) d f)))))"

text \<open>The body of the loop of \<^verbatim>\<open>fs_fork\<close> for slot \<open>i\<close> of the child, and that of \<^verbatim>\<open>fs_exit\<close>.\<close>

definition fork_slot :: "nat \<Rightarrow> nat \<Rightarrow> fs \<Rightarrow> fs result" where
  "fork_slot c i f =
     (case filp (proc_table (hks (drv f)) c) i of
        None \<Rightarrow> Inr f
      | Some d \<Rightarrow>
          (let f = upd_fd d (\<lambda>x. x\<lparr>fd_cnt := fd_cnt x + 1\<rparr>) f
           in case fd_inode (f_desc_table f d) of
                None \<Rightarrow> Inl (OutOfBounds 377)
              | Some p \<Rightarrow> Inr (upd_inode p (\<lambda>x. x\<lparr>i_cnt := i_cnt x + 1\<rparr>) f)))"

definition exit_slot :: "nat \<Rightarrow> nat \<Rightarrow> fs \<Rightarrow> fs result" where
  "exit_slot c i f =
     (case filp (proc_table (hks (drv f)) c) i of
        None \<Rightarrow> Inr f
      | Some d \<Rightarrow>
          (case fd_inode (f_desc_table f d) of
             None \<Rightarrow> Inl (OutOfBounds 388)
           | Some p \<Rightarrow> Inr (drop_slot c i d (upd_inode p (\<lambda>x. x\<lparr>i_cnt := i_cnt x - 1\<rparr>) f))))"

fun each_slot :: "(nat \<Rightarrow> fs \<Rightarrow> fs result) \<Rightarrow> nat list \<Rightarrow> fs \<Rightarrow> fs result" where
  "each_slot body [] f = Inr f"
| "each_slot body (i # is) f = bindE (body i f) (each_slot body is)"

definition fs_fork :: "fs \<Rightarrow> (int \<times> fs) result" where
  "fs_fork f =
     (let pid = sint (PID (fs_msg f))
      in if 0 \<le> pid \<and> pid < nr_slots
         then bindE (each_slot (fork_slot (nat pid)) [0..<nat NR_FILES] f) (\<lambda>f. Inr (0, f))
         else Inl (OutOfBounds 373))"

definition fs_exit :: "fs \<Rightarrow> (int \<times> fs) result" where
  "fs_exit f =
     (let pid = sint (PID (fs_msg f))
      in if 0 \<le> pid \<and> pid < nr_slots
         then bindE (each_slot (exit_slot (nat pid)) [0..<nat NR_FILES] f) (\<lambda>f. Inr (0, f))
         else Inl (OutOfBounds 385))"

section \<open>References\<close>

text \<open>A slot is a process and an index into its \<^verbatim>\<open>filp\<close>. \<open>load f k\<close> is the number of references to inode \<open>k\<close> that
  the descriptors account for.\<close>

type_synonym slot = "nat \<times> nat"

definition slot_fd :: "fs \<Rightarrow> slot \<Rightarrow> nat option" where
  "slot_fd f s = filp (proc_table (hks (drv f)) (fst s)) (snd s)"

definition refs_of :: "nat \<Rightarrow> file_desc \<Rightarrow> int" where
  "refs_of k x = (if fd_inode x = Some k then fd_cnt x else 0)"

definition load :: "fs \<Rightarrow> nat \<Rightarrow> int" where
  "load f k = (\<Sum>d<NR_FILE_DESC. refs_of k (f_desc_table f d))"

definition all_slots :: "slot set" where
  "all_slots = {..<nr_slots} \<times> {..<64}"

text \<open>
  The counters are right for the slots \<open>S\<close>: they hold descriptors in use; a descriptor in use is counted
  once for each slot that holds it; and an inode has at least the references of its descriptors, one more
  if it is the root directory.
\<close>

definition refs_ok :: "fs \<Rightarrow> slot set \<Rightarrow> bool" where
  "refs_ok f S \<longleftrightarrow>
     (\<forall>s\<in>S. \<forall>d. slot_fd f s = Some d \<longrightarrow> d < NR_FILE_DESC \<and> fd_inode (f_desc_table f d) \<noteq> None) \<and>
     (\<forall>d<NR_FILE_DESC. \<forall>k. fd_inode (f_desc_table f d) = Some k \<longrightarrow> k < NR_INODE \<and>
        fd_cnt (f_desc_table f d) > 0 \<and> fd_cnt (f_desc_table f d) = int (card {s \<in> S. slot_fd f s = Some d})) \<and>
     (\<forall>k<NR_INODE. (if k = root_inode f then 1 else 0) + load f k \<le> i_cnt (inode_table f k)) \<and> root_inode f < NR_INODE"

lemma set_filp_sel [simp]:
  "inode_table (set_filp c i v f) = inode_table f" "f_desc_table (set_filp c i v f) = f_desc_table f"
  "super_blocks (set_filp c i v f) = super_blocks f" "root_inode (set_filp c i v f) = root_inode f"
  "fs_msg (set_filp c i v f) = fs_msg f" "pcaller (set_filp c i v f) = pcaller f" "tt (set_filp c i v f) = tt f"
  by (simp_all add: set_filp_def)

lemma slot_fd_simps [simp]:
  "slot_fd (set_filp c i v f) s = (if s = (c, i) then v else slot_fd f s)" "slot_fd (upd_fd d g f) = slot_fd f" "slot_fd (upd_inode p h f) = slot_fd f"
  by (auto simp: slot_fd_def set_filp_def fun_eq_iff prod_eq_iff)

lemma load_cong: "f_desc_table g = f_desc_table f \<Longrightarrow> load g k = load f k"
  by (simp add: load_def)

lemma load_upd:
  assumes "d < NR_FILE_DESC" "f_desc_table g = (f_desc_table f)(d := x)"
  shows "load g k = load f k - refs_of k (f_desc_table f d) + refs_of k x"
proof -
  have d: "d \<in> {..<NR_FILE_DESC}" using assms(1) by simp
  have "(\<Sum>e\<in>{..<NR_FILE_DESC} - {d}. refs_of k (f_desc_table g e)) = (\<Sum>e\<in>{..<NR_FILE_DESC} - {d}. refs_of k (f_desc_table f e))"
    using assms(2) by (intro sum.cong) auto
  then show ?thesis
    using assms(2) unfolding load_def sum.remove [OF finite_lessThan d] by simp
qed

lemma refs_okD:
  assumes "refs_ok f S" "s \<in> S" "slot_fd f s = Some d"
  obtains p where "d < NR_FILE_DESC" "fd_inode (f_desc_table f d) = Some p" "p < NR_INODE" "fd_cnt (f_desc_table f d) > 0"
    "fd_cnt (f_desc_table f d) = int (card {s \<in> S. slot_fd f s = Some d})"
proof -
  have d: "d < NR_FILE_DESC" "fd_inode (f_desc_table f d) \<noteq> None" using assms by (auto simp: refs_ok_def)
  then obtain p where "fd_inode (f_desc_table f d) = Some p" by blast
  with d(1) assms(1) show thesis by (intro that [of p]) (auto simp: refs_ok_def)
qed

lemma refs_ok_fd:
  assumes "refs_ok f S" "s \<in> S" "slot_fd f s = Some d" "fd_inode (f_desc_table f d) = Some p"
  shows "d < NR_FILE_DESC" "p < NR_INODE" "fd_cnt (f_desc_table f d) > 0"
    "fd_cnt (f_desc_table f d) = int (card {s \<in> S. slot_fd f s = Some d})"
proof -
  show d: "d < NR_FILE_DESC" using assms(1 - 3) by (auto simp: refs_ok_def)
  have "\<forall>d<NR_FILE_DESC. \<forall>k. fd_inode (f_desc_table f d) = Some k \<longrightarrow> k < NR_INODE \<and>
        fd_cnt (f_desc_table f d) > 0 \<and> fd_cnt (f_desc_table f d) = int (card {s \<in> S. slot_fd f s = Some d})"
    using assms(1) unfolding refs_ok_def by (elim conjE)
  from this [rule_format, OF d assms(4)]
  show "p < NR_INODE" "fd_cnt (f_desc_table f d) > 0" "fd_cnt (f_desc_table f d) = int (card {s \<in> S. slot_fd f s = Some d})" by blast+
qed

lemma refs_of_nonneg: "refs_ok f S \<Longrightarrow> d < NR_FILE_DESC \<Longrightarrow> 0 \<le> refs_of k (f_desc_table f d)"
  by (cases "fd_inode (f_desc_table f d)") (auto simp: refs_ok_def refs_of_def)

lemma load_ge:
  assumes "refs_ok f S" "d < NR_FILE_DESC"
  shows "refs_of k (f_desc_table f d) \<le> load f k"
  unfolding load_def using assms by (intro member_le_sum) (auto simp: refs_of_nonneg)

lemma load_nonneg: "refs_ok f S \<Longrightarrow> 0 \<le> load f k"
  unfolding load_def by (intro sum_nonneg) (simp add: refs_of_nonneg)

text \<open>A slot that holds nothing does not count.\<close>

lemma refs_ok_empty_slot:
  assumes "slot_fd f s = None"
  shows "refs_ok f (insert s S) \<longleftrightarrow> refs_ok f S"
proof -
  have "{t \<in> insert s S. slot_fd f t = Some d} = {t \<in> S. slot_fd f t = Some d}" for d using assms by auto
  with assms show ?thesis unfolding refs_ok_def by auto
qed

text \<open>A slot that was not counted is: its descriptor and the inode get one more reference.\<close>

lemma refs_ok_attach:
  assumes "refs_ok f S" "finite S" "s \<notin> S" "slot_fd f s = Some d" "d < NR_FILE_DESC" "fd_inode (f_desc_table f d) = Some p"
    and g: "f_desc_table g = (f_desc_table f)(d := (f_desc_table f d)\<lparr>fd_cnt := fd_cnt (f_desc_table f d) + 1\<rparr>)"
      "inode_table g = (inode_table f)(p := (inode_table f p)\<lparr>i_cnt := i_cnt (inode_table f p) + 1\<rparr>)" "slot_fd g = slot_fd f" "root_inode g = root_inode f"
  shows "refs_ok g (insert s S)"
proof -
  have count: "card {t \<in> insert s S. slot_fd f t = Some e} = card {t \<in> S. slot_fd f t = Some e} + (if e = d then 1 else 0)" for e
  proof (cases "e = d")
    case True
    then have "{t \<in> insert s S. slot_fd f t = Some e} = insert s {t \<in> S. slot_fd f t = Some e}" using assms(4) by auto
    with True assms(2, 3) show ?thesis by simp
  next
    case False
    then have "{t \<in> insert s S. slot_fd f t = Some e} = {t \<in> S. slot_fd f t = Some e}" using assms(4) by auto
    with False show ?thesis by simp
  qed
  have load: "load g k = load f k + (if k = p then 1 else 0)" for k
    using load_upd [OF assms(5) g(1), of k] assms(6) by (simp add: refs_of_def)
  show ?thesis
    unfolding refs_ok_def g(3, 4) count
  proof (intro conjI)
    show "\<forall>t\<in>insert s S. \<forall>e. slot_fd f t = Some e \<longrightarrow> e < NR_FILE_DESC \<and> fd_inode (f_desc_table g e) \<noteq> None"
      using assms(1, 4 - 6) unfolding refs_ok_def g(1) by auto
    show "\<forall>e<NR_FILE_DESC. \<forall>k. fd_inode (f_desc_table g e) = Some k \<longrightarrow> k < NR_INODE \<and> 0 < fd_cnt (f_desc_table g e) \<and>
        fd_cnt (f_desc_table g e) = int (card {t \<in> S. slot_fd f t = Some e} + (if e = d then 1 else 0))"
      using assms(1) unfolding refs_ok_def g(1) by (auto simp: add_pos_pos)
    show "\<forall>k<NR_INODE. (if k = root_inode f then 1 else 0) + load g k \<le> i_cnt (inode_table g k)" "root_inode f < NR_INODE"
      using assms(1) unfolding refs_ok_def g(2) load by (auto split: if_splits)
  qed
qed

text \<open>A new descriptor for an inode that has got one more reference.\<close>

lemma refs_ok_fresh:
  assumes "refs_ok f S" "finite S" "s \<notin> S" "d < NR_FILE_DESC" "fd_inode (f_desc_table f d) = None" "p < NR_INODE"
    and g: "f_desc_table g = (f_desc_table f)(d := x)" "fd_inode x = Some p" "fd_cnt x = 1" "i_cnt (inode_table g p) = i_cnt (inode_table f p) + 1"
      "\<And>k. k \<noteq> p \<Longrightarrow> i_cnt (inode_table g k) = i_cnt (inode_table f k)" "root_inode g = root_inode f"
      "\<And>t. slot_fd g t = (if t = s then Some d else slot_fd f t)"
  shows "refs_ok g (insert s S)"
proof -
  have unused: "slot_fd f t \<noteq> Some d" if "t \<in> S" for t using assms(1, 5) that unfolding refs_ok_def by auto
  have count: "card {t \<in> insert s S. slot_fd g t = Some e} = (if e = d then 1 else card {t \<in> S. slot_fd f t = Some e})" for e
  proof (cases "e = d")
    case True
    then have "{t \<in> insert s S. slot_fd g t = Some e} = {s}" using unused g(7) by auto
    with True show ?thesis by simp
  next
    case False
    then have "{t \<in> insert s S. slot_fd g t = Some e} = {t \<in> S. slot_fd f t = Some e}" using g(7) assms(3) by auto
    with False show ?thesis by simp
  qed
  have load: "load g k = load f k + (if k = p then 1 else 0)" for k
    using load_upd [OF assms(4) g(1), of k] assms(5) g(2, 3) by (simp add: refs_of_def)
  show ?thesis
    unfolding refs_ok_def g(6) count
  proof (intro conjI)
    show "\<forall>t\<in>insert s S. \<forall>e. slot_fd g t = Some e \<longrightarrow> e < NR_FILE_DESC \<and> fd_inode (f_desc_table g e) \<noteq> None"
      using assms(1, 4) g(2, 7) unfolding refs_ok_def g(1) by auto
    show "\<forall>e<NR_FILE_DESC. \<forall>k. fd_inode (f_desc_table g e) = Some k \<longrightarrow> k < NR_INODE \<and> 0 < fd_cnt (f_desc_table g e) \<and>
        fd_cnt (f_desc_table g e) = int (if e = d then 1 else card {t \<in> S. slot_fd f t = Some e})"
      using assms(1, 6) g(2, 3) unfolding refs_ok_def g(1) by auto
    show "\<forall>k<NR_INODE. (if k = root_inode f then 1 else 0) + load g k \<le> i_cnt (inode_table g k)" "root_inode f < NR_INODE"
      using assms(1) g(4, 5) unfolding refs_ok_def load by (auto split: if_splits)
  qed
qed

text \<open>A slot lets go of its descriptor and its inode of one reference.\<close>

lemma drop_slot_sel:
  "inode_table (drop_slot c i d f) = inode_table f" "root_inode (drop_slot c i d f) = root_inode f"
  "slot_fd (drop_slot c i d f) s = (if s = (c, i) then None else slot_fd f s)"
  "f_desc_table (drop_slot c i d f) = (f_desc_table f)(d := let x = f_desc_table f d; n = fd_cnt x - 1
     in if n = 0 then x\<lparr>fd_cnt := n, fd_inode := None\<rparr> else x\<lparr>fd_cnt := n\<rparr>)"
  by (simp_all add: drop_slot_def Let_def)

lemma refs_ok_detach:
  assumes "refs_ok f S" "finite S" "(c, i) \<in> S" "slot_fd f (c, i) = Some d" "fd_inode (f_desc_table f d) = Some p"
    and h: "f_desc_table h = f_desc_table f" "inode_table h = (inode_table f)(p := (inode_table f p)\<lparr>i_cnt := i_cnt (inode_table f p) - 1\<rparr>)"
      "slot_fd h = slot_fd f" "root_inode h = root_inode f"
  shows "refs_ok (drop_slot c i d h) S"
proof -
  let ?g = "drop_slot c i d h" and ?T = "f_desc_table f"
  let ?n = "fd_cnt (?T d) - 1"
  note d = refs_ok_fd [OF assms(1, 3 - 5)]
  note g = drop_slot_sel [of c i d h, unfolded h Let_def]
  have "{t \<in> S. slot_fd ?g t = Some d} = {t \<in> S. slot_fd f t = Some d} - {(c, i)}" by (auto simp: g)
  then have "int (card {t \<in> S. slot_fd ?g t = Some d}) = ?n"
    using d(3, 4) assms(2 - 4) by (simp add: card_Diff_singleton of_nat_diff)
  moreover have "{t \<in> S. slot_fd ?g t = Some e} = {t \<in> S. slot_fd f t = Some e}" if "e \<noteq> d" for e using that assms(4) by (auto simp: g)
  ultimately have count: "int (card {t \<in> S. slot_fd ?g t = Some e}) = (if e = d then ?n else int (card {t \<in> S. slot_fd f t = Some e}))" for e
    by (cases "e = d") simp_all
  have gone: "slot_fd ?g t \<noteq> Some d" if "?n = 0" "t \<in> S" for t
  proof -
    have "card {t \<in> S. slot_fd ?g t = Some d} = 0" using count [of d] that(1) by simp
    then show ?thesis using assms(2) that(2) by (cases t) auto
  qed
  have load: "load ?g k = load f k - (if k = p then 1 else 0)" for k
    using load_upd [OF d(1), of ?g f _ k, OF g(4)] assms(5) by (simp add: refs_of_def)
  show ?thesis
    unfolding refs_ok_def count g(2)
  proof (intro conjI)
    show "\<forall>t\<in>S. \<forall>e. slot_fd ?g t = Some e \<longrightarrow> e < NR_FILE_DESC \<and> fd_inode (f_desc_table ?g e) \<noteq> None"
    proof (intro ballI allI impI)
      fix t e
      assume t: "t \<in> S" and e: "slot_fd ?g t = Some e"
      then have "slot_fd f t = Some e" by (simp add: g(3) split: if_splits)
      with assms(1) t have "e < NR_FILE_DESC \<and> fd_inode (?T e) \<noteq> None" by (auto simp: refs_ok_def)
      with gone [OF _ t] e assms(5) show "e < NR_FILE_DESC \<and> fd_inode (f_desc_table ?g e) \<noteq> None" by (auto simp: g(4))
    qed
    show "\<forall>e<NR_FILE_DESC. \<forall>k. fd_inode (f_desc_table ?g e) = Some k \<longrightarrow> k < NR_INODE \<and> 0 < fd_cnt (f_desc_table ?g e) \<and>
        fd_cnt (f_desc_table ?g e) = (if e = d then ?n else int (card {t \<in> S. slot_fd f t = Some e}))"
    proof (intro allI impI)
      fix e k
      assume e: "e < NR_FILE_DESC" "fd_inode (f_desc_table ?g e) = Some k"
      show "k < NR_INODE \<and> 0 < fd_cnt (f_desc_table ?g e) \<and>
        fd_cnt (f_desc_table ?g e) = (if e = d then ?n else int (card {t \<in> S. slot_fd f t = Some e}))"
      proof (cases "e = d")
        case True
        with e(2) d(2, 3) assms(5) show ?thesis by (auto simp: g(4) split: if_splits)
      next
        case False
        with e assms(1) show ?thesis by (auto simp: g(4) refs_ok_def)
      qed
    qed
    show "\<forall>k<NR_INODE. (if k = root_inode f then 1 else 0) + load ?g k \<le> i_cnt (inode_table ?g k)" "root_inode f < NR_INODE"
      using assms(1) unfolding refs_ok_def load g(1) by (auto split: if_splits)
  qed
qed

text \<open>A slot that holds a descriptor gives its inode a reference.\<close>

lemma refs_ok_positive:
  assumes "refs_ok f S" "s \<in> S" "slot_fd f s = Some d" "fd_inode (f_desc_table f d) = Some p"
  shows "i_cnt (inode_table f p) > 0"
proof -
  note d = refs_ok_fd [OF assms]
  have "fd_cnt (f_desc_table f d) \<le> load f p" using load_ge [OF assms(1) d(1), of p] assms(4) by (simp add: refs_of_def)
  moreover have "(if p = root_inode f then 1 else 0) + load f p \<le> i_cnt (inode_table f p)" using assms(1) d(2) by (simp add: refs_ok_def)
  ultimately show ?thesis using d(3) by (simp split: if_splits)
qed

section \<open>Closing, forking and exiting\<close>

lemma finite_all_slots: "finite all_slots"
  by (simp add: all_slots_def)

text \<open>The files as seen from outside are untouched: what is on disk, and all memory but the buffer. Only the tables may differ.\<close>

definition same_files :: "fs \<Rightarrow> fs \<Rightarrow> bool" where
  "same_files f g \<longleftrightarrow> mounted g \<and> super_blocks g = super_blocks f \<and> root_inode g = root_inode f \<and> fs_sect g = fs_sect f \<and>
     (\<forall>x. x \<notin> region fsbuf SECTOR_SIZE \<longrightarrow> fmem g x = fmem f x) \<and>
     (\<forall>c. ldts (proc_table (hks (drv g)) c) = ldts (proc_table (hks (drv f)) c))"

lemma same_files_trans: "same_files f g \<Longrightarrow> same_files g h \<Longrightarrow> same_files f h"
  by (simp add: same_files_def)

lemma set_filp_same: "mounted f \<Longrightarrow> same_files f (set_filp c fd v f)"
  by (simp add: same_files_def set_filp_def upd_proc_def mounted_def fs_ok_def fs_base_def sb0_def fs_sect_def fmem_def ldt_seg_linear_def fun_eq_iff)

lemma upd_fd_same: "mounted f \<Longrightarrow> same_files f (upd_fd d x f)"
  by (simp add: same_files_def)

lemma upd_inode_same: "mounted f \<Longrightarrow> same_files f (upd_inode p x f)"
  by (simp add: same_files_def)

lemma fs_frame_same_files: "fs_frame f g \<Longrightarrow> mounted g \<Longrightarrow> fs_sect g = fs_sect f \<Longrightarrow> same_files f g"
  using fs_frame_sel [of f g] fs_frame_mem [of f g] by (simp add: same_files_def)

lemma drop_slot_same: "mounted f \<Longrightarrow> same_files f (drop_slot c i d f)"
  unfolding drop_slot_def Let_def
  by (rule same_files_trans [OF _ set_filp_same]) (simp_all add: upd_fd_def same_files_def mounted_def fs_ok_def fs_base_def sb0_def fs_sect_def fmem_def fun_eq_iff)

lemma do_close_ok:
  assumes "refs_ok f all_slots" "pcaller f < nr_slots" "FD (fs_msg f) = of_nat fd" "fd < 64" "slot_fd f (pcaller f, fd) = Some d"
  shows "\<exists>p g. do_close f = Inr (0, g) \<and> refs_ok g all_slots \<and> (\<forall>s. slot_fd g s = (if s = (pcaller f, fd) then None else slot_fd f s)) \<and>
    fs_msg g = fs_msg f \<and> fd_inode (f_desc_table f d) = Some p \<and> f_desc_table g = f_desc_table (drop_slot (pcaller f) fd d f) \<and>
    inode_table g = (inode_table f)(p := (inode_table f p)\<lparr>i_cnt := i_cnt (inode_table f p) - 1\<rparr>) \<and> (mounted f \<longrightarrow> same_files f g)"
proof -
  have s: "(pcaller f, fd) \<in> all_slots" using assms(2, 4) by (simp add: all_slots_def)
  obtain p where p: "fd_inode (f_desc_table f d) = Some p" using refs_okD [OF assms(1) s assms(5)] by blast
  have pos: "i_cnt (inode_table f p) > 0" by (rule refs_ok_positive [OF assms(1) s assms(5) p])
  let ?h = "upd_inode p (\<lambda>x. x\<lparr>i_cnt := i_cnt x - 1\<rparr>) f"
  have "sint (FD (fs_msg f)) = int fd" using assms(3, 4) by (simp add: sint_of_nat_small)
  then have "do_close f = Inr (0, drop_slot (pcaller f) fd d ?h)"
    using assms(4, 5) p pos by (simp add: do_close_def caller_filp_def slot_fd_def put_inode_def Let_def)
  moreover have "refs_ok (drop_slot (pcaller f) fd d ?h) all_slots"
    by (rule refs_ok_detach [OF assms(1) finite_all_slots s assms(5) p]) simp_all
  moreover have "mounted f \<longrightarrow> same_files f (drop_slot (pcaller f) fd d ?h)"
    using same_files_trans [OF upd_inode_same drop_slot_same] by simp
  moreover have "fs_msg (drop_slot (pcaller f) fd d ?h) = fs_msg f" by (simp add: drop_slot_def Let_def)
  ultimately show ?thesis using p by (intro exI [of _ p] exI [of _ "drop_slot (pcaller f) fd d ?h"]) (simp add: drop_slot_sel)
qed

text \<open>
  C27. Closing a descriptor. When the counters are right and the caller has the descriptor open, \<^verbatim>\<open>do_close\<close>
  returns 0: its assertion that the inode is referenced holds, the slot is empty afterwards and no other slot
  changes, and the counters are right again.
\<close>

theorem do_close_keeps_refs:
  assumes "refs_ok f all_slots" "pcaller f < nr_slots" "FD (fs_msg f) = of_nat fd" "fd < 64" "slot_fd f (pcaller f, fd) = Some d"
  shows "\<exists>g. do_close f = Inr (0, g) \<and> refs_ok g all_slots \<and> (\<forall>s. slot_fd g s = (if s = (pcaller f, fd) then None else slot_fd f s))"
  using do_close_ok [OF assms] by blast

lemma exit_slot_ok:
  assumes "refs_ok f S" "finite S" "(c, i) \<in> S"
  shows "\<exists>g. exit_slot c i f = Inr g \<and> refs_ok g S \<and> (\<forall>s. slot_fd g s = (if s = (c, i) then None else slot_fd f s))"
proof (cases "slot_fd f (c, i)")
  case None
  then show ?thesis using assms(1) by (auto simp: exit_slot_def slot_fd_def)
next
  case (Some d)
  obtain p where p: "fd_inode (f_desc_table f d) = Some p" using refs_okD [OF assms(1, 3) Some] by blast
  let ?h = "upd_inode p (\<lambda>x. x\<lparr>i_cnt := i_cnt x - 1\<rparr>) f"
  have "exit_slot c i f = Inr (drop_slot c i d ?h)" using Some p by (simp add: exit_slot_def slot_fd_def)
  moreover have "refs_ok (drop_slot c i d ?h) S" by (rule refs_ok_detach [OF assms Some p]) simp_all
  ultimately show ?thesis by (simp add: drop_slot_sel)
qed

lemma each_exit_slot:
  assumes "refs_ok f S" "finite S" "\<And>i. i \<in> set is \<Longrightarrow> (c, i) \<in> S"
  shows "\<exists>g. each_slot (exit_slot c) is f = Inr g \<and> refs_ok g S \<and> (\<forall>s. slot_fd g s = (if fst s = c \<and> snd s \<in> set is then None else slot_fd f s))"
  using assms
proof (induction "is" arbitrary: f)
  case Nil
  then show ?case by simp
next
  case (Cons i "is")
  obtain g where g: "exit_slot c i f = Inr g" "refs_ok g S" "\<And>s. slot_fd g s = (if s = (c, i) then None else slot_fd f s)"
    using exit_slot_ok [OF Cons.prems(1, 2), of c i] Cons.prems(3) [of i] by auto
  obtain h where "each_slot (exit_slot c) is g = Inr h" "refs_ok h S" "\<And>s. slot_fd h s = (if fst s = c \<and> snd s \<in> set is then None else slot_fd g s)"
    using Cons.IH [OF g(2) assms(2)] Cons.prems(3) by auto
  with g(1, 3) show ?case by (intro exI [of _ h]) (auto simp: prod_eq_iff)
qed

lemma fork_slot_ok:
  assumes "refs_ok f S" "finite S" "(c, i) \<notin> S" "\<And>d. slot_fd f (c, i) = Some d \<Longrightarrow> \<exists>s\<in>S. slot_fd f s = Some d"
  shows "\<exists>g. fork_slot c i f = Inr g \<and> refs_ok g (insert (c, i) S) \<and> slot_fd g = slot_fd f"
proof (cases "slot_fd f (c, i)")
  case None
  then show ?thesis using assms(1) refs_ok_empty_slot [OF None] by (auto simp: fork_slot_def slot_fd_def)
next
  case (Some d)
  obtain s where "s \<in> S" "slot_fd f s = Some d" using assms(4) [OF Some] by blast
  then obtain p where p: "d < NR_FILE_DESC" "fd_inode (f_desc_table f d) = Some p" using refs_okD [OF assms(1)] by blast
  let ?g = "upd_inode p (\<lambda>x. x\<lparr>i_cnt := i_cnt x + 1\<rparr>) (upd_fd d (\<lambda>x. x\<lparr>fd_cnt := fd_cnt x + 1\<rparr>) f)"
  have "fork_slot c i f = Inr ?g" using Some p(2) by (simp add: fork_slot_def slot_fd_def Let_def)
  moreover have "refs_ok ?g (insert (c, i) S)" by (rule refs_ok_attach [OF assms(1 - 3) Some p]) simp_all
  ultimately show ?thesis by simp
qed

lemma each_fork_slot:
  assumes "refs_ok f S" "finite S" "distinct is" "\<And>i. i \<in> set is \<Longrightarrow> (c, i) \<notin> S \<and> (\<forall>d. slot_fd f (c, i) = Some d \<longrightarrow> (\<exists>s\<in>S. slot_fd f s = Some d))"
  shows "\<exists>g. each_slot (fork_slot c) is f = Inr g \<and> refs_ok g ((\<lambda>i. (c, i)) ` set is \<union> S) \<and> slot_fd g = slot_fd f"
  using assms
proof (induction "is" arbitrary: f S)
  case Nil
  then show ?case by simp
next
  case (Cons i "is")
  obtain g where g: "fork_slot c i f = Inr g" "refs_ok g (insert (c, i) S)" "slot_fd g = slot_fd f"
    using fork_slot_ok [OF Cons.prems(1, 2), of c i] Cons.prems(4) [of i] by auto
  have "\<exists>h. each_slot (fork_slot c) is g = Inr h \<and> refs_ok h ((\<lambda>i. (c, i)) ` set is \<union> insert (c, i) S) \<and> slot_fd h = slot_fd g"
    using Cons.prems(2 - 4) g(2) by (intro Cons.IH) (auto simp: g(3))
  with g(1, 3) show ?case by auto
qed

text \<open>
  C28. A process that ends gives back what it holds. When the counters are right, \<^verbatim>\<open>fs_exit\<close> cannot
  fail: all slots of the process are empty afterwards, no other slot changes, and the counters are right again.
\<close>

theorem fs_exit_releases:
  assumes "refs_ok f all_slots" "PID (fs_msg f) = of_nat c" "c < nr_slots"
  shows "\<exists>g. fs_exit f = Inr (0, g) \<and> refs_ok g all_slots \<and>
    (\<forall>s\<in>all_slots. slot_fd g s = (if fst s = c then None else slot_fd f s))"
proof -
  have "sint (PID (fs_msg f)) = int c" using assms(2, 3) by (simp add: sint_of_nat_small)
  moreover obtain g where "each_slot (exit_slot c) [0..<64] f = Inr g" "refs_ok g all_slots"
    "\<And>s. slot_fd g s = (if fst s = c \<and> snd s \<in> set [0..<64] then None else slot_fd f s)"
    using each_exit_slot [OF assms(1) finite_all_slots, of "[0..<64]" c] assms(3) by (auto simp: all_slots_def)
  ultimately show ?thesis using assms(3) by (auto simp: fs_exit_def all_slots_def)
qed

lemma each_fork_slot_keeps: "each_slot (fork_slot c) is f = Inr g \<Longrightarrow> drv g = drv f \<and> fs_msg g = fs_msg f"
proof (induction "is" arbitrary: f)
  case (Cons i "is")
  then obtain k where "fork_slot c i f = Inr k" "each_slot (fork_slot c) is k = Inr g" by (auto simp: bindE_eq_Inr)
  moreover from this(1) have "drv k = drv f \<and> fs_msg k = fs_msg f"
    by (auto simp: fork_slot_def upd_fd_def upd_inode_def Let_def split: option.splits)
  ultimately show ?case using Cons.IH [of k] by simp
qed simp

lemma fs_fork_ok:
  assumes "refs_ok f {s \<in> all_slots. fst s \<noteq> c}" "PID (fs_msg f) = of_nat c" "c < nr_slots" "parent < nr_slots" "parent \<noteq> c"
    "\<And>i. i < 64 \<Longrightarrow> slot_fd f (c, i) = slot_fd f (parent, i)"
  shows "\<exists>g. fs_fork f = Inr (0, g) \<and> refs_ok g all_slots \<and> slot_fd g = slot_fd f \<and> drv g = drv f \<and> fs_msg g = fs_msg f"
proof -
  let ?S = "{s \<in> all_slots. fst s \<noteq> c}"
  have "\<exists>g. each_slot (fork_slot c) [0..<64] f = Inr g \<and> refs_ok g ((\<lambda>i. (c, i)) ` set [0..<64] \<union> ?S) \<and> slot_fd g = slot_fd f"
  proof (rule each_fork_slot [OF assms(1)])
    fix i
    assume i: "i \<in> set [0..<64]"
    then have "(parent, i) \<in> ?S" using assms(4, 5) by (simp add: all_slots_def)
    then show "(c, i) \<notin> ?S \<and> (\<forall>d. slot_fd f (c, i) = Some d \<longrightarrow> (\<exists>s\<in>?S. slot_fd f s = Some d))"
      using assms(6) [of i] i by auto
  qed (simp_all add: finite_all_slots)
  moreover have "(\<lambda>i. (c, i)) ` set [0..<64] \<union> ?S = all_slots" using assms(3) by (auto simp: all_slots_def image_iff)
  moreover have "sint (PID (fs_msg f)) = int c" using assms(2, 3) by (simp add: sint_of_nat_small)
  ultimately show ?thesis using assms(3) by (auto simp: fs_fork_def dest: each_fork_slot_keeps)
qed

text \<open>
  The descriptors of a forked process. The memory manager has copied the table entry of the parent; the
  counters are right for all slots but those of the child. Then \<^verbatim>\<open>fs_fork\<close> cannot fail, changes no slot,
  and the counters are right for all of them.
\<close>

theorem fs_fork_counts_child:
  assumes "refs_ok f {s \<in> all_slots. fst s \<noteq> c}" "PID (fs_msg f) = of_nat c" "c < nr_slots" "parent < nr_slots" "parent \<noteq> c"
    "\<And>i. i < 64 \<Longrightarrow> slot_fd f (c, i) = slot_fd f (parent, i)"
  shows "\<exists>g. fs_fork f = Inr (0, g) \<and> refs_ok g all_slots \<and> slot_fd g = slot_fd f"
  using fs_fork_ok [OF assms] by blast

section \<open>Opening\<close>

text \<open>The request names a path: no zero byte, shorter than the buffer, in the memory of a process with flat segments.\<close>

definition names :: "fs \<Rightarrow> u8 list \<Rightarrow> bool" where
  "names f path \<longleftrightarrow> flat_source f \<and> NAME_LEN (fs_msg f) = of_nat (length path) \<and> length path < MAX_PATH \<and> 0 \<notin> set path \<and>
     load_bytes (fmem f) (PATHNAME (fs_msg f)) (length path) = path"

lemma fetch_path_ok: "names f path \<Longrightarrow> fetch_path ln cp f = Inr path"
proof -
  assume a: "names f path"
  then have "takeWhile (\<lambda>c. c \<noteq> 0) path = path" by (auto simp: names_def)
  with a show ?thesis
    by (simp add: fetch_path_def names_def flat_source_def va2la_pid_def va2la_def sint_of_nat_small Let_def)
qed

text \<open>Slot \<open>fd\<close> is the first empty one of the caller and \<open>d\<close> the first descriptor that is not in use.\<close>

definition free_fd :: "fs \<Rightarrow> nat \<Rightarrow> nat \<Rightarrow> bool" where
  "free_fd f fd d \<longleftrightarrow> first_index (\<lambda>i. slot_fd f (pcaller f, i) = None) 64 = Some fd \<and>
     first_index (\<lambda>i. fd_inode (f_desc_table f i) = None) NR_FILE_DESC = Some d"

text \<open>The effect of opening inode \<open>p\<close>: the caller's slot and the descriptor are set, all others are as before, and the counters
  are right.\<close>

definition opened :: "fs \<Rightarrow> nat \<Rightarrow> nat \<Rightarrow> nat \<Rightarrow> fs \<Rightarrow> bool" where
  "opened f fd d p g \<longleftrightarrow> (\<forall>s. slot_fd g s = (if s = (pcaller f, fd) then Some d else slot_fd f s)) \<and>
     f_desc_table g = (f_desc_table f)(d := \<lparr>fd_mode = FLAGS (fs_msg f), fd_pos = 0, fd_cnt = 1, fd_inode = Some p\<rparr>) \<and>
     refs_ok g all_slots"

lemma do_open_attaches:
  assumes "refs_ok f all_slots" "pcaller f < nr_slots" "names f path" "free_fd f fd d" "p < NR_INODE"
    and g: "open_inode path (FLAGS (fs_msg f)) f = Inr (Some p, g)" "i_mode (inode_table g p) = I_REGULAR"
      "i_cnt (inode_table g p) = i_cnt (inode_table f p) + 1" "\<And>k. k \<noteq> p \<Longrightarrow> i_cnt (inode_table g k) = i_cnt (inode_table f k)"
      "f_desc_table g = f_desc_table f" "root_inode g = root_inode f" "pcaller g = pcaller f" "proc_table (hks (drv g)) = proc_table (hks (drv f))"
  shows "\<exists>h. do_open f = Inr (int fd, h) \<and> opened f fd d p h \<and> inode_table h = inode_table g \<and> fs_msg h = fs_msg g \<and> pcaller h = pcaller g \<and>
    (mounted g \<longrightarrow> same_files g h)"
proof -
  let ?x = "\<lparr>fd_mode = FLAGS (fs_msg f), fd_pos = 0, fd_cnt = 1, fd_inode = Some p\<rparr>" and ?s = "(pcaller f, fd)"
  let ?h = "upd_fd d (\<lambda>_. ?x) (set_filp (pcaller f) fd (Some d) g)"
  from assms(4) have first: "first_index (\<lambda>i. filp (proc_table (hks (drv f)) (pcaller f)) i = None) 64 = Some fd"
      "first_index (\<lambda>i. fd_inode (f_desc_table f i) = None) NR_FILE_DESC = Some d"
    and free: "fd < 64" "slot_fd f ?s = None" "d < NR_FILE_DESC" "fd_inode (f_desc_table f d) = None"
    by (simp_all add: free_fd_def slot_fd_def first_index_Some)
  have "do_open f = Inr (int fd, ?h)"
    using fetch_path_ok [OF assms(3)] first g(1, 2, 7) by (simp add: do_open_def open_device_def Let_def)
  moreover have slots: "slot_fd ?h t = (if t = ?s then Some d else slot_fd f t)" for t
    using g(8) by (simp add: slot_fd_def set_filp_def upd_fd_def prod_eq_iff)
  moreover have "refs_ok ?h all_slots"
  proof -
    have s: "insert ?s (all_slots - {?s}) = all_slots" using assms(2) free(1) by (auto simp: all_slots_def)
    have "refs_ok f (all_slots - {?s})" using refs_ok_empty_slot [OF free(2), of "all_slots - {?s}"] assms(1) unfolding s by simp
    then have "refs_ok ?h (insert ?s (all_slots - {?s}))"
      by (rule refs_ok_fresh [OF _ _ _ free(3, 4) assms(5), where x = ?x]) (use g slots finite_all_slots in simp_all)
    then show ?thesis unfolding s .
  qed
  moreover have "mounted g \<longrightarrow> same_files g ?h"
    using same_files_trans [OF set_filp_same upd_fd_same] set_filp_same by (simp add: same_files_def)
  ultimately show ?thesis using g(5) by (intro exI [of _ ?h]) (simp only: opened_def, simp)
qed

text \<open>The root directory has an entry for the path, with inode number \<open>num\<close>.\<close>

definition path_at :: "fs \<Rightarrow> u8 list \<Rightarrow> u32 \<Rightarrow> bool" where
  "path_at f path nr \<longleftrightarrow> base_name path \<noteq> [] \<and> 0x2F \<notin> set (base_name path) \<and>
     lookup_name f (unat (i_start_sect (root_dir f))) (name_field (base_name path)) (unat (i_size (root_dir f)) div DIR_ENTRY_SIZE + 1) = nr"

lemma search_file_path:
  assumes "mounted f" "root_ok f" "path_at f path nr"
  shows "\<exists>g. search_file path f = Inr (nr, g) \<and> mounted g \<and> fs_sect g = fs_sect f \<and> fs_frame f g"
  using search_file_lookup [OF assms(1, 2), of path] assms(3) by (auto simp: path_at_def)

lemma cached_inode_cnt:
  assumes "find_inode ROOT_DEV (int num) f = Some p \<or> find_inode ROOT_DEV (int num) f = None \<and> i_cnt (inode_table f p) = 0"
  shows "i_cnt (cached_inode f num) = i_cnt (inode_table f p) + 1"
  using assms by (auto simp: cached_inode_def disk_inode_def Let_def)

lemma open_inode_existing:
  assumes "mounted f" "root_ok f" "path_at f path (of_nat num)" "1 \<le> num" "num \<le> 4096" "flags AND O_CREAT = 0" "flags AND O_RDWR \<noteq> 0"
    "find_inode ROOT_DEV (int num) f \<noteq> None \<or> (\<exists>p<NR_INODE. i_cnt (inode_table f p) = 0)"
  shows "\<exists>p g. open_inode path flags f = Inr (Some p, g) \<and> p < NR_INODE \<and> mounted g \<and> fs_sect g = fs_sect f \<and>
    (find_inode ROOT_DEV (int num) f = Some p \<or> find_inode ROOT_DEV (int num) f = None \<and> i_cnt (inode_table f p) = 0) \<and>
    fs_frame (upd_inode p (\<lambda>_. cached_inode f num) f) g"
proof -
  obtain g where g: "search_file path f = Inr (of_nat num, g)" "mounted g" "fs_sect g = fs_sect f" "fs_frame f g"
    using search_file_path [OF assms(1 - 3)] by blast
  note fr = fs_frame_sel [OF g(4)]
  have same: "find_inode ROOT_DEV (int num) g = find_inode ROOT_DEV (int num) f" "cached_inode g num = cached_inode f num"
    by (simp_all add: find_inode_def cached_inode_def fr(1) disk_inode_frame [OF g(4, 3)] split: option.split)
  obtain p h where h: "get_inode ROOT_DEV (int num) g = Inr (Some p, h)" "p < NR_INODE" "mounted h" "fs_sect h = fs_sect g"
    "find_inode ROOT_DEV (int num) f = Some p \<or> find_inode ROOT_DEV (int num) f = None \<and> i_cnt (inode_table f p) = 0"
    "fs_frame (upd_inode p (\<lambda>_. cached_inode f num) g) h"
    using get_inode_ok [OF g(2) assms(4, 5)] assms(8) unfolding same fr(1) by blast
  have "sint (of_nat num :: u32) = int num" using assms(5) by (simp add: sint_of_nat_small)
  moreover have "i_dev (inode_table g (root_inode g)) = ROOT_DEV" using assms(2) fr(1, 4) by (simp add: root_ok_def root_dir_def)
  ultimately have "open_inode path flags f = Inr (Some p, h)"
    using g(1) h(1) assms(3, 6, 7) by (simp add: open_inode_def strip_path_base path_at_def)
  moreover have "fs_frame (upd_inode p (\<lambda>_. cached_inode f num) f) h"
    using fs_frame_trans [OF fs_frame_upd_inode [OF g(4)] h(6)] .
  ultimately show ?thesis using h g(3) by auto
qed

lemma do_open_found:
  assumes "mounted f" "root_ok f" "refs_ok f all_slots" "pcaller f < nr_slots" "names f path" "free_fd f fd d"
    "path_at f path (of_nat num)" "1 \<le> num" "num \<le> 4096" "FLAGS (fs_msg f) AND O_CREAT = 0" "FLAGS (fs_msg f) AND O_RDWR \<noteq> 0"
    "find_inode ROOT_DEV (int num) f \<noteq> None \<or> (\<exists>p<NR_INODE. i_cnt (inode_table f p) = 0)" "i_mode (cached_inode f num) = I_REGULAR"
  shows "\<exists>p g. do_open f = Inr (int fd, g) \<and> opened f fd d p g \<and> inode_table g = (inode_table f)(p := cached_inode f num) \<and>
    (find_inode ROOT_DEV (int num) f = Some p \<or> find_inode ROOT_DEV (int num) f = None \<and> i_cnt (inode_table f p) = 0) \<and> fs_msg g = fs_msg f \<and>
    pcaller g = pcaller f \<and> same_files f g \<and> p < NR_INODE"
proof -
  obtain p g where g: "open_inode path (FLAGS (fs_msg f)) f = Inr (Some p, g)" "p < NR_INODE" "mounted g" "fs_sect g = fs_sect f"
    and p: "find_inode ROOT_DEV (int num) f = Some p \<or> find_inode ROOT_DEV (int num) f = None \<and> i_cnt (inode_table f p) = 0"
    and fr: "fs_frame (upd_inode p (\<lambda>_. cached_inode f num) f) g"
    using open_inode_existing [OF assms(1, 2, 7 - 12)] by blast
  note sel = fs_frame_sel [OF fr, simplified]
  have cnt: "i_cnt (inode_table g p) = i_cnt (inode_table f p) + 1" using cached_inode_cnt [OF p] by (simp add: sel(1))
  have same: "same_files f g" using fs_frame_same_files [OF fr g(3)] g(4) upd_inode_same [OF assms(1)] same_files_trans by fastforce
  have "\<exists>h. do_open f = Inr (int fd, h) \<and> opened f fd d p h \<and> inode_table h = inode_table g \<and> fs_msg h = fs_msg g \<and> pcaller h = pcaller g \<and>
    (mounted g \<longrightarrow> same_files g h)"
    by (rule do_open_attaches [OF assms(3 - 6) g(2, 1)]) (use cnt assms(13) sel in simp_all)
  with p sel(5, 6) g(2, 3) same_files_trans [OF same] show ?thesis unfolding sel(1) by (intro exI [of _ p]) auto
qed

text \<open>
  C25. Opening a file that exists. When the root directory has an entry for the path, with the number of a regular
  file, the request does not ask for creation, and there are a free slot, a free descriptor and, unless the inode is in
  the cache, a free entry there, \<^verbatim>\<open>do_open\<close> returns the first empty slot: it holds a fresh descriptor that leads to
  the inode, which is the one in the cache with one more reference or the one on disk. Every other
  slot, descriptor and inode is as before, and the counters are right again.
\<close>

theorem do_open_existing:
  assumes "mounted f" "root_ok f" "refs_ok f all_slots" "pcaller f < nr_slots" "names f path" "free_fd f fd d"
    "path_at f path (of_nat num)" "1 \<le> num" "num \<le> 4096" "FLAGS (fs_msg f) AND O_CREAT = 0" "FLAGS (fs_msg f) AND O_RDWR \<noteq> 0"
    "find_inode ROOT_DEV (int num) f \<noteq> None \<or> (\<exists>p<NR_INODE. i_cnt (inode_table f p) = 0)" "i_mode (cached_inode f num) = I_REGULAR"
  shows "\<exists>p g. do_open f = Inr (int fd, g) \<and> opened f fd d p g \<and> inode_table g = (inode_table f)(p := cached_inode f num) \<and>
    (find_inode ROOT_DEV (int num) f = Some p \<or> find_inode ROOT_DEV (int num) f = None \<and> i_cnt (inode_table f p) = 0)"
  using do_open_found [OF assms] by blast

lemma open_inode_new:
  assumes "mounted f" "root_ok f" "path_at f path 0" "flags AND O_CREAT \<noteq> 0" "room_for f num a q" "dir_at f (root_inode f) 1 s n"
    "i_cnt (inode_table f (root_inode f)) \<noteq> 0" "length (base_name path) \<le> 11" "dir_slot f s (slot_for f s n) = replicate 16 0"
  shows "\<exists>g. open_inode path flags f = Inr (Some q, g) \<and> created f num a q s n (base_name path) g"
proof -
  obtain g where g: "search_file path f = Inr (0, g)" "mounted g" "fs_sect g = fs_sect f" "fs_frame f g"
    using search_file_path [OF assms(1 - 3)] by blast
  note fr = fs_frame_sel [OF g(4)]
  have sb: "sb0 g = sb0 f" by (rule sb0_frame [OF g(4)])
  have slots: "dir_slot g s k = dir_slot f s k" for k by (simp add: dir_slot_def g(3))
  note k = slot_for_cong [of g s f n, OF slots]
  have maps: "map_bit g m = map_bit f m" for m by (simp add: map_bit_def g(3) fun_eq_iff)
  have room: "room_for g num a q" using assms(5) by (simp add: room_for_def maps sb fr(1) find_inode_def)
  have dir: "dir_at g (root_inode g) 1 s n" using assms(6) by (simp add: dir_at_def fr(1, 4) sb)
  obtain h where h: "create_file path g = Inr (Some q, h)" "created g num a q s n (base_name path) h"
    using create_file_creates [OF g(2) room dir _ refl] assms(3, 7 - 9) by (auto simp: fr(1, 4) path_at_def slots k)
  have "run_sector g a = run_sector f a" "disk_inode g m = disk_inode f m" for m
    using disk_inode_frame [OF g(4, 3)] by (simp_all add: run_sector_def sb)
  with h(2) have "created f num a q s n (base_name path) h"
    by (simp add: created_def fr slots k maps sb fs_frame_mem [OF g(4)])
  with g(1) h(1) assms(4) show ?thesis by (simp add: open_inode_def)
qed

lemma do_open_new:
  assumes "mounted f" "root_ok f" "refs_ok f all_slots" "pcaller f < nr_slots" "names f path" "free_fd f fd d"
    "path_at f path 0" "FLAGS (fs_msg f) AND O_CREAT \<noteq> 0" "room_for f num a q" "dir_at f (root_inode f) 1 s n"
    "length (base_name path) \<le> 11" "dir_slot f s (slot_for f s n) = replicate 16 0"
  shows "\<exists>g h. open_inode path (FLAGS (fs_msg f)) f = Inr (Some q, h) \<and> created f num a q s n (base_name path) h \<and>
    do_open f = Inr (int fd, g) \<and> opened f fd d q g \<and> inode_table g = inode_table h \<and> fs_msg g = fs_msg f \<and>
    pcaller g = pcaller f \<and> same_files h g \<and> q < NR_INODE"
proof -
  have root: "root_inode f < NR_INODE" "i_cnt (inode_table f (root_inode f)) > 0"
    using assms(3) load_nonneg [OF assms(3), of "root_inode f"] by (auto simp: refs_ok_def)
  then obtain h where h: "open_inode path (FLAGS (fs_msg f)) f = Inr (Some q, h)" "created f num a q s n (base_name path) h"
    using open_inode_new [OF assms(1, 2, 7 - 10) _ assms(11, 12)] by auto
  have q: "q < NR_INODE" "i_cnt (inode_table f q) = 0" "q \<noteq> root_inode f" using assms(9) root(2) by (auto simp: room_for_def first_index_Some)
  have "\<exists>g. do_open f = Inr (int fd, g) \<and> opened f fd d q g \<and> inode_table g = inode_table h \<and> fs_msg g = fs_msg h \<and> pcaller g = pcaller h \<and>
    (mounted h \<longrightarrow> same_files h g)"
    by (rule do_open_attaches [OF assms(3 - 6) q(1) h(1)]) (use h(2) q in \<open>auto simp: created_def file_inode_def grown_def\<close>)
  then show ?thesis using h q(1) unfolding created_def by (elim exE conjE) (intro exI conjI, assumption+, simp_all)
qed

text \<open>
  C26. Opening creates a file. When the request asks for creation, no entry has the name, and there is room as for
  \<^verbatim>\<open>create_file\<close>, \<^verbatim>\<open>do_open\<close> returns the first empty slot, whose fresh descriptor leads to the new, empty
  regular file; the counters are right again.
\<close>

theorem do_open_creates:
  assumes "mounted f" "root_ok f" "refs_ok f all_slots" "pcaller f < nr_slots" "names f path" "free_fd f fd d"
    "path_at f path 0" "FLAGS (fs_msg f) AND O_CREAT \<noteq> 0" "room_for f num a q" "dir_at f (root_inode f) 1 s n"
    "length (base_name path) \<le> 11" "dir_slot f s (slot_for f s n) = replicate 16 0"
  shows "\<exists>g h. open_inode path (FLAGS (fs_msg f)) f = Inr (Some q, h) \<and> created f num a q s n (base_name path) h \<and>
    do_open f = Inr (int fd, g) \<and> opened f fd d q g \<and> inode_table g q = file_inode num (run_sector f a)"
proof -
  obtain g h where gh: "open_inode path (FLAGS (fs_msg f)) f = Inr (Some q, h)" "created f num a q s n (base_name path) h"
    "do_open f = Inr (int fd, g)" "opened f fd d q g" "inode_table g = inode_table h"
    using do_open_new [OF assms] by blast
  have "q \<noteq> root_inode f" using assms(3, 9) load_nonneg [OF assms(3), of "root_inode f"] by (auto simp: refs_ok_def room_for_def first_index_Some)
  with gh show ?thesis by (auto simp: created_def)
qed

section \<open>Witnesses\<close>

text \<open>The processes \<open>ps\<close> hold descriptor 0 in slot 0, which leads to the file \<open>ab\<close>.\<close>

definition demo_held :: "nat list \<Rightarrow> memory \<Rightarrow> fs" where
  "demo_held ps h = (demo_fs h)\<lparr>f_desc_table := (\<lambda>_. zero_fd)(0 := \<lparr>fd_mode = O_RDWR, fd_pos = 0, fd_cnt = 1, fd_inode = Some 1\<rparr>),
     drv := (drv (demo_fs h))\<lparr>hks := (flat_kstate h)\<lparr>proc_table := (\<lambda>c. zero_proc\<lparr>filp := (\<lambda>i. if c \<in> set ps \<and> i = 0 then Some 0 else None)\<rparr>)\<rparr>\<rparr>\<rparr>"

lemma demo_held_slots: "slot_fd (demo_held ps h) s = (if fst s \<in> set ps \<and> snd s = 0 then Some 0 else None)"
  by (simp add: slot_fd_def demo_held_def)

lemma demo_held_sel:
  "f_desc_table (demo_held ps h) = (\<lambda>_. zero_fd)(0 := \<lparr>fd_mode = O_RDWR, fd_pos = 0, fd_cnt = 1, fd_inode = Some 1\<rparr>)"
  "inode_table (demo_held ps h) = inode_table (demo_fs h)" "root_inode (demo_held ps h) = 0"
  by (simp_all add: demo_held_def) (simp add: demo_fs_def)

lemma demo_held_refs:
  assumes "{s \<in> S. fst s \<in> set ps \<and> snd s = 0} = {(6, 0)}"
  shows "refs_ok (request m c (demo_held ps h)) S"
proof -
  let ?f = "request m c (demo_held ps h)"
  have sel: "slot_fd ?f = slot_fd (demo_held ps h)" "f_desc_table ?f = f_desc_table (demo_held ps h)"
    "inode_table ?f = inode_table (demo_fs h)" "root_inode ?f = 0"
    by (simp_all add: slot_fd_def fun_eq_iff demo_held_sel)
  have "load ?f k = (\<Sum>d<NR_FILE_DESC. if d = 0 then (if k = 1 then 1 else 0) else 0)" for k
    unfolding load_def sel(2) by (intro sum.cong) (auto simp: refs_of_def demo_held_sel zero_fd_def)
  then have load: "load ?f k = (if k = 1 then 1 else 0)" for k by simp
  have "{s \<in> S. slot_fd ?f s = Some 0} = {(6, 0)}" using assms by (auto simp: sel(1) demo_held_slots)
  then show ?thesis
    unfolding refs_ok_def load sel(2 - 4)
    by (auto simp: sel(1) demo_held_slots demo_held_sel zero_fd_def demo_table demo_root_def demo_file_def zero_inode_def split: if_splits)
qed

lemma one_slot: "{s \<in> all_slots. fst s \<in> set [6] \<and> snd s = 0} = {(6, 0)}"
  "{s \<in> {s \<in> all_slots. fst s \<noteq> 7}. fst s \<in> set [6, 7] \<and> snd s = 0} = {(6, 0)}"
  by (auto simp: all_slots_def)

lemma demo_held_request: "slot_fd (request m c (demo_held ps h)) s = (if fst s \<in> set ps \<and> snd s = 0 then Some 0 else None)"
  by (simp add: slot_fd_def demo_held_def)

theorem do_close_keeps_refs_witness:
  "\<exists>g. do_close (request (reset_msg\<lparr>m3i1 := 0\<rparr>) 6 (demo_held [6] (\<lambda>_. 7))) = Inr (0, g) \<and> slot_fd g (6, 0) = None"
  using do_close_keeps_refs [OF demo_held_refs [OF one_slot(1), of "reset_msg\<lparr>m3i1 := 0\<rparr>" 6 "\<lambda>_. 7"], of 0 0]
  by (fastforce simp: demo_held_request)

theorem fs_exit_releases_witness:
  "\<exists>g. fs_exit (request (reset_msg\<lparr>m3i2 := 6\<rparr>) 6 (demo_held [6] (\<lambda>_. 7))) = Inr (0, g) \<and> slot_fd g (6, 0) = None"
  using fs_exit_releases [of "request (reset_msg\<lparr>m3i2 := 6\<rparr>) 6 (demo_held [6] (\<lambda>_. 7))" 6, OF demo_held_refs [OF one_slot(1)]]
  by (auto simp: all_slots_def)

theorem fs_fork_counts_child_witness:
  "\<exists>g. fs_fork (request (reset_msg\<lparr>m3i2 := 7\<rparr>) 6 (demo_held [6, 7] (\<lambda>_. 7))) = Inr (0, g) \<and> refs_ok g all_slots"
  using fs_fork_counts_child [of "request (reset_msg\<lparr>m3i2 := 7\<rparr>) 6 (demo_held [6, 7] (\<lambda>_. 7))" 7 6, OF demo_held_refs [OF one_slot(2)]]
  by (auto simp: slot_fd_def demo_held_def)

text \<open>A request to open the path \<open>/a\<close> followed by one more character.\<close>

definition demo_path :: "u8 \<Rightarrow> memory" where
  "demo_path x = (\<lambda>_. 0)(0x5000 := 0x2F, 0x5001 := 0x61, 0x5002 := x)"

definition demo_open_request :: "u32 \<Rightarrow> u8 \<Rightarrow> fs" where
  "demo_open_request flags x = request (reset_msg\<lparr>source := 6, m3i1 := flags, m3i2 := 3, m3p1 := 0x5000\<rparr>) 6 (demo_held [6] (demo_path x))"

lemma demo_open_request_msg [simp]: "FLAGS (fs_msg (demo_open_request flags x)) = flags" "pcaller (demo_open_request flags x) = 6"
  by (simp_all add: demo_open_request_def)

lemma demo_open_request_sel:
  "inode_table (demo_open_request flags x) = inode_table (demo_fs (demo_path x))" "root_inode (demo_open_request flags x) = 0"
  "sb0 (demo_open_request flags x) = demo_sb" "fs_sect (demo_open_request flags x) = fs_sect (demo_fs (demo_path x))" "root_dir (demo_open_request flags x) = demo_root"
  by (simp_all add: demo_open_request_def demo_held_def sb0_def fs_sect_def fs_base_def root_dir_def fun_eq_iff) (simp_all add: demo_fs_def)

lemma demo_open_request_slots: "dir_slot (demo_open_request flags x) = dir_slot (demo_fs (demo_path x))" "map_bit (demo_open_request flags x) = map_bit (demo_fs (demo_path x))"
  by (simp_all add: dir_slot_def map_bit_def demo_open_request_sel fun_eq_iff)

lemma demo_open_request_ok: "mounted (demo_open_request flags x)" "root_ok (demo_open_request flags x)" "refs_ok (demo_open_request flags x) all_slots"
  "free_fd (demo_open_request flags x) 1 1"
proof -
  show "mounted (demo_open_request flags x)"
    using demo_mounted [of "demo_path x"]
    by (simp add: mounted_def fs_ok_def fs_base_def sb0_def demo_open_request_def demo_held_def flat_kstate_def ldt_seg_linear_def zero_proc_def zero_descriptor_def desc_base_def)
  show "root_ok (demo_open_request flags x)" by (simp add: root_ok_def demo_open_request_sel demo_root_def)
  show "refs_ok (demo_open_request flags x) all_slots" unfolding demo_open_request_def by (rule demo_held_refs [OF one_slot(1)])
  show "free_fd (demo_open_request flags x) 1 1"
    by (simp add: free_fd_def first_index_Some demo_open_request_def demo_held_request demo_held_sel zero_fd_def)
qed

lemma demo_open_request_names:
  assumes "x \<noteq> 0"
  shows "names (demo_open_request flags x) [0x2F, 0x61, x]"
  using assms
  by (simp add: names_def flat_source_def demo_open_request_def demo_held_def fmem_def flat_kstate_def ldt_seg_linear_def zero_proc_def
      zero_descriptor_def desc_base_def reset_msg_def demo_path_def load_bytes_def upt_rec)

lemma replicate_eq_Cons: "replicate n a = b # xs \<longleftrightarrow> (\<exists>m. n = Suc m \<and> a = b \<and> replicate m a = xs)"
  by (cases n) auto

lemma demo_open_request_path: "path_at (demo_open_request flags 0x62) [0x2F, 0x61, 0x62] 2" "path_at (demo_open_request flags 0x78) [0x2F, 0x61, 0x78] 0"
proof -
  have start: "unat (i_start_sect demo_root) = 261" "unat (i_size demo_root) div 16 + 1 = 3" by (simp_all add: demo_root_def)
  have name: "base_name [0x2F, 0x61, x] = [0x61, x]" for x by (simp add: base_name_def)
  have slot: "slot_name (le32 nr @ name_field y) = name_field y" "slot_inode (le32 nr @ name_field y) = nr" for nr y
    by (rule slot_of_entry) (simp add: slot_of_entry(2) name_field_def)
  have blank: "slot_name (replicate 16 0) = name_field []" by (simp add: slot_name_def name_field_def)
  have neq: "name_field [0x2E] \<noteq> name_field [0x61, x]" "name_field [] \<noteq> name_field [0x61, x]" "name_field [0x61, 0x62] \<noteq> name_field [0x61, 0x78]" for x
    by (simp_all add: name_field_def) (simp add: replicate_eq_Cons)
  note lookup = path_at_def name lookup_name_def demo_open_request_sel(5) demo_open_request_slots start
  have upt: "[0..<3] = [0, 1, 2 :: nat]" by (simp add: upt_rec)
  show "path_at (demo_open_request flags 0x62) [0x2F, 0x61, 0x62] 2"
    using demo_slots [of "demo_path 0x62"] neq unfolding lookup by (simp add: upt slot)
  show "path_at (demo_open_request flags 0x78) [0x2F, 0x61, 0x78] 0"
    using demo_slots [of "demo_path 0x78"] neq unfolding lookup by (simp add: upt slot blank)
qed

theorem do_open_existing_witness:
  "\<exists>p g. do_open (demo_open_request O_RDWR 0x62) = Inr (1, g) \<and> opened (demo_open_request O_RDWR 0x62) 1 1 p g"
proof -
  let ?f = "demo_open_request O_RDWR 0x62"
  have find: "find_inode ROOT_DEV 2 ?f = Some 1"
    by (auto simp: find_inode_def first_index_Some demo_open_request_sel demo_table demo_root_def demo_file_def)
  then have "i_mode (cached_inode ?f 2) = I_REGULAR" by (simp add: cached_inode_def demo_open_request_sel demo_table demo_file_def)
  with find show ?thesis
    using do_open_existing [OF demo_open_request_ok(1 - 3) _ demo_open_request_names demo_open_request_ok(4), of O_RDWR "0x62" 2]
      demo_open_request_path(1) [of O_RDWR] by auto
qed

theorem do_open_creates_witness:
  "\<exists>g. do_open (demo_open_request (O_CREAT OR O_RDWR) 0x78) = Inr (1, g) \<and> inode_table g 2 = file_inode 3 4357"
proof -
  let ?f = "demo_open_request (O_CREAT OR O_RDWR) 0x78"
  have room: "room_for ?f 3 4097 2"
    using demo_room [of "demo_path 0x78"] by (simp add: room_for_def demo_open_request_slots demo_open_request_sel demo_sb0 find_inode_def)
  have dir: "dir_at ?f (root_inode ?f) 1 261 2"
    using demo_dir_at [of "demo_path 0x78"] by (simp add: dir_at_def demo_open_request_sel demo_sb0) (simp add: demo_fs_def)
  have slot: "dir_slot ?f 261 (slot_for ?f 261 2) = replicate 16 0"
    using demo_slot_for [of "demo_path 0x78"] demo_slots [of "demo_path 0x78"] by (simp add: slot_for_def demo_open_request_slots)
  have "run_sector ?f 4097 = 4357" by (simp add: run_sector_def demo_open_request_sel demo_sb_def)
  with slot show ?thesis
    using do_open_creates [OF demo_open_request_ok(1 - 3) _ demo_open_request_names demo_open_request_ok(4) _ _ room dir] demo_open_request_path(2) [of "O_CREAT OR O_RDWR"]
    by (auto simp: base_name_def)
qed

end
