(* ===== verification/Fs_Unlink.thy ===== *)
theory Fs_Unlink
  imports Fs_Open
begin

text \<open>
  Removing files, \<^verbatim>\<open>do_unlink\<close> of \<^verbatim>\<open>fs/link.c\<close>: the bits of the two maps, the inode and the directory entry of
  the file are cleared. What the routine prints when it refuses is left out.
\<close>

section \<open>Operations\<close>

definition free_imap_bit :: "int \<Rightarrow> int \<Rightarrow> fs \<Rightarrow> fs result" where
  "free_imap_bit dev inode_nr f =
     (let byte_idx = inode_nr sdiv 8; bit_idx = inode_nr smod 8
      in check 56 (byte_idx < SECTOR_SIZE)
         (bindE (RD_SECT dev 2 f) (\<lambda>f.
            if inode_nr < 0 then Inl (OutOfBounds 58)
            else let b = fs_buf f ! nat byte_idx
                 in check 58 (bit b (nat bit_idx))
                    (WR_SECT dev 2 (put_buf ((fs_buf f)[nat byte_idx := unset_bit (nat bit_idx) b]) f)))))"

text \<open>The loop over the bits of the first byte; \<open>left\<close> is \<^verbatim>\<open>bits_left\<close>.\<close>

fun clear_bits :: "u8 \<Rightarrow> nat list \<Rightarrow> int \<Rightarrow> (u8 \<times> int) result" where
  "clear_bits b [] left = Inr (b, left)"
| "clear_bits b (i # is) left =
     (if left = 0 then Inr (b, left) else check 72 (bit b i) (clear_bits (unset_bit i b) is (left - 1)))"

text \<open>At the end of the buffer the next sector of the map is taken up.\<close>

definition next_sect :: "int \<Rightarrow> nat \<Rightarrow> u32 \<Rightarrow> fs \<Rightarrow> (nat \<times> u32 \<times> fs) result" where
  "next_sect dev i s f =
     (if i = SECTOR_SIZE then bindE (WR_SECT dev s f) (\<lambda>f. bindE (RD_SECT dev (s + 1) f) (\<lambda>f. Inr (0, s + 1, f)))
      else Inr (i, s, f))"

text \<open>The loop over the bytes that the file fills; the first argument after the device is how many.\<close>

fun clear_bytes :: "int \<Rightarrow> nat \<Rightarrow> nat \<Rightarrow> u32 \<Rightarrow> int \<Rightarrow> fs \<Rightarrow> (nat \<times> u32 \<times> int \<times> fs) result" where
  "clear_bytes dev 0 i s left f = Inr (i, s, left, f)"
| "clear_bytes dev (Suc k) i s left f =
     bindE (next_sect dev i s f) (\<lambda>(i, s, f).
       check 84 (fs_buf f ! i = 0xFF) (clear_bytes dev k (i + 1) s (left - 8) (put_buf ((fs_buf f)[i := 0]) f)))"

text \<open>A shift by \<^verbatim>\<open>bits_left\<close> outside of 0 to 31 has no defined result.\<close>

definition clear_last :: "int \<Rightarrow> nat \<Rightarrow> u32 \<Rightarrow> int \<Rightarrow> fs \<Rightarrow> fs result" where
  "clear_last dev i s left f =
     bindE (next_sect dev i s f) (\<lambda>(i, s, f).
       if left < 0 \<or> 31 < left then Inl (OutOfBounds 93)
       else check 94 (fs_buf f ! i AND mask (nat left) = mask (nat left))
            (WR_SECT dev s (put_buf ((fs_buf f)[i := fs_buf f ! i AND NOT (mask (nat left))]) f)))"

definition free_smap_bits :: "super_block \<Rightarrow> inode \<Rightarrow> fs \<Rightarrow> fs result" where
  "free_smap_bits sb x f =
     (let dev = i_dev x; bit_idx = sint (i_start_sect x - n_1st_sect sb + 1); byte_idx = bit_idx sdiv 8;
          left = sint (i_nr_sects x); byte_cnt = (left - (8 - bit_idx smod 8)) sdiv 8;
          s = 2 + nr_imap_sects sb + word_of_int (byte_idx sdiv SECTOR_SIZE)
      in bindE (RD_SECT dev s f) (\<lambda>f.
           if bit_idx < 0 then Inl (OutOfBounds 72)
           else let i = nat (byte_idx smod SECTOR_SIZE)
                in bindE (clear_bits (fs_buf f ! i) [nat (bit_idx smod 8)..<8] left) (\<lambda>(b, left).
                   bindE (clear_bytes dev (nat byte_cnt) (i + 1) s left (put_buf ((fs_buf f)[i := b]) f)) (\<lambda>(i, s, left, f).
                     clear_last dev i s left f))))"

definition clear_inode :: "nat \<Rightarrow> fs \<Rightarrow> fs result" where
  "clear_inode p f =
     bindE (sync_inode p (upd_inode p (\<lambda>x. x\<lparr>i_mode := 0, i_size := 0, i_start_sect := 0, i_nr_sects := 0\<rparr>) f)) (put_inode p)"

text \<open>The search for the entry in one sector: the entry found, the count of entries seen, and \<^verbatim>\<open>dir_size\<close>.\<close>

fun entry_of :: "memory \<Rightarrow> u32 \<Rightarrow> nat \<Rightarrow> nat \<Rightarrow> u32 \<Rightarrow> nat list \<Rightarrow> nat option \<times> nat \<times> u32" where
  "entry_of h inode_nr nr_dir_entries m dir_size [] = (None, m, dir_size)"
| "entry_of h inode_nr nr_dir_entries m dir_size (j # js) =
     (if m + 1 > nr_dir_entries then (None, m + 1, dir_size)
      else if entry_inode h j = inode_nr then (Some j, m + 1, dir_size)
      else entry_of h inode_nr nr_dir_entries (m + 1) (if entry_inode h j \<noteq> 0 then dir_size + DIR_ENTRY_SIZE else dir_size) js)"

fun clear_entry :: "u32 \<Rightarrow> nat \<Rightarrow> int \<Rightarrow> u32 \<Rightarrow> nat \<Rightarrow> u32 \<Rightarrow> nat list \<Rightarrow> fs \<Rightarrow> (bool \<times> nat \<times> u32 \<times> fs) result" where
  "clear_entry inode_nr nr_dir_entries dev dir_blk0_nr m dir_size [] f = Inr (False, m, dir_size, f)"
| "clear_entry inode_nr nr_dir_entries dev dir_blk0_nr m dir_size (i # is) f =
     bindE (RD_SECT dev (dir_blk0_nr + of_nat i) f) (\<lambda>f.
       case entry_of (fmem f) inode_nr nr_dir_entries m dir_size [0..<SECTOR_SIZE div DIR_ENTRY_SIZE] of
         (Some j, m, dir_size) \<Rightarrow>
           bindE (WR_SECT dev (dir_blk0_nr + of_nat i)
               (set_fmem (store_bytes (fmem f) (fsbuf + of_nat (DIR_ENTRY_SIZE * j)) (replicate DIR_ENTRY_SIZE 0)) f)) (\<lambda>f.
             Inr (True, m, dir_size, f))
       | (None, m, dir_size) \<Rightarrow>
           if m > nr_dir_entries then Inr (False, m, dir_size, f)
           else clear_entry inode_nr nr_dir_entries dev dir_blk0_nr m dir_size is f)"

definition remove_entry :: "nat \<Rightarrow> u32 \<Rightarrow> fs \<Rightarrow> fs result" where
  "remove_entry dir inode_nr f =
     (let d = inode_table f dir; nr_dir_blks = unat ((i_size d + SECTOR_SIZE) div SECTOR_SIZE);
          nr_dir_entries = unat (i_size d div DIR_ENTRY_SIZE)
      in bindE (clear_entry inode_nr nr_dir_entries (i_dev d) (i_start_sect d) 0 0 [0..<nr_dir_blks] f) (\<lambda>(flg, m, dir_size, f).
           check 134 flg
           (if m = nr_dir_entries then sync_inode dir (upd_inode dir (\<lambda>d. d\<lparr>i_size := dir_size\<rparr>) f) else Inr f)))"

definition do_unlink :: "fs \<Rightarrow> (int \<times> fs) result" where
  "do_unlink f =
     bindE (fetch_path 19 20 f) (\<lambda>pathname.
       if strcmp_spec pathname [0x2F] = 0 then Inr (- 1, f)
       else bindE (search_file pathname f) (\<lambda>(inode_nr, f).
         if inode_nr = 0 then Inr (- 1, f)
         else case strip_path pathname of
           None \<Rightarrow> Inr (- 1, f)
         | Some filename \<Rightarrow>
             let dir = root_inode f
             in bindE (get_inode (i_dev (inode_table f dir)) (sint inode_nr) f) (\<lambda>(r, f).
                case r of
                  None \<Rightarrow> Inl (OutOfBounds 41)
                | Some p \<Rightarrow>
                    let x = inode_table f p
                    in if i_mode x \<noteq> I_REGULAR then Inr (- 1, f)
                       else if i_cnt x > 1 then Inr (- 1, f)
                       else bindE (get_super_block (i_dev x) f) (\<lambda>sb.
                            bindE (free_imap_bit (i_dev x) (sint inode_nr) f) (\<lambda>f.
                            bindE (free_smap_bits sb x f) (\<lambda>f.
                            bindE (clear_inode p f) (\<lambda>f.
                            bindE (remove_entry dir inode_nr f) (\<lambda>f. Inr (0, f)))))))))"

text \<open>
  C33. An absolute path is never removed. \<^verbatim>\<open>strcmp\<close> does not tell a string from a prefix of it, so the test for the
  root directory refuses every path that begins with a slash, and the empty path: \<^verbatim>\<open>do_unlink\<close> returns -1 and
  changes nothing.
\<close>

theorem do_unlink_refuses_absolute:
  assumes "names f path" "path = [] \<or> hd path = 0x2F"
  shows "do_unlink f = Inr (- 1, f)"
proof -
  have "strcmp_spec path [0x2F] = 0" using assms(2) by (cases path) (simp_all add: strcmp_spec_prefix)
  then show ?thesis using fetch_path_ok [OF assms(1), of 19 20] by (simp add: do_unlink_def)
qed

section \<open>Clearing bits of the maps\<close>

lemma signed_nonneg: "0 \<le> a \<Longrightarrow> 0 < b \<Longrightarrow> a sdiv b = a div b" "0 \<le> a \<Longrightarrow> 0 < b \<Longrightarrow> a smod b = (a mod b :: int)"
  by (auto simp: signed_divide_int_def signed_modulo_int_def sgn_if)

lemma bits_unset_bit:
  assumes "n < 8 * length bs" "m < 8 * length bs"
  shows "bits (bs[n div 8 := unset_bit (n mod 8) (bs ! (n div 8))]) m = (bits bs m \<and> m \<noteq> n)"
proof (cases "m div 8 = n div 8")
  case True
  then have "m mod 8 = n mod 8 \<longleftrightarrow> m = n" by (metis div_mult_mod_eq)
  with True assms show ?thesis by (simp add: bits_update bit_unset_bit_iff less_mult_imp_div_less) (auto simp: bits_def)
next
  case False
  then have "m \<noteq> n" by blast
  with False assms show ?thesis by (simp add: bits_update less_mult_imp_div_less)
qed

lemma free_imap_bit_ok:
  assumes "mounted f" "n < 4096" "map_bit f 2 n"
  shows "\<exists>g. free_imap_bit ROOT_DEV (int n) f = Inr g \<and> mounted g \<and> fs_frame f g \<and>
    (\<forall>m<4096. map_bit g 2 m = (map_bit f 2 m \<and> m \<noteq> n)) \<and> (\<forall>s. s \<noteq> 2 \<longrightarrow> fs_sect g s = fs_sect f s)"
proof -
  have ok: "fs_ok f" using assms(1) by (simp add: mounted_def)
  have len: "length (fs_sect f 2) = SECTOR_SIZE" by (rule fs_sect_length [OF ok])
  obtain g where g: "RD_SECT ROOT_DEV 2 f = Inr g" "fs_ok g" "fs_buf g = fs_sect f 2" "fs_sect g = fs_sect f" "fs_frame f g"
    using root.rd_ok [OF ok, of 2] by auto
  let ?bs = "(fs_sect f 2)[n div 8 := unset_bit (n mod 8) (fs_sect f 2 ! (n div 8))]"
  have p: "fs_ok (put_buf ?bs g)" "fs_buf (put_buf ?bs g) = ?bs" "fs_sect (put_buf ?bs g) = fs_sect f" "fs_frame g (put_buf ?bs g)"
    using put_buf_edits [OF g(2), of ?bs] len g(4) by simp_all
  obtain h where h: "WR_SECT ROOT_DEV 2 (put_buf ?bs g) = Inr h" "fs_ok h" "fs_sect h = (fs_sect f)(2 := ?bs)" "fs_frame (put_buf ?bs g) h"
    using root.wr_ok [OF p(1), of 2] p(2, 3) by auto
  have fr: "fs_frame f h" using fs_frame_trans [OF fs_frame_trans [OF g(5) p(4)] h(4)] .
  have byte: "n div 8 < SECTOR_SIZE" "nat (int n div 8) = n div 8" "nat (int n mod 8) = n mod 8"
    using assms(2) by (simp_all add: nat_div_distrib nat_mod_distrib)
  have "bit (fs_sect f 2 ! (n div 8)) (n mod 8)" using assms(2, 3) by (simp add: map_bit_def bits_def)
  then have "free_imap_bit ROOT_DEV (int n) f = Inr h"
    using g(1, 3) h(1) byte by (simp add: free_imap_bit_def Let_def signed_nonneg)
  moreover have "map_bit h 2 m = (map_bit f 2 m \<and> m \<noteq> n)" if "m < 4096" for m
    using that assms(2) len by (simp add: map_bit_def h(3) bits_unset_bit)
  ultimately show ?thesis using fr h mounted_frame [OF assms(1) h(2) fr] by (intro exI [of _ h]) simp
qed

text \<open>
  The sector map as the loops see it, with sector \<open>t\<close> of it in the buffer, and their invariant: when
  they stand at bit \<open>p\<close>, the bits of the run that begins at \<open>a\<close> are cleared up to \<open>p\<close>.
\<close>

definition buffered :: "fs \<Rightarrow> nat \<Rightarrow> nat \<Rightarrow> bool" where
  "buffered f t n = (if n div 4096 = t then bits (fs_buf f) (n mod 4096) else map_bit f 3 n)"

definition clearing :: "fs \<Rightarrow> nat \<Rightarrow> nat \<Rightarrow> nat \<Rightarrow> fs \<Rightarrow> bool" where
  "clearing f a p t g \<longleftrightarrow> mounted g \<and> fs_frame f g \<and> t < unat (nr_smap_sects (sb0 f)) \<and>
     (\<forall>s. s < 3 \<or> 3 + unat (nr_smap_sects (sb0 f)) \<le> s \<longrightarrow> fs_sect g s = fs_sect f s) \<and>
     (\<forall>n<4096 * unat (nr_smap_sects (sb0 f)). buffered g t n = (map_bit f 3 n \<and> \<not> (a \<le> n \<and> n < p)))"

lemma map_sector: "n < 4096 * l \<Longrightarrow> n div 4096 < (l :: nat)"
  by (simp add: less_mult_imp_div_less mult.commute)

lemma byte_of_bit:
  assumes "i < SECTOR_SIZE"
  shows "n div 8 = 512 * t + i \<longleftrightarrow> n div 4096 = t \<and> n mod 4096 div 8 = (i :: nat)"
proof -
  have "n div 4096 = n div 8 div 512" using div_mult2_eq [of n 8 512] by simp
  moreover have "n mod 4096 div 8 = n div 8 mod 512" using mod_mult2_eq [of n 8 512] by simp
  ultimately show ?thesis using assms mult_div_mod_eq [of 512 "n div 8"] by auto
qed

lemma clearing_byte:
  assumes "clearing f a p t g" "i < SECTOR_SIZE" "p \<le> q" "\<And>n. p \<le> n \<Longrightarrow> n < q \<Longrightarrow> n div 8 = 512 * t + i"
    "\<And>k. k < 8 \<Longrightarrow> bit b k = (bit (fs_buf g ! i) k \<and> \<not> (a \<le> 4096 * t + 8 * i + k \<and> 4096 * t + 8 * i + k < q))"
  shows "clearing f a q t (put_buf ((fs_buf g)[i := b]) g)"
proof -
  let ?h = "put_buf ((fs_buf g)[i := b]) g"
  have g: "mounted g" "fs_frame f g" and ok: "fs_ok g" using assms(1) by (simp_all add: clearing_def mounted_def)
  have len: "length (fs_buf g) = SECTOR_SIZE" by (simp add: fs_buf_def)
  note put = put_buf_edits [OF ok, of "(fs_buf g)[i := b]", unfolded length_list_update, OF len]
  have fr: "fs_frame f ?h" by (rule fs_frame_trans [OF g(2) put(4)])
  have "buffered ?h t n = (map_bit f 3 n \<and> \<not> (a \<le> n \<and> n < q))" if n: "n < 4096 * unat (nr_smap_sects (sb0 f))" for n
  proof (cases "n div 4096 = t \<and> n mod 4096 div 8 = i")
    case True
    then have split: "n = 4096 * t + 8 * i + n mod 8" using byte_of_bit [OF assms(2), of n t] mult_div_mod_eq [of 8 n] by simp
    have "buffered ?h t n = bit b (n mod 8)"
      using True len put(2) assms(2) by (simp add: buffered_def bits_update mod_mod_cancel)
    also have "\<dots> = (buffered g t n \<and> \<not> (a \<le> n \<and> n < q))"
      using assms(5) [of "n mod 8"] split True by (simp add: buffered_def bits_def mod_mod_cancel)
    finally show ?thesis using assms(1, 3) n by (auto simp: clearing_def)
  next
    case False
    then have "n div 8 \<noteq> 512 * t + i" using byte_of_bit [OF assms(2)] by blast
    then have "\<not> (p \<le> n \<and> n < q)" using assms(4) by blast
    moreover have "buffered ?h t n = buffered g t n"
      using False len put(2, 3) assms(2) by (auto simp: buffered_def bits_update map_bit_def)
    ultimately show ?thesis using assms(1, 3) n by (auto simp: clearing_def)
  qed
  then show ?thesis using assms(1) put mounted_frame [OF g(1) put(1, 4)] fr by (simp add: clearing_def)
qed

lemma clearing_next:
  assumes "clearing f a (4096 * t + 8 * i) t g" "i \<le> SECTOR_SIZE" "4096 * t + 8 * i < 4096 * unat (nr_smap_sects (sb0 f))"
  shows "\<exists>i' t' h. next_sect ROOT_DEV i (of_nat (3 + t)) g = Inr (i', of_nat (3 + t'), h) \<and> i' < SECTOR_SIZE \<and>
    4096 * t' + 8 * i' = 4096 * t + 8 * i \<and> clearing f a (4096 * t + 8 * i) t' h"
proof (cases "i = SECTOR_SIZE")
  case True
  let ?l = "unat (nr_smap_sects (sb0 f))"
  have g: "mounted g" "fs_frame f g" "fs_ok g" and t: "Suc t < ?l" using assms(1, 3) True by (simp_all add: clearing_def mounted_def)
  have "nr_smap_sects (sb0 g) = nr_smap_sects (sb0 f)" using sb0_frame [OF g(2)] by simp
  then have lim: "3 + ?l < sect_limit" using g(1) by (auto simp: mounted_def)
  obtain h where h: "WR_SECT ROOT_DEV (of_nat (3 + t)) g = Inr h" "fs_ok h" "fs_sect h = (fs_sect g)(3 + t := fs_buf g)" "fs_frame g h"
    using root.wr_ok [OF g(3), of "3 + t"] lim t by auto
  obtain k where k: "RD_SECT ROOT_DEV (of_nat (3 + Suc t)) h = Inr k" "fs_ok k" "fs_buf k = fs_sect h (3 + Suc t)" "fs_sect k = fs_sect h" "fs_frame h k"
    using root.rd_ok [OF h(2), of "3 + Suc t"] lim t by auto
  have fr: "fs_frame g k" by (rule fs_frame_trans [OF h(4) k(5)])
  have "buffered k (Suc t) n = buffered g t n" for n
    by (auto simp: buffered_def k(3, 4) h(3) map_bit_def)
  then have "clearing f a (4096 * t + 8 * i) (Suc t) k"
    using assms(1) t mounted_frame [OF g(1) k(2) fr] fs_frame_trans [OF g(2) fr] by (simp add: clearing_def k(4) h(3))
  moreover have "next_sect ROOT_DEV i (of_nat (3 + t)) g = Inr (0, of_nat (3 + Suc t), k)"
    using True h(1) k(1) by (simp add: next_sect_def add_ac)
  ultimately show ?thesis using True by (intro exI [of _ 0] exI [of _ "Suc t"] exI [of _ k]) simp
qed (use assms in \<open>auto simp: next_sect_def\<close>)

lemma clear_bits_run:
  assumes "k \<le> 8" "8 \<le> k + left" "\<And>m. k \<le> m \<Longrightarrow> m < 8 \<Longrightarrow> bit b m"
  shows "\<exists>c. clear_bits b [k..<8] (int left) = Inr (c, int (left - (8 - k))) \<and> (\<forall>m<8. bit c m = (bit b m \<and> m < k))"
  using assms
proof (induction "8 - k" arbitrary: k b left)
  case 0
  then show ?case by simp
next
  case (Suc d)
  then have k: "k < 8" "[k..<8] = k # [Suc k..<8]" "left \<noteq> 0" by (simp_all add: upt_conv_Cons)
  obtain l where l: "left = Suc l" using k(3) by (cases left) simp_all
  have "\<exists>c. clear_bits (unset_bit k b) [Suc k..<8] (int l) = Inr (c, int (l - (8 - Suc k))) \<and> (\<forall>m<8. bit c m = (bit (unset_bit k b) m \<and> m < Suc k))"
    using Suc.prems Suc.hyps(2) l by (intro Suc.hyps(1)) (auto simp: bit_unset_bit_iff)
  then obtain c where c: "clear_bits (unset_bit k b) [Suc k..<8] (int l) = Inr (c, int (l - (8 - Suc k)))"
    "\<And>m. m < 8 \<Longrightarrow> bit c m = (bit (unset_bit k b) m \<and> m < Suc k)" by blast
  have "bit b k" using Suc.prems(3) k(1) by simp
  then show ?case
    using c k(1) unfolding k(2) by (intro exI [of _ c]) (auto simp: l bit_unset_bit_iff less_Suc_eq Suc_diff_le)
qed

lemma buffered_byte:
  assumes "clearing f a p t g" "i < SECTOR_SIZE" "m < 8" "4096 * t + 8 * i + m < 4096 * unat (nr_smap_sects (sb0 f))"
  shows "bit (fs_buf g ! i) m = (map_bit f 3 (4096 * t + 8 * i + m) \<and> \<not> (a \<le> 4096 * t + 8 * i + m \<and> 4096 * t + 8 * i + m < p))"
proof -
  let ?n = "4096 * t + 8 * i + m"
  have "?n = 8 * (512 * t + i) + m" by simp
  then have "?n div 8 = 512 * t + i" "?n mod 8 = m" using assms(3) by (simp_all only: div_mult_self4 mod_mult_self4) simp_all
  then have "buffered g t ?n = bit (fs_buf g ! i) m"
    using byte_of_bit [OF assms(2), of ?n t] by (simp add: buffered_def bits_def mod_mod_cancel)
  then show ?thesis using assms(1, 4) by (simp add: clearing_def)
qed

lemma clear_bytes_run:
  assumes "clearing f a (4096 * t + 8 * i) t g" "i \<le> SECTOR_SIZE" "a \<le> 4096 * t + 8 * i"
    "4096 * t + 8 * i + 8 * c < 4096 * unat (nr_smap_sects (sb0 f))"
    "\<And>n. 4096 * t + 8 * i \<le> n \<Longrightarrow> n < 4096 * t + 8 * i + 8 * c \<Longrightarrow> map_bit f 3 n"
  shows "\<exists>i' t' h. clear_bytes ROOT_DEV c i (of_nat (3 + t)) left g = Inr (i', of_nat (3 + t'), left - 8 * int c, h) \<and> i' \<le> SECTOR_SIZE \<and>
    4096 * t' + 8 * i' = 4096 * t + 8 * i + 8 * c \<and> clearing f a (4096 * t + 8 * i + 8 * c) t' h"
  using assms
proof (induction c arbitrary: t i g left)
  case 0
  then show ?case by auto
next
  case (Suc c)
  obtain i1 t1 h where h: "next_sect ROOT_DEV i (of_nat (3 + t)) g = Inr (i1, of_nat (3 + t1), h)" "i1 < SECTOR_SIZE"
    "4096 * t1 + 8 * i1 = 4096 * t + 8 * i" "clearing f a (4096 * t1 + 8 * i1) t1 h"
    using clearing_next [OF Suc.prems(1, 2)] Suc.prems(4) by auto
  let ?p = "4096 * t1 + 8 * i1" and ?k = "put_buf ((fs_buf h)[i1 := 0]) h"
  note prems = Suc.prems(3 - 5) [folded h(3)]
  have "bit (fs_buf h ! i1) m" if "m < 8" for m
    using buffered_byte [OF h(4, 2) that] that prems by auto
  then have full: "fs_buf h ! i1 = 0xFF" unfolding byte_full_iff by blast
  have "clearing f a (?p + 8) t1 ?k"
    by (rule clearing_byte [OF h(4, 2)]) (use prems(1) in auto)
  then have step: "clearing f a (4096 * t1 + 8 * (i1 + 1)) t1 ?k" by (simp add: add_ac)
  obtain i2 t2 k where "clear_bytes ROOT_DEV c (i1 + 1) (of_nat (3 + t1)) (left - 8) ?k = Inr (i2, of_nat (3 + t2), left - 8 - 8 * int c, k)"
    "i2 \<le> SECTOR_SIZE" "4096 * t2 + 8 * i2 = 4096 * t1 + 8 * (i1 + 1) + 8 * c" "clearing f a (4096 * t1 + 8 * (i1 + 1) + 8 * c) t2 k"
    using Suc.IH [OF step, of "left - 8"] prems h(2) by fastforce
  with h(1, 3) full show ?case by (intro exI [of _ i2] exI [of _ t2] exI [of _ k]) (simp add: algebra_simps)
qed

lemma clear_last_ok:
  assumes "clearing f a (4096 * t + 8 * i) t g" "i \<le> SECTOR_SIZE" "a \<le> 4096 * t + 8 * i" "left < 8"
    "4096 * t + 8 * i + left < 4096 * unat (nr_smap_sects (sb0 f))"
    "\<And>n. 4096 * t + 8 * i \<le> n \<Longrightarrow> n < 4096 * t + 8 * i + left \<Longrightarrow> map_bit f 3 n"
  shows "\<exists>h. clear_last ROOT_DEV i (of_nat (3 + t)) (int left) g = Inr h \<and> mounted h \<and> fs_frame f h \<and>
    (\<forall>s. s < 3 \<or> 3 + unat (nr_smap_sects (sb0 f)) \<le> s \<longrightarrow> fs_sect h s = fs_sect f s) \<and>
    (\<forall>n<4096 * unat (nr_smap_sects (sb0 f)). map_bit h 3 n = (map_bit f 3 n \<and> \<not> (a \<le> n \<and> n < 4096 * t + 8 * i + left)))"
proof -
  obtain i1 t1 h where h: "next_sect ROOT_DEV i (of_nat (3 + t)) g = Inr (i1, of_nat (3 + t1), h)" "i1 < SECTOR_SIZE"
    "4096 * t1 + 8 * i1 = 4096 * t + 8 * i" "clearing f a (4096 * t1 + 8 * i1) t1 h"
    using clearing_next [OF assms(1, 2)] assms(5) by auto
  let ?p = "4096 * t1 + 8 * i1" and ?b = "fs_buf h ! i1 AND NOT (mask left)"
  let ?k = "put_buf ((fs_buf h)[i1 := ?b]) h" and ?l = "unat (nr_smap_sects (sb0 f))"
  note prems = assms(3, 5, 6) [folded h(3)]
  have "bit (fs_buf h ! i1) m" if "m < left" for m
    using buffered_byte [OF h(4, 2), of m] that assms(4) prems by auto
  then have set: "fs_buf h ! i1 AND mask left = mask left" using assms(4) by (auto simp: bit_eq_iff bit_and_iff bit_mask_iff)
  have k: "clearing f a (?p + left) t1 ?k"
    by (rule clearing_byte [OF h(4, 2)]) (use prems(1) assms(4) in \<open>auto simp: bit_and_iff bit_not_iff bit_mask_iff\<close>)
  then have "mounted ?k" "fs_frame f ?k" "fs_ok ?k" "t1 < ?l" by (simp_all add: clearing_def mounted_def)
  moreover from this have "3 + t1 < sect_limit" using sb0_frame [of f ?k] by (simp add: mounted_def)
  ultimately obtain j where j: "WR_SECT ROOT_DEV (of_nat (3 + t1)) ?k = Inr j" "fs_ok j" "fs_sect j = (fs_sect ?k)(3 + t1 := fs_buf ?k)" "fs_frame ?k j"
    using root.wr_ok [of ?k "3 + t1"] by auto
  have "map_bit j 3 n = buffered ?k t1 n" for n by (simp add: map_bit_def buffered_def j(3))
  moreover have "clear_last ROOT_DEV i (of_nat (3 + t)) (int left) g = Inr j"
    using h(1) j(1) set assms(4) by (simp add: clear_last_def)
  ultimately show ?thesis
    using k mounted_frame [OF \<open>mounted ?k\<close> j(2, 4)] fs_frame_trans [OF \<open>fs_frame f ?k\<close> j(4)] \<open>t1 < ?l\<close>
    by (intro exI [of _ j]) (auto simp: clearing_def j(3) h(3))
qed

lemma bit_split: "a = 4096 * (a div 4096) + 8 * (a div 8 mod 512) + a mod (8 :: nat)"
proof -
  have "512 * (a div 4096) + a div 8 mod 512 = a div 8" using div_mult2_eq [of a 8 512] mult_div_mod_eq [of 512 "a div 8"] by simp
  then show ?thesis using mult_div_mod_eq [of 8 a] by linarith
qed

text \<open>The run of a file: bit \<open>a\<close> of the sector map stands for its first sector, and all its bits are set.\<close>

definition has_run :: "fs \<Rightarrow> inode \<Rightarrow> nat \<Rightarrow> nat \<Rightarrow> bool" where
  "has_run f x a len \<longleftrightarrow> i_start_sect x = of_nat a - 1 + n_1st_sect (sb0 f) \<and> i_nr_sects x = of_nat len \<and> 8 \<le> len \<and>
     a + len < 4096 * unat (nr_smap_sects (sb0 f)) \<and> a + len < 2 ^ 31 \<and> (\<forall>n. a \<le> n \<and> n < a + len \<longrightarrow> map_bit f 3 n)"

lemma free_smap_bits_ok:
  assumes "mounted f" "has_run f x a len" "i_dev x = ROOT_DEV"
  shows "\<exists>g. free_smap_bits (sb0 f) x f = Inr g \<and> mounted g \<and> fs_frame f g \<and>
    (\<forall>s. s < 3 \<or> 3 + unat (nr_smap_sects (sb0 f)) \<le> s \<longrightarrow> fs_sect g s = fs_sect f s) \<and>
    (\<forall>n<4096 * unat (nr_smap_sects (sb0 f)). map_bit g 3 n = (map_bit f 3 n \<and> \<not> (a \<le> n \<and> n < a + len)))"
proof -
  let ?l = "unat (nr_smap_sects (sb0 f))"
  define t i k where "t = a div 4096" and "i = a div 8 mod 512" and "k = a mod 8"
  from assms(2) have run: "8 \<le> len" "a + len < 4096 * ?l" "a + len < 2 ^ 31" "\<And>n. a \<le> n \<Longrightarrow> n < a + len \<Longrightarrow> map_bit f 3 n"
    and x: "i_start_sect x - n_1st_sect (sb0 f) + 1 = of_nat a" "i_nr_sects x = of_nat len" by (simp_all add: has_run_def)
  have ok: "fs_ok f" and blk: "2 + nr_imap_sects (sb0 f) = (3 :: u32)" and lim: "3 + ?l < sect_limit"
    using assms(1) by (auto simp: mounted_def)
  have t: "t < ?l" using run(2) unfolding t_def by (intro map_sector) simp
  have a: "a = 4096 * t + 8 * i + k" "i < SECTOR_SIZE" and small: "k < 8" unfolding t_def i_def k_def by (rule bit_split) simp_all
  let ?c = "(len - (8 - k)) div 8" and ?r = "(len - (8 - k)) mod 8"
  have ints: "sint (of_nat a :: u32) = int a" "sint (of_nat len :: u32) = int len" using run(3) by (simp_all add: sint_of_nat_small)
  have k8: "8 - k \<le> len" using run(1) by linarith
  have num: "int a sdiv 8 sdiv SECTOR_SIZE = int t" "nat (int a sdiv 8 smod SECTOR_SIZE) = i" "nat (int a smod 8) = k"
    "nat ((int len - (8 - int a smod 8)) sdiv 8) = ?c"
  proof -
    have "int len - (8 - int k) = int (len - (8 - k))" using k8 small by (simp add: of_nat_diff)
    then show "nat ((int len - (8 - int a smod 8)) sdiv 8) = ?c" by (simp add: signed_nonneg zmod_int nat_div_distrib k_def)
    show "int a sdiv 8 sdiv SECTOR_SIZE = int t" using div_mult2_eq [of a 8 512] by (simp add: signed_nonneg zdiv_int t_def)
    show "nat (int a sdiv 8 smod SECTOR_SIZE) = i" "nat (int a smod 8) = k"
      by (simp_all add: signed_nonneg nat_div_distrib nat_mod_distrib i_def k_def)
  qed
  have s: "(2 + nr_imap_sects (sb0 f) + word_of_int (int t) :: u32) = of_nat (3 + t)" using blk by simp
  obtain g where g: "RD_SECT ROOT_DEV (of_nat (3 + t)) f = Inr g" "fs_ok g" "fs_buf g = fs_sect f (3 + t)" "fs_sect g = fs_sect f" "fs_frame f g"
    using root.rd_ok [OF ok, of "3 + t"] lim t by auto
  have start: "clearing f a a t g"
    using t g mounted_frame [OF assms(1) g(2, 5)] by (auto simp: clearing_def buffered_def map_bit_def)
  have "bit (fs_buf g ! i) m" if "k \<le> m" "m < 8" for m
    using buffered_byte [OF start a(2) that(2)] that run(1, 2) run(4) [of "4096 * t + 8 * i + m"] a(1) by auto
  then obtain b where b: "clear_bits (fs_buf g ! i) [k..<8] (int len) = Inr (b, int (len - (8 - k)))"
    "\<And>m. m < 8 \<Longrightarrow> bit b m = (bit (fs_buf g ! i) m \<and> m < k)"
    using clear_bits_run [OF less_imp_le [OF small] trans_le_add2 [OF run(1)]] by blast
  let ?g = "put_buf ((fs_buf g)[i := b]) g"
  have upto8: "a \<le> 4096 * t + 8 * (i + 1)" using small by (subst a(1)) simp
  have first: "clearing f a (4096 * t + 8 * (i + 1)) t ?g"
  proof (rule clearing_byte [OF start a(2)])
    fix n
    assume n: "a \<le> n" "n < 4096 * t + 8 * (i + 1)"
    then have "8 * (512 * t + i) \<le> n" "n < 8 * (512 * t + i) + 8" using a(1) by simp_all
    then show "n div 8 = 512 * t + i" by (intro div_nat_eqI) simp_all
  next
    fix m :: nat
    assume "m < 8"
    then show "bit b m = (bit (fs_buf g ! i) m \<and> \<not> (a \<le> 4096 * t + 8 * i + m \<and> 4096 * t + 8 * i + m < 4096 * t + 8 * (i + 1)))"
      using b(2) [of m] a(1) by auto
  qed (use upto8 in simp)
  have end8: "4096 * t + 8 * (i + 1) + 8 * ?c + ?r = a + len"
  proof -
    have "4096 * t + 8 * (i + 1) + 8 * ?c + ?r = 4096 * t + 8 * i + 8 + (len - (8 - k))" by simp
    also have "\<dots> = 4096 * t + 8 * i + k + ((8 - k) + (len - (8 - k)))" using small by simp
    also have "\<dots> = a + len" using k8 by (subst a(1)) simp
    finally show ?thesis .
  qed
  have byte8: "a \<le> 4096 * t + 8 * (i + 1)" "4096 * t + 8 * (i + 1) + 8 * ?c \<le> a + len"
    using upto8 by simp (simp flip: end8)
  obtain i1 t1 h where h: "clear_bytes ROOT_DEV ?c (i + 1) (of_nat (3 + t)) (int (len - (8 - k))) ?g =
      Inr (i1, of_nat (3 + t1), int (len - (8 - k)) - 8 * int ?c, h)" "i1 \<le> SECTOR_SIZE"
    "4096 * t1 + 8 * i1 = 4096 * t + 8 * (i + 1) + 8 * ?c" "clearing f a (4096 * t + 8 * (i + 1) + 8 * ?c) t1 h"
    using clear_bytes_run [OF first, of ?c "int (len - (8 - k))"] a(2) byte8 run(2, 4) by auto
  have left: "int (len - (8 - k)) - 8 * int ?c = int ?r" "4096 * t1 + 8 * i1 + ?r = a + len"
    using end8 h(3) by (simp_all add: zdiv_int zmod_int minus_mult_div_eq_mod)
  have last: "clearing f a (4096 * t1 + 8 * i1) t1 h" "a \<le> 4096 * t1 + 8 * i1" unfolding h(3) by (rule h(4)) (use byte8(1) in simp)
  have bound: "4096 * t1 + 8 * i1 + ?r < 4096 * ?l" unfolding left(2) by (rule run(2))
  have set: "map_bit f 3 n" if "4096 * t1 + 8 * i1 \<le> n" "n < 4096 * t1 + 8 * i1 + ?r" for n
    using le_trans [OF last(2) that(1)] that(2) unfolding left(2) by (rule run(4))
  obtain j where "clear_last ROOT_DEV i1 (of_nat (3 + t1)) (int ?r) h = Inr j" "mounted j" "fs_frame f j"
    "\<forall>s. s < 3 \<or> 3 + ?l \<le> s \<longrightarrow> fs_sect j s = fs_sect f s"
    "\<forall>n<4096 * ?l. map_bit j 3 n = (map_bit f 3 n \<and> \<not> (a \<le> n \<and> n < a + len))"
    using clear_last_ok [OF last(1) h(2) last(2) _ bound set] unfolding left(2) by auto
  moreover have "free_smap_bits (sb0 f) x f = clear_last ROOT_DEV i1 (of_nat (3 + t1)) (int ?r) h"
    unfolding free_smap_bits_def Let_def x ints assms(3) num s
    using g(1) b(1) h(1) left(1) by simp
  ultimately show ?thesis by auto
qed

section \<open>Clearing the directory entry\<close>

text \<open>How many of the entries from \<open>a\<close> to \<open>b\<close> hold an inode.\<close>

definition live :: "(nat \<Rightarrow> u32) \<Rightarrow> nat \<Rightarrow> nat \<Rightarrow> nat" where
  "live ino a b = length (filter (\<lambda>m. ino m \<noteq> 0) [a..<b])"

lemma live_step: "a < b \<Longrightarrow> live ino a b = (if ino a \<noteq> 0 then 1 else 0) + live ino (Suc a) b"
  by (simp add: live_def upt_conv_Cons)

lemma live_append: "a \<le> b \<Longrightarrow> b \<le> c \<Longrightarrow> live ino a c = live ino a b + live ino b c"
  using upt_add_eq_append [of a b "c - b"] by (simp add: live_def)

lemma live_empty [simp]: "live ino a a = 0"
  by (simp add: live_def)

lemma entry_of_stops:
  assumes "\<And>j. j < 32 \<Longrightarrow> entry_inode h j = ino (32 * i + j)" "j \<le> 32" "32 * i + j \<le> k" "k < n"
    "\<And>m. m < k \<Longrightarrow> ino m \<noteq> nr" "ino k = nr"
  shows "entry_of h nr n (32 * i + j) z [j..<32] =
    (if k < 32 * (i + 1) then (Some (k - 32 * i), k + 1, z + 16 * of_nat (live ino (32 * i + j) k))
     else (None, 32 * (i + 1), z + 16 * of_nat (live ino (32 * i + j) (32 * (i + 1)))))"
  using assms(2, 3)
proof (induction "32 - j" arbitrary: j z)
  case 0
  then show ?case by (simp add: add.commute)
next
  case (Suc d)
  then have j: "j < 32" "[j..<32] = j # [Suc j..<32]" by (simp_all add: upt_conv_Cons)
  show ?case
  proof (cases "k = 32 * i + j")
    case True
    then show ?thesis using assms(1) [OF j(1)] assms(4, 6) j(1) unfolding j(2) by auto
  next
    case False
    then have less: "32 * i + Suc j \<le> k" "d = 32 - Suc j" "Suc j \<le> 32" using Suc by simp_all
    have "ino (32 * i + j) \<noteq> nr" using assms(5) less(1) by simp
    with Suc.hyps(1) [OF less(2, 3, 1)] assms(1) [OF j(1)] assms(4) less(1) j(1)
      live_step [of "32 * i + j" k ino] live_step [of "32 * i + j" "32 * (i + 1)" ino]
    show ?thesis unfolding j(2) by (auto simp: algebra_simps)
  qed
qed

lemma clear_entry_stops:
  assumes "mounted f" "s + b \<le> sect_limit" "32 * i \<le> k" "k < 32 * b" "k < n"
    "\<And>m. m < k \<Longrightarrow> slot_inode (dir_slot f s m) \<noteq> nr" "slot_inode (dir_slot f s k) = nr"
  shows "\<exists>g. clear_entry nr n ROOT_DEV (of_nat s) (32 * i) z [i..<b] f =
      Inr (True, k + 1, z + 16 * of_nat (live (\<lambda>m. slot_inode (dir_slot f s m)) (32 * i) k), g) \<and> mounted g \<and> fs_frame f g \<and>
    fs_sect g = (fs_sect f)(s + k div 32 := splice (16 * (k mod 32)) (replicate 16 0) (fs_sect f (s + k div 32)))"
  using assms
proof (induction "b - i" arbitrary: i f z)
  case 0
  then show ?case by simp
next
  case (Suc d)
  let ?ino = "\<lambda>m. slot_inode (dir_slot f s m)"
  have i: "i < b" "[i..<b] = i # [Suc i..<b]" using Suc.prems(3, 4) Suc.hyps(2) by (simp_all add: upt_conv_Cons)
  have ok: "fs_ok f" "s + i < sect_limit" using Suc.prems i(1) by (simp_all add: mounted_def)
  obtain g where g: "RD_SECT ROOT_DEV (of_nat (s + i)) f = Inr g" "fs_ok g" "fs_buf g = fs_sect f (s + i)" "fs_sect g = fs_sect f" "fs_frame f g"
    using root.rd_ok [OF ok] by auto
  have m: "mounted g" by (rule mounted_frame [OF Suc.prems(1) g(2, 5)])
  have slots: "dir_slot g s = dir_slot f s" using g(4) by (simp add: dir_slot_def fun_eq_iff)
  have stop: "entry_of (fmem g) nr n (32 * i) z [0..<32] =
    (if k < 32 * (i + 1) then (Some (k - 32 * i), k + 1, z + 16 * of_nat (live ?ino (32 * i) k))
     else (None, 32 * (i + 1), z + 16 * of_nat (live ?ino (32 * i) (32 * (i + 1)))))"
    using entry_of_stops [of "fmem g" ?ino i 0 k n nr z] entry_slot(1) [OF g(3)] Suc.prems(3, 5 - 7) by simp
  show ?case
  proof (cases "k < 32 * (i + 1)")
    case True
    then have div: "k div 32 = i" using Suc.prems(3) by auto
    then have mod: "k - 32 * i = k mod 32" using minus_mult_div_eq_mod [of k 32] by simp
    let ?h = "set_fmem (store_bytes (fmem g) (fsbuf + of_nat (16 * (k mod 32))) (replicate 16 0)) g"
    have "root.edits (splice (16 * (k mod 32)) (replicate 16 0)) (\<lambda>f. set_fmem (store_bytes (fmem f) (fsbuf + of_nat (16 * (k mod 32))) (replicate 16 0)) f) g"
      by (rule root_edit [OF g(2)]) simp
    then have h: "fs_ok ?h" "fs_buf ?h = splice (16 * (k mod 32)) (replicate 16 0) (fs_sect f (s + i))" "fs_sect ?h = fs_sect f" "fs_frame g ?h"
      using g(3, 4) by (simp_all add: root.edits_def)
    obtain w where w: "WR_SECT ROOT_DEV (of_nat (s + i)) ?h = Inr w" "fs_ok w" "fs_sect w = (fs_sect ?h)(s + i := fs_buf ?h)" "fs_frame ?h w"
      using root.wr_ok [OF h(1) ok(2)] by blast
    have fr: "fs_frame f w" by (rule fs_frame_trans [OF fs_frame_trans [OF g(5) h(4)] w(4)])
    show ?thesis
      using True stop g(1) w(1, 3) h(2, 3) fr mounted_frame [OF Suc.prems(1) w(2) fr] unfolding i(2)
      by (intro exI [of _ w]) (simp add: div mod Suc_diff_le)
  next
    case False
    have d: "d = b - Suc i" "32 * Suc i \<le> k" using Suc.hyps(2) False by simp_all
    obtain h where h: "clear_entry nr n ROOT_DEV (of_nat s) (32 * Suc i) (z + 16 * of_nat (live ?ino (32 * i) (32 * (i + 1)))) [Suc i..<b] g =
        Inr (True, k + 1, z + 16 * of_nat (live ?ino (32 * i) (32 * (i + 1))) + 16 * of_nat (live ?ino (32 * Suc i) k), h)" "mounted h" "fs_frame g h"
      "fs_sect h = (fs_sect g)(s + k div 32 := splice (16 * (k mod 32)) (replicate 16 0) (fs_sect g (s + k div 32)))"
      using Suc.hyps(1) [OF d(1) m Suc.prems(2) d(2) Suc.prems(4, 5), of "z + 16 * of_nat (live ?ino (32 * i) (32 * (i + 1)))"] Suc.prems(6, 7)
      unfolding slots by blast
    have "live ?ino (32 * i) k = live ?ino (32 * i) (32 * (i + 1)) + live ?ino (32 * Suc i) k"
      using live_append [of "32 * i" "32 * (i + 1)" k ?ino] d(2) by simp
    with g h False stop Suc.prems(5) fs_frame_trans [OF g(5) h(3)] show ?thesis unfolding i(2)
      by (intro exI [of _ h]) (simp add: algebra_simps)
  qed
qed

text \<open>The directory after its entry \<open>k\<close> of \<open>n\<close> was cleared: if that was the last one, the size is set to that of
  the entries before it that hold an inode.\<close>

definition shrunk :: "fs \<Rightarrow> nat \<Rightarrow> nat \<Rightarrow> nat \<Rightarrow> inode \<Rightarrow> inode" where
  "shrunk f s k n d = (if k + 1 = n then d\<lparr>i_size := 16 * of_nat (live (\<lambda>m. slot_inode (dir_slot f s m)) 0 k)\<rparr> else d)"

lemma remove_entry_ok:
  assumes "mounted f" "dir_at f dir num s n" "k < n" "\<And>m. m < k \<Longrightarrow> slot_inode (dir_slot f s m) \<noteq> nr" "slot_inode (dir_slot f s k) = nr"
  shows "\<exists>g. remove_entry dir nr f = Inr g \<and> mounted g \<and> fs_frame (upd_inode dir (shrunk f s k n) f) g \<and>
    (\<forall>x. x \<noteq> inode_sect f num \<longrightarrow> x \<noteq> s + k div 32 \<longrightarrow> fs_sect g x = fs_sect f x) \<and>
    (\<forall>m. dir_slot g s m = (if m = k then replicate 16 0 else dir_slot f s m)) \<and>
    (\<forall>m. 1 \<le> m \<and> m \<le> 4096 \<and> m \<noteq> num \<longrightarrow> disk_inode g m = disk_inode f m)"
proof -
  let ?d = "inode_table f dir" and ?b = "(16 * n + SECTOR_SIZE) div SECTOR_SIZE" and ?z = "replicate 16 0 :: u8 list"
  let ?live = "16 * of_nat (live (\<lambda>m. slot_inode (dir_slot f s m)) 0 k) :: u32"
  from assms(2) have d: "i_dev ?d = ROOT_DEV" "i_num ?d = int num" "1 \<le> num" "num \<le> 4096" "i_start_sect ?d = of_nat s"
    "i_size ?d = of_nat (16 * n)" "unat (n_1st_sect (sb0 f)) \<le> s" "n < 2 ^ 26" "s + n div 32 + 3 \<le> sect_limit"
    by (simp_all add: dir_at_def)
  have blks: "?b = n div 32 + 1" by simp
  have "unat (i_size ?d) = 16 * n" using d(6, 8) by (simp add: unat_of_nat_u32 del: of_nat_mult)
  then have sizes: "unat ((i_size ?d + SECTOR_SIZE) div SECTOR_SIZE) = ?b" "unat (i_size ?d div DIR_ENTRY_SIZE) = n"
    using d(8) by (simp_all add: unat_div unat_word_ariths)
  have k: "k < 32 * ?b" "s + ?b \<le> sect_limit" using assms(3) d(9) by auto
  obtain f1 where f1: "clear_entry nr n ROOT_DEV (of_nat s) 0 0 [0..<?b] f = Inr (True, k + 1, ?live, f1)" "mounted f1" "fs_frame f f1"
    "fs_sect f1 = (fs_sect f)(s + k div 32 := splice (16 * (k mod 32)) ?z (fs_sect f (s + k div 32)))"
    using clear_entry_stops [OF assms(1) k(2) _ k(1) assms(3 - 5), of 0 0] by auto
  have sb: "sb0 f1 = sb0 f" and tab: "inode_table f1 = inode_table f" using sb0_frame [OF f1(3)] fs_frame_sel(1) [OF f1(3)] by simp_all
  have ok: "fs_ok f" using assms(1) by (simp add: mounted_def)
  have cleared: "dir_slot f1 s m = (if m = k then ?z else dir_slot f s m)" for m
    using dir_slot_write [OF ok f1(4), of m] fs_sect_length [OF ok, of "s + k div 32"] by (simp add: dir_slot_def)
  have inodes: "disk_inode f1 m = disk_inode f m" if "1 \<le> m" "m \<le> 4096" for m
    using inode_sect_less [OF assms(1) that] d(7) f1(4) sb by (intro disk_inode_cong) auto
  have run: "remove_entry dir nr f = (if k + 1 = n then sync_inode dir (upd_inode dir (\<lambda>d. d\<lparr>i_size := ?live\<rparr>) f1) else Inr f1)"
    using f1(1) d(1, 5) sizes by (simp add: remove_entry_def Let_def)
  show ?thesis
  proof (cases "k + 1 = n")
    case False
    then have "upd_inode dir (shrunk f s k n) f = f" by (simp add: upd_inode_def shrunk_def)
    with False run f1 cleared inodes show ?thesis by (intro exI [of _ f1]) simp
  next
    case True
    let ?f = "upd_inode dir (\<lambda>d. d\<lparr>i_size := ?live\<rparr>) f1"
    have here: "mounted ?f" "i_dev (inode_table ?f dir) = ROOT_DEV" "i_num (inode_table ?f dir) = int num" using f1(2) d(1, 2) tab by simp_all
    obtain g where g: "sync_inode dir ?f = Inr g" "mounted g" "fs_frame ?f g" "\<forall>x. x \<noteq> inode_sect ?f num \<longrightarrow> fs_sect g x = fs_sect ?f x"
      "\<forall>m\<ge>1. disk_inode g m = (if m = num then (inode_table ?f dir)\<lparr>i_cnt := 1\<rparr> else disk_inode ?f m)"
      using sync_inode_disk [OF here d(3, 4)] by blast
    have isect: "inode_sect ?f num = inode_sect f num" "inode_sect f num < s"
      using sb inode_sect_less [OF assms(1) d(3, 4)] d(7) by (simp_all add: inode_sect_def)
    have "shrunk f s k n = (\<lambda>d. d\<lparr>i_size := ?live\<rparr>)" using True by (simp add: shrunk_def fun_eq_iff)
    then have "fs_frame (upd_inode dir (shrunk f s k n) f) g" using fs_frame_trans [OF fs_frame_upd_inode [OF f1(3)] g(3)] by simp
    moreover have "dir_slot g s m = dir_slot f1 s m" for m using g(4) isect by (simp add: dir_slot_def)
    moreover have "disk_inode ?f m = disk_inode f1 m" for m by (simp add: disk_inode_def inode_sect_def Let_def)
    ultimately show ?thesis using True run f1(4) g(1, 2, 4, 5) cleared inodes isect by (intro exI [of _ g]) simp
  qed
qed

section \<open>The whole removal\<close>

text \<open>A file that can be removed: \<open>path\<close> leads to inode \<open>num\<close>, a regular file that is not in the cache; entry \<open>k\<close> of the
  \<open>n\<close> entries of the root directory is the first with its number; its bit of the inode map and its run \<open>a\<close> in the
  sector map are set; and the cache has a free entry \<open>q\<close>.\<close>

definition removable :: "fs \<Rightarrow> u8 list \<Rightarrow> nat \<Rightarrow> nat \<Rightarrow> nat \<Rightarrow> nat \<Rightarrow> nat \<Rightarrow> nat \<Rightarrow> nat \<Rightarrow> bool" where
  "removable f path num k s n a len q \<longleftrightarrow>
     path_at f path (of_nat num) \<and> 2 \<le> num \<and> num < 4096 \<and> find_inode ROOT_DEV (int num) f = None \<and>
     first_index (\<lambda>p. i_cnt (inode_table f p) = 0) NR_INODE = Some q \<and> i_mode (disk_inode f num) = I_REGULAR \<and>
     dir_at f (root_inode f) 1 s n \<and> i_cnt (inode_table f (root_inode f)) \<noteq> 0 \<and>
     first_index (\<lambda>m. slot_inode (dir_slot f s m) = of_nat num) n = Some k \<and> map_bit f 2 num \<and> has_run f (disk_inode f num) a len"

text \<open>The state after it was removed.\<close>

definition removed :: "fs \<Rightarrow> nat \<Rightarrow> nat \<Rightarrow> nat \<Rightarrow> nat \<Rightarrow> nat \<Rightarrow> nat \<Rightarrow> nat \<Rightarrow> fs \<Rightarrow> bool" where
  "removed f num k s n a len q g \<longleftrightarrow> mounted g \<and>
     (\<forall>m<4096. map_bit g 2 m = (map_bit f 2 m \<and> m \<noteq> num)) \<and>
     (\<forall>m<4096 * unat (nr_smap_sects (sb0 f)). map_bit g 3 m = (map_bit f 3 m \<and> \<not> (a \<le> m \<and> m < a + len))) \<and>
     (\<forall>m. dir_slot g s m = (if m = k then replicate 16 0 else dir_slot f s m)) \<and>
     i_mode (disk_inode g num) = 0 \<and> (\<forall>m. 2 \<le> m \<and> m \<le> 4096 \<and> m \<noteq> num \<longrightarrow> disk_inode g m = disk_inode f m) \<and>
     root_dir g = shrunk f s k n (root_dir f) \<and> (\<forall>p. p \<noteq> q \<and> p \<noteq> root_inode f \<longrightarrow> inode_table g p = inode_table f p) \<and>
     i_cnt (inode_table g q) = 0 \<and> f_desc_table g = f_desc_table f \<and> root_inode g = root_inode f \<and>
     proc_table (hks (drv g)) = proc_table (hks (drv f))"

lemma clear_inode_ok:
  assumes "mounted f" "i_dev (inode_table f p) = ROOT_DEV" "i_num (inode_table f p) = int num" "1 \<le> num" "num \<le> 4096" "i_cnt (inode_table f p) = 1"
  shows "\<exists>g x. clear_inode p f = Inr g \<and> mounted g \<and> fs_frame (upd_inode p (\<lambda>_. x) f) g \<and> i_cnt x = 0 \<and>
    (\<forall>s. s \<noteq> inode_sect f num \<longrightarrow> fs_sect g s = fs_sect f s) \<and> i_mode (disk_inode g num) = 0 \<and>
    (\<forall>m\<ge>1. m \<noteq> num \<longrightarrow> disk_inode g m = disk_inode f m)"
proof -
  let ?x = "(inode_table f p)\<lparr>i_mode := 0, i_size := 0, i_start_sect := 0, i_nr_sects := 0\<rparr>"
  let ?c = "\<lambda>x. x\<lparr>i_mode := 0, i_size := 0, i_start_sect := 0, i_nr_sects := 0\<rparr>" and ?y = "?x\<lparr>i_cnt := 0\<rparr>"
  let ?f = "upd_inode p ?c f"
  have here: "mounted ?f" "i_dev (inode_table ?f p) = ROOT_DEV" "i_num (inode_table ?f p) = int num" using assms(1 - 3) by simp_all
  obtain g where g: "sync_inode p ?f = Inr g" "mounted g" "fs_frame ?f g" "\<forall>s. s \<noteq> inode_sect ?f num \<longrightarrow> fs_sect g s = fs_sect ?f s"
    "\<forall>m\<ge>1. disk_inode g m = (if m = num then (inode_table ?f p)\<lparr>i_cnt := 1\<rparr> else disk_inode ?f m)"
    using sync_inode_disk [OF here assms(4, 5)] by blast
  let ?g = "upd_inode p (\<lambda>x. x\<lparr>i_cnt := i_cnt x - 1\<rparr>) g"
  have tab: "inode_table g p = ?x" using fs_frame_sel(1) [OF g(3)] by simp
  then have "clear_inode p f = Inr ?g" using g(1) assms(6) by (simp add: clear_inode_def put_inode_def)
  moreover have "fs_frame (upd_inode p (\<lambda>_. ?y) f) ?g"
    using fs_frame_upd_inode [OF g(3), of p "\<lambda>x. x\<lparr>i_cnt := i_cnt x - 1\<rparr>"] assms(6) by (simp add: upd_inode_def)
  moreover have "inode_sect ?f num = inode_sect f num" "disk_inode ?f m = disk_inode f m" "disk_inode ?g m = disk_inode g m" for m
    by (simp_all add: inode_sect_def disk_inode_def Let_def)
  ultimately show ?thesis using g assms(4) by (intro exI [of _ ?g] exI [of _ ?y]) simp
qed

lemma unlink_steps:
  assumes "mounted f" "i_dev (inode_table f q) = ROOT_DEV" "i_num (inode_table f q) = int num" "i_cnt (inode_table f q) = 1" "2 \<le> num" "num < 4096"
    "map_bit f 2 num" "has_run f (inode_table f q) a len" "dir_at f r 1 s n" "r \<noteq> q" "first_index (\<lambda>m. slot_inode (dir_slot f s m) = of_nat num) n = Some k"
  shows "\<exists>g. bindE (free_imap_bit ROOT_DEV (int num) f) (\<lambda>f1. bindE (free_smap_bits (sb0 f) (inode_table f q) f1) (\<lambda>f. bindE (clear_inode q f)
      (\<lambda>f. bindE (remove_entry r (of_nat num) f) (\<lambda>f. Inr (0 :: int, f))))) = Inr (0, g) \<and> mounted g \<and>
    (\<forall>m<4096. map_bit g 2 m = (map_bit f 2 m \<and> m \<noteq> num)) \<and>
    (\<forall>m<4096 * unat (nr_smap_sects (sb0 f)). map_bit g 3 m = (map_bit f 3 m \<and> \<not> (a \<le> m \<and> m < a + len))) \<and>
    (\<forall>m. dir_slot g s m = (if m = k then replicate 16 0 else dir_slot f s m)) \<and>
    i_mode (disk_inode g num) = 0 \<and> (\<forall>m. 2 \<le> m \<and> m \<le> 4096 \<and> m \<noteq> num \<longrightarrow> disk_inode g m = disk_inode f m) \<and>
    (\<exists>x. i_cnt x = 0 \<and> fs_frame (upd_inode r (shrunk f s k n) (upd_inode q (\<lambda>_. x) f)) g)"
proof -
  let ?l = "unat (nr_smap_sects (sb0 f))"
  have area: "inode_sect f m < s" "3 + ?l \<le> inode_sect f m" if "1 \<le> m" "m \<le> 4096" for m
    using inode_sect_less [OF assms(1) that] assms(9) by (simp_all add: dir_at_def inode_sect_def)
  obtain f1 where f1: "free_imap_bit ROOT_DEV (int num) f = Inr f1" "mounted f1" "fs_frame f f1"
    "\<forall>m<4096. map_bit f1 2 m = (map_bit f 2 m \<and> m \<noteq> num)" "\<forall>s. s \<noteq> 2 \<longrightarrow> fs_sect f1 s = fs_sect f s"
    using free_imap_bit_ok [OF assms(1, 6, 7)] by blast
  note sel1 = fs_frame_sel [OF f1(3)] and sb1 = sb0_frame [OF f1(3)]
  have map3: "map_bit f1 3 = map_bit f 3" using f1(5) by (simp add: map_bit_def fun_eq_iff)
  have run: "has_run f1 (inode_table f q) a len" using assms(8) by (simp add: has_run_def sb1 map3)
  obtain f2 where f2: "free_smap_bits (sb0 f) (inode_table f q) f1 = Inr f2" "mounted f2" "fs_frame f1 f2"
    "\<forall>s. s < 3 \<or> 3 + ?l \<le> s \<longrightarrow> fs_sect f2 s = fs_sect f1 s" "\<forall>m<4096 * ?l. map_bit f2 3 m = (map_bit f 3 m \<and> \<not> (a \<le> m \<and> m < a + len))"
    using free_smap_bits_ok [OF f1(2) run assms(2)] unfolding sb1 map3 by blast
  have fr2: "fs_frame f f2" by (rule fs_frame_trans [OF f1(3) f2(3)])
  note sel2 = fs_frame_sel [OF fr2] and sb2 = sb0_frame [OF fr2]
  have far: "fs_sect f2 t = fs_sect f t" if "3 + ?l \<le> t" for t using that f1(5) f2(4) by simp
  obtain f3 x where f3: "clear_inode q f2 = Inr f3" "mounted f3" "fs_frame (upd_inode q (\<lambda>_. x) f2) f3" "i_cnt x = 0"
    "\<forall>s. s \<noteq> inode_sect f num \<longrightarrow> fs_sect f3 s = fs_sect f2 s" "i_mode (disk_inode f3 num) = 0"
    "\<forall>m\<ge>1. m \<noteq> num \<longrightarrow> disk_inode f3 m = disk_inode f2 m"
    using clear_inode_ok [OF f2(2), of q num] assms(2 - 6) unfolding sel2(1) inode_sect_def sb2 by auto
  have sb3: "sb0 f3 = sb0 f" using sb0_frame [OF f3(3)] sb2 by simp
  have tab3: "inode_table f3 = (inode_table f)(q := x)" using fs_frame_sel(1) [OF f3(3)] sel2(1) by simp
  have "inode_sect f num < s" "3 + ?l \<le> s" using area [of num] assms(5, 6) by auto
  then have slots: "dir_slot f3 s m = dir_slot f s m" for m using f3(5) far by (simp add: dir_slot_def)
  have dir: "dir_at f3 r 1 s n" using assms(9, 10) by (simp add: dir_at_def tab3 sb3)
  from assms(11) have k: "k < n" "\<And>m. m < k \<Longrightarrow> slot_inode (dir_slot f3 s m) \<noteq> of_nat num" "slot_inode (dir_slot f3 s k) = of_nat num"
    by (auto simp: first_index_Some slots)
  obtain g where g: "remove_entry r (of_nat num) f3 = Inr g" "mounted g" "fs_frame (upd_inode r (shrunk f3 s k n) f3) g"
    "\<forall>x. x \<noteq> inode_sect f3 1 \<longrightarrow> x \<noteq> s + k div 32 \<longrightarrow> fs_sect g x = fs_sect f3 x"
    "\<forall>m. dir_slot g s m = (if m = k then replicate 16 0 else dir_slot f3 s m)"
    "\<forall>m. 1 \<le> m \<and> m \<le> 4096 \<and> m \<noteq> 1 \<longrightarrow> disk_inode g m = disk_inode f3 m"
    using remove_entry_ok [OF f3(2) dir k] by blast
  have near: "fs_sect g t = fs_sect f2 t" if "t < 3 + ?l" for t
  proof -
    have "t \<noteq> inode_sect f num" "t \<noteq> inode_sect f 1" "t \<noteq> s + k div 32"
      using that area [of num] area [of 1] assms(5, 6) by auto
    then show ?thesis using f3(5) g(4) by (simp add: inode_sect_def sb3)
  qed
  have "map_bit g 2 m = map_bit f1 2 m" if "m < 4096" for m using that f2(4) near by (simp add: map_bit_def)
  moreover have "map_bit g 3 m = map_bit f2 3 m" if "m < 4096 * ?l" for m using map_sector [OF that] near by (simp add: map_bit_def)
  moreover have "disk_inode f2 m = disk_inode f m" if "1 \<le> m" "m \<le> 4096" for m
    using area [OF that] far sb2 by (intro disk_inode_cong) auto
  moreover have "shrunk f3 s k n = shrunk f s k n" by (simp add: shrunk_def slots fun_eq_iff)
  then have "fs_frame (upd_inode r (shrunk f s k n) (upd_inode q (\<lambda>_. x) f)) g"
    using fs_frame_trans [OF fs_frame_upd_inode [OF fs_frame_trans [OF fs_frame_upd_inode [OF fr2] f3(3)]] g(3)] by simp
  ultimately show ?thesis
    using f1 f2 f3 g assms(5, 6) slots by (intro exI [of _ g]) auto
qed

lemma do_unlink_ok:
  assumes "mounted f" "root_ok f" "names f path" "path \<noteq> []" "hd path \<noteq> 0x2F" "removable f path num k s n a len q"
  shows "\<exists>g. do_unlink f = Inr (0, g) \<and> removed f num k s n a len q g"
proof -
  let ?r = "root_inode f"
  from assms(6) have path: "path_at f path (of_nat num)" "2 \<le> num" "num < 4096" and cache: "find_inode ROOT_DEV (int num) f = None"
      "first_index (\<lambda>p. i_cnt (inode_table f p) = 0) NR_INODE = Some q"
    and dir: "dir_at f ?r 1 s n" "i_cnt (inode_table f ?r) \<noteq> 0" "first_index (\<lambda>m. slot_inode (dir_slot f s m) = of_nat num) n = Some k"
    and reg: "i_mode (disk_inode f num) = I_REGULAR" "map_bit f 2 num" "has_run f (disk_inode f num) a len" by (simp_all add: removable_def)
  have q: "?r \<noteq> q" using cache(2) dir(2) by (auto simp: first_index_Some)
  obtain f0 where f0: "search_file path f = Inr (of_nat num, f0)" "mounted f0" "fs_sect f0 = fs_sect f" "fs_frame f f0"
    using search_file_path [OF assms(1, 2) path(1)] by blast
  note sel0 = fs_frame_sel [OF f0(4)]
  obtain f1 where f1: "get_inode ROOT_DEV (int num) f0 = Inr (Some q, f1)" "mounted f1" "fs_sect f1 = fs_sect f0"
    "fs_frame (upd_inode q (\<lambda>_. disk_inode f0 num) f0) f1"
    using get_inode_loads [OF f0(2), of num q] path cache unfolding find_inode_def sel0(1) by auto
  have disk0: "disk_inode f0 = disk_inode f" by (rule disk_inode_frame [OF f0(4, 3)])
  have fr1: "fs_frame (upd_inode q (\<lambda>_. disk_inode f num) f) f1"
    using fs_frame_trans [OF fs_frame_upd_inode [OF f0(4)] f1(4)] by (simp add: disk0)
  note sel1 = fs_frame_sel [OF fr1, simplified] and sb1 = sb0_frame [OF fr1, simplified]
  have same: "fs_sect f1 = fs_sect f" using f1(3) f0(3) by simp
  have slots: "dir_slot f1 = dir_slot f" "map_bit f1 = map_bit f" "disk_inode f1 = disk_inode f"
    by (simp_all add: dir_slot_def map_bit_def disk_inode_def inode_sect_def same sb1 fun_eq_iff)
  have x: "inode_table f1 q = disk_inode f num" "inode_table f1 ?r = inode_table f ?r" using sel1(1) q by simp_all
  have disk: "i_dev (disk_inode f num) = ROOT_DEV" "i_num (disk_inode f num) = int num" "i_cnt (disk_inode f num) = 1"
    by (simp_all add: disk_inode_def Let_def)
  have run: "has_run f1 (inode_table f1 q) a len" "dir_at f1 ?r 1 s n" "first_index (\<lambda>m. slot_inode (dir_slot f1 s m) = of_nat num) n = Some k"
    using reg(3) dir(1, 3) by (simp_all add: has_run_def dir_at_def x sb1 slots)
  from unlink_steps [OF f1(2) _ _ _ path(2, 3) _ run(1, 2) q run(3)] disk reg(2)
  obtain g y where g: "bindE (free_imap_bit ROOT_DEV (int num) f1) (\<lambda>f'. bindE (free_smap_bits (sb0 f1) (inode_table f1 q) f') (\<lambda>f. bindE (clear_inode q f)
      (\<lambda>f. bindE (remove_entry ?r (of_nat num) f) (\<lambda>f. Inr (0 :: int, f))))) = Inr (0, g)" "mounted g"
    "\<forall>m<4096. map_bit g 2 m = (map_bit f 2 m \<and> m \<noteq> num)"
    "\<forall>m<4096 * unat (nr_smap_sects (sb0 f)). map_bit g 3 m = (map_bit f 3 m \<and> \<not> (a \<le> m \<and> m < a + len))"
    "\<forall>m. dir_slot g s m = (if m = k then replicate 16 0 else dir_slot f s m)" "i_mode (disk_inode g num) = 0"
    "\<forall>m. 2 \<le> m \<and> m \<le> 4096 \<and> m \<noteq> num \<longrightarrow> disk_inode g m = disk_inode f m"
    "i_cnt y = 0" "fs_frame (upd_inode ?r (shrunk f1 s k n) (upd_inode q (\<lambda>_. y) f1)) g"
    unfolding x slots sb1 by blast
  note sel = fs_frame_sel [OF g(9), simplified]
  have "strcmp_spec path [0x2F] \<noteq> 0" using assms(4, 5) unfolding strcmp_spec_prefix by (cases path) simp_all
  moreover have "(of_nat num :: u32) \<noteq> 0" "sint (of_nat num :: u32) = int num"
    using path(2, 3) of_nat_inj_u32 [of num 0] by (simp_all add: sint_of_nat_small)
  moreover have "i_dev (inode_table f0 ?r) = ROOT_DEV" "root_inode f0 = ?r" using dir(1) sel0(1, 4) by (simp_all add: dir_at_def)
  moreover have "get_super_block ROOT_DEV f1 = Inr (sb0 f1)" using f1(2) by (simp add: mounted_def get_super_block_root)
  ultimately have "do_unlink f = Inr (0, g)"
    using fetch_path_ok [OF assms(3), of 19 20] f0(1) f1(1) path(1) disk reg(1) g(1)
    by (simp add: do_unlink_def path_at_def strip_path_base x Let_def)
  moreover have "removed f num k s n a len q g"
    using g sel q x by (simp add: removed_def root_dir_def sel1 shrunk_def slots)
  ultimately show ?thesis by blast
qed

lemma live_le: "live ino a b \<le> b - a"
  using length_filter_le [of "\<lambda>m. ino m \<noteq> 0" "[a..<b]"] by (simp add: live_def)

lemma lookup_name_none: "(\<And>k. k < n \<Longrightarrow> slot_name (dir_slot f s k) \<noteq> field) \<Longrightarrow> lookup_name f s field n = 0"
  using find_None_iff [of "\<lambda>k. slot_name (dir_slot f s k) = field" "[0..<n]"] by (simp add: lookup_name_def)

definition entries_left :: "fs \<Rightarrow> nat \<Rightarrow> nat \<Rightarrow> nat \<Rightarrow> nat" where
  "entries_left f s k n = (if k + 1 = n then live (\<lambda>m. slot_inode (dir_slot f s m)) 0 k else n)"

lemma entries_left_le: "k < n \<Longrightarrow> entries_left f s k n \<le> n"
  using live_le [of "\<lambda>m. slot_inode (dir_slot f s m)" 0 k] by (simp add: entries_left_def)

text \<open>A search sees only the entries that the new size covers, and the one behind them.\<close>

lemma removed_not_found:
  assumes "removed f num k s n a len q g" "dir_at f (root_inode f) 1 s n" "k < n" "path_at f path nr" "0 \<notin> set path"
    "\<And>m. m \<le> entries_left f s k n \<Longrightarrow> m \<noteq> k \<Longrightarrow> slot_name (dir_slot f s m) \<noteq> name_field (base_name path)"
  shows "\<exists>h. search_file path g = Inr (0, h)"
proof -
  let ?d = "root_dir f"
  define n' where "n' = entries_left f s k n"
  from assms(2) have d: "i_dev ?d = ROOT_DEV" "i_start_sect ?d = of_nat s" "i_size ?d = of_nat (16 * n)" "n < 2 ^ 26" "s + n div 32 + 3 \<le> sect_limit"
    by (simp_all add: dir_at_def root_dir_def)
  have root: "root_dir g = shrunk f s k n ?d" "mounted g" using assms(1) by (simp_all add: removed_def)
  have n: "n' \<le> n" using entries_left_le [OF assms(3)] by (simp add: n'_def)
  have r: "i_dev (root_dir g) = ROOT_DEV" "i_start_sect (root_dir g) = of_nat s" "i_size (root_dir g) = of_nat (16 * n')"
    using d(1 - 3) by (auto simp: root shrunk_def n'_def entries_left_def)
  have small: "16 * n' < 2 ^ 31" using n d(4) by simp
  have size: "unat (i_size (root_dir g)) = 16 * n'" unfolding r(3) using small by (intro unat_of_nat_u32) simp
  have start: "unat (i_start_sect (root_dir g)) = s" unfolding r(2) using d(5) by (intro unat_of_nat_u32) simp
  have "s + (16 * n') div SECTOR_SIZE + 2 \<le> sect_limit"
  proof -
    have "16 * n' div SECTOR_SIZE \<le> n div 32" using div_le_mono [of "16 * n'" "16 * n" SECTOR_SIZE] n by simp
    with d(5) show ?thesis by linarith
  qed
  then have ok: "root_ok g" using r(1) small by (simp add: root_ok_def start size word_less_nat_alt)
  have name: "0 \<notin> set (base_name path)" "base_name path \<noteq> []"
    using assms(4, 5) by (auto simp: base_name_def path_at_def dest: in_set_takeD list.set_sel split: if_splits)
  have blank: "slot_name (replicate 16 0) \<noteq> name_field (base_name path)"
    using name by (cases "base_name path") (auto simp: slot_name_def name_field_def replicate_eq_Cons numeral_eq_Suc)
  have "lookup_name g s (name_field (base_name path)) (16 * n' div DIR_ENTRY_SIZE + 1) = 0"
    using assms(1, 6) n blank by (intro lookup_name_none) (auto simp: removed_def n'_def)
  then have "path_at g path 0" using assms(4) by (simp add: path_at_def start size)
  from search_file_path [OF root(2) ok this] show ?thesis by blast
qed

text \<open>
  C32. Removing a file. A path that does not begin with a slash and leads to a regular file that is not in use is
  removed: \<^verbatim>\<open>do_unlink\<close> returns 0, no assertion fails, the bit of its inode and the bits of its sectors are clear and no
  other bit of the two maps changes, its directory entry is blank and the others as before, its inode is blank on disk and the
  others as before, and the entry of the cache it used is free. If no other entry has the name, a search then finds nothing.
\<close>

theorem do_unlink_removes:
  assumes "mounted f" "root_ok f" "names f path" "path \<noteq> []" "hd path \<noteq> 0x2F" "removable f path num k s n a len q"
    "\<And>m. m \<le> n \<Longrightarrow> m \<noteq> k \<Longrightarrow> slot_name (dir_slot f s m) \<noteq> name_field (base_name path)"
  shows "\<exists>g h. do_unlink f = Inr (0, g) \<and> removed f num k s n a len q g \<and> search_file path g = Inr (0, h)"
proof -
  obtain g where g: "do_unlink f = Inr (0, g)" "removed f num k s n a len q g" using do_unlink_ok [OF assms(1 - 6)] by blast
  moreover have "dir_at f (root_inode f) 1 s n" "k < n" "path_at f path (of_nat num)"
    using assms(6) by (simp_all add: removable_def first_index_Some)
  moreover have "0 \<notin> set path" using assms(3) by (simp add: names_def)
  ultimately show ?thesis using removed_not_found [OF g(2)] assms(7) entries_left_le [of k n f s] by (meson le_trans)
qed

text \<open>
  Removing the file of the last directory entry can hide other files. The size of the directory is set to
  that of the entries that hold an inode, as if they were all at the front; a file whose entry lies behind that many, because entries before
  it are blank, is no longer found, although its entry is still there.
\<close>

theorem do_unlink_hides:
  assumes "mounted f" "root_ok f" "names f path" "path \<noteq> []" "hd path \<noteq> 0x2F" "removable f path num (n - 1) s n a len q"
    "path_at f other nr" "0 \<notin> set other" "live (\<lambda>m. slot_inode (dir_slot f s m)) 0 (n - 1) < n - 1"
    "\<And>m. m \<le> live (\<lambda>m. slot_inode (dir_slot f s m)) 0 (n - 1) \<Longrightarrow> slot_name (dir_slot f s m) \<noteq> name_field (base_name other)"
  shows "\<exists>g h h'. search_file other f = Inr (nr, h) \<and> do_unlink f = Inr (0, g) \<and> search_file other g = Inr (0, h') \<and>
    (\<forall>m. m \<noteq> n - 1 \<longrightarrow> dir_slot g s m = dir_slot f s m)"
proof -
  obtain g where g: "do_unlink f = Inr (0, g)" "removed f num (n - 1) s n a len q g" using do_unlink_ok [OF assms(1 - 6)] by blast
  have "n - 1 < n" "dir_at f (root_inode f) 1 s n" using assms(6) by (simp_all add: removable_def first_index_Some)
  moreover from this have "entries_left f s (n - 1) n = live (\<lambda>m. slot_inode (dir_slot f s m)) 0 (n - 1)" by (simp add: entries_left_def)
  ultimately have "\<exists>h. search_file other g = Inr (0, h)"
    using removed_not_found [OF g(2) _ _ assms(7, 8)] assms(10) by simp
  then show ?thesis using g search_file_path [OF assms(1, 2, 7)] by (auto simp: removed_def)
qed

section \<open>Witnesses\<close>

theorem do_unlink_refuses_absolute_witness:
  "\<exists>g. do_unlink (demo_open_request 0 0x62) = Inr (- 1, g)"
  using do_unlink_refuses_absolute [OF demo_open_request_names, of "0x62" 0] by simp

text \<open>The file \<open>ab\<close> is on disk only, with the last of five entries of the directory; before it are two blank ones and one for \<open>cd\<close>.
  A process asks to remove \<open>ab\<close>.\<close>

definition demo_dir :: "u8 list" where
  "demo_dir = (le32 1 @ name_field [0x2E]) @ replicate 32 0 @ (le32 3 @ name_field [0x63, 0x64]) @ (le32 2 @ name_field [0x61, 0x62]) @ replicate 432 0"

definition demo_closed :: fs where
  "demo_closed = request (reset_msg\<lparr>source := 6, m3i2 := 2, m3p1 := 0x5001\<rparr>) 6 ((demo_fs (demo_path 0x62))\<lparr>
     inode_table := (\<lambda>_. zero_inode)(0 := demo_root\<lparr>i_size := 80\<rparr>),
     drv := (drv (demo_fs (demo_path 0x62)))\<lparr>disk := demo_ata\<lparr>sectors := demo_sectors(325 := demo_dir, 69 := splice 32 (inode_bytes demo_file) (replicate 512 0))\<rparr>\<rparr>\<rparr>)"

lemma demo_closed_sel:
  "inode_table demo_closed = (\<lambda>_. zero_inode)(0 := demo_root\<lparr>i_size := 80\<rparr>)" "root_inode demo_closed = 0" "sb0 demo_closed = demo_sb"
  "root_dir demo_closed = demo_root\<lparr>i_size := 80\<rparr>"
  "fs_sect demo_closed n = (if n = 5 then splice 32 (inode_bytes demo_file) (replicate 512 0) else if n = 261 then demo_dir else fs_sect (demo_fs h) n)"
  by (simp_all add: demo_closed_def sb0_def root_dir_def fs_sect_def fs_base_def) (simp_all add: demo_fs_def demo_hd_def)

lemma demo_closed_maps:
  "n < 4096 \<Longrightarrow> map_bit demo_closed 2 n = map_bit (demo_fs h) 2 n" "n < 8192 \<Longrightarrow> map_bit demo_closed 3 n = map_bit (demo_fs h) 3 n"
proof -
  show "map_bit demo_closed 2 n = map_bit (demo_fs h) 2 n" if "n < 4096" using that by (simp add: map_bit_def demo_closed_sel(5) [of _ h])
  show "map_bit demo_closed 3 n = map_bit (demo_fs h) 3 n" if "n < 8192"
    using map_sector [of n 2] that by (simp add: map_bit_def demo_closed_sel(5) [of _ h])
qed

lemma demo_closed_slots: "dir_slot demo_closed 261 0 = le32 1 @ name_field [0x2E]" "dir_slot demo_closed 261 (Suc 0) = replicate 16 0"
  "dir_slot demo_closed 261 2 = replicate 16 0" "dir_slot demo_closed 261 3 = le32 3 @ name_field [0x63, 0x64]"
  "dir_slot demo_closed 261 4 = le32 2 @ name_field [0x61, 0x62]" "dir_slot demo_closed 261 5 = replicate 16 0"
  by (simp_all add: dir_slot_def demo_closed_sel(5) [of _ undefined] demo_dir_def name_field_def)

lemma demo_closed_entries:
  "slot_name (dir_slot demo_closed 261 0) = name_field [0x2E]" "slot_name (dir_slot demo_closed 261 (Suc 0)) = name_field []"
  "slot_name (dir_slot demo_closed 261 2) = name_field []" "slot_name (dir_slot demo_closed 261 3) = name_field [0x63, 0x64]"
  "slot_name (dir_slot demo_closed 261 4) = name_field [0x61, 0x62]" "slot_name (dir_slot demo_closed 261 5) = name_field []"
  "slot_inode (dir_slot demo_closed 261 0) = 1" "slot_inode (dir_slot demo_closed 261 (Suc 0)) = 0" "slot_inode (dir_slot demo_closed 261 2) = 0"
  "slot_inode (dir_slot demo_closed 261 3) = 3" "slot_inode (dir_slot demo_closed 261 4) = 2"
proof -
  have len: "length (name_field x) = 12" for x by (simp add: name_field_def)
  have blank: "slot_name (replicate 16 0) = name_field []" "slot_inode (replicate 16 0) = 0"
    by (simp_all add: name_field_def slot_name_def slot_inode_def word_at_def)
  show "slot_name (dir_slot demo_closed 261 0) = name_field [0x2E]" "slot_name (dir_slot demo_closed 261 (Suc 0)) = name_field []"
    "slot_name (dir_slot demo_closed 261 2) = name_field []" "slot_name (dir_slot demo_closed 261 3) = name_field [0x63, 0x64]"
    "slot_name (dir_slot demo_closed 261 4) = name_field [0x61, 0x62]" "slot_name (dir_slot demo_closed 261 5) = name_field []"
    "slot_inode (dir_slot demo_closed 261 0) = 1" "slot_inode (dir_slot demo_closed 261 (Suc 0)) = 0" "slot_inode (dir_slot demo_closed 261 2) = 0"
    "slot_inode (dir_slot demo_closed 261 3) = 3" "slot_inode (dir_slot demo_closed 261 4) = 2"
    by (simp_all only: demo_closed_slots slot_of_entry(1) slot_of_entry(2) [OF len] blank)
qed

lemma demo_names: "name_field [] \<noteq> name_field [0x61, 0x62]" "name_field [] \<noteq> name_field [0x63, 0x64]"
  "name_field [0x2E] \<noteq> name_field [0x61, 0x62]" "name_field [0x2E] \<noteq> name_field [0x63, 0x64]" "name_field [0x63, 0x64] \<noteq> name_field [0x61, 0x62]"
  by (simp_all add: name_field_def) (simp_all add: replicate_eq_Cons)

lemma demo_closed_ok: "mounted demo_closed" "root_ok demo_closed" "names demo_closed [0x61, 0x62]"
proof -
  have "length demo_dir = 512" by (simp add: demo_dir_def name_field_def)
  then show "mounted demo_closed"
    using demo_mounted [of "demo_path 0x62"]
    by (auto simp: mounted_def fs_ok_def fs_base_def disk_ok_def sb0_def demo_closed_def) (simp_all add: demo_fs_def demo_hd_def demo_ata_def)
  show "root_ok demo_closed" by (simp add: root_ok_def demo_closed_sel demo_root_def)
  show "names demo_closed [0x61, 0x62]"
    by (simp add: names_def flat_source_def demo_closed_def demo_fs_def demo_hd_def fmem_def flat_kstate_def ldt_seg_linear_def zero_proc_def
      zero_descriptor_def desc_base_def reset_msg_def demo_path_def load_bytes_def upt_rec)
qed

lemma demo_closed_file: "disk_inode demo_closed 2 = demo_file"
proof -
  have off: "inode_off 2 = 32" "inode_sect demo_closed 2 = 5" by (simp_all add: inode_off_def inode_sect_def demo_closed_sel demo_sb_def)
  have "word_at (splice 32 (inode_bytes demo_file) (replicate 512 0)) (32 + k) = word_at (inode_bytes demo_file) k" if "k + 4 \<le> 16" for k
    using that by (intro word_at_splice) simp_all
  note w = this [of 0] this [of 4] this [of 8] this [of 12]
  have "word_at (inode_bytes x) 0 = i_mode x" "word_at (inode_bytes x) 4 = i_size x"
    "word_at (inode_bytes x) 8 = i_start_sect x" "word_at (inode_bytes x) 12 = i_nr_sects x" for x
    by (rule word_at_le32; simp add: inode_bytes_def)+
  with w show ?thesis by (simp add: disk_inode_def off demo_closed_sel(5) [of _ undefined] Let_def) (simp add: demo_file_def)
qed

lemma demo_upt: "[0..<4] = [0, Suc 0, 2, 3 :: nat]" "[0..<5] = [0, Suc 0, 2, 3, 4 :: nat]" "[0..<6] = [0, Suc 0, 2, 3, 4, 5 :: nat]"
  by (simp_all add: upt_rec)

lemma demo_closed_paths: "path_at demo_closed [0x61, 0x62] 2" "path_at demo_closed [0x63, 0x64] 3"
proof -
  have start: "unat (i_start_sect (demo_root\<lparr>i_size := 80\<rparr>)) = 261" "unat (i_size (demo_root\<lparr>i_size := 80\<rparr>)) div 16 + 1 = 6" by (simp_all add: demo_root_def)
  have name: "base_name [a, b] = [a, b]" if "a \<noteq> 0x2F" for a b using that by (simp add: base_name_def)
  show "path_at demo_closed [0x61, 0x62] 2" "path_at demo_closed [0x63, 0x64] 3"
    unfolding path_at_def lookup_name_def demo_closed_sel(4) start demo_upt by (simp_all add: name demo_closed_entries demo_names)
qed

lemma demo_closed_removable: "removable demo_closed [0x61, 0x62] 2 4 261 5 2049 2048 1"
proof -
  have "find_inode ROOT_DEV 2 demo_closed = None" "first_index (\<lambda>p. i_cnt (inode_table demo_closed p) = 0) NR_INODE = Some 1"
    by (auto simp: find_inode_def first_index_None first_index_Some demo_closed_sel demo_root_def zero_inode_def)
  moreover have "dir_at demo_closed 0 1 261 5" by (simp add: dir_at_def demo_closed_sel demo_root_def demo_sb_def)
  moreover have "first_index (\<lambda>m. slot_inode (dir_slot demo_closed 261 m) = 2) 5 = Some 4"
    by (simp add: first_index_def demo_upt demo_closed_entries)
  moreover have "map_bit demo_closed 2 2" using demo_closed_maps(1) [of 2 undefined] demo_imap [of 2] by simp
  moreover have "map_bit demo_closed 3 n" if "n < 4097" for n using demo_closed_maps(2) [of n undefined] demo_smap [of n] that by simp
  then have "has_run demo_closed demo_file 2049 2048" by (simp add: has_run_def demo_closed_sel demo_sb_def demo_file_def)
  ultimately show ?thesis
    using demo_closed_paths(1) by (simp add: removable_def demo_closed_file demo_closed_sel) (simp add: demo_file_def demo_root_def)
qed

theorem do_unlink_removes_witness:
  "\<exists>g h. do_unlink demo_closed = Inr (0, g) \<and> removed demo_closed 2 4 261 5 2049 2048 1 g \<and> search_file [0x61, 0x62] g = Inr (0, h)"
proof -
  have "slot_name (dir_slot demo_closed 261 m) \<noteq> name_field (base_name [0x61, 0x62])" if "m \<le> 5" "m \<noteq> 4" for m
  proof -
    have "m \<in> {0, Suc 0, 2, 3, 5}" using that by auto
    then show ?thesis using demo_names by (auto simp: demo_closed_entries base_name_def)
  qed
  then show ?thesis using do_unlink_removes [OF demo_closed_ok _ _ demo_closed_removable] by simp
qed

theorem do_unlink_hides_witness:
  "\<exists>g h h'. search_file [0x63, 0x64] demo_closed = Inr (3, h) \<and> do_unlink demo_closed = Inr (0, g) \<and> search_file [0x63, 0x64] g = Inr (0, h') \<and>
    dir_slot g 261 3 = dir_slot demo_closed 261 3"
proof -
  have live: "live (\<lambda>m. slot_inode (dir_slot demo_closed 261 m)) 0 4 = 2" by (simp add: live_def demo_upt demo_closed_entries)
  have "slot_name (dir_slot demo_closed 261 m) \<noteq> name_field (base_name [0x63, 0x64])" if "m \<le> 2" for m
  proof -
    have "m \<in> {0, Suc 0, 2}" using that by auto
    then show ?thesis using demo_names by (auto simp: demo_closed_entries base_name_def)
  qed
  then show ?thesis
    using do_unlink_hides [OF demo_closed_ok _ _ _ demo_closed_paths(2), of 2 5 261 2049 2048 1] demo_closed_removable live by auto
qed

end
