(* ===== verification/Fs_Main.thy ===== *)
theory Fs_Main
  imports Fs_Unlink
begin

text \<open>
  The start of the file system task and its loop, \<^verbatim>\<open>init_fs\<close>, \<^verbatim>\<open>mkfs\<close> and \<^verbatim>\<open>task_fs\<close> of \<^verbatim>\<open>fs/main.c\<close>. The main
  result is that a fresh file system satisfies what the operations ask for.
\<close>

section \<open>Making a file system\<close>

text \<open>The super block that \<^verbatim>\<open>mkfs\<close> makes for a device of \<open>dev_size\<close> sectors; the first 56 bytes of it are written.\<close>

definition new_super_block :: "u32 \<Rightarrow> super_block" where
  "new_super_block dev_size =
     (let bits_per_sect = SECTOR_SIZE * 8; nr_inodes' = bits_per_sect; nr_inode_sects' = nr_inodes' * INODE_SIZE div SECTOR_SIZE;
          nr_imap_sects' = 1; nr_smap_sects' = dev_size div bits_per_sect + 1
      in \<lparr>magic = 0x111, nr_inodes = nr_inodes', sb_nr_sects = dev_size, nr_imap_sects = nr_imap_sects', nr_smap_sects = nr_smap_sects',
          n_1st_sect = 1 + 1 + nr_imap_sects' + nr_smap_sects' + nr_inode_sects', nr_inode_sects = nr_inode_sects', sb_root_inode = ROOT_INODE,
          inode_size = INODE_SIZE, inode_isize_off = 4, inode_start_off = 8, dir_ent_size = DIR_ENTRY_SIZE,
          dir_ent_inode_off = 0, dir_ent_fname_off = 4, sb_dev = 0\<rparr>)"

definition super_block_bytes :: "super_block \<Rightarrow> u8 list" where
  "super_block_bytes sb = le32 (magic sb) @ le32 (nr_inodes sb) @ le32 (sb_nr_sects sb) @ le32 (nr_imap_sects sb) @ le32 (nr_smap_sects sb) @
     le32 (n_1st_sect sb) @ le32 (nr_inode_sects sb) @ le32 (sb_root_inode sb) @ le32 (inode_size sb) @ le32 (inode_isize_off sb) @
     le32 (inode_start_off sb) @ le32 (dir_ent_size sb) @ le32 (dir_ent_inode_off sb) @ le32 (dir_ent_fname_off sb)"

abbreviation (input) NR_CONSOLES :: nat where "NR_CONSOLES \<equiv> 3"

text \<open>The buffer is filled and written to a sector; loops that set bits in a byte of the cleared buffer.\<close>

definition put_sect :: "u32 \<Rightarrow> u8 list \<Rightarrow> fs \<Rightarrow> fs result" where
  "put_sect n bs f = WR_SECT ROOT_DEV n (put_buf bs f)"

definition low_bits :: "nat \<Rightarrow> u8" where
  "low_bits n = fold set_bit [0..<n] 0"

definition mkfs_imap :: "fs \<Rightarrow> fs result" where
  "mkfs_imap f =
     (let b = low_bits (NR_CONSOLES + 2)
      in check 185 (b = 0x1F) (put_sect 2 (b # replicate (SECTOR_SIZE - 1) 0) f))"

fun mkfs_smap_rest :: "u32 \<Rightarrow> nat list \<Rightarrow> fs \<Rightarrow> fs result" where
  "mkfs_smap_rest smap_blk0_nr [] f = Inr f"
| "mkfs_smap_rest smap_blk0_nr (i # is) f = bindE (WR_SECT ROOT_DEV (smap_blk0_nr + of_nat i) f) (mkfs_smap_rest smap_blk0_nr is)"

definition mkfs_smap :: "super_block \<Rightarrow> fs \<Rightarrow> fs result" where
  "mkfs_smap sb f =
     (let nr_sects = NR_DEFAULT_FILE_SECTS + 1; full = nr_sects div 8
      in bindE (put_sect (2 + nr_imap_sects sb)
             (replicate full 0xFF @ low_bits (nr_sects mod 8) # replicate (SECTOR_SIZE - full - 1) 0) f) (\<lambda>f.
           mkfs_smap_rest (2 + nr_imap_sects sb) [1..<unat (nr_smap_sects sb)] (put_buf (replicate SECTOR_SIZE 0) f)))"

definition MAKE_DEV :: "u32 \<Rightarrow> u32 \<Rightarrow> u32" where
  "MAKE_DEV a b = push_bit 8 a OR b"

text \<open>An inode on disk fills 32 bytes, of which the first 16 are used.\<close>

definition inode_record :: "inode \<Rightarrow> u8 list" where
  "inode_record x = inode_bytes x @ replicate 16 0"

definition tty_inode :: "nat \<Rightarrow> inode" where
  "tty_inode i = \<lparr>i_mode = I_CHAR_SPECIAL, i_size = 0, i_start_sect = MAKE_DEV 4 (of_nat i), i_nr_sects = 0, i_dev = ROOT_DEV, i_cnt = 1,
     i_num = int i + 2\<rparr>"

definition new_root :: "super_block \<Rightarrow> inode" where
  "new_root sb = \<lparr>i_mode = I_DIRECTORY, i_size = DIR_ENTRY_SIZE * 4, i_start_sect = n_1st_sect sb, i_nr_sects = NR_DEFAULT_FILE_SECTS,
     i_dev = ROOT_DEV, i_cnt = 1, i_num = ROOT_INODE\<rparr>"

definition mkfs_inodes :: "super_block \<Rightarrow> fs \<Rightarrow> fs result" where
  "mkfs_inodes sb f =
     put_sect (2 + nr_imap_sects sb + nr_smap_sects sb)
       (inode_record (new_root sb) @ concat (map (\<lambda>i. inode_record (tty_inode i)) [0..<NR_CONSOLES]) @
        replicate (SECTOR_SIZE - INODE_SIZE * (NR_CONSOLES + 1)) 0) f"

text \<open>The names \<open>.\<close> and \<open>dev_tty0\<close> to \<open>dev_tty2\<close>, in fields that were cleared before.\<close>

definition tty_name :: "nat \<Rightarrow> u8 list" where
  "tty_name i = [0x64, 0x65, 0x76, 0x5F, 0x74, 0x74, 0x79, 0x30 + of_nat i]"

definition mkfs_root :: "super_block \<Rightarrow> fs \<Rightarrow> fs result" where
  "mkfs_root sb f =
     put_sect (n_1st_sect sb)
       ((le32 1 @ name_field [0x2E]) @ concat (map (\<lambda>i. le32 (of_nat (i + 2)) @ name_field (tty_name i)) [0..<NR_CONSOLES]) @
        replicate (SECTOR_SIZE - DIR_ENTRY_SIZE * (NR_CONSOLES + 1)) 0) f"

text \<open>The geometry is copied to the local variable \<^verbatim>\<open>geo\<close>, whose address on the stack of the task is a parameter.\<close>

definition mkfs :: "u32 \<Rightarrow> fs \<Rightarrow> fs result" where
  "mkfs geo f =
     bindE (driver_call 141 ROOT_DEV (reset_msg\<lparr>msg_type := DEV_IOCTL, m3i4 := word_of_int (MINOR ROOT_DEV), m3i2 := 1, m3p2 := geo, m3i3 := TASK_FS\<rparr>) f)
       (\<lambda>(r, f).
          let sb = new_super_block (load32 (fmem f) (geo + 4))
          in bindE (put_sect 1 (super_block_bytes sb @ replicate (SECTOR_SIZE - 56) 0x90) f) (\<lambda>f.
             bindE (mkfs_imap f) (\<lambda>f.
             bindE (mkfs_smap sb f) (\<lambda>f.
             bindE (mkfs_inodes sb f) (mkfs_root sb)))))"

definition init_fs :: "u32 \<Rightarrow> fs \<Rightarrow> fs result" where
  "init_fs geo f =
     (let f = f\<lparr>f_desc_table := (\<lambda>i. if i < NR_FILE_DESC then zero_fd else f_desc_table f i),
            inode_table := (\<lambda>i. if i < NR_INODE then zero_inode else inode_table f i),
            super_blocks := (\<lambda>i. if i < NR_SUPER_BLOCK then (super_blocks f i)\<lparr>sb_dev := NO_DEV\<rparr> else super_blocks f i)\<rparr>
      in bindE (driver_call 117 ROOT_DEV (reset_msg\<lparr>msg_type := DEV_OPEN, m3i4 := word_of_int (MINOR ROOT_DEV)\<rparr>) f) (\<lambda>(r, f).
         bindE (mkfs geo f) (\<lambda>f.
         bindE (read_super_block ROOT_DEV f) (\<lambda>f.
         bindE (get_super_block ROOT_DEV f) (\<lambda>sb.
           check 124 (magic sb = 0x111)
           (bindE (get_inode ROOT_DEV ROOT_INODE f) (\<lambda>(r, f).
              case r of None \<Rightarrow> Inl (OutOfBounds 126) | Some p \<Rightarrow> Inr (f\<lparr>root_inode := p\<rparr>))))))))"

section \<open>Requests\<close>

text \<open>
  What \<^verbatim>\<open>task_fs\<close> does with a request: the answer and the process that gets it, or \<open>None\<close> when the terminal has suspended the caller.
  The report that follows a request to remove a file is added in the theory \<open>Fs_Dump\<close>: \<open>task_fs_turn\<close> is the whole turn of the loop.
\<close>

definition serve :: "fs \<Rightarrow> (int \<times> fs) result" where
  "serve f =
     (let m = fs_msg f; t = msg_type m; src = sint (source m);
          ret = (\<lambda>(r, f). Inr (src, f\<lparr>fs_msg := (fs_msg f)\<lparr>m3i1 := word_of_int r\<rparr>\<rparr>))
      in if t = OPEN then bindE (do_open f) ret
         else if t = CLOSE then bindE (do_close f) ret
         else if t = READ \<or> t = WRITE then bindE (do_rdwt f) (\<lambda>(r, f). Inr (src, f\<lparr>fs_msg := (fs_msg f)\<lparr>m3i2 := word_of_int r\<rparr>\<rparr>))
         else if t = UNLINK then bindE (do_unlink f) ret
         else if t = RESUME_PROC then Inr (sint (PROC_NR m), f)
         else if t = FORK then bindE (fs_fork f) ret
         else check 56 (t = EXIT) (bindE (fs_exit f) ret))"

definition task_fs_msg :: "message \<Rightarrow> fs \<Rightarrow> ((int \<times> message) option \<times> fs) result" where
  "task_fs_msg m f =
     (let src = sint (source m)
      in if 0 \<le> src \<and> src < nr_slots
         then bindE (serve (f\<lparr>fs_msg := m, pcaller := nat src\<rparr>)) (\<lambda>(dest, f).
                if msg_type (fs_msg f) \<noteq> SUSPEND_PROC
                then let f = f\<lparr>fs_msg := (fs_msg f)\<lparr>msg_type := SYSCALL_RET\<rparr>\<rparr> in Inr (Some (dest, fs_msg f), f)
                else Inr (None, f))
         else Inl (OutOfBounds 29))"

section \<open>A fresh file system\<close>

lemma put_sect_ok:
  assumes "fs_ok f" "length bs = SECTOR_SIZE" "n < sect_limit"
  shows "\<exists>g. put_sect (of_nat n) bs f = Inr g \<and> fs_ok g \<and> fs_sect g = (fs_sect f)(n := bs) \<and> fs_frame f g"
proof -
  note put = put_buf_edits [OF assms(1, 2)]
  obtain g where "WR_SECT ROOT_DEV (of_nat n) (put_buf bs f) = Inr g" "fs_ok g" "fs_sect g = (fs_sect f)(n := bs)" "fs_frame (put_buf bs f) g"
    using root.wr_ok [OF put(1) assms(3)] put(2, 3) by auto
  then show ?thesis using fs_frame_trans [OF put(4)] by (auto simp: put_sect_def)
qed

lemma mkfs_smap_rest_ok:
  assumes "fs_ok f" "s + l \<le> sect_limit"
  shows "\<exists>g. mkfs_smap_rest (of_nat s) [i..<l] f = Inr g \<and> fs_ok g \<and> fs_buf g = fs_buf f \<and> fs_frame f g \<and>
    fs_sect g = (\<lambda>n. if s + i \<le> n \<and> n < s + l then fs_buf f else fs_sect f n)"
  using assms
proof (induction "l - i" arbitrary: i f)
  case 0
  then show ?case by (auto simp: fun_eq_iff)
next
  case (Suc d)
  then have i: "i < l" "[i..<l] = i # [Suc i..<l]" "d = l - Suc i" by (simp_all add: upt_conv_Cons)
  obtain g where g: "WR_SECT ROOT_DEV (of_nat (s + i)) f = Inr g" "fs_ok g" "fs_sect g = (fs_sect f)(s + i := fs_buf f)" "fs_buf g = fs_buf f" "fs_frame f g"
    using root.wr_ok [OF Suc.prems(1), of "s + i"] Suc.prems(2) i(1) by auto
  obtain h where h: "mkfs_smap_rest (of_nat s) [Suc i..<l] g = Inr h" "fs_ok h" "fs_buf h = fs_buf g" "fs_frame g h"
    "fs_sect h = (\<lambda>n. if s + Suc i \<le> n \<and> n < s + l then fs_buf g else fs_sect g n)"
    using Suc.hyps(1) [OF i(3) g(2) Suc.prems(2)] by blast
  have "fs_sect h = (\<lambda>n. if s + i \<le> n \<and> n < s + l then fs_buf f else fs_sect f n)"
    using i(1) by (auto simp: h(5) g(3, 4) fun_eq_iff)
  with g h fs_frame_trans [OF g(5) h(4)] show ?case unfolding i(2) by simp
qed

text \<open>The sectors after \<^verbatim>\<open>mkfs\<close>.\<close>

definition super_sect :: "super_block \<Rightarrow> u8 list" where
  "super_sect sb = super_block_bytes sb @ replicate (SECTOR_SIZE - 56) 0x90"

definition smap_sect :: "u8 list" where
  "smap_sect = replicate 256 0xFF @ 1 # replicate 255 0"

definition inodes_sect :: "super_block \<Rightarrow> u8 list" where
  "inodes_sect sb = inode_record (new_root sb) @ concat (map (\<lambda>i. inode_record (tty_inode i)) [0..<NR_CONSOLES]) @ replicate 384 0"

definition root_sect :: "u8 list" where
  "root_sect = (le32 1 @ name_field [0x2E]) @ concat (map (\<lambda>i. le32 (of_nat (i + 2)) @ name_field (tty_name i)) [0..<NR_CONSOLES]) @ replicate 448 0"

definition image :: "super_block \<Rightarrow> (nat \<Rightarrow> u8 list) \<Rightarrow> nat \<Rightarrow> u8 list" where
  "image sb old n =
     (let l = unat (nr_smap_sects sb)
      in if n = 1 then super_sect sb else if n = 2 then 0x1F # replicate 511 0 else if n = 3 then smap_sect
         else if 3 < n \<and> n < 3 + l then replicate SECTOR_SIZE 0 else if n = 3 + l then inodes_sect sb
         else if n = unat (n_1st_sect sb) then root_sect else old n)"

lemma sect_lengths: "length (super_sect sb) = SECTOR_SIZE" "length smap_sect = SECTOR_SIZE" "length (inodes_sect sb) = SECTOR_SIZE" "length root_sect = SECTOR_SIZE"
  by (simp_all add: super_sect_def super_block_bytes_def smap_sect_def inodes_sect_def inode_record_def root_sect_def name_field_def tty_name_def upt_rec)

lemma low_bits_values: "low_bits 1 = 1" "low_bits 5 = 0x1F"
  by code_simp+

text \<open>The layout for a device of \<open>dev_size\<close> sectors.\<close>

lemma new_super_block_layout:
  fixes dev_size :: u32
  defines "sb \<equiv> new_super_block dev_size"
  shows "nr_imap_sects sb = 1" "unat (nr_smap_sects sb) = unat dev_size div 4096 + 1" "unat (n_1st_sect sb) = 3 + unat (nr_smap_sects sb) + 256"
    "unat (n_1st_sect sb) < 2 ^ 21" "2 + nr_imap_sects sb + nr_smap_sects sb = of_nat (3 + unat (nr_smap_sects sb))"
proof -
  have "unat dev_size div 4096 \<le> 2 ^ 20"
    using div_le_mono [of "unat dev_size" "2 ^ 32" 4096] unsigned_less [of dev_size, where ?'a = nat] by simp
  moreover have sm: "nr_smap_sects sb = dev_size div 4096 + 1" "n_1st_sect sb = 3 + nr_smap_sects sb + 256" "nr_imap_sects sb = 1"
    by (simp_all add: sb_def new_super_block_def Let_def)
  ultimately show u: "unat (nr_smap_sects sb) = unat dev_size div 4096 + 1" by (simp add: unat_word_ariths unat_div)
  show "nr_imap_sects sb = 1" by (rule sm(3))
  show n: "unat (n_1st_sect sb) = 3 + unat (nr_smap_sects sb) + 256" "unat (n_1st_sect sb) < 2 ^ 21"
    using \<open>unat dev_size div 4096 \<le> 2 ^ 20\<close> u by (simp_all add: sm(2) unat_word_ariths)
  show "2 + nr_imap_sects sb + nr_smap_sects sb = of_nat (3 + unat (nr_smap_sects sb))" by (simp add: sm(3))
qed

lemma fs_frame_same:
  assumes "fs_frame f g"
  shows "same_but_disk f g"
proof -
  obtain d where g: "g = f\<lparr>drv := d\<rparr>" using assms by (auto simp: fs_frame_def)
  then have "d = (drv f)\<lparr>disk := disk d, hks := (hks (drv f))\<lparr>kmem := kmem (hks d)\<rparr>\<rparr>"
    using assms by (intro hd.equality) (simp_all add: fs_frame_def)
  then show ?thesis unfolding g by (intro same_but_diskI [where a = "disk d" and b = "kmem (hks d)"]) simp
qed

lemma mkfs_writes:
  fixes dev_size :: u32
  defines "sb \<equiv> new_super_block dev_size"
  assumes "fs_ok f"
  shows "\<exists>g. bindE (put_sect 1 (super_sect sb) f) (\<lambda>f. bindE (mkfs_imap f) (\<lambda>f. bindE (mkfs_smap sb f) (\<lambda>f. bindE (mkfs_inodes sb f) (mkfs_root sb)))) = Inr g \<and>
    fs_ok g \<and> fs_frame f g \<and> fs_sect g = image sb (fs_sect f)"
proof -
  let ?l = "unat (nr_smap_sects sb)"
  note lay = new_super_block_layout [of dev_size, folded sb_def]
  obtain f1 where f1: "put_sect 1 (super_sect sb) f = Inr f1" "fs_ok f1" "fs_sect f1 = (fs_sect f)(1 := super_sect sb)" "fs_frame f f1"
    using put_sect_ok [OF assms(2) sect_lengths(1) [of sb], of 1] by auto
  obtain f2 where f2: "mkfs_imap f1 = Inr f2" "fs_ok f2" "fs_sect f2 = (fs_sect f1)(2 := 0x1F # replicate 511 0)" "fs_frame f1 f2"
    using put_sect_ok [OF f1(2), of "0x1F # replicate 511 0" 2] by (auto simp: mkfs_imap_def low_bits_values)
  obtain f3 where f3: "put_sect 3 smap_sect f2 = Inr f3" "fs_ok f3" "fs_sect f3 = (fs_sect f2)(3 := smap_sect)" "fs_frame f2 f3"
    using put_sect_ok [OF f2(2) sect_lengths(2), of 3] by auto
  let ?z = "put_buf (replicate SECTOR_SIZE 0) f3"
  have put: "fs_ok ?z" "fs_buf ?z = replicate SECTOR_SIZE 0" "fs_sect ?z = fs_sect f3" "fs_frame f3 ?z"
    using put_buf_edits [OF f3(2), of "replicate SECTOR_SIZE 0"] by simp_all
  obtain f4 where f4: "mkfs_smap_rest 3 [1..<?l] ?z = Inr f4" "fs_ok f4" "fs_frame ?z f4"
    "fs_sect f4 = (\<lambda>n. if 3 + 1 \<le> n \<and> n < 3 + ?l then replicate SECTOR_SIZE 0 else fs_sect f3 n)"
    using mkfs_smap_rest_ok [OF put(1), of 3 ?l 1, unfolded put(2, 3)] lay(3, 4) by auto
  have smap: "mkfs_smap sb f2 = Inr f4"
    using f3(1) f4(1) low_bits_values(1) by (simp add: mkfs_smap_def lay(1) smap_sect_def)
  obtain f5 where f5: "mkfs_inodes sb f4 = Inr f5" "fs_ok f5" "fs_sect f5 = (fs_sect f4)(3 + ?l := inodes_sect sb)" "fs_frame f4 f5"
    using put_sect_ok [OF f4(2) sect_lengths(3) [of sb], of "3 + ?l"] lay(3, 4) by (auto simp: mkfs_inodes_def lay(5) inodes_sect_def)
  obtain g where g: "mkfs_root sb f5 = Inr g" "fs_ok g" "fs_sect g = (fs_sect f5)(unat (n_1st_sect sb) := root_sect)" "fs_frame f5 g"
    using put_sect_ok [OF f5(2) sect_lengths(4), of "unat (n_1st_sect sb)"] lay(4) by (auto simp: mkfs_root_def root_sect_def)
  have "fs_frame f g"
    by (rule fs_frame_trans [OF f1(4) fs_frame_trans [OF f2(4) fs_frame_trans [OF f3(4) fs_frame_trans [OF put(4) fs_frame_trans [OF f4(3)
          fs_frame_trans [OF f5(4) g(4)]]]]]])
  moreover have "fs_sect g = image sb (fs_sect f)"
    using lay(2, 3) by (auto simp: g(3) f5(3) f4(4) f3(3) f2(3) f1(3) image_def Let_def fun_eq_iff)
  ultimately show ?thesis using f1(1) f2(1) smap f5(1) g(1, 2) by auto
qed

section \<open>What is on the fresh device\<close>

lemma word_at_drop: "off \<le> length bs \<Longrightarrow> word_at bs (off + k) = word_at (drop off bs) k"
  using word_at_append [of "take off bs" "drop off bs" k] by simp

lemma inode_bytes_words:
  "word_at (inode_bytes x @ rest) 0 = i_mode x" "word_at (inode_bytes x @ rest) 4 = i_size x"
  "word_at (inode_bytes x @ rest) 8 = i_start_sect x" "word_at (inode_bytes x @ rest) 12 = i_nr_sects x"
  by (rule word_at_le32; simp add: inode_bytes_def)+

lemma disk_inode_record:
  assumes "fs_ok f" "drop (inode_off num) (fs_sect f (inode_sect f num)) = inode_bytes x @ rest"
  shows "disk_inode f num = x\<lparr>i_dev := ROOT_DEV, i_cnt := 1, i_num := int num\<rparr>"
proof -
  have "inode_off num \<le> length (fs_sect f (inode_sect f num))"
    using fs_sect_length [OF assms(1)] inode_off_bound [of num] by simp
  note w = word_at_drop [OF this, unfolded assms(2)]
  show ?thesis
    using w [of 0] w [of 4] w [of 8] w [of 12] inode_bytes_words [of x rest]
    by (cases x) (simp add: disk_inode_def Let_def)
qed

lemma bits_low: "n < 8 \<Longrightarrow> bit (0x1F :: u8) n \<longleftrightarrow> n < 5"
  using bit_mask_iff [where 'a = "8 word", of 5 n] by (auto simp: mask_eq_exp_minus_1)

lemma imap_bits: "n < 4096 \<Longrightarrow> bits (0x1F # replicate 511 0) n \<longleftrightarrow> n < 5"
  using bits_low [of n] by (cases "n < 8") (simp_all add: bits_def nth_Cons')

lemma smap_bits:
  assumes "n < 4096"
  shows "bits smap_sect n \<longleftrightarrow> n < 2049"
proof -
  have full: "bit (0xFF :: u8) (n mod 8)" using byte_full_iff [of "0xFF"] by simp
  consider "n div 8 < 256" | "n div 8 = 256" | "256 < n div 8" by linarith
  then show ?thesis
  proof cases
    case 1
    then have "n < 2049" by linarith
    with 1 full show ?thesis by (simp add: bits_def smap_sect_def nth_append)
  next
    case 2
    then have "n < 2049 \<longleftrightarrow> n mod 8 = 0" by presburger
    with 2 show ?thesis by (simp add: bits_def smap_sect_def nth_append bit_1_iff)
  next
    case 3
    then have "\<not> n < 2049" "n div 8 < 512" using assms by linarith+
    with 3 show ?thesis by (simp add: bits_def smap_sect_def nth_append nth_Cons')
  qed
qed

lemma root_sect_slots:
  assumes "k < 32"
  shows "take 16 (drop (16 * k) root_sect) =
    (if k = 0 then le32 1 @ name_field [0x2E]
     else if k \<le> NR_CONSOLES then le32 (of_nat (k + 1)) @ name_field (tty_name (k - 1)) else replicate 16 0)"
proof -
  let ?e = "\<lambda>k. le32 (of_nat (k + 1)) @ name_field (tty_name (k - 1))"
  have list: "root_sect = (le32 1 @ name_field [0x2E]) @ ?e 1 @ ?e 2 @ ?e 3 @ replicate 448 0"
    by (simp add: root_sect_def upt_rec numeral_2_eq_2 numeral_3_eq_3)
  have len: "length (name_field x) = 12" for x by (simp add: name_field_def)
  consider "k = 0" | "k = 1" | "k = 2" | "k = 3" | "4 \<le> k" by linarith
  then show ?thesis
  proof cases
    case 5
    then have "16 * k = 64 + 16 * (k - 4)" by simp
    then have "drop (16 * k) root_sect = drop (16 * (k - 4)) (replicate 448 0)"
      by (simp only: list drop_append) (simp add: len)
    with 5 assms show ?thesis by simp
  qed (simp_all add: list len)
qed

text \<open>A fresh file system with super block \<open>sb\<close>.\<close>

definition fresh :: "super_block \<Rightarrow> fs \<Rightarrow> bool" where
  "fresh sb f \<longleftrightarrow>
     (\<forall>n<4096. map_bit f 2 n = (n < 5)) \<and> (\<forall>n<4096 * unat (nr_smap_sects sb). map_bit f 3 n = (n < 2049)) \<and>
     disk_inode f 1 = new_root sb \<and> (\<forall>i<NR_CONSOLES. disk_inode f (i + 2) = tty_inode i) \<and>
     (\<forall>k<32. dir_slot f (unat (n_1st_sect sb)) k =
        (if k = 0 then le32 1 @ name_field [0x2E]
         else if k \<le> NR_CONSOLES then le32 (of_nat (k + 1)) @ name_field (tty_name (k - 1)) else replicate 16 0))"

lemma image_fresh:
  fixes dev_size :: u32
  defines "sb \<equiv> new_super_block dev_size"
  assumes "fs_ok f" "fs_sect f = image sb old" "sb0 f = sb\<lparr>sb_dev := ROOT_DEV\<rparr>"
  shows "fresh sb f"
proof -
  let ?l = "unat (nr_smap_sects sb)"
  note lay = new_super_block_layout [of dev_size, folded sb_def]
  have sect: "inode_sect f m = 3 + ?l" if "1 \<le> m" "m \<le> 4" for m using that by (simp add: inode_sect_def assms(4))
  have here: "fs_sect f (3 + ?l) = inodes_sect sb" using lay(2) by (simp add: assms(3) image_def Let_def)
  have list: "inodes_sect sb = inode_record (new_root sb) @ inode_record (tty_inode 0) @ inode_record (tty_inode 1) @ inode_record (tty_inode 2) @ replicate 384 0"
    by (simp add: inodes_sect_def upt_rec numeral_2_eq_2)
  have "map_bit f 2 n = (n < 5)" if "n < 4096" for n
    using that imap_bits by (simp add: map_bit_first assms(3) image_def Let_def)
  moreover have "map_bit f 3 n = (n < 2049)" if "n < 4096 * ?l" for n
  proof (cases "n < 4096")
    case True
    then show ?thesis using smap_bits by (simp add: map_bit_first assms(3) image_def Let_def)
  next
    case False
    then have "n div 4096 < ?l" "n mod 4096 div 8 < 512" "n div 4096 \<noteq> 0" using map_sector [OF that] by (simp_all add: less_mult_imp_div_less)
    with False show ?thesis by (simp add: map_bit_def assms(3) image_def Let_def bits_def)
  qed
  moreover have "\<exists>rest. drop (inode_off 1) (fs_sect f (inode_sect f 1)) = inode_bytes (new_root sb) @ rest"
    by (simp add: sect here list inode_off_def inode_record_def)
  then have "disk_inode f 1 = new_root sb" using disk_inode_record [OF assms(2), of 1 "new_root sb"] by (auto simp: new_root_def)
  moreover have "disk_inode f (i + 2) = tty_inode i" if i: "i < NR_CONSOLES" for i
  proof -
    consider "i = 0" | "i = 1" | "i = 2" using i by linarith
    then have "\<exists>rest. drop (inode_off (i + 2)) (fs_sect f (inode_sect f (i + 2))) = inode_bytes (tty_inode i) @ rest"
      by cases (simp_all add: sect here list inode_off_def inode_record_def)
    then show ?thesis using disk_inode_record [OF assms(2), of "i + 2" "tty_inode i"] by (auto simp: tty_inode_def)
  qed
  moreover have "dir_slot f (unat (n_1st_sect sb)) k = take 16 (drop (16 * k) root_sect)" if "k < 32" for k
    using that lay(2, 3) by (simp add: dir_slot_def assms(3) image_def Let_def)
  ultimately show ?thesis by (simp add: fresh_def root_sect_slots)
qed

section \<open>The start of the task\<close>

lemma drv_views: "drv g = drv f \<Longrightarrow> fs_ok g = fs_ok f" "drv g = drv f \<Longrightarrow> fs_sect g = fs_sect f" "drv g = drv f \<Longrightarrow> fmem g = fmem f"
  "drv g = drv f \<Longrightarrow> fs_buf g = fs_buf f"
  by (simp_all add: fs_ok_def fs_base_def fs_sect_def fmem_def fs_buf_def fun_eq_iff)

lemma driver_call_root: "driver_call ln ROOT_DEV m f = hd_call (m\<lparr>source := TASK_FS\<rparr>) f"
  by (simp add: driver_call_def root_dev dd_map_def)

lemma get_geometry:
  assumes "fs_ok f"
  shows "\<exists>r. driver_call 141 ROOT_DEV (reset_msg\<lparr>msg_type := DEV_IOCTL, m3i4 := word_of_int (MINOR ROOT_DEV), m3i2 := 1, m3p2 := geo, m3i3 := TASK_FS\<rparr>) f =
    Inr (r, set_fmem (store_bytes (fmem f) geo (le32 (fs_base f) @ le32 (part_size (logical (hdi (drv f)) 16)))) f)"
  using assms root_part [of 161 "hdi (drv f)"]
  by (simp add: driver_call_root hd_call_def task_hd_msg_def hd_ioctl_def root_dev reset_msg_def va2la_def fs_ok_def fs_base_def set_fmem_def fmem_def)

lemma geometry_size: "load32 (store_bytes h geo (le32 b @ le32 s)) (geo + 4) = s"
  using load32_store32 [of "store_bytes h geo (le32 b)" "geo + 4" s] by (simp add: store32_def store_bytes_append)

lemma super_call:
  "driver_call ln ROOT_DEV (reset_msg\<lparr>msg_type := DEV_READ, m3i4 := word_of_int (MINOR ROOT_DEV), m3l1 := SECTOR_SIZE, m3p2 := fsbuf, m3i2 := SECTOR_SIZE, m3i3 := TASK_FS\<rparr>) f =
   bindE (RD_SECT ROOT_DEV 1 f) (\<lambda>g. Inr (reset_msg\<lparr>msg_type := DEV_READ, m3i4 := word_of_int (MINOR ROOT_DEV), m3l1 := SECTOR_SIZE, m3p2 := fsbuf,
     m3i2 := SECTOR_SIZE, m3i3 := TASK_FS, source := TASK_HD\<rparr>, g))"
  by (simp add: driver_call_root hd_call_def RD_SECT_def rw_sector_root root_dev bindE_assoc)

lemma super_words:
  "word_at (super_sect sb) 0 = magic sb" "word_at (super_sect sb) 4 = nr_inodes sb" "word_at (super_sect sb) 8 = sb_nr_sects sb"
  "word_at (super_sect sb) 12 = nr_imap_sects sb" "word_at (super_sect sb) 16 = nr_smap_sects sb" "word_at (super_sect sb) 20 = n_1st_sect sb"
  "word_at (super_sect sb) 24 = nr_inode_sects sb" "word_at (super_sect sb) 28 = sb_root_inode sb" "word_at (super_sect sb) 32 = inode_size sb"
  "word_at (super_sect sb) 36 = inode_isize_off sb" "word_at (super_sect sb) 40 = inode_start_off sb" "word_at (super_sect sb) 44 = dir_ent_size sb"
  "word_at (super_sect sb) 48 = dir_ent_inode_off sb" "word_at (super_sect sb) 52 = dir_ent_fname_off sb"
  by (rule word_at_le32; simp add: super_sect_def super_block_bytes_def)+

lemma load_super_sect:
  assumes "fs_buf f = super_sect sb"
  shows "(load_super_block (fmem f) fsbuf)\<lparr>sb_dev := dev\<rparr> = sb\<lparr>sb_dev := dev\<rparr>"
proof -
  have "load32 (fmem f) (fsbuf + of_nat k) = word_at (super_sect sb) k" if "k + 4 \<le> SECTOR_SIZE" for k
    using load32_word_at [OF that, of "fmem f" fsbuf] assms by (simp add: fs_buf_def)
  note w = this [of 0] this [of 4] this [of 8] this [of 12] this [of 16] this [of 20] this [of 24] this [of 28] this [of 32] this [of 36]
    this [of 40] this [of 44] this [of 48] this [of 52]
  show ?thesis using w by (simp add: load_super_block_def super_words)
qed

lemma read_super_block_ok:
  assumes "fs_ok f" "fs_sect f 1 = super_sect sb" "\<And>i. i < NR_SUPER_BLOCK \<Longrightarrow> sb_dev (super_blocks f i) = NO_DEV"
  shows "\<exists>g. read_super_block ROOT_DEV f = Inr (g\<lparr>super_blocks := (super_blocks f)(0 := sb\<lparr>sb_dev := ROOT_DEV\<rparr>)\<rparr>) \<and> fs_ok g \<and> fs_sect g = fs_sect f \<and> fs_frame f g"
proof -
  obtain g where g: "RD_SECT ROOT_DEV 1 f = Inr g" "fs_ok g" "fs_buf g = super_sect sb" "fs_sect g = fs_sect f" "fs_frame f g"
    using root.rd_ok [OF assms(1), of 1] assms(2) by auto
  have "super_blocks g = super_blocks f" by (rule fs_frame_sel(3) [OF g(5)])
  moreover from this have "first_index (\<lambda>i. sb_dev (super_blocks g i) = NO_DEV) NR_SUPER_BLOCK = Some 0"
    using assms(3) [of 0] by (simp add: first_index_Some)
  ultimately show ?thesis
    using g load_super_sect [OF g(3), of ROOT_DEV] by (intro exI [of _ g]) (simp add: read_super_block_def super_call)
qed

text \<open>
  C30. The start of the file system task. When the driver opens the root device and that can be addressed, \<^verbatim>\<open>init_fs\<close> succeeds for
  every size of the device: the super block, both bit maps, the four inodes and the root directory are on disk as \<^verbatim>\<open>mkfs\<close> lays them out;
  the device is mounted, the root directory is the only inode in the cache, no descriptor is in use; and if no process holds a
  descriptor, the counters are right. That is what the operations on files ask for.
\<close>

theorem init_fs_ready:
  assumes "task_hd_msg (reset_msg\<lparr>msg_type := DEV_OPEN, m3i4 := 0x20, source := TASK_FS\<rparr>) (drv f) = Inr d" "fs_ok (f\<lparr>drv := d\<rparr>)"
  shows "\<exists>g. init_fs geo f = Inr g \<and> mounted g \<and> root_ok g \<and> cache_ok g \<and> fresh (new_super_block (part_size (logical (hdi d) 16))) g \<and>
    root_inode g = 0 \<and> root_dir g = new_root (sb0 g) \<and> (\<forall>i<NR_FILE_DESC. f_desc_table g i = zero_fd) \<and>
    ((\<forall>s. filp (proc_table (hks d) (fst s)) (snd s) = None) \<longrightarrow> refs_ok g all_slots)"
proof -
  define sb where "sb = new_super_block (part_size (logical (hdi d) 16))"
  note lay = new_super_block_layout [of "part_size (logical (hdi d) 16)", folded sb_def]
  define f1 where "f1 = f\<lparr>f_desc_table := (\<lambda>i. if i < NR_FILE_DESC then zero_fd else f_desc_table f i),
    inode_table := (\<lambda>i. if i < NR_INODE then zero_inode else inode_table f i),
    super_blocks := (\<lambda>i. if i < NR_SUPER_BLOCK then (super_blocks f i)\<lparr>sb_dev := NO_DEV\<rparr> else super_blocks f i), drv := d\<rparr>"
  have ok1: "fs_ok f1" "drv f1 = d" using assms(2) drv_views(1) [of f1 "f\<lparr>drv := d\<rparr>"] by (simp_all add: f1_def)
  define f2 where "f2 = set_fmem (store_bytes (fmem f1) geo (le32 (fs_base f1) @ le32 (part_size (logical (hdi d) 16)))) f1"
  have f2: "fs_ok f2" "load32 (fmem f2) (geo + 4) = part_size (logical (hdi d) 16)" using ok1(1) by (simp_all add: f2_def geometry_size)
  obtain f3 where f3: "mkfs geo f1 = Inr f3" "fs_ok f3" "fs_frame f2 f3" "fs_sect f3 = image sb (fs_sect f2)"
    using get_geometry [OF ok1(1), of geo] mkfs_writes [OF f2(1), of "part_size (logical (hdi d) 16)", folded sb_def] f2(2)
    by (auto simp: mkfs_def f2_def ok1(2) super_sect_def sb_def)
  have tabs: "f_desc_table f3 = f_desc_table f1" "inode_table f3 = inode_table f1" "super_blocks f3 = super_blocks f1"
    "proc_table (hks (drv f3)) = proc_table (hks d)"
    using fs_frame_sel [OF f3(3)] ok1(2) by (simp_all add: f2_def) (simp add: set_fmem_def)
  have super: "fs_sect f3 1 = super_sect sb" by (simp add: f3(4) image_def)
  have "sb_dev (super_blocks f3 i) = NO_DEV" if "i < NR_SUPER_BLOCK" for i using that by (simp add: tabs(3) f1_def)
  from read_super_block_ok [OF f3(2) super this, unfolded tabs(3)] obtain f4 where f4:
    "read_super_block ROOT_DEV f3 = Inr (f4\<lparr>super_blocks := (super_blocks f1)(0 := sb\<lparr>sb_dev := ROOT_DEV\<rparr>)\<rparr>)" "fs_ok f4" "fs_sect f4 = fs_sect f3" "fs_frame f3 f4"
    by blast
  define f5 where "f5 = f4\<lparr>super_blocks := (super_blocks f1)(0 := sb\<lparr>sb_dev := ROOT_DEV\<rparr>)\<rparr>"
  have v5: "fs_ok f5" "fs_sect f5 = fs_sect f3" "sb0 f5 = sb\<lparr>sb_dev := ROOT_DEV\<rparr>"
    using f4(2, 3) drv_views [of f5 f4] by (simp_all add: f5_def sb0_def)
  have m5: "mounted f5" using v5(1) lay by (simp add: mounted_def v5(3))
  have tab5: "f_desc_table f5 = f_desc_table f1" "inode_table f5 = inode_table f1" "proc_table (hks (drv f5)) = proc_table (hks d)"
    using fs_frame_sel [OF f4(4)] tabs by (simp_all add: f5_def)
  have fresh5: "fresh sb f5"
    unfolding sb_def by (rule image_fresh) (use v5 f3(4) in \<open>simp_all add: sb_def\<close>)
  have none: "find_inode ROOT_DEV (int 1) f5 = None" "first_index (\<lambda>p. i_cnt (inode_table f5 p) = 0) NR_INODE = Some 0"
    by (simp_all add: find_inode_def first_index_None first_index_Some tab5(2) f1_def zero_inode_def)
  obtain f6 where f6: "get_inode ROOT_DEV (int 1) f5 = Inr (Some 0, f6)" "mounted f6" "fs_sect f6 = fs_sect f5" "fs_frame (upd_inode 0 (\<lambda>_. disk_inode f5 1) f5) f6"
    using get_inode_loads [OF m5 _ _ none] by auto
  have root: "disk_inode f5 1 = new_root sb" using fresh5 by (simp add: fresh_def)
  note sel6 = fs_frame_sel [OF f6(4), simplified]
  let ?g = "f6\<lparr>root_inode := 0\<rparr>"
  have "get_super_block ROOT_DEV f5 = Inr (sb0 f5)" "magic sb = 0x111"
    by (simp_all add: get_super_block_root v5(3)) (simp add: sb_def new_super_block_def Let_def)
  then have run: "init_fs geo f = Inr ?g"
    using assms(1) f3(1) f4(1) f6(1) v5(3) by (simp add: init_fs_def driver_call_root hd_call_def root_dev f5_def f1_def Let_def)
  have tab: "inode_table f6 = (inode_table f1)(0 := new_root sb)" "f_desc_table f6 = f_desc_table f1" "proc_table (hks (drv f6)) = proc_table (hks d)"
    using sel6 tab5 root by simp_all
  have sbg: "sb0 ?g = sb\<lparr>sb_dev := ROOT_DEV\<rparr>" using sb0_frame [OF f6(4)] v5(3) by (simp add: sb0_def)
  have fsg: "fs_sect ?g = fs_sect f5" "fs_ok ?g" using drv_views [of ?g f6] f6(2, 3) by (simp_all add: mounted_def)
  have "mounted ?g" using fsg(2) lay by (simp add: mounted_def sbg)
  moreover have "root_ok ?g" using lay(3, 4) by (simp add: root_ok_def root_dir_def tab(1)) (simp add: new_root_def)
  moreover have "cache_ok ?g" by (simp add: cache_ok_def tab(1)) (simp add: f1_def zero_inode_def new_root_def)
  moreover have "fresh sb ?g"
    using fresh5 by (simp add: fresh_def map_bit_def dir_slot_def disk_inode_def inode_sect_def fsg(1) sbg v5(3))
  moreover have "refs_ok ?g all_slots" if "\<forall>s. filp (proc_table (hks d) (fst s)) (snd s) = None"
  proof -
    have "slot_fd ?g s = None" for s using that by (simp add: slot_fd_def tab(3))
    moreover have "load ?g k = 0" for k by (simp add: load_def refs_of_def tab(2)) (simp add: f1_def zero_fd_def)
    ultimately show ?thesis by (simp add: refs_ok_def tab(1, 2)) (simp add: f1_def zero_fd_def zero_inode_def new_root_def)
  qed
  moreover have "root_dir ?g = new_root (sb0 ?g)" by (simp add: root_dir_def tab(1) sbg) (simp add: new_root_def)
  ultimately show ?thesis using run by (intro exI [of _ ?g]) (simp add: sb_def [symmetric] tab(2) f1_def)
qed

section \<open>A session\<close>

lemma task_fs_request:
  assumes "sint (source m) = int c" "c < nr_slots" "serve (request m c f) = Inr (dest, g)" "msg_type (fs_msg g) \<noteq> SUSPEND_PROC"
  shows "task_fs_msg m f = Inr (Some (dest, (fs_msg g)\<lparr>msg_type := SYSCALL_RET\<rparr>), g\<lparr>fs_msg := (fs_msg g)\<lparr>msg_type := SYSCALL_RET\<rparr>\<rparr>)"
  using assms by (simp add: task_fs_msg_def request_def Let_def)

lemma refs_ok_msg: "refs_ok (f\<lparr>fs_msg := m\<rparr>) S = refs_ok f S" "refs_ok (request m c f) S = refs_ok f S"
  "slot_fd (f\<lparr>fs_msg := m\<rparr>) = slot_fd f" "slot_fd (request m c f) = slot_fd f"
  by (simp_all add: refs_ok_def slot_fd_def load_def fun_eq_iff)

lemma path_at_request: "path_at (request m c f) path nr = path_at f path nr"
  unfolding path_at_def lookup_name_def dir_slot_def root_dir_def request_sel request_views by (rule refl)

text \<open>
  A process opens a file and closes it again, through the loop of \<^verbatim>\<open>task_fs\<close>. When the file exists and the tables have room, the answer to
  \<^verbatim>\<open>OPEN\<close> goes to the caller as a \<^verbatim>\<open>SYSCALL_RET\<close> with the first empty slot as its descriptor; the answer to a \<^verbatim>\<open>CLOSE\<close> with
  that descriptor goes to the caller with the value 0, and then every slot of every process is as it was at the start and the counters
  are right.
\<close>

theorem open_close_session:
  assumes "sint (source m) = int c" "c < nr_slots" "msg_type m = OPEN" "refs_ok f all_slots" "mounted f" "root_ok f" "names (request m c f) path"
    "free_fd (request m c f) fd d" "path_at f path (of_nat num)" "1 \<le> num" "num \<le> 4096" "FLAGS m AND O_CREAT = 0" "FLAGS m AND O_RDWR \<noteq> 0"
    "find_inode ROOT_DEV (int num) f \<noteq> None \<or> (\<exists>p<NR_INODE. i_cnt (inode_table f p) = 0)" "i_mode (cached_inode f num) = I_REGULAR"
    "source m' = source m" "msg_type m' = CLOSE" "FD m' = FD r"
    "r = m\<lparr>m3i1 := of_nat fd, msg_type := SYSCALL_RET\<rparr>"
  shows "\<exists>g h r'. task_fs_msg m f = Inr (Some (int c, r), g) \<and> slot_fd g (c, fd) = Some d \<and> refs_ok g all_slots \<and>
    task_fs_msg m' g = Inr (Some (int c, r'), h) \<and> msg_type r' = SYSCALL_RET \<and> RETVAL r' = 0 \<and> slot_fd h = slot_fd f \<and> refs_ok h all_slots"
proof -
  let ?f = "request m c f"
  have views: "root_ok ?f" "path_at ?f path (of_nat num)" "find_inode ROOT_DEV (int num) ?f = find_inode ROOT_DEV (int num) f"
    "cached_inode ?f num = cached_inode f num"
    using assms(6, 9) by (simp_all add: root_ok_def root_dir_def path_at_def lookup_name_def dir_slot_def find_inode_def cached_inode_def
        disk_inode_def inode_sect_def cong: if_cong option.case_cong)
  obtain p g where g: "do_open ?f = Inr (int fd, g)" "opened ?f fd d p g" "fs_msg g = m"
    using do_open_found [of ?f path fd d num] assms views by (auto simp: refs_ok_msg)
  have fd: "fd < 64" "slot_fd f (c, fd) = None" using assms(8) by (simp_all add: free_fd_def first_index_Some refs_ok_msg)
  have slots: "slot_fd g s = (if s = (c, fd) then Some d else slot_fd f s)" "refs_ok g all_slots" for s
    using g(2) unfolding opened_def refs_ok_msg request_sel by blast+
  let ?g = "g\<lparr>fs_msg := r\<rparr>"
  have "serve ?f = Inr (int c, g\<lparr>fs_msg := m\<lparr>m3i1 := of_nat fd\<rparr>\<rparr>)" using g(1, 3) assms(1, 3) by (simp add: serve_def Let_def)
  from task_fs_request [OF assms(1, 2) this] have first: "task_fs_msg m f = Inr (Some (int c, r), ?g)" using assms(3, 19) by simp
  have "FD m' = of_nat fd" using assms(18, 19) by simp
  then obtain h where h: "do_close (request m' c ?g) = Inr (0, h)" "refs_ok h all_slots" "\<And>s. slot_fd h s = (if s = (c, fd) then None else slot_fd g s)" "fs_msg h = m'"
    using do_close_ok [of "request m' c ?g" fd d] assms(2) fd(1) slots(1) [of "(c, fd)"] slots(2) by (auto simp: refs_ok_msg)
  have "serve (request m' c ?g) = Inr (int c, h\<lparr>fs_msg := m'\<lparr>m3i1 := 0\<rparr>\<rparr>)"
    using h(1, 4) assms(1, 16, 17) by (simp add: serve_def Let_def)
  from task_fs_request [OF _ assms(2) this] have "task_fs_msg m' ?g = Inr (Some (int c, m'\<lparr>m3i1 := 0, msg_type := SYSCALL_RET\<rparr>), h\<lparr>fs_msg := m'\<lparr>m3i1 := 0, msg_type := SYSCALL_RET\<rparr>\<rparr>)"
    using assms(1, 16, 17) by simp
  moreover have "slot_fd h = slot_fd f" using h(3) slots(1) fd(2) by (auto simp: fun_eq_iff)
  ultimately show ?thesis
    using first slots h(2) by (intro exI [of _ ?g] exI [of _ "h\<lparr>fs_msg := m'\<lparr>m3i1 := 0, msg_type := SYSCALL_RET\<rparr>\<rparr>"] exI) (auto simp: refs_ok_msg)
qed

section \<open>Witnesses\<close>

lemma demo_hd_opens:
  "\<exists>d. task_hd_msg (reset_msg\<lparr>msg_type := DEV_OPEN, m3i4 := 0x20, source := TASK_FS\<rparr>) (demo_hd h) = Inr d \<and> logical (hdi d) = logical (hdi (demo_hd h)) \<and>
    sectors (disk d) = sectors demo_ata \<and> responds (disk d) \<and> hks d = flat_kstate h"
  by (simp add: task_hd_msg_def hd_open_def DRV_OF_DEV_def hd_identify_def hd_cmd_out_def demo_hd_def demo_ata_def signed_divide_int_def Let_def)

theorem init_fs_ready_witness:
  "\<exists>g. init_fs 0x5000 ((demo_fs (\<lambda>_. 7))\<lparr>drv := demo_hd (\<lambda>_. 7)\<rparr>) = Inr g \<and> mounted g \<and> refs_ok g all_slots"
proof -
  let ?f = "(demo_fs (\<lambda>_. 7))\<lparr>drv := demo_hd (\<lambda>_. 7)\<rparr>"
  obtain d where d: "task_hd_msg (reset_msg\<lparr>msg_type := DEV_OPEN, m3i4 := 0x20, source := TASK_FS\<rparr>) (demo_hd (\<lambda>_. 7)) = Inr d"
    "logical (hdi d) = logical (hdi (demo_hd (\<lambda>_. 7)))" "sectors (disk d) = sectors demo_ata" "responds (disk d)" "hks d = flat_kstate (\<lambda>_. 7)"
    using demo_hd_opens by blast
  have "fs_ok (?f\<lparr>drv := d\<rparr>)"
    using demo_disk_ok [of "\<lambda>_. 7"] d
    by (simp add: fs_ok_def fs_base_def disk_ok_def demo_hd_def flat_kstate_def ldt_seg_linear_def zero_proc_def zero_descriptor_def desc_base_def)
  moreover have "filp (proc_table (hks d) p) i = None" for p i by (simp add: d(5) flat_kstate_def zero_proc_def)
  ultimately show ?thesis using init_fs_ready [of ?f d "0x5000"] d(1) by auto
qed

theorem open_close_session_witness:
  "\<exists>g h r r'. task_fs_msg (reset_msg\<lparr>source := 6, msg_type := OPEN, m3i1 := O_RDWR, m3i2 := 3, m3p1 := 0x5000\<rparr>) (demo_held [6] (demo_path 0x62)) = Inr (Some (6, r), g) \<and>
    FD r = 1 \<and> task_fs_msg (reset_msg\<lparr>source := 6, msg_type := CLOSE, m3i1 := 1\<rparr>) g = Inr (Some (6, r'), h) \<and> RETVAL r' = 0"
proof -
  let ?m = "reset_msg\<lparr>source := 6, msg_type := OPEN, m3i1 := O_RDWR, m3i2 := 3, m3p1 := 0x5000\<rparr>" and ?f = "demo_held [6] (demo_path 0x62)"
  let ?c = "reset_msg\<lparr>source := 6, msg_type := CLOSE, m3i1 := 1\<rparr>" and ?r = "?m\<lparr>m3i1 := 1, msg_type := SYSCALL_RET\<rparr>"
  have req: "demo_open_request O_RDWR 0x62 = request (reset_msg\<lparr>source := 6, m3i1 := O_RDWR, m3i2 := 3, m3p1 := 0x5000\<rparr>) 6 ?f"
    by (simp add: demo_open_request_def)
  note ok = demo_open_request_ok [of O_RDWR "0x62", unfolded req]
  have "mounted ?f" "root_ok ?f" "refs_ok ?f all_slots" using ok(1 - 3) by (simp_all add: root_ok_def root_dir_def refs_ok_msg)
  moreover have "names (request ?m 6 ?f) [0x2F, 0x61, 0x62]"
    using demo_open_request_names [of "0x62" O_RDWR] by (simp add: req names_def flat_source_def)
  moreover have "free_fd (request ?m 6 ?f) 1 1" using ok(4) by (simp add: free_fd_def refs_ok_msg)
  moreover have "path_at ?f [0x2F, 0x61, 0x62] 2"
    using demo_open_request_path(1) [of O_RDWR] unfolding req path_at_request .
  moreover have find: "find_inode ROOT_DEV 2 ?f = Some 1"
    by (auto simp: find_inode_def first_index_Some demo_held_sel demo_table demo_root_def demo_file_def)
  moreover from find have "i_mode (cached_inode ?f 2) = I_REGULAR" by (simp add: cached_inode_def demo_held_sel demo_table demo_file_def)
  ultimately show ?thesis
    using open_close_session [of ?m 6 ?f "[0x2F, 0x61, 0x62]" 1 1 2 ?c ?r] by (fastforce simp: reset_msg_def)
qed

end
