(* ===== verification/Vsprintf.thy ===== *)
theory Vsprintf
  imports Clib "HOL-Library.Signed_Division"
begin

text \<open>
  Formatted output, \<^verbatim>\<open>lib/vsprintf.c\<close>. The arguments are the 32-bit words that follow the
  format on the stack; a \<^verbatim>\<open>%s\<close> argument is the address of a terminated string in memory. The
  buffer \<^verbatim>\<open>buf\<close> is the list of bytes written so far, without the terminator. Reading past the
  end of the format, taking more arguments than were passed and overrunning \<^verbatim>\<open>inner_buf\<close> are
  \<^const>\<open>OutOfBounds\<close> faults.
\<close>

section \<open>Definitions\<close>

abbreviation (input) STR_DEFAULT_LEN :: nat where "STR_DEFAULT_LEN \<equiv> 1024"

text \<open>\<^verbatim>\<open>%\<close> and \<^verbatim>\<open>/\<close> on \<^verbatim>\<open>int\<close> truncate towards zero.\<close>

partial_function (option) i2a :: "int \<Rightarrow> int \<Rightarrow> u8 list option" where
  "i2a val base =
     (let m = val smod base; q = val sdiv base;
          ch = (word_of_int (if m < 10 then m + 0x30 else m - 10 + 0x41) :: u8)
      in if q \<noteq> 0 then Option.bind (i2a q base) (\<lambda>s. Some (s @ [ch])) else Some [ch])"

fun scan_align :: "u8 list \<Rightarrow> u32 \<Rightarrow> u32 \<times> u8 list" where
  "scan_align [] align_nr = (align_nr, [])"
| "scan_align (c # fmt) align_nr =
     (if c \<ge> 0x30 \<and> c \<le> 0x39 then scan_align fmt (align_nr * 10 + (ucast c - 0x30)) else (align_nr, c # fmt))"

text \<open>The \<^verbatim>\<open>switch\<close>: the contents of \<^verbatim>\<open>inner_buf\<close> up to its first zero and the arguments left.\<close>

definition convert :: "memory \<Rightarrow> u8 \<Rightarrow> u32 list \<Rightarrow> (u8 list \<times> u32 list) result" where
  "convert h conv args =
     (if conv \<notin> {0x63, 0x78, 0x64, 0x73} then Inr ([], args)
      else case args of [] \<Rightarrow> Inl (OutOfBounds 72)
      | m # args \<Rightarrow>
          if conv = 0x63 then Inr (takeWhile (\<lambda>c. c \<noteq> 0) [ucast m], args)
          else if conv = 0x78 then bindE (returns 77 (i2a (sint m) 16)) (\<lambda>q. Inr (q, args))
          else if conv = 0x64 then
            (if sint m < 0 then bindE (returns 86 (i2a (sint (m * (-1))) 10)) (\<lambda>q. Inr (0x2D # q, args))
             else bindE (returns 86 (i2a (sint m) 10)) (\<lambda>q. Inr (q, args)))
          else bindE (returns 90 (strlen h m 0)) (\<lambda>n.
             if STR_DEFAULT_LEN \<le> n then Inl (OutOfBounds 90) else Inr (load_bytes h m n, args)))"

definition pad :: "u8 \<Rightarrow> u32 \<Rightarrow> u8 list \<Rightarrow> u8 list" where
  "pad cs align_nr inner_buf = replicate (nat (sint align_nr - int (length inner_buf))) cs"

lemma scan_align_length: "scan_align fmt a = (a', fmt') \<Longrightarrow> length fmt' \<le> length fmt"
  by (induction fmt a rule: scan_align.induct) (auto split: if_splits)

function vsprintf_loop :: "memory \<Rightarrow> u32 list \<Rightarrow> u8 list \<Rightarrow> u8 list \<Rightarrow> u8 list result" where
  "vsprintf_loop h args [] p = Inr p"
| "vsprintf_loop h args (c # fmt) p =
     (if c \<noteq> 0x25 then vsprintf_loop h args fmt (p @ [c])
      else case fmt of [] \<Rightarrow> Inl (OutOfBounds 39)
      | c' # fmt' \<Rightarrow>
          if c' = 0x25 then vsprintf_loop h args fmt' (p @ [c'])
          else let cs = (if c' = 0x30 then 0x30 else 0x20)
            in case scan_align (if c' = 0x30 then fmt' else fmt) 0 of
                 (align_nr, []) \<Rightarrow> Inl (OutOfBounds 39)
               | (align_nr, conv # fmt') \<Rightarrow>
                   (case convert h conv args of Inl e \<Rightarrow> Inl e
                    | Inr (inner_buf, args) \<Rightarrow>
                        vsprintf_loop h args fmt' (p @ pad cs align_nr inner_buf @ inner_buf)))"
  by pat_completeness auto
termination
  by (relation "measure (\<lambda>(h, args, fmt, p). length fmt)")
    (auto dest!: scan_align_length [OF sym] split: if_splits)

definition vsprintf :: "memory \<Rightarrow> u8 list \<Rightarrow> u32 list \<Rightarrow> (u8 list \<times> nat) result" where
  "vsprintf h fmt args = bindE (vsprintf_loop h args fmt []) (\<lambda>p. Inr (p, length p))"

definition sprintf :: "memory \<Rightarrow> u8 list \<Rightarrow> u32 list \<Rightarrow> (u8 list \<times> nat) result" where
  "sprintf h fmt args = vsprintf h fmt args"

section \<open>Digits\<close>

fun digits :: "nat \<Rightarrow> nat \<Rightarrow> u8 list" where
  "digits base n =
     (let m = n mod base; ch = of_nat (if m < 10 then m + 0x30 else m - 10 + 0x41)
      in if base \<le> 1 \<or> n < base then [ch] else digits base (n div base) @ [ch])"

declare digits.simps [simp del]

lemma i2a_nonneg:
  assumes "2 \<le> base"
  shows "i2a (int n) (int base) = Some (digits base n)"
proof (induction n rule: less_induct)
  case (less n)
  have m: "int n smod int base = int (n mod base)" and q: "int n sdiv int base = int (n div base)"
    using assms by (cases "n = 0"; simp add: signed_modulo_int_def signed_divide_int_def zmod_int zdiv_int)+
  have ch: "(word_of_int (if int (n mod base) < 10 then int (n mod base) + 0x30 else int (n mod base) - 10 + 0x41) :: u8)
      = of_nat (if n mod base < 10 then n mod base + 0x30 else n mod base - 10 + 0x41)"
    by (simp add: of_nat_diff)
  show ?case
  proof (cases "n < base")
    case True
    then show ?thesis
      using ch by (subst i2a.simps) (simp add: m q digits.simps Let_def)
  next
    case False
    then have "n div base < n" "n div base \<noteq> 0"
      using assms by (auto simp: div_eq_0_iff)
    with False less.IH [of "n div base"] assms show ?thesis
      using ch by (subst i2a.simps) (simp add: m q digits.simps [of base n] Let_def)
  qed
qed

definition dec_value :: "u8 list \<Rightarrow> nat" where
  "dec_value cs = foldl (\<lambda>v c. 10 * v + (unat c - 0x30)) 0 cs"

lemma dec_value_snoc: "dec_value (cs @ [c]) = 10 * dec_value cs + (unat c - 0x30)"
  by (simp add: dec_value_def)

lemma digits_dec: "dec_value (digits 10 n) = n \<and> list_all (\<lambda>c. 0x30 \<le> c \<and> c \<le> 0x39) (digits 10 n)"
proof (induction n rule: less_induct)
  case (less n)
  have "n mod 10 < 10" by simp
  define d :: u8 where "d = of_nat (n mod 10 + 0x30)"
  have "unat d = n mod 10 + 0x30"
    using \<open>n mod 10 < 10\<close> by (simp add: d_def unat_of_nat del: of_nat_add)
  then have d: "unat d - 0x30 = n mod 10" "0x30 \<le> d" "d \<le> 0x39"
    by (simp_all add: word_le_nat_alt)
  show ?case
  proof (cases "n < 10")
    case True
    with d show ?thesis
      by (simp add: digits.simps dec_value_def d_def)
  next
    case False
    with less.IH [of "n div 10"] d show ?thesis
      by (simp add: digits.simps [of 10 n] dec_value_snoc d_def Let_def)
  qed
qed

lemma digits_hex: "hex_value (digits 16 n) = n \<and> list_all is_hex (digits 16 n)"
proof (induction n rule: less_induct)
  case (less n)
  define d :: u8 where "d = of_nat (if n mod 16 < 10 then n mod 16 + 0x30 else n mod 16 - 10 + 0x41)"
  have "of_nat (n mod 16) < (16 :: u8)" "unat (of_nat (n mod 16) :: u8) = n mod 16"
    by (simp_all add: word_less_nat_alt unat_of_nat)
  moreover have "d = nibble_char (of_nat (n mod 16))"
    by (auto simp: d_def nibble_char_def word_less_nat_alt unat_of_nat unat_word_ariths)
  ultimately have d: "hex_digit d = n mod 16" "is_hex d"
    using nibble_char_correct by metis+
  have step: "digits 16 n = (if n < 16 then [d] else digits 16 (n div 16) @ [d])"
    unfolding d_def by (subst digits.simps) (simp add: Let_def)
  from d less.IH [of "n div 16"] show ?case
    by (cases "n < 16") (simp_all add: step hex_value_snoc, simp add: hex_value_def)
qed

text \<open>On a negative value the remainders are negative, so every digit comes out at or below
  the character \<^verbatim>\<open>0\<close>.\<close>

fun neg_digits :: "nat \<Rightarrow> nat \<Rightarrow> u8 list" where
  "neg_digits base n =
     (let ch = word_of_int (0x30 - int (n mod base))
      in if base \<le> 1 \<or> n < base then [ch] else neg_digits base (n div base) @ [ch])"

declare neg_digits.simps [simp del]

lemma i2a_neg:
  assumes "2 \<le> base"
  shows "i2a (- int n) (int base) = Some (neg_digits base n)"
proof (induction n rule: less_induct)
  case (less n)
  have m: "int n smod int base = int (n mod base)" and q: "int n sdiv int base = int (n div base)"
    using assms by (cases "n = 0"; simp add: signed_modulo_int_def signed_divide_int_def zmod_int zdiv_int)+
  show ?case
  proof (cases "n < base")
    case True
    then show ?thesis
      by (subst i2a.simps) (simp add: m q neg_digits.simps Let_def)
  next
    case False
    then have "n div base < n" "n div base \<noteq> 0"
      using assms by (auto simp: div_eq_0_iff)
    with False less.IH [of "n div base"] assms show ?thesis
      by (subst i2a.simps) (simp add: m q neg_digits.simps [of base n] Let_def)
  qed
qed

lemma neg_digits_range:
  assumes "2 \<le> base" "base \<le> 16"
  shows "list_all (\<lambda>c. 0x21 \<le> c \<and> c \<le> 0x30) (neg_digits base n)"
proof (induction n rule: less_induct)
  case (less n)
  define d :: u8 where "d = word_of_int (0x30 - int (n mod base))"
  have "n mod base < 16"
    using assms mod_less_divisor [of base n] by linarith
  then have "uint d = 0x30 - int (n mod base)"
    unfolding d_def uint_word_of_int by (intro mod_pos_pos_trivial) simp_all
  then have d: "0x21 \<le> d" "d \<le> 0x30"
    using \<open>n mod base < 16\<close> by (simp_all add: word_le_def)
  have step: "neg_digits base n = (if n < base then [d] else neg_digits base (n div base) @ [d])"
    unfolding d_def using assms by (subst neg_digits.simps) (simp add: Let_def)
  from d less.IH [of "n div base"] assms show ?case
    by (cases "n < base") (simp_all add: step)
qed

lemma digits_range:
  assumes "2 \<le> base" "base \<le> 16"
  shows "0 \<notin> set (digits base n)"
proof (induction n rule: less_induct)
  case (less n)
  define d :: u8 where "d = of_nat (if n mod base < 10 then n mod base + 0x30 else n mod base - 10 + 0x41)"
  have "n mod base < 16"
    using assms mod_less_divisor [of base n] by linarith
  then have "unat d = (if n mod base < 10 then n mod base + 0x30 else n mod base - 10 + 0x41)"
    unfolding d_def by (simp only: unat_of_nat) simp
  then have d: "d \<noteq> 0"
    by (auto split: if_splits)
  have step: "digits base n = (if n < base then [d] else digits base (n div base) @ [d])"
    unfolding d_def using assms by (subst digits.simps) (simp add: Let_def)
  from d less.IH [of "n div base"] assms show ?case
    by (cases "n < base") (simp_all add: step)
qed

lemma i2a_total:
  assumes "2 \<le> base" "base \<le> 16"
  obtains r where "i2a val base = Some r" "0 \<notin> set r"
proof (cases "0 \<le> val")
  case True
  then show thesis
    using that i2a_nonneg [of "nat base" "nat val"] digits_range [of "nat base" "nat val"] assms by auto
next
  case False
  have "0 \<notin> set (neg_digits (nat base) (nat (- val)))"
    using neg_digits_range [of "nat base" "nat (- val)"] assms by (force simp: list_all_iff nat_le_iff)
  then show thesis
    using False that i2a_neg [of "nat base" "nat (- val)"] assms by auto
qed

section \<open>What the formatter writes\<close>

lemma vsprintf_loop_text:
  "0x25 \<notin> set t \<Longrightarrow> vsprintf_loop h args (t @ fmt) p = vsprintf_loop h args fmt (p @ t)"
  by (induction t arbitrary: p) auto

lemma vsprintf_one:
  assumes "0x25 \<notin> set pre" "0x25 \<notin> set post" "conv \<in> {0x63, 0x78, 0x64, 0x73}"
    and "convert h conv args = Inr (inner_buf, args')"
  shows "vsprintf h (pre @ [0x25, conv] @ post) args
    = Inr (pre @ inner_buf @ post, length (pre @ inner_buf @ post))"
proof -
  have "scan_align (conv # post) 0 = (0, conv # post)" "conv \<noteq> 0x25" "conv \<noteq> 0x30"
    using assms(3) by auto
  moreover have "pad 0x20 0 inner_buf = []"
    by (simp add: pad_def)
  moreover have "vsprintf_loop h args' post p = Inr (p @ post)" for p
    using vsprintf_loop_text [OF assms(2), of h args' "[]" p] by simp
  ultimately have "vsprintf_loop h args (pre @ 0x25 # conv # post) [] = Inr (pre @ inner_buf @ post)"
    using assms vsprintf_loop_text [of pre h args "0x25 # conv # post" "[]"] by simp
  then show ?thesis
    by (simp add: vsprintf_def)
qed

lemma convert_decimal:
  assumes "sint m \<noteq> - (2 ^ 31)"
  shows "convert h 0x64 (m # args)
    = Inr ((if sint m < 0 then [0x2D] else []) @ digits 10 (nat \<bar>sint m\<bar>), args)"
proof (cases "sint m < 0")
  case True
  have "- (2 ^ 31) \<le> sint m"
    using sint_ge [of m] by simp
  with assms have "- (2 ^ 31) < sint m" by simp
  with True have "sint (- m) = - sint m"
    by (simp add: sint_word_minus signed_take_bit_int_eq_self)
  with True i2a_nonneg [of 10 "nat (- sint m)"] show ?thesis
    by (simp add: convert_def)
next
  case False
  with i2a_nonneg [of 10 "nat (sint m)"] show ?thesis
    by (simp add: convert_def)
qed

text \<open>
  Decimal output can be read back: for every 32-bit argument except \<^verbatim>\<open>INT_MIN\<close>, a \<^verbatim>\<open>%d\<close>
  between literal texts is replaced by the argument's decimal digits, with a minus sign when it
  is negative, and the call returns the length of what it wrote.
\<close>

theorem vsprintf_decimal:
  assumes "sint m \<noteq> - (2 ^ 31)" "0x25 \<notin> set pre" "0x25 \<notin> set post"
  shows "\<exists>ds. vsprintf h (pre @ [0x25, 0x64] @ post) [m] =
      (let text = pre @ (if sint m < 0 then [0x2D] else []) @ ds @ post in Inr (text, length text))
    \<and> int (dec_value ds) = \<bar>sint m\<bar> \<and> list_all (\<lambda>c. 0x30 \<le> c \<and> c \<le> 0x39) ds"
  using vsprintf_one [OF assms(2, 3) _ convert_decimal [OF assms(1)], of h "[]"]
    digits_dec [of "nat \<bar>sint m\<bar>"]
  by (intro exI [of _ "digits 10 (nat \<bar>sint m\<bar>)"]) (simp add: Let_def)

theorem vsprintf_decimal_witness:
  "\<exists>ds. vsprintf (\<lambda>_. 0) ([0x6E, 0x3D] @ [0x25, 0x64] @ [0x0A]) [- 42]
      = (let text = [0x6E, 0x3D] @ [0x2D] @ ds @ [0x0A] in Inr (text, length text)) \<and> dec_value ds = 42"
proof -
  have m: "sint (- 42 :: u32) = - 42" by (simp add: sint_word_minus signed_take_bit_int_eq_self)
  show ?thesis
    using vsprintf_decimal [of "- 42" "[0x6E, 0x3D]" "[0x0A]" "\<lambda>_. 0"] unfolding m by auto
qed

text \<open>
  \<^verbatim>\<open>%x\<close> prints a non-negative argument in hexadecimal so that it can be read back, but an
  argument with its top bit set is divided as a negative number: what is printed then consists
  of characters between \<^verbatim>\<open>!\<close> and \<^verbatim>\<open>0\<close>, never a hexadecimal digit other than \<^verbatim>\<open>0\<close>.
\<close>

theorem vsprintf_hex:
  assumes "0x25 \<notin> set pre" "0x25 \<notin> set post"
  shows "\<exists>ds. vsprintf h (pre @ [0x25, 0x78] @ post) [m] = Inr (pre @ ds @ post, length (pre @ ds @ post))
    \<and> (0 \<le> sint m \<longrightarrow> hex_value ds = unat m \<and> list_all is_hex ds)
    \<and> (sint m < 0 \<longrightarrow> list_all (\<lambda>c. 0x21 \<le> c \<and> c \<le> 0x30) ds)"
proof (cases "0 \<le> sint m")
  case True
  then have "sint m = int (unat m)"
    using uint_sint [of m] sint_lt [of m] by (simp add: take_bit_int_eq_self)
  then have "convert h 0x78 [m] = Inr (digits 16 (unat m), [])"
    using i2a_nonneg [of 16 "unat m"] by (simp add: convert_def)
  from vsprintf_one [OF assms _ this] True show ?thesis
    by (intro exI [of _ "digits 16 (unat m)"]) (simp add: digits_hex)
next
  case False
  then have "convert h 0x78 [m] = Inr (neg_digits 16 (nat (- sint m)), [])"
    using i2a_neg [of 16 "nat (- sint m)"] by (simp add: convert_def)
  from vsprintf_one [OF assms _ this] False show ?thesis
    by (intro exI [of _ "neg_digits 16 (nat (- sint m))"]) (simp add: neg_digits_range)
qed

theorem vsprintf_hex_witness:
  "\<exists>ds. vsprintf (\<lambda>_. 0) ([] @ [0x25, 0x78] @ []) [0xFFFFFFFF] = Inr ([] @ ds @ [], length ([] @ ds @ []))
    \<and> list_all (\<lambda>c. 0x21 \<le> c \<and> c \<le> 0x30) ds"
proof -
  have m: "sint (0xFFFFFFFF :: u32) = - 1" by simp
  show ?thesis
    using vsprintf_hex [of "[]" "[]" "\<lambda>_. 0" "0xFFFFFFFF"] unfolding m by auto
qed

lemma scan_align_set: "scan_align fmt a = (a', fmt') \<Longrightarrow> set fmt' \<subseteq> set fmt"
  by (induction fmt a rule: scan_align.induct) (auto split: if_splits)

lemma load_bytes_nonzero: "strlen h a 0 = Some n \<Longrightarrow> 0 \<notin> set (load_bytes h a n)"
  by (auto simp: load_bytes_def dest: strlen_nonzero)

lemma convert_nonzero: "convert h conv args = Inr (inner_buf, args') \<Longrightarrow> 0 \<notin> set inner_buf"
proof -
  assume conv: "convert h conv args = Inr (inner_buf, args')"
  have num: "0 \<notin> set r" if "i2a v b = Some r" "b = 10 \<or> b = 16" for v b r
    using that i2a_total [of b v] by auto
  show ?thesis
    using conv
    by (cases args) (auto simp: convert_def bindE_eq_Inr load_bytes_nonzero dest: num split: if_splits)
qed

lemma vsprintf_loop_nonzero:
  "vsprintf_loop h args fmt p = Inr r \<Longrightarrow> 0 \<notin> set fmt \<Longrightarrow> 0 \<notin> set p \<Longrightarrow> 0 \<notin> set r"
proof (induction h args fmt p rule: vsprintf_loop.induct)
  case (1 h args p)
  then show ?case by simp
next
  case (2 h args c fmt p)
  show ?case
  proof (cases "c = 0x25")
    case False
    with 2 show ?thesis by simp
  next
    case True
    then obtain c' fmt' where fmt: "fmt = c' # fmt'"
      using 2 by (cases fmt) auto
    show ?thesis
    proof (cases "c' = 0x25")
      case True
      with 2 \<open>c = 0x25\<close> fmt show ?thesis by simp
    next
      case False
      define f where "f = (if c' = 0x30 then fmt' else fmt)"
      obtain align_nr rest where scan: "scan_align f 0 = (align_nr, rest)"
        by fastforce
      have "set f \<subseteq> set fmt" by (auto simp: f_def fmt)
      then have "0 \<notin> set rest"
        using scan_align_set [OF scan] 2(5) by auto
      moreover obtain conv fmt'' where rest: "rest = conv # fmt''"
        using 2(4) \<open>c = 0x25\<close> fmt False scan by (cases rest) (auto simp: f_def)
      moreover obtain inner_buf args' where conv: "convert h conv args = Inr (inner_buf, args')"
        using 2(4) \<open>c = 0x25\<close> fmt False scan rest
        by (cases "convert h conv args") (auto simp: f_def)
      moreover have "0 \<notin> set (pad (if c' = 0x30 then 0x30 else 0x20) align_nr inner_buf)"
        by (simp add: pad_def)
      ultimately show ?thesis
        using "2.IH"(3) [OF _ _ _ refl _ _ _ refl, of c' fmt' align_nr rest conv fmt'' inner_buf args'] 2(4-) \<open>c = 0x25\<close> fmt False scan [unfolded f_def] scan [unfolded f_def fmt]
        by (simp add: convert_nonzero)
    qed
  qed
qed

text \<open>
  The text \<^verbatim>\<open>vsprintf\<close> produces contains no zero byte, so the value it returns is the
  string length of the buffer: the assertion \<^verbatim>\<open>strlen(buf) == i\<close> of \<^verbatim>\<open>syslog\<close> cannot fail, and
  \<^verbatim>\<open>printf\<close> hands the whole text to \<^verbatim>\<open>write\<close>.
\<close>

theorem vsprintf_length:
  assumes "vsprintf h fmt args = Inr (text, i)" "0 \<notin> set fmt"
  shows "i = length text \<and> 0 \<notin> set text"
  using assms vsprintf_loop_nonzero [of h args fmt "[]"] by (auto simp: vsprintf_def bindE_eq_Inr)

theorem vsprintf_length_witness:
  "vsprintf (\<lambda>_. 0) [0x6F, 0x6B] [] = Inr ([0x6F, 0x6B], 2) \<and> (2 :: nat) = length [0x6F, 0x6B :: u8]
    \<and> (0 :: u8) \<notin> set [0x6F, 0x6B]"
proof -
  have "vsprintf (\<lambda>_. 0) [0x6F, 0x6B] [] = Inr ([0x6F, 0x6B], 2)"
    by (simp add: vsprintf_def)
  from vsprintf_length [OF this] this show ?thesis by simp
qed

end
