(* ===== verification/Fs_Log.thy ===== *)
theory Fs_Log
  imports Fs_Main Vsprintf
begin

text \<open>
  The log on the disk, \<^verbatim>\<open>fs/disklog.c\<close>: \<^verbatim>\<open>disklog\<close>, which appends a text to the last 2048 sectors of the
  root device, and \<^verbatim>\<open>do_disklog\<close>. The static variable \<^verbatim>\<open>pos\<close>, the end of the log, is an argument and a
  result; it is 0 before the first call. A text is the list of its bytes before the zero byte.
\<close>

section \<open>Definitions\<close>

abbreviation (input) NR_SECTS_FOR_LOG :: "'a::numeral" where "NR_SECTS_FOR_LOG \<equiv> 2048"

text \<open>The first call marks the sectors of the log in the sector map.\<close>

fun log_bytes :: "nat \<Rightarrow> nat list \<Rightarrow> nat \<Rightarrow> u8 list \<Rightarrow> (nat \<times> u8 list) result" where
  "log_bytes bit_off [] bits_left bs = Inr (bits_left, bs)"
| "log_bytes bit_off (j # js) bits_left bs =
     (if bits_left = 0 then Inr (bits_left, bs)
      else bindE (mark_bits 52 (bs ! j) [bit_off..<8] bits_left) (\<lambda>(b, bits_left). log_bytes 0 js bits_left (bs[j := b])))"

fun log_sects :: "int \<Rightarrow> u32 \<Rightarrow> nat \<Rightarrow> nat \<Rightarrow> nat list \<Rightarrow> nat \<Rightarrow> fs \<Rightarrow> (nat \<times> fs) result" where
  "log_sects dev sect_nr byte_off bit_off [] bits_left f = Inr (bits_left, f)"
| "log_sects dev sect_nr byte_off bit_off (i # is) bits_left f =
     bindE (RD_SECT dev (sect_nr + of_nat i) f) (\<lambda>f.
     bindE (log_bytes bit_off [byte_off..<SECTOR_SIZE] bits_left (fs_buf f)) (\<lambda>(bits_left, bs).
     bindE (WR_SECT dev (sect_nr + of_nat i) (put_buf bs f)) (\<lambda>f.
       if bits_left = 0 then Inr (bits_left, f) else log_sects dev sect_nr 0 0 is bits_left f)))"

definition log_reserve :: "int \<Rightarrow> super_block \<Rightarrow> u32 \<Rightarrow> fs \<Rightarrow> fs result" where
  "log_reserve dev sb nr_log_blk0_nr f =
     (if sint nr_log_blk0_nr < 0 then Inl (OutOfBounds 52)
      else let n = nat (sint nr_log_blk0_nr); bits_per_sect = SECTOR_SIZE * 8
           in bindE (log_sects dev (1 + 1 + nr_imap_sects sb + of_nat (n div bits_per_sect)) (n mod bits_per_sect div 8) (n mod bits_per_sect mod 8)
                [0..<NR_SECTS_FOR_LOG div bits_per_sect + 2] NR_SECTS_FOR_LOG f) (\<lambda>(bits_left, f).
              check 69 (bits_left = 0) (Inr f)))"

text \<open>Then it fills them with blanks, 256 sectors at a time.\<close>

fun log_blank :: "int \<Rightarrow> u32 \<Rightarrow> nat list \<Rightarrow> fs \<Rightarrow> fs result" where
  "log_blank dev nr_log_blk0_nr [] f = Inr f"
| "log_blank dev nr_log_blk0_nr (c # cs) f =
     bindE (rw_sector DEV_WRITE dev ((nr_log_blk0_nr + of_nat (256 * c)) * SECTOR_SIZE) (256 * SECTOR_SIZE) TASK_FS fsbuf
        (set_fmem (memset (fmem f) fsbuf 0x20 (256 * SECTOR_SIZE)) f))
       (log_blank dev nr_log_blk0_nr cs)"

text \<open>The text goes to the sectors it falls into, one after the other.\<close>

function log_write :: "int \<Rightarrow> u32 \<Rightarrow> u8 list \<Rightarrow> nat \<Rightarrow> fs \<Rightarrow> (nat \<times> fs) result" where
  "log_write dev sect_nr p pos f =
     (if p = [] then Inr (pos, f)
      else bindE (RD_SECT dev sect_nr f) (\<lambda>f.
        let off = pos mod SECTOR_SIZE; bytes = min (length p) (SECTOR_SIZE - off)
        in bindE (WR_SECT dev sect_nr (set_fmem (store_bytes (fmem f) (fsbuf + of_nat off) (take bytes p)) f)) (\<lambda>f.
             log_write dev (sect_nr + 1) (drop bytes p) (pos + bytes) f)))"
  by pat_completeness auto
termination
  by (relation "measure (\<lambda>(dev, sect_nr, p, pos, f). length p)") auto

declare log_write.simps [simp del]

text \<open>The first sector starts with the end of the log in decimal; a copy of the start of that sector goes to the last one.\<close>

definition log_header :: "int \<Rightarrow> u32 \<Rightarrow> nat \<Rightarrow> fs \<Rightarrow> fs result" where
  "log_header dev nr_log_blk0_nr pos f =
     bindE (RD_SECT dev nr_log_blk0_nr f) (\<lambda>f.
     bindE (sprintf (fmem f) [0x25, 0x38, 0x64, 0x0A] [of_nat pos]) (\<lambda>(txt, n).
       let h = store_bytes (fmem f) fsbuf (txt @ [0]);
           h = memset h (fsbuf + 9) 0x20 22;
           h = h(fsbuf + 31 := 0x0A);
           h = memset h (fsbuf + 32) 0x20 31;
           h = h(fsbuf + 63 := 0x0A)
       in bindE (WR_SECT dev nr_log_blk0_nr (set_fmem h f)) (\<lambda>f.
          let h = memset (fmem f) (fsbuf + 64) (fmem f (fsbuf + 32 + 19)) (512 - 64)
          in WR_SECT dev (nr_log_blk0_nr + NR_SECTS_FOR_LOG - 1) (set_fmem h f))))"

definition disklog :: "u8 list \<Rightarrow> nat \<Rightarrow> fs \<Rightarrow> (nat \<times> fs) result" where
  "disklog logstr pos f =
     (let device = i_dev (inode_table f (root_inode f))
      in bindE (get_super_block device f) (\<lambda>sb.
         let nr_log_blk0_nr = sb_nr_sects sb - NR_SECTS_FOR_LOG
         in bindE (if pos = 0
                   then bindE (log_reserve device sb nr_log_blk0_nr f) (\<lambda>f.
                        bindE (log_blank device nr_log_blk0_nr [0..<NR_SECTS_FOR_LOG div 256] f) (\<lambda>f. Inr (0x40, f)))
                   else Inr (pos, f)) (\<lambda>(pos, f).
            bindE (log_write device (nr_log_blk0_nr + of_nat (pos div SECTOR_SIZE)) logstr pos f) (\<lambda>(pos, f).
            bindE (log_header device nr_log_blk0_nr pos f) (\<lambda>f. Inr (pos, f))))))"

definition do_disklog :: "nat \<Rightarrow> fs \<Rightarrow> (nat \<times> fs) result" where
  "do_disklog pos f =
     (let str_len = sint (CNT (fs_msg f))
      in check 24 (str_len < int STR_DEFAULT_LEN)
         (bindE (va2la_pid 25 (hks (drv f)) (sint (source (fs_msg f))) (BUF (fs_msg f))) (\<lambda>la.
            if str_len < 0 then Inl (OutOfBounds 25)
            else disklog (takeWhile (\<lambda>c. c \<noteq> 0) (load_bytes (fmem f) la (nat str_len))) pos f)))"

section \<open>Appending\<close>

text \<open>The bytes of the log that starts at sector \<open>st\<close>.\<close>

definition log_byte :: "fs \<Rightarrow> nat \<Rightarrow> nat \<Rightarrow> u8" where
  "log_byte f st k = fs_sect f (st + k div SECTOR_SIZE) ! (k mod SECTOR_SIZE)"

lemma splice_log_byte:
  assumes "fs_ok f" "off + length bs \<le> SECTOR_SIZE" "off = pos mod SECTOR_SIZE"
    "fs_sect g = (fs_sect f)(st + pos div SECTOR_SIZE := splice off bs (fs_sect f (st + pos div SECTOR_SIZE)))"
  shows "log_byte g st k = (if pos \<le> k \<and> k < pos + length bs then bs ! (k - pos) else log_byte f st k)"
proof -
  define a b where "a = k div SECTOR_SIZE" and "b = k mod SECTOR_SIZE"
  define q where "q = pos div SECTOR_SIZE"
  have k: "k = SECTOR_SIZE * a + b" "b < SECTOR_SIZE" by (simp_all add: a_def b_def)
  have pos: "pos = SECTOR_SIZE * q + off" by (simp add: q_def assms(3))
  have at: "log_byte g st k = fs_sect g (st + a) ! b" "log_byte f st k = fs_sect f (st + a) ! b" by (simp_all add: log_byte_def a_def b_def)
  show ?thesis
  proof (cases "a = q")
    case True
    then have "log_byte g st k = splice off bs (fs_sect f (st + a)) ! b" unfolding at(1) assms(4) by (simp add: q_def)
    moreover have "pos \<le> k \<longleftrightarrow> off \<le> b" "k < pos + length bs \<longleftrightarrow> b < off + length bs" "k - pos = b - off" using True k(1) pos by auto
    ultimately show ?thesis using nth_splice [of off bs "fs_sect f (st + a)" b] assms(1, 2) k(2) by (simp add: fs_sect_length at(2))
  next
    case False
    then have "\<not> (pos \<le> k \<and> k < pos + length bs)" using k pos assms(2) by (cases "a < q") auto
    moreover have "st + a \<noteq> st + q" using False by simp
    ultimately show ?thesis unfolding at assms(4) by (auto simp: q_def [symmetric])
  qed
qed

lemma log_write_ok:
  assumes "fs_ok f" "st + (pos + length p) div SECTOR_SIZE < sect_limit" "n = st + pos div SECTOR_SIZE"
  shows "\<exists>g. log_write ROOT_DEV (of_nat n) p pos f = Inr (pos + length p, g) \<and> fs_ok g \<and> fs_frame f g \<and>
    (\<forall>k. log_byte g st k = (if pos \<le> k \<and> k < pos + length p then p ! (k - pos) else log_byte f st k)) \<and>
    (\<forall>x. x < st \<or> st + (pos + length p) div SECTOR_SIZE < x \<longrightarrow> fs_sect g x = fs_sect f x)"
  using assms
proof (induction "length p" arbitrary: p pos n f rule: less_induct)
  case less
  show ?case
  proof (cases "p = []")
    case True
    then show ?thesis using less.prems(1) by (auto simp: log_write.simps)
  next
    case False
    define off where "off = pos mod SECTOR_SIZE"
    define bytes where "bytes = min (length p) (SECTOR_SIZE - off)"
    have off: "off < SECTOR_SIZE" by (simp add: off_def)
    have bytes: "0 < bytes" "bytes \<le> length p" "off + bytes \<le> SECTOR_SIZE" "length (take bytes p) = bytes"
      using False off by (auto simp: bytes_def)
    have le: "pos div SECTOR_SIZE \<le> (pos + length p) div SECTOR_SIZE" by (rule div_le_mono) simp
    then have n: "n < sect_limit" using less.prems(2, 3) by simp
    let ?g = "\<lambda>f. set_fmem (store_bytes (fmem f) (fsbuf + of_nat off) (take bytes p)) f"
    obtain h where h: "bindE (RD_SECT ROOT_DEV (of_nat n) f) (\<lambda>f. WR_SECT ROOT_DEV (of_nat n) (?g f)) = Inr h" "fs_ok h"
      "fs_sect h = (fs_sect f)(n := splice off (take bytes p) (fs_sect f n))" "fs_frame f h"
      using root.read_modify_write [OF less.prems(1) n, of "splice off (take bytes p)" ?g] root_edit [of _ off "take bytes p"] bytes(3, 4) by auto
    have step: "log_write ROOT_DEV (of_nat n) p pos f = log_write ROOT_DEV (of_nat n + 1) (drop bytes p) (pos + bytes) h"
      using False h(1) by (subst log_write.simps) (simp add: Let_def bytes_def off_def bindE_assoc [symmetric])
    have hk: "log_byte h st k = (if pos \<le> k \<and> k < pos + bytes then p ! (k - pos) else log_byte f st k)" for k
      using splice_log_byte [OF less.prems(1) _ off_def, of "take bytes p" h st k] h(3) bytes(2 - 4) less.prems(3) by auto
    have hx: "fs_sect h x = fs_sect f x" if "x < st \<or> st + (pos + length p) div SECTOR_SIZE < x" for x
      using that h(3) less.prems(3) le by auto
    obtain g where g: "log_write ROOT_DEV (of_nat n + 1) (drop bytes p) (pos + bytes) h = Inr (pos + length p, g)" "fs_ok g" "fs_frame h g"
      "\<And>k. log_byte g st k = (if pos + bytes \<le> k \<and> k < pos + length p then drop bytes p ! (k - (pos + bytes)) else log_byte h st k)"
      "\<And>x. x < st \<or> st + (pos + length p) div SECTOR_SIZE < x \<Longrightarrow> fs_sect g x = fs_sect h x"
    proof (cases "drop bytes p = []")
      case True
      then have "length p = bytes" using bytes(2) by simp
      then show ?thesis using True h(2) by (intro that [of h]) (auto simp: log_write.simps)
    next
      case False
      then have b: "bytes = SECTOR_SIZE - off" using bytes(2) by (auto simp: bytes_def)
      define q where "q = pos div SECTOR_SIZE"
      have "pos = SECTOR_SIZE * q + off" by (simp add: q_def off_def)
      then have pos: "pos + bytes = SECTOR_SIZE * (q + 1)" using off b by simp
      have n': "n + 1 = st + (pos + bytes) div SECTOR_SIZE" unfolding pos using less.prems(3) by (simp add: q_def)
      have len: "length (drop bytes p) < length p" "pos + bytes + length (drop bytes p) = pos + length p" using bytes(1, 2) by simp_all
      obtain g where "log_write ROOT_DEV (of_nat (n + 1)) (drop bytes p) (pos + bytes) h = Inr (pos + bytes + length (drop bytes p), g)" "fs_ok g" "fs_frame h g"
        "\<forall>k. log_byte g st k = (if pos + bytes \<le> k \<and> k < pos + bytes + length (drop bytes p) then drop bytes p ! (k - (pos + bytes)) else log_byte h st k)"
        "\<forall>x. x < st \<or> st + (pos + length p) div SECTOR_SIZE < x \<longrightarrow> fs_sect g x = fs_sect h x"
        using less.hyps [OF len(1) h(2) _ n'] less.prems(2) unfolding len(2) by blast
      then show ?thesis unfolding len(2) of_nat_Suc Suc_eq_plus1 [symmetric] by (intro that [of g]) (auto simp: add.commute)
    qed
    have "log_byte g st k = (if pos \<le> k \<and> k < pos + length p then p ! (k - pos) else log_byte f st k)" for k
      using g(4) [of k] hk [of k] bytes(2) by (auto simp: nth_drop)
    then show ?thesis using step g(1, 2, 5) hx fs_frame_trans [OF h(4) g(3)] by (intro exI [of _ g]) simp
  qed
qed

section \<open>The header\<close>

lemma memset_store_bytes: "memset h a c n = store_bytes h a (replicate n c)"
  by (induction n arbitrary: h a) simp_all

lemma store_bytes_over: "store_bytes (store_bytes h a (xs @ [b])) (a + of_nat (length xs)) (c # cs) = store_bytes h a (xs @ c # cs)"
  by (simp add: store_bytes_append)

text \<open>The 64 bytes at the start of the log.\<close>

definition log_head :: "nat \<Rightarrow> u8 list" where
  "log_head pos = replicate (8 - length (digits 10 pos)) 0x20 @ digits 10 pos @ [0x0A] @ replicate 22 0x20 @ [0x0A] @ replicate 31 0x20 @ [0x0A]"

lemma digits_length: "0 < n \<Longrightarrow> m < 10 ^ n \<Longrightarrow> length (digits 10 m) \<le> n"
proof (induction n arbitrary: m)
  case (Suc n)
  show ?case
  proof (cases "m < 10")
    case False
    then have "m div 10 < 10 ^ n" "0 < n" using Suc.prems by (auto simp: less_mult_imp_div_less intro: gr0I)
    then show ?thesis using Suc.IH [of "m div 10"] False by (subst digits.simps) (simp add: Let_def)
  qed (subst digits.simps, simp add: Let_def)
qed simp

lemma length_log_head: "pos < 10 ^ 8 \<Longrightarrow> length (log_head pos) = 64"
  using digits_length [of 8 pos] by (simp add: log_head_def)

lemma log_head_text:
  assumes "pos < 10 ^ 8"
  shows "sprintf h [0x25, 0x38, 0x64, 0x0A] [of_nat pos] = Inr (replicate (8 - length (digits 10 pos)) 0x20 @ digits 10 pos @ [0x0A], 9)"
proof -
  have pos: "sint (of_nat pos :: u32) = int pos" using assms by (intro sint_of_nat_small) simp
  have "convert h 0x64 [of_nat pos] = Inr (digits 10 pos, [])"
    using convert_decimal [of "of_nat pos" h "[]"] unfolding pos by simp
  moreover have "nat (8 - int (length (digits 10 pos))) = 8 - length (digits 10 pos)" by simp
  ultimately show ?thesis using digits_length [of 8 pos] assms by (simp add: sprintf_def vsprintf_def pad_def)
qed

lemma log_header_memory:
  assumes "pos < 10 ^ 8" "txt = replicate (8 - length (digits 10 pos)) 0x20 @ digits 10 pos @ [0x0A]"
  shows "(memset ((memset (store_bytes h a (txt @ [0])) (a + 9) 0x20 22)(a + 31 := 0x0A)) (a + 32) 0x20 31)(a + 63 := 0x0A) = store_bytes h a (log_head pos)"
proof -
  have len: "length txt = 9" using digits_length [of 8 pos] assms by simp
  have head: "log_head pos = ((((txt @ 0x20 # replicate 21 0x20) @ [0x0A]) @ replicate 31 0x20) @ [0x0A])"
    using replicate_Suc [of 21 "0x20 :: u8"] by (simp add: log_head_def assms(2) numeral_eq_Suc)
  have "memset (store_bytes h a (txt @ [0])) (a + 9) 0x20 22 = store_bytes h a (txt @ 0x20 # replicate 21 0x20)"
    using store_bytes_over [of h a "txt" "0" "0x20" "replicate 21 0x20"] replicate_Suc [of 21 "0x20 :: u8"]
    by (simp add: memset_store_bytes len)
  moreover have "g(b := c) = store_bytes g b [c]" for g b and c :: u8 by simp
  ultimately show ?thesis
    unfolding head memset_store_bytes store_bytes_append [of h a "((txt @ 0x20 # replicate 21 0x20) @ [0x0A]) @ replicate 31 0x20"]
      store_bytes_append [of h a "(txt @ 0x20 # replicate 21 0x20) @ [0x0A]"] store_bytes_append [of h a "txt @ 0x20 # replicate 21 0x20"]
    by (simp add: len)
qed

lemma log_header_ok:
  assumes "fs_ok f" "n + 2048 \<le> sect_limit" "pos < 10 ^ 8"
  shows "\<exists>g. log_header ROOT_DEV (of_nat n) pos f = Inr g \<and> fs_ok g \<and> fs_frame f g \<and>
    fs_sect g = (fs_sect f)(n := log_head pos @ drop 64 (fs_sect f n), n + 2047 := log_head pos @ replicate 448 0x20)"
proof -
  let ?head = "\<lambda>f. set_fmem (store_bytes (fmem f) (fsbuf + of_nat 0) (log_head pos)) f"
  obtain f1 where f1: "RD_SECT ROOT_DEV (of_nat n) f = Inr f1" "fs_ok f1" "fs_buf f1 = fs_sect f n" "fs_sect f1 = fs_sect f" "fs_frame f f1"
    using root.rd_ok [OF assms(1), of n] assms(2) by auto
  have e1: "root.edits (splice 0 (log_head pos)) ?head f1" using f1(2) assms(3) by (intro root_edit) (simp_all add: length_log_head)
  obtain f2 where f2: "WR_SECT ROOT_DEV (of_nat n) (?head f1) = Inr f2" "fs_ok f2" "fs_sect f2 = (fs_sect f)(n := log_head pos @ drop 64 (fs_sect f n))"
    "fs_buf f2 = log_head pos @ drop 64 (fs_sect f n)" "fs_frame (?head f1) f2"
    using root.wr_ok [of "?head f1" n] e1 f1(3, 4) assms(2, 3) by (auto simp: root.edits_def splice_def length_log_head)
  have blank: "fmem f2 (fsbuf + 51) = 0x20"
  proof -
    have "fmem f2 (fsbuf + of_nat 51) = fs_buf f2 ! 51" by (simp add: fs_buf_def load_bytes_def)
    also have "\<dots> = log_head pos ! 51" using assms(3) by (simp add: f2(4) nth_append length_log_head)
    also have "log_head pos = (replicate (8 - length (digits 10 pos)) 0x20 @ digits 10 pos @ [0x0A]) @ replicate 22 0x20 @ [0x0A] @ replicate 31 0x20 @ [0x0A]"
      by (simp add: log_head_def)
    also have "\<dots> ! 51 = 0x20" using digits_length [of 8 pos] assms(3) by (subst nth_append) (simp add: nth_append)
    finally show ?thesis by simp
  qed
  let ?tail = "\<lambda>f. set_fmem (store_bytes (fmem f) (fsbuf + of_nat 64) (replicate 448 0x20)) f"
  have e2: "root.edits (splice 64 (replicate 448 0x20)) ?tail f2" using f2(2) by (intro root_edit) simp_all
  obtain g where g: "WR_SECT ROOT_DEV (of_nat (n + 2047)) (?tail f2) = Inr g" "fs_ok g" "fs_frame (?tail f2) g"
    "fs_sect g = (fs_sect f2)(n + 2047 := splice 64 (replicate 448 0x20) (fs_buf f2))"
    using root.wr_ok [of "?tail f2" "n + 2047"] e2 assms(2) by (auto simp: root.edits_def)
  have "splice 64 (replicate 448 0x20) (fs_buf f2) = log_head pos @ replicate 448 0x20"
    using assms(3) fs_sect_length [OF assms(1), of n] by (simp add: f2(4) splice_def length_log_head)
  moreover have "fs_frame f g"
    using e1 e2 fs_frame_trans [OF f1(5)] fs_frame_trans [OF _ f2(5)] fs_frame_trans [OF _ g(3)] fs_frame_trans by (meson root.edits_def)
  moreover have "log_header ROOT_DEV (of_nat n) pos f = Inr g"
    using f1(1) f2(1) g(1) blank log_header_memory [OF assms(3) refl, of "fmem f1" fsbuf]
    by (simp add: log_header_def log_head_text [OF assms(3)] Let_def memset_store_bytes add.commute)
  ultimately show ?thesis using g(2, 4) f2(3) by (intro exI [of _ g]) simp
qed

section \<open>A call after the first\<close>

text \<open>The device has room for a log of 2048 sectors behind sector \<open>st\<close>.\<close>

definition log_at :: "fs \<Rightarrow> nat \<Rightarrow> bool" where
  "log_at f st \<longleftrightarrow> mounted f \<and> i_dev (inode_table f (root_inode f)) = ROOT_DEV \<and> unat (sb_nr_sects (sb0 f)) = st + 2048 \<and> st + 2048 \<le> sect_limit"

lemma log_start:
  assumes "log_at f st"
  shows "fs_ok f" "get_super_block ROOT_DEV f = Inr (sb0 f)" "sb_nr_sects (sb0 f) - 2048 = of_nat st"
proof -
  have "sb_nr_sects (sb0 f) = of_nat (unat (sb_nr_sects (sb0 f)))" by simp
  also have "\<dots> = of_nat (st + 2048)" using assms unfolding log_at_def by simp
  finally have "sb_nr_sects (sb0 f) = of_nat (st + 2048)" .
  then show "sb_nr_sects (sb0 f) - 2048 = of_nat st" by simp
  show "fs_ok f" "get_super_block ROOT_DEV f = Inr (sb0 f)" using assms get_super_block_root by (simp_all add: log_at_def mounted_def)
qed

lemma disklog_ok:
  assumes "log_at f st" "64 \<le> pos" "pos + length s \<le> 2047 * SECTOR_SIZE"
  shows "\<exists>g. disklog s pos f = Inr (pos + length s, g) \<and> fs_ok g \<and> fs_frame f g \<and>
    (\<forall>k. 64 \<le> k \<and> k < 2047 * SECTOR_SIZE \<longrightarrow> log_byte g st k = (if pos \<le> k \<and> k < pos + length s then s ! (k - pos) else log_byte f st k)) \<and>
    (\<forall>k<64. log_byte g st k = log_head (pos + length s) ! k) \<and> (\<forall>n. n < st \<or> st + 2048 \<le> n \<longrightarrow> fs_sect g n = fs_sect f n)"
proof -
  note st = log_start [OF assms(1)] and at = assms(1) [unfolded log_at_def]
  have "(pos + length s) div SECTOR_SIZE \<le> 2047" using assms(3) div_le_mono [of "pos + length s" "2047 * SECTOR_SIZE" SECTOR_SIZE] by simp
  then have last: "st + (pos + length s) div SECTOR_SIZE < st + 2048" by simp
  then have "st + (pos + length s) div SECTOR_SIZE < sect_limit" using at by simp
  then obtain f1 where f1: "log_write ROOT_DEV (of_nat (st + pos div SECTOR_SIZE)) s pos f = Inr (pos + length s, f1)" "fs_ok f1" "fs_frame f f1"
    "\<forall>k. log_byte f1 st k = (if pos \<le> k \<and> k < pos + length s then s ! (k - pos) else log_byte f st k)"
    "\<forall>x. x < st \<or> st + (pos + length s) div SECTOR_SIZE < x \<longrightarrow> fs_sect f1 x = fs_sect f x"
    using log_write_ok [OF st(1) _ refl, of st pos s] by blast
  have p8: "pos + length s < 10 ^ 8" using assms(3) by simp
  obtain g where g: "log_header ROOT_DEV (of_nat st) (pos + length s) f1 = Inr g" "fs_ok g" "fs_frame f1 g"
    "fs_sect g = (fs_sect f1)(st := log_head (pos + length s) @ drop 64 (fs_sect f1 st), st + 2047 := log_head (pos + length s) @ replicate 448 0x20)"
    using log_header_ok [OF f1(2) _ p8, of st] at by auto
  have "disklog s pos f = Inr (pos + length s, g)" using assms(2) st f1(1) g(1) at by (simp add: disklog_def Let_def)
  moreover have "log_byte g st k = log_byte f1 st k" if "64 \<le> k" "k < 2047 * SECTOR_SIZE" for k
  proof (cases "k < SECTOR_SIZE")
    case True
    then show ?thesis using that fs_sect_length [OF f1(2), of st] by (simp add: log_byte_def g(4) nth_append length_log_head [OF p8])
  next
    case False
    then have "0 < k div SECTOR_SIZE" by (simp add: div_greater_zero_iff)
    moreover have "k div SECTOR_SIZE < 2047" using that(2) by (simp add: less_mult_imp_div_less)
    ultimately show ?thesis by (simp add: log_byte_def g(4))
  qed
  moreover have "log_byte g st k = log_head (pos + length s) ! k" if "k < 64" for k
    using that by (simp add: log_byte_def g(4) nth_append length_log_head [OF p8])
  moreover have "fs_sect g n = fs_sect f n" if "n < st \<or> st + 2048 \<le> n" for n
    using that f1(5) last by (auto simp: g(4))
  ultimately show ?thesis using g(2) fs_frame_trans [OF f1(3) g(3)] f1(4) by (intro exI [of _ g]) auto
qed

section \<open>The first call\<close>

lemma log_bytes_run:
  assumes "length bs = SECTOR_SIZE" "k < 8" "j \<le> SECTOR_SIZE" "j = SECTOR_SIZE \<longrightarrow> k = 0"
    "\<And>n. 8 * j + k \<le> n \<Longrightarrow> n < 4096 \<Longrightarrow> n < 8 * j + k + left \<Longrightarrow> \<not> bits bs n"
  shows "\<exists>bs'. log_bytes k [j..<SECTOR_SIZE] left bs = Inr (left - (4096 - (8 * j + k)), bs') \<and> length bs' = SECTOR_SIZE \<and>
    (\<forall>n<4096. bits bs' n = (bits bs n \<or> 8 * j + k \<le> n \<and> n < 8 * j + k + left))"
  using assms
proof (induction "SECTOR_SIZE - j" arbitrary: j k left bs)
  case 0
  then have "j = SECTOR_SIZE" "k = 0" by auto
  then show ?case using "0.prems"(1) by (intro exI [of _ bs]) auto
next
  case (Suc d)
  then have j: "j < SECTOR_SIZE" "[j..<SECTOR_SIZE] = j # [Suc j..<SECTOR_SIZE]" "d = SECTOR_SIZE - Suc j" by (simp_all add: upt_conv_Cons)
  show ?case
  proof (cases "left = 0")
    case True
    then show ?thesis using Suc.prems(1) by (intro exI [of _ bs]) (auto simp: j(2))
  next
    case False
    have free: "\<not> bit (bs ! j) m" if "k \<le> m" "m < 8" "m < k + left" for m
      using Suc.prems(5) [of "8 * j + m"] that j(1) by (simp add: bits_byte)
    obtain b where b: "mark_bits 52 (bs ! j) [k..<8] left = Inr (b, left - (8 - k))" "\<forall>m<8. bit b m = (bit (bs ! j) m \<or> k \<le> m \<and> m < k + left)"
      using mark_bits_run [of k left "bs ! j" 52] free Suc.prems(2) False by auto
    have upd: "bits (bs[j := b]) n = (bits bs n \<or> 8 * j + k \<le> n \<and> n < 8 * j + 8 \<and> n < 8 * j + k + left)" if "n < 4096" for n
    proof (cases "n div 8 = j")
      case True
      then have "n = 8 * j + n mod 8" by auto
      then show ?thesis using b(2) j(1) Suc.prems(1) bits_byte [of "n mod 8" "bs[j := b]" j] bits_byte [of "n mod 8" bs j] by auto
    next
      case False
      then have "\<not> (8 * j + k \<le> n \<and> n < 8 * j + 8)" by auto
      then show ?thesis using False by (auto simp: bits_def)
    qed
    have rest: "\<not> bits (bs[j := b]) n" if "8 * Suc j + 0 \<le> n" "n < 4096" "n < 8 * Suc j + 0 + (left - (8 - k))" for n
      using upd [OF that(2)] Suc.prems(2) Suc.prems(5) [of n] that by auto
    have "length (bs[j := b]) = SECTOR_SIZE" "(0 :: nat) < 8" "Suc j \<le> SECTOR_SIZE" "Suc j = SECTOR_SIZE \<longrightarrow> (0 :: nat) = 0"
      using Suc.prems(1) j(1) by simp_all
    from Suc.hyps(1) [OF j(3) this rest]
    obtain bs' where bs': "log_bytes 0 [Suc j..<SECTOR_SIZE] (left - (8 - k)) (bs[j := b]) = Inr (left - (8 - k) - (4096 - (8 * Suc j + 0)), bs')" "length bs' = SECTOR_SIZE"
      "\<forall>n<4096. bits bs' n = (bits (bs[j := b]) n \<or> 8 * Suc j + 0 \<le> n \<and> n < 8 * Suc j + 0 + (left - (8 - k)))"
      by blast
    have "left - (8 - k) - (4096 - (8 * Suc j + 0)) = left - (4096 - (8 * j + k))" using Suc.prems(2) j(1) by simp
    then have "log_bytes k [j..<SECTOR_SIZE] left bs = Inr (left - (4096 - (8 * j + k)), bs')" using bs'(1) b(1) False unfolding j(2) by simp
    moreover have "bits bs' n = (bits bs n \<or> 8 * j + k \<le> n \<and> n < 8 * j + k + left)" if "n < 4096" for n
      using bs'(3) upd [OF that] that Suc.prems(2) by auto
    ultimately show ?thesis using bs'(2) by blast
  qed
qed

text \<open>Marking the 2048 bits from \<open>a\<close> on in a map that starts at sector \<open>s\<close> touches at most two of its sectors.\<close>

lemma log_sects_one:
  assumes "fs_ok f" "s < sect_limit" "p < 4096" "\<And>n. p \<le> n \<Longrightarrow> n < 4096 \<Longrightarrow> n < p + left \<Longrightarrow> \<not> bits (fs_sect f s) n"
  shows "\<exists>g. bindE (RD_SECT ROOT_DEV (of_nat s) f) (\<lambda>f. bindE (log_bytes (p mod 8) [p div 8..<SECTOR_SIZE] left (fs_buf f)) (\<lambda>(left, bs).
      bindE (WR_SECT ROOT_DEV (of_nat s) (put_buf bs f)) (\<lambda>f. K left f))) = K (left - (4096 - p)) g \<and> fs_ok g \<and> fs_frame f g \<and>
    (\<forall>n. n \<noteq> s \<longrightarrow> fs_sect g n = fs_sect f n) \<and> (\<forall>n<4096. bits (fs_sect g s) n = (bits (fs_sect f s) n \<or> p \<le> n \<and> n < p + left))"
proof -
  obtain f1 where f1: "RD_SECT ROOT_DEV (of_nat s) f = Inr f1" "fs_ok f1" "fs_buf f1 = fs_sect f s" "fs_sect f1 = fs_sect f" "fs_frame f f1"
    using root.rd_ok [OF assms(1, 2)] by blast
  have p: "8 * (p div 8) + p mod 8 = p" "p mod 8 < 8" "p div 8 < SECTOR_SIZE" using assms(3) by auto
  obtain bs where bs: "log_bytes (p mod 8) [p div 8..<SECTOR_SIZE] left (fs_sect f s) = Inr (left - (4096 - p), bs)" "length bs = SECTOR_SIZE"
    "\<forall>n<4096. bits bs n = (bits (fs_sect f s) n \<or> p \<le> n \<and> n < p + left)"
    using log_bytes_run [of "fs_sect f s" "p mod 8" "p div 8" left] assms(4) p fs_sect_length [OF assms(1)] by auto
  note put = put_buf_edits [OF f1(2) bs(2)]
  obtain g where g: "WR_SECT ROOT_DEV (of_nat s) (put_buf bs f1) = Inr g" "fs_ok g" "fs_sect g = (fs_sect f)(s := bs)" "fs_frame (put_buf bs f1) g"
    using root.wr_ok [OF put(1) assms(2)] put(2, 3) f1(4) by auto
  have "fs_frame f g" using fs_frame_trans [OF fs_frame_trans [OF f1(5) put(4)] g(4)] .
  then show ?thesis using f1(1, 3) bs g by (intro exI [of _ g]) simp
qed

lemma log_sects_single:
  "log_sects dev sect_nr byte_off bit_off [i] left f = bindE (RD_SECT dev (sect_nr + of_nat i) f) (\<lambda>f.
     bindE (log_bytes bit_off [byte_off..<SECTOR_SIZE] left (fs_buf f)) (\<lambda>(left, bs).
     bindE (WR_SECT dev (sect_nr + of_nat i) (put_buf bs f)) (\<lambda>f. Inr (left, f))))"
  by (simp only: log_sects.simps if_cancel)

lemma log_reserve_ok:
  assumes "mounted f" "st + 2048 \<le> sect_limit" "m = 3 + st div 4096" "m + 1 < sect_limit" "\<And>n. st \<le> n \<Longrightarrow> n < st + 2048 \<Longrightarrow> \<not> map_bit f 3 n"
  shows "\<exists>g. log_reserve ROOT_DEV (sb0 f) (of_nat st) f = Inr g \<and> fs_ok g \<and> fs_frame f g \<and>
    (\<forall>n. n \<noteq> m \<and> n \<noteq> m + 1 \<longrightarrow> fs_sect g n = fs_sect f n) \<and> (\<forall>n. map_bit g 3 n = (map_bit f 3 n \<or> st \<le> n \<and> n < st + 2048))"
proof -
  define q p where "q = st div 4096" and "p = st mod 4096"
  have st: "st = 4096 * q + p" "p < 4096" and m: "m = 3 + q" by (simp_all add: q_def p_def assms(3))
  have ok: "fs_ok f" using assms(1) by (simp add: mounted_def)
  have at: "map_bit h 3 (4096 * x + n) = bits (fs_sect h (3 + x)) n" if "n < 4096" for h x n using that by (simp add: map_bit_def)
  have free: "\<not> bits (fs_sect f m) n" if "p \<le> n" "n < 4096" "n < p + 2048" for n
    using assms(5) [of "4096 * q + n"] at [OF that(2), of f q] that st by (simp add: m)
  have sint: "sint (of_nat st :: u32) = int st" using assms(2) by (intro sint_of_nat_small) simp
  have start: "(1 + 1 + nr_imap_sects (sb0 f) + of_nat (st div 4096) :: u32) = of_nat m" using assms(1) by (simp add: mounted_def assms(3))
  let ?K = "\<lambda>left f. if left = 0 then Inr (left, f) else log_sects ROOT_DEV (of_nat m) 0 0 [Suc 0] left f"
  obtain g1 where g1: "log_sects ROOT_DEV (of_nat m) (p div 8) (p mod 8) [0, 1] 2048 f = ?K (2048 - (4096 - p)) g1" "fs_ok g1" "fs_frame f g1"
    "\<forall>n. n \<noteq> m \<longrightarrow> fs_sect g1 n = fs_sect f n" "\<forall>n<4096. bits (fs_sect g1 m) n = (bits (fs_sect f m) n \<or> p \<le> n \<and> n < p + 2048)"
  proof -
    have lim: "m < sect_limit" using assms(4) by simp
    have "log_sects ROOT_DEV (of_nat m) (p div 8) (p mod 8) [0, 1] 2048 f = bindE (RD_SECT ROOT_DEV (of_nat m) f)
        (\<lambda>f. bindE (log_bytes (p mod 8) [p div 8..<SECTOR_SIZE] 2048 (fs_buf f)) (\<lambda>(left, bs). bindE (WR_SECT ROOT_DEV (of_nat m) (put_buf bs f)) (\<lambda>f. ?K left f)))" by simp
    then show ?thesis using log_sects_one [OF ok lim st(2), of 2048 ?K] free that by auto
  qed
  have onward: "\<not> bits (fs_sect g1 (m + 1)) n" if "n < 4096" "n < 2048 - (4096 - p)" for n
    using assms(5) [of "4096 * (q + 1) + n"] at [OF that(1), of f "q + 1"] that st g1(4) by (simp add: m)
  obtain g where g: "?K (2048 - (4096 - p)) g1 = Inr (0, g)" "fs_ok g" "fs_frame g1 g" "\<forall>n. n \<noteq> m + 1 \<longrightarrow> fs_sect g n = fs_sect g1 n"
    "\<forall>n<4096. bits (fs_sect g (m + 1)) n = (bits (fs_sect g1 (m + 1)) n \<or> n < 2048 - (4096 - p))"
  proof (cases "2048 - (4096 - p) = 0")
    case True
    then show ?thesis using g1(2) by (intro that [of g1]) auto
  next
    case False
    obtain g where "log_sects ROOT_DEV (of_nat m) 0 0 [Suc 0] (2048 - (4096 - p)) g1 = Inr (2048 - (4096 - p) - 4096, g)" "fs_ok g" "fs_frame g1 g"
      "\<forall>n. n \<noteq> m + 1 \<longrightarrow> fs_sect g n = fs_sect g1 n" "\<forall>n<4096. bits (fs_sect g (m + 1)) n = (bits (fs_sect g1 (m + 1)) n \<or> n < 2048 - (4096 - p))"
      using log_sects_one [OF g1(2) assms(4), of 0 "2048 - (4096 - p)" "\<lambda>left f. Inr (left, f)"] onward
      by (auto simp: log_sects_single add.commute simp del: log_sects.simps)
    then show ?thesis using False st(2) by (intro that [of g]) auto
  qed
  have "[0..<NR_SECTS_FOR_LOG div (SECTOR_SIZE * 8) + 2] = [0, 1]" by (simp add: upt_rec)
  then have "log_reserve ROOT_DEV (sb0 f) (of_nat st) f = Inr g"
    using trans [OF g1(1) g(1)] start by (simp add: log_reserve_def sint Let_def p_def del: log_sects.simps)
  moreover have "map_bit g 3 n = (map_bit f 3 n \<or> st \<le> n \<and> n < st + 2048)" for n
  proof -
    define x y where "x = n div 4096" and "y = n mod 4096"
    have n: "n = 4096 * x + y" "y < 4096" by (simp_all add: x_def y_def)
    consider "x = q" | "x = q + 1" | "x \<noteq> q" "x \<noteq> q + 1" by blast
    then show ?thesis
    proof cases
      case 1
      then show ?thesis using at [OF n(2), of g x] at [OF n(2), of f x] n g(4) g1(5) st by (auto simp: m)
    next
      case 2
      then show ?thesis using at [OF n(2), of g x] at [OF n(2), of f x] n g(5) g1(4) st by (auto simp: m)
    next
      case 3
      then have "\<not> (st \<le> n \<and> n < st + 2048)" using n st by (cases "x < q") auto
      then show ?thesis using 3 at [OF n(2), of g x] at [OF n(2), of f x] n g(4) g1(4) by (auto simp: m)
    qed
  qed
  ultimately show ?thesis using g(2, 4) g1(4) fs_frame_trans [OF g1(3) g(3)] by (intro exI [of _ g]) simp
qed

lemma blank_sector:
  assumes "i < 256"
  shows "load_bytes (memset h fsbuf 0x20 (256 * SECTOR_SIZE)) (fsbuf + of_nat (SECTOR_SIZE * i)) SECTOR_SIZE = replicate SECTOR_SIZE 0x20"
proof (rule nth_equalityI)
  fix j
  assume "j < length (load_bytes (memset h fsbuf 0x20 (256 * SECTOR_SIZE)) (fsbuf + of_nat (SECTOR_SIZE * i)) SECTOR_SIZE)"
  then have j: "j < SECTOR_SIZE" by simp
  then have "memset h fsbuf 0x20 (256 * SECTOR_SIZE) (fsbuf + of_nat (SECTOR_SIZE * i + j)) = 0x20" using assms by (intro memset_fills) simp_all
  then show "load_bytes (memset h fsbuf 0x20 (256 * SECTOR_SIZE)) (fsbuf + of_nat (SECTOR_SIZE * i)) SECTOR_SIZE ! j = replicate SECTOR_SIZE 0x20 ! j"
    using j by (simp add: load_bytes_def add.assoc)
qed simp

lemma log_blank_ok:
  assumes "fs_ok f" "st + 256 * d \<le> sect_limit"
  shows "\<exists>g. log_blank ROOT_DEV (of_nat st) [c..<d] f = Inr g \<and> fs_ok g \<and> same_but_disk f g \<and>
    (\<forall>x. fs_sect g x = (if st + 256 * c \<le> x \<and> x < st + 256 * d then replicate SECTOR_SIZE 0x20 else fs_sect f x))"
  using assms
proof (induction "d - c" arbitrary: c f)
  case 0
  then show ?case by (auto simp: same_but_disk_def fmem_def)
next
  case (Suc e)
  then have c: "c < d" "[c..<d] = c # [Suc c..<d]" "e = d - Suc c" by (simp_all add: upt_conv_Cons)
  let ?f = "set_fmem (memset (fmem f) fsbuf 0x20 (256 * SECTOR_SIZE)) f" and ?n = "st + 256 * c"
  have n: "?n + 256 \<le> sect_limit" using Suc.prems(2) c(1) by simp
  obtain g where g: "rw_sector DEV_WRITE ROOT_DEV (of_nat (SECTOR_SIZE * ?n)) (of_nat (SECTOR_SIZE * 256)) TASK_FS fsbuf ?f = Inr g" "fs_ok g" "same_but_disk ?f g"
    "\<And>x. fs_sect g x = (if ?n \<le> x \<and> x < ?n + 256 then load_bytes (fmem ?f) (fsbuf + of_nat (SECTOR_SIZE * (x - ?n))) SECTOR_SIZE else fs_sect f x)"
    using write_run [of ?f 256 ?n] Suc.prems(1) n by auto
  have sect: "fs_sect g x = (if ?n \<le> x \<and> x < ?n + 256 then replicate SECTOR_SIZE 0x20 else fs_sect f x)" for x
  proof (cases "?n \<le> x \<and> x < ?n + 256")
    case True
    then have "x - ?n < 256" by linarith
    from True blank_sector [OF this, of "fmem f"] show ?thesis unfolding g(4) by (simp del: of_nat_mult)
  qed (auto simp: g(4))
  obtain k where k: "log_blank ROOT_DEV (of_nat st) [Suc c..<d] g = Inr k" "fs_ok k" "same_but_disk g k"
    "\<And>x. fs_sect k x = (if st + 256 * Suc c \<le> x \<and> x < st + 256 * d then replicate SECTOR_SIZE 0x20 else fs_sect g x)"
    using Suc.hyps(1) [OF c(3) g(2) Suc.prems(2)] by blast
  have pos: "(of_nat st + of_nat (256 * c)) * SECTOR_SIZE = (of_nat (SECTOR_SIZE * ?n) :: u32)" "(256 * SECTOR_SIZE :: u32) = of_nat (SECTOR_SIZE * 256)"
    by (simp_all add: algebra_simps)
  have "log_blank ROOT_DEV (of_nat st) [c..<d] f = Inr k"
    using g(1) k(1) unfolding c(2) log_blank.simps pos by simp
  moreover have "same_but_disk f k" using same_but_disk_trans [OF same_but_disk_trans [OF same_but_disk_set_fmem g(3)] k(3)] .
  moreover have "fs_sect k x = (if ?n \<le> x \<and> x < st + 256 * d then replicate SECTOR_SIZE 0x20 else fs_sect f x)" for x
    using k(4) [of x] sect [of x] c(1) by auto
  ultimately show ?case using k(2) by blast
qed

text \<open>
  C34. Appending to the log. After the first call, \<^verbatim>\<open>disklog\<close> cannot fail while the text fits before the last sector of the log: it returns
  the new end of the log, the text stands at the old end, the earlier text of the log (its bytes from 64 to the old end) and every sector outside the log
  are as before, and the header gives the new end in decimal, right-aligned in eight columns. A copy of the header overwrites the last sector of the log.
  No table of the file system and no memory outside the sector buffer changes.
\<close>

theorem disklog_appends:
  assumes "log_at f st" "64 \<le> pos" "pos + length s \<le> 2047 * SECTOR_SIZE"
  shows "\<exists>g. disklog s pos f = Inr (pos + length s, g) \<and> fs_frame f g \<and> log_at g st \<and>
    map (log_byte g st) [pos..<pos + length s] = s \<and> map (log_byte g st) [64..<pos] = map (log_byte f st) [64..<pos] \<and>
    map (log_byte g st) [0..<64] = log_head (pos + length s) \<and> (\<forall>n. n < st \<or> st + 2048 \<le> n \<longrightarrow> fs_sect g n = fs_sect f n)"
proof -
  obtain g where g: "disklog s pos f = Inr (pos + length s, g)" "fs_ok g" "fs_frame f g"
    "\<forall>k. 64 \<le> k \<and> k < 2047 * SECTOR_SIZE \<longrightarrow> log_byte g st k = (if pos \<le> k \<and> k < pos + length s then s ! (k - pos) else log_byte f st k)"
    "\<forall>k<64. log_byte g st k = log_head (pos + length s) ! k" "\<forall>n. n < st \<or> st + 2048 \<le> n \<longrightarrow> fs_sect g n = fs_sect f n"
    using disklog_ok [OF assms] by blast
  have "map (log_byte g st) [pos..<pos + length s] = s" using g(4) assms(2, 3) by (intro nth_equalityI) auto
  moreover have "map (log_byte g st) [64..<pos] = map (log_byte f st) [64..<pos]" using g(4) assms(3) by (intro map_cong) auto
  moreover have "map (log_byte g st) [0..<64] = log_head (pos + length s)"
    using g(5) length_log_head [of "pos + length s"] assms(3) by (intro nth_equalityI) auto
  moreover have "log_at g st" using assms(1) g(2, 3) fs_frame_sel(1, 3, 4) [OF g(3)] mounted_frame [of f g] by (simp add: log_at_def sb0_def)
  ultimately show ?thesis using g by (intro exI [of _ g] conjI) simp_all
qed

lemma disklog_first_ok:
  assumes "log_at f st" "unat (n_1st_sect (sb0 f)) \<le> st" "length s \<le> 2047 * SECTOR_SIZE - 64" "\<And>n. st \<le> n \<Longrightarrow> n < st + 2048 \<Longrightarrow> \<not> map_bit f 3 n"
  shows "\<exists>g. disklog s 0 f = Inr (64 + length s, g) \<and> (\<forall>n. n div 4096 < unat (nr_smap_sects (sb0 f)) \<longrightarrow> map_bit g 3 n = (map_bit f 3 n \<or> st \<le> n \<and> n < st + 2048)) \<and>
    (\<forall>k. 64 \<le> k \<and> k < 2047 * SECTOR_SIZE \<longrightarrow> log_byte g st k = (if k < 64 + length s then s ! (k - 64) else 0x20))"
proof -
  note at = assms(1) [unfolded log_at_def] and start = log_start [OF assms(1)]
  have first: "unat (n_1st_sect (sb0 f)) = 3 + unat (nr_smap_sects (sb0 f)) + 256" using at by (simp add: mounted_def)
  have "mounted f" "st + 2048 \<le> sect_limit" "3 + st div 4096 + 1 < sect_limit" using at by auto
  then obtain f1 where f1: "log_reserve ROOT_DEV (sb0 f) (of_nat st) f = Inr f1" "fs_ok f1" "fs_frame f f1"
    "\<forall>n. map_bit f1 3 n = (map_bit f 3 n \<or> st \<le> n \<and> n < st + 2048)"
    using log_reserve_ok [OF _ _ refl _ assms(4)] by blast
  obtain f2 where f2: "log_blank ROOT_DEV (of_nat st) [0..<8] f1 = Inr f2" "fs_ok f2" "same_but_disk f1 f2"
    "\<forall>x. fs_sect f2 x = (if st + 256 * 0 \<le> x \<and> x < st + 256 * 8 then replicate SECTOR_SIZE 0x20 else fs_sect f1 x)"
    using log_blank_ok [OF f1(2), of st 8 0] at by auto
  have same: "inode_table f2 = inode_table f" "root_inode f2 = root_inode f" "sb0 f2 = sb0 f"
    using same_but_disk_sel(1, 3, 4) [OF f2(3)] fs_frame_sel(1, 3, 4) [OF f1(3)] by (simp_all add: sb0_def)
  have at2: "log_at f2 st" using at f2(2) same by (simp add: log_at_def mounted_def)
  have run: "disklog s 0 f = disklog s 64 f2"
    using f1(1) f2(1) start at same log_start(2) [OF at2] by (simp add: disklog_def Let_def bindE_assoc)
  have "64 + length s \<le> 2047 * SECTOR_SIZE" using assms(3) by simp
  then obtain g where g: "disklog s 64 f2 = Inr (64 + length s, g)"
    "\<forall>k. 64 \<le> k \<and> k < 2047 * SECTOR_SIZE \<longrightarrow> log_byte g st k = (if 64 \<le> k \<and> k < 64 + length s then s ! (k - 64) else log_byte f2 st k)"
    "\<forall>n. n < st \<or> st + 2048 \<le> n \<longrightarrow> fs_sect g n = fs_sect f2 n"
    using disklog_ok [OF at2 order_refl] by blast
  have blank: "log_byte f2 st k = 0x20" if "k < 2047 * SECTOR_SIZE" for k
    using f2(4) less_mult_imp_div_less [OF that] by (simp add: log_byte_def)
  have maps: "map_bit g 3 n = map_bit f1 3 n" if "n div 4096 < unat (nr_smap_sects (sb0 f))" for n
  proof -
    have "3 + n div 4096 < st" using that first assms(2) by simp
    then show ?thesis using g(3) f2(4) by (simp add: map_bit_def)
  qed
  have "log_byte g st k = (if k < 64 + length s then s ! (k - 64) else 0x20)" if "64 \<le> k" "k < 2047 * SECTOR_SIZE" for k
    using g(2) blank [OF that(2)] that by auto
  then show ?thesis using run g(1) maps f1(4) by auto
qed

text \<open>
  C35. The first call of \<^verbatim>\<open>disklog\<close> reserves the wrong sectors. When the bits it is about to mark are clear (otherwise
  \<^verbatim>\<open>log_reserve\<close> stops in an assertion), it marks in the sector map exactly the 2048 bits from the number of the log's first
  sector on, blanks the log behind its header and writes the text there. But the map counts from \<^verbatim>\<open>n_1st_sect\<close>: so
  the bits that stand for the first \<open>n_1st_sect - 1\<close> sectors of the log are not among the marked ones and stay as they were,
  free for the next file, although the log is written there. The very last sector of the log gets a copy of its header.
\<close>

theorem disklog_reserves_elsewhere:
  assumes "log_at f st" "unat (n_1st_sect (sb0 f)) \<le> st" "length s \<le> 2047 * SECTOR_SIZE - 64" "\<And>n. st \<le> n \<Longrightarrow> n < st + 2048 \<Longrightarrow> \<not> map_bit f 3 n"
    "st \<le> 4096 * unat (nr_smap_sects (sb0 f))"
  shows "\<exists>g. disklog s 0 f = Inr (64 + length s, g) \<and>
    (\<forall>n. n div 4096 < unat (nr_smap_sects (sb0 f)) \<longrightarrow> map_bit g 3 n = (map_bit f 3 n \<or> st \<le> n \<and> n < st + 2048)) \<and>
    (\<forall>k. 64 \<le> k \<and> k < 2047 * SECTOR_SIZE \<longrightarrow> log_byte g st k = (if k < 64 + length s then s ! (k - 64) else 0x20)) \<and>
    (\<forall>x. x < unat (n_1st_sect (sb0 f)) - 1 \<longrightarrow>
       map_bit g 3 (st + x + 1 - unat (n_1st_sect (sb0 f))) = map_bit f 3 (st + x + 1 - unat (n_1st_sect (sb0 f))))"
proof -
  obtain g where g: "disklog s 0 f = Inr (64 + length s, g)"
    "\<forall>n. n div 4096 < unat (nr_smap_sects (sb0 f)) \<longrightarrow> map_bit g 3 n = (map_bit f 3 n \<or> st \<le> n \<and> n < st + 2048)"
    "\<forall>k. 64 \<le> k \<and> k < 2047 * SECTOR_SIZE \<longrightarrow> log_byte g st k = (if k < 64 + length s then s ! (k - 64) else 0x20)"
    using disklog_first_ok [OF assms(1 - 4)] by blast
  have "map_bit g 3 n = map_bit f 3 n" if n: "n = st + x + 1 - unat (n_1st_sect (sb0 f))" "x < unat (n_1st_sect (sb0 f)) - 1" for n x
  proof -
    have lt: "n < st" using n assms(2) by simp
    then have "n < unat (nr_smap_sects (sb0 f)) * 4096" using assms(5) by simp
    then have "n div 4096 < unat (nr_smap_sects (sb0 f))" by (rule less_mult_imp_div_less)
    then show ?thesis using g(2) lt by simp
  qed
  with g show ?thesis by blast
qed

section \<open>Witnesses\<close>

lemma demo_log_at: "log_at (demo_fs h) 5952"
  using demo_mounted [of h] demo_table [of h 0] by (simp add: log_at_def demo_sb0 demo_sb_def demo_root_def) (simp add: demo_fs_def demo_root_def)

theorem disklog_appends_witness:
  "\<exists>g. disklog [0x48, 0x69] 100 (demo_fs (\<lambda>_. 7)) = Inr (102, g) \<and> map (log_byte g 5952) [100..<102] = [0x48, 0x69] \<and>
     map (log_byte g 5952) [0..<64] = log_head 102"
  using disklog_appends [OF demo_log_at, of 100 "[0x48, 0x69]" "\<lambda>_. 7"] by auto

theorem disklog_reserves_elsewhere_witness:
  "\<exists>g. disklog [0x48, 0x69] 0 (demo_fs (\<lambda>_. 7)) = Inr (66, g) \<and> log_byte g 5952 65 = 0x69 \<and> log_byte g 5952 66 = 0x20 \<and>
     map_bit g 3 5952 \<and> map_bit g 3 7999 \<and> \<not> map_bit g 3 5692"
proof -
  have clear: "\<not> map_bit (demo_fs (\<lambda>_. 7)) 3 n" if "5952 \<le> n" "n < 5952 + 2048" for n using that demo_smap [of n] by simp
  obtain g where g: "disklog [0x48, 0x69] 0 (demo_fs (\<lambda>_. 7)) = Inr (66, g)"
    "\<forall>n. n div 4096 < 2 \<longrightarrow> map_bit g 3 n = (map_bit (demo_fs (\<lambda>_. 7)) 3 n \<or> 5952 \<le> n \<and> n < 8000)"
    "\<forall>k. 64 \<le> k \<and> k < 2047 * SECTOR_SIZE \<longrightarrow> log_byte g 5952 k = (if k < 66 then [0x48, 0x69] ! (k - 64) else 0x20)"
    using disklog_reserves_elsewhere [OF demo_log_at _ _ clear, of "[0x48, 0x69]"] by (auto simp: demo_sb0 demo_sb_def)
  from g(2) [rule_format, of 5952] g(2) [rule_format, of 7999] g(2) [rule_format, of 5692]
    g(3) [rule_format, of 65] g(3) [rule_format, of 66] demo_smap [of 5692 "\<lambda>_. 7"] g(1)
  show ?thesis by (intro exI [of _ g]) simp
qed

end
