(* ===== verification/Boot.thy ===== *)
theory Boot
  imports Ipc_Refine Clib
begin

text \<open>
  From power-up of the C code to the first process: \<^verbatim>\<open>init_8259A\<close> of \<^verbatim>\<open>kernel/i8259.c\<close>,
  \<^verbatim>\<open>init_prot\<close> of \<^verbatim>\<open>kernel/protect.c\<close>, the boot parameters and the kernel map of
  \<^verbatim>\<open>lib/klib.c\<close>, and the part of \<^verbatim>\<open>kernel_main\<close> that fills the process table. Addresses of
  functions and variables are given by the linker: they are arguments of the model. The
  accessors of the ELF header, declared in the system header \<^verbatim>\<open>elf.h\<close>, are arguments as well.
\<close>

section \<open>Interrupt controller\<close>

abbreviation (input) INT_M_CTL :: u16 where "INT_M_CTL \<equiv> 0x20"
abbreviation (input) INT_M_CTLMASK :: u16 where "INT_M_CTLMASK \<equiv> 0x21"
abbreviation (input) INT_S_CTL :: u16 where "INT_S_CTL \<equiv> 0xA0"
abbreviation (input) INT_S_CTLMASK :: u16 where "INT_S_CTLMASK \<equiv> 0xA1"
abbreviation (input) INT_VECTOR_IRQ0 :: "'a::numeral" where "INT_VECTOR_IRQ0 \<equiv> 0x20"
abbreviation (input) INT_VECTOR_IRQ8 :: "'a::numeral" where "INT_VECTOR_IRQ8 \<equiv> 0x28"
abbreviation (input) INT_VECTOR_SYS_CALL :: "'a::numeral" where "INT_VECTOR_SYS_CALL \<equiv> 0x90"
abbreviation (input) NR_IRQ :: nat where "NR_IRQ \<equiv> 16"

text \<open>The bytes written to the controllers' ports, in order, and the handler table.\<close>

definition init_8259A :: "u32 \<Rightarrow> (u16 \<times> u8) list \<times> u32 list" where
  "init_8259A spurious_irq =
     ([(INT_M_CTL, 0x11), (INT_S_CTL, 0x11),
       (INT_M_CTLMASK, INT_VECTOR_IRQ0), (INT_S_CTLMASK, INT_VECTOR_IRQ8),
       (INT_M_CTLMASK, 0x4), (INT_S_CTLMASK, 0x2),
       (INT_M_CTLMASK, 0x1), (INT_S_CTLMASK, 0x1),
       (INT_M_CTLMASK, 0xFF), (INT_S_CTLMASK, 0xFF)],
      replicate NR_IRQ spurious_irq)"

section \<open>Descriptor tables\<close>

record tss =
  tss_backlink :: u32
  tss_esp0 :: u32
  tss_ss0 :: u32
  tss_esp1 :: u32
  tss_ss1 :: u32
  tss_esp2 :: u32
  tss_ss2 :: u32
  tss_cr3 :: u32
  tss_eip :: u32
  tss_eflags :: u32
  tss_eax :: u32
  tss_ecx :: u32
  tss_edx :: u32
  tss_ebx :: u32
  tss_esp :: u32
  tss_ebp :: u32
  tss_esi :: u32
  tss_edi :: u32
  tss_es :: u32
  tss_cs :: u32
  tss_ss :: u32
  tss_ds :: u32
  tss_fs :: u32
  tss_gs :: u32
  tss_ldt :: u32
  tss_trap :: u16
  tss_iobase :: u16

definition zero_tss :: tss where
  "zero_tss = \<lparr>tss_backlink = 0, tss_esp0 = 0, tss_ss0 = 0, tss_esp1 = 0, tss_ss1 = 0, tss_esp2 = 0,
     tss_ss2 = 0, tss_cr3 = 0, tss_eip = 0, tss_eflags = 0, tss_eax = 0, tss_ecx = 0, tss_edx = 0,
     tss_ebx = 0, tss_esp = 0, tss_ebp = 0, tss_esi = 0, tss_edi = 0, tss_es = 0, tss_cs = 0,
     tss_ss = 0, tss_ds = 0, tss_fs = 0, tss_gs = 0, tss_ldt = 0, tss_trap = 0, tss_iobase = 0\<rparr>"

text \<open>\<^verbatim>\<open>sizeof(tss)\<close> and \<^verbatim>\<open>sizeof(struct proc)\<close> with packed structures, and the offset of
  \<^verbatim>\<open>ldts\<close> in \<^verbatim>\<open>struct proc\<close>.\<close>

abbreviation (input) sizeof_tss :: "'a::numeral" where "sizeof_tss \<equiv> 104"
abbreviation (input) sizeof_proc :: "'a::numeral" where "sizeof_proc \<equiv> 406"
abbreviation (input) ldts_off :: "'a::numeral" where "ldts_off \<equiv> 74"
abbreviation (input) sizeof_descriptor :: "'a::numeral" where "sizeof_descriptor \<equiv> 8"

text \<open>The gates \<^verbatim>\<open>init_prot\<close> installs: vector, handler, privilege.\<close>

definition idt_entries :: "(u8 \<times> string \<times> u8) list" where
  "idt_entries =
     [(0x0, ''divide_error'', PRIVILEGE_KRNL), (0x1, ''single_step_exception'', PRIVILEGE_KRNL),
      (0x2, ''nmi'', PRIVILEGE_KRNL), (0x3, ''breakpoint_exception'', PRIVILEGE_KRNL),
      (0x4, ''overflow'', PRIVILEGE_KRNL), (0x5, ''bounds_check'', PRIVILEGE_KRNL),
      (0x6, ''inval_opcode'', PRIVILEGE_KRNL), (0x7, ''copr_not_available'', PRIVILEGE_KRNL),
      (0x8, ''double_fault'', PRIVILEGE_KRNL), (0x9, ''copr_seg_overrun'', PRIVILEGE_KRNL),
      (0xA, ''inval_tss'', PRIVILEGE_KRNL), (0xB, ''segment_not_present'', PRIVILEGE_KRNL),
      (0xC, ''stack_exception'', PRIVILEGE_KRNL), (0xD, ''general_protection'', PRIVILEGE_KRNL),
      (0xE, ''page_fault'', PRIVILEGE_KRNL), (0x10, ''copr_error'', PRIVILEGE_KRNL),
      (INT_VECTOR_IRQ0 + 0, ''hwint00'', PRIVILEGE_KRNL), (INT_VECTOR_IRQ0 + 1, ''hwint01'', PRIVILEGE_KRNL),
      (INT_VECTOR_IRQ0 + 2, ''hwint02'', PRIVILEGE_KRNL), (INT_VECTOR_IRQ0 + 3, ''hwint03'', PRIVILEGE_KRNL),
      (INT_VECTOR_IRQ0 + 4, ''hwint04'', PRIVILEGE_KRNL), (INT_VECTOR_IRQ0 + 5, ''hwint05'', PRIVILEGE_KRNL),
      (INT_VECTOR_IRQ0 + 6, ''hwint06'', PRIVILEGE_KRNL), (INT_VECTOR_IRQ0 + 7, ''hwint07'', PRIVILEGE_KRNL),
      (INT_VECTOR_IRQ8 + 0, ''hwint08'', PRIVILEGE_KRNL), (INT_VECTOR_IRQ8 + 1, ''hwint09'', PRIVILEGE_KRNL),
      (INT_VECTOR_IRQ8 + 2, ''hwint10'', PRIVILEGE_KRNL), (INT_VECTOR_IRQ8 + 3, ''hwint11'', PRIVILEGE_KRNL),
      (INT_VECTOR_IRQ8 + 4, ''hwint12'', PRIVILEGE_KRNL), (INT_VECTOR_IRQ8 + 5, ''hwint13'', PRIVILEGE_KRNL),
      (INT_VECTOR_IRQ8 + 6, ''hwint14'', PRIVILEGE_KRNL), (INT_VECTOR_IRQ8 + 7, ''hwint15'', PRIVILEGE_KRNL),
      (INT_VECTOR_SYS_CALL, ''sys_call'', PRIVILEGE_USER)]"

definition init_idt :: "(string \<Rightarrow> u32) \<Rightarrow> gate list \<Rightarrow> gate list" where
  "init_idt label idt =
     foldl (\<lambda>idt (vector, handler, privilege). init_idt_desc idt vector DA_386IGate (label handler) privilege)
       idt idt_entries"

text \<open>The macro \<^verbatim>\<open>makelinear(seg, off)\<close>.\<close>

definition makelinear :: "descriptor list \<Rightarrow> u16 \<Rightarrow> u32 \<Rightarrow> u32 result" where
  "makelinear gdt seg off = bindE (seg2linear gdt seg) (\<lambda>base. Inr (base + off))"

definition proc_ldts_addr :: "(string \<Rightarrow> u32) \<Rightarrow> nat \<Rightarrow> u32" where
  "proc_ldts_addr label i = label ''proc_table'' + of_nat i * sizeof_proc + ldts_off"

text \<open>One round of the loop over the process table.\<close>

definition init_ldt :: "(string \<Rightarrow> u32) \<Rightarrow> nat \<Rightarrow> descriptor list \<times> (nat \<Rightarrow> proc) \<Rightarrow>
    (descriptor list \<times> (nat \<Rightarrow> proc)) result" where
  "init_ldt label i = (\<lambda>(gdt, pt).
     let pt = pt(i := zero_proc\<lparr>ldt_sel := SELECTOR_LDT_FIRST + push_bit 3 (of_nat i)\<rparr>)
     in check 104 (INDEX_LDT_FIRST + i < GDT_SIZE)
       (bindE (makelinear gdt SELECTOR_KERNEL_DS (proc_ldts_addr label i)) (\<lambda>base.
         Inr (gdt[INDEX_LDT_FIRST + i := init_descriptor base (2 * sizeof_descriptor - 1) DA_LDT], pt))))"

fun init_ldts :: "(string \<Rightarrow> u32) \<Rightarrow> nat \<Rightarrow> descriptor list \<times> (nat \<Rightarrow> proc) \<Rightarrow>
    (descriptor list \<times> (nat \<Rightarrow> proc)) result" where
  "init_ldts label 0 st = Inr st"
| "init_ldts label (Suc n) st = bindE (init_ldts label n st) (init_ldt label n)"

definition init_prot :: "(string \<Rightarrow> u32) \<Rightarrow> descriptor list \<Rightarrow> gate list \<Rightarrow> (nat \<Rightarrow> proc) \<Rightarrow>
    (descriptor list \<times> gate list \<times> tss \<times> (nat \<Rightarrow> proc)) result" where
  "init_prot label gdt idt pt =
     (let idt = init_idt label idt;
          tss = zero_tss\<lparr>tss_ss0 := SELECTOR_KERNEL_DS\<rparr>
      in bindE (seg2linear gdt SELECTOR_KERNEL_DS) (\<lambda>seg.
         bindE (makelinear gdt (ucast seg) (label ''tss'')) (\<lambda>base.
         let gdt = gdt[INDEX_TSS := init_descriptor base (sizeof_tss - 1) DA_386TSS];
             tss = tss\<lparr>tss_iobase := sizeof_tss\<rparr>
         in bindE (init_ldts label (NR_TASKS + NR_PROCS) (gdt, pt)) (\<lambda>(gdt, pt).
              Inr (gdt, idt, tss, pt)))))"

section \<open>Boot parameters and the kernel map\<close>

abbreviation (input) BOOT_PARAM_ADDR :: u32 where "BOOT_PARAM_ADDR \<equiv> 0x900"
abbreviation (input) BOOT_PARAM_MAGIC :: u32 where "BOOT_PARAM_MAGIC \<equiv> 0xB007"

record boot_params =
  mem_size :: u32
  kernel_file :: u32

text \<open>What \<^verbatim>\<open>elf.h\<close> declares of \<^verbatim>\<open>Elf32_Ehdr\<close> and \<^verbatim>\<open>Elf32_Shdr\<close>: each member read from a
  structure at an address; the address of the literal \<^verbatim>\<open>ELFMAG\<close>, its length and \<^verbatim>\<open>SHF_ALLOC\<close>.\<close>

record elf_abi =
  e_ident_off :: u32
  e_shnum :: "memory \<Rightarrow> u32 \<Rightarrow> u16"
  e_shoff :: "memory \<Rightarrow> u32 \<Rightarrow> u32"
  e_shentsize :: "memory \<Rightarrow> u32 \<Rightarrow> u16"
  sh_flags :: "memory \<Rightarrow> u32 \<Rightarrow> u32"
  sh_addr :: "memory \<Rightarrow> u32 \<Rightarrow> u32"
  sh_size :: "memory \<Rightarrow> u32 \<Rightarrow> u32"
  ELFMAG :: u32
  SELFMAG :: nat
  SHF_ALLOC :: u32

definition get_boot_params :: "elf_abi \<Rightarrow> memory \<Rightarrow> boot_params result" where
  "get_boot_params elf h =
     check 18 (load32 h (BOOT_PARAM_ADDR + 0) = BOOT_PARAM_MAGIC)
     (let pbp = \<lparr>mem_size = load32 h (BOOT_PARAM_ADDR + 4), kernel_file = load32 h (BOOT_PARAM_ADDR + 8)\<rparr>
      in check 22 (memcmp h (kernel_file pbp) (ELFMAG elf) (int (SELFMAG elf)) = 0) (Inr pbp))"

definition section_header :: "elf_abi \<Rightarrow> memory \<Rightarrow> u32 \<Rightarrow> nat \<Rightarrow> u32" where
  "section_header elf h kf i = kf + e_shoff elf h kf + of_nat i * ucast (e_shentsize elf h kf)"

text \<open>The loop over the section headers: the smallest \<^verbatim>\<open>bottom\<close> and the largest \<^verbatim>\<open>top\<close>; both are
  compared as unsigned numbers.\<close>

fun kernel_map_loop :: "elf_abi \<Rightarrow> memory \<Rightarrow> u32 \<Rightarrow> nat \<Rightarrow> u32 \<times> u32 \<Rightarrow> u32 \<times> u32" where
  "kernel_map_loop elf h kf 0 bt = bt"
| "kernel_map_loop elf h kf (Suc n) bt =
     (let (b, t) = kernel_map_loop elf h kf n bt; sh = section_header elf h kf n
      in if sh_flags elf h sh AND SHF_ALLOC elf \<noteq> 0
         then let bottom = sh_addr elf h sh; top = sh_addr elf h sh + sh_size elf h sh
              in (if b > bottom then bottom else b, if t < top then top else t)
         else (b, t))"

definition get_kernel_map :: "elf_abi \<Rightarrow> memory \<Rightarrow> (int \<times> u32 \<times> u32) result" where
  "get_kernel_map elf h =
     bindE (get_boot_params elf h) (\<lambda>bp.
       if memcmp h (kernel_file bp + e_ident_off elf) (ELFMAG elf) (int (SELFMAG elf)) \<noteq> 0 then Inr (-1, 0, 0)
       else let (b, t) = kernel_map_loop elf h (kernel_file bp) (unat (e_shnum elf h (kernel_file bp))) (NOT 0, 0)
            in check 48 (b < t) (Inr (0, b, t - b - 1)))"

section \<open>The first processes\<close>

record task =
  initial_eip :: u32
  stacksize :: nat
  t_name :: string

abbreviation (input) STACK_SIZE_DEFAULT :: nat where "STACK_SIZE_DEFAULT \<equiv> 0x4000"
abbreviation (input) STACK_SIZE_TOTAL :: nat where "STACK_SIZE_TOTAL \<equiv> 9 * STACK_SIZE_DEFAULT"

definition task_table :: "(string \<Rightarrow> u32) \<Rightarrow> task list" where
  "task_table label =
     [\<lparr>initial_eip = label ''task_tty'', stacksize = STACK_SIZE_DEFAULT, t_name = ''TTY''\<rparr>,
      \<lparr>initial_eip = label ''task_sys'', stacksize = STACK_SIZE_DEFAULT, t_name = ''SYS''\<rparr>,
      \<lparr>initial_eip = label ''task_hd'', stacksize = STACK_SIZE_DEFAULT, t_name = ''HD''\<rparr>,
      \<lparr>initial_eip = label ''task_fs'', stacksize = STACK_SIZE_DEFAULT, t_name = ''FS''\<rparr>,
      \<lparr>initial_eip = label ''task_mm'', stacksize = STACK_SIZE_DEFAULT, t_name = ''MM''\<rparr>]"

definition user_proc_table :: "(string \<Rightarrow> u32) \<Rightarrow> task list" where
  "user_proc_table label =
     [\<lparr>initial_eip = label ''Init'', stacksize = STACK_SIZE_DEFAULT, t_name = ''INIT''\<rparr>,
      \<lparr>initial_eip = label ''TestA'', stacksize = STACK_SIZE_DEFAULT, t_name = ''TestA''\<rparr>,
      \<lparr>initial_eip = label ''TestB'', stacksize = STACK_SIZE_DEFAULT, t_name = ''TestB''\<rparr>,
      \<lparr>initial_eip = label ''TestC'', stacksize = STACK_SIZE_DEFAULT, t_name = ''TestC''\<rparr>]"

text \<open>The two LDT entries of a new process. Of the nine names only \<^verbatim>\<open>INIT\<close> makes \<^verbatim>\<open>strcmp\<close>
  return 0: every other name differs from it in the first letter.\<close>

definition boot_ldts :: "elf_abi \<Rightarrow> memory \<Rightarrow> descriptor list \<Rightarrow> string \<Rightarrow> u8 \<Rightarrow> (nat \<Rightarrow> descriptor) result" where
  "boot_ldts elf h gdt name privilege =
     (if name \<noteq> ''INIT'' then
        let d = gdt ! (SELECTOR_KERNEL_CS div 8)
        in Inr ((\<lambda>_. zero_descriptor)
             (INDEX_LDT_C := d\<lparr>attr1 := DA_C OR push_bit 5 privilege\<rparr>,
              INDEX_LDT_RW := d\<lparr>attr1 := DA_DRW OR push_bit 5 privilege\<rparr>))
      else bindE (get_kernel_map elf h) (\<lambda>(ret, k_base, k_limit).
        check 66 (ret = 0)
        (let limit = drop_bit LIMIT_4K_SHIFT (k_base + k_limit); dpl = push_bit 5 (ucast privilege)
         in Inr ((\<lambda>_. zero_descriptor)
              (INDEX_LDT_C := init_descriptor 0 limit (DA_32 OR DA_LIMIT_4K OR DA_C OR dpl),
               INDEX_LDT_RW := init_descriptor 0 limit (DA_32 OR DA_LIMIT_4K OR DA_DRW OR dpl))))))"

definition boot_regs :: "u32 \<Rightarrow> u32 \<Rightarrow> u32 \<Rightarrow> u32 \<Rightarrow> stackframe \<Rightarrow> stackframe" where
  "boot_regs rpl eflags eip esp r =
     (let data = push_bit 3 (of_nat INDEX_LDT_RW) OR SA_TIL OR rpl
      in r\<lparr>r_cs := push_bit 3 (of_nat INDEX_LDT_C) OR SA_TIL OR rpl,
           r_ds := data, r_es := data, r_fs := data, r_ss := data,
           r_gs := (SELECTOR_KERNEL_GS AND SA_RPL_MASK) OR rpl,
           r_eip := eip, r_esp := esp, r_eflags := eflags\<rparr>)"

text \<open>One round of the loop over the process table; the stack pointer moves down from slot to
  slot.\<close>

definition boot_slot :: "elf_abi \<Rightarrow> memory \<Rightarrow> (string \<Rightarrow> u32) \<Rightarrow> descriptor list \<Rightarrow> nat \<Rightarrow>
    (nat \<Rightarrow> proc) \<times> u32 \<Rightarrow> ((nat \<Rightarrow> proc) \<times> u32) result" where
  "boot_slot elf h label gdt i = (\<lambda>(pt, p_task_stack).
     if NR_TASKS + NR_NATIVE_PROCS \<le> i then Inr (pt(i := (pt i)\<lparr>p_flags := FREE_SLOT\<rparr>), p_task_stack)
     else
       let p_task = (if i < NR_TASKS then task_table label ! i else user_proc_table label ! (i - NR_TASKS));
           privilege = (if i < NR_TASKS then PRIVILEGE_TASK else PRIVILEGE_USER);
           rpl = (if i < NR_TASKS then 1 else 3);
           eflags = (if i < NR_TASKS then 0x1202 else 0x202);
           prio = (if i < NR_TASKS then 15 else 5)
       in bindE (boot_ldts elf h gdt (t_name p_task) privilege) (\<lambda>ldt.
          Inr (pt(i := (pt i)
            \<lparr>p_name := t_name p_task, p_parent := NO_TASK, ldts := ldt,
             regs := boot_regs rpl eflags (initial_eip p_task) p_task_stack (regs (pt i)),
             p_flags := 0, p_msg := 0, p_recvfrom := NO_TASK, p_sendto := NO_TASK, has_int_msg := 0,
             q_sending := None, next_sending := None, p_ticks := prio, p_priority := prio,
             filp := (\<lambda>_. None)\<rparr>),
            p_task_stack - of_nat (stacksize p_task))))"

fun boot_slots :: "elf_abi \<Rightarrow> memory \<Rightarrow> (string \<Rightarrow> u32) \<Rightarrow> descriptor list \<Rightarrow> nat \<Rightarrow>
    (nat \<Rightarrow> proc) \<times> u32 \<Rightarrow> ((nat \<Rightarrow> proc) \<times> u32) result" where
  "boot_slots elf h label gdt 0 st = Inr st"
| "boot_slots elf h label gdt (Suc n) st =
     bindE (boot_slots elf h label gdt n st) (boot_slot elf h label gdt n)"

text \<open>\<^verbatim>\<open>kernel_main\<close> up to the call of \<^verbatim>\<open>restart\<close>.\<close>

definition kernel_main :: "elf_abi \<Rightarrow> memory \<Rightarrow> (string \<Rightarrow> u32) \<Rightarrow> descriptor list \<Rightarrow> (nat \<Rightarrow> proc) \<Rightarrow> kstate result" where
  "kernel_main elf h label gdt pt =
     bindE (boot_slots elf h label gdt (NR_TASKS + NR_PROCS)
              (pt, label ''task_stack'' + of_nat STACK_SIZE_TOTAL)) (\<lambda>(pt, p_task_stack).
       let pt = pt(NR_TASKS + 0 := (pt (NR_TASKS + 0))\<lparr>nr_tty := 0\<rparr>);
           pt = pt(NR_TASKS + 1 := (pt (NR_TASKS + 1))\<lparr>nr_tty := 1\<rparr>);
           pt = pt(NR_TASKS + 2 := (pt (NR_TASKS + 2))\<lparr>nr_tty := 2\<rparr>)
       in Inr \<lparr>k_ticks = 0, k_reenter = 0, key_pressed = 0, p_proc_ready = 0, proc_table = pt, kmem = h\<rparr>)"

section \<open>The kernel map\<close>

lemma kernel_map_loop_bounds:
  assumes "kernel_map_loop elf h kf n (b0, t0) = (b, t)"
  shows "b \<le> b0 \<and> t0 \<le> t \<and> (\<forall>i<n. sh_flags elf h (section_header elf h kf i) AND SHF_ALLOC elf \<noteq> 0 \<longrightarrow>
    b \<le> sh_addr elf h (section_header elf h kf i) \<and>
    sh_addr elf h (section_header elf h kf i) + sh_size elf h (section_header elf h kf i) \<le> t)"
  using assms
proof (induction n arbitrary: b t)
  case 0
  then show ?case by simp
next
  case (Suc n)
  obtain b' t' where prev: "kernel_map_loop elf h kf n (b0, t0) = (b', t')"
    by fastforce
  note IH = Suc.IH [OF prev]
  have bt: "b \<le> b'" "t' \<le> t"
    "sh_flags elf h (section_header elf h kf n) AND SHF_ALLOC elf \<noteq> 0 \<Longrightarrow>
     b \<le> sh_addr elf h (section_header elf h kf n) \<and>
     sh_addr elf h (section_header elf h kf n) + sh_size elf h (section_header elf h kf n) \<le> t"
    using Suc.prems prev by (auto simp: Let_def split: if_splits)
  with IH show ?case
    by (auto simp: less_Suc_eq intro: order_trans)
qed

text \<open>
  The memory map \<^verbatim>\<open>get_kernel_map\<close> reports covers the kernel: every section that is loaded
  starts at or above the reported base and ends within base plus limit.
\<close>

theorem get_kernel_map_covers:
  assumes "get_kernel_map elf h = Inr (0, b, l)"
    and "kf = load32 h (BOOT_PARAM_ADDR + 8)" "i < unat (e_shnum elf h kf)"
    and "sh = section_header elf h kf i" "sh_flags elf h sh AND SHF_ALLOC elf \<noteq> 0"
  shows "b \<le> sh_addr elf h sh \<and> sh_addr elf h sh + sh_size elf h sh \<le> b + l + 1 \<and> b < b + l + 1"
proof -
  obtain b' t where loop: "kernel_map_loop elf h kf (unat (e_shnum elf h kf)) (NOT 0, 0) = (b', t)"
    by fastforce
  with assms(1, 2) have "b' < t" and bl: "b = b'" "b + l + 1 = t"
    by (auto simp: get_kernel_map_def get_boot_params_def bindE_eq_Inr split: if_splits)
  with kernel_map_loop_bounds [OF loop] assms(3-) show ?thesis
    by simp
qed

text \<open>An ELF image with one loaded section of 256 bytes at \<^verbatim>\<open>0x1000\<close>, for evaluation.\<close>

definition demo_elf :: elf_abi where
  "demo_elf = \<lparr>e_ident_off = 0, e_shnum = (\<lambda>_ _. 1), e_shoff = (\<lambda>_ _. 0x40), e_shentsize = (\<lambda>_ _. 0x28),
     sh_flags = (\<lambda>_ _. 2), sh_addr = (\<lambda>_ _. 0x1000), sh_size = (\<lambda>_ _. 0x100),
     ELFMAG = 0x20000, SELFMAG = 4, SHF_ALLOC = 2\<rparr>"

definition demo_mem :: memory where
  "demo_mem = store32 (store32 (\<lambda>_. 0) 0x900 0xB007) 0x908 0x10000"

lemma demo_load: "load32 demo_mem 0x900 = 0xB007" "load32 demo_mem 0x908 = 0x10000"
  by (simp_all add: demo_mem_def load32_def store32_def le32_def)

lemma demo_kernel_map: "get_kernel_map demo_elf demo_mem = Inr (0, 0x1000, 0xFF)"
  by (simp add: get_kernel_map_def get_boot_params_def demo_load)
    (simp add: demo_elf_def demo_mem_def memcmp_def load_bytes_def store32_def le32_def upt_conv_Cons)

theorem get_kernel_map_covers_witness:
  "(0x1000 :: u32) \<le> sh_addr demo_elf demo_mem (section_header demo_elf demo_mem 0x10000 0)
    \<and> sh_addr demo_elf demo_mem (section_header demo_elf demo_mem 0x10000 0)
      + sh_size demo_elf demo_mem (section_header demo_elf demo_mem 0x10000 0) \<le> 0x1000 + 0xFF + 1
    \<and> (0x1000 :: u32) < 0x1000 + 0xFF + 1"
  by (rule get_kernel_map_covers [OF demo_kernel_map _ _ refl])
    (simp_all add: demo_load, simp_all add: demo_elf_def)

section \<open>The interrupt table\<close>

lemma unat_u8: "unat (v :: u8) < 256"
  using unsigned_less [of v, where 'a = nat] by simp

lemma init_idt_desc_other:
  "n \<noteq> unat v \<Longrightarrow> init_idt_desc idt v t hn p ! n = idt ! n"
  by (simp add: init_idt_desc_def)

lemma init_idt_desc_attr:
  "unat v < length idt \<Longrightarrow> gate_attr (init_idt_desc idt v t hn p ! unat v) = t OR push_bit 5 p"
  by (simp add: init_idt_desc_def)

lemma idt_fold_other:
  "n \<notin> (\<lambda>(v, _). unat v) ` set es \<Longrightarrow>
   foldl (\<lambda>idt (v, hn, p). init_idt_desc idt v t (label hn) p) idt es ! n = idt ! n"
  by (induction es arbitrary: idt) (auto simp: init_idt_desc_other)

lemma idt_fold_entry:
  assumes "(v, hn, p) \<in> set es" "distinct (map fst es)" "length idt = IDT_SIZE"
  shows "foldl (\<lambda>idt (v, hn, p). init_idt_desc idt v t (label hn) p) idt es ! unat v
    = init_idt_desc idt v t (label hn) p ! unat v"
  using assms
proof (induction es arbitrary: idt)
  case (Cons e es)
  obtain v' hn' p' where e: "e = (v', hn', p')" by (cases e)
  show ?case
  proof (cases "v' = v")
    case True
    then have "v \<notin> fst ` set es"
      using Cons.prems e by auto
    then have "unat v \<notin> (\<lambda>(v, _). unat v) ` set es"
      by (auto simp: image_iff dest!: unsigned_word_eqI)
    moreover have "hn' = hn \<and> p' = p"
      using Cons.prems e True by (force simp: image_iff)
    ultimately show ?thesis
      using e True by (simp add: idt_fold_other)
  next
    case False
    have len: "length (init_idt_desc idt v' t (label hn') p') = IDT_SIZE"
      using Cons.prems by (simp add: init_idt_desc_def)
    have "unat v < length idt"
      using Cons.prems unat_u8 by simp
    then have "init_idt_desc (init_idt_desc idt v' t (label hn') p') v t (label hn) p ! unat v
        = init_idt_desc idt v t (label hn) p ! unat v"
      by (simp add: init_idt_desc_def)
    with Cons e False len show ?thesis by auto
  qed
qed simp

text \<open>
  After \<^verbatim>\<open>init_prot\<close> every exception, hardware interrupt and the system call has a gate that
  leads to its own handler, all other entries are untouched, and the system call's gate
  (vector \<^verbatim>\<open>0x90\<close>) is the only one that code in ring 1 or 3 can call: the others have
  descriptor privilege level 0.
\<close>

theorem init_idt_gates:
  assumes "length idt = IDT_SIZE"
  shows "(\<forall>(v, handler, privilege) \<in> set idt_entries.
      gate_offset (init_idt label idt ! unat v) = label handler \<and>
      gate_attr (init_idt label idt ! unat v) = (if v = INT_VECTOR_SYS_CALL then 0xEE else 0x8E))
    \<and> (\<forall>n. n \<notin> (\<lambda>(v, _). unat v) ` set idt_entries \<longrightarrow> init_idt label idt ! n = idt ! n)"
proof -
  have dist: "distinct (map fst idt_entries)"
    by (simp add: idt_entries_def)
  have priv: "p = (if v = INT_VECTOR_SYS_CALL then 3 else 0)" if "(v, hn, p) \<in> set idt_entries" for v hn p
    using that by (auto simp: idt_entries_def)
  have "gate_offset (init_idt label idt ! unat v) = label hn \<and>
      gate_attr (init_idt label idt ! unat v) = (if v = INT_VECTOR_SYS_CALL then 0xEE else 0x8E)"
    if e: "(v, hn, p) \<in> set idt_entries" for v hn p
  proof -
    have v: "unat v < length idt"
      using assms unat_u8 by simp
    show ?thesis
      unfolding init_idt_def idt_fold_entry [OF e dist assms]
      using v gate_offset_init [OF v] init_idt_desc_attr [OF v] priv [OF e] by auto
  qed
  then show ?thesis
    by (auto simp: init_idt_def idt_fold_other)
qed

theorem init_idt_gates_witness:
  "gate_attr (init_idt (\<lambda>_. 0x1234) (replicate IDT_SIZE \<lparr>offset_low = 0, selector = 0, dcount = 0,
     gate_attr = 0, offset_high = 0\<rparr>) ! unat (INT_VECTOR_SYS_CALL :: u8)) = 0xEE"
proof -
  let ?idt = "replicate IDT_SIZE \<lparr>offset_low = 0, selector = 0, dcount = 0, gate_attr = 0, offset_high = 0\<rparr>"
  have "length ?idt = IDT_SIZE" by simp
  moreover have "(INT_VECTOR_SYS_CALL, ''sys_call'', PRIVILEGE_USER) \<in> set idt_entries"
    by (simp add: idt_entries_def)
  ultimately show ?thesis
    using init_idt_gates [of ?idt "\<lambda>_. 0x1234"] by fastforce
qed

section \<open>Task state segment and local descriptor tables\<close>

definition flat_gdt :: "descriptor list \<Rightarrow> bool" where
  "flat_gdt gdt \<longleftrightarrow> length gdt = GDT_SIZE \<and> (\<forall>i<3. desc_base (gdt ! i) = 0)"

lemma makelinear_flat:
  assumes "flat_gdt gdt"
  shows "makelinear gdt SELECTOR_KERNEL_DS off = Inr off" "makelinear gdt 0 off = Inr off"
    "seg2linear gdt SELECTOR_KERNEL_DS = Inr 0"
  using assms by (simp_all add: makelinear_def seg2linear_def flat_gdt_def drop_bit_eq_div Let_def)

lemma flat_gdt_update: "flat_gdt gdt \<Longrightarrow> 3 \<le> i \<Longrightarrow> flat_gdt (gdt[i := d])"
  by (simp add: flat_gdt_def)

definition ldt_entry :: "(string \<Rightarrow> u32) \<Rightarrow> nat \<Rightarrow> descriptor" where
  "ldt_entry label i = init_descriptor (proc_ldts_addr label i) 15 DA_LDT"

lemma init_ldts_correct:
  assumes "flat_gdt gdt" "n \<le> nr_slots"
  shows "\<exists>gdt' pt'. init_ldts label n (gdt, pt) = Inr (gdt', pt') \<and> flat_gdt gdt' \<and>
    (\<forall>i<n. gdt' ! (INDEX_LDT_FIRST + i) = ldt_entry label i \<and>
       pt' i = zero_proc\<lparr>ldt_sel := SELECTOR_LDT_FIRST + push_bit 3 (of_nat i)\<rparr>) \<and>
    (\<forall>j. j < INDEX_LDT_FIRST \<or> INDEX_LDT_FIRST + n \<le> j \<longrightarrow> gdt' ! j = gdt ! j) \<and> (\<forall>i\<ge>n. pt' i = pt i)"
  using assms(2)
proof (induction n)
  case 0
  with assms show ?case by simp
next
  case (Suc n)
  then obtain gdt' pt' where prev: "init_ldts label n (gdt, pt) = Inr (gdt', pt')" "flat_gdt gdt'"
    "\<forall>i<n. gdt' ! (INDEX_LDT_FIRST + i) = ldt_entry label i \<and>
       pt' i = zero_proc\<lparr>ldt_sel := SELECTOR_LDT_FIRST + push_bit 3 (of_nat i)\<rparr>"
    "\<forall>j. j < INDEX_LDT_FIRST \<or> INDEX_LDT_FIRST + n \<le> j \<longrightarrow> gdt' ! j = gdt ! j" "\<forall>i\<ge>n. pt' i = pt i"
    by auto
  let ?gdt = "gdt'[INDEX_LDT_FIRST + n := ldt_entry label n]"
  let ?pt = "pt'(n := zero_proc\<lparr>ldt_sel := SELECTOR_LDT_FIRST + push_bit 3 (of_nat n)\<rparr>)"
  have step: "init_ldts label (Suc n) (gdt, pt) = Inr (?gdt, ?pt)"
    using prev(1) Suc.prems by (simp add: init_ldt_def makelinear_flat [OF prev(2)] ldt_entry_def)
  have len: "length gdt' = 128" using prev(2) by (simp add: flat_gdt_def)
  show ?case
  proof (intro exI [of _ ?gdt] exI [of _ ?pt] conjI)
    show "flat_gdt ?gdt"
      using prev(2) by (rule flat_gdt_update) simp
    show "\<forall>i<Suc n. ?gdt ! (INDEX_LDT_FIRST + i) = ldt_entry label i \<and>
        ?pt i = zero_proc\<lparr>ldt_sel := SELECTOR_LDT_FIRST + push_bit 3 (of_nat i)\<rparr>"
      using prev(3) Suc.prems len by (auto simp: less_Suc_eq nth_list_update)
    show "\<forall>j. j < INDEX_LDT_FIRST \<or> INDEX_LDT_FIRST + Suc n \<le> j \<longrightarrow> ?gdt ! j = gdt ! j"
      using prev(4) by (auto simp: nth_list_update)
    show "\<forall>i\<ge>Suc n. ?pt i = pt i"
      using prev(5) by auto
  qed (rule step)
qed

lemma ldt_selector_index:
  assumes "i < nr_slots"
  shows "unat (drop_bit 3 (SELECTOR_LDT_FIRST + push_bit 3 (of_nat i :: u16))) = INDEX_LDT_FIRST + i"
proof -
  have "unat (SELECTOR_LDT_FIRST + push_bit 3 (of_nat i :: u16)) = 8 * (5 + i)"
    using assms by (simp add: push_bit_eq_mult unat_word_ariths unat_of_nat)
  then show ?thesis
    unfolding unat_drop_bit_eq by (simp add: drop_bit_eq_div)
qed

lemma init_prot_run:
  assumes "flat_gdt gdt"
  obtains gdt' pt' where
    "init_prot label gdt idt pt = Inr (gdt', init_idt label idt, zero_tss\<lparr>tss_ss0 := SELECTOR_KERNEL_DS,
      tss_iobase := sizeof_tss\<rparr>, pt')"
    "flat_gdt gdt'" "gdt' ! INDEX_TSS = init_descriptor (label ''tss'') 103 DA_386TSS"
    "\<And>i. i < nr_slots \<Longrightarrow> gdt' ! (INDEX_LDT_FIRST + i) = ldt_entry label i"
    "\<And>i. i < nr_slots \<Longrightarrow> pt' i = zero_proc\<lparr>ldt_sel := SELECTOR_LDT_FIRST + push_bit 3 (of_nat i)\<rparr>"
    "\<And>j. j < INDEX_TSS \<Longrightarrow> gdt' ! j = gdt ! j"
proof -
  let ?gdt = "gdt[INDEX_TSS := init_descriptor (label ''tss'') (sizeof_tss - 1) DA_386TSS]"
  have "flat_gdt ?gdt"
    using assms by (rule flat_gdt_update) simp
  from init_ldts_correct [OF this, of nr_slots label pt] obtain gdt' pt' where
    ldts: "init_ldts label nr_slots (?gdt, pt) = Inr (gdt', pt')" and flat: "flat_gdt gdt'"
    and entry: "\<And>i. i < nr_slots \<Longrightarrow> gdt' ! (INDEX_LDT_FIRST + i) = ldt_entry label i"
      "\<And>i. i < nr_slots \<Longrightarrow> pt' i = zero_proc\<lparr>ldt_sel := SELECTOR_LDT_FIRST + push_bit 3 (of_nat i)\<rparr>"
    and keep: "\<And>j. j < INDEX_LDT_FIRST \<Longrightarrow> gdt' ! j = ?gdt ! j"
    by auto
  have "init_prot label gdt idt pt = Inr (gdt', init_idt label idt, zero_tss\<lparr>tss_ss0 := SELECTOR_KERNEL_DS,
      tss_iobase := sizeof_tss\<rparr>, pt')"
    using ldts by (simp add: init_prot_def makelinear_flat [OF assms])
  moreover have "gdt' ! INDEX_TSS = init_descriptor (label ''tss'') 103 DA_386TSS"
    using keep [of INDEX_TSS] assms by (simp add: flat_gdt_def)
  moreover have "gdt' ! j = gdt ! j" if "j < INDEX_TSS" for j
    using keep [of j] that by simp
  ultimately show thesis
    using that flat entry by blast
qed

text \<open>
  C14. When the GDT has the flat segments of the boot loader (every descriptor in front of the TSS has base 0, \<open>flat_gdt\<close>), \<^verbatim>\<open>init_prot\<close> succeeds, and then the
  selector stored in every process table entry picks the descriptor of that process's own LDT out of the GDT, the TSS descriptor points at \<^verbatim>\<open>tss\<close>, and the
  loader's own descriptors are kept. The condition is needed: line 94 gives \<^verbatim>\<open>makelinear\<close>, which takes a selector, the base it has already looked up, so that with a
  kernel data segment at another base the address in the TSS descriptor would be wrong.
\<close>

theorem init_prot_descriptors:
  assumes "flat_gdt gdt"
  shows "\<exists>gdt' idt' tss pt'. init_prot label gdt idt pt = Inr (gdt', idt', tss, pt') \<and>
    (\<forall>i<nr_slots. seg2linear gdt' (ldt_sel (pt' i)) = Inr (proc_ldts_addr label i) \<and>
       desc_limit (gdt' ! unat (drop_bit 3 (ldt_sel (pt' i)))) = 15) \<and>
    desc_base (gdt' ! INDEX_TSS) = label ''tss'' \<and> desc_limit (gdt' ! INDEX_TSS) = 103 \<and>
    tss_ss0 tss = SELECTOR_KERNEL_DS \<and> (\<forall>j<INDEX_TSS. gdt' ! j = gdt ! j)"
proof (rule init_prot_run [OF assms, of label idt pt])
  fix gdt' pt'
  assume run: "init_prot label gdt idt pt = Inr (gdt', init_idt label idt, zero_tss\<lparr>tss_ss0 := SELECTOR_KERNEL_DS,
      tss_iobase := sizeof_tss\<rparr>, pt')"
    and flat: "flat_gdt gdt'" and tss: "gdt' ! INDEX_TSS = init_descriptor (label ''tss'') 103 DA_386TSS"
    and entry: "\<And>i. i < nr_slots \<Longrightarrow> gdt' ! (INDEX_LDT_FIRST + i) = ldt_entry label i"
      "\<And>i. i < nr_slots \<Longrightarrow> pt' i = zero_proc\<lparr>ldt_sel := SELECTOR_LDT_FIRST + push_bit 3 (of_nat i)\<rparr>"
    and keep: "\<And>j. j < INDEX_TSS \<Longrightarrow> gdt' ! j = gdt ! j"
  have "seg2linear gdt' (ldt_sel (pt' i)) = Inr (proc_ldts_addr label i)"
    "desc_limit (gdt' ! unat (drop_bit 3 (ldt_sel (pt' i)))) = 15" if "i < nr_slots" for i
    using that flat entry [OF that]
    by (simp_all add: seg2linear_def flat_gdt_def ldt_selector_index ldt_entry_def desc_simps Let_def)
  then show ?thesis
    unfolding run using keep by (auto simp: tss desc_simps)
qed

lemma demo_flat: "flat_gdt (replicate GDT_SIZE zero_descriptor)"
  by (simp add: flat_gdt_def zero_descriptor_def desc_base_def)

theorem init_prot_descriptors_witness:
  "\<exists>gdt' idt' tss pt'. init_prot (\<lambda>_. 0x30000) (replicate GDT_SIZE zero_descriptor) [] (\<lambda>_. zero_proc)
      = Inr (gdt', idt', tss, pt') \<and> desc_base (gdt' ! INDEX_TSS) = 0x30000"
  using init_prot_descriptors [OF demo_flat, of "\<lambda>_. 0x30000" "[]" "\<lambda>_. zero_proc"] by blast

section \<open>The state in which the first process starts\<close>

text \<open>What \<^verbatim>\<open>boot_slot\<close> leaves in slot \<open>i\<close>.\<close>

definition booted :: "(nat \<Rightarrow> proc) \<Rightarrow> (string \<Rightarrow> u32) \<Rightarrow> nat \<Rightarrow> proc \<Rightarrow> bool" where
  "booted pt label i p \<longleftrightarrow>
     (if NR_TASKS + NR_NATIVE_PROCS \<le> i then p = (pt i)\<lparr>p_flags := FREE_SLOT\<rparr>
      else p_flags p = 0 \<and> p_msg p = 0 \<and> p_recvfrom p = NO_TASK \<and> p_sendto p = NO_TASK \<and>
        has_int_msg p = 0 \<and> q_sending p = None \<and> next_sending p = None \<and>
        desc_base (ldts p INDEX_LDT_RW) = 0 \<and> desc_base (ldts p INDEX_LDT_C) = 0 \<and>
        p_ticks p = p_priority p \<and> 0 < p_priority p \<and> ldt_sel p = ldt_sel (pt i) \<and>
        r_esp (regs p) = label ''task_stack'' + of_nat (STACK_SIZE_TOTAL - i * STACK_SIZE_DEFAULT))"

lemma booted_free: "9 \<le> i \<Longrightarrow> booted pt label i p \<longleftrightarrow> p = (pt i)\<lparr>p_flags := FREE_SLOT\<rparr>"
  by (simp add: booted_def)

lemma desc_base_attr1 [simp]: "desc_base (d\<lparr>attr1 := a\<rparr>) = desc_base d"
  by (simp add: desc_base_def)

lemma boot_ldts_base:
  assumes "flat_gdt gdt" "get_kernel_map elf h = Inr (0, b, l)"
  shows "\<exists>ldt. boot_ldts elf h gdt name privilege = Inr ldt \<and>
    desc_base (ldt INDEX_LDT_RW) = 0 \<and> desc_base (ldt INDEX_LDT_C) = 0"
  using assms by (simp add: boot_ldts_def flat_gdt_def desc_base_init Let_def)

lemma boot_task_stacksize:
  assumes "i < NR_TASKS + NR_NATIVE_PROCS"
  shows "stacksize (if i < NR_TASKS then task_table label ! i else user_proc_table label ! (i - NR_TASKS)) = STACK_SIZE_DEFAULT"
proof -
  have "i \<in> set [0..<9]" using assms by simp
  then show ?thesis
    by (simp del: set_upt add: upt_conv_Cons)
      (auto simp: task_table_def user_proc_table_def)
qed

lemma boot_slots_correct:
  assumes "flat_gdt gdt" "get_kernel_map elf h = Inr (0, b, l)" "n \<le> nr_slots"
  shows "\<exists>pt' sp. boot_slots elf h label gdt n (pt, label ''task_stack'' + of_nat STACK_SIZE_TOTAL) = Inr (pt', sp) \<and>
    (\<forall>i<n. booted pt label i (pt' i)) \<and> (\<forall>i\<ge>n. pt' i = pt i) \<and>
    sp = label ''task_stack'' + of_nat (STACK_SIZE_TOTAL - min n 9 * STACK_SIZE_DEFAULT)"
  using assms(3)
proof (induction n)
  case 0
  then show ?case by simp
next
  case (Suc n)
  then obtain pt' sp where
    prev: "boot_slots elf h label gdt n (pt, label ''task_stack'' + of_nat STACK_SIZE_TOTAL) = Inr (pt', sp)"
    and slots: "\<forall>i<n. booted pt label i (pt' i)" "\<forall>i\<ge>n. pt' i = pt i"
    and sp: "sp = label ''task_stack'' + of_nat (STACK_SIZE_TOTAL - min n 9 * STACK_SIZE_DEFAULT)"
    by auto
  show ?case
  proof (cases "9 \<le> n")
    case True
    with prev slots sp show ?thesis
      by (auto simp: boot_slot_def booted_free less_Suc_eq)
  next
    case False
    define task where "task = (if n < NR_TASKS then task_table label ! n else user_proc_table label ! (n - NR_TASKS))"
    obtain ldt where ldt: "boot_ldts elf h gdt (t_name task) (if n < NR_TASKS then PRIVILEGE_TASK else PRIVILEGE_USER) = Inr ldt"
      "desc_base (ldt INDEX_LDT_RW) = 0" "desc_base (ldt INDEX_LDT_C) = 0"
      using boot_ldts_base [OF assms(1, 2)] by blast
    have stack: "stacksize task = STACK_SIZE_DEFAULT"
      using False boot_task_stacksize [of n label] by (simp add: task_def)
    have "sp - of_nat (stacksize task) = label ''task_stack'' + of_nat (STACK_SIZE_TOTAL - min (Suc n) 9 * STACK_SIZE_DEFAULT)"
      using False by (simp add: stack sp of_nat_diff min_def)
    with False prev slots sp ldt show ?thesis
      by (auto simp: boot_slot_def booted_def less_Suc_eq Let_def boot_regs_def task_def [symmetric] min_def)
  qed
qed

lemma kernel_main_correct:
  assumes "flat_gdt gdt" "get_kernel_map elf h = Inr (0, b, l)"
    and "\<And>i. i < nr_slots \<Longrightarrow> pt i = zero_proc\<lparr>ldt_sel := SELECTOR_LDT_FIRST + push_bit 3 (of_nat i)\<rparr>"
  shows "\<exists>s. kernel_main elf h label gdt pt = Inr s \<and> ipc_rel s boot_ipc \<and> segs_ok s \<and> p_proc_ready s = 0
    \<and> k_reenter s = 0 \<and> k_ticks s = 0 \<and>
    (\<forall>i < NR_TASKS + NR_NATIVE_PROCS. 0 < p_priority (proc_table s i) \<and>
       p_ticks (proc_table s i) = p_priority (proc_table s i) \<and>
       r_esp (regs (proc_table s i)) = label ''task_stack'' + of_nat (STACK_SIZE_TOTAL - i * STACK_SIZE_DEFAULT))"
proof -
  obtain pt' sp where
    run: "boot_slots elf h label gdt nr_slots (pt, label ''task_stack'' + of_nat STACK_SIZE_TOTAL) = Inr (pt', sp)"
    and slot: "\<And>i. i < nr_slots \<Longrightarrow> booted pt label i (pt' i)"
    using boot_slots_correct [OF assms(1, 2) order_refl, of label pt] by auto
  define pt'' where "pt'' = pt'(5 := (pt' 5)\<lparr>nr_tty := 0\<rparr>, 6 := (pt' 6)\<lparr>nr_tty := 1\<rparr>, 7 := (pt' 7)\<lparr>nr_tty := 2\<rparr>)"
  let ?s = "\<lparr>k_ticks = 0, k_reenter = 0, key_pressed = 0, p_proc_ready = 0, proc_table = pt'', kmem = h\<rparr>"
  have slot': "booted pt label i (pt'' i)" if "i < nr_slots" for i
    using slot [OF that] by (auto simp: pt''_def booted_def)
  have "kernel_main elf h label gdt pt = Inr ?s"
    using run by (simp add: kernel_main_def pt''_def Let_def)
  moreover have "ipc_rel ?s boot_ipc"
    using slot' assms(3) by (auto simp: ipc_rel_def boot_ipc_def booted_def zero_proc_def split: if_splits)
  moreover have "desc_base (ldts (pt'' i) INDEX_LDT_RW) = 0" if "i < 9" for i
    using slot' [of i] that by (simp add: booted_def)
  then have "segs_ok ?s"
    by (simp add: segs_ok_def ldt_seg_linear_def)
  ultimately show ?thesis
    using slot' by (auto simp: booted_def)
qed

end
