(* ===== verification/Kernel.thy ===== *)
theory Kernel
  imports Boot
begin

text \<open>
  The kernel as a whole: the interrupt handlers of \<^verbatim>\<open>kernel/clock.c\<close>, \<^verbatim>\<open>kernel/hd.c\<close> and
  \<^verbatim>\<open>kernel/keyboard.c\<close>, the way \<^verbatim>\<open>kernel/kernel.asm\<close> enters them, and the step relation of the
  running system. The entry code executes \<^verbatim>\<open>sti\<close> before it calls the C function of a system call
  (line 317) or the handler of an interrupt (lines 106 and 166), so further interrupts are taken
  while an event is handled, with \<^verbatim>\<open>k_reenter\<close> counting the depth. The step relation takes such
  nested interrupts, themselves nested to any depth, after the \<^verbatim>\<open>sti\<close> and before the C function
  starts, and after the C function returns and before the \<^verbatim>\<open>cli\<close>. An interrupt in the middle of
  the C function is not a step: the kernel does not survive one in the wrong place, which the
  theory \<^verbatim>\<open>Race\<close> proves.
\<close>

section \<open>The clock interrupt\<close>

definition clock_handler :: "kstate \<Rightarrow> kstate result" where
  "clock_handler s =
     (let s = s\<lparr>k_ticks := (if k_ticks s + 1 \<ge> MAX_TICKS then 0 else k_ticks s + 1)\<rparr>;
          s = (if p_ticks (proc_table s (p_proc_ready s)) \<noteq> 0
               then upd_proc (p_proc_ready s) (\<lambda>p. p\<lparr>p_ticks := p_ticks p - 1\<rparr>) s else s)
      in bindE (if key_pressed s \<noteq> 0 then inform_int s TASK_TTY else Inr s) (\<lambda>s.
         if k_reenter s \<noteq> 0 then Inr s
         else if p_ticks (proc_table s (p_proc_ready s)) > 0 then Inr s
         else returns 32 (schedule s)))"

text \<open>\<^verbatim>\<open>init_clock\<close>: the bytes written to the timer's ports.\<close>

abbreviation (input) TIMER_FREQ :: u32 where "TIMER_FREQ \<equiv> 1193182"

definition init_clock :: "(u16 \<times> u8) list" where
  "init_clock =
     [(0x43, 0x34), (0x40, ucast (TIMER_FREQ div 100)),
      (0x40, ucast (drop_bit 8 (ucast (ucast (TIMER_FREQ div 100) :: u8) :: u32)))]"

section \<open>The kernel invariant\<close>

definition kernel_ok :: "kstate \<Rightarrow> ipc \<Rightarrow> bool" where
  "kernel_ok s a \<longleftrightarrow> ipc_rel s a \<and> ipc_ok a \<and> segs_ok s \<and> k_reenter s = 0 \<and>
     0 \<le> k_ticks s \<and> k_ticks s < MAX_TICKS \<and>
     runnable (proc_table s) (p_proc_ready s) \<and>
     (\<forall>i<nr_slots. stat a i \<noteq> Unused \<longrightarrow> 0 < p_priority (proc_table s i) \<and> 0 \<le> p_ticks (proc_table s i))"

text \<open>What one event keeps of the state besides the message layer.\<close>

definition kernel_frame :: "kstate \<Rightarrow> kstate \<Rightarrow> bool" where
  "kernel_frame s t \<longleftrightarrow> k_reenter t = k_reenter s \<and>
     (\<forall>i. ldts (proc_table t i) = ldts (proc_table s i) \<and>
          p_priority (proc_table t i) = p_priority (proc_table s i) \<and>
          (p_ticks (proc_table t i) = p_ticks (proc_table s i)
           \<or> p_ticks (proc_table t i) = p_priority (proc_table s i)))"

lemma slot_ready_iff: "slot_rel i p st \<Longrightarrow> p_flags p = 0 \<longleftrightarrow> st = Ready"
  by (cases st) auto

lemma runnable_iff_ready:
  "ipc_rel s a \<Longrightarrow> runnable (proc_table s) i \<longleftrightarrow> i < nr_slots \<and> stat a i = Ready"
  unfolding runnable_def using slot_ready_iff [OF ipc_relD(1)] by blast

lemma kernel_frame_refl [simp]: "kernel_frame s s"
  by (simp add: kernel_frame_def)

lemma kernel_frame_schedule:
  assumes "schedule s = Some s'"
  shows "kernel_frame s s'"
  using assms
  by (cases rule: schedule_cases) (auto simp: kernel_frame_def schedule_refill_def)

lemma kernel_frame_trans: "kernel_frame s t \<Longrightarrow> kernel_frame t u \<Longrightarrow> kernel_frame s u"
  unfolding kernel_frame_def by metis

lemma segs_ok_frame: "kernel_frame s t \<Longrightarrow> segs_ok t = segs_ok s"
  by (simp add: kernel_frame_def segs_ok_def ldt_seg_linear_def)

text \<open>The conditions under which an event re-establishes the invariant.\<close>

lemma kernel_okI:
  assumes ok: "kernel_ok s a" and rel: "ipc_rel t a'" "ipc_ok a'" and frame: "kernel_frame s t"
    and ticks: "0 \<le> k_ticks t" "k_ticks t < MAX_TICKS" and run: "runnable (proc_table t) (p_proc_ready t)"
    and unused: "\<And>i. i < nr_slots \<Longrightarrow> stat a' i \<noteq> Unused \<Longrightarrow> stat a i \<noteq> Unused"
  shows "kernel_ok t a'"
proof -
  have "0 < p_priority (proc_table t i) \<and> 0 \<le> p_ticks (proc_table t i)"
    if i: "i < nr_slots" "stat a' i \<noteq> Unused" for i
  proof -
    have "p_priority (proc_table t i) = p_priority (proc_table s i)"
      "p_ticks (proc_table t i) = p_ticks (proc_table s i) \<or> p_ticks (proc_table t i) = p_priority (proc_table s i)"
      using frame by (simp_all add: kernel_frame_def)
    moreover have "0 < p_priority (proc_table s i)" "0 \<le> p_ticks (proc_table s i)"
      using ok unused [OF i] i by (simp_all add: kernel_ok_def)
    ultimately show ?thesis by auto
  qed
  with assms segs_ok_frame [OF frame] show ?thesis
    by (auto simp: kernel_ok_def kernel_frame_def)
qed

lemma spec_unused:
  "c < nr_slots \<Longrightarrow> stat a c = Ready \<Longrightarrow> stat (spec_send c d a) i \<noteq> Unused \<Longrightarrow> stat a i \<noteq> Unused"
  "ipc_ok a \<Longrightarrow> c < nr_slots \<Longrightarrow> stat a c = Ready \<Longrightarrow>
   stat (spec_receive c src a) i \<noteq> Unused \<Longrightarrow> stat a i \<noteq> Unused"
  "stat (spec_interrupt c a) i \<noteq> Unused \<Longrightarrow> stat a i \<noteq> Unused"
proof -
  show "stat (spec_interrupt c a) i \<noteq> Unused \<Longrightarrow> stat a i \<noteq> Unused"
    by (auto simp: spec_interrupt_def split: if_splits)
  show "c < nr_slots \<Longrightarrow> stat a c = Ready \<Longrightarrow> stat (spec_send c d a) i \<noteq> Unused \<Longrightarrow> stat a i \<noteq> Unused"
    by (auto simp: spec_send_def accepts_def split: if_splits)
  assume a: "ipc_ok a" "c < nr_slots" "stat a c = Ready" and "stat (spec_receive c src a) i \<noteq> Unused"
  moreover have "stat a f \<noteq> Unused" if "f \<in> set (sendq a c)" for f
    using that ipc_ok_queue(2) [OF a(1, 2), of f] by simp
  moreover have "hd (sendq a c) \<in> set (sendq a c)" if "sendq a c \<noteq> []"
    using that by simp
  ultimately show "stat a i \<noteq> Unused"
    by (auto simp: spec_receive_def spec_release_def split: if_splits)
qed

lemma kernel_okD:
  assumes "kernel_ok s a"
  shows "ipc_rel s a" "ipc_ok a" "segs_ok s" "k_reenter s = 0" "0 \<le> k_ticks s" "k_ticks s < MAX_TICKS"
    "p_proc_ready s < nr_slots" "stat a (p_proc_ready s) = Ready" "runnable (proc_table s) (p_proc_ready s)"
  using assms by (auto simp: kernel_ok_def runnable_iff_ready)

lemma kernel_ok_kmem [simp]: "kernel_ok (s\<lparr>kmem := h\<rparr>) a = kernel_ok s a"
  by (simp add: kernel_ok_def segs_ok_def)

lemma kernel_ok_schedule:
  assumes ok: "kernel_ok s a" and rel: "ipc_rel t a'" "ipc_ok a'" and frame: "kernel_frame s t"
    and ticks: "k_ticks t = k_ticks s" and sch: "schedule t = Some s'"
    and unused: "\<And>i. i < nr_slots \<Longrightarrow> stat a' i \<noteq> Unused \<Longrightarrow> stat a i \<noteq> Unused"
  shows "kernel_ok s' a'"
proof (rule kernel_okI [OF ok])
  show "ipc_rel s' a'" using rel(1) by (simp add: ipc_rel_schedule [OF sch])
  show "kernel_frame s s'" using frame kernel_frame_schedule [OF sch] by (rule kernel_frame_trans)
  show "0 \<le> k_ticks s'" "k_ticks s' < MAX_TICKS"
    using kernel_okD(5, 6) [OF ok] ticks by (simp_all add: schedule_frame [OF sch])
qed (use rel(2) unused schedule_ready [OF sch] in auto)

lemma kernel_ok_send:
  assumes ok: "kernel_ok s a" and d: "d < nr_slots" "d \<noteq> p_proc_ready s" and m: "m \<noteq> 0"
    and run: "msg_send s (p_proc_ready s) (int d) m = Inr s'"
  shows "kernel_ok s' (spec_send (p_proc_ready s) d a)"
proof -
  note k = kernel_okD [OF ok]
  note unused = spec_unused(1) [OF k(7, 8)]
  show ?thesis
  proof (cases rule: msg_send_cases [OF k(1-3, 7, 8) d m, case_names cycle deliver wait])
    case cycle
    with run show ?thesis by simp
  next
    case (deliver h p)
    have ok': "ipc_ok (spec_send (p_proc_ready s) d a)"
      using ipc_ok_spec_send [OF k(2, 7, 8) d deliver(1)] .
    from deliver run have s': "s' = s\<lparr>kmem := h, proc_table := (proc_table s)(d := p)\<rparr>"
      by simp
    have "ipc_rel s' (spec_send (p_proc_ready s) d a)"
      using deliver s' by simp
    moreover have "kernel_frame s s'" "runnable (proc_table s') (p_proc_ready s')"
      using deliver(3) k(9) s' d by (auto simp: kernel_frame_def runnable_def)
    ultimately show ?thesis
      using k ok' s' by (intro kernel_okI [OF ok]) (auto dest: unused)
  next
    case (wait t)
    have ok': "ipc_ok (spec_send (p_proc_ready s) d a)"
      using ipc_ok_spec_send [OF k(2, 7, 8) d wait(1)] .
    have "kernel_frame s t"
      using wait by (simp add: kernel_frame_def)
    moreover have "schedule t = Some s'"
      using wait(3) run by (cases "schedule t") simp_all
    ultimately show ?thesis
      using wait ok' by (intro kernel_ok_schedule [OF ok, of t]) (auto dest: unused)
  qed
qed

lemma kernel_ok_receive:
  assumes ok: "kernel_ok s a" and src: "valid_src (p_proc_ready s) src" and m: "m \<noteq> 0"
    and run: "msg_receive s (p_proc_ready s) src m = Inr s'"
  shows "kernel_ok s' (spec_receive (p_proc_ready s) src a)"
proof -
  let ?c = "p_proc_ready s"
  note k = kernel_okD [OF ok]
  note unused = spec_unused(2) [OF k(2, 7, 8)]
  have ok': "ipc_ok (spec_receive ?c src a)"
    using ipc_ok_spec_receive [OF k(2, 7, 8)] .
  show ?thesis
  proof (cases rule: msg_receive_cases [OF k(1-3, 7, 8) m src, case_names interrupt take wait])
    case interrupt
    with run k m have s': "s' = s\<lparr>kmem := store_bytes (kmem s) (linear s ?c m) interrupt_msg,
        proc_table := (proc_table s)(?c := (proc_table s ?c)\<lparr>has_int_msg := 0\<rparr>)\<rparr>"
      by (simp add: msg_receive_interrupt)
    have "ipc_rel s' (spec_receive ?c src a)"
      using k(1, 7, 8) interrupt(3) unfolding s' ipc_rel_def by auto
    then show ?thesis
      using k ok' unfolding s'
      by (intro kernel_okI [OF ok]) (auto simp: kernel_frame_def runnable_def dest: unused)
  next
    case (take ys f zs)
    have "src \<noteq> int ?c" using src by (simp add: valid_src_def)
    then obtain t where t: "msg_receive s ?c src m = Inr t" "ipc_rel t (spec_release ?c f a)"
      "p_proc_ready t = p_proc_ready s" "k_reenter t = k_reenter s" "k_ticks t = k_ticks s"
      "\<And>i. ldts (proc_table t i) = ldts (proc_table s i)"
      "\<And>i. p_ticks (proc_table t i) = p_ticks (proc_table s i)"
      "\<And>i. p_priority (proc_table t i) = p_priority (proc_table s i)"
      by (rule msg_receive_take [OF k(1-3, 7, 8) m _ take(1, 2, 4)]) blast
    have "f \<noteq> ?c"
      using take(2) ipc_ok_queue(2) [OF k(2, 7), of f] k(8) by auto
    then have "runnable (proc_table t) (p_proc_ready t)"
      using runnable_iff_ready [OF t(2)] t(3) k(7, 8) by (simp add: spec_release_def)
    moreover have "kernel_frame s t"
      using t by (simp add: kernel_frame_def)
    ultimately show ?thesis
      using t run take(5) ok' k unused [of src] by (intro kernel_okI [OF ok]) auto
  next
    case wait
    have "kernel_frame s (waiting s ?c src m)"
      by (auto simp: kernel_frame_def waiting_def)
    moreover have "schedule (waiting s ?c src m) = Some s'"
      using run msg_receive_wait [OF k(1, 7, 8) m src wait(1, 3)] by (auto simp: bindE_eq_Inr)
    moreover have "ipc_rel (waiting s ?c src m) (spec_receive ?c src a)"
      using ipc_rel_waiting [OF k(1, 7, 8) m src] wait(4) by simp
    ultimately show ?thesis
      using ok' by (intro kernel_ok_schedule [OF ok, of "waiting s ?c src m"])
        (auto simp: waiting_def dest: unused)
  qed
qed

section \<open>System calls\<close>

lemma enqueue_sender_msg:
  "enqueue_sender s d c = Inr t \<Longrightarrow> p_msg (proc_table t i) = p_msg (proc_table s i)"
  by (cases "q_sending (proc_table s d)") (auto simp: enqueue_sender_def bindE_eq_Inr)

lemma msg_send_null: "msg_send s c d 0 \<noteq> Inr t"
  by (auto simp: msg_send_def bindE_eq_Inr Let_def block_def schedule_frame enqueue_sender_msg
      split: if_splits)

lemma msg_receive_null: "msg_receive s c src 0 \<noteq> Inr t"
  by (auto simp: msg_receive_def bindE_eq_Inr Let_def block_def schedule_frame split: if_splits option.splits)

definition sendrec_spec :: "int \<Rightarrow> nat \<Rightarrow> int \<Rightarrow> ipc \<Rightarrow> ipc" where
  "sendrec_spec fn c src_dest a = (if fn = SEND then spec_send c (nat src_dest) a else spec_receive c src_dest a)"

definition mark_source :: "kstate \<Rightarrow> nat \<Rightarrow> u32 \<Rightarrow> kstate" where
  "mark_source s c m = s\<lparr>kmem := store32 (kmem s) (linear s c m + msg_source_off) (of_nat c)\<rparr>"

lemma sys_sendrec_unfold:
  assumes "kernel_ok s a"
  shows "sys_sendrec s fn sd m c =
    check 47 (0 \<le> sd \<and> sd < nr_slots \<or> sd = ANY \<or> sd = INTERRUPT)
    (check 55 (int c \<noteq> sd)
      (if fn = SEND then msg_send (mark_source s c m) c sd m
       else if fn = RECEIVE then msg_receive (mark_source s c m) c sd m else Inl (Panic 70)))"
  using kernel_okD [OF assms] by (auto simp: sys_sendrec_def va2la_linear mark_source_def check_def Let_def)

lemma kernel_ok_mark [simp]:
  "kernel_ok (mark_source s c m) a = kernel_ok s a" "p_proc_ready (mark_source s c m) = p_proc_ready s"
  "proc_table (mark_source s c m) = proc_table s"
  by (simp_all add: mark_source_def)

lemma kernel_ok_sendrec:
  assumes ok: "kernel_ok s a" and run: "sys_sendrec s fn sd m (p_proc_ready s) = Inr s'"
  shows "kernel_ok s' (sendrec_spec fn (p_proc_ready s) sd a)"
proof -
  let ?c = "p_proc_ready s" and ?s = "mark_source s (p_proc_ready s) m"
  have ok': "kernel_ok ?s a" using ok by simp
  have sd: "valid_src ?c sd" and fn: "fn = SEND \<and> msg_send ?s ?c sd m = Inr s' \<or>
      fn \<noteq> SEND \<and> msg_receive ?s ?c sd m = Inr s'"
    using run unfolding sys_sendrec_unfold [OF ok] by (auto simp: valid_src_def split: if_splits)
  then have m: "m \<noteq> 0"
    using msg_send_null msg_receive_null by metis
  from fn show ?thesis
  proof (elim disjE conjE)
    assume "fn = SEND" and send: "msg_send ?s ?c sd m = Inr s'"
    then have d: "0 \<le> sd \<and> sd < nr_slots"
      by (auto simp: msg_send_def split: if_splits)
    with sd have "nat sd < nr_slots" "nat sd \<noteq> ?c" "int (nat sd) = sd"
      by (auto simp: valid_src_def)
    with kernel_ok_send [OF ok', of "nat sd" m s'] send m \<open>fn = SEND\<close> show ?thesis
      by (simp add: sendrec_spec_def)
  next
    assume "fn \<noteq> SEND" and recv: "msg_receive ?s ?c sd m = Inr s'"
    with kernel_ok_receive [OF ok', of sd m s'] sd m show ?thesis
      by (simp add: sendrec_spec_def)
  qed
qed

lemma schedule_hangs:
  "schedule t = None \<Longrightarrow> runnable (proc_table t) i \<Longrightarrow> p_priority (proc_table t i) \<le> 0"
  using schedule_total_iff [of t] by (auto simp: not_less)

lemma kernel_ok_priority:
  "kernel_ok s a \<Longrightarrow> runnable (proc_table s) i \<Longrightarrow> 0 < p_priority (proc_table s i)"
  unfolding kernel_ok_def using runnable_iff_ready by fastforce

lemma msg_send_fault:
  assumes ok: "kernel_ok s a" and d: "d < nr_slots" "d \<noteq> p_proc_ready s" and m: "m \<noteq> 0"
    and run: "msg_send s (p_proc_ready s) (int d) m = Inl e"
  shows "e = Panic 176 \<and> (d, p_proc_ready s) \<in> (waits a)\<^sup>+
    \<or> e = Hang 24 \<and> (\<forall>i. runnable (proc_table s) i \<longrightarrow> i = p_proc_ready s)"
proof -
  note k = kernel_okD [OF ok]
  show ?thesis
  proof (cases rule: msg_send_cases [OF k(1-3, 7, 8) d m, case_names cycle deliver wait])
    case (wait t)
    then have "schedule t = None" "e = Hang 24"
      using run by (cases "schedule t"; simp)+
    with wait schedule_hangs [of t] kernel_ok_priority [OF ok] show ?thesis
      by (metis linorder_not_less)
  qed (use run in auto)
qed

lemma msg_receive_fault:
  assumes ok: "kernel_ok s a" and src: "valid_src (p_proc_ready s) src" and m: "m \<noteq> 0"
    and run: "msg_receive s (p_proc_ready s) src m = Inl e"
  shows "e = Assert 342 \<and> intp a (p_proc_ready s)
    \<or> e = Hang 24 \<and> (\<forall>i. runnable (proc_table s) i \<longrightarrow> i = p_proc_ready s)"
proof -
  let ?c = "p_proc_ready s"
  note k = kernel_okD [OF ok]
  show ?thesis
  proof (cases rule: msg_receive_cases [OF k(1-3, 7, 8) m src, case_names interrupt take wait])
    case interrupt
    with run k m show ?thesis by (simp add: msg_receive_interrupt)
  next
    case (take ys f zs)
    have "src \<noteq> int ?c" using src by (simp add: valid_src_def)
    then obtain t where "msg_receive s ?c src m = Inr t"
      by (rule msg_receive_take [OF k(1-3, 7, 8) m _ take(1, 2, 4)])
    with run show ?thesis by simp
  next
    case wait
    let ?t = "waiting s ?c src m"
    have eq: "msg_receive s ?c src m = bindE (returns 24 (schedule ?t)) (\<lambda>s'. check 342 (\<not> intp a ?c) (Inr s'))"
      using msg_receive_wait [OF k(1, 7, 8) m src wait(1, 3)] .
    show ?thesis
    proof (cases "schedule ?t")
      case None
      with eq run have "e = Hang 24" by simp
      moreover have "i = ?c" if "runnable (proc_table s) i" for i
      proof (rule ccontr)
        assume "i \<noteq> ?c"
        with that schedule_hangs [OF None, of i] have "p_priority (proc_table s i) \<le> 0"
          by (simp add: runnable_waiting) (simp add: waiting_def)
        with kernel_ok_priority [OF ok that] show False by simp
      qed
      ultimately show ?thesis by simp
    next
      case (Some s')
      with eq run show ?thesis by (auto simp: check_def split: if_splits)
    qed
  qed
qed


lemma demo_kernel_ok: "kernel_ok demo_state boot_ipc"
  using demo_facts
  by (auto simp: kernel_ok_def runnable_def demo_state_def boot_ipc_def zero_proc_def)


section \<open>Interrupts and clock ticks\<close>

lemma kernel_ok_inform:
  assumes ok: "kernel_ok s a" and t: "t < nr_slots"
  shows "\<exists>s'. inform_int s t = Inr s' \<and> kernel_ok s' (spec_interrupt t a) \<and> p_proc_ready s' = p_proc_ready s
    \<and> p_ticks (proc_table s' i) = p_ticks (proc_table s i)"
proof -
  note k = kernel_okD [OF ok]
  note sim = inform_int_sim [OF k(1, 2) t]
  obtain s' where s': "inform_int s t = Inr s'" "ipc_rel s' (spec_interrupt t a)" "p_proc_ready s' = p_proc_ready s"
    and frame: "k_ticks s' = k_ticks s" "kernel_frame s s'" "\<And>i. p_ticks (proc_table s' i) = p_ticks (proc_table s i)"
  proof (cases "stat a t = Receiving INTERRUPT \<or> stat a t = Receiving ANY")
    case True
    with that sim show thesis
      by (auto simp: inform_int_deliver [OF k(1) t True] kernel_frame_def)
  next
    case False
    with that sim show thesis
      by (auto simp: inform_int_pend [OF k(1) t False] kernel_frame_def)
  qed
  have "stat (spec_interrupt t a) (p_proc_ready s) = Ready"
    using k(8) by (auto simp: spec_interrupt_def)
  then have "runnable (proc_table s') (p_proc_ready s')"
    using runnable_iff_ready [OF s'(2)] s'(3) k(7) by simp
  then have "kernel_ok s' (spec_interrupt t a)"
    using s' frame k ipc_ok_spec_interrupt [OF k(2)]
    by (intro kernel_okI [OF ok]) (auto dest: spec_unused(3))
  with s' frame show ?thesis by blast
qed

text \<open>The first half of the clock handler: the tick is counted.\<close>

definition count_tick :: "kstate \<Rightarrow> kstate" where
  "count_tick s =
     (let s = s\<lparr>k_ticks := (if k_ticks s + 1 \<ge> MAX_TICKS then 0 else k_ticks s + 1)\<rparr>
      in if p_ticks (proc_table s (p_proc_ready s)) \<noteq> 0
         then upd_proc (p_proc_ready s) (\<lambda>p. p\<lparr>p_ticks := p_ticks p - 1\<rparr>) s else s)"

lemma kernel_ok_count:
  assumes ok: "kernel_ok s a"
  shows "kernel_ok (count_tick s) a"
proof -
  have "ipc_rel (count_tick s) a = ipc_rel s a"
    by (rule ipc_rel_cong) (auto simp: count_tick_def Let_def)
  moreover have "segs_ok (count_tick s) = segs_ok s"
    by (auto simp: segs_ok_def count_tick_def Let_def ldt_seg_linear_def)
  moreover have "runnable (proc_table (count_tick s)) i = runnable (proc_table s) i" for i
    by (simp add: runnable_def count_tick_def Let_def)
  moreover have "p_priority (proc_table (count_tick s) i) = p_priority (proc_table s i)" for i
    by (simp add: count_tick_def Let_def)
  moreover have "0 \<le> p_ticks (proc_table (count_tick s) i)" if "0 \<le> p_ticks (proc_table s i)" for i
    using that by (auto simp: count_tick_def Let_def)
  ultimately show ?thesis
    using ok unfolding kernel_ok_def by (auto simp: count_tick_def Let_def)
qed

lemma clock_handler_unfold:
  "clock_handler s =
     bindE (if key_pressed s \<noteq> 0 then inform_int (count_tick s) TASK_TTY else Inr (count_tick s)) (\<lambda>s.
       if k_reenter s \<noteq> 0 then Inr s
       else if p_ticks (proc_table s (p_proc_ready s)) > 0 then Inr s
       else returns 32 (schedule s))"
  by (simp add: clock_handler_def count_tick_def Let_def)

text \<open>The kernel invariant at any depth of nesting.\<close>

abbreviation (input) outermost :: "kstate \<Rightarrow> kstate" where "outermost s \<equiv> s\<lparr>k_reenter := 0\<rparr>"

lemma kernel_ok_outermost: "k_reenter s = 0 \<Longrightarrow> kernel_ok (outermost s) a = kernel_ok s a"
  by (rule arg_cong [where f = "\<lambda>s. kernel_ok s a"]) simp

lemma inform_int_reenter:
  "inform_int (s\<lparr>k_reenter := k\<rparr>) t = map_sum id (\<lambda>s. s\<lparr>k_reenter := k\<rparr>) (inform_int s t)"
  by (simp add: inform_int_def Let_def check_def unblock_def)

lemma count_tick_reenter: "count_tick (s\<lparr>k_reenter := k\<rparr>) = (count_tick s)\<lparr>k_reenter := k\<rparr>"
  by (simp add: count_tick_def Let_def)

lemma inform_int_nested:
  assumes ok: "kernel_ok (outermost s) a" and t: "t < nr_slots"
  obtains s' where "inform_int s t = Inr s'" "kernel_ok (outermost s') (spec_interrupt t a)"
    "k_reenter s' = k_reenter s" "p_proc_ready s' = p_proc_ready s"
    "\<And>i. p_ticks (proc_table s' i) = p_ticks (proc_table s i)"
proof -
  obtain u where u: "inform_int (outermost s) t = Inr u" "kernel_ok u (spec_interrupt t a)"
    "p_proc_ready u = p_proc_ready s"
    using kernel_ok_inform [OF ok t] by auto
  from kernel_ok_inform [OF ok t] u(1)
  have ticks: "p_ticks (proc_table u i) = p_ticks (proc_table s i)" for i by fastforce
  have "u\<lparr>k_reenter := 0\<rparr> = u"
    using kernel_okD(4) [OF u(2)] by simp
  moreover have "inform_int s t = Inr (u\<lparr>k_reenter := k_reenter s\<rparr>)"
    using inform_int_reenter [of "k_reenter s" "outermost s" t] u(1) by simp
  ultimately show thesis
    using that u ticks by simp
qed

lemma count_tick_frame:
  "p_proc_ready (count_tick s) = p_proc_ready s" "k_reenter (count_tick s) = k_reenter s"
  "key_pressed (count_tick s) = key_pressed s"
  by (simp_all add: count_tick_def Let_def)

lemma count_tick_ticks:
  "0 \<le> p_ticks (proc_table s (p_proc_ready s)) \<Longrightarrow> p_ticks (proc_table (count_tick s) i)
    = (if i = p_proc_ready s then max 0 (p_ticks (proc_table s i) - 1) else p_ticks (proc_table s i))"
  by (auto simp: count_tick_def Let_def)

lemma kernel_ok_slice:
  "kernel_ok s a \<Longrightarrow> 0 \<le> p_ticks (proc_table s (p_proc_ready s))"
  using kernel_okD(7, 8) [of s a] by (simp add: kernel_ok_def)

text \<open>The two halves of the handler that run at every depth: the tick, and the key press.\<close>

lemma clock_informs:
  assumes "kernel_ok (outermost s) a"
  obtains t where "clock_handler s = (if k_reenter s \<noteq> 0 then Inr t
      else if p_ticks (proc_table t (p_proc_ready t)) > 0 then Inr t else returns 32 (schedule t))"
    "kernel_ok (outermost t) (if key_pressed s \<noteq> 0 then spec_interrupt TASK_TTY a else a)"
    "k_reenter t = k_reenter s" "p_proc_ready t = p_proc_ready s"
    "\<And>i. p_ticks (proc_table t i)
      = (if i = p_proc_ready s then max 0 (p_ticks (proc_table s i) - 1) else p_ticks (proc_table s i))"
proof -
  have ok: "kernel_ok (outermost (count_tick s)) a"
    using kernel_ok_count [OF assms] by (simp add: count_tick_reenter)
  have slice: "0 \<le> p_ticks (proc_table s (p_proc_ready s))"
    using kernel_ok_slice [OF assms] by simp
  show thesis
  proof (cases "key_pressed s = 0")
    case True
    with that [of "count_tick s"] ok count_tick_ticks [OF slice] show thesis
      by (simp add: clock_handler_unfold count_tick_frame)
  next
    case False
    from inform_int_nested [OF ok, of TASK_TTY] obtain t where
      "inform_int (count_tick s) TASK_TTY = Inr t" "kernel_ok (outermost t) (spec_interrupt TASK_TTY a)"
      "k_reenter t = k_reenter s" "p_proc_ready t = p_proc_ready s"
      "\<And>i. p_ticks (proc_table t i) = p_ticks (proc_table (count_tick s) i)"
      by (auto simp: count_tick_frame)
    with that [of t] False count_tick_ticks [OF slice] show thesis
      by (simp add: clock_handler_unfold count_tick_frame)
  qed
qed

text \<open>At the outermost level.\<close>

lemma clock_outermost:
  assumes ok: "kernel_ok s a"
  obtains s' where "clock_handler s = Inr s'"
    "kernel_ok s' (if key_pressed s \<noteq> 0 then spec_interrupt TASK_TTY a else a)"
    "p_ticks (proc_table s (p_proc_ready s)) \<le> 1 \<Longrightarrow> chosen (proc_table s') (p_proc_ready s')"
proof -
  let ?a = "if key_pressed s \<noteq> 0 then spec_interrupt TASK_TTY a else a"
  have r: "k_reenter s = 0" using kernel_okD(4) [OF ok] .
  from clock_informs [of s a] ok r obtain t where t: "clock_handler s =
      (if p_ticks (proc_table t (p_proc_ready t)) > 0 then Inr t else returns 32 (schedule t))"
    "kernel_ok t ?a" "p_proc_ready t = p_proc_ready s"
    "p_ticks (proc_table t (p_proc_ready s)) = max 0 (p_ticks (proc_table s (p_proc_ready s)) - 1)"
    by (simp add: kernel_ok_outermost) metis
  show thesis
  proof (cases "p_ticks (proc_table t (p_proc_ready t)) > 0")
    case True
    with that [of t] t show thesis by (auto simp: less_max_iff_disj)
  next
    case False
    obtain s' where s': "schedule t = Some s'"
      using schedule_total_iff [of t] kernel_okD(9) [OF t(2)] kernel_ok_priority [OF t(2)] by blast
    have "kernel_ok s' ?a"
      using kernel_okD [OF t(2)] by (intro kernel_ok_schedule [OF t(2) _ _ _ _ s']) auto
    moreover have "chosen (proc_table s') (p_proc_ready s')"
      using s' by (cases rule: schedule_cases) simp_all
    ultimately show thesis
      using that [of s'] t(1) False s' by simp
  qed
qed

text \<open>
  C11. A clock tick always returns, at any depth of nesting, in every state with the kernel
  invariant, that is whenever it does not fall inside another C function of the kernel: the handler
  hands a key press to the terminal task, keeps the invariant and the depth, and takes one
  tick from the running process's time slice. Nested in a system call or in another interrupt it
  leaves the CPU with the running process and touches no other slice. At the outermost level
  it leaves the CPU with the running process while that has time left, and otherwise gives it to
  the runnable process of the largest time slice.
\<close>

theorem clock_handler_returns:
  assumes "kernel_ok (s\<lparr>k_reenter := 0\<rparr>) a"
  shows "\<exists>s'. clock_handler s = Inr s' \<and> k_reenter s' = k_reenter s \<and>
    kernel_ok (s'\<lparr>k_reenter := 0\<rparr>) (if key_pressed s \<noteq> 0 then spec_interrupt TASK_TTY a else a) \<and>
    (if k_reenter s \<noteq> 0 \<or> 1 < p_ticks (proc_table s (p_proc_ready s))
     then p_proc_ready s' = p_proc_ready s \<and>
       (\<forall>i. p_ticks (proc_table s' i) = (if i = p_proc_ready s then max 0 (p_ticks (proc_table s i) - 1)
          else p_ticks (proc_table s i)))
     else chosen (proc_table s') (p_proc_ready s'))"
proof -
  let ?a = "if key_pressed s \<noteq> 0 then spec_interrupt TASK_TTY a else a"
  from clock_informs [OF assms] obtain t where t: "clock_handler s = (if k_reenter s \<noteq> 0 then Inr t
      else if p_ticks (proc_table t (p_proc_ready t)) > 0 then Inr t else returns 32 (schedule t))"
    "kernel_ok (outermost t) ?a" "k_reenter t = k_reenter s" "p_proc_ready t = p_proc_ready s"
    "\<And>i. p_ticks (proc_table t i)
      = (if i = p_proc_ready s then max 0 (p_ticks (proc_table s i) - 1) else p_ticks (proc_table s i))"
    by blast
  show ?thesis
  proof (cases "k_reenter s \<noteq> 0 \<or> 1 < p_ticks (proc_table s (p_proc_ready s))")
    case True
    then have "clock_handler s = Inr t" using t(1, 4, 5) by auto
    with True t(2-5) show ?thesis by simp
  next
    case False
    then have r: "k_reenter s = 0" by simp
    then have ok: "kernel_ok s a" using assms by (simp only: kernel_ok_outermost)
    from clock_outermost [OF ok] False obtain s' where s': "clock_handler s = Inr s'" "kernel_ok s' ?a"
      "chosen (proc_table s') (p_proc_ready s')"
      by force
    with False r kernel_ok_outermost [OF kernel_okD(4) [OF s'(2)]] kernel_okD(4) [OF s'(2)] show ?thesis
      by (intro exI [of _ s']) simp
  qed
qed

theorem clock_handler_returns_witness:
  "\<exists>s'. clock_handler (demo_state\<lparr>k_reenter := 1\<rparr>) = Inr s' \<and> k_reenter s' = 1 \<and> p_proc_ready s' = 5 \<and>
    kernel_ok (s'\<lparr>k_reenter := 0\<rparr>)
      (if key_pressed demo_state \<noteq> 0 then spec_interrupt TASK_TTY boot_ipc else boot_ipc)"
proof -
  have "demo_state\<lparr>k_reenter := 1\<rparr>\<lparr>k_reenter := 0\<rparr> = demo_state" "p_proc_ready demo_state = 5"
    using kernel_okD(4) [OF demo_kernel_ok] by (simp_all add: demo_state_def)
  with clock_handler_returns [of "demo_state\<lparr>k_reenter := 1\<rparr>" boot_ipc] demo_kernel_ok show ?thesis
    by fastforce
qed

section \<open>Nested interrupts\<close>

text \<open>
  The three interrupts that have a handler. The disk handler reads the controller's status, which
  is part of the model of the controller in theory \<^verbatim>\<open>Hd\<close>; the keyboard handler stores the scan
  code, which is part of the model of the keyboard in theory \<^verbatim>\<open>Keyboard\<close>. What they do to the
  kernel is here.
\<close>

datatype irq = Clock | Disk | Keyboard

definition hd_handler :: "kstate \<Rightarrow> kstate result" where
  "hd_handler s = inform_int s TASK_HD"

fun irq_table :: "irq \<Rightarrow> kstate \<Rightarrow> kstate result" where
  "irq_table Clock s = clock_handler s"
| "irq_table Disk s = hd_handler s"
| "irq_table Keyboard s = Inr (s\<lparr>key_pressed := 1\<rparr>)"

text \<open>
  An interrupt that is taken while the kernel runs, with those taken before and after its own
  handler: \<^verbatim>\<open>save\<close> counts the depth up, the handler runs between \<^verbatim>\<open>sti\<close> and \<^verbatim>\<open>cli\<close>, and
  \<^verbatim>\<open>restart_reenter\<close> counts the depth down and returns to the interrupted code. The entry code of
  an interrupt masks its own line until its handler has returned (lines 96 to 98 and 152 to 154), so
  an interrupt never nests in itself: \<open>unmasked\<close> describes the trees of interrupts that can occur
  while the lines of a set are masked.
\<close>

datatype nested = Nested irq "nested list" "nested list"

fun take_nested :: "nested \<Rightarrow> kstate \<Rightarrow> kstate result"
  and take_all :: "nested list \<Rightarrow> kstate \<Rightarrow> kstate result" where
  "take_nested (Nested i before after) s =
     bindE (take_all before (s\<lparr>k_reenter := k_reenter s + 1\<rparr>)) (\<lambda>s.
     bindE (irq_table i s) (\<lambda>s.
     bindE (take_all after s) (\<lambda>s. Inr (s\<lparr>k_reenter := k_reenter s - 1\<rparr>))))"
| "take_all [] s = Inr s"
| "take_all (x # xs) s = bindE (take_nested x s) (take_all xs)"

fun unmasked :: "irq set \<Rightarrow> nested \<Rightarrow> bool"
  and unmasked_all :: "irq set \<Rightarrow> nested list \<Rightarrow> bool" where
  "unmasked M (Nested i before after) \<longleftrightarrow>
     i \<notin> M \<and> unmasked_all (insert i M) before \<and> unmasked_all (insert i M) after"
| "unmasked_all M [] \<longleftrightarrow> True"
| "unmasked_all M (x # xs) \<longleftrightarrow> unmasked M x \<and> unmasked_all M xs"

text \<open>The C function \<open>f\<close> of an event, with the interrupts taken on both sides of it.\<close>

definition enabled :: "nested list \<Rightarrow> (kstate \<Rightarrow> kstate result) \<Rightarrow> nested list \<Rightarrow> kstate \<Rightarrow> kstate result" where
  "enabled before f after s = bindE (take_all before s) (\<lambda>s. bindE (f s) (take_all after))"

section \<open>Runs of the kernel\<close>

text \<open>
  The states are those in which the kernel is about to return to a process, with \<^verbatim>\<open>k_reenter\<close>
  zero; \<^verbatim>\<open>restart\<close> makes it \<open>-1\<close> and the \<^verbatim>\<open>save\<close> of the next event zero again. A process may
  change memory at will between two events, and the terminal task clears \<^verbatim>\<open>key_pressed\<close>.
\<close>

datatype event =
  Syscall int int u32 "nested list" "nested list"
| Interrupt irq "nested list" "nested list"
| Key_Seen
| User memory

inductive kernel_step :: "kstate \<Rightarrow> event \<Rightarrow> kstate \<Rightarrow> bool" where
  syscall: "unmasked_all {} before \<Longrightarrow> unmasked_all {} after \<Longrightarrow>
    enabled before (\<lambda>s. sys_sendrec s fn sd m (p_proc_ready s)) after s = Inr s' \<Longrightarrow>
    kernel_step s (Syscall fn sd m before after) s'"
| interrupt: "unmasked_all {i} before \<Longrightarrow> unmasked_all {i} after \<Longrightarrow>
    enabled before (irq_table i) after s = Inr s' \<Longrightarrow> kernel_step s (Interrupt i before after) s'"
| key_seen: "kernel_step s Key_Seen (s\<lparr>key_pressed := 0\<rparr>)"
| user: "kernel_step s (User h) (s\<lparr>kmem := h\<rparr>)"

inductive_cases kernel_stepE: "kernel_step s e s'"

code_pred (modes: i \<Rightarrow> i \<Rightarrow> o \<Rightarrow> bool) kernel_step .

text \<open>The steps of the specification.\<close>

inductive ipc_step :: "ipc \<Rightarrow> ipc \<Rightarrow> bool" where
  send: "c < nr_slots \<Longrightarrow> stat a c = Ready \<Longrightarrow> d < nr_slots \<Longrightarrow> d \<noteq> c \<Longrightarrow> (d, c) \<notin> (waits a)\<^sup>+ \<Longrightarrow>
    ipc_step a (spec_send c d a)"
| receive: "c < nr_slots \<Longrightarrow> stat a c = Ready \<Longrightarrow> valid_src c src \<Longrightarrow> ipc_step a (spec_receive c src a)"
| interrupt: "t < nr_slots \<Longrightarrow> ipc_step a (spec_interrupt t a)"
| idle: "ipc_step a a"

lemma ipc_step_ok: "ipc_step a a' \<Longrightarrow> ipc_ok a \<Longrightarrow> ipc_ok a'"
  by (induction rule: ipc_step.induct)
    (auto intro: ipc_ok_spec_send ipc_ok_spec_receive ipc_ok_spec_interrupt)

lemma sendrec_ipc_step:
  assumes ok: "kernel_ok s a" and run: "sys_sendrec s fn sd m (p_proc_ready s) = Inr s'"
  shows "ipc_step a (sendrec_spec fn (p_proc_ready s) sd a)"
proof -
  let ?c = "p_proc_ready s"
  note k = kernel_okD [OF ok]
  have sd: "valid_src ?c sd" and fn: "fn = SEND \<longrightarrow> msg_send (mark_source s ?c m) ?c sd m = Inr s'"
    using run unfolding sys_sendrec_unfold [OF ok] by (auto simp: valid_src_def split: if_splits)
  show ?thesis
  proof (cases "fn = SEND")
    case True
    with fn have send: "msg_send (mark_source s ?c m) ?c sd m = Inr s'" by simp
    then have m: "m \<noteq> 0" using msg_send_null by metis
    from send have d: "0 \<le> sd" "sd < nr_slots"
      by (auto simp: msg_send_def split: if_splits)
    with sd have d': "nat sd < nr_slots" "nat sd \<noteq> ?c" "int (nat sd) = sd"
      by (auto simp: valid_src_def)
    have "kernel_ok (mark_source s ?c m) a" using ok by simp
    note k' = kernel_okD [OF this]
    have "(nat sd, ?c) \<notin> (waits a)\<^sup>+"
    proof (cases rule: msg_send_cases [OF k'(1-3) k(7, 8) d'(1, 2) m, case_names cycle deliver wait])
      case cycle
      with send d' show ?thesis by simp
    qed
    with k d' True show ?thesis
      by (auto simp: sendrec_spec_def intro: ipc_step.send)
  next
    case False
    with k sd show ?thesis
      by (auto simp: sendrec_spec_def intro: ipc_step.receive)
  qed
qed

lemma kernel_ok_key: "kernel_ok (s\<lparr>key_pressed := k\<rparr>) a = kernel_ok s a"
  using ipc_rel_cong [of "s\<lparr>key_pressed := k\<rparr>" s a] by (simp add: kernel_ok_def segs_ok_def)

lemma interrupted: "t < NR_TASKS \<Longrightarrow> ipc_step\<^sup>*\<^sup>* a (spec_interrupt t a)"
  by (rule r_into_rtranclp) (simp add: ipc_step.interrupt)

text \<open>A handler below the outermost level returns to the code it interrupted.\<close>

lemma irq_nested:
  assumes ok: "kernel_ok (outermost s) a" and depth: "k_reenter s \<noteq> 0"
  obtains s' a' where "irq_table i s = Inr s'" "kernel_ok (outermost s') a'" "ipc_step\<^sup>*\<^sup>* a a'"
    "k_reenter s' = k_reenter s" "p_proc_ready s' = p_proc_ready s"
proof (cases i)
  case Clock
  have step: "ipc_step\<^sup>*\<^sup>* a (if key_pressed s \<noteq> 0 then spec_interrupt TASK_TTY a else a)"
    by (auto intro: interrupted)
  from clock_informs [OF ok] depth obtain t where "clock_handler s = Inr t"
    "kernel_ok (outermost t) (if key_pressed s \<noteq> 0 then spec_interrupt TASK_TTY a else a)"
    "k_reenter t = k_reenter s" "p_proc_ready t = p_proc_ready s"
    by (metis (no_types, lifting))
  with that [OF _ _ step] Clock show thesis by simp
next
  case Disk
  have "ipc_step\<^sup>*\<^sup>* a (spec_interrupt TASK_HD a)" by (auto intro: interrupted)
  from inform_int_nested [OF ok, of TASK_HD] that [OF _ _ this] Disk show thesis
    by (force simp: hd_handler_def)
next
  case Keyboard
  have "outermost (s\<lparr>key_pressed := 1\<rparr>) = (outermost s)\<lparr>key_pressed := 1\<rparr>" by simp
  then have "kernel_ok (outermost (s\<lparr>key_pressed := 1\<rparr>)) a"
    using ok by (simp only: kernel_ok_key)
  with that [OF _ this] Keyboard show thesis by simp
qed

text \<open>So does a whole tree of interrupts: it never schedules, and always returns.\<close>

definition returns_in :: "kstate \<Rightarrow> ipc \<Rightarrow> kstate result \<Rightarrow> bool" where
  "returns_in s a r \<longleftrightarrow> (\<exists>s' a'. r = Inr s' \<and> kernel_ok (outermost s') a' \<and> ipc_step\<^sup>*\<^sup>* a a' \<and>
     k_reenter s' = k_reenter s \<and> p_proc_ready s' = p_proc_ready s)"

lemma returns_in_bind:
  assumes "returns_in s a r"
    and "\<And>s' a'. kernel_ok (outermost s') a' \<Longrightarrow> k_reenter s' = k_reenter s \<Longrightarrow> returns_in s' a' (f s')"
  shows "returns_in s a (bindE r f)"
proof -
  obtain s' a' where s': "r = Inr s'" "kernel_ok (outermost s') a'" "ipc_step\<^sup>*\<^sup>* a a'"
    "k_reenter s' = k_reenter s" "p_proc_ready s' = p_proc_ready s"
    using assms(1) unfolding returns_in_def by blast
  from assms(2) [OF s'(2, 4)] obtain s'' a'' where "f s' = Inr s''" "kernel_ok (outermost s'') a''"
    "ipc_step\<^sup>*\<^sup>* a' a''" "k_reenter s'' = k_reenter s'" "p_proc_ready s'' = p_proc_ready s'"
    unfolding returns_in_def by blast
  with s' show ?thesis
    unfolding returns_in_def by (intro exI [of _ s''] exI [of _ a'']) auto
qed

lemma irq_subset: "(M :: irq set) \<subseteq> {Clock, Disk, Keyboard}"
  using irq.exhaust by blast

lemma card_irq: "card (M :: irq set) \<le> 3"
  using card_mono [OF _ irq_subset [of M]] by simp

lemma card_insert_irq: "i \<notin> M \<Longrightarrow> card (insert i M) = Suc (card (M :: irq set))"
  using finite_subset [OF irq_subset [of M]] by simp

lemma deeper:
  "unat (k :: u32) \<le> card (M :: irq set) \<Longrightarrow> unat (k + 1) = Suc (unat k)"
  using card_irq [of M] by (simp add: unat_word_ariths)

lemma nested_returns:
  "kernel_ok (outermost s) a \<Longrightarrow> unmasked M x \<Longrightarrow> unat (k_reenter s) \<le> card M \<Longrightarrow>
    returns_in s a (take_nested x s)"
  "kernel_ok (outermost s) a \<Longrightarrow> unmasked_all M xs \<Longrightarrow> unat (k_reenter s) \<le> card M \<Longrightarrow>
    returns_in s a (take_all xs s)"
proof (induction x s and xs s arbitrary: a M and a M rule: take_nested_take_all.induct)
  case (1 i before after s)
  let ?s = "s\<lparr>k_reenter := k_reenter s + 1\<rparr>" and ?M = "insert i M"
  have deep: "unat (k_reenter ?s) = Suc (unat (k_reenter s))" using "1.prems" by (simp add: deeper)
  with "1.prems" have M: "unat (k_reenter ?s) \<le> card ?M" by (simp add: card_insert_irq)
  have "returns_in ?s a (bindE (take_all before ?s) (\<lambda>s. bindE (irq_table i s) (take_all after)))"
  proof (intro returns_in_bind)
    show "returns_in ?s a (take_all before ?s)" using "1.prems" M by (intro "1.IH"(1)) auto
  next
    fix t b
    assume t: "kernel_ok (outermost t) b" "k_reenter t = k_reenter ?s"
    with deep have "k_reenter t \<noteq> 0" by auto
    from irq_nested [OF t(1) this, of i] show "returns_in t b (irq_table i t)"
      unfolding returns_in_def by metis
  next
    fix t b u c
    assume "kernel_ok (outermost t) b" "k_reenter t = k_reenter ?s"
      "kernel_ok (outermost u) c" "k_reenter u = k_reenter t"
    with "1.prems" M show "returns_in u c (take_all after u)" by (intro "1.IH"(2)) auto
  qed
  then show ?case
    unfolding returns_in_def by (fastforce simp: bindE_eq_Inr)
next
  case (2 s)
  then show ?case by (auto simp: returns_in_def)
next
  case (3 x xs s)
  show ?case unfolding take_all.simps
  proof (rule returns_in_bind)
    show "returns_in s a (take_nested x s)" using "3.prems" by (intro "3.IH"(1)) auto
  next
    fix t b
    assume "kernel_ok (outermost t) b" "k_reenter t = k_reenter s"
    with "3.prems" show "returns_in t b (take_all xs t)" by (intro "3.IH"(2)) auto
  qed
qed

lemma enabled_sim:
  assumes ok: "kernel_ok s a" and run: "enabled before f after s = Inr s'"
    and free: "unmasked_all M before" "unmasked_all M after"
    and step: "\<And>s a s'. kernel_ok s a \<Longrightarrow> f s = Inr s' \<Longrightarrow> \<exists>a'. ipc_step\<^sup>*\<^sup>* a a' \<and> kernel_ok s' a'"
  shows "\<exists>a'. ipc_step\<^sup>*\<^sup>* a a' \<and> kernel_ok s' a'"
proof -
  have nested: "\<exists>a'. ipc_step\<^sup>*\<^sup>* a a' \<and> kernel_ok u a'"
    if "kernel_ok t a" "unmasked_all M xs" "take_all xs t = Inr u" for t a xs u
    using nested_returns(2) [of t a M xs] that kernel_okD(4) [OF that(1)]
    by (auto simp: returns_in_def kernel_ok_outermost)
  from run obtain t u where "take_all before s = Inr t" "f t = Inr u" "take_all after u = Inr s'"
    by (auto simp: enabled_def bindE_eq_Inr)
  with nested [OF ok free(1)] nested [OF _ free(2), of u] step [of t] show ?thesis
    by (meson rtranclp_trans)
qed

lemma irq_sim:
  assumes ok: "kernel_ok s a" and run: "irq_table i s = Inr s'"
  shows "\<exists>a'. ipc_step\<^sup>*\<^sup>* a a' \<and> kernel_ok s' a'"
proof (cases i)
  case Clock
  have "kernel_ok s' (if key_pressed s \<noteq> 0 then spec_interrupt TASK_TTY a else a)"
    using clock_outermost [OF ok] run Clock by (metis irq_table.simps(1) sum.inject(2))
  then show ?thesis using interrupted [of TASK_TTY a] by (cases "key_pressed s = 0") auto
next
  case Disk
  then have "kernel_ok s' (spec_interrupt TASK_HD a)"
    using kernel_ok_inform [OF ok, of TASK_HD] run by (auto simp: hd_handler_def)
  then show ?thesis using interrupted [of TASK_HD a] by auto
next
  case Keyboard
  with ok run show ?thesis by (auto simp: kernel_ok_key)
qed

lemma kernel_step_sim:
  assumes ok: "kernel_ok s a" and step: "kernel_step s e s'"
  shows "\<exists>a'. ipc_step\<^sup>*\<^sup>* a a' \<and> kernel_ok s' a'"
  using step
proof (cases rule: kernel_step.cases)
  case (syscall before fn sd m after)
  then show ?thesis
    using kernel_ok_sendrec sendrec_ipc_step by (intro enabled_sim [OF ok]) blast+
next
  case (interrupt before i after)
  then show ?thesis using irq_sim by (intro enabled_sim [OF ok])
next
  case key_seen
  with ok show ?thesis by (auto simp: kernel_ok_key)
next
  case (user h)
  with ok show ?thesis by auto
qed

text \<open>The states in which \<^verbatim>\<open>kernel_main\<close> starts the first process.\<close>

definition booted_state :: "kstate \<Rightarrow> bool" where
  "booted_state s \<longleftrightarrow> (\<exists>elf h label gdt idt pt b l gdt' idt' tss pt'.
     flat_gdt gdt \<and> get_kernel_map elf h = Inr (0, b, l) \<and>
     init_prot label gdt idt pt = Inr (gdt', idt', tss, pt') \<and> kernel_main elf h label gdt' pt' = Inr s)"

lemma kernel_ok_boot:
  assumes "flat_gdt gdt" "get_kernel_map elf h = Inr (0, b, l)"
  obtains gdt' idt' tss pt' s where "init_prot label gdt idt pt = Inr (gdt', idt', tss, pt')"
    "kernel_main elf h label gdt' pt' = Inr s" "kernel_ok s boot_ipc"
    "\<And>i. i < NR_TASKS + NR_NATIVE_PROCS \<Longrightarrow> r_esp (regs (proc_table s i))
       = label ''task_stack'' + of_nat (STACK_SIZE_TOTAL - i * STACK_SIZE_DEFAULT)"
proof (rule init_prot_run [OF assms(1), of label idt pt])
  fix gdt' pt'
  assume run: "init_prot label gdt idt pt = Inr (gdt', init_idt label idt, zero_tss\<lparr>tss_ss0 := SELECTOR_KERNEL_DS,
      tss_iobase := sizeof_tss\<rparr>, pt')"
    and flat: "flat_gdt gdt'"
    and entry: "\<And>i. i < nr_slots \<Longrightarrow> pt' i = zero_proc\<lparr>ldt_sel := SELECTOR_LDT_FIRST + push_bit 3 (of_nat i)\<rparr>"
  obtain s where s: "kernel_main elf h label gdt' pt' = Inr s" "ipc_rel s boot_ipc" "segs_ok s" "p_proc_ready s = 0"
    "k_reenter s = 0" "k_ticks s = 0"
    and slots: "\<And>i. i < 9 \<Longrightarrow> 0 < p_priority (proc_table s i) \<and> p_ticks (proc_table s i) = p_priority (proc_table s i) \<and>
       r_esp (regs (proc_table s i)) = label ''task_stack'' + of_nat (STACK_SIZE_TOTAL - i * STACK_SIZE_DEFAULT)"
    using kernel_main_correct [OF flat assms(2) entry, of label] by auto
  have "kernel_ok s boot_ipc"
    using s slots ipc_ok_boot runnable_iff_ready [OF s(2), of 0]
    by (auto simp: kernel_ok_def boot_ipc_def less_imp_le split: if_splits)
  with that [OF run s(1)] slots show thesis by simp
qed

text \<open>
  Booting succeeds: from the flat segments of the boot loader and a readable kernel image,
  \<^verbatim>\<open>init_prot\<close> and \<^verbatim>\<open>kernel_main\<close> run to the end, and the first process starts in a state that
  satisfies the kernel invariant, related to the initial state of the specification: nine
  processes ready, every other slot free, nothing pending. The nine stacks are disjoint blocks
  of \<^verbatim>\<open>task_stack\<close>.
\<close>

theorem boot_succeeds:
  assumes "flat_gdt gdt" "get_kernel_map elf h = Inr (0, b, l)"
  shows "\<exists>gdt' idt' tss pt' s. init_prot label gdt idt pt = Inr (gdt', idt', tss, pt') \<and>
    kernel_main elf h label gdt' pt' = Inr s \<and> kernel_ok s boot_ipc \<and>
    (\<forall>i < NR_TASKS + NR_NATIVE_PROCS. r_esp (regs (proc_table s i))
       = label ''task_stack'' + of_nat (STACK_SIZE_TOTAL - i * STACK_SIZE_DEFAULT))"
  using kernel_ok_boot [OF assms, of label idt pt] by metis

theorem boot_succeeds_witness:
  "\<exists>gdt' idt' tss pt' s. init_prot (\<lambda>_. 0x30000) (replicate GDT_SIZE zero_descriptor) [] (\<lambda>_. zero_proc)
      = Inr (gdt', idt', tss, pt') \<and> kernel_main demo_elf demo_mem (\<lambda>_. 0x30000) gdt' pt' = Inr s \<and>
    kernel_ok s boot_ipc"
  using boot_succeeds [OF demo_flat demo_kernel_map, of "\<lambda>_. 0x30000" "[]" "\<lambda>_. zero_proc"] by blast

interpretation kernel: simulation booted_state "\<lambda>s s'. \<exists>e. kernel_step s e s'"
  "\<lambda>a. a = boot_ipc" "ipc_step\<^sup>*\<^sup>*" kernel_ok
proof unfold_locales
  fix s
  assume "booted_state s"
  then obtain elf h label gdt idt pt b l gdt' idt' tss pt' where boot: "flat_gdt gdt"
    "get_kernel_map elf h = Inr (0, b, l)" "init_prot label gdt idt pt = Inr (gdt', idt', tss, pt')"
    "kernel_main elf h label gdt' pt' = Inr s"
    unfolding booted_state_def by blast
  from kernel_ok_boot [OF boot(1, 2), of label idt pt] boot(3, 4)
  show "\<exists>a. a = boot_ipc \<and> kernel_ok s a" by force
next
  fix s a s'
  assume "kernel_ok s a" "\<exists>e. kernel_step s e s'"
  then show "\<exists>a'. ipc_step\<^sup>*\<^sup>* a a' \<and> kernel_ok s' a'"
    using kernel_step_sim by blast
qed

text \<open>
  C1. Interrupts may be nested in system calls and in one another, to the depth the masked lines
  allow, as long as none falls inside the C function of a call or of a handler: whatever
  sequence of system calls, interrupts and memory changes follows the boot, each with any nested
  interrupts before its C function starts and after it returns, the kernel stays in step with
  the specification. The reached state is related to one the specification reaches from its
  initial state, with the invariant, so the running process is runnable, the queues hold exactly
  the blocked senders, and no chain of blocked senders is a cycle. An interrupt inside a C
  function is left out because the code is wrong there, see \<open>receive_race\<close>.
\<close>

theorem kernel_runs_refine:
  assumes "booted_state s\<^sub>0" "(\<lambda>s s'. \<exists>e. kernel_step s e s')\<^sup>*\<^sup>* s\<^sub>0 s"
  shows "\<exists>a. ipc_step\<^sup>*\<^sup>* boot_ipc a \<and> kernel_ok s a \<and> acyclic (waits a) \<and>
    (\<forall>i<nr_slots. \<forall>j<nr_slots. i \<in> set (sendq a j) \<longleftrightarrow>
       p_flags (proc_table s i) = SENDING \<and> p_sendto (proc_table s i) = int j)"
proof -
  obtain a where a: "ipc_step\<^sup>*\<^sup>* boot_ipc a" "kernel_ok s a"
    using kernel.reach_sim [OF assms] by auto
  note k = kernel_okD [OF a(2)]
  have "i \<in> set (sendq a j) \<longleftrightarrow> p_flags (proc_table s i) = SENDING \<and> p_sendto (proc_table s i) = int j"
    if "i < nr_slots" "j < nr_slots" for i j
    using ipc_relD(1) [OF k(1) that(1)] ipc_ok_queue(2) [OF k(2) that(2), of i] that
    by (cases "stat a i") auto
  with a k(2) show ?thesis
    by (auto simp: ipc_ok_def)
qed

text \<open>A run: a key is pressed after the boot, and a tick, itself interrupted by the disk, nests in
  the keyboard interrupt.\<close>

theorem kernel_runs_refine_witness:
  "\<exists>s\<^sub>0 s a. booted_state s\<^sub>0 \<and> kernel_step s\<^sub>0 (Interrupt Keyboard [Nested Clock [Nested Disk [] []] []] []) s \<and>
     ipc_step\<^sup>*\<^sup>* boot_ipc a \<and> kernel_ok s a \<and> acyclic (waits a)"
proof -
  let ?nest = "[Nested Clock [Nested Disk [] []] []]"
  obtain gdt' idt' tss pt' s where
    boot: "init_prot (\<lambda>_. 0x30000) (replicate GDT_SIZE zero_descriptor) [] (\<lambda>_. zero_proc) = Inr (gdt', idt', tss, pt')"
      "kernel_main demo_elf demo_mem (\<lambda>_. 0x30000) gdt' pt' = Inr s" "kernel_ok s boot_ipc"
    by (rule kernel_ok_boot [OF demo_flat demo_kernel_map])
  then have init: "booted_state s"
    unfolding booted_state_def using demo_flat demo_kernel_map by blast
  have "returns_in s boot_ipc (take_all ?nest s)"
    using boot(3) kernel_okD(4) [OF boot(3)]
    by (intro nested_returns(2) [of _ _ "{Keyboard}"]) (simp_all add: kernel_ok_outermost)
  then obtain t where "take_all ?nest s = Inr t"
    unfolding returns_in_def by blast
  then have step: "kernel_step s (Interrupt Keyboard ?nest []) (t\<lparr>key_pressed := 1\<rparr>)"
    by (intro kernel_step.interrupt) (simp_all add: enabled_def)
  have "(\<lambda>s s'. \<exists>e. kernel_step s e s')\<^sup>*\<^sup>* s (t\<lparr>key_pressed := 1\<rparr>)"
    by (rule r_into_rtranclp) (use step in blast)
  with kernel_runs_refine [OF init this] init step show ?thesis by blast
qed

end
