(* ===== verification/Sendrecv.thy ===== *)
theory Sendrecv
  imports Kernel Message
begin

text \<open>
  The function \<^verbatim>\<open>send_recv\<close> of \<^verbatim>\<open>kernel/proc.c\<close> by which every process uses the message layer,
  and what a send and an answer deliver as messages: the link between the 48 bytes the kernel copies
  and the message values the tasks are modelled on.
\<close>

section \<open>The function\<close>

text \<open>
  \<^verbatim>\<open>send_recv\<close> runs in the calling process. With \<^verbatim>\<open>BOTH\<close> it traps twice, and other processes
  run in between: the result is the state after the first trap and the one still to come.
\<close>

definition send_recv :: "kstate \<Rightarrow> int \<Rightarrow> int \<Rightarrow> u32 \<Rightarrow> nat \<Rightarrow> (kstate \<times> int option) result" where
  "send_recv s fn src_dest msg p =
     bindE (va2la s p msg) (\<lambda>la.
       let s = (if fn = RECEIVE then s\<lparr>kmem := memset (kmem s) la 0 sizeof_MESSAGE\<rparr> else s)
       in if fn = BOTH then bindE (sys_sendrec s SEND src_dest msg p) (\<lambda>s. Inr (s, Some RECEIVE))
          else check 98 (fn = SEND \<or> fn = RECEIVE) (bindE (sys_sendrec s fn src_dest msg p) (\<lambda>s. Inr (s, None))))"

section \<open>Delivery\<close>

text \<open>The process \<open>c\<close> has composed the message \<open>msg\<close> at its address \<open>m\<close>.\<close>

definition composed :: "kstate \<Rightarrow> nat \<Rightarrow> u32 \<Rightarrow> message \<Rightarrow> kstate" where
  "composed s c m msg = s\<lparr>kmem := store_message (kmem s) (linear s c m) msg\<rparr>"

lemma linear_kmem [simp]: "linear (s\<lparr>kmem := h\<rparr>) = linear s"
  by (simp add: linear_def fun_eq_iff)

lemma composed_sel [simp]:
  "proc_table (composed s c m msg) = proc_table s" "p_proc_ready (composed s c m msg) = p_proc_ready s"
  "kernel_ok (composed s c m msg) a = kernel_ok s a" "linear (composed s c m msg) = linear s"
  by (simp_all add: composed_def linear_def fun_eq_iff)

lemma message_bytes_source:
  "k < 4 \<Longrightarrow> message_bytes msg ! k = le32 (source msg) ! k" "4 \<le> k \<Longrightarrow> message_bytes (msg\<lparr>source := w\<rparr>) ! k = message_bytes msg ! k"
  by (simp_all add: message_bytes_def nth_append)

lemma marked_message:
  assumes "k < sizeof_MESSAGE"
  shows "kmem (mark_source (composed s c m msg) c m) (linear s c m + of_nat k) = message_bytes (msg\<lparr>source := of_nat c\<rparr>) ! k"
proof (cases "k < 4")
  case True
  then have "kmem (mark_source (composed s c m msg) c m) (linear s c m + of_nat k) = le32 (of_nat c) ! k"
    using store_bytes_stores [of "le32 (of_nat c)" k "kmem (composed s c m msg)" "linear s c m"] by (simp add: mark_source_def store32_def)
  then show ?thesis using True by (simp add: message_bytes_source)
next
  case False
  have "linear s c m + of_nat k \<notin> region (linear s c m) 4"
  proof
    assume "linear s c m + of_nat k \<in> region (linear s c m) 4"
    then obtain l where "l < 4" "(of_nat k :: u32) = of_nat l" unfolding region_def by auto
    with of_nat_inj_u32 [of k l] False assms show False by simp
  qed
  then have "kmem (mark_source (composed s c m msg) c m) (linear s c m + of_nat k) = message_bytes msg ! k"
    using assms store_bytes_stores [of "message_bytes msg" k "kmem s" "linear s c m"]
    by (simp add: mark_source_def store32_frame composed_def store_message_def)
  then show ?thesis using False by (simp add: message_bytes_source)
qed

lemma marked_frame: "x \<notin> region (linear s c m) sizeof_MESSAGE \<Longrightarrow> kmem (mark_source (composed s c m msg) c m) x = kmem s x"
proof -
  assume x: "x \<notin> region (linear s c m) sizeof_MESSAGE"
  moreover have "x \<notin> region (linear s c m) 4" using x by (auto simp: region_def)
  ultimately show ?thesis by (simp add: mark_source_def composed_def store_message_def mem_simps)
qed

lemma receiving_no_wait: "accepts a d c \<Longrightarrow> (d, j) \<notin> (waits a)\<^sup>+"
  by (auto simp: waits_def accepts_def elim: converse_tranclE)

lemma load_message_cong: "(\<And>x. x \<in> region a sizeof_MESSAGE \<Longrightarrow> h x = h' x) \<Longrightarrow> load_message h a = load_message h' a"
proof -
  assume eq: "\<And>x. x \<in> region a sizeof_MESSAGE \<Longrightarrow> h x = h' x"
  have "load32 h (a + of_nat n) = load32 h' (a + of_nat n)" if "n + 4 \<le> sizeof_MESSAGE" for n
  proof (rule load32_cong)
    fix x
    assume "x \<in> region (a + of_nat n) 4"
    then obtain k where "k < 4" "x = a + of_nat (n + k)" by (auto simp: region_def add.assoc)
    then show "h x = h' x" using that region_memI [of "n + k" sizeof_MESSAGE a] eq by simp
  qed
  from this [of 0] this [of 4] this [of 8] this [of 12] this [of 16] this [of 20] this [of 24] this [of 28] this [of 32]
    this [of 36] this [of 40] this [of 44] show ?thesis
    by (simp add: load_message_def load64_def add.assoc)
qed

text \<open>A send to a process that waits for it.\<close>

definition delivered :: "kstate \<Rightarrow> nat \<Rightarrow> nat \<Rightarrow> u32 \<Rightarrow> message \<Rightarrow> kstate \<Rightarrow> bool" where
  "delivered s c d m msg t \<longleftrightarrow>
     load_message (kmem t) (linear s d (p_msg (proc_table s d))) = msg\<lparr>source := of_nat c\<rparr> \<and>
     proc_table t = (proc_table s)(d := (proc_table s d)\<lparr>p_msg := 0, p_flags := 0, p_recvfrom := NO_TASK\<rparr>) \<and>
     (\<forall>x. x \<notin> region (linear s d (p_msg (proc_table s d))) sizeof_MESSAGE \<union> region (linear s c m) sizeof_MESSAGE \<longrightarrow> kmem t x = kmem s x) \<and>
     p_proc_ready t = p_proc_ready s"

lemma send_delivers:
  assumes ok: "kernel_ok s a" and c: "p_proc_ready s = c" and d: "d < nr_slots" "accepts a d c" and m: "m \<noteq> 0"
    and dis: "region (linear s d (p_msg (proc_table s d))) sizeof_MESSAGE \<inter> region (linear s c m) sizeof_MESSAGE = {}"
  shows "\<exists>t. sys_sendrec (composed s c m msg) SEND (int d) m c = Inr t \<and> delivered s c d m msg t \<and> kernel_ok t (spec_send c d a)"
proof -
  let ?s = "mark_source (composed s c m msg) c m" and ?dst = "linear s d (p_msg (proc_table s d))"
  have ok': "kernel_ok (composed s c m msg) a" "kernel_ok ?s a" using ok by simp_all
  note k = kernel_okD [OF ok'(2)]
  have c': "c < nr_slots" "stat a c = Ready" "d \<noteq> c" using kernel_okD(7, 8) [OF ok] c d(2) by (auto simp: accepts_def)
  have lin: "linear ?s = linear s" by (simp add: mark_source_def linear_def fun_eq_iff)
  define t where "t = ?s\<lparr>kmem := memcpy (kmem ?s) ?dst (linear s c m) sizeof_MESSAGE,
      proc_table := (proc_table s)(d := (proc_table s d)\<lparr>p_msg := 0, p_flags := 0, p_recvfrom := NO_TASK\<rparr>)\<rparr>"
  have run: "sys_sendrec (composed s c m msg) SEND (int d) m c = Inr t"
    using msg_send_deliver [OF k(1 - 3) c'(1, 2) d(1) c'(3) m receiving_no_wait [OF d(2)] d(2)] d(1) c'(3)
    by (simp add: sys_sendrec_unfold [OF ok'(1)] lin t_def)
  moreover have "kernel_ok t (spec_send c d a)"
    using kernel_ok_sendrec [OF ok'(1), of SEND "int d" m t] run c by (simp add: sendrec_spec_def)
  moreover have "load_message (kmem t) ?dst = msg\<lparr>source := of_nat c\<rparr>"
    unfolding t_def by (simp add: load_message_memcpy [OF dis marked_message])
  moreover have "kmem t x = kmem s x" if "x \<notin> region ?dst sizeof_MESSAGE \<union> region (linear s c m) sizeof_MESSAGE" for x
    using that by (simp add: t_def mem_simps marked_frame)
  ultimately show ?thesis by (auto simp: delivered_def t_def mark_source_def)
qed

text \<open>A process that waits for one sender, none of whose messages is there.\<close>

lemma receive_waits:
  assumes ok: "kernel_ok s a" and c: "p_proc_ready s = c" and d: "d < nr_slots" "d \<noteq> c" "stat a d = Ready" and int: "\<not> intp a c" and m: "m \<noteq> 0"
  shows "\<exists>t. sys_sendrec s RECEIVE (int d) m c = Inr t \<and> kernel_ok t (a\<lparr>stat := (stat a)(c := Receiving (int d))\<rparr>) \<and>
    p_msg (proc_table t c) = m \<and> linear t = linear s \<and> (\<forall>x. x \<notin> region (linear s c m) 4 \<longrightarrow> kmem t x = kmem s x)"
proof -
  let ?s = "mark_source s c m"
  have ok': "kernel_ok ?s a" using ok by simp
  note k = kernel_okD [OF ok']
  have c': "c < nr_slots" "stat a c = Ready" using kernel_okD(7, 8) [OF ok] c by simp_all
  have src: "valid_src c (int d)" using d by (simp add: valid_src_def)
  have "d \<notin> set (sendq a c)" using ipc_ok_queue(2) [OF k(2) c'(1), of d] d(3) by simp
  then have free: "find_sender ?s c (int d) = Inr None" and spec: "spec_receive c (int d) a = a\<lparr>stat := (stat a)(c := Receiving (int d))\<rparr>"
    using msg_receive_cases [OF k(1 - 3) c' m src, of "find_sender ?s c (int d) = Inr None \<and> spec_receive c (int d) a = a\<lparr>stat := (stat a)(c := Receiving (int d))\<rparr>"]
      int d(1) by force+
  have "runnable (proc_table (waiting ?s c (int d) m)) d" using runnable_iff_ready [OF k(1), of d] d by (simp add: runnable_waiting)
  moreover have "0 < p_priority (proc_table (waiting ?s c (int d) m) d)"
    using kernel_ok_priority [OF ok', of d] runnable_iff_ready [OF k(1), of d] d by (simp add: waiting_def)
  ultimately obtain t where t: "schedule (waiting ?s c (int d) m) = Some t" using schedule_hangs by (cases "schedule (waiting ?s c (int d) m)") fastforce+
  have run: "sys_sendrec s RECEIVE (int d) m c = Inr t"
    using msg_receive_wait [OF k(1) c' m src _ free] int t d(1, 2) by (simp add: sys_sendrec_unfold [OF ok])
  have "kernel_ok t (a\<lparr>stat := (stat a)(c := Receiving (int d))\<rparr>)"
    using kernel_ok_sendrec [OF ok, of RECEIVE "int d" m t] run c by (simp add: sendrec_spec_def spec)
  moreover have "p_msg (proc_table t c) = m" "linear t = linear s" "kmem t = kmem ?s"
    by (simp_all add: schedule_frame [OF t] waiting_def linear_def ldt_seg_linear_def fun_eq_iff)
  moreover have "kmem ?s x = kmem s x" if "x \<notin> region (linear s c m) 4" for x using that by (simp add: mark_source_def mem_simps)
  ultimately show ?thesis using run by auto
qed

text \<open>
  C6. A request and its answer. The running process \<open>c\<close> calls \<^verbatim>\<open>send_recv(BOTH, d, ...)\<close> while \<open>d\<close> waits for it, and
  no interrupt is pending for \<open>c\<close>. The first trap puts the request, marked with its sender, into the buffer of \<open>d\<close> and makes
  \<open>d\<close> ready; the second one always returns, leaving \<open>c\<close> waiting for \<open>d\<close> and the request where it is. Whenever \<open>d\<close>
  runs later and sends its answer, \<open>c\<close> is ready again and finds the answer, marked with \<open>d\<close>, in the buffer of its request.
\<close>

theorem call_answered:
  assumes "kernel_ok s a" "p_proc_ready s = c" "d < nr_slots" "accepts a d c" "\<not> intp a c" "m \<noteq> 0"
    "place = linear s d (p_msg (proc_table s d))" "region place sizeof_MESSAGE \<inter> region (linear s c m) sizeof_MESSAGE = {}"
  shows "\<exists>t u b. send_recv (composed s c m msg) BOTH (int d) m c = Inr (t, Some RECEIVE) \<and>
    load_message (kmem t) place = msg\<lparr>source := of_nat c\<rparr> \<and> stat (spec_send c d a) d = Ready \<and>
    sys_sendrec t RECEIVE (int d) m c = Inr u \<and> kernel_ok u b \<and> stat b c = Receiving (int d) \<and> stat b d = Ready \<and>
    load_message (kmem u) place = msg\<lparr>source := of_nat c\<rparr> \<and>
    (\<forall>v b m' reply. kernel_ok v b \<and> p_proc_ready v = d \<and> stat b c = Receiving (int d) \<and> p_msg (proc_table v c) = m \<and>
       linear v c m = linear s c m \<and> m' \<noteq> 0 \<and> region (linear s c m) sizeof_MESSAGE \<inter> region (linear v d m') sizeof_MESSAGE = {} \<longrightarrow>
       (\<exists>w. send_recv (composed v d m' reply) SEND (int c) m' d = Inr (w, None) \<and>
          load_message (kmem w) (linear s c m) = reply\<lparr>source := of_nat d\<rparr> \<and> kernel_ok w (spec_send d c b) \<and> stat (spec_send d c b) c = Ready))"
proof -
  have va: "va2la (composed v x m' r) x m' = Inr (linear v x m')" if "kernel_ok v b" for v b x m' r
    using va2la_linear [of "composed v x m' r"] kernel_okD(3) [of "composed v x m' r" b] that by simp
  have ready: "stat (spec_send x y b) y = Ready" if "accepts b y x" for b x y using that by (simp add: spec_send_def)
  note dis = assms(8) [unfolded assms(7)]
  have ne: "d \<noteq> c" and c: "c < nr_slots" using kernel_okD(7, 8) [OF assms(1)] assms(2, 4) by (auto simp: accepts_def)
  obtain t where t: "sys_sendrec (composed s c m msg) SEND (int d) m c = Inr t" "delivered s c d m msg t" "kernel_ok t (spec_send c d a)"
    using send_delivers [OF assms(1 - 4, 6) dis] by blast
  have "linear t = linear s" "p_proc_ready t = c" "\<not> intp (spec_send c d a) c"
    using t(2) assms(2, 4, 5) by (simp_all add: delivered_def linear_def ldt_seg_linear_def fun_eq_iff spec_send_def)
  then obtain u where u: "sys_sendrec t RECEIVE (int d) m c = Inr u" "kernel_ok u ((spec_send c d a)\<lparr>stat := (stat (spec_send c d a))(c := Receiving (int d))\<rparr>)"
      "\<forall>x. x \<notin> region (linear s c m) 4 \<longrightarrow> kmem u x = kmem t x"
    using receive_waits [OF t(3) _ assms(3) ne ready [OF assms(4)] _ assms(6)] by auto
  have "kmem u x = kmem t x" if "x \<in> region place sizeof_MESSAGE" for x
  proof -
    have "region (linear s c m) 4 \<subseteq> region (linear s c m) sizeof_MESSAGE" by (auto simp: region_def)
    then show ?thesis using that assms(8) u(3) by blast
  qed
  then have "load_message (kmem u) place = load_message (kmem t) place" by (rule load_message_cong)
  moreover have "\<exists>w. send_recv (composed v d m' reply) SEND (int c) m' d = Inr (w, None) \<and>
          load_message (kmem w) (linear s c m) = reply\<lparr>source := of_nat d\<rparr> \<and> kernel_ok w (spec_send d c b) \<and> stat (spec_send d c b) c = Ready"
    if v: "kernel_ok v b" "p_proc_ready v = d" "stat b c = Receiving (int d)" "p_msg (proc_table v c) = m" "linear v c m = linear s c m" "m' \<noteq> 0"
      "region (linear s c m) sizeof_MESSAGE \<inter> region (linear v d m') sizeof_MESSAGE = {}" for v b m' reply
  proof -
    have acc: "accepts b c d" using v(3) by (simp add: accepts_def)
    obtain w where "sys_sendrec (composed v d m' reply) SEND (int c) m' d = Inr w" "delivered v d c m' reply w" "kernel_ok w (spec_send d c b)"
      using send_delivers [OF v(1, 2) c acc v(6)] v(4, 5, 7) by auto
    then show ?thesis using ready [OF acc] v(4, 5) by (simp add: send_recv_def va [OF v(1)] delivered_def)
  qed
  ultimately show ?thesis
    using t u(1, 2) ready [OF assms(4)] ne assms(7)
    by (intro exI [of _ t] exI [of _ u] exI [of _ "(spec_send c d a)\<lparr>stat := (stat (spec_send c d a))(c := Receiving (int d))\<rparr>"])
      (simp add: send_recv_def va [OF assms(1)] delivered_def)
qed

section \<open>Witness\<close>

lemma regions_apart:
  assumes "unat a + n \<le> unat b" "unat b + l \<le> 2 ^ 32"
  shows "region a n \<inter> region b l = {}" "region b l \<inter> region a n = {}"
proof -
  have "x \<notin> region b l" if "x \<in> region a n" for x
  proof
    assume "x \<in> region b l"
    with that obtain i j where ij: "i < n" "x = a + of_nat i" "j < l" "x = b + of_nat j" by (auto simp: region_def)
    have "unat x = unat a + i" using ij(1, 2) assms by (simp add: unat_word_ariths unat_of_nat_u32)
    moreover have "unat x = unat b + j" using ij(3, 4) assms by (simp add: unat_word_ariths unat_of_nat_u32)
    ultimately show False using ij(1) assms by simp
  qed
  then show "region a n \<inter> region b l = {}" "region b l \<inter> region a n = {}" by blast+
qed

lemma kernel_ok_waiting:
  assumes "kernel_ok s a" "i < nr_slots" "stat a i = Ready" "i \<noteq> p_proc_ready s" "m \<noteq> 0" "valid_src i src"
  shows "kernel_ok (waiting s i src m) (a\<lparr>stat := (stat a)(i := Receiving src)\<rparr>)"
proof -
  note k = kernel_okD [OF assms(1)]
  have "kernel_frame s (waiting s i src m)" by (simp add: kernel_frame_def waiting_def)
  moreover have "runnable (proc_table (waiting s i src m)) (p_proc_ready (waiting s i src m))"
    using k(9) assms(4) by (simp add: runnable_def waiting_def)
  ultimately show ?thesis
    using kernel_okI [OF assms(1) ipc_rel_waiting [OF k(1) assms(2, 3, 5, 6)] ipc_ok_wake(2) [OF k(2)]] k(5, 6) assms(3)
    by (auto simp: waiting_def split: if_splits)
qed

theorem call_answered_witness:
  "\<exists>t u w. send_recv (composed (waiting demo_state 3 ANY 0x3000) 5 0x1000 reset_msg) BOTH 3 0x1000 5 = Inr (t, Some RECEIVE) \<and>
     load_message (kmem t) 0x3000 = reset_msg\<lparr>source := 5\<rparr> \<and> sys_sendrec t RECEIVE 3 0x1000 5 = Inr u \<and>
     load_message (kmem u) 0x3000 = reset_msg\<lparr>source := 5\<rparr> \<and>
     send_recv (composed (waiting (demo_state\<lparr>p_proc_ready := 3\<rparr>) 5 3 0x1000) 3 0x2000 reset_msg) SEND 5 0x2000 3 = Inr (w, None) \<and>
     load_message (kmem w) 0x1000 = reset_msg\<lparr>source := 3\<rparr>"
proof -
  let ?s = "waiting demo_state 3 ANY 0x3000" and ?a = "boot_ipc\<lparr>stat := (stat boot_ipc)(3 := Receiving ANY)\<rparr>"
  let ?v = "waiting (demo_state\<lparr>p_proc_ready := 3\<rparr>) 5 3 0x1000" and ?b = "boot_ipc\<lparr>stat := (stat boot_ipc)(5 := Receiving 3)\<rparr>"
  have ok: "kernel_ok ?s ?a" by (rule kernel_ok_waiting [OF demo_kernel_ok]) (simp_all add: boot_ipc_def demo_state_def valid_src_def)
  have "kernel_ok (demo_state\<lparr>p_proc_ready := 3\<rparr>) boot_ipc"
    using kernel_okI [OF demo_kernel_ok, of "demo_state\<lparr>p_proc_ready := 3\<rparr>" boot_ipc] kernel_okD [OF demo_kernel_ok]
      ipc_rel_cong [of "demo_state\<lparr>p_proc_ready := 3\<rparr>" demo_state boot_ipc]
    by (simp add: kernel_frame_def runnable_def demo_state_def zero_proc_def)
  then have ok': "kernel_ok ?v ?b" by (rule kernel_ok_waiting) (simp_all add: boot_ipc_def demo_state_def valid_src_def)
  have lin: "linear ?s i x = x" "linear ?v i x = x" for i x
    by (simp_all add: linear_def waiting_def demo_state_def ldt_seg_linear_def zero_proc_def zero_descriptor_def desc_base_def)
  have place: "0x3000 = linear ?s 3 (p_msg (proc_table ?s 3))" by (simp add: lin, simp add: waiting_def)
  have dis: "region 0x3000 sizeof_MESSAGE \<inter> region (linear ?s 5 0x1000) sizeof_MESSAGE = {}" by (simp add: lin regions_apart)
  have "p_proc_ready ?s = 5" "accepts ?a 3 5" "\<not> intp ?a 5" by (simp_all add: waiting_def demo_state_def accepts_def boot_ipc_def)
  from call_answered [OF ok this(1) _ this(2, 3) _ place dis, of reset_msg] obtain t u where tu:
    "send_recv (composed ?s 5 0x1000 reset_msg) BOTH 3 0x1000 5 = Inr (t, Some RECEIVE)" "load_message (kmem t) 0x3000 = reset_msg\<lparr>source := 5\<rparr>"
    "sys_sendrec t RECEIVE 3 0x1000 5 = Inr u" "load_message (kmem u) 0x3000 = reset_msg\<lparr>source := 5\<rparr>"
    and later: "\<And>v b m' reply. kernel_ok v b \<and> p_proc_ready v = 3 \<and> stat b 5 = Receiving (int 3) \<and> p_msg (proc_table v 5) = 0x1000 \<and>
       linear v 5 0x1000 = linear ?s 5 0x1000 \<and> m' \<noteq> 0 \<and> region (linear ?s 5 0x1000) sizeof_MESSAGE \<inter> region (linear v 3 m') sizeof_MESSAGE = {} \<Longrightarrow>
       \<exists>w. send_recv (composed v 3 m' reply) SEND (int 5) m' 3 = Inr (w, None) \<and> load_message (kmem w) (linear ?s 5 0x1000) = reply\<lparr>source := of_nat 3\<rparr>"
    by fastforce
  have "region 0x1000 sizeof_MESSAGE \<inter> region 0x2000 sizeof_MESSAGE = {}" by (simp add: regions_apart)
  then obtain w where "send_recv (composed ?v 3 0x2000 reset_msg) SEND 5 0x2000 3 = Inr (w, None)" "load_message (kmem w) 0x1000 = reset_msg\<lparr>source := 3\<rparr>"
    using later [of ?v ?b "0x2000" reset_msg] ok' unfolding lin by (auto simp: waiting_def)
  with tu show ?thesis by blast
qed

end
