(* ===== verification/Mm.thy ===== *)
theory Mm
  imports Fs_Main Sendrecv Vsprintf
begin

text \<open>
  The memory manager, \<^verbatim>\<open>mm/main.c\<close> and \<^verbatim>\<open>mm/forkexit.c\<close>: the images of forked processes, and \<^verbatim>\<open>do_fork\<close>.

  The kernel state is the one the file system's driver works on. The question to the file system is
  its handling of that message, and the answer to the child is a system call of the memory manager.
  Local variables the code does not initialise hold what was on the stack before, the argument
  \<open>junk\<close>; the address of the local message \<^verbatim>\<open>m\<close> is the argument \<open>mp\<close>.
\<close>

section \<open>Definitions\<close>

record mm =
  mm_msg :: message
  memory_size :: int
  mm_fs :: fs

definition mks :: "mm \<Rightarrow> kstate" where
  "mks m = hks (drv (mm_fs m))"

definition set_mks :: "kstate \<Rightarrow> mm \<Rightarrow> mm" where
  "set_mks s m = m\<lparr>mm_fs := (mm_fs m)\<lparr>drv := (drv (mm_fs m))\<lparr>hks := s\<rparr>\<rparr>\<rparr>"

definition init_mm :: "elf_abi \<Rightarrow> mm \<Rightarrow> mm result" where
  "init_mm elf m = bindE (get_boot_params elf (kmem (mks m))) (\<lambda>bp. Inr (m\<lparr>memory_size := sint (mem_size bp)\<rparr>))"

text \<open>No sum of \<^verbatim>\<open>alloc_mem\<close> leaves the range of \<^verbatim>\<open>int\<close>: process numbers are below 37 and the size is at most \<open>0x100000\<close>.\<close>

definition alloc_mem :: "int \<Rightarrow> int \<Rightarrow> int \<Rightarrow> int result" where
  "alloc_mem msize pid memsize =
     check 67 (pid \<ge> NR_TASKS + NR_NATIVE_PROCS)
     (if memsize > PROC_IMAGE_SIZE_DEFAULT then Inl (Panic 69)
      else let base = PROCS_BASE + (pid - (NR_TASKS + NR_NATIVE_PROCS)) * PROC_IMAGE_SIZE_DEFAULT
           in if base + memsize \<ge> msize then Inl (Panic 78) else Inr base)"

text \<open>\<^verbatim>\<open>sprintf(p->name, "%s_%d", ...)\<close>; the field has 16 bytes.\<close>

definition fork_name :: "string \<Rightarrow> nat \<Rightarrow> string" where
  "fork_name name child = name @ CHR ''_'' # map (\<lambda>c. char_of (unat c)) (digits 10 child)"

definition fork_entry :: "nat \<Rightarrow> nat \<Rightarrow> kstate \<Rightarrow> kstate result" where
  "fork_entry pid child s =
     (let parent = proc_table s pid; name = fork_name (p_name parent) child
      in if length name < 16
         then Inr (upd_proc child (\<lambda>p. parent\<lparr>ldt_sel := ldt_sel p, p_parent := int pid, p_name := name\<rparr>) s)
         else Inl (OutOfBounds 38))"

definition seg_size :: "u32 \<Rightarrow> descriptor \<Rightarrow> u32" where
  "seg_size limit d = (limit + 1) * (if limit_high_attr2 d AND 0x80 \<noteq> 0 then 4096 else 1)"

definition image_desc :: "u32 \<Rightarrow> u16 \<Rightarrow> descriptor" where
  "image_desc base type = init_descriptor base (drop_bit LIMIT_4K_SHIFT (PROC_IMAGE_SIZE_DEFAULT - 1))
     (DA_32 OR DA_LIMIT_4K OR type OR push_bit 5 3)"

definition fork_image :: "int \<Rightarrow> nat \<Rightarrow> nat \<Rightarrow> kstate \<Rightarrow> kstate result" where
  "fork_image msize pid child s =
     (let ppd = ldts (proc_table s pid) INDEX_LDT_C;
          caller_T_base = reassembly (ucast (base_high ppd)) 24 (ucast (base_mid ppd)) 16 (ucast (base_low ppd));
          caller_T_limit = desc_limit ppd;
          caller_T_size = seg_size caller_T_limit ppd;
          ppd = ldts (proc_table s pid) INDEX_LDT_RW;
          caller_D_S_base = reassembly (ucast (base_high ppd)) 24 (ucast (base_mid ppd)) 16 (ucast (base_low ppd));
          caller_D_S_limit = desc_limit ppd;
          caller_D_S_size = seg_size caller_T_limit ppd
      in check 52 (caller_T_base = caller_D_S_base \<and> caller_T_limit = caller_D_S_limit \<and> caller_T_size = caller_D_S_size)
         (bindE (alloc_mem msize (int child) (sint caller_T_size)) (\<lambda>base.
            let child_base = word_of_int base;
                s = s\<lparr>kmem := memcpy (kmem s) child_base caller_T_base (unat caller_T_size)\<rparr>
            in Inr (upd_proc child (\<lambda>p. p\<lparr>ldts := (ldts p)(INDEX_LDT_C := image_desc child_base DA_C,
                 INDEX_LDT_RW := image_desc child_base DA_DRW)\<rparr>) s))))"

definition do_fork :: "message \<Rightarrow> u32 \<Rightarrow> mm \<Rightarrow> (int \<times> mm) result" where
  "do_fork junk mp m =
     (let s = mks m;
          child = (case first_index (\<lambda>i. p_flags (proc_table s i) = FREE_SLOT) nr_slots of Some i \<Rightarrow> i | None \<Rightarrow> nr_slots);
          pid = sint (source (mm_msg m))
      in check 27 (child \<ge> NR_TASKS + NR_NATIVE_PROCS)
         (if child = nr_slots then Inr (-1, m)
          else if \<not> (0 \<le> pid \<and> pid < nr_slots) then Inl (OutOfBounds 35)
          else bindE (fork_entry (nat pid) child s) (\<lambda>s.
            bindE (fork_image (memory_size m) (nat pid) child s) (\<lambda>s.
            bindE (task_fs_msg (junk\<lparr>source := TASK_MM, msg_type := FORK, m3i2 := of_nat child\<rparr>) (mm_fs (set_mks s m))) (\<lambda>(answer, f).
              if answer = None then Inl (Hang 73)
              else let m = m\<lparr>mm_fs := f, mm_msg := (mm_msg m)\<lparr>m3i2 := of_nat child\<rparr>\<rparr>; s = mks m
                in bindE (va2la s TASK_MM mp) (\<lambda>mla.
                   bindE (send_recv (s\<lparr>kmem := store_message (kmem s) mla (junk\<lparr>msg_type := SYSCALL_RET, m3i1 := 0, m3i2 := 0\<rparr>)\<rparr>)
                            SEND (int child) mp TASK_MM) (\<lambda>(s, _).
                   Inr (0, set_mks s m))))))))"

text \<open>The body of the loop of \<^verbatim>\<open>task_mm\<close> on a message received: the answer and the process it goes to.\<close>

definition task_mm_msg :: "message \<Rightarrow> u32 \<Rightarrow> message \<Rightarrow> mm \<Rightarrow> (int \<times> message \<times> mm) result" where
  "task_mm_msg junk mp msg m =
     check 45 (msg_type msg = FORK)
     (bindE (do_fork junk mp (m\<lparr>mm_msg := msg\<rparr>)) (\<lambda>(r, m).
        let m = m\<lparr>mm_msg := (mm_msg m)\<lparr>m3i1 := word_of_int r, msg_type := SYSCALL_RET\<rparr>\<rparr>
        in Inr (sint (source msg), mm_msg m, m)))"

section \<open>Images\<close>

lemma alloc_mem_ok:
  assumes "9 \<le> pid" "memsize \<le> 0x100000" "0xA00000 + (pid - 9) * 0x100000 + memsize < msize"
  shows "alloc_mem msize pid memsize = Inr (0xA00000 + (pid - 9) * 0x100000)"
  using assms by (simp add: alloc_mem_def)

lemma alloc_mem_Inr:
  assumes "alloc_mem msize pid memsize = Inr base"
  shows "base = 0xA00000 + (pid - 9) * 0x100000" "9 \<le> pid" "memsize \<le> 0x100000" "base + memsize < msize"
  using assms by (auto simp: alloc_mem_def Let_def split: if_splits)

section \<open>The process table\<close>

text \<open>What forking adds to the specification of the message layer: a process that waits as its parent does.\<close>

definition spec_fork :: "nat \<Rightarrow> nat \<Rightarrow> ipc \<Rightarrow> ipc" where
  "spec_fork pid child a = a\<lparr>stat := (stat a)(child := stat a pid), intp := (intp a)(child := intp a pid)\<rparr>"

text \<open>The parent waits for the memory manager's answer, the child's slot is free and nobody sends to either.\<close>

definition forkable :: "ipc \<Rightarrow> nat \<Rightarrow> nat \<Rightarrow> bool" where
  "forkable a pid child \<longleftrightarrow> pid < nr_slots \<and> child < nr_slots \<and> 9 \<le> child \<and> stat a pid = Receiving TASK_MM \<and>
     stat a child = Unused \<and> sendq a pid = [] \<and> sendq a child = []"

lemma ipc_ok_fork:
  assumes "ipc_ok a" "forkable a pid child"
  shows "ipc_ok (spec_fork pid child a)"
proof -
  have "waits (spec_fork pid child a) = waits a"
    using assms(2) by (auto simp: waits_def spec_fork_def forkable_def split: if_splits)
  then show ?thesis using assms by (auto simp: ipc_ok_def spec_fork_def forkable_def)
qed

lemma kernel_ok_fork:
  assumes "kernel_ok s a" "forkable a pid child" "fork_entry pid child s = Inr t"
  shows "kernel_ok t (spec_fork pid child a)"
proof -
  note k = kernel_okD [OF assms(1)] and f = assms(2) [unfolded forkable_def]
  obtain nm where t: "t = upd_proc child (\<lambda>p. (proc_table s pid)\<lparr>ldt_sel := ldt_sel p, p_parent := int pid, p_name := nm\<rparr>) s"
    using assms(3) by (auto simp: fork_entry_def Let_def split: if_splits)
  have ne: "pid \<noteq> child" using f by auto
  have q: "is_queue (\<lambda>k. next_sending (proc_table t k)) (q_sending (proc_table t i)) (sendq a i)" if "i < nr_slots" for i
  proof (cases "i = child")
    case True
    then show ?thesis using ipc_relD(3) [OF k(1), of pid] f by (cases "q_sending (proc_table s pid)") (auto simp: t)
  next
    case False
    have "child \<notin> set (sendq a i)" using ipc_ok_queue(2) [OF k(2) that, of child] f by simp
    then have "is_queue (\<lambda>k. next_sending (proc_table t k)) (q_sending (proc_table s i)) (sendq a i) =
        is_queue (\<lambda>k. next_sending (proc_table s k)) (q_sending (proc_table s i)) (sendq a i)"
      by (intro is_queue_cong) (auto simp: t)
    then show ?thesis using ipc_relD(3) [OF k(1) that] False by (simp add: t)
  qed
  have "slot_rel pid (proc_table s pid) (Receiving TASK_MM)" using ipc_relD(1) [OF k(1), of pid] f by simp
  then have "slot_rel i (proc_table t i) (stat (spec_fork pid child a) i)" if "i < nr_slots" for i
    using ipc_relD(1) [OF k(1) that] f ne by (cases "stat a i") (auto simp: spec_fork_def t valid_src_def)
  then have "ipc_rel t (spec_fork pid child a)"
    using ipc_relD(2) [OF k(1)] f q unfolding ipc_rel_def by (simp add: spec_fork_def t)
  moreover have "segs_ok t" using k(3) f by (simp add: segs_ok_def t ldt_seg_linear_def)
  moreover have "runnable (proc_table t) (p_proc_ready t)" using k(7, 8, 9) f by (auto simp: runnable_def t)
  moreover have "\<forall>i<nr_slots. stat (spec_fork pid child a) i \<noteq> Unused \<longrightarrow> 0 < p_priority (proc_table t i) \<and> 0 \<le> p_ticks (proc_table t i)"
    using assms(1) f by (auto simp: kernel_ok_def t spec_fork_def)
  ultimately show ?thesis using ipc_ok_fork [OF k(2) assms(2)] k(4, 5, 6) by (simp add: kernel_ok_def t)
qed

text \<open>The image of a forked process: where the parent's lies, how many bytes it has, and where the child's goes.\<close>

definition images :: "mm \<Rightarrow> nat \<Rightarrow> nat \<Rightarrow> u32 \<Rightarrow> nat \<Rightarrow> u32 \<Rightarrow> bool" where
  "images m pid child b n base \<longleftrightarrow>
     (\<forall>i \<in> {INDEX_LDT_C, INDEX_LDT_RW}. desc_base (ldts (proc_table (mks m) pid) i) = b \<and>
        seg_size (desc_limit (ldts (proc_table (mks m) pid) INDEX_LDT_C)) (ldts (proc_table (mks m) pid) i) = of_nat n) \<and>
     desc_limit (ldts (proc_table (mks m) pid) INDEX_LDT_RW) = desc_limit (ldts (proc_table (mks m) pid) INDEX_LDT_C) \<and>
     n \<le> PROC_IMAGE_SIZE_DEFAULT \<and> base = PROCS_BASE + of_nat (child - 9) * PROC_IMAGE_SIZE_DEFAULT \<and>
     int (unat base + n) < memory_size m \<and> region b n \<inter> region base n = {}"

lemma mks_set [simp]: "mks (set_mks s m) = s" "mm_msg (set_mks s m) = mm_msg m" "memory_size (set_mks s m) = memory_size m"
  by (simp_all add: mks_def set_mks_def)

lemma image_base:
  assumes "9 \<le> child" "child < nr_slots" "base = 0xA00000 + of_nat (child - 9) * (0x100000 :: u32)"
  shows "int (unat base) = 0xA00000 + (int child - 9) * 0x100000" "(word_of_int (0xA00000 + (int child - 9) * 0x100000) :: u32) = base"
proof -
  have "base = of_nat (0xA00000 + (child - 9) * 0x100000)" using assms(3) by simp
  moreover have "0xA00000 + (child - 9) * 0x100000 < (2 :: nat) ^ 32" using assms(2) by simp
  ultimately have "unat base = 0xA00000 + (child - 9) * 0x100000" by (simp add: unat_of_nat_u32 del: of_nat_add of_nat_mult)
  then show *: "int (unat base) = 0xA00000 + (int child - 9) * 0x100000" using assms(1) by (simp add: of_nat_diff)
  show "(word_of_int (0xA00000 + (int child - 9) * 0x100000) :: u32) = base" unfolding * [symmetric] by simp
qed

definition child_ldts :: "u32 \<Rightarrow> (nat \<Rightarrow> descriptor) \<Rightarrow> nat \<Rightarrow> descriptor" where
  "child_ldts base l = l(INDEX_LDT_C := image_desc base DA_C, INDEX_LDT_RW := image_desc base DA_DRW)"

lemma fork_image_ok:
  assumes "images m pid child b n base" "9 \<le> child" "child < nr_slots" "ldts (proc_table s pid) = ldts (proc_table (mks m) pid)"
  shows "fork_image (memory_size m) pid child s =
    Inr (upd_proc child (\<lambda>p. p\<lparr>ldts := child_ldts base (ldts p)\<rparr>) (s\<lparr>kmem := memcpy (kmem s) base b n\<rparr>))"
proof -
  note i = assms(1) [unfolded images_def]
  have n: "sint (of_nat n :: u32) = int n" "unat (of_nat n :: u32) = n" using i by (simp_all add: sint_of_nat_small unat_of_nat_u32)
  have "base = 0xA00000 + of_nat (child - 9) * (0x100000 :: u32)" using i by simp
  note base = image_base [OF assms(2, 3) this]
  have "alloc_mem (memory_size m) (int child) (int n) = Inr (int (unat base))"
    using i assms(2) base(1) by (subst alloc_mem_ok) auto
  then show ?thesis using i n
    by (simp add: fork_image_def assms(4) reassembly_eq_desc_base Let_def child_ldts_def)
qed

section \<open>Descriptors of the child\<close>

lemma refs_ok_cong:
  assumes "\<And>s. s \<in> S \<Longrightarrow> slot_fd g s = slot_fd f s" "f_desc_table g = f_desc_table f" "inode_table g = inode_table f" "root_inode g = root_inode f"
  shows "refs_ok g S = refs_ok f S"
proof -
  have "{s \<in> S. slot_fd g s = Some d} = {s \<in> S. slot_fd f s = Some d}" for d using assms(1) by auto
  then show ?thesis using assms by (simp add: refs_ok_def load_def)
qed

lemma fork_message_ok:
  assumes "refs_ok f {s \<in> all_slots. fst s \<noteq> child}" "child < nr_slots" "pid < nr_slots" "pid \<noteq> child"
    "filp (proc_table (hks (drv f)) child) = filp (proc_table (hks (drv f)) pid)"
  shows "\<exists>r g. task_fs_msg (junk\<lparr>source := TASK_MM, msg_type := FORK, m3i2 := of_nat child\<rparr>) f = Inr (Some r, g) \<and>
    refs_ok g all_slots \<and> drv g = drv f"
proof -
  let ?m = "junk\<lparr>source := TASK_MM, msg_type := FORK, m3i2 := of_nat child\<rparr>"
  have "slot_fd (request ?m 4 f) (child, i) = slot_fd (request ?m 4 f) (pid, i)" for i using assms(5) by (simp add: slot_fd_def)
  then obtain g where g: "fs_fork (request ?m 4 f) = Inr (0, g)" "refs_ok g all_slots" "drv g = drv f" "fs_msg g = ?m"
    using fs_fork_ok [of "request ?m 4 f" child pid] assms(1 - 4) by (auto simp: refs_ok_msg)
  then have "serve (request ?m 4 f) = Inr (4, g\<lparr>fs_msg := ?m\<lparr>m3i1 := 0\<rparr>\<rparr>)" by (simp add: serve_def Let_def)
  from task_fs_request [OF _ _ this] show ?thesis using g(2, 3) by (auto simp: refs_ok_msg)
qed

section \<open>Forking\<close>

text \<open>
  A request to fork: the memory manager runs, the parent \<open>pid\<close> waits for its answer, \<open>child\<close> is the first free slot, the
  parent's name leaves room for the child's, the images fit, the parent's message buffer lies in its image, and the
  counters of the file system are right for all slots but those of the free entry.
\<close>

definition fork_request :: "mm \<Rightarrow> ipc \<Rightarrow> nat \<Rightarrow> nat \<Rightarrow> u32 \<Rightarrow> nat \<Rightarrow> u32 \<Rightarrow> u32 \<Rightarrow> bool" where
  "fork_request m a pid child b n base mp \<longleftrightarrow>
     kernel_ok (mks m) a \<and> p_proc_ready (mks m) = TASK_MM \<and> forkable a pid child \<and> (\<forall>i<child. stat a i \<noteq> Unused) \<and>
     sint (source (mm_msg m)) = int pid \<and> length (p_name (proc_table (mks m) pid)) \<le> 12 \<and> images m pid child b n base \<and>
     unat (p_msg (proc_table (mks m) pid)) + sizeof_MESSAGE \<le> n \<and> mp \<noteq> 0 \<and> region base n \<inter> region mp sizeof_MESSAGE = {} \<and>
     refs_ok (mm_fs m) {s \<in> all_slots. fst s \<noteq> child}"

definition child_entry :: "nat \<Rightarrow> nat \<Rightarrow> u32 \<Rightarrow> kstate \<Rightarrow> proc" where
  "child_entry pid child base s = (proc_table s pid)\<lparr>ldt_sel := ldt_sel (proc_table s child), p_parent := int pid,
     p_name := fork_name (p_name (proc_table s pid)) child, ldts := child_ldts base (ldts (proc_table s pid))\<rparr>"

lemma digits_two: "child < 100 \<Longrightarrow> length (digits 10 child) \<le> 2"
proof -
  assume "child < 100"
  then have "child div 10 < 10" by simp
  then show ?thesis by (subst digits.simps) (simp add: Let_def digits.simps [of 10 "child div 10"])
qed

lemma fork_entry_ok:
  assumes "length (p_name (proc_table s pid)) \<le> 12" "child < nr_slots"
  shows "fork_entry pid child s = Inr (upd_proc child (\<lambda>p. (proc_table s pid)\<lparr>ldt_sel := ldt_sel p, p_parent := int pid,
    p_name := fork_name (p_name (proc_table s pid)) child\<rparr>) s)"
  using assms digits_two [of child] by (simp add: fork_entry_def fork_name_def Let_def)

lemma first_free_slot:
  assumes "kernel_ok s a" "stat a child = Unused" "child < nr_slots" "\<And>i. i < child \<Longrightarrow> stat a i \<noteq> Unused"
  shows "first_index (\<lambda>i. p_flags (proc_table s i) = FREE_SLOT) nr_slots = Some child"
proof -
  have "p_flags (proc_table s i) = FREE_SLOT \<longleftrightarrow> stat a i = Unused" if "i < nr_slots" for i
    using ipc_relD(1) [OF kernel_okD(1) [OF assms(1)] that] by (cases "stat a i") auto
  with assms(2 - 4) show ?thesis by (auto simp: first_index_Some)
qed

lemma kernel_ok_ldts:
  assumes "9 \<le> i"
  shows "kernel_ok (upd_proc i (\<lambda>p. p\<lparr>ldts := l p\<rparr>) s) a = kernel_ok s a"
proof -
  have "ipc_rel (upd_proc i (\<lambda>p. p\<lparr>ldts := l p\<rparr>) s) a = ipc_rel s a" by (rule ipc_rel_cong) auto
  moreover have "segs_ok (upd_proc i (\<lambda>p. p\<lparr>ldts := l p\<rparr>) s) = segs_ok s" using assms by (auto simp: segs_ok_def ldt_seg_linear_def)
  moreover have "runnable (proc_table (upd_proc i (\<lambda>p. p\<lparr>ldts := l p\<rparr>) s)) j = runnable (proc_table s) j" for j by (simp add: runnable_def)
  ultimately show ?thesis by (auto simp: kernel_ok_def)
qed

text \<open>The state of the kernel once the child has its entry and its image.\<close>

definition imaged :: "kstate \<Rightarrow> nat \<Rightarrow> nat \<Rightarrow> u32 \<Rightarrow> nat \<Rightarrow> u32 \<Rightarrow> kstate" where
  "imaged s pid child b n base = s\<lparr>proc_table := (proc_table s)(child := child_entry pid child base s), kmem := memcpy (kmem s) base b n\<rparr>"

lemma child_entry_sel:
  "p_msg (child_entry pid child base s) = p_msg (proc_table s pid)" "filp (child_entry pid child base s) = filp (proc_table s pid)"
  "regs (child_entry pid child base s) = regs (proc_table s pid)" "p_parent (child_entry pid child base s) = int pid"
  "desc_base (ldts (child_entry pid child base s) INDEX_LDT_C) = base" "desc_base (ldts (child_entry pid child base s) INDEX_LDT_RW) = base"
  by (simp_all add: child_entry_def child_ldts_def image_desc_def desc_base_init)

lemma fork_steps:
  assumes "fork_request m a pid child b n base mp"
  shows "\<exists>t. fork_entry pid child (mks m) = Inr t \<and> fork_image (memory_size m) pid child t = Inr (imaged (mks m) pid child b n base)"
    "kernel_ok (imaged (mks m) pid child b n base) (spec_fork pid child a)"
proof -
  note r = assms [unfolded fork_request_def] and f = assms [unfolded fork_request_def forkable_def]
  let ?t = "upd_proc child (\<lambda>p. (proc_table (mks m) pid)\<lparr>ldt_sel := ldt_sel p, p_parent := int pid,
    p_name := fork_name (p_name (proc_table (mks m) pid)) child\<rparr>) (mks m)"
  have ne: "pid \<noteq> child" using f by auto
  have t: "fork_entry pid child (mks m) = Inr ?t" using f by (intro fork_entry_ok) auto
  have u: "upd_proc child (\<lambda>p. p\<lparr>ldts := child_ldts base (ldts p)\<rparr>) (?t\<lparr>kmem := memcpy (kmem ?t) base b n\<rparr>) = imaged (mks m) pid child b n base"
    by (simp add: imaged_def upd_proc_def child_entry_def)
  have "fork_image (memory_size m) pid child ?t = Inr (imaged (mks m) pid child b n base)"
    using fork_image_ok [of m pid child b n base ?t] f ne unfolding u by simp
  with t show "\<exists>t. fork_entry pid child (mks m) = Inr t \<and> fork_image (memory_size m) pid child t = Inr (imaged (mks m) pid child b n base)" by blast
  have "kernel_ok ?t (spec_fork pid child a)" using kernel_ok_fork [OF _ _ t] r by blast
  then show "kernel_ok (imaged (mks m) pid child b n base) (spec_fork pid child a)"
    unfolding u [symmetric] using f by (subst kernel_ok_ldts) auto
qed

text \<open>The two messages of \<^verbatim>\<open>do_fork\<close>: to the file system, and to the child.\<close>

lemma fork_files:
  assumes "fork_request m a pid child b n base mp" "s = imaged (mks m) pid child b n base"
  shows "\<exists>ans g. task_fs_msg (junk\<lparr>source := TASK_MM, msg_type := FORK, m3i2 := of_nat child\<rparr>) (mm_fs (set_mks s m)) = Inr (Some ans, g) \<and>
    refs_ok g all_slots \<and> drv g = drv (mm_fs (set_mks s m))"
proof (rule fork_message_ok)
  note r = assms(1) [unfolded fork_request_def forkable_def]
  have "refs_ok (mm_fs (set_mks s m)) {s \<in> all_slots. fst s \<noteq> child} = refs_ok (mm_fs m) {s \<in> all_slots. fst s \<noteq> child}"
    by (rule refs_ok_cong) (auto simp: slot_fd_def set_mks_def imaged_def mks_def assms(2))
  then show "refs_ok (mm_fs (set_mks s m)) {s \<in> all_slots. fst s \<noteq> child}" using r by simp
  show "child < nr_slots" "pid < nr_slots" "pid \<noteq> child" using r by auto
  then show "filp (proc_table (hks (drv (mm_fs (set_mks s m)))) child) = filp (proc_table (hks (drv (mm_fs (set_mks s m)))) pid)"
    by (simp add: set_mks_def imaged_def child_entry_sel assms(2))
qed

lemma fork_linear:
  assumes "fork_request m a pid child b n base mp" "s = imaged (mks m) pid child b n base" "buf = p_msg (proc_table (mks m) pid)"
  shows "linear s 4 mp = mp" "linear s child (p_msg (proc_table s child)) = base + buf" "region (base + buf) sizeof_MESSAGE \<subseteq> region base n"
proof -
  have "ldt_seg_linear (proc_table s 4) INDEX_LDT_RW = 0" using kernel_okD(3) [OF fork_steps(2) [OF assms(1)]] by (simp add: segs_ok_def assms(2))
  then show "linear s 4 mp = mp" by (simp add: linear_def)
  show "linear s child (p_msg (proc_table s child)) = base + buf"
    using child_entry_sel(6) [of pid child base "mks m"] by (simp add: linear_def ldt_seg_linear_def assms(2), simp add: imaged_def child_entry_sel assms(3))
  show "region (base + buf) sizeof_MESSAGE \<subseteq> region base n"
    using region_sub [of "unat buf" sizeof_MESSAGE n base] assms(1, 3) by (simp add: fork_request_def)
qed

lemma fork_answer:
  assumes "fork_request m a pid child b n base mp" "s = imaged (mks m) pid child b n base"
  shows "\<exists>t. send_recv (s\<lparr>kmem := store_message (kmem s) mp msg\<rparr>) SEND (int child) mp 4 = Inr (t, None) \<and> delivered s 4 child mp msg t \<and>
    kernel_ok t (spec_send 4 child (spec_fork pid child a))" "va2la s 4 mp = Inr mp"
proof -
  note r = assms(1) [unfolded fork_request_def forkable_def] and lin = fork_linear [OF assms refl]
  let ?s = "composed s 4 mp msg"
  have ok: "kernel_ok s (spec_fork pid child a)" using fork_steps(2) [OF assms(1)] by (simp add: assms(2))
  have acc: "accepts (spec_fork pid child a) child 4" "p_proc_ready s = 4" "mp \<noteq> 0" "child < nr_slots" using r by (auto simp: accepts_def spec_fork_def assms(2) imaged_def)
  have "region (linear s child (p_msg (proc_table s child))) sizeof_MESSAGE \<inter> region (linear s 4 mp) sizeof_MESSAGE = {}"
    unfolding lin(1, 2) using lin(3) r by blast
  then obtain t where t: "sys_sendrec ?s SEND (int child) mp 4 = Inr t" "delivered s 4 child mp msg t" "kernel_ok t (spec_send 4 child (spec_fork pid child a))"
    using send_delivers [OF ok acc(2, 4, 1, 3)] by blast
  have "segs_ok s" "segs_ok ?s" using kernel_okD(3) [OF ok] kernel_okD(3) [of ?s] ok by auto
  then show "va2la s 4 mp = Inr mp" and "\<exists>t. send_recv (s\<lparr>kmem := store_message (kmem s) mp msg\<rparr>) SEND (int child) mp 4 = Inr (t, None) \<and> delivered s 4 child mp msg t \<and>
    kernel_ok t (spec_send 4 child (spec_fork pid child a))"
    using t va2la_linear [of s 4 mp] va2la_linear [of ?s 4 mp] lin(1) by (auto simp: send_recv_def composed_def)
qed

lemma do_fork_ok:
  assumes "fork_request m a pid child b n base mp" "buf = p_msg (proc_table (mks m) pid)"
  shows "\<exists>m'. do_fork junk mp m = Inr (0, m') \<and> mm_msg m' = (mm_msg m)\<lparr>m3i2 := of_nat child\<rparr> \<and>
    proc_table (mks m') = (proc_table (mks m))(child := (child_entry pid child base (mks m))\<lparr>p_msg := 0, p_flags := 0, p_recvfrom := NO_TASK\<rparr>) \<and>
    load_message (kmem (mks m')) (base + buf) = junk\<lparr>source := TASK_MM, msg_type := SYSCALL_RET, m3i1 := 0, m3i2 := 0\<rparr> \<and>
    (\<forall>k<n. base + of_nat k \<notin> region (base + buf) sizeof_MESSAGE \<longrightarrow> kmem (mks m') (base + of_nat k) = kmem (mks m) (b + of_nat k)) \<and>
    (\<forall>x. x \<notin> region base n \<union> region mp sizeof_MESSAGE \<longrightarrow> kmem (mks m') x = kmem (mks m) x) \<and>
    refs_ok (mm_fs m') all_slots \<and> kernel_ok (mks m') (spec_send TASK_MM child (spec_fork pid child a))"
proof -
  note r = assms(1) [unfolded fork_request_def forkable_def]
  let ?s = "imaged (mks m) pid child b n base" and ?msg = "junk\<lparr>msg_type := SYSCALL_RET, m3i1 := 0, m3i2 := 0\<rparr>"
  obtain t where t: "fork_entry pid child (mks m) = Inr t" "fork_image (memory_size m) pid child t = Inr ?s"
    using fork_steps(1) [OF assms(1)] by blast
  obtain ans g where g: "task_fs_msg (junk\<lparr>source := TASK_MM, msg_type := FORK, m3i2 := of_nat child\<rparr>) (mm_fs (set_mks ?s m)) = Inr (Some ans, g)"
    "refs_ok g all_slots" "drv g = drv (mm_fs (set_mks ?s m))" using fork_files [OF assms(1) refl] by blast
  obtain u where u: "send_recv (?s\<lparr>kmem := store_message (kmem ?s) mp ?msg\<rparr>) SEND (int child) mp 4 = Inr (u, None)"
    "delivered ?s 4 child mp ?msg u" "kernel_ok u (spec_send 4 child (spec_fork pid child a))"
    using fork_answer(1) [OF assms(1) refl] by blast
  note place = fork_linear [OF assms(1) refl assms(2)]
  let ?m = "set_mks u (m\<lparr>mm_fs := g, mm_msg := (mm_msg m)\<lparr>m3i2 := of_nat child\<rparr>\<rparr>)"
  have "mks (m\<lparr>mm_fs := g, mm_msg := (mm_msg m)\<lparr>m3i2 := of_nat child\<rparr>\<rparr>) = ?s" using g(3) by (simp add: mks_def set_mks_def)
  then have run: "do_fork junk mp m = Inr (0, ?m)"
    using first_free_slot [of "mks m" a child] r t g(1) u(1) fork_answer(2) [OF assms(1) refl] by (simp add: do_fork_def Let_def)
  have refs: "refs_ok (mm_fs ?m) all_slots"
    using g(2) u(2) refs_ok_cong [of all_slots "mm_fs ?m" g] by (simp add: slot_fd_def set_mks_def delivered_def g(3) imaged_def)
  have kept: "kmem u x = kmem ?s x" if "x \<notin> region (base + buf) sizeof_MESSAGE" "x \<notin> region mp sizeof_MESSAGE" for x
    using u(2) that unfolding delivered_def place(1, 2) by blast
  have copy: "kmem ?s (base + of_nat k) = kmem (mks m) (b + of_nat k)" if "k < n" for k
  proof -
    have "region base n \<inter> region b n = {}" "n < 2 ^ 32" using r unfolding images_def by (blast, simp)
    from memcpy_copies [OF this that] show ?thesis by (simp add: imaged_def)
  qed
  have "kmem u x = kmem (mks m) x" if "x \<notin> region base n \<union> region mp sizeof_MESSAGE" for x
    using kept [of x] that place(3) by (auto simp: imaged_def mem_simps subset_iff)
  moreover have "kmem u (base + of_nat k) = kmem (mks m) (b + of_nat k)" if "k < n" "base + of_nat k \<notin> region (base + buf) sizeof_MESSAGE" for k
    using kept [OF that(2)] copy [OF that(1)] region_memI [OF that(1), of base] r by auto
  moreover have "proc_table u = (proc_table (mks m))(child := (child_entry pid child base (mks m))\<lparr>p_msg := 0, p_flags := 0, p_recvfrom := NO_TASK\<rparr>)"
    "load_message (kmem u) (base + buf) = ?msg\<lparr>source := TASK_MM\<rparr>"
    using u(2) unfolding delivered_def place(1, 2) by (simp_all add: imaged_def)
  ultimately show ?thesis
    using run refs u(3) by (intro exI [of _ ?m] conjI) simp_all
qed

text \<open>
  C7. Forking. A message \<^verbatim>\<open>FORK\<close> with the conditions of \<open>fork_request\<close> always succeeds, and the parent is answered with the value 0 and the
  child's number. The child is ready and its entry is the parent's but for its own LDT selector, parent, name and segments, which start at its image; the
  image is a copy of the parent's, except that the buffer of the parent's request holds the answer 0 of the memory manager. No other entry of the process table
  changes, no memory outside the image changes but the local message of \<^verbatim>\<open>do_fork\<close>, the counters of the files the child now shares
  are right, and the kernel invariant holds.
\<close>

theorem task_mm_forks:
  assumes "msg_type msg = FORK" "fork_request (m\<lparr>mm_msg := msg\<rparr>) a pid child b n base mp" "s = mks m" "buf = p_msg (proc_table s pid)"
  shows "\<exists>m'. task_mm_msg junk mp msg m = Inr (int pid, msg\<lparr>msg_type := SYSCALL_RET, m3i1 := 0, m3i2 := of_nat child\<rparr>, m') \<and>
    proc_table (mks m') = (proc_table s)(child := (child_entry pid child base s)\<lparr>p_msg := 0, p_flags := 0, p_recvfrom := NO_TASK\<rparr>) \<and>
    load_message (kmem (mks m')) (base + buf) = junk\<lparr>source := TASK_MM, msg_type := SYSCALL_RET, m3i1 := 0, m3i2 := 0\<rparr> \<and>
    (\<forall>k<n. base + of_nat k \<notin> region (base + buf) sizeof_MESSAGE \<longrightarrow> kmem (mks m') (base + of_nat k) = kmem s (b + of_nat k)) \<and>
    (\<forall>x. x \<notin> region base n \<union> region mp sizeof_MESSAGE \<longrightarrow> kmem (mks m') x = kmem s x) \<and>
    refs_ok (mm_fs m') all_slots \<and> kernel_ok (mks m') (spec_send TASK_MM child (spec_fork pid child a))"
proof -
  have s: "mks (m\<lparr>mm_msg := msg\<rparr>) = s" by (simp add: mks_def assms(3))
  have pid: "sint (source msg) = int pid" using assms(2) by (simp add: fork_request_def)
  obtain m' where "do_fork junk mp (m\<lparr>mm_msg := msg\<rparr>) = Inr (0, m')" and m': "mm_msg m' = msg\<lparr>m3i2 := of_nat child\<rparr>"
    "proc_table (mks m') = (proc_table s)(child := (child_entry pid child base s)\<lparr>p_msg := 0, p_flags := 0, p_recvfrom := NO_TASK\<rparr>)"
    "load_message (kmem (mks m')) (base + buf) = junk\<lparr>source := TASK_MM, msg_type := SYSCALL_RET, m3i1 := 0, m3i2 := 0\<rparr>"
    "\<forall>k<n. base + of_nat k \<notin> region (base + buf) sizeof_MESSAGE \<longrightarrow> kmem (mks m') (base + of_nat k) = kmem s (b + of_nat k)"
    "\<forall>x. x \<notin> region base n \<union> region mp sizeof_MESSAGE \<longrightarrow> kmem (mks m') x = kmem s x"
    "refs_ok (mm_fs m') all_slots" "kernel_ok (mks m') (spec_send TASK_MM child (spec_fork pid child a))"
    using do_fork_ok [OF assms(2), unfolded s, of buf junk] assms(4) by auto
  then have "task_mm_msg junk mp msg m = Inr (int pid, msg\<lparr>msg_type := SYSCALL_RET, m3i1 := 0, m3i2 := of_nat child\<rparr>,
      m'\<lparr>mm_msg := msg\<lparr>msg_type := SYSCALL_RET, m3i1 := 0, m3i2 := of_nat child\<rparr>\<rparr>)"
    using assms(1) by (simp add: task_mm_msg_def pid)
  moreover have "mks (m'\<lparr>mm_msg := r\<rparr>) = mks m'" for r by (simp add: mks_def)
  ultimately show ?thesis using m' by (intro exI) (auto simp del: Un_iff)
qed

text \<open>
  C8. The images \<^verbatim>\<open>alloc_mem\<close> gives to different processes do not overlap: each lies at or above \<^verbatim>\<open>PROCS_BASE\<close>, ends below the end of
  memory, and is apart from every other one; the sums of the code do not leave the range of \<^verbatim>\<open>int\<close>.
\<close>

theorem alloc_mem_apart:
  assumes "alloc_mem msize p n = Inr b" "alloc_mem msize q l = Inr c" "p \<noteq> q" "p < nr_slots" "q < nr_slots" "0 \<le> n" "0 \<le> l"
  shows "PROCS_BASE \<le> b \<and> b + n < msize \<and> b + n < 2 ^ 31 \<and> region (word_of_int b) (nat n) \<inter> region (word_of_int c) (nat l) = {}"
proof -
  note b = alloc_mem_Inr [OF assms(1)] and c = alloc_mem_Inr [OF assms(2)]
  have small: "0 \<le> b" "b + n < 2 ^ 31" "0 \<le> c" "c + l < 2 ^ 31" using b c assms(4, 5) by simp_all
  then have u: "unat (word_of_int b :: u32) = nat b" "unat (word_of_int c :: u32) = nat c"
    using assms(6, 7) by (simp_all add: unat_eq_nat_uint uint_word_of_int)
  have "b + n \<le> c \<or> c + l \<le> b" using assms(3) b c by (cases "p < q") auto
  then have "region (word_of_int b) (nat n) \<inter> region (word_of_int c) (nat l) = {}"
  proof
    assume "b + n \<le> c"
    then show ?thesis using small assms(6, 7) by (intro regions_apart(1)) (simp_all add: u nat_add_distrib [symmetric])
  next
    assume "c + l \<le> b"
    then show ?thesis using small assms(6, 7) by (intro regions_apart(2)) (simp_all add: u nat_add_distrib [symmetric])
  qed
  then show ?thesis using b small by simp
qed

text \<open>
  C9. A process whose segments cover the whole address space, as those of all native processes but \<^verbatim>\<open>INIT\<close> do, has \<open>2\<^sup>3\<^sup>2\<close> bytes to copy; the
  size is computed in an \<^verbatim>\<open>int\<close> and is 0. \<^verbatim>\<open>do_fork\<close> does not notice: the check of the request passes, nothing is copied, and the child's segments
  start at an image that holds whatever was there.
\<close>

theorem fork_flat_copies_nothing:
  assumes "\<forall>i \<in> {INDEX_LDT_C, INDEX_LDT_RW}. desc_base (ldts (proc_table (mks m) pid) i) = 0 \<and> desc_limit (ldts (proc_table (mks m) pid) i) = 0xFFFFF \<and>
       limit_high_attr2 (ldts (proc_table (mks m) pid) i) AND 0x80 \<noteq> 0"
    "9 \<le> child" "child < nr_slots" "base = PROCS_BASE + of_nat (child - 9) * PROC_IMAGE_SIZE_DEFAULT" "int (unat base) < memory_size m"
  shows "fork_image (memory_size m) pid child (mks m) = Inr (upd_proc child (\<lambda>p. p\<lparr>ldts := child_ldts base (ldts p)\<rparr>) (mks m))"
proof -
  have "images m pid child 0 0 base" using assms(1, 4, 5) by (simp add: images_def seg_size_def)
  from fork_image_ok [OF this assms(2, 3) refl] show ?thesis by simp
qed

text \<open>The name of the child is what the call of \<^verbatim>\<open>sprintf\<close> writes.\<close>

definition char_bytes :: "string \<Rightarrow> u8 list" where
  "char_bytes cs = map (\<lambda>c. of_nat (of_char c)) cs"

lemma char_bytes_char_of: "char_bytes (map (\<lambda>c. char_of (unat c)) bs) = bs"
proof -
  have "unat (c :: u8) mod 256 = unat c" for c using unsigned_less [of c, where ?'a = nat] by simp
  then show ?thesis by (simp add: char_bytes_def o_def)
qed

lemma cstr_load: "cstr h a s \<Longrightarrow> load_bytes h a (length s) = s"
proof (induction h a s rule: cstr.induct)
  case (2 h a c s)
  have "load_bytes h a (Suc n) = h a # load_bytes h (a + 1) n" for n
    unfolding load_bytes_def upt_conv_Cons [OF zero_less_Suc] map_Suc_upt [symmetric] by (simp add: add.assoc del: upt_Suc)
  with 2 show ?case by simp
qed (simp add: load_bytes_def)

lemma fork_name_sprintf:
  assumes "cstr h a (char_bytes name)" "length name < STR_DEFAULT_LEN" "child < nr_slots"
  shows "sprintf h [0x25, 0x73, 0x5F, 0x25, 0x64] [a, of_nat child] =
    Inr (char_bytes (fork_name name child), length (fork_name name child))"
proof -
  have name: "convert h 0x73 [a, of_nat child] = Inr (char_bytes name, [of_nat child])"
    using strlen_correct [OF assms(1), of 0] assms(2) cstr_load [OF assms(1)] by (simp add: convert_def char_bytes_def)
  have num: "convert h 0x64 [of_nat child] = Inr (digits 10 child, [])"
    using i2a_nonneg [of 10 child] assms(3) by (simp add: convert_def sint_of_nat_small)
  have app: "char_bytes (fork_name name child) = char_bytes name @ 0x5F # digits 10 child"
    using char_bytes_char_of [of "digits 10 child"] by (simp add: fork_name_def char_bytes_def)
  have "length (char_bytes (fork_name name child)) = length (fork_name name child)" by (simp add: char_bytes_def)
  with name num show ?thesis
    by (simp add: sprintf_def vsprintf_def pad_def app)
qed

section \<open>Witnesses\<close>

text \<open>The process 8, with two pages of memory from address 0 on, has asked for a child.\<close>

definition demo_parent :: kstate where
  "demo_parent = waiting (upd_proc 8 (\<lambda>p. p\<lparr>ldts := (\<lambda>_. init_descriptor 0 1 0x8000)\<rparr>) (demo_state\<lparr>p_proc_ready := 4\<rparr>)) 8 4 0x1000"

definition demo_mm :: mm where
  "demo_mm = \<lparr>mm_msg = reset_msg, memory_size = 0x2000000, mm_fs = (demo_fs (\<lambda>_. 0))\<lparr>drv := (drv (demo_fs (\<lambda>_. 0)))\<lparr>hks := demo_parent\<rparr>\<rparr>\<rparr>"

lemma demo_mks: "mks (demo_mm\<lparr>mm_msg := msg\<rparr>) = demo_parent" "mks demo_mm = demo_parent"
  by (simp_all add: mks_def demo_mm_def)

lemma demo_parent_ok: "kernel_ok demo_parent (boot_ipc\<lparr>stat := (stat boot_ipc)(8 := Receiving 4)\<rparr>)"
proof -
  let ?s = "upd_proc 8 (\<lambda>p. p\<lparr>ldts := (\<lambda>_. init_descriptor 0 1 0x8000)\<rparr>) (demo_state\<lparr>p_proc_ready := 4\<rparr>)"
  have "ipc_rel ?s boot_ipc = ipc_rel demo_state boot_ipc" by (rule ipc_rel_cong) auto
  moreover have "segs_ok ?s" using demo_ipc_rel(2) by (auto simp: segs_ok_def ldt_seg_linear_def desc_base_init)
  moreover have "runnable (proc_table ?s) (p_proc_ready ?s)" by (simp add: runnable_def demo_state_def zero_proc_def)
  ultimately have "kernel_ok ?s boot_ipc" using demo_kernel_ok by (auto simp: kernel_ok_def)
  then show ?thesis unfolding demo_parent_def by (rule kernel_ok_waiting) (simp_all add: boot_ipc_def valid_src_def)
qed

lemma demo_parent_sel:
  "ldts (proc_table demo_parent 8) i = init_descriptor 0 1 0x8000" "p_msg (proc_table demo_parent 8) = 0x1000" "p_name (proc_table demo_parent 8) = []"
  "filp (proc_table demo_parent j) = (\<lambda>_. None)" "p_proc_ready demo_parent = 4"
  by (simp_all add: demo_parent_def waiting_def demo_state_def zero_proc_def)

lemma demo_mm_refs: "refs_ok (mm_fs (demo_mm\<lparr>mm_msg := msg\<rparr>)) S"
proof -
  let ?f = "mm_fs (demo_mm\<lparr>mm_msg := msg\<rparr>)"
  have sel: "f_desc_table ?f = (\<lambda>_. zero_fd)" "root_inode ?f = 0" "inode_table ?f = inode_table (demo_fs (\<lambda>_. 0))" "hks (drv ?f) = demo_parent"
    by (simp_all add: demo_mm_def) (simp_all add: demo_fs_def)
  have "slot_fd ?f s = None" for s unfolding slot_fd_def sel(4) by (simp add: demo_parent_sel)
  moreover have "load ?f k = 0" for k unfolding load_def sel(1) by (simp add: refs_of_def zero_fd_def)
  ultimately show ?thesis unfolding refs_ok_def sel(1 - 3) demo_table by (simp add: zero_fd_def demo_root_def demo_file_def zero_inode_def)
qed

lemma demo_fork_request:
  "fork_request (demo_mm\<lparr>mm_msg := reset_msg\<lparr>source := 8, msg_type := FORK\<rparr>\<rparr>) (boot_ipc\<lparr>stat := (stat boot_ipc)(8 := Receiving 4)\<rparr>) 8 9 0 8192 0xA00000 0x3000"
proof -
  let ?m = "demo_mm\<lparr>mm_msg := reset_msg\<lparr>source := 8, msg_type := FORK\<rparr>\<rparr>" and ?a = "boot_ipc\<lparr>stat := (stat boot_ipc)(8 := Receiving 4)\<rparr>"
  have "forkable ?a 8 9" "\<forall>i<9. stat ?a i \<noteq> Unused" by (auto simp: forkable_def boot_ipc_def)
  moreover have "limit_high_attr2 (init_descriptor 0 1 0x8000) AND 0x80 \<noteq> 0" unfolding desc_granularity_init by (simp add: bit_numeral_simps)
  then have "images ?m 8 9 0 8192 0xA00000"
    using regions_apart(1) [of 0 8192 "0xA00000" 8192]
    by (simp add: images_def demo_mks demo_parent_sel desc_base_init desc_limit_init seg_size_def) (simp add: demo_mm_def)
  moreover have "region 0xA00000 8192 \<inter> region 0x3000 sizeof_MESSAGE = {}" by (rule regions_apart(2)) simp_all
  ultimately show ?thesis using demo_parent_ok demo_mm_refs by (simp add: fork_request_def demo_mks demo_parent_sel)
qed

theorem task_mm_forks_witness:
  "\<exists>m'. task_mm_msg reset_msg 0x3000 (reset_msg\<lparr>source := 8, msg_type := FORK\<rparr>) demo_mm =
      Inr (8, reset_msg\<lparr>source := 8, msg_type := SYSCALL_RET, m3i1 := 0, m3i2 := 9\<rparr>, m') \<and>
    load_message (kmem (mks m')) 0xA01000 = reset_msg\<lparr>source := TASK_MM, msg_type := SYSCALL_RET\<rparr> \<and> refs_ok (mm_fs m') all_slots"
  using task_mm_forks [OF _ demo_fork_request refl refl, of reset_msg] by (auto simp: demo_mks demo_parent_sel reset_msg_def)

theorem alloc_mem_apart_witness: "region (0xA00000 :: u32) 0x2000 \<inter> region 0xB00000 0x100000 = {}"
  using alloc_mem_apart [of "0x2000000" 9 "0x2000" "0xA00000" 10 "0x100000" "0xB00000"] by (simp add: alloc_mem_def)

theorem fork_flat_copies_nothing_witness:
  "fork_image 0x2000000 8 9 (upd_proc 8 (\<lambda>p. p\<lparr>ldts := (\<lambda>_. init_descriptor 0 0xFFFFF 0x8000)\<rparr>) demo_parent) =
     Inr (upd_proc 9 (\<lambda>p. p\<lparr>ldts := child_ldts 0xA00000 (ldts p)\<rparr>) (upd_proc 8 (\<lambda>p. p\<lparr>ldts := (\<lambda>_. init_descriptor 0 0xFFFFF 0x8000)\<rparr>) demo_parent))"
proof -
  let ?s = "upd_proc 8 (\<lambda>p. p\<lparr>ldts := (\<lambda>_. init_descriptor 0 0xFFFFF 0x8000)\<rparr>) demo_parent"
  have "limit_high_attr2 (init_descriptor 0 0xFFFFF 0x8000) AND 0x80 \<noteq> 0" unfolding desc_granularity_init by (simp add: bit_numeral_simps)
  then show ?thesis
    using fork_flat_copies_nothing [of "set_mks ?s demo_mm" 8 9 "0xA00000"] by (simp add: desc_base_init desc_limit_init demo_mm_def)
qed

end
