(* ===== verification/Syscalls.thy ===== *)
theory Syscalls
  imports Fs_Log Mm
begin

text \<open>
  The system task, \<^verbatim>\<open>kernel/systask.c\<close>, and the calls of the C library that use the tasks: \<^verbatim>\<open>open\<close>, \<^verbatim>\<open>close\<close>,
  \<^verbatim>\<open>read\<close>, \<^verbatim>\<open>write\<close>, \<^verbatim>\<open>getpid\<close>, \<^verbatim>\<open>get_ticks\<close>, \<^verbatim>\<open>printf\<close>, \<^verbatim>\<open>printl\<close>, \<^verbatim>\<open>syslog\<close> and \<^verbatim>\<open>panic\<close>
  under \<^verbatim>\<open>lib/\<close> and in \<^verbatim>\<open>kernel/main.c\<close>.

  A call composes a message, sends it to a task and takes its result from the answer. The exchange is the task's
  handling of the message (the theory \<open>Sendrecv\<close> shows what the kernel delivers). A reader of a terminal is suspended: its answer
  comes after the file system has received further messages, which are an argument of \<^verbatim>\<open>read\<close>; when no answer comes, the call does not return. The strings \<^verbatim>\<open>vsprintf\<close> reads are those of a process with flat segments, as all native ones have. Members of the message a call does not set hold what was on the stack, the argument \<open>junk\<close>.
\<close>

section \<open>The system task\<close>

definition task_sys_msg :: "message \<Rightarrow> kstate \<Rightarrow> (int \<times> message) result" where
  "task_sys_msg msg s =
     (let src = sint (source msg)
      in if msg_type msg = GET_TICKS then Inr (src, msg\<lparr>m3i1 := word_of_int (k_ticks s)\<rparr>)
         else if msg_type msg = GET_PID then Inr (src, msg\<lparr>msg_type := SYSCALL_RET, m3i2 := word_of_int src\<rparr>)
         else Inl (Panic 33))"

definition getpid :: "message \<Rightarrow> nat \<Rightarrow> kstate \<Rightarrow> int result" where
  "getpid junk c s =
     bindE (task_sys_msg (junk\<lparr>msg_type := GET_PID, source := of_nat c\<rparr>) s) (\<lambda>(dest, msg).
       check 17 (msg_type msg = SYSCALL_RET) (Inr (sint (PID msg))))"

definition get_ticks :: "nat \<Rightarrow> kstate \<Rightarrow> int result" where
  "get_ticks c s =
     bindE (task_sys_msg (reset_msg\<lparr>msg_type := GET_TICKS, source := of_nat c\<rparr>) s) (\<lambda>(dest, msg). Inr (sint (RETVAL msg)))"

text \<open>\<^verbatim>\<open>milli_delay\<close> asks for the time until enough has passed: \<open>r k\<close> is what the \<open>k\<close>-th question returns, and the result
  is the number of the last question. The product of the ticks and 1000 is an \<^verbatim>\<open>int\<close>.\<close>

partial_function (option) milli_delay_loop :: "int \<Rightarrow> int \<Rightarrow> (nat \<Rightarrow> int) \<Rightarrow> nat \<Rightarrow> nat option" where
  "milli_delay_loop mill_sec t r k =
     (if sint (word_of_int ((r k - t) * 1000) :: u32) sdiv HZ < mill_sec then milli_delay_loop mill_sec t r (Suc k) else Some k)"

definition milli_delay :: "int \<Rightarrow> (nat \<Rightarrow> int) \<Rightarrow> nat option" where
  "milli_delay mill_sec r = milli_delay_loop mill_sec (r 0) r 1"

section \<open>Calls of the file system\<close>

text \<open>
  Process \<open>c\<close> waits for its answer while the file system serves the messages it receives. Each comes with what happens before
  it arrives: the state the file system finds then. When there are no more, \<open>c\<close> waits for ever.
\<close>

type_synonym fs_event = "fs \<Rightarrow> (message \<times> fs) result"

fun await :: "nat \<Rightarrow> nat \<Rightarrow> fs_event list \<Rightarrow> fs \<Rightarrow> (message \<times> fs) result" where
  "await ln c [] f = Inl (Hang ln)"
| "await ln c (e # es) f =
     bindE (e f) (\<lambda>(m, f).
     bindE (task_fs_msg m f) (\<lambda>(answer, f). case answer of
         None \<Rightarrow> await ln c es f
       | Some (dest, r) \<Rightarrow> if dest = int c then Inr (r\<lparr>source := TASK_FS\<rparr>, f) else await ln c es f))"

text \<open>\<^verbatim>\<open>send_recv(BOTH, TASK_FS, &msg)\<close>; only a read can be answered later than in the turn of its request.\<close>

definition ask_fs :: "nat \<Rightarrow> nat \<Rightarrow> message \<Rightarrow> fs_event list \<Rightarrow> fs \<Rightarrow> (message \<times> fs) result" where
  "ask_fs ln c msg later f = await ln c ((\<lambda>f. Inr (msg\<lparr>source := of_nat c\<rparr>, f)) # later) f"

definition call_fs :: "nat \<Rightarrow> nat \<Rightarrow> message \<Rightarrow> fs \<Rightarrow> (message \<times> fs) result" where
  "call_fs ln c msg f = ask_fs ln c msg [] f"

text \<open>The length of a string of the calling process.\<close>

definition user_strlen :: "nat \<Rightarrow> nat \<Rightarrow> u32 \<Rightarrow> fs \<Rightarrow> u32 result" where
  "user_strlen ln c a f = bindE (va2la (hks (drv f)) c a) (\<lambda>la. bindE (returns ln (strlen (fmem f) la 0)) (\<lambda>n. Inr (of_nat n)))"

definition open_file :: "message \<Rightarrow> nat \<Rightarrow> u32 \<Rightarrow> u32 \<Rightarrow> fs \<Rightarrow> (int \<times> fs) result" where
  "open_file junk c pathname flags f =
     bindE (user_strlen 20 c pathname f) (\<lambda>n.
     bindE (call_fs 22 c (junk\<lparr>msg_type := OPEN, m3p1 := pathname, m3i1 := flags, m3i2 := n\<rparr>) f) (\<lambda>(msg, f).
       check 23 (msg_type msg = SYSCALL_RET) (Inr (sint (FD msg), f))))"

definition close_file :: "message \<Rightarrow> nat \<Rightarrow> u32 \<Rightarrow> fs \<Rightarrow> (int \<times> fs) result" where
  "close_file junk c fd f =
     bindE (call_fs 18 c (junk\<lparr>msg_type := CLOSE, m3i1 := fd\<rparr>) f) (\<lambda>(msg, f). Inr (sint (RETVAL msg), f))"

definition read_file :: "message \<Rightarrow> nat \<Rightarrow> u32 \<Rightarrow> u32 \<Rightarrow> u32 \<Rightarrow> fs_event list \<Rightarrow> fs \<Rightarrow> (int \<times> fs) result" where
  "read_file junk c fd buf count later f =
     bindE (ask_fs 20 c (junk\<lparr>msg_type := READ, m3i1 := fd, m3p2 := buf, m3i2 := count\<rparr>) later f) (\<lambda>(msg, f). Inr (sint (CNT msg), f))"

definition write_file :: "message \<Rightarrow> nat \<Rightarrow> u32 \<Rightarrow> u32 \<Rightarrow> u32 \<Rightarrow> fs \<Rightarrow> (int \<times> fs) result" where
  "write_file junk c fd buf count f =
     bindE (call_fs 20 c (junk\<lparr>msg_type := WRITE, m3i1 := fd, m3p2 := buf, m3i2 := count\<rparr>) f) (\<lambda>(msg, f). Inr (sint (CNT msg), f))"

section \<open>Formatted output\<close>

text \<open>A local buffer of \<open>n\<close> bytes at the address \<open>buf\<close> of the calling process, filled by \<^verbatim>\<open>vsprintf\<close>.\<close>

definition format_into :: "nat \<Rightarrow> nat \<Rightarrow> u32 \<Rightarrow> u8 list \<Rightarrow> u32 list \<Rightarrow> memory \<Rightarrow> (nat \<times> memory) result" where
  "format_into ln n buf fmt args h =
     bindE (vsprintf h fmt args) (\<lambda>(txt, i). if length txt < n then Inr (i, store_bytes h buf (txt @ [0])) else Inl (OutOfBounds ln))"

definition printf :: "message \<Rightarrow> nat \<Rightarrow> u32 \<Rightarrow> u8 list \<Rightarrow> u32 list \<Rightarrow> fs \<Rightarrow> (int \<times> fs) result" where
  "printf junk c buf fmt args f =
     bindE (va2la (hks (drv f)) c buf) (\<lambda>la.
     bindE (format_into 19 256 la fmt args (fmem f)) (\<lambda>(i, h).
     bindE (write_file junk c 1 buf (of_nat i) (set_fmem h f)) (\<lambda>(n, f).
       check 22 (n = int i) (Inr (int i, f)))))"

definition printl :: "nat \<Rightarrow> u32 \<Rightarrow> u8 list \<Rightarrow> u32 list \<Rightarrow> terminals \<Rightarrow> (nat \<times> printx_end) result" where
  "printl c buf fmt args t =
     bindE (if k_reenter (ks t) = 0 then va2la (ks t) c buf else Inr buf) (\<lambda>la.
     bindE (format_into 32 256 la fmt args (kmem (ks t))) (\<lambda>(i, h).
     bindE (sys_printx (t\<lparr>ks := (ks t)\<lparr>kmem := h\<rparr>\<rparr>) buf c) (\<lambda>e. Inr (i, e))))"

text \<open>\<^verbatim>\<open>panic\<close> formats its message and prints it behind the byte \<^verbatim>\<open>MAG_CH_PANIC\<close>; the two buffers are at \<open>buf\<close> and \<open>buf2\<close>.\<close>

definition panic_format :: "u8 list" where
  "panic_format = [0x25, 0x63, 0x20, 0x21, 0x21, 0x70, 0x61, 0x6E, 0x69, 0x63, 0x21, 0x21, 0x20, 0x25, 0x73]"

definition panic :: "nat \<Rightarrow> u32 \<Rightarrow> u32 \<Rightarrow> u8 list \<Rightarrow> u32 list \<Rightarrow> terminals \<Rightarrow> printx_end result" where
  "panic c buf buf2 fmt args t =
     bindE (if k_reenter (ks t) = 0 then va2la (ks t) c buf else Inr buf) (\<lambda>la.
     bindE (format_into 238 256 la fmt args (kmem (ks t))) (\<lambda>(i, h).
     bindE (printl c buf2 panic_format [2, buf] (t\<lparr>ks := (ks t)\<lparr>kmem := h\<rparr>\<rparr>)) (\<lambda>(n, e).
       case e of Halted v \<Rightarrow> Inr e | Printed s \<Rightarrow> Inl (Hang 243))))"

section \<open>The log\<close>

text \<open>\<^verbatim>\<open>syslog\<close>; the file system calls \<^verbatim>\<open>disklog\<close> itself, every other process asks it to. The end of the log is threaded through.\<close>

definition syslog :: "message \<Rightarrow> nat \<Rightarrow> u32 \<Rightarrow> u8 list \<Rightarrow> u32 list \<Rightarrow> nat \<Rightarrow> fs \<Rightarrow> (int \<times> nat \<times> fs) result" where
  "syslog junk c buf fmt args pos f =
     bindE (va2la (hks (drv f)) c buf) (\<lambda>la.
     bindE (format_into 18 STR_DEFAULT_LEN la fmt args (fmem f)) (\<lambda>(i, h).
     bindE (returns 19 (strlen h la 0)) (\<lambda>n.
       check 19 (n = i)
       (let f = set_fmem h f
        in bindE (getpid junk c (hks (drv f))) (\<lambda>pid.
           if pid = TASK_FS then bindE (disklog (load_bytes h la n) pos f) (\<lambda>(pos, f). Inr (int pos, pos, f))
           else bindE (call_fs 28 c (junk\<lparr>msg_type := DISK_LOG, m3p2 := buf, m3i2 := of_nat i\<rparr>) f) (\<lambda>(msg, f).
             if of_nat i = CNT msg then Inr (sint (RETVAL msg), pos, f) else Inl (Panic 30)))))))"

section \<open>Answers\<close>

lemma sint_slot: "c < nr_slots \<Longrightarrow> sint (of_nat c :: u32) = int c"
  by (simp add: sint_of_nat_small)

lemma call_fs_once:
  "call_fs ln c msg f =
     bindE (task_fs_msg (msg\<lparr>source := of_nat c\<rparr>) f) (\<lambda>(answer, f). case answer of
         None \<Rightarrow> Inl (Hang ln)
       | Some (dest, r) \<Rightarrow> if dest = int c then Inr (r\<lparr>source := TASK_FS\<rparr>, f) else Inl (Hang ln))"
  unfolding call_fs_def ask_fs_def
  by (cases "task_fs_msg (msg\<lparr>source := of_nat c\<rparr>) f") (auto split: option.splits)

lemma read_file_once:
  "read_file junk c fd buf count [] f =
     bindE (call_fs 20 c (junk\<lparr>msg_type := READ, m3i1 := fd, m3p2 := buf, m3i2 := count\<rparr>) f) (\<lambda>(msg, f). Inr (sint (CNT msg), f))"
  by (simp add: read_file_def call_fs_def)

lemma getpid_correct: "c < nr_slots \<Longrightarrow> getpid junk c s = Inr (int c)"
  using sint_slot by (simp add: getpid_def task_sys_msg_def)

section \<open>Reading from a terminal\<close>

text \<open>The keys of \<open>scs\<close> are typed, and the terminal task sends the file system a message.\<close>

definition keys_typed :: "u8 list \<Rightarrow> fs_event" where
  "keys_typed scs f =
     bindE (task_tty (map (\<lambda>sc. ([sc], hard_int)) scs) ((tt f)\<lparr>ks := hks (drv f), outbox := []\<rparr>)) (\<lambda>t.
       case filter (\<lambda>(dest, r). dest = TASK_FS) (outbox t) of
         [] \<Rightarrow> Inl (Hang 26)
       | (dest, r) # _ \<Rightarrow> Inr (r\<lparr>source := TASK_TTY\<rparr>, f\<lparr>tt := t, drv := (drv f)\<lparr>hks := ks t\<rparr>\<rparr>))"

text \<open>What the reader's process has open: a terminal.\<close>

definition reads_tty :: "fs \<Rightarrow> nat \<Rightarrow> nat \<Rightarrow> nat \<Rightarrow> bool" where
  "reads_tty f c fd n \<longleftrightarrow> (\<exists>d p. int fd < NR_FILES \<and> filp (proc_table (hks (drv f)) c) fd = Some d \<and> d < NR_FILE_DESC \<and>
     fd_mode (f_desc_table f d) AND O_RDWR \<noteq> 0 \<and> fd_inode (f_desc_table f d) = Some p \<and> p < NR_INODE \<and>
     i_mode (inode_table f p) AND I_TYPE_MASK = I_CHAR_SPECIAL \<and> i_start_sect (inode_table f p) = MAKE_DEV 4 (of_nat n))"

text \<open>The turn of the file system with the request: the reader is suspended.\<close>

lemma tty_dev: "n < NR_CONSOLES \<Longrightarrow> MAJOR (sint (MAKE_DEV 4 (of_nat n) :: u32)) = 4 \<and> MINOR (sint (MAKE_DEV 4 (of_nat n) :: u32)) = int n"
  by (auto simp: MAJOR_def MINOR_def MAKE_DEV_def less_Suc_eq numeral_3_eq_3)

lemma read_suspends:
  assumes tty: "reads_tty f c fd n" "n < NR_CONSOLES" and c: "c < nr_slots" and count: "0 < count" "count < 2 ^ 31"
    and la: "va2la (hks (drv f)) c buf = Inr la"
    and dr: "drained n ((tt f)\<lparr>ks := hks (drv f), outbox := []\<rparr>)" "sendable ((tt f)\<lparr>ks := hks (drv f), outbox := []\<rparr>) TASK_FS"
    and m: "msg_type m = READ" "m3i1 m = of_nat fd" "m3p2 m = buf" "m3i2 m = of_nat count" "source m = of_nat c"
  obtains g where "task_fs_msg m f = Inr (None, g)" "drained n ((tt g)\<lparr>ks := hks (drv g), outbox := []\<rparr>)"
    "reading n count [] ((tt g)\<lparr>ks := hks (drv g), outbox := []\<rparr>)" "tty_caller (tty_table (tt g) n) = TASK_FS"
    "tty_procnr (tty_table (tt g) n) = int c" "tty_req_buf (tty_table (tt g) n) = la"
    "hks (drv g) = hks (drv f)" "kbd (tt g) = kbd (tt f)"
proof -
  from tty(1) obtain d p where fd: "int fd < NR_FILES" "filp (proc_table (hks (drv f)) c) fd = Some d" "d < NR_FILE_DESC"
    "fd_mode (f_desc_table f d) AND O_RDWR \<noteq> 0" "fd_inode (f_desc_table f d) = Some p" "p < NR_INODE"
    "i_mode (inode_table f p) AND I_TYPE_MASK = I_CHAR_SPECIAL" "i_start_sect (inode_table f p) = MAKE_DEV 4 (of_nat n)"
    unfolding reads_tty_def by blast
  let ?t = "(tt f)\<lparr>ks := hks (drv f), outbox := []\<rparr>" and ?f = "f\<lparr>fs_msg := m, pcaller := c\<rparr>"
  let ?m = "m\<lparr>msg_type := DEV_READ, m3i4 := word_of_int (int n), m3i3 := source m, source := TASK_FS\<rparr>"
  have src: "sint (source m) = int c" using m(5) sint_slot [OF c] by simp
  have cnt: "sint (CNT m) = int count" using m(4) count by (simp add: sint_of_nat_small)
  have dev: "sint (DEVICE ?m) = int n" using tty(2) by (simp add: sint_of_nat_small)
  define t1 where "t1 = (upd_tty n (\<lambda>y. y\<lparr>tty_caller := sint (source ?m), tty_procnr := sint (PROC_NR ?m),
      tty_req_buf := la, tty_left_cnt := sint (CNT ?m), tty_trans_cnt := 0\<rparr>) ?t)
      \<lparr>outbox := outbox ?t @ [(sint (source ?m), ?m\<lparr>msg_type := SUSPEND_PROC\<rparr>)]\<rparr>"
  have turn: "task_tty_msg ?m ?t = Inr t1" "drained n t1"
    using turn_request(2, 3) [OF dr(1) tty(2) _ dev, of la] dr(2) src c la m(3) unfolding t1_def by simp_all
  define g where "g = ?f\<lparr>tt := t1, drv := (drv f)\<lparr>hks := ks t1\<rparr>,
      fs_msg := ?m\<lparr>msg_type := SUSPEND_PROC, source := TASK_TTY, m3i2 := m3i2 m\<rparr>\<rparr>"
  have "rdwt_special p ?f = Inr (int count, g\<lparr>fs_msg := ?m\<lparr>msg_type := SUSPEND_PROC, source := TASK_TTY\<rparr>\<rparr>)"
    using turn(1) fd(8) tty_dev [OF tty(2)] m(1) cnt
    by (simp add: rdwt_special_def driver_call_def dd_map_def tty_call_def t1_def g_def Let_def)
  then have "do_rdwt ?f = Inr (int count, g\<lparr>fs_msg := ?m\<lparr>msg_type := SUSPEND_PROC, source := TASK_TTY\<rparr>\<rparr>)"
    using fd m(2) by (simp add: do_rdwt_def caller_filp_def sint_of_nat_small)
  then have "task_fs_msg m f = Inr (None, g)"
    using src c m(1, 4) by (simp add: task_fs_msg_def serve_def Let_def g_def)
  moreover have clear: "(tt g)\<lparr>ks := hks (drv g), outbox := []\<rparr> = t1\<lparr>outbox := []\<rparr>" by (simp add: g_def)
  have "drained n (t1\<lparr>outbox := []\<rparr>)" using turn(2) by (simp add: drained_def)
  then have "drained n ((tt g)\<lparr>ks := hks (drv g), outbox := []\<rparr>)" unfolding clear .
  moreover have "reading n count [] (t1\<lparr>outbox := []\<rparr>)" using count cnt by (simp add: t1_def reading_def load_bytes_def)
  then have "reading n count [] ((tt g)\<lparr>ks := hks (drv g), outbox := []\<rparr>)" unfolding clear .
  moreover have "tty_caller (tty_table (tt g) n) = TASK_FS" "tty_procnr (tty_table (tt g) n) = int c"
    "tty_req_buf (tty_table (tt g) n) = la" "hks (drv g) = hks (drv f)" "kbd (tt g) = kbd (tt f)"
    using src by (simp_all add: g_def t1_def)
  ultimately show thesis by (rule that)
qed

lemma edit_line_length: "edit_line n line typed = Some (result, k) \<Longrightarrow> length line < n \<Longrightarrow> length result \<le> n"
proof (induction typed arbitrary: line k)
  case (Cons ch typed)
  have "length (edit_char line ch) \<le> n" using length_edit_char [of line ch] Cons.prems(2) by simp
  then show ?case using Cons by (auto simp: Let_def split: if_splits)
qed simp

text \<open>
  C37. A read from a terminal returns, with the line that is typed. A process that reads at least one byte from the terminal on the screen is first suspended: in the turn of
  its request the file system passes the request on to the terminal task, gets \<^verbatim>\<open>SUSPEND_PROC\<close> back and answers nobody. When then keys are typed that complete a line (and nothing else
  reaches the two tasks meanwhile), the terminal task sends \<^verbatim>\<open>RESUME_PROC\<close>, the file system passes it on to the reader, and \<^verbatim>\<open>read\<close> returns the length of the line, which
  stands in the reader's buffer; no byte of memory outside the requested ones has changed. At the time of the request the terminal task has served everything
  that came in before, and the file system is not waiting to send to it.
\<close>

theorem terminal_read_returns:
  assumes "reads_tty f c fd n" "n < NR_CONSOLES" "c < nr_slots" "0 < count" "count < 2 ^ 31" "va2la (hks (drv f)) c buf = Inr la"
    "drained n ((tt f)\<lparr>ks := hks (drv f), outbox := []\<rparr>)" "sendable ((tt f)\<lparr>ks := hks (drv f), outbox := []\<rparr>) TASK_FS"
    "typed_chars (kbd (tt f)) scs = Some typed" "edit_line count [] typed = Some (line, k)"
  shows "\<exists>g. read_file junk c (of_nat fd) buf (of_nat count) [keys_typed scs] f = Inr (int (length line), g) \<and>
    load_bytes (fmem g) la (length line) = line \<and> (\<forall>x. x \<notin> region la count \<longrightarrow> fmem g x = fmem f x)"
proof -
  let ?m = "junk\<lparr>msg_type := READ, m3i1 := of_nat fd, m3p2 := buf, m3i2 := of_nat count, source := of_nat c\<rparr>"
  obtain g where g: "task_fs_msg ?m f = Inr (None, g)" "drained n ((tt g)\<lparr>ks := hks (drv g), outbox := []\<rparr>)"
    "reading n count [] ((tt g)\<lparr>ks := hks (drv g), outbox := []\<rparr>)" "tty_caller (tty_table (tt g) n) = TASK_FS"
    "tty_procnr (tty_table (tt g) n) = int c" "tty_req_buf (tty_table (tt g) n) = la" "hks (drv g) = hks (drv f)" "kbd (tt g) = kbd (tt f)"
    by (rule read_suspends [OF assms(1 - 8), of ?m]) simp_all
  let ?t = "(tt g)\<lparr>ks := hks (drv g), outbox := []\<rparr>"
  have free: "sendable ?t (tty_caller (tty_table ?t n))"
    using assms(8) g(4, 7) sendable_cong [of ?t "(tt f)\<lparr>ks := hks (drv f), outbox := []\<rparr>"] by simp
  have typed: "typed_chars (kbd ?t) scs = Some typed" using assms(9) g(8) by simp
  obtain u where u: "task_tty (map (\<lambda>sc. ([sc], hard_int)) scs) ?t = Inr u" "same_request n count ?t u"
    "load_bytes (kmem (ks u)) (tty_req_buf (tty_table ?t n)) (length line) = line" "outbox u = outbox ?t @ [resume_msg n line ?t]"
    using keys_read [OF g(2) assms(2) g(3) free typed assms(10)] by blast
  let ?r = "(tty_stack ?t)\<lparr>msg_type := RESUME_PROC, m3i3 := of_nat c, m3i2 := of_nat (length line), source := TASK_TTY\<rparr>"
  let ?h = "g\<lparr>tt := u, drv := (drv g)\<lparr>hks := ks u\<rparr>\<rparr>"
  have event: "keys_typed scs g = Inr (?r, ?h)"
    using u(1, 4) g(4, 5) by (simp add: keys_typed_def resume_msg_def)
  have len: "sint (of_nat (length line) :: u32) = int (length line)"
    using edit_line_length [OF assms(10)] assms(4, 5) by (intro sint_of_nat_small) simp
  have "\<exists>k. task_fs_msg ?r ?h = Inr (Some (int c, ?r\<lparr>msg_type := SYSCALL_RET\<rparr>), k) \<and> fmem k = kmem (ks u)"
    using sint_slot [OF assms(3)] by (simp add: task_fs_msg_def serve_def Let_def fmem_def)
  then obtain k where k: "task_fs_msg ?r ?h = Inr (Some (int c, ?r\<lparr>msg_type := SYSCALL_RET\<rparr>), k)" "fmem k = kmem (ks u)" by blast
  have "read_file junk c (of_nat fd) buf (of_nat count) [keys_typed scs] f = Inr (int (length line), k)"
    using g(1) event k(1) len by (simp add: read_file_def ask_fs_def)
  moreover have "fmem k x = fmem f x" if "x \<notin> region la count" for x
    using that u(2) g(6, 7) k(2) by (simp add: same_request_def fmem_def)
  ultimately show ?thesis using u(3) k(2) g(6) by (intro exI [of _ k]) simp
qed

text \<open>
  C38. \<^verbatim>\<open>syslog\<close> works only for the file system itself. The loop of \<^verbatim>\<open>task_fs\<close> has no case for \<^verbatim>\<open>DISK_LOG\<close>, so that whatever any other process logs, the
  file system stops at its assertion and the call does not return.
\<close>

theorem syslog_stops_fs:
  assumes "c < nr_slots" "c \<noteq> TASK_FS" "vsprintf (fmem f) fmt args = Inr (str, i)" "length str < STR_DEFAULT_LEN" "0 \<notin> set fmt"
    "ldt_seg_linear (proc_table (hks (drv f)) c) INDEX_LDT_RW = 0"
  shows "syslog junk c buf fmt args pos f = Inl (Assert 56)"
proof -
  have tx: "i = length str" "0 \<notin> set str" using vsprintf_length [OF assms(3, 5)] by simp_all
  have "strlen (store_bytes (fmem f) buf (str @ [0])) buf 0 = Some (length str)"
    using strlen_correct [OF cstr_store [of str "fmem f" buf], of 0] tx(2) assms(4) by simp
  moreover have "va2la (hks (drv f)) c buf = Inr buf" using assms(6) by (simp add: va2la_def)
  moreover have "getpid junk c s = Inr (int c)" for s by (rule getpid_correct [OF assms(1)])
  moreover have "call_fs 28 c (junk\<lparr>msg_type := DISK_LOG, m3p2 := buf, m3i2 := of_nat i\<rparr>) g = Inl (Assert 56)" for g
    using sint_slot [OF assms(1)] assms(1) by (simp add: call_fs_once task_fs_msg_def serve_def Let_def)
  ultimately show ?thesis using assms(2 - 4) tx(1) by (simp add: syslog_def format_into_def Let_def)
qed

section \<open>Panics\<close>

lemma va2la_kmem: "va2la (s\<lparr>kmem := g\<rparr>) c a = va2la s c a"
  by (simp add: va2la_def)

definition panic_text :: "u8 list" where
  "panic_text = [0x20, 0x21, 0x21, 0x70, 0x61, 0x6E, 0x69, 0x63, 0x21, 0x21, 0x20]"

lemma panic_format_text:
  assumes "cstr h a str" "length str < STR_DEFAULT_LEN"
  shows "vsprintf h panic_format [2, a] = Inr (2 # panic_text @ str, 12 + length str)"
proof -
  have "convert h 0x63 [2, a] = Inr ([2], [a])" by (simp add: convert_def)
  moreover have "convert h 0x73 [a] = Inr (str, [])"
    using strlen_correct [OF assms(1), of 0] cstr_load [OF assms(1)] assms(2) by (simp add: convert_def)
  ultimately show ?thesis by (simp add: vsprintf_def panic_format_def panic_text_def pad_def)
qed

text \<open>
  C39. A panic stops the machine and shows its message. Whatever the format produces, if it has no zero byte and fits, \<^verbatim>\<open>panic\<close> ends in the halted branch of
  \<^verbatim>\<open>sys_printx\<close>, and the characters \<open> !!panic!! \<close> followed by the message stands in red at the start of each of the 25 blocks of eight rows of video memory.
\<close>

theorem panic_shows_message:
  assumes "vsprintf (kmem (ks t)) fmt args = Inr (str, i)" "0 \<notin> set fmt" "length str < 244"
    "(if k_reenter (ks t) = 0 then va2la (ks t) c buf else Inr buf) = Inr buf" "(if k_reenter (ks t) = 0 then va2la (ks t) c buf2 else Inr buf2) = Inr buf2"
  shows "\<exists>v. panic c buf buf2 fmt args t = Inr (Halted v) \<and>
    (\<forall>b<25. \<forall>k<11 + length str. v (V_MEM_BASE + 2 * (640 * b + k)) = (panic_text @ str) ! k \<and> v (V_MEM_BASE + 2 * (640 * b + k) + 1) = RED_CHAR)"
proof -
  have str: "i = length str" "0 \<notin> set str" using vsprintf_length [OF assms(1, 2)] by simp_all
  define h where "h = store_bytes (kmem (ks t)) buf (str @ [0])"
  define h2 where "h2 = store_bytes h buf2 ((2 # panic_text @ str) @ [0])"
  let ?t = "t\<lparr>ks := (ks t)\<lparr>kmem := h\<rparr>\<rparr>" and ?t2 = "t\<lparr>ks := (ks t)\<lparr>kmem := h2\<rparr>\<rparr>"
  have va: "(if k_reenter (ks t) = 0 then va2la ((ks t)\<lparr>kmem := g\<rparr>) c buf2 else Inr buf2) = Inr buf2" for g
    using assms(5) by (simp only: va2la_kmem)
  have "cstr h buf str" unfolding h_def using str(2) assms(3) by (intro cstr_store) simp_all
  note text2 = panic_format_text [OF this]
  have "0 \<notin> set (2 # panic_text @ str)" using str(2) by (simp add: panic_text_def)
  then have "cstr h2 buf2 (2 # panic_text @ str)" unfolding h2_def using assms(3) by (intro cstr_store) (simp_all add: panic_text_def)
  then have two: "h2 buf2 = 2" "cstr h2 (buf2 + 1) (panic_text @ str)" by simp_all
  have "sys_printx ?t2 buf2 c = Inr (Halted (panic_screen h2 buf2 (buf2 + 1) 0 (vram (scr t))))"
    using va [of h2] two(1) by (cases "k_reenter (ks t) = 0") (simp_all add: sys_printx_def Let_def)
  moreover have "format_into 32 256 buf2 panic_format [2, buf] h = Inr (12 + length str, h2)"
    using text2 assms(3) by (simp add: format_into_def h2_def panic_text_def)
  ultimately have "printl c buf2 panic_format [2, buf] ?t = Inr (12 + length str, Halted (panic_screen h2 buf2 (buf2 + 1) 0 (vram (scr t))))"
    using va [of h] by (cases "k_reenter (ks t) = 0") (simp_all add: printl_def)
  then have "panic c buf buf2 fmt args t = Inr (Halted (panic_screen h2 buf2 (buf2 + 1) 0 (vram (scr t))))"
    using assms(1, 3, 4) by (cases "k_reenter (ks t) = 0") (simp_all add: panic_def format_into_def h_def)
  moreover have "length (panic_text @ str) = 11 + length str" "panic_text @ str \<noteq> []" by (simp_all add: panic_text_def)
  ultimately show ?thesis using panic_screen_shows [OF two(2)] assms(3) by auto
qed

section \<open>Delays\<close>

text \<open>
  \<^verbatim>\<open>milli_delay\<close> returns as soon as the clock shows that the time has passed: if the \<open>k\<close>-th reading is the first one that is late enough, and up to it the clock
  has neither gone back nor run so far that the product overflows, it ends there. Ten milliseconds are one tick.
\<close>

theorem milli_delay_returns:
  assumes "1 \<le> k" "mill_sec \<le> 10 * (r k - r 0)" "\<And>j. 1 \<le> j \<Longrightarrow> j < k \<Longrightarrow> 10 * (r j - r 0) < mill_sec"
    "\<And>j. 1 \<le> j \<Longrightarrow> j \<le> k \<Longrightarrow> r 0 \<le> r j \<and> (r j - r 0) * 1000 < 2 ^ 31"
  shows "milli_delay mill_sec r = Some k"
proof -
  have div: "sint (word_of_int ((r j - r 0) * 1000) :: u32) sdiv HZ = 10 * (r j - r 0)" if "1 \<le> j" "j \<le> k" for j
  proof -
    define d where "d = r j - r 0"
    have d: "0 \<le> d" "d * 1000 < 2 ^ 31" using assms(4) [OF that] by (simp_all add: d_def)
    then have "signed_take_bit 31 (d * 1000) = d * 1000" by (intro signed_take_bit_int_eq_self) simp_all
    moreover have "sint (word_of_int (d * 1000) :: u32) = signed_take_bit 31 (d * 1000)"
      by (simp add: sint_sbintrunc' del: of_int_mult)
    ultimately show ?thesis using d(1) by (cases "d = 0") (simp_all add: d_def [symmetric] signed_divide_int_def)
  qed
  have "milli_delay_loop mill_sec (r 0) r j = Some k" if "1 \<le> j" "j \<le> k" for j
    using that
  proof (induction "k - j" arbitrary: j)
    case 0
    then have "j = k" by simp
    then show ?case using assms(2) div [OF assms(1) order_refl] by (subst milli_delay_loop.simps) simp
  next
    case (Suc d)
    then have "j < k" "d = k - Suc j" by auto
    then show ?case using Suc.hyps(1) [of "Suc j"] assms(3) [of j] div [of j] Suc.prems(1) by (subst milli_delay_loop.simps) simp
  qed
  then show ?thesis using assms(1) by (simp add: milli_delay_def)
qed

section \<open>Witnesses\<close>

lemma demo_va2la: "va2la (hks (drv (demo_fs h))) c a = Inr a"
  by (simp add: demo_fs_def demo_hd_def flat_va2la)

text \<open>Process 6 has the first terminal open and reads up to nine characters from it.\<close>

definition demo_tty_reader :: fs where
  "demo_tty_reader = (demo_fs (\<lambda>_. 0))\<lparr>tt := demo_drained, f_desc_table := (\<lambda>_. zero_fd\<lparr>fd_mode := O_RDWR, fd_inode := Some 0\<rparr>),
     inode_table := (\<lambda>_. tty_inode 0),
     drv := (drv (demo_fs (\<lambda>_. 0)))\<lparr>hks := (flat_kstate (\<lambda>_. 0))\<lparr>proc_table := (\<lambda>_. zero_proc\<lparr>filp := (\<lambda>i. Some 0)\<rparr>)\<rparr>\<rparr>\<rparr>"

theorem terminal_read_returns_witness:
  "\<exists>g. read_file reset_msg 6 0 0x5000 9 [keys_typed [0x23, 0xA3, 0x18, 0x0E, 0x17, 0x97, 0x1C, 0x9C]] demo_tty_reader = Inr (2, g) \<and>
     load_bytes (fmem g) 0x5000 2 = [0x48, 0x49]"
proof -
  let ?f = demo_tty_reader and ?t = "(tt demo_tty_reader)\<lparr>ks := hks (drv demo_tty_reader), outbox := []\<rparr>"
  have sel: "tt ?f = demo_drained" "hks (drv ?f) = (flat_kstate (\<lambda>_. 0))\<lparr>proc_table := (\<lambda>_. zero_proc\<lparr>filp := (\<lambda>i. Some 0)\<rparr>)\<rparr>"
    by (simp_all add: demo_tty_reader_def)
  have open_tty: "reads_tty ?f 6 0 0"
    unfolding reads_tty_def by (intro exI [of _ 0]) (simp add: demo_tty_reader_def tty_inode_def)
  have drained: "drained 0 ?t"
    using demo_drained_ok by (simp add: sel drained_def terminals_ok_def zero_proc_def ldt_seg_linear_def zero_descriptor_def desc_base_def)
  have free: "sendable ?t TASK_FS"
    by (simp add: sel sendable_def deadlock_def deadlock_chain.simps zero_proc_def)
  have flat: "va2la (hks (drv ?f)) 6 0x5000 = Inr 0x5000"
    by (simp add: sel va2la_def zero_proc_def ldt_seg_linear_def zero_descriptor_def desc_base_def)
  have typed: "typed_chars (kbd (tt ?f)) [0x23, 0xA3, 0x18, 0x0E, 0x17, 0x97, 0x1C, 0x9C] = Some [0x48, 0x4F, 0x08, 0x49, 0x0A]"
    unfolding sel(1) by (rule demo_typed)
  have line: "edit_line 9 [] [0x48, 0x4F, 0x08, 0x49, 0x0A] = Some ([0x48, 0x49], 5)" by (simp add: edit_char_def)
  have small: "(0::nat) < NR_CONSOLES" "(6::nat) < nr_slots" "(0::nat) < 9" "(9::nat) < 2 ^ 31" by simp_all
  show ?thesis
    using terminal_read_returns [OF open_tty small flat drained free typed line, of reset_msg] by (auto simp: numeral_2_eq_2)
qed

theorem syslog_stops_fs_witness: "syslog reset_msg 6 0x5000 [0x6F, 0x6B] [] 64 (demo_fs (\<lambda>_. 0)) = Inl (Assert 56)"
  by (rule syslog_stops_fs [where str = "[0x6F, 0x6B]" and i = 2])
    (simp_all add: vsprintf_def demo_fs_def demo_hd_def flat_kstate_def ldt_seg_linear_def zero_proc_def zero_descriptor_def desc_base_def)

theorem panic_shows_message_witness:
  "\<exists>v. panic 6 0x5000 0x6000 [0x6F, 0x6B] [] (demo_terminals [] (\<lambda>_. 0)) = Inr (Halted v) \<and> v (V_MEM_BASE + 2 * 11) = 0x6F \<and> v (V_MEM_BASE + 2 * 11 + 1) = RED_CHAR"
proof -
  let ?t = "demo_terminals [] (\<lambda>_. 0)"
  have ks: "ks ?t = flat_kstate (\<lambda>_. 0)" by (simp add: demo_terminals_def)
  have "vsprintf (kmem (ks ?t)) [0x6F, 0x6B] [] = Inr ([0x6F, 0x6B], 2)" by (simp add: vsprintf_def)
  moreover have "(if k_reenter (ks ?t) = 0 then va2la (ks ?t) 6 a else Inr a) = Inr a" for a unfolding ks by (simp add: flat_va2la)
  ultimately obtain v where v: "panic 6 0x5000 0x6000 [0x6F, 0x6B] [] ?t = Inr (Halted v)"
    "\<forall>b<25. \<forall>k<13. v (V_MEM_BASE + 2 * (640 * b + k)) = (panic_text @ [0x6F, 0x6B]) ! k \<and> v (V_MEM_BASE + 2 * (640 * b + k) + 1) = RED_CHAR"
    using panic_shows_message [of ?t "[0x6F, 0x6B]" "[]" "[0x6F, 0x6B]" 2 6 "0x5000" "0x6000"] by auto
  from v(2) [rule_format, of 0 11] v(1) show ?thesis by (simp add: panic_text_def)
qed

theorem milli_delay_returns_witness: "milli_delay 25 (\<lambda>k. 100 + int k) = Some 3"
proof (rule milli_delay_returns)
  fix j :: nat
  assume "1 \<le> j" "j \<le> 3"
  then show "100 + int 0 \<le> 100 + int j \<and> (100 + int j - (100 + int 0)) * 1000 < 2 ^ 31" by simp
qed auto

end
