(* ===== verification/Fs_Dump.thy ===== *)
theory Fs_Dump
  imports Syscalls
begin

text \<open>
  The report on the open files and the disk, \<^verbatim>\<open>dump_fd_graph\<close> of \<^verbatim>\<open>fs/disklog.c\<close>, which the file system appends to its log after it
  has handled a request to remove a file, the whole turn of \<^verbatim>\<open>task_fs\<close> with it, and \<^verbatim>\<open>unlink\<close> of \<^verbatim>\<open>lib/unlink.c\<close>.

  Each \<^verbatim>\<open>SYSLOG\<close> is a list of items: pieces of its format and the arguments of its conversions (\<open>vsprintf_items\<close> below shows that
  \<^verbatim>\<open>vsprintf\<close> produces the same text from the format and the arguments). The file system is the process that logs, so that
  \<^verbatim>\<open>syslog\<close> calls \<^verbatim>\<open>disklog\<close>. The end of the log is part of the state of the actions; the static array \<^verbatim>\<open>_buf\<close> is a list.
  \<^verbatim>\<open>pfm\<close> and \<^verbatim>\<open>fim\<close> are the parts of these arrays below their indices. A pointer that was never set, in \<^verbatim>\<open>proc_flags\<close>, and a
  byte that was never set, in \<^verbatim>\<open>filename\<close>, are faults.
\<close>

section \<open>Texts\<close>

datatype item = Lit string | Chr u8 | Dec u32 | Dec02 u32 | Hex u32 | Str "u8 list"

abbreviation (input) tab :: item where "tab \<equiv> Chr 0x09"
abbreviation (input) nl :: item where "nl \<equiv> Chr 0x0A"

definition number_text :: "u8 \<Rightarrow> u32 \<Rightarrow> u8 list" where
  "number_text conv n = (case convert (\<lambda>_. 0) conv [n] of Inl e \<Rightarrow> [] | Inr (txt, args) \<Rightarrow> txt)"

fun item_text :: "item \<Rightarrow> u8 list" where
  "item_text (Lit s) = char_bytes s"
| "item_text (Chr c) = [c]"
| "item_text (Dec n) = number_text 0x64 n"
| "item_text (Dec02 n) = pad 0x30 2 (number_text 0x64 n) @ number_text 0x64 n"
| "item_text (Hex n) = number_text 0x78 n"
| "item_text (Str s) = s"

definition text_of :: "item list \<Rightarrow> u8 list" where
  "text_of items = concat (map item_text items)"

section \<open>Actions that log\<close>

type_synonym 'a logger = "nat \<Rightarrow> fs \<Rightarrow> ('a \<times> nat \<times> fs) result"

definition retL :: "'a \<Rightarrow> 'a logger" where
  "retL r = (\<lambda>pos f. Inr (r, pos, f))"

definition failL :: "fault \<Rightarrow> 'a logger" where
  "failL e = (\<lambda>pos f. Inl e)"

definition bindL :: "'a logger \<Rightarrow> ('a \<Rightarrow> 'b logger) \<Rightarrow> 'b logger" where
  "bindL m k = (\<lambda>pos f. bindE (m pos f) (\<lambda>(r, pos, f). k r pos f))"

definition readL :: "(fs \<Rightarrow> 'a) \<Rightarrow> 'a logger" where
  "readL g = (\<lambda>pos f. Inr (g f, pos, f))"

definition liftL :: "(fs \<Rightarrow> 'a result) \<Rightarrow> 'a logger" where
  "liftL g = (\<lambda>pos f. bindE (g f) (\<lambda>r. Inr (r, pos, f)))"

text \<open>\<^verbatim>\<open>SYSLOG\<close> in the file system, and a sequence of them.\<close>

definition slog :: "item list \<Rightarrow> unit logger" where
  "slog items = (\<lambda>pos f.
     if STR_DEFAULT_LEN \<le> length (text_of items) then Inl (OutOfBounds 18)
     else check 19 (0 \<notin> set (text_of items)) (bindE (disklog (text_of items) pos f) (\<lambda>(pos, f). Inr ((), pos, f))))"

fun slogs :: "item list list \<Rightarrow> unit logger" where
  "slogs [] = retL ()"
| "slogs (t # ts) = bindL (slog t) (\<lambda>_. slogs ts)"

text \<open>\<^verbatim>\<open>RD_SECT\<close> followed by the copy of the sector buffer to \<^verbatim>\<open>_buf\<close>.\<close>

definition rd_sect :: "u32 \<Rightarrow> u8 list logger" where
  "rd_sect n = (\<lambda>pos f. bindE (RD_SECT (i_dev (inode_table f (root_inode f))) n f) (\<lambda>f. Inr (fs_buf f, pos, f)))"

section \<open>The report\<close>

definition record_end :: "item list list" where
  "record_end = [[tab, Lit ''\"'', nl], [tab, tab, tab, Lit ''shape = \"record\"'', nl], [tab, tab, Lit ''];'', nl]]"

definition graph_head :: "nat \<Rightarrow> item list list" where
  "graph_head idx = [[Lit ''digraph filedesc'', Dec02 (of_nat idx), Lit '' {'', nl], [tab, Lit ''graph ['', nl],
     [Lit ''        rankdir = \"LR\"'', nl], [Lit ''    ];'', nl], [Lit ''    node ['', nl], [Lit ''        fontsize = \"16\"'', nl],
     [Lit ''        shape = \"ellipse\"'', nl], [Lit ''    ];'', nl], [Lit ''    edge ['', nl], [Lit ''    ];'', nl]]"

text \<open>The processes with open files.\<close>

definition proc_flag :: "u32 \<Rightarrow> string option" where
  "proc_flag flags = (if flags = 0 then Some ''RUNNING'' else if flags = 0x02 then Some ''SENDING'' else if flags = 0x04 then Some ''RECEIVING''
     else if flags = 0x08 then Some ''WAITING'' else if flags = 0x10 then Some ''FREE_SLOT'' else None)"

definition filp_item :: "nat \<Rightarrow> nat \<Rightarrow> nat \<Rightarrow> item list" where
  "filp_item fnr k d = [tab, Lit ''|<f'', Dec (of_nat fnr), Lit ''> filp['', Dec (of_nat k), Lit '']: '', Dec (of_nat d)]"

definition proc_line :: "nat \<Rightarrow> item list" where
  "proc_line i = [tab, tab, Lit ''\"proc'', Dec (of_nat i), Lit ''\" ['', nl]"

definition proc_label :: "nat \<Rightarrow> proc \<Rightarrow> string \<Rightarrow> item list" where
  "proc_label i p flag = [tab, tab, tab, Lit ''label = \"<f0>'', Str (char_bytes (p_name p)), Lit '' ('', Dec (of_nat i), Lit '') |<f1> p_flags:'',
     Dec (p_flags p), Lit ''('', Str (char_bytes flag), Lit '')'']"

fun dump_filps :: "nat \<Rightarrow> nat list \<Rightarrow> nat \<Rightarrow> (nat \<times> nat \<times> nat) list \<Rightarrow> (nat \<times> nat \<times> nat) list logger" where
  "dump_filps i [] fnr pfm = retL pfm"
| "dump_filps i (k # slots) fnr pfm =
     bindL (readL (\<lambda>f. filp (proc_table (hks (drv f)) i) k)) (\<lambda>r.
       case r of None \<Rightarrow> dump_filps i slots fnr pfm
       | Some d \<Rightarrow> bindL (slog (filp_item fnr k d)) (\<lambda>_.
           if 256 \<le> length pfm then failL (OutOfBounds 181) else dump_filps i slots (fnr + 1) (pfm @ [(i, fnr, d)])))"

fun dump_procs :: "nat list \<Rightarrow> (nat \<times> nat \<times> nat) list \<Rightarrow> (nat \<times> nat \<times> nat) list logger" where
  "dump_procs [] pfm = retL pfm"
| "dump_procs (i # is) pfm =
     bindL (readL (\<lambda>f. proc_table (hks (drv f)) i)) (\<lambda>p.
       if first_index (\<lambda>k. filp p k \<noteq> None) (nat NR_FILES) = None then dump_procs is pfm
       else bindL (slog (proc_line i)) (\<lambda>_.
         case proc_flag (p_flags p) of None \<Rightarrow> failL (OutOfBounds 173)
         | Some flag \<Rightarrow> bindL (slog (proc_label i p flag)) (\<lambda>_.
             bindL (dump_filps i [0..<nat NR_FILES] 3 pfm) (\<lambda>pfm. bindL (slogs record_end) (\<lambda>_. dump_procs is pfm)))))"

text \<open>The open descriptors and the inodes in use.\<close>

definition desc_lines :: "nat \<Rightarrow> file_desc \<Rightarrow> nat \<Rightarrow> item list list" where
  "desc_lines i d p = [[tab, tab, Lit ''\"filedesc'', Dec (of_nat i), Lit ''\" ['', nl],
     [tab, tab, tab, Lit ''label = \"<f0>filedesc '', Dec (of_nat i), Lit ''|<f1> fd_mode:'', Dec (fd_mode d), Lit ''|<f2> fd_pos:'', Dec (word_of_int (fd_pos d)),
      Lit ''|<f4> fd_inode:'', Dec (of_nat p)]] @ record_end"

fun dump_descs :: "nat list \<Rightarrow> (nat \<times> nat) list \<Rightarrow> (nat \<times> nat) list logger" where
  "dump_descs [] fim = retL fim"
| "dump_descs (i # is) fim =
     bindL (readL (\<lambda>f. f_desc_table f i)) (\<lambda>d.
       case fd_inode d of None \<Rightarrow> dump_descs is fim
       | Some p \<Rightarrow> bindL (slogs (desc_lines i d p)) (\<lambda>_. dump_descs is (fim @ [(i, p)])))"

definition inode_lines :: "nat \<Rightarrow> inode \<Rightarrow> item list list" where
  "inode_lines i x = [[tab, tab, Lit ''\"inode'', Dec (of_nat i), Lit ''\" ['', nl],
     [tab, tab, tab, Lit ''label = \"<f0>inode '', Dec (word_of_int (i_num x)), Lit ''|<f1> i_mode:0x'', Hex (i_mode x), Lit ''|<f2> i_size:0x'', Hex (i_size x),
      Lit ''|<f3> i_start_sect:0x'', Hex (i_start_sect x), Lit ''|<f4> i_nr_sects:0x'', Hex (i_nr_sects x), Lit ''|<f5> i_dev:0x'', Hex (word_of_int (i_dev x)),
      Lit ''|<f6> i_cnt:'', Dec (word_of_int (i_cnt x)), Lit ''|<f7> i_num:'', Dec (word_of_int (i_num x))]] @ record_end"

fun dump_inodes :: "nat list \<Rightarrow> unit logger" where
  "dump_inodes [] = retL ()"
| "dump_inodes (i # is) =
     bindL (readL (\<lambda>f. inode_table f i)) (\<lambda>x.
       if i_cnt x = 0 then dump_inodes is else bindL (slogs (inode_lines i x)) (\<lambda>_. dump_inodes is))"

text \<open>The runs of used sectors: the two inner loops over the bytes and bits of sector \<open>i\<close> of the map run over the pairs in order.\<close>

definition run_lines :: "nat \<Rightarrow> nat \<Rightarrow> item list list" where
  "run_lines bit_start bit_end = [[tab, tab, Lit ''\"sector '', Hex (of_nat bit_start), Lit ''h\" ['', nl],
     [tab, tab, tab, Lit ''label = \"<f0>sect '', Hex (of_nat bit_start), Lit ''h-'', Hex (of_nat bit_end), Lit ''h'']] @ record_end"

fun dump_runs :: "u8 list \<Rightarrow> nat \<Rightarrow> (nat \<times> nat) list \<Rightarrow> bool \<Rightarrow> nat \<Rightarrow> (bool \<times> nat) logger" where
  "dump_runs buf i [] smap_flag bit_start = retL (smap_flag, bit_start)"
| "dump_runs buf i ((j, k) # jks) smap_flag bit_start =
     (if \<not> smap_flag then
        (if bit (buf ! j) k then dump_runs buf i jks True ((i * SECTOR_SIZE + j) * 8 + k) else dump_runs buf i jks smap_flag bit_start)
      else if bit (buf ! j) k then dump_runs buf i jks smap_flag bit_start
      else bindL (slogs (run_lines bit_start ((i * SECTOR_SIZE + j) * 8 + k - 1))) (\<lambda>_. dump_runs buf i jks False bit_start))"

fun dump_smap :: "u32 \<Rightarrow> nat list \<Rightarrow> bool \<Rightarrow> nat \<Rightarrow> unit logger" where
  "dump_smap smap_blk0_nr [] smap_flag bit_start = retL ()"
| "dump_smap smap_blk0_nr (i # is) smap_flag bit_start =
     bindL (rd_sect (smap_blk0_nr + of_nat i)) (\<lambda>buf.
     bindL (dump_runs buf i (List.product [0..<SECTOR_SIZE] [0..<8]) smap_flag bit_start) (\<lambda>(smap_flag, bit_start). dump_smap smap_blk0_nr is smap_flag bit_start))"

text \<open>The used inode numbers.\<close>

definition imap_item :: "nat \<Rightarrow> item list" where
  "imap_item bit_nr = [Lit ''| '', Hex (of_nat bit_nr), Lit ''h '']"

fun dump_bits :: "u8 list \<Rightarrow> nat \<Rightarrow> (nat \<times> nat) list \<Rightarrow> unit logger" where
  "dump_bits buf i [] = retL ()"
| "dump_bits buf i ((j, k) # jks) =
     (if bit (buf ! j) k then bindL (slog (imap_item ((i * SECTOR_SIZE + j) * 8 + k))) (\<lambda>_. dump_bits buf i jks) else dump_bits buf i jks)"

fun dump_imap :: "nat list \<Rightarrow> unit logger" where
  "dump_imap [] = retL ()"
| "dump_imap (i # is) = bindL (rd_sect (1 + 1 + of_nat i)) (\<lambda>buf. bindL (dump_bits buf i (List.product [0..<SECTOR_SIZE] [0..<8])) (\<lambda>_. dump_imap is))"

text \<open>The first inodes on the disk. \<^verbatim>\<open>sizeof(struct inode)\<close> is 44, so that 11 of the 16 inodes of the sector are looked at.\<close>

definition entry_lines :: "nat \<Rightarrow> u32 \<Rightarrow> item list \<Rightarrow> item list list" where
  "entry_lines i sz items = [[tab, tab, Lit ''\"inodearray'', Dec (of_nat (i + 1)), Lit ''\" ['', nl],
     [tab, tab, tab, Lit ''label = \"<f0> '', Dec (of_nat (i + 1)), Lit ''|<f2> i_size:0x'', Hex sz] @ items] @ record_end"

definition array_lines :: "u32 \<Rightarrow> u8 list \<Rightarrow> nat \<Rightarrow> item list list result" where
  "array_lines n_1st buf i =
     (let p = INODE_SIZE * i; sz = word_at buf (p + 4); start = word_at buf (p + 8); nr = word_at buf (p + 12)
      in if start = 0 then Inr []
         else if nr \<noteq> 0 then
           (if start < n_1st then Inl (Panic 332)
            else let start_sect = start - n_1st + 1
                 in Inr (entry_lines i sz [Lit ''|<f3> sect: '', Hex start_sect, Lit ''-'', Hex (start_sect + nr - 1), Lit ''h'']))
         else Inr (entry_lines i sz [Lit ''|<f3> dev nr: ('', Hex (word_of_int (MAJOR (uint start))), Lit ''h, '', Hex (word_of_int (MINOR (uint start))), Lit ''h)'']))"

fun dump_array :: "u32 \<Rightarrow> u8 list \<Rightarrow> nat list \<Rightarrow> unit logger" where
  "dump_array n_1st buf [] = retL ()"
| "dump_array n_1st buf (i # is) = bindL (liftL (\<lambda>_. array_lines n_1st buf i)) (\<lambda>ts. bindL (slogs ts) (\<lambda>_. dump_array n_1st buf is))"

text \<open>The entries of the root directory. The counter \<^verbatim>\<open>m\<close> is never increased, so that the loop does not stop early. The array
  \<^verbatim>\<open>filename\<close> has one byte more than the field; it is never set.\<close>

definition dirent_line :: "u32 \<Rightarrow> item list" where
  "dirent_line nr = [tab, tab, Lit ''\"rootdirent'', Dec nr, Lit ''\" ['', nl]"

definition dirent_lines :: "u32 \<Rightarrow> u8 list \<Rightarrow> item list list" where
  "dirent_lines nr filename = [[tab, tab, tab, Lit ''label = \"<f0> '', Dec nr, Lit ''|<f2> '', Str filename]] @ record_end @
     [[tab, Lit ''\"inodearray'', Dec nr, Lit ''\":f0 -> \"rootdirent'', Dec nr, Lit ''\":f0;'', nl]]"

definition shown_name :: "u8 list \<Rightarrow> u8 list" where
  "shown_name field = (let name = takeWhile (\<lambda>c. c \<noteq> 0) field in if name \<noteq> [] \<and> hd name = 0x2E then 0x2F # tl name else name)"

fun dump_dirents :: "u8 list \<Rightarrow> nat list \<Rightarrow> unit logger" where
  "dump_dirents buf [] = retL ()"
| "dump_dirents buf (j # js) =
     (let inode_nr = word_at buf (DIR_ENTRY_SIZE * j); field = take MAX_FILENAME_LEN (drop (DIR_ENTRY_SIZE * j + 4) buf)
      in if inode_nr = 0 then dump_dirents buf js
         else bindL (slog (dirent_line inode_nr)) (\<lambda>_.
           if 0 \<notin> set field then failL (OutOfBounds 379)
           else bindL (slogs (dirent_lines inode_nr (shown_name field))) (\<lambda>_. dump_dirents buf js)))"

fun dump_dir :: "u32 \<Rightarrow> nat list \<Rightarrow> unit logger" where
  "dump_dir dir_blk0_nr [] = retL ()"
| "dump_dir dir_blk0_nr (i # is) =
     bindL (rd_sect (dir_blk0_nr + of_nat i)) (\<lambda>buf. bindL (dump_dirents buf [0..<SECTOR_SIZE div DIR_ENTRY_SIZE]) (\<lambda>_. dump_dir dir_blk0_nr is))"

text \<open>The first three clusters come from the tables, the next two from the maps, the last two from the first sectors of inodes and the root directory.\<close>

definition cluster_end :: "string \<Rightarrow> item list list" where
  "cluster_end name = [[tab, tab, Lit ''label = \"'', Lit name, Lit ''\";'', nl], [tab, Lit ''}'', nl]]"

definition cluster_head :: "string \<Rightarrow> item list list" where
  "cluster_head name = [[nl, tab, Lit ''subgraph '', Lit name, nl]]"

definition grey_head :: "string \<Rightarrow> item list list" where
  "grey_head name = cluster_head name @ [[nl, tab, tab, Lit ''style=filled;'', nl], [nl, tab, tab, Lit ''color=lightgrey;'', nl]]"

definition dump_tables :: "((nat \<times> nat \<times> nat) list \<times> (nat \<times> nat) list) logger" where
  "dump_tables =
     bindL (slogs (cluster_head ''cluster_0{'')) (\<lambda>_. bindL (dump_procs [0..<nr_slots] []) (\<lambda>pfm.
     bindL (slogs (cluster_end ''procs'' @ cluster_head ''cluster_1 {'')) (\<lambda>_. bindL (dump_descs [0..<NR_FILE_DESC] []) (\<lambda>fim.
     bindL (slogs (cluster_end ''filedescs'' @ cluster_head ''cluster_2 {'')) (\<lambda>_. bindL (dump_inodes [0..<NR_INODE]) (\<lambda>_.
     bindL (slogs (cluster_end ''inodes'')) (\<lambda>_. retL (pfm, fim))))))))"

definition root_super :: "super_block logger" where
  "root_super = liftL (\<lambda>f. get_super_block (i_dev (inode_table f (root_inode f))) f)"

definition maps_between :: "super_block \<Rightarrow> item list list" where
  "maps_between sb = [[tab, tab, Lit ''label = \"sector map (dev size: '', Hex (sb_nr_sects sb), Lit ''h)\";'', nl], [tab, Lit ''}'', nl]] @
     grey_head ''cluster_4 {'' @ [[tab, tab, Lit ''\"imap\" ['', nl], [tab, tab, tab, Lit ''label = \"<f0>bits'']]"

definition dump_maps :: "unit logger" where
  "dump_maps =
     bindL (slogs (grey_head ''cluster_3{'')) (\<lambda>_. bindL root_super (\<lambda>sb.
     bindL (dump_smap (1 + 1 + nr_imap_sects sb) [0..<unat (nr_smap_sects sb)] False 0) (\<lambda>_.
     bindL (slogs (maps_between sb)) (\<lambda>_.
     bindL (dump_imap [0..<unat (nr_imap_sects sb)]) (\<lambda>_. slogs (record_end @ cluster_end ''inode map''))))))"

definition dump_disk :: "unit logger" where
  "dump_disk =
     bindL (slogs (grey_head ''cluster_5 {'')) (\<lambda>_. bindL root_super (\<lambda>sb.
     bindL (rd_sect (1 + 1 + nr_imap_sects sb + nr_smap_sects sb)) (\<lambda>buf.
     bindL (dump_array (n_1st_sect sb) buf [0..<SECTOR_SIZE div 44]) (\<lambda>_.
     bindL (slogs (cluster_end ''inode array'' @ grey_head ''cluster_6 {'')) (\<lambda>_.
     bindL (readL (\<lambda>f. inode_table f (root_inode f))) (\<lambda>root.
     bindL (dump_dir (i_start_sect root) [0..<unat ((i_size root + SECTOR_SIZE - 1) div SECTOR_SIZE)]) (\<lambda>_. slogs (cluster_end ''root dir''))))))))"

definition pfm_edge :: "nat \<times> nat \<times> nat \<Rightarrow> item list" where
  "pfm_edge = (\<lambda>(pid, fnr, desc). [tab, Lit ''\"proc'', Dec (of_nat pid), Lit ''\":f'', Dec (of_nat fnr), Lit '' -> \"filedesc'', Dec (of_nat desc), Lit ''\":f0;'', nl])"

definition fim_edge :: "nat \<times> nat \<Rightarrow> item list" where
  "fim_edge = (\<lambda>(desc, p). [tab, Lit ''\"filedesc'', Dec (of_nat desc), Lit ''\":f4 -> \"inode'', Dec (of_nat p), Lit ''\":f6;'', nl])"

definition inode_edge :: "nat \<Rightarrow> inode \<Rightarrow> item list" where
  "inode_edge i x = [tab, Lit ''\"inode'', Dec (of_nat i), Lit ''\":f7 -> \"inodearray'', Dec (word_of_int (i_num x)), Lit ''\":f0;'', nl]"

fun dump_edges :: "nat list \<Rightarrow> unit logger" where
  "dump_edges [] = retL ()"
| "dump_edges (i # is) =
     bindL (readL (\<lambda>f. inode_table f i)) (\<lambda>x. if i_cnt x \<noteq> 0 then bindL (slog (inode_edge i x)) (\<lambda>_. dump_edges is) else dump_edges is)"

definition graph_tail :: "u8 list \<Rightarrow> item list list" where
  "graph_tail title = [[tab, Lit ''label = \"'', Str title, Lit ''\";'', nl], [Lit ''}'', nl], [Lit ''--separator--'', nl]]"

definition dump_fd_graph :: "item list \<Rightarrow> nat \<Rightarrow> unit logger" where
  "dump_fd_graph fmt graph_idx =
     (let title = text_of fmt
      in bindL (liftL (\<lambda>_. if STR_DEFAULT_LEN \<le> length title then Inl (OutOfBounds 123) else check 124 (0 \<notin> set title) (Inr ()))) (\<lambda>_.
         bindL (slogs (graph_head graph_idx)) (\<lambda>_. bindL dump_tables (\<lambda>(pfm, fim).
         bindL dump_maps (\<lambda>_. bindL dump_disk (\<lambda>_. bindL (slogs (map pfm_edge pfm @ map fim_edge fim)) (\<lambda>_.
         bindL (dump_edges [0..<NR_INODE]) (\<lambda>_. slogs (graph_tail title)))))))))"

text \<open>One turn of the loop of \<^verbatim>\<open>task_fs\<close>, with the number of graphs and the end of the log.\<close>

definition task_fs_turn :: "message \<Rightarrow> nat \<Rightarrow> nat \<Rightarrow> fs \<Rightarrow> ((int \<times> message) option \<times> nat \<times> nat \<times> fs) result" where
  "task_fs_turn m idx pos f =
     (let src = sint (source m)
      in if 0 \<le> src \<and> src < nr_slots
         then bindE (serve (f\<lparr>fs_msg := m, pcaller := nat src\<rparr>)) (\<lambda>(dest, f).
              bindE (if msg_type m = UNLINK
                     then bindE (dump_fd_graph [Str (char_bytes ''UNLINK''), Lit '' just finished''] idx pos f) (\<lambda>(r, pos, f). Inr (idx + 1, pos, f))
                     else Inr (idx, pos, f)) (\<lambda>(idx, pos, f).
                if msg_type (fs_msg f) \<noteq> SUSPEND_PROC
                then let f = f\<lparr>fs_msg := (fs_msg f)\<lparr>msg_type := SYSCALL_RET\<rparr>\<rparr> in Inr (Some (dest, fs_msg f), idx, pos, f)
                else Inr (None, idx, pos, f)))
         else Inl (OutOfBounds 29))"

text \<open>\<^verbatim>\<open>unlink\<close> of the C library.\<close>

definition unlink :: "message \<Rightarrow> nat \<Rightarrow> u32 \<Rightarrow> nat \<Rightarrow> nat \<Rightarrow> fs \<Rightarrow> (int \<times> nat \<times> nat \<times> fs) result" where
  "unlink junk c pathname idx pos f =
     bindE (user_strlen 17 c pathname f) (\<lambda>n.
     bindE (task_fs_turn (junk\<lparr>msg_type := UNLINK, m3p1 := pathname, m3i2 := n, source := of_nat c\<rparr>) idx pos f) (\<lambda>(answer, idx, pos, f).
       case answer of None \<Rightarrow> Inl (Hang 18)
       | Some (dest, r) \<Rightarrow> if dest = int c then Inr (sint (RETVAL r), idx, pos, f) else Inl (Hang 18)))"

section \<open>Formats\<close>

text \<open>The format and the arguments of a list of items; \<open>ptr\<close> gives the addresses of the strings.\<close>

fun item_format :: "item \<Rightarrow> u8 list" where
  "item_format (Lit s) = char_bytes s"
| "item_format (Chr c) = [c]"
| "item_format (Dec n) = [0x25, 0x64]"
| "item_format (Dec02 n) = [0x25, 0x30, 0x32, 0x64]"
| "item_format (Hex n) = [0x25, 0x78]"
| "item_format (Str s) = [0x25, 0x73]"

fun item_args :: "(u8 list \<Rightarrow> u32) \<Rightarrow> item \<Rightarrow> u32 list" where
  "item_args ptr (Lit s) = []"
| "item_args ptr (Chr c) = []"
| "item_args ptr (Dec n) = [n]"
| "item_args ptr (Dec02 n) = [n]"
| "item_args ptr (Hex n) = [n]"
| "item_args ptr (Str s) = [ptr s]"

definition item_ok :: "memory \<Rightarrow> (u8 list \<Rightarrow> u32) \<Rightarrow> item \<Rightarrow> bool" where
  "item_ok h ptr x = (case x of Lit s \<Rightarrow> 0x25 \<notin> set (char_bytes s) | Chr c \<Rightarrow> c \<noteq> 0x25
     | Str s \<Rightarrow> cstr h (ptr s) s \<and> length s < STR_DEFAULT_LEN | _ \<Rightarrow> True)"

lemma number_convert:
  assumes "conv = 0x64 \<or> conv = 0x78"
  shows "convert h conv (n # args) = Inr (number_text conv n, args)"
proof -
  have tot: "\<exists>r. i2a v b = Some r" if "b = 10 \<or> b = 16" for v b :: int
  proof -
    from that have "2 \<le> b" "b \<le> 16" by auto
    then show ?thesis by (rule i2a_total) (rule exI)
  qed
  obtain a where a: "i2a (sint n) 16 = Some a" using tot by blast
  obtain b where b: "i2a (sint n) 10 = Some b" using tot by blast
  obtain c where c: "i2a (sint (n * (-1))) 10 = Some c" using tot by blast
  note a b c
  then have "convert h conv (n # args) = Inr (if conv = 0x78 then a else if sint n < 0 then 0x2D # c else b, args)" for h args
    using assms by (elim disjE) (simp_all add: convert_def del: mult_minus1_right)
  then show ?thesis by (simp add: number_text_def)
qed

lemma number_nonzero: "conv = 0x64 \<or> conv = 0x78 \<Longrightarrow> 0 \<notin> set (number_text conv n)"
  using number_convert [of conv "\<lambda>_. 0" n "[]"] convert_nonzero by blast

lemma vsprintf_loop_item:
  assumes "item_ok h ptr x"
  shows "vsprintf_loop h (item_args ptr x @ args) (item_format x @ fmt) p = vsprintf_loop h args fmt (p @ item_text x)"
proof -
  have scan: "scan_align (c # fmt) 0 = (0, c # fmt)" if "c \<in> {0x64, 0x78, 0x73}" for c
    using that by auto
  have nopad: "pad 0x20 0 t = []" for t by (simp add: pad_def)
  have scan2: "scan_align (0x32 # 0x64 # fmt) 0 = (2, 0x64 # fmt)" by simp
  show ?thesis
  proof (cases x)
    case (Lit s)
    then show ?thesis using assms by (simp add: item_ok_def vsprintf_loop_text)
  next
    case (Str s)
    then have s: "cstr h (ptr s) s" "length s < STR_DEFAULT_LEN" using assms by (simp_all add: item_ok_def)
    then have "convert h 0x73 (ptr s # args) = Inr (s, args)"
      using strlen_correct [OF s(1), of 0] cstr_load [OF s(1)] by (simp add: convert_def)
    then show ?thesis using Str scan nopad by simp
  qed (use assms scan scan2 nopad in \<open>simp_all add: item_ok_def number_convert\<close>)
qed

text \<open>\<^verbatim>\<open>vsprintf\<close> turns the format and the arguments into the text of the items.\<close>

lemma vsprintf_items:
  assumes "\<forall>x\<in>set items. item_ok h ptr x"
  shows "vsprintf h (concat (map item_format items)) (concat (map (item_args ptr) items)) = Inr (text_of items, length (text_of items))"
proof -
  have "vsprintf_loop h (concat (map (item_args ptr) items) @ args) (concat (map item_format items) @ fmt) p = vsprintf_loop h args fmt (p @ text_of items)" for args fmt p
    using assms by (induction items arbitrary: p) (simp_all add: text_of_def vsprintf_loop_item)
  from this [of "[]" "[]" "[]"] show ?thesis by (simp add: vsprintf_def)
qed

section \<open>Reasoning about actions that log\<close>

definition texts :: "item list list \<Rightarrow> u8 list" where
  "texts ts = concat (map text_of ts)"

lemma texts_simps [simp]: "texts [] = []" "texts (t # ts) = text_of t @ texts ts" "texts (ts @ us) = texts ts @ texts us"
  by (simp_all add: texts_def)

text \<open>The text \<open>txt\<close> was appended to the log that ends at \<open>pos\<close>, and nothing else changed but the header of the log and the sector buffer.\<close>

definition logged :: "fs \<Rightarrow> nat \<Rightarrow> nat \<Rightarrow> u8 list \<Rightarrow> fs \<Rightarrow> bool" where
  "logged f st pos txt g \<longleftrightarrow> fs_frame f g \<and> log_at g st \<and>
     (\<forall>k. 64 \<le> k \<and> k < 2047 * SECTOR_SIZE \<longrightarrow> log_byte g st k = (if pos \<le> k \<and> k < pos + length txt then txt ! (k - pos) else log_byte f st k)) \<and>
     (\<forall>n. n < st \<or> st + 2048 \<le> n \<longrightarrow> fs_sect g n = fs_sect f n)"

lemma logged_trans: "logged f st pos a g \<Longrightarrow> logged g st (pos + length a) b k \<Longrightarrow> logged f st pos (a @ b) k"
  unfolding logged_def by (auto simp: nth_append intro: fs_frame_trans)

lemma logged_quiet: "log_at f st \<Longrightarrow> fs_frame f g \<Longrightarrow> fs_ok g \<Longrightarrow> fs_sect g = fs_sect f \<Longrightarrow> logged f st pos [] g"
  using mounted_frame [of f g] fs_frame_sel(1, 3, 4) [of f g] by (auto simp: logged_def log_at_def log_byte_def sb0_def)

text \<open>\<open>act\<close>, started where the tables and the sectors before the log are those of \<open>f\<^sub>0\<close>, logs the texts \<open>ts\<close> and returns a value with \<open>Q\<close>.\<close>

definition logs :: "fs \<Rightarrow> nat \<Rightarrow> item list list \<Rightarrow> 'a logger \<Rightarrow> ('a \<Rightarrow> bool) \<Rightarrow> bool" where
  "logs f0 st ts act Q \<longleftrightarrow> (\<forall>pos f. fs_frame f0 f \<and> (\<forall>n < st. fs_sect f n = fs_sect f0 n) \<and> log_at f st \<and> 64 \<le> pos \<and>
     pos + length (texts ts) \<le> 2047 * SECTOR_SIZE \<longrightarrow>
     (\<exists>r g. act pos f = Inr (r, pos + length (texts ts), g) \<and> Q r \<and> logged f st pos (texts ts) g))"

lemma logsD:
  assumes "logs f0 st ts act Q" "fs_frame f0 f" "\<forall>n < st. fs_sect f n = fs_sect f0 n" "log_at f st" "64 \<le> pos" "pos + length (texts ts) \<le> 2047 * SECTOR_SIZE"
  obtains r g where "act pos f = Inr (r, pos + length (texts ts), g)" "Q r" "logged f st pos (texts ts) g"
  using assms(1) [unfolded logs_def, rule_format, of f pos] assms(2-) by blast

lemma logs_bind:
  assumes "logs f0 st ts m P" "\<And>r. P r \<Longrightarrow> logs f0 st us (k r) Q"
  shows "logs f0 st (ts @ us) (bindL m k) Q"
  unfolding logs_def
proof (intro allI impI)
  fix pos f
  assume a: "fs_frame f0 f \<and> (\<forall>n < st. fs_sect f n = fs_sect f0 n) \<and> log_at f st \<and> 64 \<le> pos \<and> pos + length (texts (ts @ us)) \<le> 2047 * SECTOR_SIZE"
  then have "pos + length (texts ts) \<le> 2047 * SECTOR_SIZE" by simp
  with a obtain r g where g: "m pos f = Inr (r, pos + length (texts ts), g)" "P r" "logged f st pos (texts ts) g"
    using logsD [OF assms(1)] by blast
  have "fs_frame f0 g" "\<forall>n < st. fs_sect g n = fs_sect f0 n" "log_at g st" "64 \<le> pos + length (texts ts)" "pos + length (texts ts) + length (texts us) \<le> 2047 * SECTOR_SIZE"
    using a g(3) fs_frame_trans [of f0 f g] by (auto simp: logged_def)
  then obtain q k' where k: "k r (pos + length (texts ts)) g = Inr (q, pos + length (texts ts) + length (texts us), k')" "Q q" "logged g st (pos + length (texts ts)) (texts us) k'"
    using logsD [OF assms(2) [OF g(2)]] by blast
  show "\<exists>r g. bindL m k pos f = Inr (r, pos + length (texts (ts @ us)), g) \<and> Q r \<and> logged f st pos (texts (ts @ us)) g"
    using g(1) k(1, 2) logged_trans [OF g(3) k(3)] by (simp add: bindL_def)
qed

lemma logs_ret: "Q r \<Longrightarrow> logs f0 st [] (retL r) Q"
  by (auto simp: logs_def retL_def logged_quiet log_at_def mounted_def)

lemma logs_weaken: "logs f0 st ts m P \<Longrightarrow> (\<And>r. P r \<Longrightarrow> Q r) \<Longrightarrow> logs f0 st ts m Q"
  unfolding logs_def by meson

lemma logs_read: "(\<And>f. fs_frame f0 f \<Longrightarrow> g f = v) \<Longrightarrow> logs f0 st [] (readL g) (\<lambda>r. r = v)"
  by (auto simp: logs_def readL_def logged_quiet log_at_def mounted_def)

lemma logs_lift: "(\<And>f. fs_frame f0 f \<Longrightarrow> log_at f st \<Longrightarrow> g f = Inr v) \<Longrightarrow> logs f0 st [] (liftL g) (\<lambda>r. r = v)"
  by (auto simp: logs_def liftL_def logged_quiet log_at_def mounted_def)

text \<open>A silent step before the rest, and a known text before it.\<close>

lemmas logs_quiet = logs_bind [where ts = "[]", simplified]

definition good :: "item list \<Rightarrow> bool" where
  "good t \<longleftrightarrow> length (text_of t) < STR_DEFAULT_LEN \<and> 0 \<notin> set (text_of t)"

lemma logs_slog:
  assumes "good t"
  shows "logs f0 st [t] (slog t) (\<lambda>_. True)"
  unfolding logs_def
proof (intro allI impI)
  fix pos f
  assume a: "fs_frame f0 f \<and> (\<forall>n < st. fs_sect f n = fs_sect f0 n) \<and> log_at f st \<and> 64 \<le> pos \<and> pos + length (texts [t]) \<le> 2047 * SECTOR_SIZE"
  then obtain g where g: "disklog (text_of t) pos f = Inr (pos + length (text_of t), g)" "fs_ok g" "fs_frame f g"
    "\<forall>k. 64 \<le> k \<and> k < 2047 * SECTOR_SIZE \<longrightarrow> log_byte g st k = (if pos \<le> k \<and> k < pos + length (text_of t) then text_of t ! (k - pos) else log_byte f st k)"
    "\<forall>n. n < st \<or> st + 2048 \<le> n \<longrightarrow> fs_sect g n = fs_sect f n"
    using disklog_ok [of f st pos "text_of t"] by auto
  have "log_at g st" using a g(2, 3) fs_frame_sel(1, 3, 4) [OF g(3)] mounted_frame [of f g] by (simp add: log_at_def sb0_def)
  then show "\<exists>r g. slog t pos f = Inr (r, pos + length (texts [t]), g) \<and> True \<and> logged f st pos (texts [t]) g"
    using g assms by (simp add: slog_def good_def logged_def)
qed

lemma logs_slogs: "list_all good ts \<Longrightarrow> logs f0 st ts (slogs ts) (\<lambda>_. True)"
proof (induction ts)
  case (Cons t ts)
  then show ?case using logs_bind [OF logs_slog [of t f0 st], of ts "\<lambda>_. slogs ts"] by simp
qed (simp add: logs_ret)

lemma logs_rd:
  assumes "n < st" "log_at f0 st"
  shows "logs f0 st [] (rd_sect (of_nat n)) (\<lambda>buf. buf = fs_sect f0 n)"
  unfolding logs_def
proof (intro allI impI)
  fix pos f
  assume a: "fs_frame f0 f \<and> (\<forall>n < st. fs_sect f n = fs_sect f0 n) \<and> log_at f st \<and> 64 \<le> pos \<and> pos + length (texts []) \<le> 2047 * SECTOR_SIZE"
  then have "fs_ok f" "n < sect_limit" and dev: "i_dev (inode_table f (root_inode f)) = ROOT_DEV" using assms(1) by (simp_all add: log_at_def mounted_def)
  then obtain g where g: "RD_SECT ROOT_DEV (of_nat n) f = Inr g" "fs_ok g" "fs_buf g = fs_sect f n" "fs_sect g = fs_sect f" "fs_frame f g"
    using root.rd_ok by blast
  moreover have "logged f st pos [] g" using logged_quiet [of f st g] a g by blast
  ultimately show "\<exists>r g. rd_sect (of_nat n) pos f = Inr (r, pos + length (texts []), g) \<and> r = fs_sect f0 n \<and> logged f st pos (texts []) g"
    using a assms(1) dev by (simp add: rd_sect_def)
qed

section \<open>The texts fit\<close>

lemma i2a_length: "i2a v b = Some s \<Longrightarrow> 2 \<le> b \<Longrightarrow> \<bar>v\<bar> < b ^ n \<Longrightarrow> 0 < n \<Longrightarrow> length s \<le> n"
proof (induction n arbitrary: v s)
  case (Suc n)
  show ?case
  proof (cases "v sdiv b = 0")
    case True
    then show ?thesis using Suc.prems(1) by (subst (asm) i2a.simps) (auto simp: Let_def)
  next
    case False
    have ab: "\<bar>v sdiv b\<bar> = \<bar>v\<bar> div b" using Suc.prems(2) pos_imp_zdiv_nonneg_iff [of b "\<bar>v\<bar>"] by (cases "v = 0") (simp_all add: signed_divide_int_def abs_mult)
    have "b * (\<bar>v\<bar> div b) \<le> \<bar>v\<bar>" using Suc.prems(2) mult_div_mod_eq [of b "\<bar>v\<bar>"] pos_mod_sign [of b "\<bar>v\<bar>"] by linarith
    then have "b * (\<bar>v\<bar> div b) < b * b ^ n" using Suc.prems(3) by simp
    then have "\<bar>v\<bar> div b < b ^ n" using Suc.prems(2) by simp
    moreover have "n \<noteq> 0" using False ab calculation Suc.prems(2) by (cases n) (auto simp: pos_imp_zdiv_nonneg_iff)
    moreover obtain r c where "i2a (v sdiv b) b = Some r" "s = r @ [c]"
      using Suc.prems(1) False by (subst (asm) i2a.simps) (auto simp: Let_def split: Option.bind_splits)
    ultimately show ?thesis using Suc.IH [of "v sdiv b" r] Suc.prems(2) by (simp add: ab)
  qed
qed simp

lemma number_length: "conv = 0x64 \<or> conv = 0x78 \<Longrightarrow> length (number_text conv n) \<le> 11"
proof -
  assume conv: "conv = 0x64 \<or> conv = 0x78"
  have len: "length r \<le> 10" if "i2a (sint w) b = Some r" "b = 10 \<or> b = 16" for w :: u32 and b r
  proof -
    have "\<bar>sint w\<bar> \<le> 2 ^ 31" using sint_range_size [of w] by (auto simp: word_size)
    then have "\<bar>sint w\<bar> < b ^ 10" using that(2) by auto
    then show ?thesis using i2a_length [OF that(1)] that(2) by auto
  qed
  have "convert (\<lambda>_. 0) conv [n] = Inr (number_text conv n, [])" by (rule number_convert [OF conv])
  then show ?thesis using conv
    by (elim disjE) (auto simp: convert_def bindE_eq_Inr simp del: mult_minus1_right split: if_splits dest!: len dest: sym)
qed

text \<open>A bound on the length of an item, and the items without zero bytes.\<close>

fun item_size :: "item \<Rightarrow> nat" where
  "item_size (Lit s) = length s"
| "item_size (Chr c) = 1"
| "item_size (Str s) = length s"
| "item_size _ = 11"

fun item_clean :: "item \<Rightarrow> bool" where
  "item_clean (Lit s) = (CHR 0x00 \<notin> set s)"
| "item_clean (Chr c) = (c \<noteq> 0)"
| "item_clean (Str s) = (0 \<notin> set s)"
| "item_clean _ = True"

lemma char_bytes_clean: "0 \<in> set (char_bytes s) \<longleftrightarrow> CHR 0x00 \<in> set s"
proof -
  have "(of_nat (of_char c) :: u8) = 0 \<longleftrightarrow> c = CHR 0x00" for c
  proof -
    have "(of_nat (of_char c) :: u8) = 0 \<longleftrightarrow> 256 dvd (of_char c :: nat)" by (simp only: word_of_nat_eq_0_iff) simp
    also have "\<dots> \<longleftrightarrow> (of_char c :: nat) = of_char CHR 0x00" using nat_of_char_less_256 [of c] nat_dvd_not_less [of "of_char c" 256] by (cases "of_char c = (0 :: nat)") simp_all
    also have "\<dots> \<longleftrightarrow> c = CHR 0x00" by (rule of_char_eq_iff)
    finally show ?thesis .
  qed
  then show ?thesis by (force simp: char_bytes_def)
qed

lemma item_size: "length (item_text x) \<le> item_size x"
proof (cases x)
  case (Dec02 n)
  then show ?thesis using number_length [OF disjI1 [OF refl], of n] by (simp add: pad_def nat_diff_distrib')
qed (use number_length in \<open>auto simp: char_bytes_def\<close>)

lemma text_size: "length (text_of t) \<le> sum_list (map item_size t)"
  by (induction t) (auto simp: text_of_def intro: add_mono item_size)

lemma item_clean: "item_clean x \<Longrightarrow> 0 \<notin> set (item_text x)"
  using number_nonzero by (cases x) (auto simp: char_bytes_clean pad_def)

lemma goodI: "list_all item_clean t \<Longrightarrow> sum_list (map item_size t) < STR_DEFAULT_LEN \<Longrightarrow> good t"
  using text_size [of t] item_clean by (fastforce simp: good_def text_of_def list_all_iff)

lemma good_record_end: "list_all good record_end"
  by (simp add: record_end_def goodI)

lemma good_head: "list_all good (graph_head idx)"
  by (simp add: graph_head_def goodI)

lemma good_filp: "good (filp_item fnr k d)" "good (proc_line i)"
  by (simp_all add: filp_item_def proc_line_def goodI)

lemma good_proc_label: "CHR 0x00 \<notin> set (p_name p) \<Longrightarrow> length (p_name p) \<le> 512 \<Longrightarrow> proc_flag (p_flags p) = Some flag \<Longrightarrow> good (proc_label i p flag)"
proof (rule goodI)
  assume p: "CHR 0x00 \<notin> set (p_name p)" "length (p_name p) \<le> 512" "proc_flag (p_flags p) = Some flag"
  have len: "length (char_bytes s) = length s" for s by (simp add: char_bytes_def)
  have flag: "CHR 0x00 \<notin> set flag" "length flag \<le> 9" using p(3) by (auto simp: proc_flag_def split: if_splits)
  then show "list_all item_clean (proc_label i p flag)" using p(1) by (simp add: proc_label_def char_bytes_clean)
  show "sum_list (map item_size (proc_label i p flag)) < STR_DEFAULT_LEN" using p(2) flag(2) by (simp add: proc_label_def len)
qed

lemma good_desc: "list_all good (desc_lines i d p)"
  using good_record_end by (simp add: desc_lines_def goodI)

lemma good_inode: "list_all good (inode_lines i x)"
  using good_record_end by (simp add: inode_lines_def goodI)

lemma good_run: "list_all good (run_lines a b)"
  using good_record_end by (simp add: run_lines_def goodI)

lemma good_imap: "good (imap_item n)"
  by (simp add: imap_item_def goodI)

lemma good_array: "array_lines n_1st buf i = Inr ts \<Longrightarrow> list_all good ts"
  using good_record_end by (auto simp: array_lines_def entry_lines_def Let_def split: if_splits intro!: goodI)

lemma good_dirent: "good (dirent_line nr)" "length name \<le> 512 \<Longrightarrow> 0 \<notin> set name \<Longrightarrow> list_all good (dirent_lines nr name)"
  using good_record_end by (simp_all add: dirent_line_def dirent_lines_def goodI)

lemma good_cluster:
  "length name \<le> 512 \<Longrightarrow> CHR 0x00 \<notin> set name \<Longrightarrow> list_all good (cluster_head name) \<and> list_all good (cluster_end name) \<and> list_all good (grey_head name)"
  by (simp add: cluster_head_def cluster_end_def grey_head_def goodI)

lemma good_edges: "good (pfm_edge x)" "good (fim_edge y)" "good (inode_edge i z)"
  by (simp_all add: pfm_edge_def fim_edge_def inode_edge_def goodI split: prod.split)

lemma good_tail: "length title \<le> 512 \<Longrightarrow> 0 \<notin> set title \<Longrightarrow> list_all good (graph_tail title)"
  by (simp add: graph_tail_def goodI)

section \<open>What the report says\<close>

definition open_slots :: "proc \<Rightarrow> nat list" where
  "open_slots p = filter (\<lambda>k. filp p k \<noteq> None) [0..<nat NR_FILES]"

definition proc_texts :: "nat \<Rightarrow> proc \<Rightarrow> item list list" where
  "proc_texts i p = (if open_slots p = [] then []
     else proc_line i # proc_label i p (the (proc_flag (p_flags p))) # map (\<lambda>(n, k). filp_item n k (the (filp p k))) (enumerate 3 (open_slots p)) @ record_end)"

definition proc_slots :: "nat \<Rightarrow> proc \<Rightarrow> (nat \<times> nat \<times> nat) list" where
  "proc_slots i p = map (\<lambda>(n, k). (i, n, the (filp p k))) (enumerate 3 (open_slots p))"

definition desc_texts :: "fs \<Rightarrow> nat \<Rightarrow> item list list" where
  "desc_texts f i = (case fd_inode (f_desc_table f i) of None \<Rightarrow> [] | Some p \<Rightarrow> desc_lines i (f_desc_table f i) p)"

definition desc_inodes :: "fs \<Rightarrow> nat \<Rightarrow> (nat \<times> nat) list" where
  "desc_inodes f i = (case fd_inode (f_desc_table f i) of None \<Rightarrow> [] | Some p \<Rightarrow> [(i, p)])"

definition inode_texts :: "fs \<Rightarrow> nat \<Rightarrow> item list list" where
  "inode_texts f i = (if i_cnt (inode_table f i) = 0 then [] else inode_lines i (inode_table f i))"

lemma logs_filps:
  assumes "length pfm + length (filter (\<lambda>k. filp p k \<noteq> None) slots) \<le> 256" "proc_table (hks (drv f0)) i = p"
  shows "logs f0 st (map (\<lambda>(n, k). filp_item n k (the (filp p k))) (enumerate fnr (filter (\<lambda>k. filp p k \<noteq> None) slots))) (dump_filps i slots fnr pfm)
     (\<lambda>r. r = pfm @ map (\<lambda>(n, k). (i, n, the (filp p k))) (enumerate fnr (filter (\<lambda>k. filp p k \<noteq> None) slots)))"
  using assms(1)
proof (induction slots arbitrary: fnr pfm)
  case Nil
  then show ?case by (simp add: logs_ret)
next
  case (Cons k slots)
  have r: "logs f0 st [] (readL (\<lambda>f. filp (proc_table (hks (drv f)) i) k)) (\<lambda>r. r = filp p k)"
    using assms(2) by (intro logs_read) (simp add: fs_frame_sel(8))
  show ?case
  proof (cases "filp p k")
    case None
    then show ?thesis using Cons by (auto intro!: logs_quiet [OF r])
  next
    case (Some d)
    have "logs f0 st ([filp_item fnr k d] @ map (\<lambda>(n, k). filp_item n k (the (filp p k))) (enumerate (fnr + 1) (filter (\<lambda>k. filp p k \<noteq> None) slots)))
        (bindL (slog (filp_item fnr k d)) (\<lambda>_. if 256 \<le> length pfm then failL (OutOfBounds 181) else dump_filps i slots (fnr + 1) (pfm @ [(i, fnr, d)])))
        (\<lambda>r. r = (pfm @ [(i, fnr, d)]) @ map (\<lambda>(n, k). (i, n, the (filp p k))) (enumerate (fnr + 1) (filter (\<lambda>k. filp p k \<noteq> None) slots)))"
      using Cons.prems Some Cons.IH [of "pfm @ [(i, fnr, d)]" "fnr + 1"] by (intro logs_bind [OF logs_slog]) (auto simp: good_filp)
    then show ?thesis using Some by (auto intro!: logs_quiet [OF r])
  qed
qed

lemma open_slots_first: "first_index (\<lambda>k. \<exists>y. filp p k = Some y) 64 = None \<longleftrightarrow> open_slots p = []"
  by (auto simp: first_index_None open_slots_def filter_empty_conv)

definition shown :: "proc \<Rightarrow> bool" where
  "shown p \<longleftrightarrow> open_slots p = [] \<or> proc_flag (p_flags p) \<noteq> None \<and> CHR 0x00 \<notin> set (p_name p) \<and> length (p_name p) \<le> 512"

lemma logs_procs:
  assumes "length (pfm @ concat (map (\<lambda>i. proc_slots i (proc_table (hks (drv f0)) i)) is)) \<le> 256" "\<forall>i\<in>set is. shown (proc_table (hks (drv f0)) i)"
  shows "logs f0 st (concat (map (\<lambda>i. proc_texts i (proc_table (hks (drv f0)) i)) is)) (dump_procs is pfm)
     (\<lambda>r. r = pfm @ concat (map (\<lambda>i. proc_slots i (proc_table (hks (drv f0)) i)) is))"
  using assms
proof (induction "is" arbitrary: pfm)
  case Nil
  then show ?case by (simp add: logs_ret)
next
  case (Cons i "is")
  let ?p = "proc_table (hks (drv f0)) i"
  have r: "logs f0 st [] (readL (\<lambda>f. proc_table (hks (drv f)) i)) (\<lambda>r. r = ?p)"
    by (rule logs_read) (simp add: fs_frame_sel(8))
  show ?case
  proof (cases "open_slots ?p = []")
    case True
    then show ?thesis using Cons by (auto simp: proc_texts_def proc_slots_def open_slots_first intro!: logs_quiet [OF r])
  next
    case False
    then obtain flag where flag: "proc_flag (p_flags ?p) = Some flag" "good (proc_label i ?p flag)"
      using Cons.prems(2) good_proc_label by (auto simp: shown_def)
    have rest: "logs f0 st (record_end @ concat (map (\<lambda>i. proc_texts i (proc_table (hks (drv f0)) i)) is)) (bindL (slogs record_end) (\<lambda>_. dump_procs is (pfm @ proc_slots i ?p)))
        (\<lambda>r. r = (pfm @ proc_slots i ?p) @ concat (map (\<lambda>i. proc_slots i (proc_table (hks (drv f0)) i)) is))"
      using Cons.IH [of "pfm @ proc_slots i ?p"] Cons.prems by (intro logs_bind [OF logs_slogs [OF good_record_end]]) auto
    have "length pfm + length (open_slots ?p) \<le> 256" using Cons.prems(1) by (simp add: proc_slots_def)
    then have filps: "logs f0 st (map (\<lambda>(n, k). filp_item n k (the (filp ?p k))) (enumerate 3 (open_slots ?p))) (dump_filps i [0..<nat NR_FILES] 3 pfm) (\<lambda>r. r = pfm @ proc_slots i ?p)"
      using logs_filps [OF _ refl, of pfm f0 i "[0..<nat NR_FILES]" st 3] by (simp add: open_slots_def proc_slots_def)
    have "logs f0 st ([proc_line i] @ [proc_label i ?p flag] @ map (\<lambda>(n, k). filp_item n k (the (filp ?p k))) (enumerate 3 (open_slots ?p)) @
          record_end @ concat (map (\<lambda>i. proc_texts i (proc_table (hks (drv f0)) i)) is))
        (bindL (slog (proc_line i)) (\<lambda>_. case proc_flag (p_flags ?p) of None \<Rightarrow> failL (OutOfBounds 173)
         | Some flag \<Rightarrow> bindL (slog (proc_label i ?p flag)) (\<lambda>_. bindL (dump_filps i [0..<nat NR_FILES] 3 pfm) (\<lambda>pfm. bindL (slogs record_end) (\<lambda>_. dump_procs is pfm)))))
        (\<lambda>r. r = (pfm @ proc_slots i ?p) @ concat (map (\<lambda>i. proc_slots i (proc_table (hks (drv f0)) i)) is))"
      unfolding flag(1) option.case
      by (intro logs_bind [OF logs_slog [OF good_filp(2)]] logs_bind [OF logs_slog [OF flag(2)]] logs_bind [OF filps]) (use rest in simp)
    then show ?thesis using False flag(1) by (auto simp: proc_texts_def open_slots_first intro!: logs_quiet [OF r])
  qed
qed

lemma logs_descs: "logs f0 st (concat (map (desc_texts f0) is)) (dump_descs is fim) (\<lambda>r. r = fim @ concat (map (desc_inodes f0) is))"
proof (induction "is" arbitrary: fim)
  case Nil
  then show ?case by (simp add: logs_ret)
next
  case (Cons i "is")
  have r: "logs f0 st [] (readL (\<lambda>f. f_desc_table f i)) (\<lambda>r. r = f_desc_table f0 i)"
    by (rule logs_read) (simp add: fs_frame_sel(2))
  show ?case
  proof (cases "fd_inode (f_desc_table f0 i)")
    case None
    then show ?thesis using Cons [of fim] by (auto simp: desc_texts_def desc_inodes_def intro!: logs_quiet [OF r])
  next
    case (Some p)
    have "logs f0 st (desc_lines i (f_desc_table f0 i) p @ concat (map (desc_texts f0) is)) (bindL (slogs (desc_lines i (f_desc_table f0 i) p)) (\<lambda>_. dump_descs is (fim @ [(i, p)])))
        (\<lambda>r. r = (fim @ [(i, p)]) @ concat (map (desc_inodes f0) is))"
      by (rule logs_bind [OF logs_slogs [OF good_desc] Cons])
    moreover have "desc_texts f0 i = desc_lines i (f_desc_table f0 i) p" "desc_inodes f0 i = [(i, p)]" using Some by (simp_all add: desc_texts_def desc_inodes_def)
    ultimately show ?thesis using Some by (auto intro!: logs_quiet [OF r])
  qed
qed

lemma logs_inodes: "logs f0 st (concat (map (inode_texts f0) is)) (dump_inodes is) (\<lambda>_. True)"
proof (induction "is")
  case (Cons i "is")
  have r: "logs f0 st [] (readL (\<lambda>f. inode_table f i)) (\<lambda>r. r = inode_table f0 i)"
    by (rule logs_read) (simp add: fs_frame_sel(1))
  have "logs f0 st (inode_lines i (inode_table f0 i) @ concat (map (inode_texts f0) is)) (bindL (slogs (inode_lines i (inode_table f0 i))) (\<lambda>_. dump_inodes is)) (\<lambda>_. True)"
    by (rule logs_bind [OF logs_slogs [OF good_inode] Cons])
  moreover have "inode_texts f0 i = (if i_cnt (inode_table f0 i) = 0 then [] else inode_lines i (inode_table f0 i))" by (simp add: inode_texts_def)
  ultimately show ?case using Cons by (auto intro!: logs_quiet [OF r])
qed (simp add: logs_ret)

lemma logs_edges: "logs f0 st (concat (map (\<lambda>i. if i_cnt (inode_table f0 i) = 0 then [] else [inode_edge i (inode_table f0 i)]) is)) (dump_edges is) (\<lambda>_. True)"
proof (induction "is")
  case (Cons i "is")
  have r: "logs f0 st [] (readL (\<lambda>f. inode_table f i)) (\<lambda>r. r = inode_table f0 i)"
    by (rule logs_read) (simp add: fs_frame_sel(1))
  have "logs f0 st ([inode_edge i (inode_table f0 i)] @ concat (map (\<lambda>i. if i_cnt (inode_table f0 i) = 0 then [] else [inode_edge i (inode_table f0 i)]) is))
      (bindL (slog (inode_edge i (inode_table f0 i))) (\<lambda>_. dump_edges is)) (\<lambda>_. True)"
    by (rule logs_bind [OF logs_slog [OF good_edges(3)] Cons])
  then show ?case using Cons by (auto intro!: logs_quiet [OF r])
qed (simp add: logs_ret)

text \<open>The runs of used bits that end before a free bit from \<open>a\<close> up to \<open>b\<close>.\<close>

definition run_before :: "(nat \<Rightarrow> bool) \<Rightarrow> nat \<Rightarrow> nat" where
  "run_before B n = n - length (takeWhile B (rev [0..<n]))"

definition used_runs :: "(nat \<Rightarrow> bool) \<Rightarrow> nat \<Rightarrow> nat \<Rightarrow> (nat \<times> nat) list" where
  "used_runs B a b = map (\<lambda>e. (run_before B e, e - 1)) (filter (\<lambda>e. 0 < e \<and> B (e - 1) \<and> \<not> B e) [a..<b])"

lemma run_before_Suc: "run_before B (Suc n) = (if B n then run_before B n else Suc n)"
  by (simp add: run_before_def)

lemma run_before_idle: "\<not> (0 < n \<and> B (n - 1)) \<Longrightarrow> run_before B n = n"
  by (cases n) (simp_all add: run_before_Suc, simp add: run_before_def)

lemma used_runs_append: "a \<le> b \<Longrightarrow> b \<le> c \<Longrightarrow> used_runs B a b @ used_runs B b c = used_runs B a c"
  using upt_add_eq_append [of a b "c - b"] by (simp add: used_runs_def)

lemma used_runs_step: "n < m \<Longrightarrow> used_runs B n m = (if 0 < n \<and> B (n - 1) \<and> \<not> B n then [(run_before B n, n - 1)] else []) @ used_runs B (Suc n) m"
  by (simp add: used_runs_def upt_conv_Cons)

definition run_texts :: "(nat \<times> nat) list \<Rightarrow> item list list" where
  "run_texts rs = concat (map (\<lambda>(a, b). run_lines a b) rs)"

definition run_state :: "(nat \<Rightarrow> bool) \<Rightarrow> nat \<Rightarrow> bool \<Rightarrow> nat \<Rightarrow> bool" where
  "run_state B n flag start \<longleftrightarrow> flag = (0 < n \<and> B (n - 1)) \<and> (flag \<longrightarrow> start = run_before B n)"

lemma logs_runs:
  assumes "map (\<lambda>(j, k). (i * SECTOR_SIZE + j) * 8 + k) jks = [n..<m]" "n \<le> m" "\<forall>(j, k)\<in>set jks. bit (buf ! j) k = B ((i * SECTOR_SIZE + j) * 8 + k)" "run_state B n flag start"
  shows "logs f0 st (run_texts (used_runs B n m)) (dump_runs buf i jks flag start) (\<lambda>(flag, start). run_state B m flag start)"
  using assms
proof (induction jks arbitrary: n flag start)
  case Nil
  then have "m = n" by (metis list.simps(8) upt_eq_Nil_conv le_antisym le_0_eq)
  then show ?case using Nil by (simp add: used_runs_def run_texts_def logs_ret)
next
  case (Cons jk jks)
  obtain j k where jk: "jk = (j, k)" by (cases jk)
  have n: "n < m" using Cons.prems(1, 2) by (cases "n < m") simp_all
  then have pos: "(i * SECTOR_SIZE + j) * 8 + k = n" "map (\<lambda>(j, k). (i * SECTOR_SIZE + j) * 8 + k) jks = [Suc n..<m]"
    using Cons.prems(1) by (simp_all add: jk upt_conv_Cons)
  have b: "bit (buf ! j) k = B n" using Cons.prems(3) pos(1) by (simp add: jk)
  have IH: "logs f0 st (run_texts (used_runs B (Suc n) m)) (dump_runs buf i jks flag start) (\<lambda>(flag, start). run_state B m flag start)" if "run_state B (Suc n) flag start" for flag start
    using Cons.IH [OF pos(2) _ _ that] Cons.prems(3) n by simp
  note st = Cons.prems(4) [unfolded run_state_def]
  show ?case
  proof (cases "flag \<and> \<not> B n")
    case False
    then have "run_state B (Suc n) (flag \<or> B n) (if flag then start else n)" "\<not> (0 < n \<and> B (n - 1) \<and> \<not> B n)"
      using st run_before_idle [of n B] by (auto simp: run_state_def run_before_Suc)
    moreover have "dump_runs buf i (jk # jks) flag start = dump_runs buf i jks (flag \<or> B n) (if flag then start else n) \<or> \<not> flag \<and> \<not> B n \<and> dump_runs buf i (jk # jks) flag start = dump_runs buf i jks flag start"
      using False b pos(1) by (auto simp: jk)
    moreover have "\<not> flag \<and> \<not> B n \<Longrightarrow> run_state B (Suc n) flag start" by (simp add: run_state_def)
    ultimately show ?thesis using IH n by (auto simp: used_runs_step)
  next
    case True
    then have "logs f0 st (run_lines start (n - 1) @ run_texts (used_runs B (Suc n) m)) (bindL (slogs (run_lines start (n - 1))) (\<lambda>_. dump_runs buf i jks False start)) (\<lambda>(flag, start). run_state B m flag start)"
      by (intro logs_bind [OF logs_slogs [OF good_run]] IH) (simp add: run_state_def)
    moreover have "used_runs B n m = (start, n - 1) # used_runs B (Suc n) m" using True st n by (simp add: used_runs_step)
    ultimately show ?thesis using True b pos(1) by (simp add: jk run_texts_def)
  qed
qed

lemma logs_bits:
  assumes "map (\<lambda>(j, k). (i * SECTOR_SIZE + j) * 8 + k) jks = [n..<m]" "\<forall>(j, k)\<in>set jks. bit (buf ! j) k = B ((i * SECTOR_SIZE + j) * 8 + k)"
  shows "logs f0 st (map imap_item (filter B [n..<m])) (dump_bits buf i jks) (\<lambda>_. True)"
proof -
  have "logs f0 st (map imap_item (filter B (map (\<lambda>(j, k). (i * SECTOR_SIZE + j) * 8 + k) jks))) (dump_bits buf i jks) (\<lambda>_. True)"
    using assms(2)
  proof (induction jks)
    case (Cons jk jks)
    obtain j k where jk: "jk = (j, k)" by (cases jk)
    have "logs f0 st ([imap_item ((i * SECTOR_SIZE + j) * 8 + k)] @ map imap_item (filter B (map (\<lambda>(j, k). (i * SECTOR_SIZE + j) * 8 + k) jks)))
        (bindL (slog (imap_item ((i * SECTOR_SIZE + j) * 8 + k))) (\<lambda>_. dump_bits buf i jks)) (\<lambda>_. True)"
      using Cons by (intro logs_bind [OF logs_slog [OF good_imap]]) auto
    then show ?case using Cons by (simp add: jk)
  qed (simp add: logs_ret)
  then show ?thesis using assms(1) by simp
qed

text \<open>The pairs of the two inner loops are the bits of the sector in order.\<close>

lemma product_positions: "map (\<lambda>(j, k). (c + j) * 8 + k) (List.product [0..<m] [0..<8]) = [8 * c..<8 * (c + m)]"
proof (induction m)
  case (Suc m)
  have "[8 * (c + m)..<8 * (c + Suc m)] = map (\<lambda>k. (c + m) * 8 + k) [0..<8]"
    using map_add_upt [of "8 * (c + m)" 8] by (simp add: algebra_simps)
  moreover have "[8 * c..<8 * (c + Suc m)] = [8 * c..<8 * (c + m)] @ [8 * (c + m)..<8 * (c + Suc m)]"
    using upt_add_eq_append [of "8 * c" "8 * (c + m)" 8] by (simp add: algebra_simps)
  ultimately show ?case using Suc by (simp add: product_concat_map o_def del: upt_rec_numeral)
qed simp

lemma sector_positions: "map (\<lambda>(j, k). (i * SECTOR_SIZE + j) * 8 + k) (List.product [0..<SECTOR_SIZE] [0..<8]) = [4096 * i..<4096 * Suc i]"
  using product_positions [of "i * SECTOR_SIZE" SECTOR_SIZE] by (simp del: upt_rec_numeral add: algebra_simps)

lemma sector_bit: "\<forall>(j, k)\<in>set (List.product [0..<SECTOR_SIZE] [0..<8]). bit (fs_sect f (s + i) ! j) k = map_bit f s ((i * SECTOR_SIZE + j) * 8 + k)"
proof -
  have "map_bit f s ((i * SECTOR_SIZE + j) * 8 + k) = bit (fs_sect f (s + i) ! j) k" if "j < SECTOR_SIZE" "k < 8" for j k
  proof -
    define r where "r = 8 * j + k"
    have e: "(i * SECTOR_SIZE + j) * 8 + k = 4096 * i + r" "r < 4096" using that by (simp_all add: r_def)
    then have "((i * SECTOR_SIZE + j) * 8 + k) div 4096 = i" "((i * SECTOR_SIZE + j) * 8 + k) mod 4096 = 8 * j + k" unfolding e(1) r_def [symmetric] by simp_all
    then show ?thesis using bits_byte [OF that(2)] by (simp only: map_bit_def)
  qed
  then show ?thesis by (auto simp del: upt_rec_numeral)
qed

lemma logs_smap:
  assumes "log_at f0 st" "3 + m \<le> st" "n \<le> m" "run_state (map_bit f0 3) (4096 * n) flag start"
  shows "logs f0 st (run_texts (used_runs (map_bit f0 3) (4096 * n) (4096 * m))) (dump_smap 3 [n..<m] flag start) (\<lambda>_. True)"
  using assms(2 -)
proof (induction "m - n" arbitrary: n flag start)
  case 0
  then show ?case by (simp add: used_runs_def run_texts_def logs_ret)
next
  case (Suc d)
  then have n: "n < m" "[n..<m] = n # [Suc n..<m]" "d = m - Suc n" by (simp_all add: upt_conv_Cons)
  let ?jks = "List.product [0..<SECTOR_SIZE] [0..<8]" and ?B = "map_bit f0 3"
  have rd: "logs f0 st [] (rd_sect (3 + of_nat n)) (\<lambda>buf. buf = fs_sect f0 (3 + n))"
    using logs_rd [of "3 + n" st f0] assms(1) Suc.prems(1) n(1) by simp
  have "logs f0 st (run_texts (used_runs ?B (4096 * n) (4096 * Suc n)) @ run_texts (used_runs ?B (4096 * Suc n) (4096 * m)))
      (bindL (dump_runs (fs_sect f0 (3 + n)) n ?jks flag start) (\<lambda>(flag, start). dump_smap 3 [Suc n..<m] flag start)) (\<lambda>_. True)"
  proof (rule logs_bind)
    show "logs f0 st (run_texts (used_runs ?B (4096 * n) (4096 * Suc n))) (dump_runs (fs_sect f0 (3 + n)) n ?jks flag start) (\<lambda>(flag, start). run_state ?B (4096 * Suc n) flag start)"
      by (rule logs_runs [OF sector_positions _ sector_bit Suc.prems(3)]) simp
    fix r :: "bool \<times> nat"
    assume "case r of (flag, start) \<Rightarrow> run_state ?B (4096 * Suc n) flag start"
    then show "logs f0 st (run_texts (used_runs ?B (4096 * Suc n) (4096 * m))) (case r of (flag, start) \<Rightarrow> dump_smap 3 [Suc n..<m] flag start) (\<lambda>_. True)"
      using Suc.hyps(1) [OF n(3) Suc.prems(1)] n(1) by (cases r) simp
  qed
  moreover have "run_texts (used_runs ?B (4096 * n) (4096 * Suc n)) @ run_texts (used_runs ?B (4096 * Suc n) (4096 * m)) = run_texts (used_runs ?B (4096 * n) (4096 * m))"
    using used_runs_append [of "4096 * n" "4096 * Suc n" "4096 * m" ?B] n(1) by (simp add: run_texts_def flip: map_append concat_append)
  ultimately show ?case unfolding n(2) dump_smap.simps by (intro logs_quiet [OF rd]) (simp del: upt_rec_numeral)
qed

lemma logs_imap:
  assumes "log_at f0 st" "2 < st"
  shows "logs f0 st (map imap_item (filter (map_bit f0 2) [0..<4096])) (dump_imap [0]) (\<lambda>_. True)"
proof -
  have rd: "logs f0 st [] (rd_sect (1 + 1 + of_nat 0)) (\<lambda>buf. buf = fs_sect f0 (2 + 0))"
    using logs_rd [of 2 st f0] assms by simp
  have "logs f0 st (map imap_item (filter (map_bit f0 2) [4096 * 0..<4096 * Suc 0]) @ [])
      (bindL (dump_bits (fs_sect f0 (2 + 0)) 0 (List.product [0..<SECTOR_SIZE] [0..<8])) (\<lambda>_. retL ())) (\<lambda>_. True)"
    by (intro logs_bind [OF logs_bits [OF sector_positions sector_bit]] logs_ret) simp
  then show ?thesis unfolding dump_imap.simps by (intro logs_quiet [OF rd]) (simp del: upt_rec_numeral)
qed

lemma logs_array:
  assumes "\<forall>i\<in>set is. array_lines n buf i = Inr (T i)"
  shows "logs f0 st (concat (map T is)) (dump_array n buf is) (\<lambda>_. True)"
  using assms
proof (induction "is")
  case (Cons i "is")
  then have i: "array_lines n buf i = Inr (T i)" by simp
  have r: "logs f0 st [] (liftL (\<lambda>_. array_lines n buf i)) (\<lambda>r. r = T i)" by (rule logs_lift) (rule i)
  have "logs f0 st (T i @ concat (map T is)) (bindL (slogs (T i)) (\<lambda>_. dump_array n buf is)) (\<lambda>_. True)"
    using Cons by (intro logs_bind [OF logs_slogs [OF good_array [OF i]]]) simp
  then show ?case by (auto intro!: logs_quiet [OF r])
qed (simp add: logs_ret)

definition dirent_texts :: "u8 list \<Rightarrow> item list list" where
  "dirent_texts e = (if slot_inode e = 0 then [] else dirent_line (slot_inode e) # dirent_lines (slot_inode e) (shown_name (slot_name e)))"

definition dirent_ok :: "u8 list \<Rightarrow> bool" where
  "dirent_ok e \<longleftrightarrow> slot_inode e = 0 \<or> 0 \<in> set (slot_name e)"

lemma shown_name_clean: "0 \<notin> set (shown_name field)" "length (shown_name field) \<le> length field"
proof -
  have "length (takeWhile (\<lambda>c. c \<noteq> 0) field) \<le> length field" by (rule length_takeWhile_le)
  then show "length (shown_name field) \<le> length field" by (auto simp: shown_name_def Let_def simp del: length_takeWhile_le)
  show "0 \<notin> set (shown_name field)" by (auto simp: shown_name_def Let_def dest: set_takeWhileD list.set_sel(2) [rotated])
qed

lemma logs_dirents:
  assumes "length buf = SECTOR_SIZE" "\<forall>j\<in>set js. j < 32 \<and> dirent_ok (take 16 (drop (16 * j) buf))"
  shows "logs f0 st (concat (map (\<lambda>j. dirent_texts (take 16 (drop (16 * j) buf))) js)) (dump_dirents buf js) (\<lambda>_. True)"
  using assms(2)
proof (induction js)
  case (Cons j js)
  let ?e = "take 16 (drop (16 * j) buf)"
  have j: "j < 32" "dirent_ok ?e" using Cons.prems by simp_all
  have e: "word_at buf (DIR_ENTRY_SIZE * j) = slot_inode ?e" "take MAX_FILENAME_LEN (drop (DIR_ENTRY_SIZE * j + 4) buf) = slot_name ?e"
    using assms(1) j(1) by (simp_all add: slot_inode_def slot_name_def word_at_def drop_take add.commute)
  have IH: "logs f0 st (concat (map (\<lambda>j. dirent_texts (take 16 (drop (16 * j) buf))) js)) (dump_dirents buf js) (\<lambda>_. True)" using Cons by simp
  have good: "list_all good (dirent_lines (slot_inode ?e) (shown_name (slot_name ?e)))"
    using shown_name_clean [of "slot_name ?e"] by (intro good_dirent(2)) (simp_all add: slot_name_def)
  show ?case
  proof (cases "slot_inode ?e = 0")
    case True
    then show ?thesis using IH by (simp add: e Let_def dirent_texts_def)
  next
    case False
    then have "\<not> 0 \<notin> set (slot_name ?e)" using j(2) by (simp add: dirent_ok_def)
    then have "logs f0 st ([dirent_line (slot_inode ?e)] @ dirent_lines (slot_inode ?e) (shown_name (slot_name ?e)) @ concat (map (\<lambda>j. dirent_texts (take 16 (drop (16 * j) buf))) js))
        (bindL (slog (dirent_line (slot_inode ?e))) (\<lambda>_. if 0 \<notin> set (slot_name ?e) then failL (OutOfBounds 379)
           else bindL (slogs (dirent_lines (slot_inode ?e) (shown_name (slot_name ?e)))) (\<lambda>_. dump_dirents buf js))) (\<lambda>_. True)"
      using IH by (intro logs_bind [OF logs_slog [OF good_dirent(1)]]) (simp add: logs_bind [OF logs_slogs [OF good]])
    then show ?thesis using False unfolding dump_dirents.simps Let_def e by (simp add: dirent_texts_def)
  qed
qed (simp add: logs_ret)

lemma logs_dir:
  assumes "log_at f0 st" "\<forall>i\<in>set is. s + i < st \<and> (\<forall>j<32. dirent_ok (dir_slot f0 s (32 * i + j)))"
  shows "logs f0 st (concat (map (\<lambda>i. concat (map (\<lambda>j. dirent_texts (dir_slot f0 s (32 * i + j))) [0..<32])) is)) (dump_dir (of_nat s) is) (\<lambda>_. True)"
  using assms(2)
proof (induction "is")
  case (Cons i "is")
  have rd: "logs f0 st [] (rd_sect (of_nat s + of_nat i)) (\<lambda>buf. buf = fs_sect f0 (s + i))"
    using logs_rd [of "s + i" st f0] assms(1) Cons.prems by simp
  have slot: "take 16 (drop (16 * j) (fs_sect f0 (s + i))) = dir_slot f0 s (32 * i + j)" if "j < 32" for j
    using that by (simp add: dir_slot_def)
  have "length (fs_sect f0 (s + i)) = SECTOR_SIZE" using assms(1) by (simp add: log_at_def mounted_def fs_sect_length)
  then have "logs f0 st (concat (map (\<lambda>j. dirent_texts (take 16 (drop (16 * j) (fs_sect f0 (s + i))))) [0..<32])) (dump_dirents (fs_sect f0 (s + i)) [0..<32]) (\<lambda>_. True)"
    using slot Cons.prems by (intro logs_dirents) (simp_all del: upt_rec_numeral)
  moreover have "map (\<lambda>j. dirent_texts (take 16 (drop (16 * j) (fs_sect f0 (s + i))))) [0..<32] = map (\<lambda>j. dirent_texts (dir_slot f0 s (32 * i + j))) [0..<32]"
    using slot by (intro map_cong) (simp_all del: upt_rec_numeral)
  ultimately have "logs f0 st (concat (map (\<lambda>j. dirent_texts (dir_slot f0 s (32 * i + j))) [0..<32]) @ concat (map (\<lambda>i. concat (map (\<lambda>j. dirent_texts (dir_slot f0 s (32 * i + j))) [0..<32])) is))
      (bindL (dump_dirents (fs_sect f0 (s + i)) [0..<SECTOR_SIZE div DIR_ENTRY_SIZE]) (\<lambda>_. dump_dir (of_nat s) is)) (\<lambda>_. True)"
    using Cons by (intro logs_bind) (simp_all del: upt_rec_numeral)
  then show ?case unfolding dump_dir.simps by (intro logs_quiet [OF rd]) (simp del: upt_rec_numeral)
qed (simp add: logs_ret)

text \<open>The whole report on the tables and sectors of \<open>f\<close>, and the states it can be made of.\<close>

definition table_texts :: "fs \<Rightarrow> item list list" where
  "table_texts f = cluster_head ''cluster_0{'' @ concat (map (\<lambda>i. proc_texts i (proc_table (hks (drv f)) i)) [0..<nr_slots]) @
     (cluster_end ''procs'' @ cluster_head ''cluster_1 {'') @ concat (map (desc_texts f) [0..<NR_FILE_DESC]) @
     (cluster_end ''filedescs'' @ cluster_head ''cluster_2 {'') @ concat (map (inode_texts f) [0..<NR_INODE]) @ cluster_end ''inodes''"

definition all_open :: "fs \<Rightarrow> (nat \<times> nat \<times> nat) list" where
  "all_open f = concat (map (\<lambda>i. proc_slots i (proc_table (hks (drv f)) i)) [0..<nr_slots])"

definition map_texts :: "fs \<Rightarrow> item list list" where
  "map_texts f = grey_head ''cluster_3{'' @ run_texts (used_runs (map_bit f 3) 0 (4096 * unat (nr_smap_sects (sb0 f)))) @
     maps_between (sb0 f) @ map imap_item (filter (map_bit f 2) [0..<4096]) @ record_end @ cluster_end ''inode map''"

definition array_lines_of :: "fs \<Rightarrow> nat \<Rightarrow> item list list result" where
  "array_lines_of f = array_lines (n_1st_sect (sb0 f)) (fs_sect f (3 + unat (nr_smap_sects (sb0 f))))"

definition root_blocks :: "fs \<Rightarrow> nat" where
  "root_blocks f = unat ((i_size (root_dir f) + SECTOR_SIZE - 1) div SECTOR_SIZE)"

definition root_entry :: "fs \<Rightarrow> nat \<Rightarrow> u8 list" where
  "root_entry f = dir_slot f (unat (i_start_sect (root_dir f)))"

definition disk_texts :: "fs \<Rightarrow> item list list" where
  "disk_texts f = grey_head ''cluster_5 {'' @ concat (map (\<lambda>i. projr (array_lines_of f i)) [0..<11]) @ (cluster_end ''inode array'' @ grey_head ''cluster_6 {'') @
     concat (map (\<lambda>i. concat (map (\<lambda>j. dirent_texts (root_entry f (32 * i + j))) [0..<32])) [0..<root_blocks f]) @ cluster_end ''root dir''"

definition report :: "fs \<Rightarrow> nat \<Rightarrow> u8 list \<Rightarrow> item list list" where
  "report f idx title = graph_head idx @ table_texts f @ map_texts f @ disk_texts f @
     (map pfm_edge (all_open f) @ map fim_edge (concat (map (desc_inodes f) [0..<NR_FILE_DESC]))) @
     concat (map (\<lambda>i. if i_cnt (inode_table f i) = 0 then [] else [inode_edge i (inode_table f i)]) [0..<NR_INODE]) @ graph_tail title"

definition dump_ready :: "fs \<Rightarrow> nat \<Rightarrow> bool" where
  "dump_ready f st \<longleftrightarrow> log_at f st \<and> unat (n_1st_sect (sb0 f)) \<le> st \<and> unat (i_start_sect (root_dir f)) + root_blocks f \<le> st \<and>
     length (all_open f) \<le> 256 \<and> (\<forall>c<nr_slots. shown (proc_table (hks (drv f)) c)) \<and> (\<forall>i<11. \<not> isl (array_lines_of f i)) \<and>
     (\<forall>i<root_blocks f. \<forall>j<32. dirent_ok (root_entry f (32 * i + j)))"

lemma logs_tables:
  assumes "length (all_open f) \<le> 256" "\<forall>c<nr_slots. shown (proc_table (hks (drv f)) c)"
  shows "logs f st (table_texts f) dump_tables (\<lambda>r. r = (all_open f, concat (map (desc_inodes f) [0..<NR_FILE_DESC])))"
proof -
  have procs: "logs f st (concat (map (\<lambda>i. proc_texts i (proc_table (hks (drv f)) i)) [0..<nr_slots])) (dump_procs [0..<nr_slots] []) (\<lambda>r. r = all_open f)"
    using logs_procs [of "[]" f "[0..<nr_slots]" st] assms by (simp add: all_open_def del: upt_rec_numeral)
  have descs: "logs f st (concat (map (desc_texts f) [0..<NR_FILE_DESC])) (dump_descs [0..<NR_FILE_DESC] []) (\<lambda>r. r = concat (map (desc_inodes f) [0..<NR_FILE_DESC]))"
    using logs_descs [of f st "[0..<NR_FILE_DESC]" "[]"] by (simp del: upt_rec_numeral)
  have last: "logs f st (cluster_end ''inodes'' @ []) (bindL (slogs (cluster_end ''inodes'')) (\<lambda>_. retL r)) (\<lambda>s. s = r)" for r :: "(nat \<times> nat \<times> nat) list \<times> (nat \<times> nat) list"
    by (intro logs_bind [OF logs_slogs] logs_ret) (simp_all add: good_cluster)
  show ?thesis
    unfolding table_texts_def dump_tables_def
    by (intro logs_bind [OF logs_slogs] logs_bind [OF procs] logs_bind [OF descs] logs_bind [OF logs_inodes])
      (use last in \<open>simp_all add: good_cluster del: upt_rec_numeral\<close>)
qed

lemma logs_super: "logs f st [] root_super (\<lambda>r. r = sb0 f)"
  unfolding root_super_def
proof (rule logs_lift)
  fix g
  assume "fs_frame f g" "log_at g st"
  then show "get_super_block (i_dev (inode_table g (root_inode g))) g = Inr (sb0 f)"
    using log_start(2) [of g st] fs_frame_sel(3) [of f g] by (simp add: log_at_def sb0_def)
qed

lemma dump_readyD:
  assumes "dump_ready f st"
  shows "log_at f st" "3 + unat (nr_smap_sects (sb0 f)) < st" "nr_imap_sects (sb0 f) = 1" "unat (i_start_sect (root_dir f)) + root_blocks f \<le> st"
    "length (all_open f) \<le> 256" "\<forall>c<nr_slots. shown (proc_table (hks (drv f)) c)" "\<forall>i<11. \<not> isl (array_lines_of f i)"
    "\<forall>i<root_blocks f. \<forall>j<32. dirent_ok (root_entry f (32 * i + j))"
  using assms by (auto simp: dump_ready_def log_at_def mounted_def)

lemma logs_maps:
  assumes "dump_ready f st"
  shows "logs f st (map_texts f) dump_maps (\<lambda>_. True)"
proof -
  note d = dump_readyD [OF assms]
  have smap: "logs f st (run_texts (used_runs (map_bit f 3) 0 (4096 * unat (nr_smap_sects (sb0 f))))) (dump_smap 3 [0..<unat (nr_smap_sects (sb0 f))] False 0) (\<lambda>_. True)"
    using logs_smap [OF d(1), of "unat (nr_smap_sects (sb0 f))" 0 False 0] d(2) by (simp add: run_state_def)
  have imap: "logs f st (map imap_item (filter (map_bit f 2) [0..<4096])) (dump_imap [0]) (\<lambda>_. True)"
    using d(2) by (intro logs_imap [OF d(1)]) simp
  have num: "(1 + 1 + 1 :: u32) = 3" "[0..<unat (1 :: u32)] = [0]" by (simp_all add: upt_rec)
  have between: "list_all good (maps_between (sb0 f))" using good_cluster [of "''cluster_4 {''"] by (simp add: maps_between_def goodI)
  have rest: "logs f st (run_texts (used_runs (map_bit f 3) 0 (4096 * unat (nr_smap_sects (sb0 f)))) @ maps_between (sb0 f) @ map imap_item (filter (map_bit f 2) [0..<4096]) @
        record_end @ cluster_end ''inode map'')
      (bindL (dump_smap 3 [0..<unat (nr_smap_sects (sb0 f))] False 0) (\<lambda>_. bindL (slogs (maps_between (sb0 f))) (\<lambda>_. bindL (dump_imap [0]) (\<lambda>_. slogs (record_end @ cluster_end ''inode map''))))) (\<lambda>_. True)"
    by (intro logs_bind [OF smap] logs_bind [OF logs_slogs [OF between]] logs_bind [OF imap] logs_slogs) (simp add: good_record_end good_cluster)
  show ?thesis
    unfolding map_texts_def dump_maps_def
    by (intro logs_bind [OF logs_slogs] logs_quiet [OF logs_super]) (use rest in \<open>simp_all add: good_cluster d(3) num del: upt_rec_numeral\<close>)
qed

lemma logs_disk:
  assumes "dump_ready f st"
  shows "logs f st (disk_texts f) dump_disk (\<lambda>_. True)"
proof -
  note d = dump_readyD [OF assms]
  let ?buf = "fs_sect f (3 + unat (nr_smap_sects (sb0 f)))" and ?root = "root_dir f"
  have rd: "logs f st [] (rd_sect (1 + 1 + nr_imap_sects (sb0 f) + nr_smap_sects (sb0 f))) (\<lambda>buf. buf = ?buf)"
    using logs_rd [OF d(2, 1)] by (simp add: d(3))
  have read: "logs f st [] (readL (\<lambda>f. inode_table f (root_inode f))) (\<lambda>r. r = ?root)"
    by (rule logs_read) (simp add: root_dir_def fs_frame_sel(1, 4))
  have array: "logs f st (concat (map (\<lambda>i. projr (array_lines_of f i)) [0..<11])) (dump_array (n_1st_sect (sb0 f)) ?buf [0..<11]) (\<lambda>_. True)"
    using d(7) by (intro logs_array) (auto simp: array_lines_of_def simp del: upt_rec_numeral)
  have dir: "logs f st (concat (map (\<lambda>i. concat (map (\<lambda>j. dirent_texts (root_entry f (32 * i + j))) [0..<32])) [0..<root_blocks f]))
      (dump_dir (i_start_sect ?root) [0..<root_blocks f]) (\<lambda>_. True)"
    using logs_dir [OF d(1), of "[0..<root_blocks f]" "unat (i_start_sect ?root)"] d(4, 8) by (simp add: root_entry_def del: upt_rec_numeral)
  have rest: "logs f st (concat (map (\<lambda>i. concat (map (\<lambda>j. dirent_texts (root_entry f (32 * i + j))) [0..<32])) [0..<root_blocks f]) @ cluster_end ''root dir'')
      (bindL (dump_dir (i_start_sect ?root) [0..<root_blocks f]) (\<lambda>_. slogs (cluster_end ''root dir''))) (\<lambda>_. True)"
    by (intro logs_bind [OF dir] logs_slogs) (simp add: good_cluster)
  have "logs f st (concat (map (\<lambda>i. projr (array_lines_of f i)) [0..<11]) @ (cluster_end ''inode array'' @ grey_head ''cluster_6 {'') @
        concat (map (\<lambda>i. concat (map (\<lambda>j. dirent_texts (root_entry f (32 * i + j))) [0..<32])) [0..<root_blocks f]) @ cluster_end ''root dir'')
      (bindL (dump_array (n_1st_sect (sb0 f)) ?buf [0..<11]) (\<lambda>_. bindL (slogs (cluster_end ''inode array'' @ grey_head ''cluster_6 {'')) (\<lambda>_.
        bindL (readL (\<lambda>f. inode_table f (root_inode f))) (\<lambda>root. bindL (dump_dir (i_start_sect root) [0..<unat ((i_size root + SECTOR_SIZE - 1) div SECTOR_SIZE)]) (\<lambda>_. slogs (cluster_end ''root dir'')))))) (\<lambda>_. True)"
    by (intro logs_bind [OF array] logs_bind [OF logs_slogs] logs_quiet [OF read]) (use rest in \<open>simp_all add: good_cluster root_blocks_def del: upt_rec_numeral\<close>)
  then have all: "logs f st (concat (map (\<lambda>i. projr (array_lines_of f i)) [0..<11]) @ (cluster_end ''inode array'' @ grey_head ''cluster_6 {'') @
        concat (map (\<lambda>i. concat (map (\<lambda>j. dirent_texts (root_entry f (32 * i + j))) [0..<32])) [0..<root_blocks f]) @ cluster_end ''root dir'')
      (bindL (rd_sect (1 + 1 + nr_imap_sects (sb0 f) + nr_smap_sects (sb0 f))) (\<lambda>buf. bindL (dump_array (n_1st_sect (sb0 f)) buf [0..<11]) (\<lambda>_.
        bindL (slogs (cluster_end ''inode array'' @ grey_head ''cluster_6 {'')) (\<lambda>_. bindL (readL (\<lambda>f. inode_table f (root_inode f))) (\<lambda>root.
        bindL (dump_dir (i_start_sect root) [0..<unat ((i_size root + SECTOR_SIZE - 1) div SECTOR_SIZE)]) (\<lambda>_. slogs (cluster_end ''root dir''))))))) (\<lambda>_. True)"
    by (intro logs_quiet [OF rd]) simp
  show ?thesis
    unfolding disk_texts_def dump_disk_def
    by (intro logs_bind [OF logs_slogs] logs_quiet [OF logs_super]) (use all in \<open>simp_all add: good_cluster del: upt_rec_numeral\<close>)
qed

lemma logs_report:
  assumes "dump_ready f st" "length (text_of fmt) \<le> 512" "0 \<notin> set (text_of fmt)"
  shows "logs f st (report f idx (text_of fmt)) (dump_fd_graph fmt idx) (\<lambda>_. True)"
proof -
  note d = dump_readyD [OF assms(1)]
  have title: "logs f st [] (liftL (\<lambda>_. if STR_DEFAULT_LEN \<le> length (text_of fmt) then Inl (OutOfBounds 123) else check 124 (0 \<notin> set (text_of fmt)) (Inr ()))) (\<lambda>r. r = ())"
    using assms(2, 3) by (intro logs_lift) simp
  have edges: "list_all good (map pfm_edge (all_open f) @ map fim_edge (concat (map (desc_inodes f) [0..<NR_FILE_DESC])))"
    using good_edges(1, 2) by (auto simp: list_all_iff simp del: upt_rec_numeral)
  have tail: "list_all good (graph_tail (text_of fmt))" using assms(2, 3) by (intro good_tail)
  show ?thesis
    unfolding dump_fd_graph_def Let_def report_def
  proof (rule logs_quiet [OF title], rule logs_bind [OF logs_slogs [OF good_head]], rule logs_bind [OF logs_tables [OF d(5, 6)]])
    fix r :: "(nat \<times> nat \<times> nat) list \<times> (nat \<times> nat) list"
    assume r: "r = (all_open f, concat (map (desc_inodes f) [0..<NR_FILE_DESC]))"
    show "logs f st (map_texts f @ disk_texts f @ (map pfm_edge (all_open f) @ map fim_edge (concat (map (desc_inodes f) [0..<NR_FILE_DESC]))) @
        concat (map (\<lambda>i. if i_cnt (inode_table f i) = 0 then [] else [inode_edge i (inode_table f i)]) [0..<NR_INODE]) @ graph_tail (text_of fmt))
      (case r of (pfm, fim) \<Rightarrow> bindL dump_maps (\<lambda>_. bindL dump_disk (\<lambda>_. bindL (slogs (map pfm_edge pfm @ map fim_edge fim)) (\<lambda>_.
         bindL (dump_edges [0..<NR_INODE]) (\<lambda>_. slogs (graph_tail (text_of fmt))))))) (\<lambda>_. True)"
      unfolding r prod.case
      by (intro logs_bind [OF logs_maps [OF assms(1)]] logs_bind [OF logs_disk [OF assms(1)]] logs_bind [OF logs_slogs [OF edges]] logs_bind [OF logs_edges] logs_slogs [OF tail])
  qed
qed

text \<open>
  C36. The report of \<^verbatim>\<open>dump_fd_graph\<close> is complete and disturbs nothing. Where the tables and the disk are in order (\<open>dump_ready\<close>) and the report fits
  into the log, it cannot fail, although every \<^verbatim>\<open>SYSLOG\<close> in it overwrites the sector buffer the sectors of the maps and the directory are read into: the log grows
  by the lines about every process with open files, every open descriptor, every inode in use, every run of used sectors that ends before a free one, every used inode number, the
  first eleven inodes and every entry of the root directory as they were before the call. The earlier text of the log, every sector
  outside the log and all tables stay as they were; like every call of \<^verbatim>\<open>disklog\<close> it also overwrites the last sector of the log with a copy of the header.
\<close>

theorem dump_fd_graph_reports:
  assumes "dump_ready f st" "64 \<le> pos" "pos + length (texts (report f idx (text_of fmt))) \<le> 2047 * SECTOR_SIZE" "length (text_of fmt) \<le> 512" "0 \<notin> set (text_of fmt)"
  shows "\<exists>g. dump_fd_graph fmt idx pos f = Inr ((), pos + length (texts (report f idx (text_of fmt))), g) \<and> fs_frame f g \<and> log_at g st \<and>
    map (log_byte g st) [64..<pos + length (texts (report f idx (text_of fmt)))] = map (log_byte f st) [64..<pos] @ texts (report f idx (text_of fmt)) \<and>
    (\<forall>n. n < st \<or> st + 2048 \<le> n \<longrightarrow> fs_sect g n = fs_sect f n)"
proof -
  let ?t = "texts (report f idx (text_of fmt))"
  obtain g where g: "dump_fd_graph fmt idx pos f = Inr ((), pos + length ?t, g)" "logged f st pos ?t g"
    using logsD [OF logs_report [OF assms(1, 4, 5)] fs_frame_refl, of pos idx] assms(2, 3) dump_readyD(1) [OF assms(1)] by auto
  then have byte: "log_byte g st k = (if pos \<le> k \<and> k < pos + length ?t then ?t ! (k - pos) else log_byte f st k)" if "64 \<le> k" "k < pos + length ?t" for k
    using that assms(3) by (simp add: logged_def)
  have "map (log_byte g st) [64..<pos + length ?t] = map (log_byte f st) [64..<pos] @ ?t"
    using byte assms(2) by (intro nth_equalityI) (auto simp: nth_append add.commute)
  then show ?thesis using g by (intro exI [of _ g]) (simp add: logged_def)
qed

text \<open>A line has less than 1024 characters, so the length of the report is bounded by the number of its lines.\<close>

lemma texts_length: "list_all good ts \<Longrightarrow> length (texts ts) \<le> 1024 * length ts"
  by (induction ts) (auto simp: good_def)

lemma list_all_concat_map: "list_all P (concat (map g xs)) \<longleftrightarrow> (\<forall>x\<in>set xs. list_all P (g x))"
  by (induction xs) simp_all

lemma good_proc_texts: "shown p \<Longrightarrow> list_all good (proc_texts i p)"
  using good_record_end good_proc_label [of p _ i] by (auto simp: proc_texts_def shown_def good_filp list_all_iff)

lemma good_report:
  assumes "dump_ready f st" "length title \<le> 512" "0 \<notin> set title"
  shows "list_all good (report f idx title)"
proof -
  note d = dump_readyD [OF assms(1)]
  have "list_all good (table_texts f)"
    using good_proc_texts d(6) good_desc good_inode
    by (auto simp: table_texts_def list_all_concat_map good_cluster desc_texts_def inode_texts_def split: option.split simp del: upt_rec_numeral)
  moreover have "list_all good (maps_between (sb0 f))" using good_cluster [of "''cluster_4 {''"] by (simp add: maps_between_def goodI)
  then have "list_all good (map_texts f)"
    using good_run good_imap good_record_end by (auto simp: map_texts_def run_texts_def list_all_concat_map good_cluster list_all_iff [of good "map _ _"] simp del: upt_rec_numeral)
  moreover have "list_all good (dirent_texts e)" if "length e \<le> 16" for e
    using that shown_name_clean [of "slot_name e"] good_dirent by (auto simp: dirent_texts_def slot_name_def intro!: good_dirent)
  then have "list_all good (disk_texts f)"
    using d(7) good_array by (fastforce simp: disk_texts_def list_all_concat_map good_cluster array_lines_of_def root_entry_def dir_slot_def dest: sum.collapse(2) simp del: upt_rec_numeral)
  moreover have "list_all good (map pfm_edge (all_open f) @ map fim_edge (concat (map (desc_inodes f) [0..<NR_FILE_DESC])))"
    using good_edges(1, 2) by (auto simp: list_all_iff simp del: upt_rec_numeral)
  ultimately show ?thesis
    using good_head good_tail [OF assms(2, 3)] good_edges(3) by (simp add: report_def list_all_concat_map del: upt_rec_numeral)
qed

section \<open>Turns of the file system\<close>

lemma task_fs_turn_quiet:
  assumes "msg_type m \<noteq> UNLINK"
  shows "task_fs_turn m idx pos f = bindE (task_fs_msg m f) (\<lambda>(answer, f). Inr (answer, idx, pos, f))"
proof (cases "serve (f\<lparr>fs_msg := m, pcaller := nat (sint (source m))\<rparr>)")
  case (Inr r)
  then show ?thesis using assms by (cases r) (simp add: task_fs_turn_def task_fs_msg_def Let_def)
qed (simp add: task_fs_turn_def task_fs_msg_def Let_def)

text \<open>A request to remove a file, granted or not, is answered after the report on the state it left has been appended to the log.\<close>

lemma task_fs_turn_unlink:
  assumes "msg_type m = UNLINK" "source m = of_nat c" "c < nr_slots" "do_unlink (request m c f) = Inr (r, g)" "msg_type (fs_msg g) = UNLINK"
    "k = g\<lparr>fs_msg := (fs_msg g)\<lparr>m3i1 := word_of_int r\<rparr>\<rparr>" "dump_ready k st" "64 \<le> pos"
    "t = texts (report k idx (text_of [Str (char_bytes ''UNLINK''), Lit '' just finished'']))" "pos + length t \<le> 2047 * SECTOR_SIZE"
  shows "\<exists>h. task_fs_turn m idx pos f = Inr (Some (int c, (fs_msg k)\<lparr>msg_type := SYSCALL_RET\<rparr>), idx + 1, pos + length t, h\<lparr>fs_msg := (fs_msg k)\<lparr>msg_type := SYSCALL_RET\<rparr>\<rparr>) \<and>
    logged k st pos t h"
proof -
  have title: "length (text_of [Str (char_bytes ''UNLINK''), Lit '' just finished'']) \<le> 512" "0 \<notin> set (text_of [Str (char_bytes ''UNLINK''), Lit '' just finished''])"
    by (simp_all add: text_of_def char_bytes_def)
  obtain h where h: "dump_fd_graph [Str (char_bytes ''UNLINK''), Lit '' just finished''] idx pos k = Inr ((), pos + length t, h)" "logged k st pos t h"
    using logsD [OF logs_report [OF assms(7) title] fs_frame_refl, of pos idx] assms(8 - 10) dump_readyD(1) [OF assms(7)] by auto
  have src: "sint (source m) = int c" using assms(2, 3) by (simp add: sint_slot)
  have "fs_msg h = fs_msg k" using h(2) by (auto simp: logged_def dest: fs_frame_sel(5))
  moreover have "serve (f\<lparr>fs_msg := m, pcaller := c\<rparr>) = Inr (int c, k)"
    using assms(1, 4, 6) src by (simp add: serve_def request_def)
  ultimately show ?thesis
    using h assms(1, 3, 5, 6) src by (intro exI [of _ h]) (simp add: task_fs_turn_def Let_def)
qed

section \<open>Witness\<close>

lemma demo_tables:
  "open_slots (proc_table (hks (drv (demo_fs h))) c) = []" "fd_inode (f_desc_table (demo_fs h) i) = None"
  "fs_sect (demo_fs h) 5 = replicate 512 0" "root_blocks (demo_fs h) = 1" "unat (i_start_sect (root_dir (demo_fs h))) = 261"
  by (simp_all add: open_slots_def demo_fs_def demo_hd_def flat_kstate_def zero_proc_def zero_fd_def root_blocks_def demo_root_dir fs_sect_def fs_base_def demo_sectors_def demo_root_def root_dir_def del: upt_rec_numeral)

lemma demo_array: "i < 11 \<Longrightarrow> array_lines_of (demo_fs h) i = Inr []"
  using demo_tables(3) [of h] by (simp add: array_lines_of_def array_lines_def demo_sb0 demo_sb_def word_at_def Let_def)

lemma demo_entry: "k < 32 \<Longrightarrow> dirent_ok (root_entry (demo_fs h) k) \<and> length (dirent_texts (root_entry (demo_fs h) k)) \<le> 7"
proof -
  assume k: "k < 32"
  have len: "length (dirent_texts e) \<le> 7" for e by (simp add: dirent_texts_def dirent_lines_def record_end_def)
  consider "k = 0" | "k = 1" | "2 \<le> k" by linarith
  then have "0 \<in> set (slot_name (root_entry (demo_fs h) k))"
  proof cases
    case 3
    have "fs_sect (demo_fs h) 261 = (le32 1 @ name_field [0x2E] @ le32 2 @ name_field [0x61, 0x62]) @ replicate 480 0"
      by (simp add: demo_sect demo_sectors_def)
    moreover have "length (le32 1 @ name_field [0x2E] @ le32 2 @ name_field [0x61, 0x62]) = 32" by (simp add: name_field_def)
    ultimately have "root_entry (demo_fs h) k = replicate 16 0"
      using 3 k by (simp add: root_entry_def demo_tables(5) dir_slot_def del: append.simps append_assoc)
    then show ?thesis by (simp add: slot_name_def)
  qed (simp_all add: root_entry_def demo_tables(5) demo_slots demo_slots(2) [unfolded One_nat_def] slot_name_def name_field_def)
  then show ?thesis using len by (simp add: dirent_ok_def)
qed

lemma demo_open: "all_open (demo_fs h) = []" "concat (map (desc_inodes (demo_fs h)) is) = []" "concat (map (desc_texts (demo_fs h)) is) = []"
  "concat (map (\<lambda>i. proc_texts i (proc_table (hks (drv (demo_fs h))) i)) is) = []"
  by (simp_all add: all_open_def proc_slots_def demo_tables desc_inodes_def desc_texts_def proc_texts_def del: upt_rec_numeral)

lemma demo_dump_ready: "dump_ready (demo_fs h) 5952"
  using demo_log_at [of h] demo_entry [of _ h]
  by (auto simp: dump_ready_def demo_sb0 demo_sb_def demo_tables demo_open shown_def demo_array simp del: upt_rec_numeral)

lemma demo_used_runs: "length (used_runs (map_bit (demo_fs h) 3) 0 8192) \<le> 1"
proof -
  have "set (filter (\<lambda>e. 0 < e \<and> map_bit (demo_fs h) 3 (e - 1) \<and> \<not> map_bit (demo_fs h) 3 e) [0..<8192]) \<subseteq> {4097}"
    using demo_smap [of _ h] by (force simp del: upt_rec_numeral)
  then have "card (set (filter (\<lambda>e. 0 < e \<and> map_bit (demo_fs h) 3 (e - 1) \<and> \<not> map_bit (demo_fs h) 3 e) [0..<8192])) \<le> card {4097 :: nat}"
    by (intro card_mono) simp_all
  then show ?thesis by (simp add: used_runs_def distinct_card del: upt_rec_numeral set_filter)
qed

lemma demo_used_inodes: "length (filter (map_bit (demo_fs h) 2) [0..<4096]) \<le> 3"
proof -
  have "set (filter (map_bit (demo_fs h) 2) [0..<4096]) \<subseteq> {..<3}"
    using demo_imap [of _ h] by (auto simp del: upt_rec_numeral)
  then have "card (set (filter (map_bit (demo_fs h) 2) [0..<4096])) \<le> card {..<3 :: nat}"
    by (intro card_mono) simp_all
  then show ?thesis by (simp add: distinct_card del: upt_rec_numeral set_filter)
qed

lemma demo_inode_lines:
  "length (concat (map (inode_texts (demo_fs h)) [0..<64])) = 10"
  "length (concat (map (\<lambda>i. if i_cnt (inode_table (demo_fs h) i) = 0 then [] else [inode_edge i (inode_table (demo_fs h) i)]) [0..<64])) = 2"
proof -
  have rest: "concat (map (inode_texts (demo_fs h)) [2..<64]) = []"
    "concat (map (\<lambda>i. if i_cnt (inode_table (demo_fs h) i) = 0 then [] else [inode_edge i (inode_table (demo_fs h) i)]) [2..<64]) = []"
    by (auto simp: inode_texts_def demo_table zero_inode_def simp del: upt_rec_numeral)
  have split: "[0..<64] = 0 # Suc 0 # [2..<64]" by (simp add: upt_conv_Cons numeral_2_eq_2)
  have first: "length (inode_texts (demo_fs h) 0) = 5" "length (inode_texts (demo_fs h) (Suc 0)) = 5"
    "i_cnt (inode_table (demo_fs h) 0) \<noteq> 0" "i_cnt (inode_table (demo_fs h) (Suc 0)) \<noteq> 0"
    by (simp_all add: inode_texts_def demo_table demo_root_def demo_file_def inode_lines_def record_end_def)
  show "length (concat (map (inode_texts (demo_fs h)) [0..<64])) = 10"
    "length (concat (map (\<lambda>i. if i_cnt (inode_table (demo_fs h) i) = 0 then [] else [inode_edge i (inode_table (demo_fs h) i)]) [0..<64])) = 2"
    unfolding split list.map concat.simps rest length_append first by (simp_all add: first)
qed

lemma demo_report: "length (report (demo_fs h) idx title) \<le> 500"
proof -
  have "length (concat (map (\<lambda>j. dirent_texts (root_entry (demo_fs h) (32 * i + j))) ks)) \<le> 7 * length ks" if "\<forall>k\<in>set ks. 32 * i + k < 32" for i ks
    using that demo_entry [of _ h] by (induction ks) (auto simp: le_Suc_eq add_le_mono)
  from this [of "[0..<32]" 0] have "length (concat (map (\<lambda>j. dirent_texts (root_entry (demo_fs h) (32 * 0 + j))) [0..<32])) \<le> 224"
    by (simp del: upt_rec_numeral)
  moreover have array: "concat (map (\<lambda>i. projr (array_lines_of (demo_fs h) i)) [0..<11]) = []"
    using demo_array [of _ h] by (auto simp del: upt_rec_numeral)
  ultimately have "length (disk_texts (demo_fs h)) \<le> 250"
    unfolding disk_texts_def array by (simp add: demo_tables grey_head_def cluster_head_def cluster_end_def del: upt_rec_numeral)
  moreover have "length (run_texts rs) = 5 * length rs" for rs
    by (induction rs) (auto simp: run_texts_def run_lines_def record_end_def)
  then have "length (map_texts (demo_fs h)) \<le> 30"
    using demo_used_runs [of h] demo_used_inodes [of h]
    by (simp add: map_texts_def demo_sb0 demo_sb_def maps_between_def grey_head_def cluster_head_def cluster_end_def record_end_def del: upt_rec_numeral)
  moreover have "length (table_texts (demo_fs h)) \<le> 30"
    using demo_inode_lines(1) [of h] by (simp add: table_texts_def demo_open cluster_head_def cluster_end_def del: upt_rec_numeral)
  ultimately show ?thesis
    using demo_inode_lines(2) [of h] by (simp add: report_def demo_open graph_head_def graph_tail_def del: upt_rec_numeral)
qed

theorem dump_fd_graph_reports_witness:
  "\<exists>t g. t = texts (report (demo_fs (\<lambda>_. 7)) 0 (text_of [Lit ''UNLINK''])) \<and> dump_fd_graph [Lit ''UNLINK''] 0 64 (demo_fs (\<lambda>_. 7)) = Inr ((), 64 + length t, g) \<and>
     map (log_byte g 5952) [64..<64 + length t] = t"
proof -
  have title: "length (text_of [Lit ''UNLINK'']) \<le> 512" "0 \<notin> set (text_of [Lit ''UNLINK''])" by (simp_all add: text_of_def char_bytes_def)
  have "length (texts (report (demo_fs (\<lambda>_. 7)) 0 (text_of [Lit ''UNLINK'']))) \<le> 1024 * 500"
    using texts_length [OF good_report [OF demo_dump_ready title]] demo_report le_trans mult_le_mono2 by blast
  then show ?thesis using dump_fd_graph_reports [OF demo_dump_ready _ _ title, of 64 "\<lambda>_. 7" 0] by auto
qed

end
