(* ===== verification/Fs_Session.thy ===== *)
theory Fs_Session
  imports Syscalls
begin

text \<open>
  A session of a process with the file system, through the library: \<^verbatim>\<open>open\<close>, \<^verbatim>\<open>write\<close>, \<^verbatim>\<open>close\<close>, \<^verbatim>\<open>open\<close> again,
  \<^verbatim>\<open>read\<close>, as \<^verbatim>\<open>TestA\<close> in \<^verbatim>\<open>kernel/main.c\<close> does it. Two predicates describe the file between the calls: it rests on disk, or one
  descriptor holds it. Each call has a lemma that leads from one to the other; the main result chains them.
\<close>

section \<open>The file between calls\<close>

text \<open>The file \<open>num\<close> has an entry for the path in the root directory, and its 2048 sectors lie behind those of the directory.\<close>

definition placed :: "fs \<Rightarrow> u8 list \<Rightarrow> nat \<Rightarrow> nat \<Rightarrow> bool" where
  "placed f path num st \<longleftrightarrow> mounted f \<and> root_ok f \<and> path_at f path (of_nat num) \<and> 1 \<le> num \<and> num \<le> 4096 \<and>
     unat (n_1st_sect (sb0 f)) \<le> unat (i_start_sect (root_dir f)) \<and>
     unat (i_start_sect (root_dir f)) + unat (i_size (root_dir f)) div SECTOR_SIZE < st \<and> st + NR_DEFAULT_FILE_SECTS \<le> sect_limit"

definition file_of :: "nat \<Rightarrow> nat \<Rightarrow> nat \<Rightarrow> inode" where
  "file_of num st sz = (file_inode num (of_nat st))\<lparr>i_size := of_nat sz\<rparr>"

text \<open>No entry of the cache but those of \<open>P\<close> is in use for the file.\<close>

definition uncached :: "fs \<Rightarrow> nat \<Rightarrow> nat set \<Rightarrow> bool" where
  "uncached f num P \<longleftrightarrow> (\<forall>p<NR_INODE. p \<notin> P \<longrightarrow> i_cnt (inode_table f p) = 0 \<or> i_dev (inode_table f p) \<noteq> ROOT_DEV \<or> i_num (inode_table f p) \<noteq> int num)"

text \<open>At rest: the file is on disk only.\<close>

definition stored :: "fs \<Rightarrow> u8 list \<Rightarrow> nat \<Rightarrow> nat \<Rightarrow> nat \<Rightarrow> bool" where
  "stored f path num st sz \<longleftrightarrow> placed f path num st \<and> uncached f num {} \<and> (\<exists>p<NR_INODE. i_cnt (inode_table f p) = 0) \<and>
     disk_inode f num = file_of num st sz \<and> sz \<le> 2 ^ 20"

text \<open>In use: slot \<open>fd\<close> of process \<open>c\<close> leads through descriptor \<open>d\<close> to entry \<open>p\<close> of the cache, which agrees with the disk.\<close>

definition held :: "fs \<Rightarrow> nat \<Rightarrow> nat \<Rightarrow> nat \<Rightarrow> nat \<Rightarrow> u8 list \<Rightarrow> nat \<Rightarrow> nat \<Rightarrow> nat \<Rightarrow> nat \<Rightarrow> bool" where
  "held f c fd d p path num st sz pos \<longleftrightarrow> placed f path num st \<and> refs_ok f all_slots \<and> fd < 64 \<and> slot_fd f (c, fd) = Some d \<and>
     fd_mode (f_desc_table f d) AND O_RDWR \<noteq> 0 \<and> fd_pos (f_desc_table f d) = int pos \<and> fd_cnt (f_desc_table f d) = 1 \<and>
     fd_inode (f_desc_table f d) = Some p \<and> p \<noteq> root_inode f \<and> uncached f num {p} \<and> inode_table f p = file_of num st sz \<and>
     disk_inode f num = file_of num st sz \<and> sz \<le> 2 ^ 20"

text \<open>A process with flat segments.\<close>

definition flat :: "fs \<Rightarrow> nat \<Rightarrow> bool" where
  "flat f c \<longleftrightarrow> c < nr_slots \<and> ldt_seg_linear (proc_table (hks (drv f)) c) INDEX_LDT_RW = 0"

text \<open>The memory outside the buffer of the file system, and the segments.\<close>

definition same_memory :: "fs \<Rightarrow> fs \<Rightarrow> bool" where
  "same_memory f g \<longleftrightarrow> (\<forall>x. x \<notin> region fsbuf FSBUF_RUN \<longrightarrow> fmem g x = fmem f x) \<and>
     (\<forall>c. ldts (proc_table (hks (drv g)) c) = ldts (proc_table (hks (drv f)) c))"

lemma same_memory_refl [simp]: "same_memory f f"
  by (simp add: same_memory_def)

lemma same_memory_trans: "same_memory f g \<Longrightarrow> same_memory g h \<Longrightarrow> same_memory f h"
  by (simp add: same_memory_def)

lemma flat_same: "same_memory f g \<Longrightarrow> flat g c = flat f c"
  by (simp add: same_memory_def flat_def ldt_seg_linear_def)

lemma load_bytes_same: "same_memory f g \<Longrightarrow> region a n \<inter> region fsbuf FSBUF_RUN = {} \<Longrightarrow> load_bytes (fmem g) a n = load_bytes (fmem f) a n"
  by (rule load_bytes_cong) (auto simp: same_memory_def)

lemma same_files_memory: "same_files f g \<Longrightarrow> same_memory f g"
  using region_sub [of 0 SECTOR_SIZE FSBUF_RUN fsbuf] by (auto simp: same_files_def same_memory_def)

section \<open>What the predicates depend on\<close>

lemma find_upt_less: "find P [0..<n] = Some k \<Longrightarrow> k < n"
  by (simp add: first_index_def [symmetric] first_index_Some)

lemma find_upt_stops: "P k \<Longrightarrow> k < n \<Longrightarrow> \<exists>j\<le>k. find P [0..<n] = Some j"
  by (cases "find P [0..<n]") (auto simp: first_index_def [symmetric] first_index_Some first_index_None not_less [symmetric])

lemma path_at_cong:
  assumes "root_dir g = root_dir f" "\<And>y. unat (i_start_sect (root_dir f)) \<le> y \<Longrightarrow>
    y \<le> unat (i_start_sect (root_dir f)) + unat (i_size (root_dir f)) div SECTOR_SIZE \<Longrightarrow> fs_sect g y = fs_sect f y"
  shows "path_at g path nr = path_at f path nr"
proof -
  let ?s = "unat (i_start_sect (root_dir f))" and ?n = "unat (i_size (root_dir f))"
  have slots: "dir_slot g ?s k = dir_slot f ?s k" if "k < ?n div DIR_ENTRY_SIZE + 1" for k
  proof -
    have "k div 32 \<le> (?n div DIR_ENTRY_SIZE) div 32" using that by (intro div_le_mono) simp
    then have "k div 32 \<le> ?n div SECTOR_SIZE" by (simp add: div_mult2_eq [symmetric])
    then show ?thesis using assms(2) [of "?s + k div 32"] by (simp add: dir_slot_def)
  qed
  have "find (\<lambda>k. slot_name (dir_slot g ?s k) = w) [0..<?n div DIR_ENTRY_SIZE + 1] = find (\<lambda>k. slot_name (dir_slot f ?s k) = w) [0..<?n div DIR_ENTRY_SIZE + 1]" for w
    using slots by (intro find_cong) auto
  moreover have "k < ?n div DIR_ENTRY_SIZE + 1" if "find (\<lambda>k. slot_name (dir_slot f ?s k) = w) [0..<?n div DIR_ENTRY_SIZE + 1] = Some k" for k w
    using find_upt_less [OF that] .
  ultimately have "lookup_name g ?s w (?n div DIR_ENTRY_SIZE + 1) = lookup_name f ?s w (?n div DIR_ENTRY_SIZE + 1)" for w
    unfolding lookup_name_def using slots by (simp split: option.split)
  then show ?thesis unfolding path_at_def assms(1) by simp
qed

lemma placed_cong:
  assumes "placed f path num st" "mounted g" "super_blocks g = super_blocks f" "root_dir g = root_dir f"
    "\<And>y. unat (n_1st_sect (sb0 f)) \<le> y \<Longrightarrow> y < st \<Longrightarrow> fs_sect g y = fs_sect f y"
  shows "placed g path num st"
proof -
  have "path_at g path (of_nat num) = path_at f path (of_nat num)"
    using assms(1, 5) by (intro path_at_cong [OF assms(4)]) (simp add: placed_def)
  with assms(1 - 4) show ?thesis by (simp add: placed_def root_ok_def sb0_def)
qed

lemma disk_inode_same: "same_files f g \<Longrightarrow> disk_inode g num = disk_inode f num"
  by (rule disk_inode_cong) (simp_all add: same_files_def sb0_def)

lemma content_same: "same_files f g \<Longrightarrow> content g = content f"
  by (simp add: same_files_def content_def fun_eq_iff)

lemma placed_same: "same_files f g \<Longrightarrow> root_dir g = root_dir f \<Longrightarrow> placed f path num st \<Longrightarrow> placed g path num st"
  by (erule placed_cong) (simp_all add: same_files_def)

lemma find_uncached: "uncached f num {} \<longleftrightarrow> find_inode ROOT_DEV (int num) f = None"
  by (auto simp: uncached_def find_inode_def first_index_None)

lemma request_preds [simp]:
  "placed (request m c f) path num st = placed f path num st" "uncached (request m c f) num P = uncached f num P"
  "stored (request m c f) path num st sz = stored f path num st sz" "held (request m c f) c' fd d p path num st sz pos = held f c' fd d p path num st sz pos"
  "flat (request m c f) c' = flat f c'" "same_memory (request m c f) g = same_memory f g" "same_memory f (request m c g) = same_memory f g"
  "disk_inode (request m c f) = disk_inode f"
proof -
  show d: "disk_inode (request m c f) = disk_inode f" by (simp add: disk_inode_def inode_sect_def fun_eq_iff)
  show p: "placed (request m c f) path num st = placed f path num st" by (simp add: placed_def root_ok_def root_dir_def path_at_request)
  show u: "uncached (request m c f) num P = uncached f num P" for P by (simp add: uncached_def)
  show "stored (request m c f) path num st sz = stored f path num st sz" by (simp add: stored_def p u d)
  show "held (request m c f) c' fd d p path num st sz pos = held f c' fd d p path num st sz pos" by (simp add: held_def p u d refs_ok_msg)
  show "flat (request m c f) c' = flat f c'" by (simp add: flat_def)
  show "same_memory (request m c f) g = same_memory f g" "same_memory f (request m c g) = same_memory f g" by (simp_all add: same_memory_def)
qed

section \<open>The calls\<close>

text \<open>The slots of the processes and the inodes that the descriptors lead to.\<close>

definition links :: "fs \<Rightarrow> (slot \<Rightarrow> nat option) \<times> (nat \<Rightarrow> nat option)" where
  "links f = (slot_fd f, \<lambda>i. fd_inode (f_desc_table f i))"

lemma links_request [simp]: "links (request m c f) = links f"
  by (simp add: links_def refs_ok_msg)

lemma free_fd_links: "links g = links f \<Longrightarrow> pcaller g = pcaller f \<Longrightarrow> free_fd g fd d = free_fd f fd d"
  by (simp add: links_def free_fd_def fun_eq_iff)

lemma file_of_sel [simp]:
  "i_mode (file_of num st sz) = I_REGULAR" "i_size (file_of num st sz) = of_nat sz" "i_start_sect (file_of num st sz) = of_nat st"
  "i_nr_sects (file_of num st sz) = 2048" "i_dev (file_of num st sz) = ROOT_DEV" "i_cnt (file_of num st sz) = 1" "i_num (file_of num st sz) = int num"
  by (simp_all add: file_of_def file_inode_def)

lemma file_of_cnt [simp]: "(file_of num st sz)\<lparr>i_cnt := 1\<rparr> = file_of num st sz"
  by (simp add: file_of_def file_inode_def)

lemma root_in_use: "refs_ok f S \<Longrightarrow> root_inode f < NR_INODE \<and> i_cnt (inode_table f (root_inode f)) > 0"
proof -
  assume a: "refs_ok f S"
  then have "root_inode f < NR_INODE" "1 + load f (root_inode f) \<le> i_cnt (inode_table f (root_inode f))" by (auto simp: refs_ok_def)
  with load_nonneg [OF a, of "root_inode f"] show ?thesis by simp
qed

text \<open>\<^verbatim>\<open>open\<close> on a file at rest.\<close>

lemma do_open_stored:
  assumes "stored f path num st sz" "refs_ok f all_slots" "pcaller f < nr_slots" "names f path" "free_fd f fd d"
    "FLAGS (fs_msg f) AND O_CREAT = 0" "FLAGS (fs_msg f) AND O_RDWR \<noteq> 0"
  shows "\<exists>p g. do_open f = Inr (int fd, g) \<and> held g (pcaller f) fd d p path num st sz 0 \<and> content g = content f \<and> same_memory f g \<and>
    fs_msg g = fs_msg f \<and> pcaller g = pcaller f \<and> links g = ((slot_fd f)((pcaller f, fd) := Some d), (\<lambda>i. fd_inode (f_desc_table f i))(d := Some p))"
proof -
  from assms(1) have f: "mounted f" "root_ok f" "path_at f path (of_nat num)" "1 \<le> num" "num \<le> 4096" "find_inode ROOT_DEV (int num) f = None"
    "\<exists>p<NR_INODE. i_cnt (inode_table f p) = 0" "disk_inode f num = file_of num st sz" "uncached f num {}"
    by (simp_all add: stored_def placed_def find_uncached)
  have x: "cached_inode f num = file_of num st sz" using f(6, 8) by (simp add: cached_inode_def)
  have "i_mode (cached_inode f num) = I_REGULAR" using x by simp
  from do_open_found [OF f(1, 2) assms(2 - 5) f(3 - 5) assms(6, 7) disjI2 [OF f(7)] this, unfolded x f(6)]
  obtain p g where g: "do_open f = Inr (int fd, g)" "opened f fd d p g" "inode_table g = (inode_table f)(p := file_of num st sz)"
    "i_cnt (inode_table f p) = 0" "fs_msg g = fs_msg f" "pcaller g = pcaller f" "same_files f g" "p < NR_INODE" by auto
  have root: "root_inode f \<noteq> p" using root_in_use [OF assms(2)] g(4) by auto
  have "root_dir g = root_dir f" using g(3, 7) root by (simp add: root_dir_def same_files_def)
  moreover have "placed f path num st" using assms(1) by (simp add: stored_def)
  ultimately have "placed g path num st" by (rule placed_same [OF g(7)])
  moreover have "uncached g num {p}" using f(9) by (auto simp: uncached_def g(3))
  moreover have "disk_inode g num = file_of num st sz" using disk_inode_same [OF g(7)] f(8) by simp
  moreover have "root_inode g = root_inode f" using g(7) by (simp add: same_files_def)
  moreover have "fd < 64" using assms(5) by (simp add: free_fd_def first_index_Some)
  ultimately have "held g (pcaller f) fd d p path num st sz 0"
    using g(2, 3) root assms(1, 7) by (simp add: held_def opened_def stored_def)
  moreover have "links g = ((slot_fd f)((pcaller f, fd) := Some d), (\<lambda>i. fd_inode (f_desc_table f i))(d := Some p))"
    using g(2) by (auto simp: links_def opened_def fun_eq_iff)
  ultimately show ?thesis
    using g(1, 5, 6) same_files_memory [OF g(7)] content_same [OF g(7)] by (intro exI [of _ p] exI [of _ g]) simp
qed

text \<open>\<^verbatim>\<open>close\<close> on a file in use.\<close>

lemma do_close_held:
  assumes "held f c fd d p path num st sz pos" "pcaller f = c" "c < nr_slots" "FD (fs_msg f) = of_nat fd"
  shows "\<exists>g. do_close f = Inr (0, g) \<and> stored g path num st sz \<and> refs_ok g all_slots \<and> content g = content f \<and> same_memory f g \<and>
    fs_msg g = fs_msg f \<and> links g = ((slot_fd f)((c, fd) := None), (\<lambda>i. fd_inode (f_desc_table f i))(d := None))"
proof -
  from assms(1) have f: "refs_ok f all_slots" "fd < 64" "slot_fd f (c, fd) = Some d" "mounted f" "fd_cnt (f_desc_table f d) = 1"
    "fd_inode (f_desc_table f d) = Some p" "uncached f num {p}" "inode_table f p = file_of num st sz" "placed f path num st" "p \<noteq> root_inode f"
    "disk_inode f num = file_of num st sz" "sz \<le> 2 ^ 20"
    by (simp_all add: held_def placed_def)
  obtain g where g: "do_close f = Inr (0, g)" "refs_ok g all_slots" "\<And>s. slot_fd g s = (if s = (c, fd) then None else slot_fd f s)"
    "fs_msg g = fs_msg f" "f_desc_table g = f_desc_table (drop_slot c fd d f)" "same_files f g"
    "inode_table g = (inode_table f)(p := (inode_table f p)\<lparr>i_cnt := i_cnt (inode_table f p) - 1\<rparr>)"
    using do_close_ok [OF f(1) _ assms(4) f(2)] f(3, 4, 6) assms(2, 3) by auto
  have p: "p < NR_INODE" using refs_ok_fd(2) [OF f(1) _ f(3, 6)] assms(3) f(2) by (simp add: all_slots_def)
  have root: "root_inode g = root_inode f" using g(6) by (simp add: same_files_def)
  then have "root_dir g = root_dir f" using g(7) f(10) by (simp add: root_dir_def)
  from placed_same [OF g(6) this f(9)] have "placed g path num st" .
  moreover have "uncached g num {}" using f(7) by (auto simp: uncached_def g(7) f(8))
  moreover have "i_cnt (inode_table g p) = 0" by (simp add: g(7) f(8))
  ultimately have "stored g path num st sz" using p f(11, 12) disk_inode_same [OF g(6), of num] by (auto simp: stored_def)
  moreover have "links g = ((slot_fd f)((c, fd) := None), (\<lambda>i. fd_inode (f_desc_table f i))(d := None))"
    using g(3) by (auto simp: links_def g(5) drop_slot_sel f(5) fun_eq_iff)
  ultimately show ?thesis
    using g(1, 2, 4) same_files_memory [OF g(6)] content_same [OF g(6)] by (intro exI [of _ g]) simp
qed

text \<open>\<^verbatim>\<open>read\<close> and \<^verbatim>\<open>write\<close> on a file in use.\<close>

lemma held_fd:
  assumes "held f c fd d p path num st sz pos" "c < nr_slots"
  shows "d < NR_FILE_DESC" "p < NR_INODE"
  using assms refs_ok_fd(1, 2) [of f all_slots "(c, fd)" d p] by (simp_all add: held_def all_slots_def)

lemma held_serves:
  assumes "held f c fd d p path num st sz pos" "pcaller f = c" "c < nr_slots" "FD (fs_msg f) = of_nat fd"
  shows "serves f d p"
proof -
  have "d < NR_FILE_DESC" "p < NR_INODE" using held_fd [OF assms(1, 3)] .
  with assms show ?thesis unfolding serves_def held_def by (intro conjI exI [of _ fd]) (auto simp: slot_fd_def)
qed

lemma held_transfer:
  assumes "held f c fd d p path num st sz pos" "flat f c" "source (fs_msg f) = of_nat c" "CNT (fs_msg f) = of_nat len"
    "pos \<le> e" "e \<le> pos + len" "e < 2 ^ 17" "pos + len \<le> 2 ^ 20"
  shows "transfer f d p st pos len e" "root_file (inode_table f p)"
proof -
  from assms(1) have f: "placed f path num st" "fd_pos (f_desc_table f d) = int pos" "inode_table f p = file_of num st sz"
    by (simp_all add: held_def)
  have "sint (of_nat c :: u32) = int c" using assms(2) by (simp add: flat_def sint_of_nat_small)
  then have "flat_source f" using assms(2, 3) by (simp add: flat_source_def flat_def)
  moreover have "e div SECTOR_SIZE < 256" using assms(7) by (intro less_mult_imp_div_less) simp
  ultimately show "transfer f d p st pos len e" using f assms(4 - 6, 8) by (simp add: transfer_def placed_def)
  show "root_file (inode_table f p)" using f by (simp add: root_file_def placed_def)
qed

lemma refs_ok_moved: "moved f d p n g \<Longrightarrow> slot_fd g = slot_fd f \<and> refs_ok g S = refs_ok f S"
proof -
  assume m: "moved f d p n g"
  then have slots: "slot_fd g = slot_fd f" by (simp add: moved_def slot_fd_def fun_eq_iff)
  from m have fds: "fd_inode (f_desc_table g i) = fd_inode (f_desc_table f i)" "fd_cnt (f_desc_table g i) = fd_cnt (f_desc_table f i)"
    "i_cnt (inode_table g i) = i_cnt (inode_table f i)" "root_inode g = root_inode f" for i
    by (simp_all add: moved_def)
  have "load g k = load f k" for k unfolding load_def by (intro sum.cong) (simp_all add: refs_of_def fds)
  with slots show ?thesis unfolding refs_ok_def fds by simp
qed

lemma max_of_nat: "a \<le> 2 ^ 20 \<Longrightarrow> b \<le> 2 ^ 20 \<Longrightarrow> max (of_nat a) (of_nat b :: u32) = of_nat (max a b) \<and> ((of_nat a :: u32) < of_nat b \<longleftrightarrow> a < b)"
  by (auto simp: max_def word_le_nat_alt word_less_nat_alt unat_of_nat_u32)

lemma held_moved:
  assumes "held f c fd d p path num st sz pos" "moved f d p n g" "pos + n \<le> 2 ^ 20"
    "\<And>y. unat (n_1st_sect (sb0 f)) \<le> y \<Longrightarrow> y < st \<Longrightarrow> fs_sect g y = fs_sect f y"
  shows "held g c fd d p path num st (max sz (pos + n)) (pos + n)" "links g = links f"
proof -
  let ?z = "max sz (pos + n)"
  from assms(1) have f: "placed f path num st" "refs_ok f all_slots" "fd < 64" "slot_fd f (c, fd) = Some d"
     "fd_mode (f_desc_table f d) AND O_RDWR \<noteq> 0" "fd_pos (f_desc_table f d) = int pos" "fd_cnt (f_desc_table f d) = 1"
     "fd_inode (f_desc_table f d) = Some p" "p \<noteq> root_inode f" "uncached f num {p}" "inode_table f p = file_of num st sz"
     "disk_inode f num = file_of num st sz" "sz \<le> 2 ^ 20"
    by (simp_all add: held_def)
  have word: "word_of_int (int pos + int n) = (of_nat (pos + n) :: u32)" by simp
  note max = max_of_nat [OF f(13) assms(3)]
  have upd: "(file_of num st sz)\<lparr>i_size := of_nat ?z\<rparr> = file_of num st ?z" by (simp add: file_of_def)
  from assms(2) have tab: "inode_table g = (inode_table f)(p := file_of num st ?z)"
    unfolding moved_def f(6, 11) word using max upd by (simp only: file_of_sel simp_thms)
  have g: "mounted g" "super_blocks g = super_blocks f" "root_inode g = root_inode f"
    "f_desc_table g = (f_desc_table f)(d := (f_desc_table f d)\<lparr>fd_pos := int (pos + n)\<rparr>)"
    using assms(2) f(6) by (simp_all add: moved_def)
  have num: "1 \<le> num" "num \<le> 4096" using f(1) by (simp_all add: placed_def)
  then have "disk_inode g num = (if sz < pos + n then (inode_table g p)\<lparr>i_cnt := 1\<rparr> else disk_inode f num)"
    using assms(2) max unfolding moved_def f(6, 11) word file_of_sel by simp
  then have disk: "disk_inode g num = file_of num st ?z" using f(12) by (simp add: tab)
  have "root_dir g = root_dir f" using f(9) by (simp add: root_dir_def g(3) tab)
  from placed_cong [OF f(1) g(1, 2) this] assms(4) have "placed g path num st" by blast
  moreover have "uncached g num {p}" using f(10) by (simp add: uncached_def tab)
  ultimately show "held g c fd d p path num st ?z (pos + n)"
    using f(2 - 9, 13) assms(3) disk refs_ok_moved [OF assms(2)] by (simp add: held_def tab g(3, 4))
  show "links g = links f" using refs_ok_moved [OF assms(2)] by (simp add: links_def g(4) fun_eq_iff)
qed

lemma moved_memory:
  assumes "moved f d p n g" "\<And>x. x \<notin> region fsbuf FSBUF_RUN \<Longrightarrow> fmem g x = fmem f x"
  shows "same_memory f g"
  using assms by (simp add: same_memory_def moved_def)

lemma do_write_held:
  assumes "held f c fd d p path num st sz pos" "flat f c" "source (fs_msg f) = of_nat c" "pcaller f = c"
    "msg_type (fs_msg f) = WRITE" "FD (fs_msg f) = of_nat fd" "CNT (fs_msg f) = of_nat len" "pos + len < 2 ^ 17"
    "region (BUF (fs_msg f)) len \<inter> region fsbuf FSBUF_RUN = {}"
  shows "\<exists>g. do_rdwt f = Inr (int len, g) \<and> held g c fd d p path num st (max sz (pos + len)) (pos + len) \<and> links g = links f \<and>
    (\<forall>k. content g st k = (if pos \<le> k \<and> k < pos + len then load_bytes (fmem f) (BUF (fs_msg f)) len ! (k - pos) else content f st k)) \<and>
    same_memory f g \<and> fs_msg g = fs_msg f \<and> pcaller g = pcaller f"
proof -
  have c: "c < nr_slots" using assms(2) by (simp add: flat_def)
  note tr = held_transfer [OF assms(1 - 3, 7), of "pos + len"]
  have t: "transfer f d p st pos len (pos + len)" and r: "root_file (inode_table f p)" using tr assms(8) by simp_all
  have "inode_table f p = file_of num st sz" using assms(1) by (simp add: held_def)
  then have "pos + len = min (pos + len) (unat (i_nr_sects (inode_table f p) * SECTOR_SIZE))" using assms(8) by simp
  from rdwt_write_ok [OF t assms(5) _ r, unfolded taken_all] this disjoint_run [OF t assms(9)] assms(5) obtain g where
    g: "rdwt_regular d p f = Inr (int len, g)" "moved f d p len g"
    "\<And>k. content g st k = (if pos \<le> k \<and> k < pos + len then load_bytes (fmem f) (BUF (fs_msg f)) len ! (k - pos) else content f st k)"
    "\<And>y. unat (n_1st_sect (sb0 f)) \<le> y \<Longrightarrow> y < st + pos div SECTOR_SIZE \<Longrightarrow> fs_sect g y = fs_sect f y"
    "\<And>x. x \<notin> region fsbuf (SECTOR_SIZE * run_len pos (pos + len)) \<Longrightarrow> fmem g x = fmem f x"
    by auto
  have "do_rdwt f = Inr (int len, g)" using do_rdwt_serves [OF held_serves [OF assms(1, 4) c assms(6)]] assms(5) g(1) by simp
  moreover have "same_memory f g"
    using g(5) region_sub [of 0 "SECTOR_SIZE * run_len pos (pos + len)" FSBUF_RUN fsbuf] run_len_bounds(2) [OF t]
    by (intro moved_memory [OF g(2)]) auto
  moreover note held_moved [OF assms(1) g(2)]
  ultimately show ?thesis using g(2 - 4) assms(8) by (intro exI [of _ g]) (simp add: moved_def)
qed

lemma do_read_held:
  assumes "held f c fd d p path num st sz pos" "flat f c" "source (fs_msg f) = of_nat c" "pcaller f = c"
    "msg_type (fs_msg f) = READ" "FD (fs_msg f) = of_nat fd" "CNT (fs_msg f) = of_nat len" "pos + len \<le> sz" "pos + len < 2 ^ 17"
    "region (BUF (fs_msg f)) len \<inter> region fsbuf FSBUF_RUN = {}"
  shows "\<exists>g. do_rdwt f = Inr (int len, g) \<and> held g c fd d p path num st sz (pos + len) \<and> links g = links f \<and>
    content g st = content f st \<and> load_bytes (fmem g) (BUF (fs_msg f)) len = map (content f st) [pos..<pos + len] \<and>
    fs_msg g = fs_msg f \<and> pcaller g = pcaller f"
proof -
  have c: "c < nr_slots" using assms(2) by (simp add: flat_def)
  note tr = held_transfer [OF assms(1 - 3, 7), of "pos + len"]
  have t: "transfer f d p st pos len (pos + len)" and r: "root_file (inode_table f p)" using tr assms(9) by simp_all
  have f: "inode_table f p = file_of num st sz" "sz \<le> 2 ^ 20" "unat (n_1st_sect (sb0 f)) \<le> st" using assms(1) by (simp_all add: held_def placed_def)
  then have "unat (of_nat sz :: u32) = sz" by (intro unat_of_nat_u32) simp
  then have "pos + len = min (pos + len) (unat (i_size (inode_table f p)))" using assms(8) f(1) by simp
  from rdwt_read_ok [OF t assms(5) this r, unfolded taken_all, OF disjoint_run [OF t assms(10)]] obtain g where
    g: "rdwt_regular d p f = Inr (int len, g)" "moved f d p len g" "\<And>y. unat (n_1st_sect (sb0 f)) \<le> y \<Longrightarrow> fs_sect g y = fs_sect f y"
    "load_bytes (fmem g) (BUF (fs_msg f)) len = map (content f st) [pos..<pos + len]"
    by auto
  have "do_rdwt f = Inr (int len, g)" using do_rdwt_serves [OF held_serves [OF assms(1, 4) c assms(6)]] assms(5) g(1) by simp
  moreover have "content g st = content f st" using g(3) f(3) by (simp add: content_def fun_eq_iff)
  moreover have "max sz (pos + len) = sz" using assms(8) by simp
  moreover note held_moved [OF assms(1) g(2)]
  ultimately show ?thesis using g(2 - 4) assms(9) by (intro exI [of _ g]) (simp add: moved_def)
qed

text \<open>\<^verbatim>\<open>open\<close> that creates the file: what is asked of the file system, with the first sector of the run that the file gets.\<close>

definition creatable :: "fs \<Rightarrow> u8 list \<Rightarrow> nat \<Rightarrow> nat \<Rightarrow> bool" where
  "creatable f path num st \<longleftrightarrow> mounted f \<and> root_ok f \<and> path_at f path 0 \<and> length (base_name path) \<le> 11 \<and>
     (\<exists>a q s n. room_for f num a q \<and> dir_at f (root_inode f) 1 s n \<and> dir_slot f s (slot_for f s n) = replicate 16 0 \<and>
        run_sector f a = of_nat st \<and> s + n div 32 + 1 < st \<and> st + NR_DEFAULT_FILE_SECTS \<le> sect_limit)"

lemma creatable_request [simp]: "creatable (request m c f) path num st = creatable f path num st"
proof -
  have "room_for (request m c f) = room_for f" by (simp add: room_for_def map_bit_def find_inode_def fun_eq_iff)
  moreover have "dir_at (request m c f) = dir_at f" by (simp add: dir_at_def fun_eq_iff)
  moreover have dir: "dir_slot (request m c f) = dir_slot f" by (simp add: dir_slot_def fun_eq_iff)
  moreover from dir have "slot_for (request m c f) = slot_for f" by (simp add: slot_for_def fun_eq_iff)
  moreover have "run_sector (request m c f) = run_sector f" by (simp add: run_sector_def fun_eq_iff)
  ultimately show ?thesis by (simp add: creatable_def root_ok_def root_dir_def path_at_request)
qed

lemma no_such_name:
  assumes "path_at f path 0" "dir_at f (root_inode f) 1 s n" "k < slot_for f s n"
  shows "slot_name (dir_slot f s k) \<noteq> name_field (base_name path)"
proof
  let ?P = "\<lambda>k. slot_name (dir_slot f s k) = name_field (base_name path)"
  assume eq: "?P k"
  from assms(2) have "unat (i_start_sect (root_dir f)) = s" "unat (i_size (root_dir f)) = 16 * n"
    by (simp_all add: dir_at_def root_dir_def unat_of_nat_u32 del: of_nat_mult)
  then have lookup: "lookup_name f s (name_field (base_name path)) (n + 1) = 0" using assms(1) by (simp add: path_at_def)
  have k: "k < n + 1" using assms(3) slot_for_props(1) [of f s n] by simp
  with eq obtain j where j: "find ?P [0..<n + 1] = Some j" "j \<le> k"
    using find_upt_stops [of ?P k "n + 1"] by blast
  then have "slot_inode (dir_slot f s j) = 0" using lookup by (simp add: lookup_name_def)
  moreover have "slot_inode (dir_slot f s j) \<noteq> 0" using slot_for_props(2) [of j f s n] j(2) assms(3) by simp
  ultimately show False by simp
qed

lemma created_placed:
  assumes "created f num a q s n (base_name path) g" "path_at f path 0" "dir_at f (root_inode f) 1 s n" "1 \<le> num" "num \<le> 4096"
    "s + n div 32 + 1 < st" "st + NR_DEFAULT_FILE_SECTS \<le> sect_limit" "length (base_name path) \<le> 11"
  shows "placed g path num st"
proof -
  note root = created_root [OF assms(1, 3)]
  from assms(1) have g: "mounted g" "super_blocks g = super_blocks f"
    "\<And>k. dir_slot g s k = (if k = slot_for f s n then le32 (of_nat num) @ name_field (base_name path) else dir_slot f s k)"
    "root_dir g = grown (slot_for f s n) n (inode_table f (root_inode f))"
    by (simp_all add: created_def root_dir_def)
  have "lookup_name g s (name_field (base_name path)) (unat (i_size (root_dir g)) div DIR_ENTRY_SIZE + 1) = of_nat num"
    by (rule lookup_name_new [of "slot_for f s n"]) (use g(3) no_such_name [OF assms(2, 3)] root(3) assms(8) in \<open>simp_all add: name_field_def\<close>)
  then have "path_at g path (of_nat num)" using assms(2) by (simp add: path_at_def root(2))
  moreover have "unat (i_size (root_dir g)) div SECTOR_SIZE \<le> n div 32 + 1"
  proof -
    have "unat (i_size (root_dir g)) \<le> 16 * (n + 1)"
      using assms(3) by (auto simp: g(4) grown_def dir_at_def unat_word_ariths unat_of_nat_u32)
    then have "unat (i_size (root_dir g)) div SECTOR_SIZE \<le> 16 * (n + 1) div SECTOR_SIZE" by (rule div_le_mono)
    also have "\<dots> \<le> n div 32 + 1" by simp
    finally show ?thesis .
  qed
  ultimately show ?thesis using g(1, 2) root(1, 2) assms(3 - 7) by (simp add: placed_def dir_at_def sb0_def)
qed

lemma do_open_creatable:
  assumes "creatable f path num st" "refs_ok f all_slots" "pcaller f < nr_slots" "names f path" "free_fd f fd d"
    "FLAGS (fs_msg f) AND O_CREAT \<noteq> 0" "FLAGS (fs_msg f) AND O_RDWR \<noteq> 0"
  shows "\<exists>p g. do_open f = Inr (int fd, g) \<and> held g (pcaller f) fd d p path num st 0 0 \<and> same_memory f g \<and>
    fs_msg g = fs_msg f \<and> pcaller g = pcaller f \<and> links g = ((slot_fd f)((pcaller f, fd) := Some d), (\<lambda>i. fd_inode (f_desc_table f i))(d := Some p))"
proof -
  from assms(1) obtain a q s n where f: "mounted f" "root_ok f" "path_at f path 0" "length (base_name path) \<le> 11" "room_for f num a q"
    "dir_at f (root_inode f) 1 s n" "dir_slot f s (slot_for f s n) = replicate 16 0" "run_sector f a = of_nat st" "s + n div 32 + 1 < st"
    "st + NR_DEFAULT_FILE_SECTS \<le> sect_limit"
    unfolding creatable_def by blast
  from do_open_new [OF f(1, 2) assms(2 - 5) f(3) assms(6) f(5, 6, 4, 7)] obtain g h where
    h: "created f num a q s n (base_name path) h" and
    g: "do_open f = Inr (int fd, g)" "opened f fd d q g" "inode_table g = inode_table h" "fs_msg g = fs_msg f" "pcaller g = pcaller f"
      "same_files h g" "q < NR_INODE"
    by blast
  from f(5) have num: "2 \<le> num" "num < 4096" "find_inode ROOT_DEV (int num) f = None" "i_cnt (inode_table f q) = 0"
    by (simp_all add: room_for_def first_index_Some)
  have root: "root_inode f \<noteq> q" using root_in_use [OF assms(2)] num(4) by auto
  from h have c: "root_inode h = root_inode f" "disk_inode h num = file_of num st 0" "inode_table h q = file_of num st 0"
    "\<And>p. p \<noteq> q \<Longrightarrow> i_cnt (inode_table h p) = i_cnt (inode_table f p) \<and> i_dev (inode_table h p) = i_dev (inode_table f p) \<and> i_num (inode_table h p) = i_num (inode_table f p)"
    using root by (auto simp: created_def file_of_def file_inode_def f(8) grown_def)
  have "placed h path num st" using created_placed [OF h f(3, 6) _ _ f(9, 10, 4)] num(1, 2) by simp
  moreover have "root_dir g = root_dir h" using g(3, 6) by (simp add: root_dir_def same_files_def)
  ultimately have "placed g path num st" using placed_same [OF g(6)] by blast
  moreover have "uncached g num {q}" using num(3) c(4) by (auto simp: uncached_def g(3) find_uncached [symmetric])
  moreover have "disk_inode g num = file_of num st 0" using disk_inode_same [OF g(6)] c(2) by simp
  moreover have "root_inode g = root_inode f" using g(6) c(1) by (simp add: same_files_def)
  moreover have "fd < 64" using assms(5) by (simp add: free_fd_def first_index_Some)
  ultimately have "held g (pcaller f) fd d q path num st 0 0"
    using g(2, 3) root c(3) assms(7) by (simp add: held_def opened_def)
  moreover have "links g = ((slot_fd f)((pcaller f, fd) := Some d), (\<lambda>i. fd_inode (f_desc_table f i))(d := Some q))"
    using g(2) by (auto simp: links_def opened_def fun_eq_iff)
  moreover have "same_memory f h"
    using h region_sub [of 0 SECTOR_SIZE FSBUF_RUN fsbuf] by (auto simp: created_def same_memory_def)
  then have "same_memory f g" using same_files_memory [OF g(6)] same_memory_trans by blast
  ultimately show ?thesis
    using g(1, 4, 5) by (intro exI [of _ q] exI [of _ g]) simp
qed

section \<open>Through the library\<close>

text \<open>A call to which the file system answers at once.\<close>

lemma call_fs_serves:
  assumes "c < nr_slots" "serve (request (msg\<lparr>source := of_nat c\<rparr>) c f) = Inr (int c, g)" "msg_type (fs_msg g) \<noteq> SUSPEND_PROC"
  shows "\<exists>m. call_fs ln c msg f = Inr ((fs_msg g)\<lparr>msg_type := SYSCALL_RET, source := TASK_FS\<rparr>, request m (pcaller g) g)"
proof -
  let ?m = "(fs_msg g)\<lparr>msg_type := SYSCALL_RET\<rparr>"
  have "sint (source (msg\<lparr>source := of_nat c\<rparr>)) = int c" using sint_slot [OF assms(1)] by simp
  from task_fs_request [OF this assms]
  have "call_fs ln c msg f = Inr (?m\<lparr>source := TASK_FS\<rparr>, g\<lparr>fs_msg := ?m\<rparr>)" by (simp add: call_fs_once)
  moreover have "g\<lparr>fs_msg := ?m\<rparr> = request ?m (pcaller g) g" by (simp add: request_def)
  ultimately show ?thesis by (intro exI [of _ ?m]) simp
qed

lemma call_open_close:
  assumes "c < nr_slots" "msg_type msg = OPEN \<and> do_open (request (msg\<lparr>source := of_nat c\<rparr>) c f) = Inr (r, g) \<or>
      msg_type msg = CLOSE \<and> do_close (request (msg\<lparr>source := of_nat c\<rparr>) c f) = Inr (r, g)"
    "fs_msg g = msg\<lparr>source := of_nat c\<rparr>" "0 \<le> r" "r < 64"
  shows "\<exists>m m'. call_fs ln c msg f = Inr (m, request m' (pcaller g) g) \<and> msg_type m = SYSCALL_RET \<and> sint (m3i1 m) = r"
proof -
  let ?g = "g\<lparr>fs_msg := (fs_msg g)\<lparr>m3i1 := word_of_int r\<rparr>\<rparr>"
  have "serve (request (msg\<lparr>source := of_nat c\<rparr>) c f) = Inr (int c, ?g)"
    using assms(2) sint_slot [OF assms(1)] by (auto simp: serve_def Let_def)
  moreover have "msg_type (fs_msg ?g) \<noteq> SUSPEND_PROC" using assms(2, 3) by auto
  ultimately obtain m where "call_fs ln c msg f = Inr ((fs_msg ?g)\<lparr>msg_type := SYSCALL_RET, source := TASK_FS\<rparr>, request m (pcaller ?g) ?g)"
    using call_fs_serves [OF assms(1)] by blast
  moreover have "request m c' ?g = request m c' g" for c' by (simp add: request_def)
  moreover have "sint (word_of_int r :: u32) = r" using assms(4, 5) sint_of_nat_small [of "nat r"] by simp
  ultimately show ?thesis by (intro exI [of _ "(fs_msg ?g)\<lparr>msg_type := SYSCALL_RET, source := TASK_FS\<rparr>"] exI [of _ m]) simp
qed

lemma call_rdwt:
  assumes "c < nr_slots" "msg_type msg = READ \<or> msg_type msg = WRITE" "do_rdwt (request (msg\<lparr>source := of_nat c\<rparr>) c f) = Inr (r, g)"
    "fs_msg g = msg\<lparr>source := of_nat c\<rparr>" "0 \<le> r" "r < 2 ^ 31"
  shows "\<exists>m m'. call_fs ln c msg f = Inr (m, request m' (pcaller g) g) \<and> sint (CNT m) = r"
proof -
  let ?g = "g\<lparr>fs_msg := (fs_msg g)\<lparr>m3i2 := word_of_int r\<rparr>\<rparr>"
  have "serve (request (msg\<lparr>source := of_nat c\<rparr>) c f) = Inr (int c, ?g)"
    using assms(2, 3) sint_slot [OF assms(1)] by (auto simp: serve_def Let_def)
  moreover have "msg_type (fs_msg ?g) \<noteq> SUSPEND_PROC" using assms(2, 4) by auto
  ultimately obtain m where "call_fs ln c msg f = Inr ((fs_msg ?g)\<lparr>msg_type := SYSCALL_RET, source := TASK_FS\<rparr>, request m (pcaller ?g) ?g)"
    using call_fs_serves [OF assms(1)] by blast
  moreover have "request m c' ?g = request m c' g" for c' by (simp add: request_def)
  moreover have "sint (word_of_int r :: u32) = r" using assms(5, 6) sint_of_nat_small [of "nat r"] by simp
  ultimately show ?thesis by (intro exI [of _ "(fs_msg ?g)\<lparr>msg_type := SYSCALL_RET, source := TASK_FS\<rparr>"] exI [of _ m]) simp
qed

text \<open>The path of the caller.\<close>

lemma path_named:
  assumes "flat f c" "cstr (fmem f) a path" "length path < MAX_PATH" "source m = of_nat c" "PATHNAME m = a" "NAME_LEN m = of_nat (length path)"
  shows "user_strlen ln c a f = Inr (of_nat (length path))" "names (request m c f) path"
proof -
  show "user_strlen ln c a f = Inr (of_nat (length path))"
    using assms(1) strlen_correct [OF assms(2), of 0] by (simp add: user_strlen_def va2la_def flat_def fmem_def)
  have "sint (of_nat c :: u32) = int c" using assms(1) by (simp add: flat_def sint_of_nat_small)
  then show "names (request m c f) path"
    using assms cstr_nonzero [OF assms(2)] cstr_load [OF assms(2)] by (simp add: names_def flat_source_def flat_def)
qed

lemma open_new_file:
  assumes "creatable f path num st" "refs_ok f all_slots" "flat f c" "cstr (fmem f) a path" "length path < MAX_PATH" "free_fd (request m0 c f) fd d"
  shows "\<exists>p g. open_file junk c a (O_CREAT OR O_RDWR) f = Inr (int fd, g) \<and> held g c fd d p path num st 0 0 \<and> same_memory f g \<and>
    links g = ((slot_fd f)((c, fd) := Some d), (\<lambda>i. fd_inode (f_desc_table f i))(d := Some p))"
proof -
  let ?m = "junk\<lparr>msg_type := OPEN, m3p1 := a, m3i1 := O_CREAT OR O_RDWR, m3i2 := of_nat (length path)\<rparr>"
  let ?f = "request (?m\<lparr>source := of_nat c\<rparr>) c f"
  have name: "user_strlen 20 c a f = Inr (of_nat (length path))" "names ?f path"
    using path_named [OF assms(3 - 5), of "?m\<lparr>source := of_nat c\<rparr>"] by simp_all
  have c: "c < nr_slots" using assms(3) by (simp add: flat_def)
  have free: "free_fd ?f fd d" using assms(6) free_fd_links [of ?f "request m0 c f"] by simp
  have "creatable ?f path num st"
    using assms(1) by simp
  from do_open_creatable [OF this _ _ name(2) free] assms(2) c obtain p g where g: "do_open ?f = Inr (int fd, g)"
    "held g c fd d p path num st 0 0" "same_memory f g" "fs_msg g = ?m\<lparr>source := of_nat c\<rparr>"
    "links g = ((slot_fd f)((c, fd) := Some d), (\<lambda>i. fd_inode (f_desc_table f i))(d := Some p))"
    by (auto simp: refs_ok_msg)
  have "int fd < 64" using g(2) by (simp add: held_def)
  with call_open_close [OF c _ g(4), of f "int fd" 22] g(1) obtain m m' where
    m: "call_fs 22 c ?m f = Inr (m, request m' (pcaller g) g)" "msg_type m = SYSCALL_RET" "sint (m3i1 m) = int fd"
    by auto
  then have "open_file junk c a (O_CREAT OR O_RDWR) f = Inr (int fd, request m' (pcaller g) g)" using name(1) by (simp add: open_file_def)
  then show ?thesis using g(2, 3, 5) by (intro exI [of _ p] exI [of _ "request m' (pcaller g) g"]) simp
qed

lemma open_stored_file:
  assumes "stored f path num st sz" "refs_ok f all_slots" "flat f c" "cstr (fmem f) a path" "length path < MAX_PATH" "free_fd (request m0 c f) fd d"
  shows "\<exists>p g. open_file junk c a O_RDWR f = Inr (int fd, g) \<and> held g c fd d p path num st sz 0 \<and> same_memory f g \<and> content g = content f \<and>
    links g = ((slot_fd f)((c, fd) := Some d), (\<lambda>i. fd_inode (f_desc_table f i))(d := Some p))"
proof -
  let ?m = "junk\<lparr>msg_type := OPEN, m3p1 := a, m3i1 := O_RDWR, m3i2 := of_nat (length path)\<rparr>"
  let ?f = "request (?m\<lparr>source := of_nat c\<rparr>) c f"
  have name: "user_strlen 20 c a f = Inr (of_nat (length path))" "names ?f path"
    using path_named [OF assms(3 - 5), of "?m\<lparr>source := of_nat c\<rparr>"] by simp_all
  have c: "c < nr_slots" using assms(3) by (simp add: flat_def)
  have free: "free_fd ?f fd d" using assms(6) free_fd_links [of ?f "request m0 c f"] by simp
  from do_open_stored [of ?f path num st sz, OF _ _ _ name(2) free] assms(1, 2) c obtain p g where g: "do_open ?f = Inr (int fd, g)"
    "held g c fd d p path num st sz 0" "same_memory f g" "fs_msg g = ?m\<lparr>source := of_nat c\<rparr>" "content g = content f"
    "links g = ((slot_fd f)((c, fd) := Some d), (\<lambda>i. fd_inode (f_desc_table f i))(d := Some p))"
    by (auto simp: refs_ok_msg)
  have "int fd < 64" using g(2) by (simp add: held_def)
  with call_open_close [OF c _ g(4), of f "int fd" 22] g(1) obtain m m' where
    m: "call_fs 22 c ?m f = Inr (m, request m' (pcaller g) g)" "msg_type m = SYSCALL_RET" "sint (m3i1 m) = int fd"
    by auto
  then have "open_file junk c a O_RDWR f = Inr (int fd, request m' (pcaller g) g)" using name(1) by (simp add: open_file_def)
  then show ?thesis using g(2, 3, 5, 6) by (intro exI [of _ p] exI [of _ "request m' (pcaller g) g"]) simp
qed

lemma close_held_file:
  assumes "held f c fd d p path num st sz pos" "c < nr_slots"
  shows "\<exists>g. close_file junk c (of_nat fd) f = Inr (0, g) \<and> stored g path num st sz \<and> refs_ok g all_slots \<and> content g = content f \<and> same_memory f g \<and>
    links g = ((slot_fd f)((c, fd) := None), (\<lambda>i. fd_inode (f_desc_table f i))(d := None))"
proof -
  let ?m = "junk\<lparr>msg_type := CLOSE, m3i1 := of_nat fd\<rparr>"
  obtain g where g: "do_close (request (?m\<lparr>source := of_nat c\<rparr>) c f) = Inr (0, g)" "stored g path num st sz" "refs_ok g all_slots"
    "content g = content f" "same_memory f g" "fs_msg g = ?m\<lparr>source := of_nat c\<rparr>"
    "links g = ((slot_fd f)((c, fd) := None), (\<lambda>i. fd_inode (f_desc_table f i))(d := None))"
    using do_close_held [of "request (?m\<lparr>source := of_nat c\<rparr>) c f"] assms by (fastforce simp: refs_ok_msg)
  from call_open_close [OF assms(2) _ g(6), of f 0 18] g(1) obtain m m' where
    "call_fs 18 c ?m f = Inr (m, request m' (pcaller g) g)" "sint (m3i1 m) = 0" by auto
  then have "close_file junk c (of_nat fd) f = Inr (0, request m' (pcaller g) g)" by (simp add: close_file_def)
  then show ?thesis using g(2 - 5, 7) by (intro exI [of _ "request m' (pcaller g) g"]) (simp add: refs_ok_msg)
qed

lemma write_held_file:
  assumes "held f c fd d p path num st sz pos" "flat f c" "pos + len < 2 ^ 17" "region buf len \<inter> region fsbuf FSBUF_RUN = {}"
  shows "\<exists>g. write_file junk c (of_nat fd) buf (of_nat len) f = Inr (int len, g) \<and> held g c fd d p path num st (max sz (pos + len)) (pos + len) \<and>
    links g = links f \<and> same_memory f g \<and>
    (\<forall>k. content g st k = (if pos \<le> k \<and> k < pos + len then load_bytes (fmem f) buf len ! (k - pos) else content f st k))"
proof -
  let ?m = "junk\<lparr>msg_type := WRITE, m3i1 := of_nat fd, m3p2 := buf, m3i2 := of_nat len\<rparr>"
  let ?f = "request (?m\<lparr>source := of_nat c\<rparr>) c f"
  have c: "c < nr_slots" using assms(2) by (simp add: flat_def)
  from do_write_held [of ?f c fd d p path num st sz pos len] assms obtain g where g: "do_rdwt ?f = Inr (int len, g)"
    "held g c fd d p path num st (max sz (pos + len)) (pos + len)" "links g = links f" "same_memory f g" "fs_msg g = ?m\<lparr>source := of_nat c\<rparr>"
    "\<And>k. content g st k = (if pos \<le> k \<and> k < pos + len then load_bytes (fmem f) buf len ! (k - pos) else content f st k)"
    by auto
  have "int len < 2 ^ 31" using assms(3) by simp
  with call_rdwt [OF c _ g(1, 5), of 20] obtain m m' where "call_fs 20 c ?m f = Inr (m, request m' (pcaller g) g)" "sint (CNT m) = int len"
    by auto
  then have "write_file junk c (of_nat fd) buf (of_nat len) f = Inr (int len, request m' (pcaller g) g)" by (simp add: write_file_def)
  then show ?thesis using g(2 - 4, 6) by (intro exI [of _ "request m' (pcaller g) g"]) simp
qed

lemma read_held_file:
  assumes "held f c fd d p path num st sz pos" "flat f c" "pos + len \<le> sz" "pos + len < 2 ^ 17" "region buf len \<inter> region fsbuf FSBUF_RUN = {}"
  shows "\<exists>g. read_file junk c (of_nat fd) buf (of_nat len) [] f = Inr (int len, g) \<and> held g c fd d p path num st sz (pos + len) \<and>
    links g = links f \<and> content g st = content f st \<and> load_bytes (fmem g) buf len = map (content f st) [pos..<pos + len]"
proof -
  let ?m = "junk\<lparr>msg_type := READ, m3i1 := of_nat fd, m3p2 := buf, m3i2 := of_nat len\<rparr>"
  let ?f = "request (?m\<lparr>source := of_nat c\<rparr>) c f"
  have c: "c < nr_slots" using assms(2) by (simp add: flat_def)
  from do_read_held [of ?f c fd d p path num st sz pos len] assms obtain g where g: "do_rdwt ?f = Inr (int len, g)"
    "held g c fd d p path num st sz (pos + len)" "links g = links f" "fs_msg g = ?m\<lparr>source := of_nat c\<rparr>"
    "content g st = content f st" "load_bytes (fmem g) buf len = map (content f st) [pos..<pos + len]"
    by auto
  have "int len < 2 ^ 31" using assms(4) by simp
  with call_rdwt [OF c _ g(1, 4), of 20] obtain m m' where "call_fs 20 c ?m f = Inr (m, request m' (pcaller g) g)" "sint (CNT m) = int len"
    by auto
  then have "read_file junk c (of_nat fd) buf (of_nat len) [] f = Inr (int len, request m' (pcaller g) g)" by (simp add: read_file_once)
  then show ?thesis using g(2, 3, 5, 6) by (intro exI [of _ "request m' (pcaller g) g"]) simp
qed

section \<open>What is written is read back\<close>

text \<open>The first half of the session leaves the file at rest with the data in it.\<close>

lemma save_file:
  assumes "creatable f path num st" "refs_ok f all_slots" "flat f c" "cstr (fmem f) a path" "length path < MAX_PATH" "free_fd (request m0 c f) fd d"
    "len < 2 ^ 17" "region buf len \<inter> region fsbuf FSBUF_RUN = {}"
  shows "\<exists>f1 f2 f3. open_file j1 c a (O_CREAT OR O_RDWR) f = Inr (int fd, f1) \<and> write_file j2 c (of_nat fd) buf (of_nat len) f1 = Inr (int len, f2) \<and>
    close_file j3 c (of_nat fd) f2 = Inr (0, f3) \<and> stored f3 path num st len \<and> map (content f3 st) [0..<len] = load_bytes (fmem f) buf len \<and>
    refs_ok f3 all_slots \<and> same_memory f f3 \<and> links f3 = links f"
proof -
  have c: "c < nr_slots" using assms(3) by (simp add: flat_def)
  obtain p f1 where f1: "open_file j1 c a (O_CREAT OR O_RDWR) f = Inr (int fd, f1)" "held f1 c fd d p path num st 0 0" "same_memory f f1"
    "links f1 = ((slot_fd f)((c, fd) := Some d), (\<lambda>i. fd_inode (f_desc_table f i))(d := Some p))"
    using open_new_file [OF assms(1 - 6)] by blast
  have "flat f1 c" using flat_same [OF f1(3)] assms(3) by simp
  from write_held_file [OF f1(2) this, of len buf j2] assms(7, 8) obtain f2 where
    f2: "write_file j2 c (of_nat fd) buf (of_nat len) f1 = Inr (int len, f2)" "held f2 c fd d p path num st len len" "links f2 = links f1" "same_memory f1 f2"
    "\<And>k. k < len \<Longrightarrow> content f2 st k = load_bytes (fmem f1) buf len ! k" by auto
  obtain f3 where f3: "close_file j3 c (of_nat fd) f2 = Inr (0, f3)" "stored f3 path num st len" "refs_ok f3 all_slots" "content f3 = content f2"
    "same_memory f2 f3" "links f3 = ((slot_fd f2)((c, fd) := None), (\<lambda>i. fd_inode (f_desc_table f2 i))(d := None))"
    using close_held_file [OF f2(2) c] by blast
  have "load_bytes (fmem f1) buf len = load_bytes (fmem f) buf len" by (rule load_bytes_same [OF f1(3) assms(8)])
  then have "map (content f3 st) [0..<len] = load_bytes (fmem f) buf len" using f2(5) by (intro nth_equalityI) (simp_all add: f3(4))
  moreover have "links f3 = links f"
    using assms(6) f1(4) f2(3) unfolding f3(6) by (auto simp: links_def free_fd_def first_index_Some refs_ok_msg fun_eq_iff)
  moreover have "same_memory f f3" using f1(3) f2(4) f3(5) same_memory_trans by blast
  ultimately show ?thesis using f1(1) f2(1) f3(1 - 3) by blast
qed

text \<open>The second half finds the data, whatever the memory now holds.\<close>

lemma load_file:
  assumes "stored f path num st sz" "refs_ok f all_slots" "flat f c" "cstr (fmem f) a path" "length path < MAX_PATH" "free_fd (request m0 c f) fd d"
    "len \<le> sz" "len < 2 ^ 17" "region buf len \<inter> region fsbuf FSBUF_RUN = {}"
  shows "\<exists>f1 f2 f3. open_file j1 c a O_RDWR f = Inr (int fd, f1) \<and> read_file j2 c (of_nat fd) buf (of_nat len) [] f1 = Inr (int len, f2) \<and>
    load_bytes (fmem f2) buf len = map (content f st) [0..<len] \<and> close_file j3 c (of_nat fd) f2 = Inr (0, f3) \<and>
    stored f3 path num st sz \<and> refs_ok f3 all_slots \<and> links f3 = links f"
proof -
  have c: "c < nr_slots" using assms(3) by (simp add: flat_def)
  obtain p f1 where f1: "open_file j1 c a O_RDWR f = Inr (int fd, f1)" "held f1 c fd d p path num st sz 0" "same_memory f f1" "content f1 = content f"
    "links f1 = ((slot_fd f)((c, fd) := Some d), (\<lambda>i. fd_inode (f_desc_table f i))(d := Some p))"
    using open_stored_file [OF assms(1 - 6)] by blast
  have "flat f1 c" using flat_same [OF f1(3)] assms(3) by simp
  from read_held_file [OF f1(2) this, of len buf j2] assms(7 - 9) obtain f2 where
    f2: "read_file j2 c (of_nat fd) buf (of_nat len) [] f1 = Inr (int len, f2)" "held f2 c fd d p path num st sz len" "links f2 = links f1"
    "load_bytes (fmem f2) buf len = map (content f1 st) [0..<len]" by auto
  obtain f3 where f3: "close_file j3 c (of_nat fd) f2 = Inr (0, f3)" "stored f3 path num st sz" "refs_ok f3 all_slots"
    "links f3 = ((slot_fd f2)((c, fd) := None), (\<lambda>i. fd_inode (f_desc_table f2 i))(d := None))"
    using close_held_file [OF f2(2) c] by blast
  have "links f3 = links f"
    using assms(6) f1(5) f2(3) unfolding f3(4) by (auto simp: links_def free_fd_def first_index_Some refs_ok_msg fun_eq_iff)
  then show ?thesis using f1(1) f2(1) f2(4) [unfolded f1(4)] f3(1 - 3) by blast
qed

lemma set_fmem_preds [simp]:
  "stored (set_fmem h f) path num st sz = stored f path num st sz" "refs_ok (set_fmem h f) S = refs_ok f S" "flat (set_fmem h f) c = flat f c"
  "links (set_fmem h f) = links f" "content (set_fmem h f) = content f"
proof -
  have views: "mounted (set_fmem h f) = mounted f" "root_dir (set_fmem h f) = root_dir f" "disk_inode (set_fmem h f) = disk_inode f" "sb0 (set_fmem h f) = sb0 f"
    "slot_fd (set_fmem h f) = slot_fd f" "load (set_fmem h f) = load f"
    by (simp_all add: mounted_def root_dir_def sb0_def disk_inode_def inode_sect_def slot_fd_def load_def fun_eq_iff) (simp add: set_fmem_def)
  have "path_at (set_fmem h f) path nr = path_at f path nr" for nr by (rule path_at_cong) (simp_all add: views)
  then show "stored (set_fmem h f) path num st sz = stored f path num st sz"
    by (simp add: stored_def placed_def uncached_def root_ok_def views)
  show "refs_ok (set_fmem h f) S = refs_ok f S" by (simp add: refs_ok_def views)
  show "flat (set_fmem h f) c = flat f c" by (simp add: flat_def set_fmem_def)
  show "links (set_fmem h f) = links f" by (simp add: links_def views)
  show "content (set_fmem h f) = content f" by (simp add: content_def fun_eq_iff)
qed

text \<open>
  C31. What a process saves, a process with flat segments can load again. In a file system that can create the file (\<open>creatable\<close>: a valid path with a
  name of at most 11 characters, no file of that name, a free slot, a free inode, a free run of sectors, room in the directory), a process with flat segments creates it with \<^verbatim>\<open>open\<close>, writes
  \<open>len < 2 ^ 17\<close> bytes, that is at most the 256 sectors one transfer of the disk driver can do, from a buffer apart from the file system's own,
  and closes it: the calls return the first free descriptor, \<open>len\<close> and 0. Whatever the memory holds after that, a process with flat segments
  that has the path in memory opens the file with its first free descriptor, reads the first \<open>n\<close> of the bytes into a buffer apart from the file
  system's, all that it asked for, and closes the file; the slots and the descriptors are as before the session and the counters are right. The segments have
  to be flat because \<^verbatim>\<open>do_rdwt\<close> translates the address of the file system's own buffer with the caller's segment (\<^verbatim>\<open>read_write.c\<close>, lines 77 and 80), so a
  forked process is left out.
\<close>

theorem saved_file_loads:
  assumes "creatable f path num st" "refs_ok f all_slots" "flat f c" "flat f c'" "cstr (fmem f) a path" "length path < MAX_PATH"
    "free_fd (request reset_msg c f) fd d" "free_fd (request reset_msg c' f) fd' d'" "len < 2 ^ 17" "region buf len \<inter> region fsbuf FSBUF_RUN = {}"
    "cstr h a' path" "n \<le> len" "region buf' n \<inter> region fsbuf FSBUF_RUN = {}"
  shows "\<exists>f1 f2 f3. open_file j1 c a (O_CREAT OR O_RDWR) f = Inr (int fd, f1) \<and> write_file j2 c (of_nat fd) buf (of_nat len) f1 = Inr (int len, f2) \<and>
    close_file j3 c (of_nat fd) f2 = Inr (0, f3) \<and>
    (\<exists>g1 g2 g3. open_file j4 c' a' O_RDWR (set_fmem h f3) = Inr (int fd', g1) \<and> read_file j5 c' (of_nat fd') buf' (of_nat n) [] g1 = Inr (int n, g2) \<and>
      load_bytes (fmem g2) buf' n = take n (load_bytes (fmem f) buf len) \<and> close_file j6 c' (of_nat fd') g2 = Inr (0, g3) \<and>
      links g3 = links f \<and> refs_ok g3 all_slots)"
proof -
  obtain f1 f2 f3 where f: "open_file j1 c a (O_CREAT OR O_RDWR) f = Inr (int fd, f1)" "write_file j2 c (of_nat fd) buf (of_nat len) f1 = Inr (int len, f2)"
    "close_file j3 c (of_nat fd) f2 = Inr (0, f3)" "stored f3 path num st len" "map (content f3 st) [0..<len] = load_bytes (fmem f) buf len"
    "refs_ok f3 all_slots" "same_memory f f3" "links f3 = links f"
    using save_file [OF assms(1 - 3, 5 - 7, 9, 10)] by blast
  have "free_fd (request reset_msg c' (set_fmem h f3)) fd' d'"
    using free_fd_links [of "request reset_msg c' (set_fmem h f3)" "request reset_msg c' f"] f(8) assms(8) by simp
  moreover have "flat f3 c'" using flat_same [OF f(7)] assms(4) by simp
  ultimately obtain g1 g2 g3 where g: "open_file j4 c' a' O_RDWR (set_fmem h f3) = Inr (int fd', g1)" "read_file j5 c' (of_nat fd') buf' (of_nat n) [] g1 = Inr (int n, g2)"
    "load_bytes (fmem g2) buf' n = map (content f3 st) [0..<n]" "close_file j6 c' (of_nat fd') g2 = Inr (0, g3)" "links g3 = links f" "refs_ok g3 all_slots"
    using load_file [of "set_fmem h f3" path num st len c' a' reset_msg fd' d' n buf' j4 j5 j6] f(4, 6, 8) assms(6, 9, 11 - 13) by auto
  have "map (content f3 st) [0..<n] = take n (map (content f3 st) [0..<len])" using assms(12) by (simp add: take_map)
  then show ?thesis using f(1 - 3) g f(5) by metis
qed

section \<open>Witnesses\<close>

text \<open>Process 6 creates \<open>/ax\<close> and saves the three characters of its path in it; process 7 loads two of them.\<close>

lemma demo_creatable: "creatable (demo_held [6] (demo_path 0x78)) [0x2F, 0x61, 0x78] 3 4357"
proof -
  let ?f = "demo_open_request (O_CREAT OR O_RDWR) 0x78"
  have "room_for ?f 3 4097 2"
    using demo_room [of "demo_path 0x78"] by (simp add: room_for_def demo_open_request_slots demo_open_request_sel demo_sb0 find_inode_def)
  moreover have "dir_at ?f (root_inode ?f) 1 261 2"
    using demo_dir_at [of "demo_path 0x78"] by (simp add: dir_at_def demo_open_request_sel demo_sb0) (simp add: demo_fs_def)
  moreover have "dir_slot ?f 261 (slot_for ?f 261 2) = replicate 16 0"
    using demo_slot_for [of "demo_path 0x78"] demo_slots [of "demo_path 0x78"] by (simp add: slot_for_def demo_open_request_slots)
  moreover have "run_sector ?f 4097 = of_nat 4357" by (simp add: run_sector_def demo_open_request_sel demo_sb_def)
  ultimately have "creatable ?f [0x2F, 0x61, 0x78] 3 4357"
    unfolding creatable_def using demo_open_request_ok demo_open_request_path(2)
    by (intro conjI exI [of _ 4097] exI [of _ 2] exI [of _ 261]) (simp_all add: base_name_def)
  then show ?thesis by (simp add: demo_open_request_def)
qed

lemma demo_held_flat: "c < nr_slots \<Longrightarrow> flat (demo_held ps h) c"
  by (simp add: flat_def demo_held_def ldt_seg_linear_def zero_proc_def zero_descriptor_def desc_base_def)

theorem saved_file_loads_witness:
  "\<exists>f1 f2 f3 g1 g2. open_file reset_msg 6 0x5000 (O_CREAT OR O_RDWR) (demo_held [6] (demo_path 0x78)) = Inr (1, f1) \<and>
    write_file reset_msg 6 1 0x5000 3 f1 = Inr (3, f2) \<and> close_file reset_msg 6 1 f2 = Inr (0, f3) \<and>
    open_file reset_msg 7 0x5000 O_RDWR (set_fmem (demo_path 0x78) f3) = Inr (0, g1) \<and> read_file reset_msg 7 0 0x7000 2 [] g1 = Inr (2, g2) \<and>
    load_bytes (fmem g2) 0x7000 2 = [0x2F, 0x61]"
proof -
  let ?f = "demo_held [6] (demo_path 0x78)"
  have mem: "fmem ?f = demo_path 0x78" by (simp add: fmem_def demo_held_def flat_kstate_def)
  have path: "cstr (demo_path 0x78) 0x5000 [0x2F, 0x61, 0x78]" by (simp add: demo_path_def)
  have data: "load_bytes (fmem ?f) 0x5000 3 = [0x2F, 0x61, 0x78]" unfolding mem by (simp add: demo_path_def load_bytes_def upt_rec)
  have refs: "refs_ok ?f all_slots" using demo_held_refs [OF one_slot(1), of reset_msg 6] by (simp add: refs_ok_msg)
  have free: "free_fd (request reset_msg 6 ?f) 1 1" "free_fd (request reset_msg 7 ?f) 0 1"
    by (simp_all add: free_fd_def first_index_Some demo_held_request demo_held_sel zero_fd_def)
  have "0 < length [0x2F, 0x61, 0x78 :: u8]" "length [0x2F, 0x61, 0x78 :: u8] < MAX_PATH" "cstr (fmem ?f) 0x5000 [0x2F, 0x61, 0x78]"
    using path by (simp_all add: mem)
  from saved_file_loads [OF demo_creatable refs demo_held_flat demo_held_flat this(3, 2) free, of 3 "0x5000" "demo_path 0x78" "0x5000" 2 "0x7000"
      reset_msg reset_msg reset_msg reset_msg reset_msg reset_msg, unfolded data] path low_region [of "0x5000" 3] low_region [of "0x7000" 2]
  show ?thesis by simp blast
qed

end
