(* ===== verification/Start.thy ===== *)
theory Start
  imports Sendrecv
begin

text \<open>
  The C entry point of the kernel, \<^verbatim>\<open>cstart\<close> of \<^verbatim>\<open>kernel/start.c\<close>: it copies the descriptor table of the boot loader into
  the kernel's own, points the table registers to the kernel's tables and calls \<^verbatim>\<open>init_prot\<close>. The arrays \<^verbatim>\<open>gdt_ptr\<close> and \<^verbatim>\<open>idt_ptr\<close>
  are records of the limit and base their six bytes hold; \<^verbatim>\<open>label ''gdt''\<close> and \<^verbatim>\<open>label ''idt''\<close> are the addresses of the tables.
\<close>

section \<open>Definitions\<close>

record table_ptr =
  tp_limit :: u16
  tp_base :: u32

definition load16 :: "memory \<Rightarrow> u32 \<Rightarrow> u16" where
  "load16 h a = ucast (h a) OR push_bit 8 (ucast (h (a + 1)))"

text \<open>The eight bytes of a descriptor in memory.\<close>

definition desc_at :: "memory \<Rightarrow> u32 \<Rightarrow> descriptor" where
  "desc_at h a = \<lparr>limit_low = load16 h a, base_low = load16 h (a + 2), base_mid = h (a + 4), attr1 = h (a + 5),
     limit_high_attr2 = h (a + 6), base_high = h (a + 7)\<rparr>"

definition cstart :: "(string \<Rightarrow> u32) \<Rightarrow> memory \<Rightarrow> table_ptr \<Rightarrow> gate list \<Rightarrow> (nat \<Rightarrow> proc) \<Rightarrow>
    (memory \<times> table_ptr \<times> table_ptr \<times> descriptor list \<times> gate list \<times> tss \<times> (nat \<Rightarrow> proc)) result" where
  "cstart label h gdt_ptr idt pt =
     (let sz = unat (tp_limit gdt_ptr) + 1
      in if GDT_SIZE * 8 < sz then Inl (OutOfBounds 24)
         else let h = memcpy h (label ''gdt'') (tp_base gdt_ptr) sz;
                  gdt = map (\<lambda>i. desc_at h (label ''gdt'' + 8 * of_nat i)) [0..<GDT_SIZE];
                  gdt_ptr = \<lparr>tp_limit = of_nat (GDT_SIZE * 8 - 1), tp_base = label ''gdt''\<rparr>;
                  idt_ptr = \<lparr>tp_limit = of_nat (IDT_SIZE * 8 - 1), tp_base = label ''idt''\<rparr>
              in bindE (init_prot label gdt idt pt) (\<lambda>(gdt, idt, tss, pt). Inr (h, gdt_ptr, idt_ptr, gdt, idt, tss, pt)))"

section \<open>From the boot loader to the first process\<close>

lemma desc_at_cong: "(\<And>k. k < 8 \<Longrightarrow> g (b + of_nat k) = h (a + of_nat k)) \<Longrightarrow> desc_at g b = desc_at h a"
proof -
  assume e: "\<And>k. k < 8 \<Longrightarrow> g (b + of_nat k) = h (a + of_nat k)"
  from e [of 0] e [of 1] e [of 2] e [of 3] e [of 4] e [of 5] e [of 6] e [of 7] show ?thesis
    by (simp add: desc_at_def load16_def add.assoc)
qed

lemma copied_descriptor:
  assumes "region dst n \<inter> region src n = {}" "n \<le> 1024" "8 * i + 8 \<le> n"
  shows "desc_at (memcpy h dst src n) (dst + 8 * of_nat i) = desc_at h (src + 8 * of_nat i)"
proof (rule desc_at_cong)
  fix k :: nat
  assume "k < 8"
  then have "memcpy h dst src n (dst + of_nat (8 * i + k)) = h (src + of_nat (8 * i + k))"
    using assms by (intro memcpy_copies) simp_all
  then show "memcpy h dst src n (dst + 8 * of_nat i + of_nat k) = h (src + 8 * of_nat i + of_nat k)" by (simp add: add.assoc)
qed

text \<open>
  C10. The kernel starts from what the boot loader leaves. If the loader's descriptor table has at least three descriptors, fits into the kernel's and does not overlap
  it, and its segments start at address 0, and the kernel image can be read, then \<^verbatim>\<open>cstart\<close> succeeds and keeps the loader's descriptors before the TSS, both table
  registers cover the kernel's tables, and \<^verbatim>\<open>kernel_main\<close> reaches a state with the kernel invariant.
\<close>

theorem cstart_boots:
  assumes "sz = unat (tp_limit p) + 1" "24 \<le> sz" "sz \<le> GDT_SIZE * 8" "region (label ''gdt'') sz \<inter> region (tp_base p) sz = {}"
    "\<And>i. i < 3 \<Longrightarrow> desc_base (desc_at h (tp_base p + 8 * of_nat i)) = 0"
    "get_kernel_map elf (memcpy h (label ''gdt'') (tp_base p) sz) = Inr (0, b, l)"
  shows "\<exists>g gp ip gdt idt' tss pt' s. cstart label h p idt pt = Inr (g, gp, ip, gdt, idt', tss, pt') \<and>
    tp_base gp = label ''gdt'' \<and> unat (tp_limit gp) + 1 = 8 * length gdt \<and> tp_base ip = label ''idt'' \<and> unat (tp_limit ip) + 1 = 8 * IDT_SIZE \<and>
    (\<forall>i<INDEX_TSS. 8 * i + 8 \<le> sz \<longrightarrow> gdt ! i = desc_at h (tp_base p + 8 * of_nat i)) \<and> length gdt = GDT_SIZE \<and>
    kernel_main elf g label gdt pt' = Inr s \<and> kernel_ok s boot_ipc"
proof -
  define g where "g = memcpy h (label ''gdt'') (tp_base p) sz"
  define gdt0 where "gdt0 = map (\<lambda>i. desc_at g (label ''gdt'' + 8 * of_nat i)) [0..<GDT_SIZE]"
  have copied: "gdt0 ! i = desc_at h (tp_base p + 8 * of_nat i)" if "8 * i + 8 \<le> sz" for i
    using copied_descriptor [OF assms(4) _ that] that assms(3) by (simp add: gdt0_def g_def del: upt_rec_numeral)
  have "desc_base (gdt0 ! i) = 0" if "i < 3" for i
    using copied [of i] assms(2, 5) that by simp
  then have flat: "flat_gdt gdt0" unfolding flat_gdt_def by (simp add: gdt0_def del: upt_rec_numeral)
  obtain gdt idt' tss pt' s where boot: "init_prot label gdt0 idt pt = Inr (gdt, idt', tss, pt')" "kernel_main elf g label gdt pt' = Inr s" "kernel_ok s boot_ipc"
    by (rule kernel_ok_boot [OF flat assms(6) [folded g_def], of label idt pt]) blast
  obtain gdt' pt\<^sub>1 where prot: "init_prot label gdt0 idt pt = Inr (gdt', init_idt label idt, zero_tss\<lparr>tss_ss0 := SELECTOR_KERNEL_DS, tss_iobase := sizeof_tss\<rparr>, pt\<^sub>1)"
    "flat_gdt gdt'" "\<And>j. j < INDEX_TSS \<Longrightarrow> gdt' ! j = gdt0 ! j"
    by (rule init_prot_run [OF flat, of label idt pt]) blast
  then have gdt: "length gdt = GDT_SIZE" "\<And>j. j < INDEX_TSS \<Longrightarrow> gdt ! j = gdt0 ! j"
    using boot(1) by (simp_all add: flat_gdt_def)
  have run: "cstart label h p idt pt = Inr (g, \<lparr>tp_limit = of_nat (GDT_SIZE * 8 - 1), tp_base = label ''gdt''\<rparr>,
      \<lparr>tp_limit = of_nat (IDT_SIZE * 8 - 1), tp_base = label ''idt''\<rparr>, gdt, idt', tss, pt')"
    using boot(1) assms(1, 3) unfolding cstart_def Let_def assms(1) [symmetric] g_def [symmetric] gdt0_def [symmetric] by simp
  have "\<forall>i<INDEX_TSS. 8 * i + 8 \<le> sz \<longrightarrow> gdt ! i = desc_at h (tp_base p + 8 * of_nat i)" using gdt(2) copied by simp
  moreover have "unat (of_nat (GDT_SIZE * 8 - 1) :: u16) + 1 = 8 * length gdt" "unat (of_nat (IDT_SIZE * 8 - 1) :: u16) + 1 = 8 * IDT_SIZE" by (simp_all add: gdt(1))
  ultimately show ?thesis unfolding run using boot(2, 3) gdt(1)
    by (intro exI [of _ g] exI [of _ "\<lparr>tp_limit = of_nat (GDT_SIZE * 8 - 1), tp_base = label ''gdt''\<rparr>"]
      exI [of _ "\<lparr>tp_limit = of_nat (IDT_SIZE * 8 - 1), tp_base = label ''idt''\<rparr>"] exI [of _ gdt] exI [of _ idt'] exI [of _ tss] exI [of _ pt'] exI [of _ s] conjI)
      (simp_all only: table_ptr.simps)
qed

lemma memcpy_idem:
  assumes "region dst n \<inter> region src n = {}" "n < 2 ^ 32" "\<And>k. k < n \<Longrightarrow> h (dst + of_nat k) = h (src + of_nat k)"
  shows "memcpy h dst src n = h"
proof
  fix x
  show "memcpy h dst src n x = h x"
  proof (cases "x \<in> region dst n")
    case True
    then show ?thesis using memcpy_copies [OF assms(1, 2)] assms(3) by (auto simp: region_def)
  qed (rule memcpy_frame)
qed

lemma demo_mem_zero: "x \<ge> 0x1000 \<Longrightarrow> demo_mem x = 0"
  by (auto simp: demo_mem_def store32_def le32_def)

lemma demo_mem_zeros: "demo_mem (0x20000 + of_nat k) = 0" "demo_mem (0x30000 + of_nat k) = 0" if "k < 32"
  using that by (auto intro!: demo_mem_zero simp: word_le_nat_alt unat_word_ariths unat_of_nat_u32)

lemma demo_loader:
  "region (0x30000 :: u32) 24 \<inter> region 0x20000 24 = {}" "memcpy demo_mem 0x30000 0x20000 24 = demo_mem"
  "i < 3 \<Longrightarrow> desc_base (desc_at demo_mem (0x20000 + 8 * of_nat i)) = 0"
proof -
  show apart: "region (0x30000 :: u32) 24 \<inter> region 0x20000 24 = {}" by (rule regions_apart) simp_all
  show "memcpy demo_mem 0x30000 0x20000 24 = demo_mem" using demo_mem_zeros by (intro memcpy_idem [OF apart]) simp_all
  assume "i < 3"
  then have "desc_at demo_mem (0x20000 + 8 * of_nat i) = desc_at (\<lambda>_. 0) 0"
    using demo_mem_zeros(1) [of "8 * i + k" for k] by (intro desc_at_cong) (simp add: add.assoc)
  then show "desc_base (desc_at demo_mem (0x20000 + 8 * of_nat i)) = 0" by (simp add: desc_at_def load16_def desc_base_def reassembly_def)
qed

theorem cstart_boots_witness:
  "\<exists>g gp ip gdt idt' tss pt' s. cstart (\<lambda>_. 0x30000) demo_mem \<lparr>tp_limit = 23, tp_base = 0x20000\<rparr> [] (\<lambda>_. zero_proc) = Inr (g, gp, ip, gdt, idt', tss, pt') \<and>
    kernel_main demo_elf g (\<lambda>_. 0x30000) gdt pt' = Inr s \<and> kernel_ok s boot_ipc"
  using cstart_boots [of 24 "\<lparr>tp_limit = 23, tp_base = 0x20000\<rparr>" "\<lambda>_. 0x30000" demo_mem demo_elf "0x1000" "0xFF" "[]" "\<lambda>_. zero_proc"]
    demo_loader demo_kernel_map by force

end
