(* ===== verification/Race.thy ===== *)
theory Race
  imports Kernel
begin

text \<open>
  Interrupts inside a C function. \<^verbatim>\<open>kernel.asm\<close> enables interrupts before it calls
  \<^verbatim>\<open>sys_sendrec\<close> (line 317), and \<^verbatim>\<open>msg_receive\<close> prepares to wait in several statements. Here
  \<^verbatim>\<open>msg_receive\<close> is written with the points at which an interrupt can be taken between these
  statements; without interrupts it is \<^verbatim>\<open>msg_receive\<close>. The theorem shows that the kernel stops
  at every one of them when the interrupt is for the receiving task.
\<close>

section \<open>Receiving with interrupts\<close>

text \<open>\<open>at l\<close> lists the interrupts taken just before the statement of line \<open>l\<close> of \<^verbatim>\<open>proc.c\<close>.\<close>

definition wait_irqs :: "(nat \<Rightarrow> nested list) \<Rightarrow> kstate \<Rightarrow> nat \<Rightarrow> int \<Rightarrow> u32 \<Rightarrow> kstate result" where
  "wait_irqs at s who src m =
     bindE (take_all (at 333) s) (\<lambda>s. let s = upd_proc who (\<lambda>p. p\<lparr>p_flags := p_flags p OR RECEIVING\<rparr>) s in
     bindE (take_all (at 334) s) (\<lambda>s. let s = upd_proc who (\<lambda>p. p\<lparr>p_msg := m\<rparr>) s in
     bindE (take_all (at 335) s) (\<lambda>s. let s = upd_proc who (\<lambda>p. p\<lparr>p_recvfrom := src\<rparr>) s in
     bindE (take_all (at 336) s) (\<lambda>s.
     bindE (block s who) (\<lambda>s.
     bindE (take_all (at 338) s) (\<lambda>s.
       checks [(338, p_flags (proc_table s who) = RECEIVING), (339, p_msg (proc_table s who) \<noteq> 0),
               (340, p_recvfrom (proc_table s who) \<noteq> NO_TASK),
               (341, p_sendto (proc_table s who) = NO_TASK), (342, has_int_msg (proc_table s who) = 0)]
         (Inr s)))))))"

definition msg_receive_irqs :: "(nat \<Rightarrow> nested list) \<Rightarrow> kstate \<Rightarrow> nat \<Rightarrow> int \<Rightarrow> u32 \<Rightarrow> kstate result" where
  "msg_receive_irqs at s who src m =
     check 243 (int who \<noteq> src)
     (if has_int_msg (proc_table s who) \<noteq> 0 \<and> (src = ANY \<or> src = INTERRUPT) then msg_receive s who src m
      else bindE (find_sender s who src) (\<lambda>copy. case copy of
          Some _ \<Rightarrow> msg_receive s who src m
        | None \<Rightarrow> wait_irqs at s who src m))"

lemma msg_receive_no_irqs: "msg_receive_irqs (\<lambda>_. []) s who src m = msg_receive s who src m"
  by (cases "find_sender s who src")
    (auto simp: msg_receive_irqs_def wait_irqs_def msg_receive_def Let_def check_def split: option.splits)

section \<open>An interrupt for the receiver\<close>

text \<open>The handler of the interrupt calls \<^verbatim>\<open>inform_int\<close> for task \<open>c\<close>.\<close>

definition notifies :: "kstate \<Rightarrow> irq \<Rightarrow> nat \<Rightarrow> bool" where
  "notifies s i c \<longleftrightarrow> i = Disk \<and> c = TASK_HD \<or> i = Clock \<and> c = TASK_TTY \<and> key_pressed s \<noteq> 0"

definition ipc_fields :: "proc \<Rightarrow> u32 \<times> u32 \<times> int \<times> int" where
  "ipc_fields p = (p_flags p, p_msg p, p_recvfrom p, p_sendto p)"

definition others_kept :: "kstate \<Rightarrow> kstate \<Rightarrow> nat \<Rightarrow> bool" where
  "others_kept s t c \<longleftrightarrow> k_reenter t = k_reenter s \<and> key_pressed t = key_pressed s \<and>
     (\<forall>j. j \<noteq> c \<longrightarrow> p_flags (proc_table t j) = p_flags (proc_table s j) \<and>
        p_priority (proc_table t j) = p_priority (proc_table s j))"

lemma inform_int_keeps: "inform_int s t = Inr u \<Longrightarrow> k_reenter u = k_reenter s"
  by (auto simp: inform_int_def Let_def check_def unblock_def split: if_splits)

text \<open>The clock handler counts the tick before it calls \<^verbatim>\<open>inform_int\<close>.\<close>

lemma notified:
  assumes "notifies s i c" "k_reenter s = 0"
  obtains t where "\<And>u. inform_int t c = Inr u \<Longrightarrow> take_all [Nested i [] []] s = Inr (u\<lparr>k_reenter := 0\<rparr>)"
    "ipc_fields (proc_table t c) = ipc_fields (proc_table s c)" "others_kept s t c"
proof (cases i)
  case Clock
  with assms(1) have c: "c = TASK_TTY" "key_pressed s \<noteq> 0" by (auto simp: notifies_def)
  have "others_kept s (count_tick s) c" "ipc_fields (proc_table (count_tick s) c) = ipc_fields (proc_table s c)"
    by (simp_all add: others_kept_def ipc_fields_def count_tick_def Let_def)
  moreover have "take_all [Nested i [] []] s = Inr (u\<lparr>k_reenter := 0\<rparr>)"
    if "inform_int (count_tick s) c = Inr u" for u
    using that c assms(2) Clock inform_int_keeps [OF that]
    by (simp add: clock_handler_unfold count_tick_reenter inform_int_reenter count_tick_frame)
  ultimately show thesis using that by blast
next
  case Disk
  with assms(1) have c: "c = TASK_HD" by (simp add: notifies_def)
  have "take_all [Nested i [] []] s = Inr (u\<lparr>k_reenter := 0\<rparr>)" if "inform_int s c = Inr u" for u
    using that c assms(2) Disk inform_int_keeps [OF that] by (simp add: hd_handler_def inform_int_reenter)
  with that [of s] show thesis by (simp add: others_kept_def)
qed (use assms in \<open>auto simp: notifies_def\<close>)

text \<open>While the receiver has not yet set all three fields, the interrupt is left pending.\<close>

lemma notified_pending:
  assumes "notifies s i c" "k_reenter s = 0"
    and "p_flags (proc_table s c) = 0 \<or> p_recvfrom (proc_table s c) = NO_TASK"
  obtains t where "take_all [Nested i [] []] s = Inr t" "ipc_fields (proc_table t c) = ipc_fields (proc_table s c)"
    "has_int_msg (proc_table t c) = 1" "others_kept s t c"
proof -
  from notified [OF assms(1, 2)] obtain t where
    run: "\<And>u. inform_int t c = Inr u \<Longrightarrow> take_all [Nested i [] []] s = Inr (u\<lparr>k_reenter := 0\<rparr>)"
    and t: "ipc_fields (proc_table t c) = ipc_fields (proc_table s c)" "others_kept s t c" by blast
  have "inform_int t c = Inr (upd_proc c (\<lambda>p. p\<lparr>has_int_msg := 1\<rparr>) t)"
    using t(1) assms(3) by (auto simp: inform_int_def Let_def ipc_fields_def)
  from that [OF run [OF this]] t assms(2) show thesis
    by (simp add: ipc_fields_def others_kept_def upd_proc_def)
qed

text \<open>Once it has, the interrupt clears them again.\<close>

lemma notified_woken:
  assumes "notifies s i c" "k_reenter s = 0" "p_flags (proc_table s c) = RECEIVING"
    "p_recvfrom (proc_table s c) = ANY \<or> p_recvfrom (proc_table s c) = INTERRUPT" "p_sendto (proc_table s c) = NO_TASK"
  obtains t where "take_all [Nested i [] []] s = Inr t" "p_flags (proc_table t c) = 0"
proof -
  from notified [OF assms(1, 2)] obtain t where
    run: "\<And>u. inform_int t c = Inr u \<Longrightarrow> take_all [Nested i [] []] s = Inr (u\<lparr>k_reenter := 0\<rparr>)"
    and t: "ipc_fields (proc_table t c) = ipc_fields (proc_table s c)" by blast
  have "\<exists>u. inform_int t c = Inr u \<and> p_flags (proc_table u c) = 0"
    using t assms(3-5) by (auto simp: inform_int_def Let_def ipc_fields_def unblock_def upd_proc_def)
  with that run show thesis by fastforce
qed

section \<open>The race\<close>

text \<open>The rest of the waiting branch, from a state in which the interrupt is already pending.\<close>

lemma block_pending:
  assumes "runnable (proc_table s) j" "j \<noteq> c" "0 < p_priority (proc_table s j)"
    and "p_flags (proc_table s c) = RECEIVING" "p_msg (proc_table s c) \<noteq> 0"
    "p_recvfrom (proc_table s c) \<noteq> NO_TASK" "p_sendto (proc_table s c) = NO_TASK" "has_int_msg (proc_table s c) = 1"
  shows "bindE (block s c) (\<lambda>s. checks [(338, p_flags (proc_table s c) = RECEIVING),
      (339, p_msg (proc_table s c) \<noteq> 0), (340, p_recvfrom (proc_table s c) \<noteq> NO_TASK),
      (341, p_sendto (proc_table s c) = NO_TASK), (342, has_int_msg (proc_table s c) = 0)] (Inr s))
    = Inl (Assert 342)"
proof -
  obtain t where "schedule s = Some t" using schedule_total_iff [of s] assms(1, 3) by blast
  with assms show ?thesis by (simp add: block_def schedule_frame)
qed

abbreviation (input) only_at :: "nat \<Rightarrow> irq \<Rightarrow> nat \<Rightarrow> nested list" where
  "only_at l i \<equiv> (\<lambda>k. if k = l then [Nested i [] []] else [])"

lemma race_before_set:
  assumes ready: "ipc_fields (proc_table s c) = (0, 0, NO_TASK, NO_TASK)" "k_reenter s = 0"
    and notif: "notifies s i c" and other: "runnable (proc_table s) j" "j \<noteq> c" "0 < p_priority (proc_table s j)"
    and m: "m \<noteq> 0" and src: "src = ANY \<or> src = INTERRUPT" and l: "l = 333 \<or> l = 334 \<or> l = 335"
  shows "wait_irqs (only_at l i) s c src m = Inl (Assert 342)"
proof -
  let ?f = "\<lambda>s. upd_proc c (\<lambda>p. p\<lparr>p_flags := p_flags p OR RECEIVING\<rparr>) s"
  let ?m = "\<lambda>s. upd_proc c (\<lambda>p. p\<lparr>p_msg := m\<rparr>) s"
  let ?r = "\<lambda>s. upd_proc c (\<lambda>p. p\<lparr>p_recvfrom := src\<rparr>) s"
  define u where "u = (if l = 333 then s else if l = 334 then ?f s else ?m (?f s))"
  have "notifies u i c" "k_reenter u = 0"
    and "p_flags (proc_table u c) = 0 \<or> p_recvfrom (proc_table u c) = NO_TASK"
    using ready notif by (auto simp: u_def notifies_def ipc_fields_def upd_proc_def)
  from notified_pending [OF this] obtain t where t: "take_all [Nested i [] []] u = Inr t"
    "ipc_fields (proc_table t c) = ipc_fields (proc_table u c)" "has_int_msg (proc_table t c) = 1" "others_kept u t c"
    by blast
  define v where "v = (if l = 333 then ?r (?m (?f t)) else if l = 334 then ?r (?m t) else ?r t)"
  have "runnable (proc_table v) j" "0 < p_priority (proc_table v j)"
    using other t(4) l by (auto simp: v_def u_def others_kept_def runnable_def upd_proc_def)
  moreover have "p_flags (proc_table v c) = RECEIVING" "p_msg (proc_table v c) = m"
    "p_recvfrom (proc_table v c) = src" "p_sendto (proc_table v c) = NO_TASK" "has_int_msg (proc_table v c) = 1"
    using t(2, 3) ready(1) l by (auto simp: v_def u_def ipc_fields_def upd_proc_def)
  moreover have "wait_irqs (only_at l i) s c src m = bindE (block v c) (\<lambda>s.
      checks [(338, p_flags (proc_table s c) = RECEIVING), (339, p_msg (proc_table s c) \<noteq> 0),
      (340, p_recvfrom (proc_table s c) \<noteq> NO_TASK), (341, p_sendto (proc_table s c) = NO_TASK),
      (342, has_int_msg (proc_table s c) = 0)] (Inr s))"
    using t(1) l unfolding v_def u_def wait_irqs_def by (elim disjE) (simp_all add: Let_def del: take_nested.simps)
  ultimately show ?thesis
    using block_pending [of v j c] other(2) m src by auto
qed

lemma race_after_set:
  assumes ready: "ipc_fields (proc_table s c) = (0, 0, NO_TASK, NO_TASK)" "k_reenter s = 0"
    and notif: "notifies s i c" and src: "src = ANY \<or> src = INTERRUPT"
  shows "wait_irqs (only_at 336 i) s c src m = Inl (Assert 131)"
proof -
  let ?u = "upd_proc c (\<lambda>p. p\<lparr>p_recvfrom := src\<rparr>) (upd_proc c (\<lambda>p. p\<lparr>p_msg := m\<rparr>)
      (upd_proc c (\<lambda>p. p\<lparr>p_flags := p_flags p OR RECEIVING\<rparr>) s))"
  have "notifies ?u i c" "k_reenter ?u = 0" "p_flags (proc_table ?u c) = RECEIVING"
    "p_recvfrom (proc_table ?u c) = ANY \<or> p_recvfrom (proc_table ?u c) = INTERRUPT"
    "p_sendto (proc_table ?u c) = NO_TASK"
    using ready notif src by (auto simp: notifies_def ipc_fields_def upd_proc_def)
  from notified_woken [OF this] obtain t where "take_all [Nested i [] []] ?u = Inr t" "p_flags (proc_table t c) = 0"
    by blast
  then show ?thesis
    by (simp add: wait_irqs_def Let_def block_def del: take_nested.simps)
qed

lemma race_after_block:
  assumes ready: "ipc_fields (proc_table s c) = (0, 0, NO_TASK, NO_TASK)" "k_reenter s = 0"
    and notif: "notifies s i c" and other: "runnable (proc_table s) j" "j \<noteq> c" "0 < p_priority (proc_table s j)"
    and src: "src = ANY \<or> src = INTERRUPT"
  shows "wait_irqs (only_at 338 i) s c src m = Inl (Assert 338)"
proof -
  let ?u = "upd_proc c (\<lambda>p. p\<lparr>p_recvfrom := src\<rparr>) (upd_proc c (\<lambda>p. p\<lparr>p_msg := m\<rparr>)
      (upd_proc c (\<lambda>p. p\<lparr>p_flags := p_flags p OR RECEIVING\<rparr>) s))"
  have "runnable (proc_table ?u) j" "0 < p_priority (proc_table ?u j)"
    using other by (auto simp: runnable_def upd_proc_def)
  then obtain v where v: "schedule ?u = Some v" using schedule_total_iff [of ?u] by blast
  have "notifies v i c" "k_reenter v = 0" "p_flags (proc_table v c) = RECEIVING"
    "p_recvfrom (proc_table v c) = ANY \<or> p_recvfrom (proc_table v c) = INTERRUPT"
    "p_sendto (proc_table v c) = NO_TASK"
    using ready notif src by (auto simp: schedule_frame [OF v] notifies_def ipc_fields_def upd_proc_def)
  from notified_woken [OF this] obtain t where "take_all [Nested i [] []] v = Inr t" "p_flags (proc_table t c) = 0"
    by blast
  with v ready(1) show ?thesis
    by (simp add: wait_irqs_def Let_def block_def ipc_fields_def del: take_nested.simps)
qed

text \<open>
  C18. \<^verbatim>\<open>msg_receive\<close> races with the interrupt it waits for, because the kernel enables
  interrupts before it calls it. A task receives from \<^verbatim>\<open>INTERRUPT\<close>, or from anyone with no sender
  waiting, no interrupt is pending, and another process can run. If no interrupt falls inside the
  call, the task waits and the call returns. If its interrupt (the disk's for the disk task; a tick
  after a key press for the terminal task) falls before one of the three statements that record
  what the task waits for, it is left pending and the kernel stops in the assertion of line 342.
  If it falls after them and before \<^verbatim>\<open>block\<close>, it wakes the task before it sleeps and the kernel
  stops in the assertion of \<^verbatim>\<open>block\<close>; right after \<^verbatim>\<open>block\<close> has chosen the next process, in the
  assertion of line 338.
\<close>

theorem receive_race:
  assumes "kernel_ok s a" "c = p_proc_ready s" "m \<noteq> 0" "notifies s i c" "\<not> intp a c"
    and "src = ANY \<and> sendq a c = [] \<or> src = INTERRUPT" and "runnable (proc_table s) j" "j \<noteq> c"
  shows "(\<exists>s'. msg_receive_irqs (\<lambda>_. []) s c src m = Inr s' \<and> msg_receive s c src m = Inr s') \<and>
    (\<forall>l\<in>{333, 334, 335}. msg_receive_irqs (\<lambda>k. if k = l then [Nested i [] []] else []) s c src m
       = Inl (Assert 342)) \<and>
    msg_receive_irqs (\<lambda>k. if k = 336 then [Nested i [] []] else []) s c src m = Inl (Assert 131) \<and>
    msg_receive_irqs (\<lambda>k. if k = 338 then [Nested i [] []] else []) s c src m = Inl (Assert 338)"
proof -
  note k = kernel_okD [OF assms(1)]
  have c: "c < nr_slots" "stat a c = Ready" and src: "src = ANY \<or> src = INTERRUPT" "valid_src c src"
    using k(7, 8) assms(2, 6) by (auto simp: valid_src_def)
  have ready: "ipc_fields (proc_table s c) = (0, 0, NO_TASK, NO_TASK)" "has_int_msg (proc_table s c) = 0"
    using ipc_relD(1, 2) [OF k(1) c(1)] c(2) assms(5) by (auto simp: ipc_fields_def)
  have other: "0 < p_priority (proc_table s j)" using kernel_ok_priority [OF assms(1, 7)] .
  have none: "find_sender s c src = Inr None"
  proof (cases rule: msg_receive_cases [OF k(1-3) c assms(3) src(2), case_names interrupt take wait])
    case (take ys f zs)
    with assms(6) show ?thesis by auto
  qed (use assms(5) in simp_all)
  have eq: "msg_receive_irqs at s c src m = wait_irqs at s c src m" for at
    using none src(1) c(1) ready(2) by (auto simp: msg_receive_irqs_def)
  have "\<exists>s'. msg_receive s c src m = Inr s'"
  proof (cases "msg_receive s c src m")
    case (Inl e)
    have "valid_src (p_proc_ready s) src" "msg_receive s (p_proc_ready s) src m = Inl e"
      using src(2) Inl assms(2) by simp_all
    from msg_receive_fault [OF assms(1) this(1) assms(3) this(2)] show ?thesis
      using assms(2, 5, 7, 8) by auto
  qed simp
  then show ?thesis
    using race_before_set [OF ready(1) k(4) assms(4, 7, 8) other assms(3) src(1)]
      race_after_set [OF ready(1) k(4) assms(4) src(1)]
      race_after_block [OF ready(1) k(4) assms(4, 7, 8) other src(1)]
    by (simp add: msg_receive_no_irqs) (simp add: eq)
qed

text \<open>The disk task, about to wait for its interrupt.\<close>

theorem receive_race_witness:
  "\<exists>s. p_proc_ready s = TASK_HD \<and>
    (\<exists>s'. msg_receive_irqs (\<lambda>_. []) s TASK_HD INTERRUPT 0x1000 = Inr s') \<and>
    msg_receive_irqs (\<lambda>k. if k = 335 then [Nested Disk [] []] else []) s TASK_HD INTERRUPT 0x1000 = Inl (Assert 342) \<and>
    msg_receive_irqs (\<lambda>k. if k = 336 then [Nested Disk [] []] else []) s TASK_HD INTERRUPT 0x1000 = Inl (Assert 131)"
proof -
  let ?s = "demo_state\<lparr>p_proc_ready := TASK_HD\<rparr>"
  have same: "proc_table ?s = proc_table demo_state" by simp
  have "ipc_rel ?s boot_ipc" "segs_ok ?s"
    using demo_facts(1, 2) ipc_rel_cong [of ?s demo_state boot_ipc] by (simp_all add: segs_ok_def)
  with demo_facts have ok: "kernel_ok ?s boot_ipc"
    by (auto simp: kernel_ok_def runnable_def demo_state_def boot_ipc_def zero_proc_def)
  have run: "runnable (proc_table ?s) 5" using kernel_okD(9) [OF demo_kernel_ok] by (simp add: demo_state_def)
  have "notifies ?s Disk TASK_HD" "\<not> intp boot_ipc TASK_HD" "TASK_HD = p_proc_ready ?s"
    by (simp_all add: notifies_def boot_ipc_def)
  from receive_race [OF ok this(3) _ this(1, 2) _ run, where m = "0x1000" and src = INTERRUPT] show ?thesis
    by (intro exI [of _ ?s]) auto
qed

end
