(* ===== verification/Spec2Isabelle.thy ===== *)
theory Spec2Isabelle
  imports Fs_Dump Fs_Session Start Race
begin

text \<open>
  A verification development of DLOS, a small 32-bit protected-mode operating system kernel written in C.

  \<^bold>\<open>The program.\<close> The boot loader puts the kernel image into memory and jumps to \<^verbatim>\<open>cstart\<close> (\<^verbatim>\<open>kernel/start.c\<close>), which copies the descriptor
  table and calls \<^verbatim>\<open>init_prot\<close> (\<^verbatim>\<open>kernel/protect.c\<close>); \<^verbatim>\<open>kernel_main\<close> (\<^verbatim>\<open>kernel/main.c\<close>) fills the process table and starts the first of nine native processes:
  five tasks in ring 1 (TTY, SYS, HD, FS, MM) and four user processes. The processes share no data; they exchange messages of 48 bytes with the system call
  \<^verbatim>\<open>sendrec\<close> (\<^verbatim>\<open>sys_sendrec\<close> of \<^verbatim>\<open>kernel/proc.c\<close>), synchronously and without buffering: a sender that finds its receiver busy is queued at it, a receiver that finds
  nothing is blocked, and interrupts reach a task as messages from INTERRUPT (\<^verbatim>\<open>inform_int\<close>). The clock interrupt (\<^verbatim>\<open>kernel/clock.c\<close>) counts ticks and calls the
  scheduler. A user process opens, reads and writes files through library calls (\<^verbatim>\<open>lib/\<close>) that send a message to FS (\<^verbatim>\<open>fs/\<close>), which sends messages to
  HD (\<^verbatim>\<open>kernel/hd.c\<close>) for sectors and to TTY (\<^verbatim>\<open>kernel/tty.c\<close>) for terminals; TTY reads keys from the buffer the keyboard interrupt fills (\<^verbatim>\<open>kernel/keyboard.c\<close>) and writes to the
  consoles (\<^verbatim>\<open>kernel/console.c\<close>); MM (\<^verbatim>\<open>mm/\<close>) forks processes.

  \<^bold>\<open>Conventions of the model.\<close> Machine integers that wrap, or whose bits matter, are words of their width (\<^verbatim>\<open>u8\<close>, \<^verbatim>\<open>u16\<close>, \<^verbatim>\<open>u32\<close>); an \<^verbatim>\<open>int\<close> that only counts is
  an \<^verbatim>\<open>int\<close> or \<^verbatim>\<open>nat\<close>, with the cast written where one is made. Memory is a function from 32-bit addresses to bytes; structures the kernel copies as bytes
  (messages, descriptors, super blocks, inodes, directory entries) are read from and written to it byte by byte. Tables are functions from indices, pointers into tables
  are indices, null is None. Addresses the linker chooses are the argument \<^verbatim>\<open>label\<close>. Every operation returns a value of type \<^verbatim>\<open>result\<close>: Inr the new state, or Inl a fault.
  The faults are Assert and Panic with the line of the source, OutOfBounds for an access outside an array or through a null or unset pointer, and Hang for a call that waits
  for ever. So a theorem that an operation returns Inr says that no assertion fails, no panic is reached, no array is left and the operation ends. Recursion is structural or has a
  termination proof; loops that need not end (\<^verbatim>\<open>strlen\<close>, \<^verbatim>\<open>strcmp\<close>, the chain of \<^verbatim>\<open>deadlock\<close>, \<^verbatim>\<open>i2a\<close>, the transfers of \<^verbatim>\<open>hd_rdwt\<close>, \<^verbatim>\<open>milli_delay\<close>, the schedule loop) are partial functions into
  option, with the theorems that say when they return. No fuel is used anywhere.

  \<^bold>\<open>Interrupts.\<close> \<^verbatim>\<open>kernel.asm\<close> masks the line of an interrupt, enables interrupts again and calls the handler (lines 94 to 115 and 150 to 172); it also enables them before it calls the C function
  of a system call (line 317). So interrupts nest in system calls and in one another; \<^verbatim>\<open>k_reenter\<close> counts the depth, and only a handler at depth zero schedules. The step relation of the kernel has them: a
  step is the C function of a call or handler with two lists of trees of nested interrupts, those taken before the C function starts and those taken after it has returned and before interrupts are disabled.
  What is left out of the steps is an interrupt inside a C function. There the code is not correct: Race.receive_race writes the waiting branch of \<^verbatim>\<open>msg_receive\<close> with the points between its statements and shows that an
  interrupt for the receiving task stops the kernel at each of them. The theorems on a single C function (sending, receiving, delivering an interrupt) are about its uninterrupted run.

  \<^bold>\<open>Tasks.\<close> The main loop of the terminal task runs over the messages it receives, each with the keys that were pressed before. A task's handling of one message is otherwise one
  function, and a task that calls another (FS calls HD and TTY, MM calls FS, the library calls FS) applies that function; Sendrecv.call_answered justifies
  this: when a process sends to a task that is receiving and the task answers, each gets the other's message unchanged and both can run again. A call that is not answered in its own turn (a read from a terminal, which the file system answers
  when the terminal task resumes the reader) waits while the file system serves later messages, which are an argument (Syscalls.await). A send of the terminal task makes the checks of the kernel, the search for a deadlock
  among them, and puts the message into a list; a task that has to wait for its partner goes on after the wait.

  \<^bold>\<open>The theories.\<close>
  \<^item> Dlos_Prelude, Dlos_Params: words, memory, faults, copying; the parameters of the headers under \<^verbatim>\<open>include/sys/\<close>. Clib: \<^verbatim>\<open>lib/misc.c\<close>, \<^verbatim>\<open>lib/klib.c\<close> and the string routines
    of \<^verbatim>\<open>lib/string.asm\<close>. Vsprintf: \<^verbatim>\<open>lib/vsprintf.c\<close>.
  \<^item> Protect: descriptors and gates of \<^verbatim>\<open>kernel/protect.c\<close> and \<^verbatim>\<open>include/sys/protect.h\<close>. Boot: \<^verbatim>\<open>init_prot\<close>, \<^verbatim>\<open>init_8259A\<close>, \<^verbatim>\<open>get_kernel_map\<close>, \<^verbatim>\<open>kernel_main\<close>. Start: \<^verbatim>\<open>cstart\<close>.
  \<^item> Proc: the process table and \<^verbatim>\<open>schedule\<close>. Ipc: \<^verbatim>\<open>sys_sendrec\<close>, \<^verbatim>\<open>msg_send\<close>, \<^verbatim>\<open>msg_receive\<close>, \<^verbatim>\<open>deadlock\<close>, \<^verbatim>\<open>inform_int\<close> as written, with the queues as links in the process table.
    Ipc_Spec: the abstract message layer, where a process is ready, sending, receiving or unused and a queue is a list. Ipc_Refine: every operation implements its specification.
    Kernel: the clock, nested interrupts, the step relation of the whole kernel and its invariant. Race: \<^verbatim>\<open>msg_receive\<close> with interrupts between its statements. Sendrecv: \<^verbatim>\<open>send_recv\<close>. Message: the MESSAGE structure.
  \<^item> Ringbuf: the interface of a bounded first-in first-out buffer, interpreted for the scan codes in Keyboard (\<^verbatim>\<open>kernel/keyboard.c\<close>) and the keys in Tty (\<^verbatim>\<open>kernel/tty.c\<close>).
    Console: \<^verbatim>\<open>kernel/console.c\<close>.
  \<^item> Sector_Store: the interface of a store of sectors with one buffer, interpreted in Fs for the root device. Hd: \<^verbatim>\<open>kernel/hd.c\<close>. Fs: tables, sectors, inodes, search (\<^verbatim>\<open>fs/main.c\<close>, \<^verbatim>\<open>fs/misc.c\<close>).
    Fs_Alloc, Fs_Create, Fs_Open: \<^verbatim>\<open>fs/open.c\<close>. Fs_Rdwt: \<^verbatim>\<open>fs/read_write.c\<close>. Fs_Unlink: \<^verbatim>\<open>fs/link.c\<close>. Fs_Main: \<^verbatim>\<open>mkfs\<close>, \<^verbatim>\<open>init_fs\<close> and the requests of \<^verbatim>\<open>task_fs\<close>.
    Fs_Log, Fs_Dump: \<^verbatim>\<open>fs/disklog.c\<close>, and the whole turn of \<^verbatim>\<open>task_fs\<close> with its report.
  \<^item> Mm: \<^verbatim>\<open>mm/main.c\<close>, \<^verbatim>\<open>mm/forkexit.c\<close>. Syscalls: \<^verbatim>\<open>kernel/systask.c\<close> and the calls of \<^verbatim>\<open>lib/\<close>, \<^verbatim>\<open>panic\<close>, \<^verbatim>\<open>milli_delay\<close>.
    Fs_Session: a whole session of library calls, with the predicates that describe a file at rest (\<^verbatim>\<open>stored\<close>) and in use (\<^verbatim>\<open>held\<close>) between them.

  \<^bold>\<open>What is shown.\<close> For the kernel: from the loader's tables the boot reaches a state with the kernel invariant; every run from there, with nested interrupts, is simulated by the message specification and keeps the
  invariant; an uninterrupted system call stops only for one of seven listed reasons, a clock tick at any depth never; an interrupt at the wrong moment of a receive stops the kernel; the scheduler picks the first process with the longest time slice and returns exactly when some process can
  run. For the devices: the buffers lose only what does not fit; a console never writes outside its part of the video memory; a read of a terminal is suspended and returns the edited line once it has been typed; what the disk driver writes it
  reads back, and partitions are those of the tables. For the file system: searches agree with the list of directory entries; the allocation takes the first free bits and no others; a created file is found, an opened
  one has its descriptor and inode counted (\<^verbatim>\<open>refs_ok\<close>), closing and exiting release them; written bytes are read back; what one process with flat segments saves through the library (up to 256 sectors) another can load, whatever happened to memory in between; removal clears exactly the file's bits, inode and entry; a fresh disk is
  formatted and mounted; the log and the report append their text and change nothing else. For the rest: fork gives the child a copy of the parent's memory at a place of its own.
  Theorems of kind error show behaviour that is not what the code means to do; each is stated for the code as it is.

  The assumptions of the theorems are states of the program (\<^verbatim>\<open>kernel_ok\<close>, \<^verbatim>\<open>screen_ok\<close>, \<^verbatim>\<open>tty_ok\<close>, \<^verbatim>\<open>disk_ok\<close>, \<^verbatim>\<open>mounted\<close>, \<^verbatim>\<open>refs_ok\<close>, \<^verbatim>\<open>log_at\<close>), each kept by the operations and
  established by the start of its component or shown to hold in an example. The root partition is taken to lie within the first 2 to the power 28 sectors and to have fewer than 2 to the power 23, since byte positions
  on a device are 32 bits wide. What the model knows of hardware is a parameter or part of a state record: the disk controller is the sectors it holds and the registers of the last command (\<^verbatim>\<open>ata\<close>), the ELF
  layout of the kernel image is \<^verbatim>\<open>elf_abi\<close>, port writes are recorded in order.

  \<^bold>\<open>Not modelled.\<close> The boot sector and the loader (\<^verbatim>\<open>boot/\<close>) and, of the assembly entry points (\<^verbatim>\<open>kernel/kernel.asm\<close>, \<^verbatim>\<open>lib/kliba.asm\<close>), the saving and restoring of registers and the privilege switches; interrupts inside
  C functions other than \<^verbatim>\<open>msg_receive\<close>; the test programs (\<^verbatim>\<open>test/\<close>), scripts and images. The routines that only print on the screen: \<^verbatim>\<open>exception_handler\<close>, \<^verbatim>\<open>spurious_irq\<close>, \<^verbatim>\<open>dump_proc\<close>, \<^verbatim>\<open>dump_msg\<close>, \<^verbatim>\<open>disp_int\<close>, the print routines of
  \<^verbatim>\<open>kernel/hd.c\<close>, and the texts that other functions print with \<^verbatim>\<open>printl\<close> and \<^verbatim>\<open>disp_str\<close> on their way. Busy waiting: \<^verbatim>\<open>delay\<close>, \<^verbatim>\<open>spin\<close>, the polling of the keyboard and disk controllers (taken
  to end, or for the disk to end in its panic). The test processes Init, TestA, TestB and TestC, which start with an endless loop or only call the library. \<^verbatim>\<open>fork\<close> of the C library is declared but has no source.
\<close>

end
